(* ===== verification/Prelude.thy ===== *)
theory Prelude
  imports Main "HOL-Library.Word" "HOL-Library.Monad_Syntax"
begin

unbundle bit_operations_syntax

text \<open>
  Shared base of the development.

  \<^item> Names for the machine integers of the C sources (LP64: \<open>unsigned long\<close> is \<open>u64\<close>).
  \<^item> C arrays as lists whose accesses out of bounds are the value \<open>None\<close>
    (undefined behaviour in C), never an unspecified HOL value.
  \<^item> Generic reachability of a step relation and the locale \<open>invariant_system\<close>, through which
    every state machine of the development gets its safety theorems.
  \<^item> Generic facts on words and lists, collected in \<open>word_facts\<close> and \<open>list_facts\<close>.
\<close>

named_theorems word_facts "bit-level facts on machine words"
named_theorems list_facts "facts on lists used as C arrays"

type_synonym u8 = "8 word"
type_synonym u16 = "16 word"
type_synonym u32 = "32 word"
type_synonym u64 = "64 word"

subsection \<open>C arrays\<close>

text \<open>A store \<open>buf[i] = v\<close> and a load \<open>buf[i]\<close>; outside the array they are \<open>None\<close>.\<close>

definition c_store :: "'a list \<Rightarrow> nat \<Rightarrow> 'a \<Rightarrow> 'a list option" where
  "c_store buf i v = (if i < length buf then Some (buf[i := v]) else None)"

definition c_load :: "'a list \<Rightarrow> nat \<Rightarrow> 'a option" where
  "c_load buf i = (if i < length buf then Some (buf ! i) else None)"

lemma c_store_in [simp]: "i < length buf \<Longrightarrow> c_store buf i v = Some (buf[i := v])"
  by (simp add: c_store_def)

lemma c_store_out [simp]: "length buf \<le> i \<Longrightarrow> c_store buf i v = None"
  by (simp add: c_store_def)

lemma c_store_Some_iff: "c_store buf i v = Some b \<longleftrightarrow> i < length buf \<and> b = buf[i := v]"
  by (auto simp: c_store_def)

lemma c_load_in [simp]: "i < length buf \<Longrightarrow> c_load buf i = Some (buf ! i)"
  by (simp add: c_load_def)

lemma c_load_out [simp]: "length buf \<le> i \<Longrightarrow> c_load buf i = None"
  by (simp add: c_load_def)

lemma c_load_append1 [simp]: "i < length xs \<Longrightarrow> c_load (xs @ ys) i = Some (xs ! i)"
  by (simp add: c_load_def nth_append)

text \<open>A loop body either leaves the function with a value or goes on with new locals.\<close>

datatype ('r, 's) flow = Return 'r | Continue 's

text \<open>Writing a run of values from an offset on, as the pointer walks of the sources do.\<close>

definition overwrite :: "'a list \<Rightarrow> nat \<Rightarrow> 'a list \<Rightarrow> 'a list" where
  "overwrite buf k xs = take k buf @ xs @ drop (k + length xs) buf"

lemma length_overwrite [simp]:
  "k + length xs \<le> length buf \<Longrightarrow> length (overwrite buf k xs) = length buf"
  by (simp add: overwrite_def)

lemma overwrite_Nil [simp]: "overwrite buf k [] = buf"
  by (simp add: overwrite_def)

lemma overwrite_append:
  "k + length xs + length ys \<le> length buf \<Longrightarrow>
   overwrite (overwrite buf k xs) (k + length xs) ys = overwrite buf k (xs @ ys)"
  by (simp add: overwrite_def ac_simps)

lemma take_overwrite:
  "k + length xs \<le> length buf \<Longrightarrow> take (k + length xs) (overwrite buf k xs) = take k buf @ xs"
  by (simp add: overwrite_def)

lemma drop_overwrite:
  "k + length xs \<le> length buf \<Longrightarrow> drop (k + length xs) (overwrite buf k xs) = drop (k + length xs) buf"
  by (simp add: overwrite_def)

subsection \<open>C strings\<close>

definition NUL :: char where "NUL = CHR 0x00"

definition newline :: char where "newline = CHR 0x0A"

text \<open>The string that begins where a region does.\<close>

definition c_string :: "string \<Rightarrow> string" where
  "c_string region = takeWhile (\<lambda>c. c \<noteq> NUL) region"

lemma NUL_newline [simp]: "NUL \<noteq> newline" "newline \<noteq> NUL"
  by (simp_all add: NUL_def newline_def)

lemma c_string_NUL [simp]: "NUL \<notin> set s \<Longrightarrow> c_string (s @ NUL # rest) = s"
  unfolding c_string_def by (subst takeWhile_append2) auto

subsection \<open>Numbers on a command line\<close>

definition is_digit :: "char \<Rightarrow> bool" where
  "is_digit c \<longleftrightarrow> 48 \<le> (of_char c :: nat) \<and> (of_char c :: nat) \<le> 57"

definition is_space :: "char \<Rightarrow> bool" where
  "is_space c \<longleftrightarrow> c = CHR '' '' \<or> 9 \<le> (of_char c :: nat) \<and> (of_char c :: nat) \<le> 13"

text \<open>The number at the beginning of a string, after white space and with a sign.\<close>

definition leading_number :: "string \<Rightarrow> int" where
  "leading_number s =
     (let s = dropWhile is_space s;
          neg = (s \<noteq> [] \<and> hd s = CHR ''-'');
          s = (if s \<noteq> [] \<and> (hd s = CHR ''-'' \<or> hd s = CHR ''+'') then tl s else s);
          n = foldl (\<lambda>n c. 10 * n + (int (of_char c) - 48)) 0 (takeWhile is_digit s)
      in if neg then - n else n)"

text \<open>\<open>atoi\<close> and \<open>atol\<close> are undefined where the number does not fit their type.\<close>

definition atoi :: "string \<Rightarrow> int option" where
  "atoi s = (let n = leading_number s in if - (2 ^ 31) \<le> n \<and> n < 2 ^ 31 then Some n else None)"

definition atol :: "string \<Rightarrow> int option" where
  "atol s = (let n = leading_number s in if - (2 ^ 63) \<le> n \<and> n < 2 ^ 63 then Some n else None)"

text \<open>The conversion of a wider integer to \<open>int\<close>.\<close>

definition to_int32 :: "int \<Rightarrow> int" where
  "to_int32 x = (x + 2 ^ 31) mod 2 ^ 32 - 2 ^ 31"

lemma to_int32_id: "- (2 ^ 31) \<le> x \<Longrightarrow> x < 2 ^ 31 \<Longrightarrow> to_int32 x = x"
  by (simp add: to_int32_def)

text \<open>A run of a program whose loops are driven by the answers of its environment: it ends with a
  result, reaches undefined behaviour, or waits for another answer.\<close>

datatype 'a run = Ends 'a | Undefined | Waits

text \<open>What \<open>printf\<close> prints for \<open>%d\<close>.\<close>

fun decimal :: "nat \<Rightarrow> string" where
  "decimal n = (if n < 10 then [char_of (48 + n)] else decimal (n div 10) @ [char_of (48 + n mod 10)])"

declare decimal.simps [simp del]

subsection \<open>Step relations, reachable states, invariants\<close>

inductive reachable :: "('s \<Rightarrow> bool) \<Rightarrow> ('s \<Rightarrow> 's \<Rightarrow> bool) \<Rightarrow> 's \<Rightarrow> bool"
  for init :: "'s \<Rightarrow> bool" and step :: "'s \<Rightarrow> 's \<Rightarrow> bool" where
  reach_init: "init s \<Longrightarrow> reachable init step s"
| reach_step: "reachable init step s \<Longrightarrow> step s t \<Longrightarrow> reachable init step t"

lemma reachable_rtranclp: "reachable init step s \<Longrightarrow> step\<^sup>*\<^sup>* s t \<Longrightarrow> reachable init step t"
  by (rotate_tac, induction rule: rtranclp_induct) (auto intro: reach_step)

text \<open>A state predicate that holds initially and that every step keeps holds wherever the
  machine can get. Each machine below interprets this locale with its own invariant.\<close>

locale invariant_system =
  fixes init :: "'s \<Rightarrow> bool"
    and step :: "'s \<Rightarrow> 's \<Rightarrow> bool"
    and inv :: "'s \<Rightarrow> bool"
  assumes inv_init: "init s \<Longrightarrow> inv s"
    and inv_step: "inv s \<Longrightarrow> step s t \<Longrightarrow> inv t"
begin

lemma reachable_inv: "reachable init step s \<Longrightarrow> inv s"
  by (induction rule: reachable.induct) (auto intro: inv_init inv_step)

lemma inv_rtranclp: "step\<^sup>*\<^sup>* s t \<Longrightarrow> inv s \<Longrightarrow> inv t"
  by (induction rule: rtranclp_induct) (auto intro: inv_step)

end

text \<open>A lock: a machine whose invariant allows one holder at a time.\<close>

locale lock_system = invariant_system init step inv
  for init :: "'s \<Rightarrow> bool" and step :: "'s \<Rightarrow> 's \<Rightarrow> bool" and inv :: "'s \<Rightarrow> bool" +
  fixes holds :: "'s \<Rightarrow> nat \<Rightarrow> bool"
  assumes one_holder: "inv s \<Longrightarrow> holds s i \<Longrightarrow> holds s j \<Longrightarrow> i = j"
begin

lemma mutual_exclusion: "reachable init step s \<Longrightarrow> holds s i \<Longrightarrow> holds s j \<Longrightarrow> i = j"
  using reachable_inv one_holder by blast

lemma exclusion_along: "reachable init step s \<Longrightarrow> step\<^sup>*\<^sup>* s t \<Longrightarrow> holds t i \<Longrightarrow> holds t j \<Longrightarrow> i = j"
  using reachable_inv inv_rtranclp one_holder by blast

end

text \<open>A lock on which somebody can always go on: whenever a thread is engaged with the lock, an
  engaged thread has a step that changes the state.\<close>

locale progress_lock = lock_system init step inv holds
  for init :: "'s \<Rightarrow> bool" and step :: "'s \<Rightarrow> 's \<Rightarrow> bool" and inv :: "'s \<Rightarrow> bool"
    and holds :: "'s \<Rightarrow> nat \<Rightarrow> bool" +
  fixes engaged :: "'s \<Rightarrow> nat \<Rightarrow> bool" and run :: "nat \<Rightarrow> 's \<Rightarrow> 's"
  assumes run_step: "engaged s i \<Longrightarrow> inv s \<Longrightarrow> step s (run i s)"
    and some_progress: "inv s \<Longrightarrow> engaged s i \<Longrightarrow> \<exists>j. engaged s j \<and> run j s \<noteq> s"
begin

lemma no_deadlock:
  assumes "reachable init step s" "engaged s i"
  shows "\<exists>j. engaged s j \<and> run j s \<noteq> s \<and> step s (run j s)"
  using some_progress [OF reachable_inv [OF assms(1)] assms(2)] run_step reachable_inv [OF assms(1)] by blast

end

text \<open>A machine with a potential that every step lowers, but for steps that only wait: each of them is counted
  in \<open>waits\<close> and may raise the potential by less than \<open>price\<close>.\<close>

locale paced_system = invariant_system init step inv
  for init :: "'s \<Rightarrow> bool" and step :: "'s \<Rightarrow> 's \<Rightarrow> bool" and inv :: "'s \<Rightarrow> bool" +
  fixes potential :: "'s \<Rightarrow> nat" and waits :: "'s \<Rightarrow> nat" and price :: nat
  assumes step_price: "inv s \<Longrightarrow> step s t \<Longrightarrow> potential t + 1 + price * waits s \<le> potential s + price * waits t"
begin

lemma run_price:
  assumes "init s" "(step ^^ n) s t"
  shows "inv t \<and> n + potential t + price * waits s \<le> potential s + price * waits t"
  using assms(2)
proof (induction n arbitrary: t)
  case 0
  then show ?case using inv_init [OF assms(1)] by simp
next
  case (Suc n)
  then obtain u where u: "(step ^^ n) s u" "step u t" by auto
  then have "inv u" "n + potential u + price * waits s \<le> potential s + price * waits u" using Suc.IH by auto
  then show ?case using inv_step [OF _ u(2)] step_price [OF _ u(2)] by force
qed

end

text \<open>A protocol that ends: every step keeps an invariant and lowers a measure, and as long as it is not
  done some step can be made. The steps of the theorem may be fewer than those of the assumptions, as
  long as they never stop first.\<close>

locale ending_protocol = invariant_system init step inv
  for init :: "'s \<Rightarrow> bool" and step :: "'s \<Rightarrow> 's \<Rightarrow> bool" and inv :: "'s \<Rightarrow> bool" +
  fixes left :: "'s \<Rightarrow> nat" and finished :: "'s \<Rightarrow> bool"
  assumes step_left: "inv s \<Longrightarrow> step s t \<Longrightarrow> left t < left s"
    and enabled: "inv s \<Longrightarrow> \<not> finished s \<Longrightarrow> \<exists>t. step s t"
    and finished_left: "inv s \<Longrightarrow> finished s \<Longrightarrow> left s = 0"
begin

lemma run_inv:
  assumes "inv s" "(step ^^ n) s t"
  shows "inv t \<and> left t + n \<le> left s"
  using assms(2)
proof (induction n arbitrary: t)
  case 0
  then show ?case using assms(1) by simp
next
  case (Suc n)
  then obtain u where u: "(step ^^ n) s u" "step u t" by auto
  then have "inv u" "left u + n \<le> left s" using Suc.IH by auto
  then show ?case using inv_step [OF _ u(2)] step_left [OF _ u(2)] by force
qed

lemma reaches_end: "inv s \<Longrightarrow> \<exists>n t. (step ^^ n) s t \<and> finished t \<and> (\<nexists>u. step t u)"
proof (induction "left s" arbitrary: s rule: less_induct)
  case less
  show ?case
  proof (cases "finished s")
    case True
    then have "\<nexists>u. step s u" using finished_left step_left less.prems by fastforce
    then show ?thesis using True by (intro exI [of _ 0] exI [of _ s]) simp
  next
    case False
    then obtain u where u: "step s u" using enabled less.prems by blast
    then obtain n t where "(step ^^ n) u t" "finished t" "\<nexists>v. step t v"
      using less.hyps [of u] step_left inv_step less.prems by blast
    moreover have "(step ^^ Suc n) s t" using u calculation(1) by (rule relpowp_Suc_I2)
    ultimately show ?thesis by blast
  qed
qed

lemma relpowp_mono':
  assumes "\<And>s t. step' s t \<Longrightarrow> step s t" "(step' ^^ n) s t"
  shows "(step ^^ n) s t"
  using assms(2)
proof (induction n arbitrary: t)
  case (Suc n)
  then obtain u where "(step' ^^ n) s u" "step' u t" by auto
  then show ?case using Suc.IH assms(1) by auto
qed simp

lemma ends:
  assumes sub: "\<And>s t. step' s t \<Longrightarrow> step s t" and fair: "\<And>s t. step s t \<Longrightarrow> \<exists>u. step' s u"
    and i: "init s" and run: "(step' ^^ n) s t"
  shows "n \<le> left s" "(\<exists>u. step' t u) \<longleftrightarrow> \<not> finished t"
proof -
  have r: "inv t \<and> left t + n \<le> left s" using run_inv inv_init i relpowp_mono' sub run by blast
  then show "n \<le> left s" by simp
  show "(\<exists>u. step' t u) \<longleftrightarrow> \<not> finished t"
    using r enabled [of t] fair sub step_left [of t] finished_left [of t] by fastforce
qed

end

text \<open>Sums over the threads of a machine, when one of them moves.\<close>

lemma sum_upd:
  fixes w :: "'a \<Rightarrow> nat" and n :: nat
  assumes "i < n"
  shows "(\<Sum>j<n. w ((f(i := x)) j)) + w (f i) = (\<Sum>j<n. w (f j)) + w x"
proof -
  have "(\<Sum>j<n. w ((f(i := x)) j)) = w x + (\<Sum>j\<in>{..<n} - {i}. w (f j))"
    using assms by (subst sum.remove [of _ i]) (auto intro: sum.cong)
  moreover have "(\<Sum>j<n. w (f j)) = w (f i) + (\<Sum>j\<in>{..<n} - {i}. w (f j))" using assms by (subst sum.remove [of _ i]) auto
  ultimately show ?thesis by simp
qed

lemma sum_less_card: "(\<Sum>j<n. w j) < (n :: nat) \<Longrightarrow> \<exists>j<n. w j = (0 :: nat)"
  by (rule ccontr) (use sum_mono [of "{..<n}" "\<lambda>_. 1" w] in \<open>fastforce simp: Suc_le_eq\<close>)

subsection \<open>Words\<close>

lemma bit_above [word_facts]:
  fixes x :: "'a::len word"
  assumes "x < 2 ^ k" and "k \<le> n"
  shows "\<not> bit x n"
proof
  assume "bit x n"
  then have n: "n < LENGTH('a)" and b: "bit (unat x) n"
    by (auto dest: bit_imp_le_length simp: bit_unsigned_iff)
  from assms(1) have "(0 :: 'a word) < 2 ^ k"
    by (rule le_less_trans [OF word_zero_le])
  with assms(1) have "uint x < 2 ^ k"
    by (simp add: word_less_def uint_2p)
  then have "unat x < 2 ^ k"
    by (metis nat_less_iff of_nat_numeral of_nat_power unat_eq_nat_uint unsigned_greater_eq)
  then have "take_bit k (unat x) = unat x"
    by (simp add: take_bit_nat_eq_self)
  with b assms(2) show False
    by (metis bit_take_bit_iff not_less)
qed

lemma all_bytes:
  assumes "list_all P (map of_nat [0..<256])"
  shows "P (b :: u8)"
proof -
  have "b \<in> set (map of_nat [0..<256])"
    by (auto intro!: image_eqI [of _ _ "unat b"]) (use unsigned_less [of b] in simp)
  then show ?thesis
    using assms unfolding list_all_iff by blast
qed

text \<open>The word a little-endian machine reads from a run of bytes.\<close>

primrec le_word :: "u8 list \<Rightarrow> 'a::len word" where
  "le_word [] = 0"
| "le_word (b # bs) = ucast b OR push_bit 8 (le_word bs)"

lemma bit_le_word [word_facts]:
  "bit (le_word bs :: 'a::len word) n \<longleftrightarrow>
     n < LENGTH('a) \<and> n < 8 * length bs \<and> bit (bs ! (n div 8)) (n mod 8)"
proof (induction bs arbitrary: n)
  case Nil
  then show ?case by simp
next
  case (Cons b bs)
  show ?case
  proof (cases "n < 8")
    case True
    then show ?thesis by (auto simp: bit_simps)
  next
    case False
    then have "\<not> bit b n"
      using bit_imp_le_length [of b n] by auto
    moreover have "(n - 8) div 8 = n div 8 - 1" "(n - 8) mod 8 = n mod 8"
      using False by (simp_all add: le_div_geq le_mod_geq)
    moreover have "n div 8 \<noteq> 0" "n - 8 < 8 * length bs \<longleftrightarrow> n < 8 + 8 * length bs"
      using False by auto
    ultimately show ?thesis
      using False Cons.IH [of "n - 8"] by (auto simp: bit_simps nth_Cons' le_diff_conv2)
  qed
qed

lemma byte_high_bit [word_facts]: "b < 0x80 \<longleftrightarrow> \<not> bit b 7" for b :: u8
  by (rule all_bytes) code_simp

end
