(* ===== verification/Utf8Codec.thy ===== *)
theory Utf8Codec
  imports Prelude
begin

unbundle bit_operations_syntax

text \<open>
  The UTF-8 encoder and decoder of \<open>src/ceph-utf8/ceph-utf8.c\<close> (table-driven \<open>encode_utf8\<close>,
  unrolled \<open>encode_utf8_quick\<close>, \<open>decode_utf8\<close>, the self check of \<open>main\<close>) and the copy of the
  unrolled encoder in \<open>src/ceph-utf8/bench-inline.c\<close>.

  A \<open>buf\<close> argument is the array from the pointer on. A store or load outside it is
  undefined behaviour and makes the result \<open>None\<close>. \<open>utf8_bytes\<close> is the abstract
  specification both encoders are proved against.
\<close>

subsection \<open>Counting the leading one bits\<close>

definition MAX_UTF8_SZ :: nat where "MAX_UTF8_SZ = 6"

definition INVALID_UTF8_CHAR :: u64 where "INVALID_UTF8_CHAR = 0xffffffff"

lemma top_bit_shift_less:
  fixes c :: u32
  assumes "c AND 0x80 = 0x80"
  shows "unat (take_bit 8 (push_bit 1 c)) < unat (take_bit 8 c)"
proof -
  have b: "bit c 7"
  proof -
    have "bit (c AND 0x80) 7" by (simp add: assms)
    then show ?thesis by (simp add: bit_and_iff)
  qed
  define n where "n = take_bit 8 (unat c)"
  have bn: "bit n 7"
    using b by (simp add: n_def bit_take_bit_iff bit_unsigned_iff)
  have ge: "128 \<le> n"
  proof (rule ccontr)
    assume "\<not> 128 \<le> n"
    then have "take_bit 7 n = n" by (simp add: take_bit_nat_eq_self)
    with bn show False by (metis bit_take_bit_iff less_irrefl)
  qed
  have lt: "n < 256"
    using take_bit_nat_less_exp [of 8 "unat c"] by (simp add: n_def)
  have "unat (take_bit 8 (push_bit 1 c)) = take_bit 8 (take_bit LENGTH(32) (push_bit 1 (unat c)))"
    by (simp only: unsigned_take_bit_eq unsigned_push_bit_eq)
  also have "\<dots> = (2 * n) mod 256"
    by (simp add: n_def take_bit_eq_mod push_bit_eq_mult mod_mod_cancel mod_mult_right_eq mult.commute)
  also have "\<dots> = 2 * n - 256"
    using ge lt by (simp add: le_mod_geq)
  also have "\<dots> < n" using ge lt by linarith
  also have "n = unat (take_bit 8 c)"
    by (simp add: n_def unsigned_take_bit_eq)
  finally show ?thesis .
qed

function high_bits_loop :: "u32 \<Rightarrow> nat \<Rightarrow> nat" where
  "high_bits_loop c ret =
     (if c AND 0x80 \<noteq> 0x80 then ret else high_bits_loop (push_bit 1 c) (ret + 1))"
  by pat_completeness auto
termination
  by (relation "measure (\<lambda>(c, ret). unat (take_bit 8 c))")
    (simp_all only: wf_measure in_measure case_prod_conv not_not top_bit_shift_less)

declare high_bits_loop.simps [simp del]

definition high_bits_set :: "u32 \<Rightarrow> nat" where
  "high_bits_set c = high_bits_loop c 0"

subsection \<open>The table-driven encoder\<close>

definition max_val :: "u64 list" where
  "max_val = [0x7f, 0x7ff, 0xffff, 0x1fffff, 0x3ffffff, 0x7fffffff]"

text \<open>The search loop over \<open>max_val\<close>; its result is the final \<open>i\<close>.\<close>

fun find_class :: "u64 \<Rightarrow> u64 list \<Rightarrow> nat \<Rightarrow> nat" where
  "find_class u [] i = i"
| "find_class u (m # ms) i = (if u \<le> m then i else find_class u ms (i + 1))"

text \<open>The loop \<open>for (j = i; j > 0; --j)\<close> over the trailing bytes.\<close>

fun put_tail :: "nat \<Rightarrow> u64 \<Rightarrow> u8 list \<Rightarrow> (u64 \<times> u8 list) option" where
  "put_tail 0 u buf = Some (u, buf)"
| "put_tail (Suc j) u buf = do {
     buf' \<leftarrow> c_store buf (Suc j) (ucast (0x80 OR (u AND 0x3f)));
     put_tail j (drop_bit 6 u) buf'
   }"

definition lead_mask :: "nat \<Rightarrow> u8" where
  "lead_mask i = ucast (NOT (drop_bit (i + 1) (0xff :: u32)))"

definition encode_utf8 :: "u64 \<Rightarrow> u8 list \<Rightarrow> (int \<times> u8 list) option" where
  "encode_utf8 u buf =
     (let i = find_class u max_val 0 in
      if i = length max_val then Some (-1, buf)
      else if i = 0 then do {
        buf' \<leftarrow> c_store buf 0 (ucast u);
        Some (int i + 1, buf')
      } else do {
        (u', buf') \<leftarrow> put_tail i u buf;
        buf'' \<leftarrow> c_store buf' 0 (ucast (ucast (lead_mask i) OR u'));
        Some (int i + 1, buf'')
      })"

subsection \<open>The unrolled encoder\<close>

definition encode_utf8_quick :: "u64 \<Rightarrow> u8 list \<Rightarrow> (int \<times> u8 list) option" where
  "encode_utf8_quick u buf =
     (if u \<le> 0x7f then do {
        b \<leftarrow> c_store buf 0 (ucast u);
        Some (1, b)
      } else if u \<le> 0x7ff then do {
        b \<leftarrow> c_store buf 0 (ucast (0xc0 OR drop_bit 6 u));
        b \<leftarrow> c_store b 1 (ucast (0x80 OR (u AND 0x3f)));
        Some (2, b)
      } else if u \<le> 0xffff then do {
        b \<leftarrow> c_store buf 0 (ucast (0xe0 OR drop_bit 12 u));
        b \<leftarrow> c_store b 1 (ucast (0x80 OR (drop_bit 6 u AND 0x3f)));
        b \<leftarrow> c_store b 2 (ucast (0x80 OR (u AND 0x3f)));
        Some (3, b)
      } else if u \<le> 0x1fffff then do {
        b \<leftarrow> c_store buf 0 (ucast (0xf0 OR drop_bit 18 u));
        b \<leftarrow> c_store b 1 (ucast (0x80 OR (drop_bit 12 u AND 0x3f)));
        b \<leftarrow> c_store b 2 (ucast (0x80 OR (drop_bit 6 u AND 0x3f)));
        b \<leftarrow> c_store b 3 (ucast (0x80 OR (u AND 0x3f)));
        Some (4, b)
      } else if u \<le> 0x3ffffff then do {
        (u', b) \<leftarrow> put_tail 4 u buf;
        b \<leftarrow> c_store b 0 (ucast (0xf8 OR u'));
        Some (5, b)
      } else if u \<le> 0x7fffffff then do {
        (u', b) \<leftarrow> put_tail 5 u buf;
        b \<leftarrow> c_store b 0 (ucast (0xfc OR u'));
        Some (6, b)
      } else Some (-1, buf))"

subsection \<open>The decoder\<close>

text \<open>The loop over the trailing bytes, with \<open>k = nbytes - j\<close> rounds left.\<close>

fun decode_tail :: "u8 list \<Rightarrow> nat \<Rightarrow> nat \<Rightarrow> u64 \<Rightarrow> (u64, u64) flow option" where
  "decode_tail buf 0 j code = Some (Continue code)"
| "decode_tail buf (Suc k) j code = do {
     b \<leftarrow> c_load buf j;
     (if b AND 0xc0 \<noteq> 0x80 then Some (Return INVALID_UTF8_CHAR)
      else decode_tail buf k (Suc j) (push_bit 6 code OR ucast (b AND 0x3f)))
   }"

definition decode_utf8 :: "u8 list \<Rightarrow> int \<Rightarrow> u64 option" where
  "decode_utf8 buf nbytes =
     (if nbytes \<le> 0 then Some INVALID_UTF8_CHAR
      else if nbytes = 1 then do {
        b \<leftarrow> c_load buf 0;
        Some (if 0x80 \<le> b then INVALID_UTF8_CHAR else ucast b)
      } else do {
        b \<leftarrow> c_load buf 0;
        let i = high_bits_set (ucast b);
        if int i \<noteq> nbytes then Some INVALID_UTF8_CHAR
        else do {
          r \<leftarrow> decode_tail buf (nat nbytes - 1) 1 (ucast b AND drop_bit i 0xff);
          Some (case r of
            Return v \<Rightarrow> v
          | Continue code \<Rightarrow>
              if code = 0xfffe then INVALID_UTF8_CHAR
              else if code = 0xffff then INVALID_UTF8_CHAR
              else if 0xd800 \<le> code \<and> code \<le> 0xdfff then INVALID_UTF8_CHAR
              else code)
        }
      })"

subsection \<open>What the encoders promise\<close>

definition cont_byte :: "u64 \<Rightarrow> u8" where
  "cont_byte u = ucast (0x80 OR (u AND 0x3f))"

fun cont_bytes :: "nat \<Rightarrow> u64 \<Rightarrow> u8 list" where
  "cont_bytes 0 u = []"
| "cont_bytes (Suc k) u = cont_byte (drop_bit (6 * k) u) # cont_bytes k u"

definition lead_byte :: "nat \<Rightarrow> u64 \<Rightarrow> u8" where
  "lead_byte i u = (if i = 0 then ucast u else ucast (ucast (lead_mask i) OR drop_bit (6 * i) u))"

text \<open>The encoding of a code point that both encoders are meant to produce.\<close>

definition utf8_bytes :: "u64 \<Rightarrow> u8 list" where
  "utf8_bytes u = (let i = find_class u max_val 0 in lead_byte i u # cont_bytes i u)"

lemma length_cont_bytes [simp]: "length (cont_bytes k u) = k"
  by (induction k) auto

lemma cont_bytes_explicit:
  "cont_bytes 2 u = [cont_byte (drop_bit 6 u), cont_byte u]"
  "cont_bytes 3 u = [cont_byte (drop_bit 12 u), cont_byte (drop_bit 6 u), cont_byte u]"
  by (simp_all add: numeral_2_eq_2 numeral_3_eq_3)

lemma cont_bytes_drop_bit: "cont_bytes (Suc k) u = cont_bytes k (drop_bit 6 u) @ [cont_byte u]"
  by (induction k) (simp_all add: drop_bit_drop_bit ac_simps)

lemma length_max_val [simp]: "length max_val = 6"
  by (simp add: max_val_def)

lemma find_class_max_val:
  "find_class u max_val 0 =
     (if u \<le> 0x7f then 0 else if u \<le> 0x7ff then 1 else if u \<le> 0xffff then 2
      else if u \<le> 0x1fffff then 3 else if u \<le> 0x3ffffff then 4 else if u \<le> 0x7fffffff then 5 else 6)"
  by (simp add: max_val_def)

lemma put_tail_ok:
  "j < length buf \<Longrightarrow>
   put_tail j u buf = Some (drop_bit (6 * j) u, overwrite buf 1 (cont_bytes j u))"
proof (induction j arbitrary: u buf)
  case 0
  then show ?case by simp
next
  case (Suc j)
  have "overwrite (buf[Suc j := cont_byte u]) 1 (cont_bytes j (drop_bit 6 u)) =
      overwrite buf 1 (cont_bytes (Suc j) u)"
    using Suc.prems
    by (simp add: overwrite_def cont_bytes_drop_bit drop_update_cancel del: cont_bytes.simps)
      (metis Cons_nth_drop_Suc drop_update_swap length_list_update nth_list_update_eq diff_self_eq_0
        order_refl list_update_code(2))
  with Suc show ?case
    by (simp add: drop_bit_drop_bit cont_byte_def [symmetric] add.commute [of 6] del: cont_bytes.simps)
qed

lemma put_tail_short: "0 < j \<Longrightarrow> length buf \<le> j \<Longrightarrow> put_tail j u buf = None"
  by (cases j) auto

text \<open>Four runs of stores from index 0 on, as \<open>encode_utf8_quick\<close> unrolls them.\<close>

lemma store_chain1:
  "do { b \<leftarrow> c_store buf 0 x; Some (n, b) } =
     (if 1 \<le> length buf then Some (n, overwrite buf 0 [x]) else None)"
  by (cases buf) (auto simp: c_store_def overwrite_def)

lemma store_chain2:
  "do { b \<leftarrow> c_store buf 0 x; b \<leftarrow> c_store b 1 y; Some (n, b) } =
     (if 2 \<le> length buf then Some (n, overwrite buf 0 [x, y]) else None)"
  by (cases buf; cases "tl buf") (auto simp: c_store_def overwrite_def)

lemma store_chain3:
  "do { b \<leftarrow> c_store buf 0 x; b \<leftarrow> c_store b 1 y; b \<leftarrow> c_store b 2 z; Some (n, b) } =
     (if 3 \<le> length buf then Some (n, overwrite buf 0 [x, y, z]) else None)"
  by (cases buf; cases "tl buf"; cases "tl (tl buf)") (auto simp: c_store_def overwrite_def numeral_2_eq_2)

lemma store_chain4:
  "do { b \<leftarrow> c_store buf 0 w; b \<leftarrow> c_store b 1 x; b \<leftarrow> c_store b 2 y; b \<leftarrow> c_store b 3 z; Some (n, b) } =
     (if 4 \<le> length buf then Some (n, overwrite buf 0 [w, x, y, z]) else None)"
  by (cases buf; cases "tl buf"; cases "tl (tl buf)"; cases "tl (tl (tl buf))")
    (auto simp: c_store_def overwrite_def numeral_2_eq_2 numeral_3_eq_3)

lemma tail_chain:
  "0 < j \<Longrightarrow>
   do { (u', b) \<leftarrow> put_tail j u buf; b \<leftarrow> c_store b 0 (f u'); Some (n, b) } =
     (if j + 1 \<le> length buf
      then Some (n, overwrite buf 0 (f (drop_bit (6 * j) u) # cont_bytes j u)) else None)"
  by (cases "j < length buf"; cases buf) (auto simp: put_tail_ok put_tail_short overwrite_def)

text \<open>Both encoders write exactly \<open>utf8_bytes\<close> from the pointer on, and nothing else.\<close>

lemma encode_utf8_spec:
  assumes "u \<le> 0x7fffffff"
  shows "encode_utf8 u buf =
     (if length (utf8_bytes u) \<le> length buf
      then Some (int (length (utf8_bytes u)), overwrite buf 0 (utf8_bytes u)) else None)"
proof -
  define i where "i = find_class u max_val 0"
  have i: "i \<noteq> 6"
    using assms unfolding i_def find_class_max_val by simp
  show ?thesis
  proof (cases "i = 0")
    case True
    then show ?thesis
      by (simp add: encode_utf8_def utf8_bytes_def i_def [symmetric] lead_byte_def store_chain1
          del: One_nat_def)
  next
    case False
    with i show ?thesis
      by (simp add: encode_utf8_def utf8_bytes_def i_def [symmetric] lead_byte_def tail_chain)
  qed
qed

lemma lead_mask_values [simp]:
  "lead_mask (Suc 0) = 0xc0" "lead_mask 2 = 0xe0" "lead_mask 3 = 0xf0" "lead_mask 4 = 0xf8"
  "lead_mask 5 = 0xfc"
  by (simp_all add: lead_mask_def)

lemma utf8_bytes_explicit:
  "u \<le> 0x7f \<Longrightarrow> utf8_bytes u = [ucast u]"
  "\<not> u \<le> 0x7f \<Longrightarrow> u \<le> 0x7ff \<Longrightarrow> utf8_bytes u =
     [ucast (0xc0 OR drop_bit 6 u), ucast (0x80 OR (u AND 0x3f))]"
  "\<not> u \<le> 0x7ff \<Longrightarrow> u \<le> 0xffff \<Longrightarrow> utf8_bytes u =
     [ucast (0xe0 OR drop_bit 12 u), ucast (0x80 OR (drop_bit 6 u AND 0x3f)), ucast (0x80 OR (u AND 0x3f))]"
  "\<not> u \<le> 0xffff \<Longrightarrow> u \<le> 0x1fffff \<Longrightarrow> utf8_bytes u =
     [ucast (0xf0 OR drop_bit 18 u), ucast (0x80 OR (drop_bit 12 u AND 0x3f)),
      ucast (0x80 OR (drop_bit 6 u AND 0x3f)), ucast (0x80 OR (u AND 0x3f))]"
  "\<not> u \<le> 0x1fffff \<Longrightarrow> u \<le> 0x3ffffff \<Longrightarrow> utf8_bytes u = ucast (0xf8 OR drop_bit 24 u) # cont_bytes 4 u"
  "\<not> u \<le> 0x3ffffff \<Longrightarrow> u \<le> 0x7fffffff \<Longrightarrow> utf8_bytes u = ucast (0xfc OR drop_bit 30 u) # cont_bytes 5 u"
proof -
  have le: "u \<le> 0x7f \<Longrightarrow> u \<le> 0x7ff" "u \<le> 0x7ff \<Longrightarrow> u \<le> 0xffff" "u \<le> 0xffff \<Longrightarrow> u \<le> 0x1fffff"
    "u \<le> 0x1fffff \<Longrightarrow> u \<le> 0x3ffffff"
    by (erule order_trans; simp)+
  note defs = utf8_bytes_def find_class_max_val lead_byte_def cont_byte_def
  show "u \<le> 0x7f \<Longrightarrow> utf8_bytes u = [ucast u]"
    by (simp add: defs)
  show "\<not> u \<le> 0x7f \<Longrightarrow> u \<le> 0x7ff \<Longrightarrow> utf8_bytes u =
     [ucast (0xc0 OR drop_bit 6 u), ucast (0x80 OR (u AND 0x3f))]"
    by (simp add: defs)
  show "\<not> u \<le> 0x7ff \<Longrightarrow> u \<le> 0xffff \<Longrightarrow> utf8_bytes u =
     [ucast (0xe0 OR drop_bit 12 u), ucast (0x80 OR (drop_bit 6 u AND 0x3f)), ucast (0x80 OR (u AND 0x3f))]"
    using le by (auto simp: defs cont_bytes_explicit)
  show "\<not> u \<le> 0xffff \<Longrightarrow> u \<le> 0x1fffff \<Longrightarrow> utf8_bytes u =
     [ucast (0xf0 OR drop_bit 18 u), ucast (0x80 OR (drop_bit 12 u AND 0x3f)),
      ucast (0x80 OR (drop_bit 6 u AND 0x3f)), ucast (0x80 OR (u AND 0x3f))]"
    using le by (auto simp: defs cont_bytes_explicit)
  show "\<not> u \<le> 0x1fffff \<Longrightarrow> u \<le> 0x3ffffff \<Longrightarrow> utf8_bytes u = ucast (0xf8 OR drop_bit 24 u) # cont_bytes 4 u"
    using le by (auto simp: utf8_bytes_def find_class_max_val lead_byte_def)
  show "\<not> u \<le> 0x3ffffff \<Longrightarrow> u \<le> 0x7fffffff \<Longrightarrow> utf8_bytes u = ucast (0xfc OR drop_bit 30 u) # cont_bytes 5 u"
    using le by (auto simp: utf8_bytes_def find_class_max_val lead_byte_def)
qed

lemma encode_utf8_quick_spec:
  assumes "u \<le> 0x7fffffff"
  shows "encode_utf8_quick u buf =
     (if length (utf8_bytes u) \<le> length buf
      then Some (int (length (utf8_bytes u)), overwrite buf 0 (utf8_bytes u)) else None)"
proof -
  have gt: "\<not> u \<le> 0x7ff \<Longrightarrow> \<not> u \<le> 0x7f" "\<not> u \<le> 0xffff \<Longrightarrow> \<not> u \<le> 0x7ff"
    "\<not> u \<le> 0x1fffff \<Longrightarrow> \<not> u \<le> 0xffff" "\<not> u \<le> 0x3ffffff \<Longrightarrow> \<not> u \<le> 0x1fffff"
    by (erule contrapos_nn, erule order_trans, simp)+
  consider "u \<le> 0x7f" | "\<not> u \<le> 0x7f" "u \<le> 0x7ff" | "\<not> u \<le> 0x7ff" "u \<le> 0xffff"
    | "\<not> u \<le> 0xffff" "u \<le> 0x1fffff" | "\<not> u \<le> 0x1fffff" "u \<le> 0x3ffffff"
    | "\<not> u \<le> 0x3ffffff" "u \<le> 0x7fffffff"
    using assms by blast
  then show ?thesis
  proof cases
    case 1
    then show ?thesis
      unfolding encode_utf8_quick_def by (simp only: if_True store_chain1 utf8_bytes_explicit) simp
  next
    case 2
    then show ?thesis
      unfolding encode_utf8_quick_def
      by (simp only: if_True if_False store_chain2 utf8_bytes_explicit not_False_eq_True) simp
  next
    case 3
    then show ?thesis
      unfolding encode_utf8_quick_def
      by (simp only: gt if_True if_False store_chain3 utf8_bytes_explicit not_False_eq_True) simp
  next
    case 4
    then show ?thesis
      unfolding encode_utf8_quick_def
      by (simp only: gt if_True if_False store_chain4 utf8_bytes_explicit not_False_eq_True) simp
  next
    case 5
    then show ?thesis
      unfolding encode_utf8_quick_def
      by (simp only: gt if_True if_False tail_chain zero_less_numeral utf8_bytes_explicit not_False_eq_True) simp
  next
    case 6
    then show ?thesis
      unfolding encode_utf8_quick_def
      by (simp only: gt if_True if_False tail_chain zero_less_numeral utf8_bytes_explicit not_False_eq_True) simp
  qed
qed

lemma encode_too_big:
  assumes "\<not> u \<le> 0x7fffffff"
  shows "encode_utf8 u buf = Some (-1, buf)" and "encode_utf8_quick u buf = Some (-1, buf)"
proof -
  have gt: "\<not> u \<le> 0x7f" "\<not> u \<le> 0x7ff" "\<not> u \<le> 0xffff" "\<not> u \<le> 0x1fffff" "\<not> u \<le> 0x3ffffff"
    by (rule contrapos_nn [OF assms], erule order_trans, simp)+
  show "encode_utf8 u buf = Some (-1, buf)"
    using assms gt by (simp add: encode_utf8_def find_class_max_val)
  show "encode_utf8_quick u buf = Some (-1, buf)"
    unfolding encode_utf8_quick_def by (simp only: gt assms if_False)
qed

text \<open>C19: the unrolled encoder is the table-driven one, on every input and every buffer,
  short buffers (where both run out of bounds) included.\<close>

theorem encode_quick_equiv: "encode_utf8_quick u buf = encode_utf8 u buf"
  by (cases "u \<le> 0x7fffffff") (simp_all add: encode_utf8_spec encode_utf8_quick_spec encode_too_big)

subsection \<open>Decoding what was encoded\<close>

lemma take_bit_63: "x AND 0x3f = take_bit 6 x" for x :: "'a::len word"
  by (simp add: take_bit_eq_mask mask_eq_exp_minus_1)

lemma bit_cont_byte: "bit (cont_byte x) n \<longleftrightarrow> n = 7 \<or> n < 6 \<and> bit x n"
proof -
  have "(0x80 :: u64) = 2 ^ 7" by simp
  then have "cont_byte x = ucast (2 ^ 7 OR take_bit 6 x)"
    by (simp only: cont_byte_def take_bit_63)
  then show ?thesis
    by (auto simp only: bit_ucast_iff bit_or_iff bit_exp_iff bit_take_bit_iff possible_bit_word)
      auto
qed

lemma cont_byte_mark: "cont_byte x AND 0xc0 = 0x80"
proof -
  have c0: "(0xc0 :: u8) = 2 ^ 7 OR 2 ^ 6" and m80: "(0x80 :: u8) = 2 ^ 7"
    by simp_all
  show ?thesis
    unfolding c0 m80
    by (rule bit_word_eqI)
      (auto simp only: bit_and_iff bit_or_iff bit_exp_iff bit_cont_byte possible_bit_word)
qed

lemma cont_byte_payload: "ucast (cont_byte x AND 0x3f) = (take_bit 6 x :: u64)"
  by (rule bit_word_eqI) (auto simp: take_bit_63 bit_simps bit_cont_byte)

lemma decode_tail_cont_bytes:
  "length pre = j \<Longrightarrow>
   decode_tail (pre @ cont_bytes k u @ rest) k j (drop_bit (6 * k) u) = Some (Continue u)"
proof (induction k arbitrary: pre j)
  case 0
  then show ?case by simp
next
  case (Suc k)
  let ?b = "cont_byte (drop_bit (6 * k) u)"
  have "push_bit 6 (drop_bit (6 * Suc k) u) OR take_bit 6 (drop_bit (6 * k) u) = drop_bit (6 * k) u"
    by (rule bit_word_eqI) (auto simp: bit_simps)
  moreover have "decode_tail ((pre @ [?b]) @ cont_bytes k u @ rest) k (Suc j) (drop_bit (6 * k) u)
      = Some (Continue u)"
    using Suc.prems by (intro Suc.IH) simp
  ultimately show ?case
    using Suc.prems by (simp add: cont_byte_mark cont_byte_payload c_load_def nth_append)
qed

text \<open>The lead byte carries the number of bytes and the top payload bits. The payload has at
  most 5 bits, so the cases are checked one by one.\<close>

definition lead_ok :: "nat \<Rightarrow> u64 \<Rightarrow> bool" where
  "lead_ok i y \<longleftrightarrow>
     (let b = ucast (ucast (lead_mask i) OR y) :: u8 in
      high_bits_set (ucast b) = Suc i \<and> ucast b AND drop_bit (Suc i) 0xff = y)"

lemma word_in_upt:
  fixes y :: u64
  assumes "unat y < n"
  shows "y \<in> set (map of_nat [0..<n])"
  using assms by (auto intro!: image_eqI [of _ _ "unat y"])

lemma lead_ok_table:
  "list_all (lead_ok 1) (map of_nat [0..<32])" "list_all (lead_ok 2) (map of_nat [0..<16])"
  "list_all (lead_ok 3) (map of_nat [0..<8])" "list_all (lead_ok 4) (map of_nat [0..<4])"
  "list_all (lead_ok 5) (map of_nat [0..<2])"
  by code_simp+

lemma unat_drop_bit_less:
  fixes u m :: u64
  assumes "u \<le> m" and "unat m div 2 ^ k < n"
  shows "unat (drop_bit k u) < n"
proof -
  have "unat u div 2 ^ k \<le> unat m div 2 ^ k"
    using assms(1) by (simp add: div_le_mono word_le_nat_alt)
  moreover have "unat (drop_bit k u) = unat u div 2 ^ k"
    by (subst unat_drop_bit_eq) (rule drop_bit_eq_div)
  ultimately show ?thesis using assms(2) by linarith
qed

lemma lead_okI: "list_all (lead_ok i) (map of_nat [0..<n]) \<Longrightarrow> unat y < n \<Longrightarrow> lead_ok i y"
  using word_in_upt [of y n] by (auto simp: list_all_iff)

lemma lead_byte_ok:
  assumes "u \<le> 0x7fffffff" and "find_class u max_val 0 = i" and "i \<noteq> 0"
  shows "lead_ok i (drop_bit (6 * i) u)"
proof -
  have "(i = 1 \<and> u \<le> 0x7ff) \<or> (i = 2 \<and> u \<le> 0xffff) \<or> (i = 3 \<and> u \<le> 0x1fffff)
      \<or> (i = 4 \<and> u \<le> 0x3ffffff) \<or> (i = 5 \<and> u \<le> 0x7fffffff)"
    using assms unfolding find_class_max_val by (simp split: if_splits)
  then show ?thesis
    by (elim disjE conjE)
      (simp only:, rule lead_okI, rule lead_ok_table, erule unat_drop_bit_less, simp)+
qed

lemma length_utf8_bytes: "length (utf8_bytes u) = Suc (find_class u max_val 0)"
  by (simp add: utf8_bytes_def Let_def)

definition noncharacter :: "u64 \<Rightarrow> bool" where
  "noncharacter u \<longleftrightarrow> u = 0xfffe \<or> u = 0xffff \<or> (0xd800 \<le> u \<and> u \<le> 0xdfff)"

lemma ucast_ascii:
  fixes u :: u64
  assumes "u \<le> 0x7f"
  shows "ucast (ucast u :: u8) = u" and "unat (ucast u :: u8) = unat u"
proof -
  have "unat u \<le> 127" using assms by (simp add: word_le_nat_alt)
  then show *: "unat (ucast u :: u8) = unat u"
    by (simp add: unsigned_ucast_eq unsigned_take_bit_eq take_bit_eq_mod)
  show "ucast (ucast u :: u8) = u"
    by (rule word_unat_eq_iff [THEN iffD2])
      (use \<open>unat u \<le> 127\<close> in \<open>simp add: unsigned_ucast_eq unsigned_take_bit_eq * take_bit_nat_eq_self\<close>)
qed

lemma decode_utf8_bytes:
  assumes "u \<le> 0x7fffffff"
  shows "decode_utf8 (utf8_bytes u @ rest) (int (length (utf8_bytes u))) =
     Some (if noncharacter u then INVALID_UTF8_CHAR else u)"
proof (cases "find_class u max_val 0 = 0")
  case True
  then have u: "u \<le> 0x7f"
    by (simp add: find_class_max_val split: if_splits)
  then have "\<not> noncharacter u"
    by (auto simp: noncharacter_def dest: order_trans)
  moreover have "\<not> 0x80 \<le> (ucast u :: u8)"
  proof
    assume "0x80 \<le> (ucast u :: u8)"
    with u show False
      by (simp add: word_le_nat_alt ucast_ascii)
  qed
  ultimately show ?thesis
    using True by (simp add: decode_utf8_def utf8_bytes_def lead_byte_def ucast_ascii u)
next
  case False
  define i where "i = find_class u max_val 0"
  have ok: "lead_ok i (drop_bit (6 * i) u)"
    using assms False by (intro lead_byte_ok) (simp_all add: i_def)
  have lead: "lead_byte i u = ucast (ucast (lead_mask i) OR drop_bit (6 * i) u)"
    using False by (simp add: lead_byte_def i_def)
  have hb: "high_bits_set (ucast (lead_byte i u)) = Suc i"
    and pay: "ucast (lead_byte i u) AND drop_bit (Suc i) 0xff = drop_bit (6 * i) u"
    using ok by (simp_all add: lead_ok_def lead Let_def)
  have "decode_tail ([lead_byte i u] @ cont_bytes i u @ rest) i 1 (drop_bit (6 * i) u) = Some (Continue u)"
    by (rule decode_tail_cont_bytes) simp
  moreover have "nat (1 + int i) = Suc i" by simp
  ultimately show ?thesis
    using False
    by (auto simp: decode_utf8_def utf8_bytes_def i_def [symmetric] hb pay [simplified] noncharacter_def)
qed

text \<open>C31: decoding what the encoder stored gives the code point back, except the surrogates and
  the two noncharacters, which the encoder accepts and the decoder refuses.\<close>

theorem decode_encode:
  assumes "encode_utf8 u buf = Some (n, buf')" and "n > 0"
  shows "decode_utf8 buf' n = Some (if noncharacter u then INVALID_UTF8_CHAR else u)"
proof -
  have u: "u \<le> 0x7fffffff"
    using assms encode_too_big(1) [of u buf] by force
  with assms(1) have "n = int (length (utf8_bytes u))" and "buf' = overwrite buf 0 (utf8_bytes u)"
    by (simp_all add: encode_utf8_spec split: if_splits)
  then show ?thesis
    using decode_utf8_bytes [OF u] by (simp add: overwrite_def)
qed

subsection \<open>The self check of main and the benchmark loop\<close>

text \<open>An encoder called on a pointer \<open>off\<close> bytes into an array.\<close>

definition encode_at :: "(u64 \<Rightarrow> u8 list \<Rightarrow> (int \<times> u8 list) option) \<Rightarrow> u8 list \<Rightarrow> int \<Rightarrow> u64 \<Rightarrow> (int \<times> u8 list) option" where
  "encode_at encode arr off u =
     (if 0 \<le> off \<and> off \<le> int (length arr) then do {
        (n, b) \<leftarrow> encode u (drop (nat off) arr);
        Some (n, take (nat off) arr @ b)
      } else None)"

text \<open>The decode loop of \<open>main\<close>: \<open>n += !n\<close>, decode, assert, advance.\<close>

function decode_all :: "u8 list \<Rightarrow> u64 list option" where
  "decode_all data =
     (if data = [] then Some []
      else let h = high_bits_set (ucast (hd data)); n = h + (if h = 0 then 1 else 0) in
        do {
          code \<leftarrow> decode_utf8 data (int n);
          (if code = INVALID_UTF8_CHAR then None
           else do { rest \<leftarrow> decode_all (drop n data); Some (code # rest) })
        })"
  by pat_completeness auto
termination
  by (relation "measure length") auto

declare decode_all.simps [simp del]

text \<open>The encode loop of \<open>main\<close>, with its \<open>assert(n > 0)\<close>; \<open>len2\<close> counts down.\<close>

fun encode_loop :: "u64 list \<Rightarrow> u8 list \<Rightarrow> int \<Rightarrow> int \<Rightarrow> (u8 list \<times> int) option" where
  "encode_loop [] arr off len2 = Some (arr, len2)"
| "encode_loop (u # us) arr off len2 = do {
     (n, arr') \<leftarrow> encode_at encode_utf8_quick arr off u;
     (if n > 0 then encode_loop us arr' (off + n) (len2 - n) else None)
   }"

definition validate :: "u8 list \<Rightarrow> u8 list \<Rightarrow> (u64 list \<times> u8 list) option" where
  "validate data encoded = do {
     decoded \<leftarrow> decode_all data;
     (arr, len2) \<leftarrow> encode_loop decoded encoded 0 (int (length data));
     (if len2 = 0 \<and> arr = data then Some (decoded, arr) else None)
   }"

definition utf8_pattern :: "u8 list" where
  "utf8_pattern = [0x55, 0xc7, 0x99, 0xef, 0x88, 0xbf, 0xf0, 0x90, 0xbf, 0x80]"

function load_test_buf :: "nat \<Rightarrow> u8 list" where
  "load_test_buf len =
     (if length utf8_pattern \<le> len then utf8_pattern @ load_test_buf (len - length utf8_pattern)
      else replicate len 0x7f)"
  by pat_completeness auto
termination
  by (relation "measure id") (auto simp: utf8_pattern_def)

declare load_test_buf.simps [simp del]

text \<open>One pass of the timed loop (no asserts), \<open>loops\<close> passes, and the final OR over the buffer.\<close>

fun bench_pass :: "(u64 \<Rightarrow> u8 list \<Rightarrow> (int \<times> u8 list) option) \<Rightarrow> u64 list \<Rightarrow> u8 list \<Rightarrow> int \<Rightarrow> u8 list option" where
  "bench_pass encode [] arr off = Some arr"
| "bench_pass encode (u # us) arr off = do {
     (n, arr') \<leftarrow> encode_at encode arr off u;
     bench_pass encode us arr' (off + n)
   }"

primrec bench_rounds :: "(u64 \<Rightarrow> u8 list \<Rightarrow> (int \<times> u8 list) option) \<Rightarrow> nat \<Rightarrow> u64 list \<Rightarrow> u8 list \<Rightarrow> u8 list option" where
  "bench_rounds encode 0 decoded arr = Some arr"
| "bench_rounds encode (Suc n) decoded arr = do {
     arr' \<leftarrow> bench_pass encode decoded arr 0;
     bench_rounds encode n decoded arr'
   }"

definition bench :: "u64 list \<Rightarrow> u8 list \<Rightarrow> (u64 \<Rightarrow> u8 list \<Rightarrow> (int \<times> u8 list) option) \<Rightarrow> (u8 list \<times> string) option" where
  "bench decoded encoded encode =
     (if decoded = [] then None
      else do {
        arr \<leftarrow> bench_rounds encode (1024 * 1024 * 1024 div length decoded) decoded encoded;
        Some (arr, if fold (OR) arr 0 \<noteq> 0 then ''OK'' else ''BAD'')
      })"

definition storable :: "u64 \<Rightarrow> bool" where
  "storable u \<longleftrightarrow> u \<le> 0x7fffffff \<and> \<not> noncharacter u"

lemma storable_not_invalid: "storable u \<Longrightarrow> u \<noteq> INVALID_UTF8_CHAR"
  by (auto simp: storable_def INVALID_UTF8_CHAR_def)

lemma ascii_high_bits:
  "list_all (\<lambda>y :: u64. high_bits_set (ucast (ucast y :: u8)) = 0) (map of_nat [0..<128])"
  by code_simp

lemma high_bits_utf8_bytes:
  assumes "u \<le> 0x7fffffff"
  shows "high_bits_set (ucast (hd (utf8_bytes u))) =
    (if find_class u max_val 0 = 0 then 0 else Suc (find_class u max_val 0))"
proof (cases "find_class u max_val 0 = 0")
  case True
  then have "u \<le> 0x7f" by (simp add: find_class_max_val split: if_splits)
  then have "u \<in> set (map of_nat [0..<128])"
    by (intro word_in_upt) (simp add: word_le_nat_alt)
  then have "high_bits_set (ucast (ucast u :: u8)) = 0"
    using ascii_high_bits unfolding list_all_iff by blast
  with True show ?thesis by (simp add: utf8_bytes_def lead_byte_def)
next
  case False
  from lead_byte_ok [OF assms refl this] False show ?thesis
    by (simp add: utf8_bytes_def lead_byte_def lead_ok_def Let_def)
qed

lemma utf8_bytes_Cons: "utf8_bytes u = hd (utf8_bytes u) # tl (utf8_bytes u)"
  by (simp add: utf8_bytes_def Let_def)

lemma decode_all_next:
  assumes "data \<noteq> []" and "n = (let h = high_bits_set (ucast (hd data)) in h + (if h = 0 then 1 else 0))"
    and "decode_utf8 data (int n) = Some u" and "u \<noteq> INVALID_UTF8_CHAR"
  shows "decode_all data = map_option ((#) u) (decode_all (drop n data))"
  using assms(1,3,4) unfolding decode_all.simps [of data] Let_def assms(2) [unfolded Let_def, symmetric]
  by (cases "decode_all (drop n data)") simp_all

lemma decode_all_step:
  assumes "storable u"
  shows "decode_all (utf8_bytes u @ rest) = map_option ((#) u) (decode_all rest)"
proof -
  let ?n = "length (utf8_bytes u)"
  have u: "u \<le> 0x7fffffff" and nc: "\<not> noncharacter u"
    using assms by (simp_all add: storable_def)
  have ne: "utf8_bytes u @ rest \<noteq> []" and hd: "hd (utf8_bytes u @ rest) = hd (utf8_bytes u)"
    by (subst utf8_bytes_Cons, simp)+
  have "?n = (let h = high_bits_set (ucast (hd (utf8_bytes u @ rest))) in h + (if h = 0 then 1 else 0))"
    using u by (simp add: hd high_bits_utf8_bytes length_utf8_bytes)
  moreover have "decode_utf8 (utf8_bytes u @ rest) (int ?n) = Some u"
    using decode_utf8_bytes [OF u] nc by simp
  ultimately show ?thesis
    using decode_all_next [OF ne] storable_not_invalid [OF assms] by simp
qed

lemma decode_all_concat:
  "list_all storable us \<Longrightarrow> decode_all (concat (map utf8_bytes us)) = Some us"
  by (induction us) (auto simp: decode_all_step decode_all.simps [of "[]"])

lemma encode_at_spec:
  assumes "u \<le> 0x7fffffff" and "encode = encode_utf8 \<or> encode = encode_utf8_quick"
    and "length pre + length (utf8_bytes u) \<le> length arr" and "take (length pre) arr = pre"
  shows "encode_at encode arr (int (length pre)) u =
    Some (int (length (utf8_bytes u)), overwrite arr (length pre) (utf8_bytes u))"
proof -
  have "length (utf8_bytes u) \<le> length arr - length pre"
    using assms(3) by linarith
  with assms show ?thesis
    by (auto simp: encode_at_def encode_utf8_spec encode_utf8_quick_spec overwrite_def add.commute)
qed

text \<open>After a run over \<open>us\<close> from offset \<open>length pre\<close> the array holds \<open>pre\<close> and the encodings.\<close>

lemma encode_loop_concat:
  assumes "list_all storable us" and "take (length pre) arr = pre"
    and "length pre + length (concat (map utf8_bytes us)) \<le> length arr"
  shows "encode_loop us arr (int (length pre)) len2 =
     Some (overwrite arr (length pre) (concat (map utf8_bytes us)),
           len2 - int (length (concat (map utf8_bytes us))))"
  using assms
proof (induction us arbitrary: pre arr len2)
  case Nil
  then show ?case by simp
next
  case (Cons u us)
  let ?b = "utf8_bytes u"
  let ?arr = "overwrite arr (length pre) ?b"
  have u: "u \<le> 0x7fffffff" using Cons.prems by (simp add: storable_def)
  have at: "encode_at encode_utf8_quick arr (int (length pre)) u = Some (int (length ?b), ?arr)"
    using Cons.prems u by (intro encode_at_spec) auto
  have pos: "0 < int (length ?b)" by (simp add: length_utf8_bytes)
  have "encode_loop us ?arr (int (length (pre @ ?b))) (len2 - int (length ?b)) =
      Some (overwrite ?arr (length (pre @ ?b)) (concat (map utf8_bytes us)),
            len2 - int (length ?b) - int (length (concat (map utf8_bytes us))))"
    using Cons.prems by (intro Cons.IH) (auto simp: take_overwrite)
  then show ?case
    using Cons.prems pos by (simp add: at overwrite_append)
qed

lemma bench_pass_overwrite:
  assumes "list_all (\<lambda>u. u \<le> 0x7fffffff) us" and "encode = encode_utf8 \<or> encode = encode_utf8_quick"
    and "take (length pre) arr = pre"
    and "length pre + length (concat (map utf8_bytes us)) \<le> length arr"
  shows "bench_pass encode us arr (int (length pre)) =
    Some (overwrite arr (length pre) (concat (map utf8_bytes us)))"
  using assms(1,3,4)
proof (induction us arbitrary: pre arr)
  case Nil
  then show ?case by simp
next
  case (Cons u us)
  let ?b = "utf8_bytes u"
  let ?arr = "overwrite arr (length pre) ?b"
  have at: "encode_at encode arr (int (length pre)) u = Some (int (length ?b), ?arr)"
    using Cons.prems assms(2) by (intro encode_at_spec) auto
  have "bench_pass encode us ?arr (int (length (pre @ ?b))) =
      Some (overwrite ?arr (length (pre @ ?b)) (concat (map utf8_bytes us)))"
    using Cons.prems by (intro Cons.IH) (auto simp: take_overwrite)
  then show ?case
    using Cons.prems by (simp add: at overwrite_append)
qed

lemma bench_pass_concat:
  assumes "list_all storable us" and "encode = encode_utf8 \<or> encode = encode_utf8_quick"
    and "arr = concat (map utf8_bytes us)"
  shows "bench_pass encode us arr 0 = Some arr"
  using bench_pass_overwrite [of us encode "[]" arr] assms
  by (auto simp: list_all_iff storable_def overwrite_def)

lemma bench_rounds_concat:
  assumes "list_all storable us" and "encode = encode_utf8 \<or> encode = encode_utf8_quick"
    and "arr = concat (map utf8_bytes us)"
  shows "bench_rounds encode n us arr = Some arr"
  using bench_pass_concat [OF assms] by (induction n) simp_all

lemma validate_concat:
  assumes "list_all storable us" and "data = concat (map utf8_bytes us)"
    and "length encoded = length data"
  shows "validate data encoded = Some (us, data)"
  using encode_loop_concat [OF assms(1), of "[]" encoded] assms
  by (simp add: validate_def decode_all_concat overwrite_def)

lemma utf8_pattern_codes:
  "utf8_pattern = concat (map utf8_bytes [0x55, 0x1d9, 0xf23f, 0x10fc0])"
  "list_all storable [0x55, 0x1d9, 0xf23f, 0x10fc0]" "[0x7f] = utf8_bytes 0x7f" "storable 0x7f"
  by code_simp+

lemma load_test_buf_codes:
  "\<exists>us. list_all storable us \<and> load_test_buf len = concat (map utf8_bytes us)"
proof (induction len rule: load_test_buf.induct)
  case (1 len)
  show ?case
  proof (cases "length utf8_pattern \<le> len")
    case True
    with 1 obtain us where "list_all storable us"
      "load_test_buf (len - length utf8_pattern) = concat (map utf8_bytes us)" by blast
    with True show ?thesis
      by (intro exI [of _ "[0x55, 0x1d9, 0xf23f, 0x10fc0] @ us"])
        (simp only: load_test_buf.simps [of len] if_True utf8_pattern_codes list_all_append map_append
          concat_append simp_thms)
  next
    case False
    have "concat (map utf8_bytes (replicate len 0x7f)) = replicate len 0x7f"
      by (induction len) (simp_all add: utf8_pattern_codes(3) [symmetric])
    with False show ?thesis
      by (intro exI [of _ "replicate len 0x7f"])
        (simp add: load_test_buf.simps [of len] list_all_iff utf8_pattern_codes(4))
  qed
qed

lemma length_load_test_buf: "length (load_test_buf len) = len"
  by (induction len rule: load_test_buf.induct) (subst load_test_buf.simps, simp)

text \<open>Remark: the self check of \<open>main\<close> passes on its test buffer of any length, whatever \<open>malloc\<close>
  left in \<open>encoded\<close>: no assert fails, no access is out of bounds, and the re-encoded bytes are
  the test buffer. The benchmark that follows leaves that buffer as it is, with both encoders.\<close>

theorem self_check_passes:
  assumes "length encoded = len"
  shows "\<exists>decoded. validate (load_test_buf len) encoded = Some (decoded, load_test_buf len) \<and>
     (\<forall>n. bench_rounds encode_utf8 n decoded (load_test_buf len) = Some (load_test_buf len)) \<and>
     (\<forall>n. bench_rounds encode_utf8_quick n decoded (load_test_buf len) = Some (load_test_buf len))"
proof -
  obtain us where "list_all storable us" "load_test_buf len = concat (map utf8_bytes us)"
    using load_test_buf_codes by blast
  moreover have "length encoded = length (load_test_buf len)"
    using assms by (simp add: length_load_test_buf)
  ultimately show ?thesis
    by (intro exI [of _ us]) (simp add: validate_concat bench_rounds_concat)
qed

theorem self_check_passes_witness:
  "\<exists>decoded. validate (load_test_buf 23) (replicate 23 0) = Some (decoded, load_test_buf 23)"
  using self_check_passes [of "replicate 23 0" 23] by auto

theorem decode_encode_witness:
  "encode_utf8 0x20ac (replicate 6 0) = Some (3, [0xe2, 0x82, 0xac, 0, 0, 0]) \<and>
   decode_utf8 [0xe2, 0x82, 0xac, 0, 0, 0] 3 = Some 0x20ac"
proof -
  have e: "encode_utf8 0x20ac (replicate 6 0) = Some (3, [0xe2, 0x82, 0xac, 0, 0, 0])"
    by code_simp
  have "\<not> noncharacter 0x20ac"
    by code_simp
  then show ?thesis
    using e decode_encode [OF e] by simp
qed

subsection \<open>What the decoder accepts\<close>

lemma byte_is_cont:
  fixes b :: u8
  assumes "b AND 0xc0 = 0x80"
  shows "cont_byte (push_bit 6 code OR ucast (b AND 0x3f)) = b"
proof -
  have b7: "bit b 7" and b6: "\<not> bit b 6"
  proof -
    have "bit (b AND 0xc0) 7" "\<not> bit (b AND 0xc0) 6" by (simp_all add: assms)
    then show "bit b 7" "\<not> bit b 6" by (simp_all add: bit_and_iff)
  qed
  show ?thesis
  proof (rule bit_word_eqI)
    fix n assume "n < LENGTH(8)"
    then consider "n < 6" | "n = 6" | "n = 7" by fastforce
    then show "bit (cont_byte (push_bit 6 code OR ucast (b AND 0x3f))) n = bit b n"
      by cases (auto simp: bit_cont_byte take_bit_63 bit_simps b7 b6)
  qed
qed

text \<open>A successful run of the trailing-byte loop read exactly the trailing bytes of its result.
  The premise on \<open>code\<close> says that the shifts lose no bit of it.\<close>

lemma decode_tail_inverse:
  assumes "decode_tail buf k j code = Some (Continue c)"
    and "\<forall>n. 64 - 6 * k \<le> n \<longrightarrow> \<not> bit code n" and "k \<le> 10"
  shows "take k (drop j buf) = cont_bytes k c \<and> drop_bit (6 * k) c = code"
  using assms
proof (induction k arbitrary: j code)
  case 0
  then show ?case by simp
next
  case (Suc k)
  from Suc.prems(1) obtain b where j: "j < length buf" "buf ! j = b" and m: "b AND 0xc0 = 0x80"
    and dt: "decode_tail buf k (Suc j) (push_bit 6 code OR ucast (b AND 0x3f)) = Some (Continue c)"
    by (auto simp: c_load_def bind_eq_Some_conv split: if_splits)
  let ?c = "push_bit 6 code OR ucast (b AND 0x3f) :: u64"
  have "\<forall>n. 64 - 6 * k \<le> n \<longrightarrow> \<not> bit ?c n"
    using Suc.prems(2,3) by (auto simp: take_bit_63 bit_simps)
  with Suc.IH [OF dt] Suc.prems(3)
  have ih: "take k (drop (Suc j) buf) = cont_bytes k c" "drop_bit (6 * k) c = ?c"
    by auto
  have "drop_bit 6 ?c = code"
  proof (rule bit_word_eqI)
    fix n assume "n < LENGTH(64)"
    moreover have "bit code n \<Longrightarrow> n < 58"
    proof (rule ccontr)
      assume b: "bit code n" and "\<not> n < 58"
      then have "64 - 6 * Suc k \<le> n" by simp
      with b Suc.prems(2) show False by blast
    qed
    ultimately show "bit (drop_bit 6 ?c) n \<longleftrightarrow> bit code n"
      by (auto simp: take_bit_63 bit_simps)
  qed
  then have "drop_bit (6 * Suc k) c = code"
    using ih(2) by (simp add: drop_bit_drop_bit [symmetric])
  moreover have "take (Suc k) (drop j buf) = b # take k (drop (Suc j) buf)"
    using j by (metis Cons_nth_drop_Suc take_Suc_Cons)
  ultimately show ?case
    using ih byte_is_cont [OF m, of code] by simp
qed

text \<open>A lead byte is what its class mask and the bits left by the decoder's mask rebuild.\<close>

definition lead_inverse :: "u8 \<Rightarrow> bool" where
  "lead_inverse b \<longleftrightarrow>
     (let h = high_bits_set (ucast b); m = ucast b AND drop_bit h 0xff :: u64 in
      2 \<le> h \<longrightarrow> h \<le> 8 \<and> (h \<le> 6 \<longrightarrow> ucast (ucast (lead_mask (h - 1)) OR m) = b) \<and>
      m < 128)"

lemma lead_inverse_table: "list_all lead_inverse (map of_nat [0..<256])"
  by code_simp

lemma lead_inverse: "lead_inverse b"
  by (rule all_bytes) (rule lead_inverse_table)

text \<open>The byte string the decoder reads as \<open>c\<close> in \<open>n\<close> bytes.\<close>

definition accepted_form :: "nat \<Rightarrow> u64 \<Rightarrow> u8 list" where
  "accepted_form n c = lead_byte (n - 1) c # cont_bytes (n - 1) c"

lemma utf8_bytes_accepted:
  "utf8_bytes c = accepted_form (find_class c max_val 0 + 1) c"
  by (simp add: utf8_bytes_def accepted_form_def Let_def)

lemma decode_utf8_multi:
  "2 \<le> n \<Longrightarrow> decode_utf8 buf n = do {
     b \<leftarrow> c_load buf 0;
     let i = high_bits_set (ucast b);
     if int i \<noteq> n then Some INVALID_UTF8_CHAR
     else do {
       r \<leftarrow> decode_tail buf (nat n - 1) 1 (ucast b AND drop_bit i 0xff);
       Some (case r of Return v \<Rightarrow> v
         | Continue code \<Rightarrow> if noncharacter code then INVALID_UTF8_CHAR else code)
     }
   }"
  unfolding decode_utf8_def noncharacter_def
  by (auto intro!: Option.bind_cong simp: Let_def split: flow.splits)

lemma decode_tail_Return: "decode_tail buf k j code = Some (Return v) \<Longrightarrow> v = INVALID_UTF8_CHAR"
  by (induction k arbitrary: j code) (auto simp: bind_eq_Some_conv split: if_splits)

lemma ucast_u8_u64 [simp]: "ucast (ucast (b :: u8) :: u64) = b"
  by (rule bit_word_eqI) (simp add: bit_ucast_iff)

lemma decode_multi_accepts:
  assumes "decode_utf8 buf n = Some c" "c \<noteq> INVALID_UTF8_CHAR" "2 \<le> n"
  shows "n \<le> 8 \<and> \<not> noncharacter c \<and> (n \<le> 6 \<longrightarrow> take (nat n) buf = accepted_form (nat n) c)"
proof -
  from assms(3) have "decode_utf8 buf n = do {
     b \<leftarrow> c_load buf 0;
     let i = high_bits_set (ucast b);
     if int i \<noteq> n then Some INVALID_UTF8_CHAR
     else do {
       r \<leftarrow> decode_tail buf (nat n - 1) 1 (ucast b AND drop_bit i 0xff);
       Some (case r of Return v \<Rightarrow> v
         | Continue code \<Rightarrow> if noncharacter code then INVALID_UTF8_CHAR else code)
     }
   }" by (rule decode_utf8_multi)
  with assms(1,2) obtain b r where b: "c_load buf 0 = Some b" "int (high_bits_set (ucast b)) = n"
    and r: "decode_tail buf (nat n - 1) 1 (ucast b AND drop_bit (high_bits_set (ucast b)) 0xff) = Some r"
    and c: "(case r of Return v \<Rightarrow> v
         | Continue code \<Rightarrow> if noncharacter code then INVALID_UTF8_CHAR else code) = c"
    by (auto simp: bind_eq_Some_conv Let_def split: if_splits)
  have dt: "decode_tail buf (nat n - 1) 1 (ucast b AND drop_bit (high_bits_set (ucast b)) 0xff)
      = Some (Continue c)" and nc: "\<not> noncharacter c"
    using r c assms(2) by (cases r; auto dest: decode_tail_Return split: if_splits)+
  define h where "h = high_bits_set (ucast b)"
  define m where "m = (ucast b AND drop_bit h 0xff :: u64)"
  have h: "2 \<le> h" "nat n = h"
    using b(2) assms(3) by (auto simp: h_def)
  have li: "h \<le> 8" "m < 2 ^ 7" "h \<le> 6 \<Longrightarrow> ucast (ucast (lead_mask (h - 1)) OR m) = b"
    using lead_inverse [of b] h by (auto simp: lead_inverse_def h_def m_def Let_def)
  have hi: "\<forall>i. 64 - 6 * (h - 1) \<le> i \<longrightarrow> \<not> bit m i"
    using bit_above [OF li(2)] li(1) by auto
  have "take (h - 1) (drop 1 buf) = cont_bytes (h - 1) c \<and> drop_bit (6 * (h - 1)) c = m"
    by (rule decode_tail_inverse [OF _ hi]) (use dt h li in \<open>auto simp: m_def h_def\<close>)
  moreover have "take h buf = b # take (h - 1) (drop 1 buf)"
    using b(1) h(1) by (cases buf) (auto simp: c_load_def take_Cons' split: if_splits)
  ultimately show ?thesis
    using li h nc assms(3) by (auto simp: accepted_form_def lead_byte_def)
qed

text \<open>Remark: The decoder is sound: when it returns a code point other than the error value it was asked
  for at most eight bytes, the code point is none that it must reject, and (up to the six
  bytes of the format) the bytes it read are exactly the lead and continuation bytes of that
  code point; if the length is moreover the shortest one, they are the encoding of the code point.\<close>

theorem decode_sound:
  assumes "decode_utf8 buf n = Some c" "c \<noteq> INVALID_UTF8_CHAR"
  shows "1 \<le> n \<and> n \<le> 8 \<and> \<not> noncharacter c \<and>
     (n \<le> int MAX_UTF8_SZ \<longrightarrow> take (nat n) buf = accepted_form (nat n) c) \<and>
     (n = int (find_class c max_val 0) + 1 \<and> n \<le> int MAX_UTF8_SZ \<longrightarrow> take (nat n) buf = utf8_bytes c)"
proof (cases "n \<le> 1")
  case True
  with assms obtain b where n: "n = 1" and b: "c_load buf 0 = Some b" "b < 0x80" "c = ucast b"
    by (auto simp: decode_utf8_def bind_eq_Some_conv not_le split: if_splits)
  have "take 1 buf = [b]"
    using b(1) by (cases buf) (auto simp: c_load_def split: if_splits)
  moreover have "c < 0x80"
    using b(2,3) by (simp add: word_less_nat_alt unsigned_ucast_eq take_bit_nat_eq_self)
  then have "\<not> noncharacter c"
    by (auto simp: noncharacter_def dest: le_less_trans)
  ultimately show ?thesis
    using n b(3) by (auto simp: accepted_form_def lead_byte_def utf8_bytes_accepted)
next
  case False
  with decode_multi_accepts [OF assms] show ?thesis
    by (auto simp: MAX_UTF8_SZ_def utf8_bytes_accepted nat_add_distrib)
qed

theorem decode_sound_witness:
  "decode_utf8 [0xc0, 0x80] 2 = Some 0 \<and> [0xc0, 0x80] = accepted_form 2 0 \<and> utf8_bytes 0 = [0]"
proof -
  have d: "decode_utf8 [0xc0, 0x80] 2 = Some 0" by code_simp
  moreover have "utf8_bytes 0 = [0]" by code_simp
  ultimately show ?thesis
    using decode_sound [OF d] by (simp add: INVALID_UTF8_CHAR_def MAX_UTF8_SZ_def)
qed

end
