(* ===== verification/Utf8Length.thy ===== *)
theory Utf8Length
  imports Utf8Codec
begin

unbundle bit_operations_syntax

text \<open>
  The UTF-8 length counters of \<open>src/utf8-len.c\<close>: \<open>utf8_char_length\<close> by branches,
  \<open>utf8_char_length_tbl\<close> by a 32-entry table, the two string counters over them, and the
  self check and benchmark of \<open>main\<close>.

  A call of \<open>exit(1)\<close> after an error message is \<open>Inl message\<close>; a read outside the buffer is
  \<open>None\<close>. \<open>wf_char\<close> is the specification: one lead byte and its continuation bytes.
\<close>

subsection \<open>Length of one character\<close>

definition utf8_char_length :: "u8 \<Rightarrow> nat" where
  "utf8_char_length c =
     (if 0 \<le> sint c then 1
      else if c AND 0xe0 = 0xc0 then 2
      else if c AND 0xf0 = 0xe0 then 3
      else if c AND 0xf8 = 0xf0 then 4
      else 0)"

definition char_length_table :: "nat list" where
  "char_length_table =
     [1, 1, 1, 1, 1, 1, 1, 1, 1, 1, 1, 1, 1, 1, 1, 1,
      0, 0, 0, 0, 0, 0, 0, 0,
      2, 2, 2, 2,
      3, 3,
      4,
      0]"

definition utf8_char_length_tbl :: "u8 \<Rightarrow> nat" where
  "utf8_char_length_tbl c = char_length_table ! unat (drop_bit 3 c)"

lemma length_char_length_table [simp]: "length char_length_table = 32"
  by (simp add: char_length_table_def)

lemma table_index_in_bounds: "unat (drop_bit 3 (c :: u8)) < length char_length_table"
proof -
  have "unat (drop_bit 3 c) = unat c div 8"
    by (simp only: unat_drop_bit_eq) (simp add: drop_bit_eq_div)
  moreover have "unat c < 256"
    using unsigned_less [of c] by simp
  ultimately show ?thesis by simp
qed

lemma table_agrees: "utf8_char_length c = utf8_char_length_tbl c"
  by (rule all_bytes) code_simp

lemma utf8_char_length_le4: "utf8_char_length c \<le> 4"
  by (simp add: utf8_char_length_def)

subsection \<open>Length of a string\<close>

text \<open>The inner loop \<open>for (j = 1; j < char_len; ++j)\<close>: are all trailing bytes continuation bytes?\<close>

function tail_bytes_ok :: "u8 list \<Rightarrow> nat \<Rightarrow> nat \<Rightarrow> nat \<Rightarrow> bool option" where
  "tail_bytes_ok data i j char_len =
     (if j < char_len then do {
        b \<leftarrow> c_load data (i + j);
        (if b AND 0xc0 \<noteq> 0x80 then Some False else tail_bytes_ok data i (j + 1) char_len)
      } else Some True)"
  by pat_completeness auto
termination
  by (relation "measure (\<lambda>(data, i, j, char_len). char_len - j)") auto

declare tail_bytes_ok.simps [simp del]

text \<open>The outer loop of both counters, over the character-length function it calls.\<close>

function length_loop ::
    "string \<Rightarrow> (u8 \<Rightarrow> nat) \<Rightarrow> u8 list \<Rightarrow> int \<Rightarrow> nat \<Rightarrow> nat \<Rightarrow> (string + nat) option" where
  "length_loop msg clen data data_len i count =
     (if int i < data_len then do {
        c \<leftarrow> c_load data i;
        (if clen c = 0 \<or> int i + int (clen c) > data_len then Some (Inl msg)
         else do {
           ok \<leftarrow> tail_bytes_ok data i 1 (clen c);
           (if \<not> ok then Some (Inl msg)
            else length_loop msg clen data data_len (i + clen c) (count + 1))
         })
      } else Some (Inr count))"
  by pat_completeness auto
termination
  by (relation "measure (\<lambda>(msg, clen, data, data_len, i, count). nat (data_len - int i))") auto

declare length_loop.simps [simp del]

definition utf8_length :: "u8 list \<Rightarrow> int \<Rightarrow> (string + nat) option" where
  "utf8_length data data_len = length_loop ''utf8_length: ERROR'' utf8_char_length data data_len 0 0"

definition utf8_length_tbl :: "u8 list \<Rightarrow> int \<Rightarrow> (string + nat) option" where
  "utf8_length_tbl data data_len =
     length_loop ''utf8_length_tbl: ERROR'' utf8_char_length_tbl data data_len 0 0"

subsection \<open>The self check and the benchmark of main\<close>

text \<open>The verification loop of \<open>main\<close> over all 256 characters.\<close>

definition lengths_verified :: bool where
  "lengths_verified \<longleftrightarrow>
     list_all (\<lambda>c. utf8_char_length (of_nat c) = utf8_char_length_tbl (of_nat c)) [0..<256]"

fun sum_chars :: "(u8 \<Rightarrow> nat) \<Rightarrow> u8 list \<Rightarrow> nat \<Rightarrow> nat" where
  "sum_chars f [] n = n"
| "sum_chars f (b # bs) n = sum_chars f bs (n + f b)"

primrec char_rounds :: "(u8 \<Rightarrow> nat) \<Rightarrow> nat \<Rightarrow> u8 list \<Rightarrow> nat \<Rightarrow> nat" where
  "char_rounds f 0 buf n = n"
| "char_rounds f (Suc r) buf n = char_rounds f r buf (sum_chars f buf n)"

primrec string_rounds ::
    "(u8 list \<Rightarrow> int \<Rightarrow> (string + nat) option) \<Rightarrow> nat \<Rightarrow> u8 list \<Rightarrow> nat \<Rightarrow> (string + nat) option" where
  "string_rounds f 0 buf n = Some (Inr n)"
| "string_rounds f (Suc r) buf n = do {
     x \<leftarrow> f buf (int (length buf));
     (case x of Inl e \<Rightarrow> Some (Inl e) | Inr k \<Rightarrow> string_rounds f r buf (n + k))
   }"

definition bench_bufsz :: nat where "bench_bufsz = 256"

text \<open>\<open>main\<close> for the random bytes \<open>rnd\<close> its buffer gets: \<open>Inl message\<close> when it stops with
  exit status 1, else \<open>Inr n\<close> with the sum it returns.\<close>

definition main_utf8_len :: "nat \<Rightarrow> u8 list \<Rightarrow> (string + nat) option" where
  "main_utf8_len rounds rnd =
     (if \<not> lengths_verified then Some (Inl ''ERROR!!!'')
      else
        let buf = take bench_bufsz rnd;
            n = char_rounds utf8_char_length rounds buf 0;
            n = char_rounds utf8_char_length_tbl rounds buf n;
            buf = map (\<lambda>b. b AND 0x7f) buf
        in do {
          x \<leftarrow> string_rounds utf8_length rounds buf n;
          (case x of Inl e \<Rightarrow> Some (Inl e) | Inr n \<Rightarrow> string_rounds utf8_length_tbl rounds buf n)
        })"

subsection \<open>What the counters count\<close>

definition wf_char :: "u8 list \<Rightarrow> bool" where
  "wf_char s \<longleftrightarrow> s \<noteq> [] \<and> length s = utf8_char_length (hd s) \<and> list_all (\<lambda>b. b AND 0xc0 = 0x80) (tl s)"

lemma tail_bytes_ok_spec:
  assumes "1 \<le> j" "j \<le> n" "i + n \<le> length data"
  shows "tail_bytes_ok data i j n =
     Some (list_all (\<lambda>b. b AND 0xc0 = 0x80) (drop j (take n (drop i data))))"
  using assms
proof (induction data i j n rule: tail_bytes_ok.induct)
  case (1 data i j n)
  show ?case
  proof (cases "j < n")
    case True
    have "drop j (take n (drop i data)) = data ! (i + j) # drop (Suc j) (take n (drop i data))"
      using True 1(4) by (subst Cons_nth_drop_Suc [symmetric]) (auto simp: add.commute)
    then show ?thesis
      using 1 True by (subst tail_bytes_ok.simps) (auto simp: c_load_def)
  next
    case False
    then show ?thesis
      using 1 by (subst tail_bytes_ok.simps) simp
  qed
qed

lemma length_loop_step:
  assumes "int i < n" "n \<le> int (length data)"
  shows "length_loop msg utf8_char_length data n i count =
    (let s = take (utf8_char_length (data ! i)) (drop i data) in
     if utf8_char_length (data ! i) \<noteq> 0 \<and> int (i + utf8_char_length (data ! i)) \<le> n \<and> wf_char s
     then length_loop msg utf8_char_length data n (i + length s) (count + 1)
     else Some (Inl msg))"
proof -
  let ?l = "utf8_char_length (data ! i)"
  have i: "i < length data" using assms by linarith
  show ?thesis
  proof (cases "?l = 0 \<or> int i + int ?l > n")
    case True
    then show ?thesis
      using i assms by (subst length_loop.simps) (auto simp: Let_def)
  next
    case False
    then have "tail_bytes_ok data i 1 ?l =
        Some (list_all (\<lambda>b. b AND 0xc0 = 0x80) (drop 1 (take ?l (drop i data))))"
      using assms by (intro tail_bytes_ok_spec) auto
    moreover have "hd (take ?l (drop i data)) = data ! i" "take ?l (drop i data) \<noteq> []"
      "length (take ?l (drop i data)) = ?l"
      using False i assms by (auto simp: hd_drop_conv_nth)
    ultimately show ?thesis
      using False i assms
      by (subst length_loop.simps) (auto simp: wf_char_def Let_def drop_Suc)
  qed
qed

text \<open>The counter succeeds with \<open>k\<close> exactly when the bytes are \<open>k\<close> well-formed characters.\<close>

lemma wf_char_length: "wf_char s \<Longrightarrow> 1 \<le> length s \<and> length s \<le> 4"
  using utf8_char_length_le4 [of "hd s"] by (cases s) (auto simp: wf_char_def)

lemma length_loop_complete:
  assumes "drop i data = concat segs @ rest" "i \<le> length data"
    and "\<forall>s\<in>set segs. wf_char s" "n = int (i + length (concat segs))"
  shows "length_loop msg utf8_char_length data n i count = Some (Inr (count + length segs))"
  using assms
proof (induction segs arbitrary: i count)
  case Nil
  then show ?case by (subst length_loop.simps) simp
next
  case (Cons s segs)
  have s: "wf_char s" "1 \<le> length s" "length s = utf8_char_length (hd s)" "s \<noteq> []"
    using Cons.prems(3) wf_char_length [of s] by (auto simp: wf_char_def)
  have len: "length (drop i data) = length s + length (concat segs) + length rest"
    by (simp add: Cons.prems(1))
  have hd: "data ! i = hd s"
    using Cons.prems(1,2) s(2,4) len by (metis append_assoc concat.simps(2) hd_append2 hd_drop_conv_nth
        drop_all length_0_conv length_drop add_is_0 not_less)
  have take: "take (utf8_char_length (hd s)) (drop i data) = s"
    by (simp add: s(3) [symmetric] Cons.prems(1))
  have "length_loop msg utf8_char_length data n (i + length s) (count + 1) =
      Some (Inr (count + 1 + length segs))"
  proof (rule Cons.IH)
    show "drop (i + length s) data = concat segs @ rest"
      using Cons.prems(1) by (metis add.commute append_assoc append_eq_conv_conj concat.simps(2) drop_drop)
  next
    show "i + length s \<le> length data"
      using len s(2) by simp
  qed (use Cons.prems in auto)
  moreover have "int i < n" "n \<le> int (length data)"
    using Cons.prems(2,4) len s(2) by auto
  ultimately show ?case
    using s Cons.prems(4) by (simp add: length_loop_step take hd Let_def)
qed

lemma length_loop_sound:
  assumes "length_loop msg utf8_char_length data n i count = Some (Inr k)"
    and "int i \<le> n" "n \<le> int (length data)"
  shows "\<exists>segs. take (nat n - i) (drop i data) = concat segs \<and> (\<forall>s\<in>set segs. wf_char s) \<and>
     k = count + length segs"
  using assms
proof (induction "nat n - i" arbitrary: i count rule: less_induct)
  case less
  show ?case
  proof (cases "int i < n")
    case False
    then show ?thesis
      using less.prems by (subst (asm) length_loop.simps) (auto intro!: exI [of _ "[]"])
  next
    case True
    define s where "s = take (utf8_char_length (data ! i)) (drop i data)"
    from less.prems(1) True less.prems(3)
    have rec: "length_loop msg utf8_char_length data n (i + length s) (count + 1) = Some (Inr k)"
      and wf: "wf_char s" and le: "int (i + utf8_char_length (data ! i)) \<le> n"
      by (auto simp: length_loop_step s_def [symmetric] Let_def split: if_splits)
    have ls: "length s = utf8_char_length (data ! i)"
      using le less.prems(3) by (auto simp: s_def)
    have "nat n - (i + length s) < nat n - i"
      using True wf_char_length [OF wf] by linarith
    from less.hyps [OF this rec] le ls less.prems(3) obtain segs where
      segs: "take (nat n - (i + length s)) (drop (i + length s) data) = concat segs"
        "\<forall>s\<in>set segs. wf_char s" "k = count + 1 + length segs"
      by auto
    have "take (nat n - i) (drop i data) = s @ take (nat n - (i + length s)) (drop (i + length s) data)"
    proof -
      have "nat n - i = length s + (nat n - (i + length s))"
        using le ls by linarith
      then show ?thesis
        by (metis add.commute drop_drop ls s_def take_add)
    qed
    with segs wf show ?thesis
      by (intro exI [of _ "s # segs"]) auto
  qed
qed

text \<open>Remark: The string counter is correct on every buffer that holds the bytes it is told to read:
  it returns \<open>k\<close> exactly when those bytes are the concatenation of \<open>k\<close> characters of one to four
  bytes, each a lead byte followed by as many continuation bytes as the lead byte announces.\<close>

theorem utf8_length_correct:
  assumes "n \<le> length data"
  shows "utf8_length data (int n) = Some (Inr k) \<longleftrightarrow>
     (\<exists>segs. take n data = concat segs \<and> (\<forall>s\<in>set segs. wf_char s) \<and> k = length segs)"
proof
  assume "utf8_length data (int n) = Some (Inr k)"
  from length_loop_sound [OF this [unfolded utf8_length_def]] assms
  show "\<exists>segs. take n data = concat segs \<and> (\<forall>s\<in>set segs. wf_char s) \<and> k = length segs"
    by auto
next
  assume "\<exists>segs. take n data = concat segs \<and> (\<forall>s\<in>set segs. wf_char s) \<and> k = length segs"
  then obtain segs where segs: "take n data = concat segs" "\<forall>s\<in>set segs. wf_char s" "k = length segs"
    by blast
  have "length (concat segs) = n"
    using segs(1) assms by (metis length_take min.absorb2)
  moreover have "drop 0 data = concat segs @ drop n data"
    using segs(1) by (metis append_take_drop_id drop0)
  ultimately show "utf8_length data (int n) = Some (Inr k)"
    using length_loop_complete [of 0 data segs "drop n data"] segs
    by (simp add: utf8_length_def)
qed

theorem utf8_length_correct_witness:
  "utf8_length [0x41, 0xc3, 0xa9, 0xff] (int 3) = Some (Inr 2) \<and>
   (\<exists>segs. take 3 [0x41, 0xc3, 0xa9, 0xff :: u8] = concat segs \<and> (\<forall>s\<in>set segs. wf_char s) \<and> 2 = length segs)"
proof -
  have e: "utf8_length [0x41, 0xc3, 0xa9, 0xff] (int 3) = Some (Inr 2)" by code_simp
  then show ?thesis
    using utf8_length_correct [of 3 "[0x41, 0xc3, 0xa9, 0xff]" 2] by simp
qed

subsection \<open>The table, the encoder and main\<close>

lemma clen_fun_eq: "utf8_char_length_tbl = utf8_char_length"
  by (rule ext) (simp add: table_agrees)

lemma length_loop_msg:
  "length_loop msg' clen data n i count =
     map_option (map_sum (\<lambda>_. msg') (\<lambda>k. k)) (length_loop msg clen data n i count)"
proof (induction msg clen data n i count rule: length_loop.induct)
  case (1 msg clen data n i count)
  then show ?case
    by (subst (1 2) length_loop.simps) (auto simp: map_option_bind intro!: Option.bind_cong)
qed

lemma utf8_length_tbl_eq:
  "utf8_length_tbl data n = map_option (map_sum (\<lambda>_. ''utf8_length_tbl: ERROR'') id) (utf8_length data n)"
  unfolding utf8_length_tbl_def utf8_length_def clen_fun_eq id_def by (rule length_loop_msg)

text \<open>Remark: The optimised table-driven counter agrees with the branching one on every buffer and
  length: the same count, the same rejection (only the name in the message differs), and
  undefined behaviour on the same inputs; its table index is always inside the table.\<close>

theorem utf8_length_tbl_equiv:
  "utf8_length_tbl data n = map_option (map_sum (\<lambda>_. ''utf8_length_tbl: ERROR'') id) (utf8_length data n) \<and>
   unat (drop_bit 3 (c :: u8)) < length char_length_table"
  using table_index_in_bounds [of c] by (simp add: utf8_length_tbl_eq)

lemma char_length_high_bits_table:
  "list_all (\<lambda>b. let h = high_bits_set (ucast b) in
     h \<le> 4 \<and> h \<noteq> 1 \<longrightarrow> utf8_char_length b = (if h = 0 then 1 else h)) (map of_nat [0..<256])"
  by code_simp

lemma char_length_high_bits:
  "high_bits_set (ucast b) \<le> 4 \<Longrightarrow> high_bits_set (ucast b) \<noteq> 1 \<Longrightarrow>
   utf8_char_length b = (if high_bits_set (ucast b) = 0 then 1 else high_bits_set (ucast b))"
  using all_bytes [OF char_length_high_bits_table, of b] by (simp add: Let_def)

lemma cont_bytes_marked: "list_all (\<lambda>b. b AND 0xc0 = 0x80) (cont_bytes k u)"
  by (induction k) (simp_all add: cont_byte_mark)

text \<open>The encoder's output for the code points of up to four bytes is one well-formed character.\<close>

lemma wf_char_utf8_bytes:
  assumes "u \<le> 0x1fffff"
  shows "wf_char (utf8_bytes u)"
proof -
  have u: "u \<le> 0x7fffffff"
    using assms by (rule order_trans) simp
  have c: "find_class u max_val 0 \<le> 3"
    using assms by (simp add: find_class_max_val)
  have "high_bits_set (ucast (hd (utf8_bytes u))) =
      (if find_class u max_val 0 = 0 then 0 else Suc (find_class u max_val 0))"
    using high_bits_utf8_bytes [OF u] by (simp add: length_utf8_bytes split: if_splits)
  then have "utf8_char_length (hd (utf8_bytes u)) = length (utf8_bytes u)"
    using c by (subst char_length_high_bits) (auto simp: length_utf8_bytes)
  then show ?thesis
    by (auto simp: wf_char_def utf8_bytes_def Let_def cont_bytes_marked)
qed

text \<open>Remark: Counting what the encoder of \<open>ceph-utf8.c\<close> wrote gives back the number of code points,
  for code points of up to four bytes (those of Unicode among them), by both counters.\<close>

theorem utf8_length_of_encoding:
  assumes "\<forall>u\<in>set us. u \<le> 0x1fffff"
  shows "utf8_length (concat (map utf8_bytes us) @ rest) (int (length (concat (map utf8_bytes us))))
      = Some (Inr (length us)) \<and>
    utf8_length_tbl (concat (map utf8_bytes us) @ rest) (int (length (concat (map utf8_bytes us))))
      = Some (Inr (length us))"
proof -
  let ?d = "concat (map utf8_bytes us)"
  have "length_loop msg utf8_char_length (?d @ rest) (int (length ?d)) 0 0 =
      Some (Inr (0 + length (map utf8_bytes us)))" for msg
    using assms by (intro length_loop_complete [of 0 _ _ rest]) (auto intro: wf_char_utf8_bytes)
  then show ?thesis
    by (simp add: utf8_length_def utf8_length_tbl_def clen_fun_eq)
qed

theorem utf8_length_of_encoding_witness:
  "utf8_length (concat (map utf8_bytes [0x41, 0x20ac]) @ []) (int (length (concat (map utf8_bytes [0x41, 0x20ac]))))
   = Some (Inr 2)"
  using utf8_length_of_encoding [of "[0x41, 0x20ac]" "[]"] by simp

text \<open>The sums of the benchmark.\<close>

lemma sum_chars_sum: "sum_chars f buf n = n + sum_list (map f buf)"
  by (induction buf arbitrary: n) simp_all

lemma char_rounds_sum: "char_rounds f r buf n = n + r * sum_list (map f buf)"
  by (induction r arbitrary: n) (simp_all add: sum_chars_sum)

lemma string_rounds_sum:
  "f buf (int (length buf)) = Some (Inr k) \<Longrightarrow> string_rounds f r buf n = Some (Inr (n + r * k))"
  by (induction r arbitrary: n) simp_all

lemma ascii_masked: "0 \<le> sint (b AND 0x7f :: u8)"
proof -
  have "\<not> bit (b AND 0x7f) 7" by (simp add: bit_simps)
  then show ?thesis by (simp add: sint_uint signed_take_bit_nonnegative_iff bit_uint_iff)
qed

lemma concat_singletons [simp]: "concat (map (\<lambda>b. [b]) xs) = xs"
  by (induction xs) simp_all

lemma utf8_length_ascii:
  assumes "\<forall>b\<in>set buf. 0 \<le> sint b"
  shows "utf8_length buf (int (length buf)) = Some (Inr (length buf))"
proof -
  have "\<exists>segs. take (length buf) buf = concat segs \<and> (\<forall>s\<in>set segs. wf_char s) \<and> length buf = length segs"
    using assms by (intro exI [of _ "map (\<lambda>b. [b]) buf"]) (auto simp: wf_char_def utf8_char_length_def)
  then obtain segs where "drop 0 buf = concat segs @ []" "\<forall>s\<in>set segs. wf_char s" "length buf = length segs"
    by auto
  then show ?thesis
    using length_loop_complete [of 0 buf segs "[]"] by (simp add: utf8_length_def)
qed

text \<open>Remark: \<open>main\<close> never reports an error: its check of the table passes, the masked buffer
  is valid, so both string counters count every byte, and the sum it returns is
  \<open>2 * rounds\<close> times the character lengths of the random buffer plus \<open>2 * rounds * bufsz\<close>.\<close>

theorem main_utf8_len_result:
  assumes "bench_bufsz \<le> length rnd"
  shows "main_utf8_len rounds rnd =
    Some (Inr (2 * rounds * (sum_list (map utf8_char_length (take bench_bufsz rnd)) + bench_bufsz)))"
proof -
  let ?buf = "take bench_bufsz rnd"
  let ?a = "map (\<lambda>b. b AND 0x7f) ?buf"
  have lv: lengths_verified
    by (simp add: lengths_verified_def table_agrees list_all_iff)
  have len: "utf8_length ?a (int (length ?a)) = Some (Inr bench_bufsz)"
    using utf8_length_ascii [of ?a] assms by (auto simp: ascii_masked)
  have "utf8_length_tbl ?a (int (length ?a)) = Some (Inr bench_bufsz)"
    using len by (simp add: utf8_length_tbl_eq)
  with len lv show ?thesis
    by (simp add: main_utf8_len_def Let_def string_rounds_sum char_rounds_sum clen_fun_eq algebra_simps
        del: length_map map_map)
qed

theorem main_utf8_len_result_witness:
  "main_utf8_len 1 (replicate 256 0) =
     Some (Inr (2 * 1 * (sum_list (map utf8_char_length (take bench_bufsz (replicate 256 0))) + bench_bufsz)))"
  using main_utf8_len_result [of "replicate 256 0" 1] by (simp add: bench_bufsz_def)

end
