(* ===== verification/EncodeInline.thy ===== *)
theory EncodeInline
  imports Utf8Codec
begin

text \<open>
  The benchmark of the inlined encoder (\<open>src/ceph-utf8/bench-inline.c\<close>): it encodes the 1642 code points of a
  file into an array of 4096 bytes, again and again.

  The file is its bytes, and \<open>got\<close> what the one call of \<open>read\<close> returned; the first contents of the array on
  the stack are an argument. The clock is left out.
\<close>

definition encode_utf8_static :: "u64 \<Rightarrow> u8 list \<Rightarrow> (int \<times> u8 list) option" where
  "encode_utf8_static u buf =
     (if u \<le> 0x7f then do {
        b \<leftarrow> c_store buf 0 (ucast u);
        Some (1, b)
      } else if u \<le> 0x7ff then do {
        b \<leftarrow> c_store buf 0 (ucast (0xc0 OR drop_bit 6 u));
        b \<leftarrow> c_store b 1 (ucast (0x80 OR (u AND 0x3f)));
        Some (2, b)
      } else if u \<le> 0xffff then do {
        b \<leftarrow> c_store buf 0 (ucast (0xe0 OR drop_bit 12 u));
        b \<leftarrow> c_store b 1 (ucast (0x80 OR (drop_bit 6 u AND 0x3f)));
        b \<leftarrow> c_store b 2 (ucast (0x80 OR (u AND 0x3f)));
        Some (3, b)
      } else if u \<le> 0x1fffff then do {
        b \<leftarrow> c_store buf 0 (ucast (0xf0 OR drop_bit 18 u));
        b \<leftarrow> c_store b 1 (ucast (0x80 OR (drop_bit 12 u AND 0x3f)));
        b \<leftarrow> c_store b 2 (ucast (0x80 OR (drop_bit 6 u AND 0x3f)));
        b \<leftarrow> c_store b 3 (ucast (0x80 OR (u AND 0x3f)));
        Some (4, b)
      } else if u \<le> 0x3ffffff then do {
        (u', b) \<leftarrow> put_tail 4 u buf;
        b \<leftarrow> c_store b 0 (ucast (0xf8 OR u'));
        Some (5, b)
      } else if u \<le> 0x7fffffff then do {
        (u', b) \<leftarrow> put_tail 5 u buf;
        b \<leftarrow> c_store b 0 (ucast (0xfc OR u'));
        Some (6, b)
      } else Some (-1, buf))"

definition encode_utf8_inline :: "u64 \<Rightarrow> u8 list \<Rightarrow> (int \<times> u8 list) option" where
  "encode_utf8_inline u buf = encode_utf8_static u buf"

definition encode_utf8_noinline :: "u64 \<Rightarrow> u8 list \<Rightarrow> (int \<times> u8 list) option" where
  "encode_utf8_noinline u buf = encode_utf8_static u buf"

text \<open>Reading past the end of \<open>decoded\<close> is \<open>None\<close>, as is writing past the end of \<open>encoded\<close>.\<close>

definition bench_inline :: "u64 list \<Rightarrow> nat \<Rightarrow> u8 list \<Rightarrow> u8 list option" where
  "bench_inline decoded n_decoded encoded =
     (if n_decoded = 0 \<or> length decoded < n_decoded then None
      else let loops = 1024 * 1024 * 1024 div n_decoded in do {
        encoded \<leftarrow> bench_rounds encode_utf8_inline loops (take n_decoded decoded) encoded;
        bench_rounds encode_utf8_noinline loops (take n_decoded decoded) encoded })"

text \<open>The bytes of the file as the array of \<open>unsigned long\<close> that they are read into.\<close>

function longs :: "u8 list \<Rightarrow> u64 list" where
  "longs bs = (if length bs < 8 then [] else le_word (take 8 bs) # longs (drop 8 bs))"
  by pat_completeness auto
termination
  by (relation "measure length") auto

declare longs.simps [simp del]

definition load_decoded :: "u8 list \<Rightarrow> int \<Rightarrow> u64 list option" where
  "load_decoded file got = (if got = int (length file) then Some (longs file) else None)"

definition main_bench_inline :: "u8 list \<Rightarrow> int \<Rightarrow> u8 list \<Rightarrow> u8 list option" where
  "main_bench_inline file got stack =
     do { decoded \<leftarrow> load_decoded file got; bench_inline decoded 1642 (take 4096 stack) }"

subsection \<open>The three encoders are one\<close>

lemma static_is_quick: "encode_utf8_static = encode_utf8_quick"
  by (rule ext)+ (simp only: encode_utf8_static_def encode_utf8_quick_def)

lemma inlines: "encode_utf8_inline = encode_utf8_quick" "encode_utf8_noinline = encode_utf8_quick"
  by (rule ext, rule ext, simp add: encode_utf8_inline_def encode_utf8_noinline_def static_is_quick)+

lemma overwrite_twice [simp]: "overwrite (overwrite arr 0 bs) 0 bs = overwrite arr 0 bs"
  by (simp add: overwrite_def)

subsection \<open>When the array is too short\<close>

lemma bench_pass_overflow:
  assumes "list_all (\<lambda>u. u \<le> 0x7fffffff) us" "length pre \<le> length arr" "take (length pre) arr = pre"
    and "length arr < length pre + length (concat (map utf8_bytes us))"
  shows "bench_pass encode_utf8_quick us arr (int (length pre)) = None"
  using assms
proof (induction us arbitrary: pre arr)
  case (Cons u us)
  let ?b = "utf8_bytes u"
  let ?arr = "overwrite arr (length pre) ?b"
  show ?case
  proof (cases "length pre + length ?b \<le> length arr")
    case True
    have "encode_at encode_utf8_quick arr (int (length pre)) u = Some (int (length ?b), ?arr)"
      using Cons.prems True by (intro encode_at_spec) auto
    moreover have "bench_pass encode_utf8_quick us ?arr (int (length (pre @ ?b))) = None"
      using Cons.prems True by (intro Cons.IH) (auto simp: take_overwrite)
    ultimately show ?thesis by simp
  next
    case False
    then have "\<not> length ?b \<le> length arr - length pre" using Cons.prems(2) by linarith
    then show ?thesis using Cons.prems by (simp add: encode_at_def encode_utf8_quick_spec)
  qed
qed simp

lemma bench_rounds_result:
  assumes "list_all (\<lambda>u. u \<le> 0x7fffffff) us" "0 < n"
  shows "bench_rounds encode_utf8_quick n us arr =
     (if length (concat (map utf8_bytes us)) \<le> length arr then Some (overwrite arr 0 (concat (map utf8_bytes us))) else None)"
proof (cases "length (concat (map utf8_bytes us)) \<le> length arr")
  case True
  have p: "bench_pass encode_utf8_quick us arr' 0 = Some (overwrite arr' 0 (concat (map utf8_bytes us)))"
    if "length arr' = length arr" for arr'
    using bench_pass_overwrite [of us encode_utf8_quick "[]" arr'] assms(1) True that by simp
  have "bench_rounds encode_utf8_quick (Suc m) us arr' = Some (overwrite arr' 0 (concat (map utf8_bytes us)))"
    if "length arr' = length arr" for m arr'
    using that True
  proof (induction m arbitrary: arr')
    case (Suc m)
    have "bench_rounds encode_utf8_quick (Suc m) us (overwrite arr' 0 (concat (map utf8_bytes us))) =
        Some (overwrite (overwrite arr' 0 (concat (map utf8_bytes us))) 0 (concat (map utf8_bytes us)))"
      using Suc.prems by (intro Suc.IH) simp_all
    then show ?case using p [OF Suc.prems(1)] by simp
  qed (simp add: p)
  then show ?thesis using assms(2) True by (cases n) auto
next
  case False
  then show ?thesis using bench_pass_overflow [of us "[]" arr] assms by (cases n) auto
qed

text \<open>Remark: For a file of at least 1642 code points below \<open>2^31\<close>, read in one piece, the benchmark stays in its
  array exactly when the encodings of the first 1642 take at most 4096 bytes, and then the array begins with
  them, after the inlined and the called encoder; nothing in the program checks this.\<close>

theorem bench_inline_fits:
  assumes "got = int (length file)" "1642 \<le> length (longs file)" "4096 \<le> length stack"
    and "list_all (\<lambda>u. u \<le> 0x7fffffff) (take 1642 (longs file))"
  shows "main_bench_inline file got stack =
    (let bs = concat (map utf8_bytes (take 1642 (longs file)))
     in if length bs \<le> 4096 then Some (overwrite (take 4096 stack) 0 bs) else None)"
  using assms bench_rounds_result [OF assms(4)]
  by (simp add: main_bench_inline_def load_decoded_def bench_inline_def inlines Let_def min_def)

lemma longs_replicate: "length w = 8 \<Longrightarrow> longs (concat (replicate n w)) = replicate n (le_word w)"
  by (induction n) (simp_all add: longs.simps)

theorem bench_inline_fits_witness:
  "main_bench_inline (concat (replicate 1642 [65, 0, 0, 0, 0, 0, 0, 0])) 13136 (replicate 5000 0) =
     Some (replicate 1642 65 @ replicate 2454 0) \<and>
   main_bench_inline (concat (replicate 1642 [0xAC, 0x20, 0, 0, 0, 0, 0, 0])) 13136 (replicate 5000 0) = None"
proof -
  have w: "le_word [65, 0, 0, 0, 0, 0, 0, 0] = (65 :: u64)" "le_word [0xAC, 0x20, 0, 0, 0, 0, 0, 0] = (0x20AC :: u64)"
    "utf8_bytes 65 = [65]" "utf8_bytes 0x20AC = [0xE2, 0x82, 0xAC]" by code_simp+
  have l: "longs (concat (replicate 1642 [65, 0, 0, 0, 0, 0, 0, 0])) = replicate 1642 65"
    "longs (concat (replicate 1642 [0xAC, 0x20, 0, 0, 0, 0, 0, 0])) = replicate 1642 0x20AC"
    by (simp_all add: longs_replicate w(1,2))
  have n: "length (concat (replicate 1642 ([65, 0, 0, 0, 0, 0, 0, 0] :: u8 list))) = 13136"
    "length (concat (replicate 1642 ([0xAC, 0x20, 0, 0, 0, 0, 0, 0] :: u8 list))) = 13136"
    "length (concat (replicate 1642 ([0xE2, 0x82, 0xAC] :: u8 list))) = 4926"
    by (simp_all add: length_concat sum_list_replicate)
  have c: "concat (replicate k [b]) = replicate k b" for k and b :: u8
    by (induction k) auto
  show ?thesis
  proof
    show "main_bench_inline (concat (replicate 1642 [65, 0, 0, 0, 0, 0, 0, 0])) 13136 (replicate 5000 0) = Some (replicate 1642 65 @ replicate 2454 0)"
      using bench_inline_fits [of 13136 "concat (replicate 1642 [65, 0, 0, 0, 0, 0, 0, 0])" "replicate 5000 0"]
      by (simp add: l n w list_all_iff overwrite_def c)
    show "main_bench_inline (concat (replicate 1642 [0xAC, 0x20, 0, 0, 0, 0, 0, 0])) 13136 (replicate 5000 0) = None"
      using bench_inline_fits [of 13136 "concat (replicate 1642 [0xAC, 0x20, 0, 0, 0, 0, 0, 0])" "replicate 5000 0"]
      by (simp add: l n w list_all_iff)
  qed
qed

end
