(* ===== verification/AsciiCheck.thy ===== *)
theory AsciiCheck
  imports Prelude
begin

unbundle bit_operations_syntax

text \<open>
  The ASCII validators of \<open>src/ascii.c\<close> and \<open>src/ascii.S\<close>: eight-byte lanes in C
  (\<open>ascii_u64\<close>), sixteen-byte vectors (\<open>ascii_neon\<close>), the assembly version
  (\<open>ascii_u64_asm\<close>), and the self test over the table of the three.

  A pointer is an offset into the buffer. Loads are little endian (AArch64); a load past the
  buffer is \<open>None\<close>. The vector intrinsics are the lane-wise operations of the instruction set.
\<close>

subsection \<open>Loads\<close>

text \<open>\<open>*(const uint64_t *)p\<close> and one 16-byte vector load.\<close>

definition load64 :: "u8 list \<Rightarrow> nat \<Rightarrow> u64 option" where
  "load64 data k =
     (if k + 8 \<le> length data then Some (le_word (take 8 (drop k data))) else None)"

definition vld1q_u8 :: "u8 list \<Rightarrow> nat \<Rightarrow> u8 list option" where
  "vld1q_u8 data k = (if k + 16 \<le> length data then Some (take 16 (drop k data)) else None)"

definition vdupq_n_u8 :: "u8 \<Rightarrow> u8 list" where
  "vdupq_n_u8 v = replicate 16 v"

definition vorrq_u8 :: "u8 list \<Rightarrow> u8 list \<Rightarrow> u8 list" where
  "vorrq_u8 a b = map2 (OR) a b"

definition vmaxvq_u8 :: "u8 list \<Rightarrow> u8" where
  "vmaxvq_u8 a = fold max a 0"

subsection \<open>The validator in C\<close>

text \<open>The \<open>do ... while (len >= 16)\<close> loop over two lanes: the final offset, length and ORs.\<close>

function u64_loop :: "u8 list \<Rightarrow> nat \<Rightarrow> int \<Rightarrow> u64 \<Rightarrow> u64 \<Rightarrow> (nat \<times> int \<times> u64 \<times> u64) option" where
  "u64_loop data k len or1 or2 = do {
     a \<leftarrow> load64 data k;
     b \<leftarrow> load64 data (k + 8);
     let or1 = or1 OR a;
     let or2 = or2 OR b;
     let k = k + 16;
     let len = len - 16;
     if 16 \<le> len then u64_loop data k len or1 or2 else Some (k, len, or1, or2)
   }"
  by pat_completeness auto
termination
  by (relation "measure (\<lambda>(data, k, len, or1, or2). nat len)") auto

declare u64_loop.simps [simp del]

text \<open>The loop \<open>while (len--) orall |= *data++\<close>. A negative length runs out of the buffer.\<close>

function tail_or :: "u8 list \<Rightarrow> nat \<Rightarrow> int \<Rightarrow> u8 \<Rightarrow> u8 option" where
  "tail_or data k len orall =
     (if len = 0 then Some orall
      else do {
        b \<leftarrow> c_load data k;
        tail_or data (k + 1) (len - 1) (orall OR b)
      })"
  by pat_completeness auto
termination
  by (relation "measure (\<lambda>(data, k, len, orall). length data - k)") (auto simp: c_load_def split: if_splits)

declare tail_or.simps [simp del]

definition ascii_u64 :: "u8 list \<Rightarrow> nat \<Rightarrow> int \<Rightarrow> bool option" where
  "ascii_u64 data k len = do {
     (k, len, orall) \<leftarrow>
       (if 16 \<le> len then do {
          (k, len, or1, or2) \<leftarrow> u64_loop data k len 0 0;
          Some (k, len, (if (or1 OR or2) AND 0x8080808080808080 = 0 then 1 else 0) - 1)
        } else Some (k, len, 0));
     orall \<leftarrow> tail_or data k len orall;
     Some (orall < 0x80)
   }"

subsection \<open>The validator with vectors\<close>

function neon_loop ::
    "u8 list \<Rightarrow> nat \<Rightarrow> int \<Rightarrow> u8 list \<Rightarrow> u8 list \<Rightarrow> (nat \<times> int \<times> u8 list \<times> u8 list) option" where
  "neon_loop data k len or1 or2 =
     (if 32 \<le> len then do {
        input1 \<leftarrow> vld1q_u8 data k;
        input2 \<leftarrow> vld1q_u8 data (k + 16);
        neon_loop data (k + 32) (len - 32) (vorrq_u8 or1 input1) (vorrq_u8 or2 input2)
      } else Some (k, len, or1, or2))"
  by pat_completeness auto
termination
  by (relation "measure (\<lambda>(data, k, len, or1, or2). nat len)") auto

declare neon_loop.simps [simp del]

definition ascii_neon :: "u8 list \<Rightarrow> nat \<Rightarrow> int \<Rightarrow> bool option" where
  "ascii_neon data k len =
     (if 32 \<le> len then do {
        (k, len, or1, or2) \<leftarrow> neon_loop data k len (vdupq_n_u8 0) (vdupq_n_u8 0);
        (if 0x80 \<le> vmaxvq_u8 (vorrq_u8 or1 or2) then Some False else ascii_u64 data k len)
      } else ascii_u64 data k len)"

subsection \<open>The validator in assembly\<close>

text \<open>\<open>.L16_loop\<close>: \<open>ldp\<close> with post-increment, then branch while the pointer is not past \<open>x_data_end\<close>.
  Offsets stand for addresses; the buffer does not wrap around the address space.\<close>

function asm_l16_loop :: "u8 list \<Rightarrow> nat \<Rightarrow> nat \<Rightarrow> u64 \<Rightarrow> u64 \<Rightarrow> (nat \<times> u64 \<times> u64) option" where
  "asm_l16_loop data x_data x_data_end x_or1 x_or2 = do {
     x_tmp1 \<leftarrow> load64 data x_data;
     x_tmp2 \<leftarrow> load64 data (x_data + 8);
     let x_data = x_data + 16;
     let x_or1 = x_or1 OR x_tmp1;
     let x_or2 = x_or2 OR x_tmp2;
     if x_data \<le> x_data_end then asm_l16_loop data x_data x_data_end x_or1 x_or2
     else Some (x_data, x_or1, x_or2)
   }"
  by pat_completeness auto
termination
  by (relation "measure (\<lambda>(data, x_data, x_data_end, x_or1, x_or2). Suc x_data_end - x_data)") auto

declare asm_l16_loop.simps [simp del]

text \<open>\<open>.Lremaining_loop\<close>, entered with \<open>w_len \<noteq> 0\<close>.\<close>

function asm_remaining :: "u8 list \<Rightarrow> nat \<Rightarrow> u32 \<Rightarrow> u32 \<Rightarrow> u32 option" where
  "asm_remaining data x_data w_len w_orall = do {
     w_tmp1 \<leftarrow> c_load data x_data;
     let w_orall = w_orall OR ucast w_tmp1;
     let w_len = w_len - 1;
     if w_len \<noteq> 0 then asm_remaining data (x_data + 1) w_len w_orall else Some w_orall
   }"
  by pat_completeness auto
termination
  by (relation "measure (\<lambda>(data, x_data, w_len, w_orall). length data - x_data)")
    (auto simp: c_load_def split: if_splits)

declare asm_remaining.simps [simp del]

definition ascii_u64_asm :: "u8 list \<Rightarrow> nat \<Rightarrow> u64 \<Rightarrow> bool option" where
  "ascii_u64_asm data k x_len = do {
     let w_len = (ucast x_len :: u32);
     (x_data, w_len, w_orall) \<leftarrow>
       (if sint w_len < 16 then Some (k, w_len, 0)
        else do {
          (x_data, x_or1, x_or2) \<leftarrow> asm_l16_loop data k (k + unat x_len - 16) 0 0;
          Some (x_data, w_len AND 0xf,
            if (x_or1 OR x_or2) AND 0x8080808080808080 \<noteq> 0 then - 1 else 0)
        });
     w_orall \<leftarrow> (if w_len = 0 then Some w_orall else asm_remaining data x_data w_len w_orall);
     Some (drop_bit 31 (NOT (scast (ucast w_orall :: u8) :: u32)) = 1)
   }"

text \<open>The call from C: the caller puts \<open>len\<close> into \<open>w1\<close>; the procedure call standard leaves the
  upper half of \<open>x1\<close> unspecified, here the parameter \<open>upper\<close>.\<close>

definition call_ascii_u64_asm :: "u32 \<Rightarrow> u8 list \<Rightarrow> nat \<Rightarrow> int \<Rightarrow> bool option" where
  "call_ascii_u64_asm upper data k len =
     ascii_u64_asm data k (push_bit 32 (ucast upper) OR ucast (word_of_int len :: u32))"

subsection \<open>The self test\<close>

type_synonym validator = "u8 list \<Rightarrow> nat \<Rightarrow> int \<Rightarrow> bool option"

definition ftab :: "u32 \<Rightarrow> (string \<times> validator) list" where
  "ftab upper = [(''u64'', ascii_u64), (''u64_asm'', call_ascii_u64_asm upper), (''neon'', ascii_neon)]"

text \<open>\<open>load_test_buf\<close>: the counter \<open>v\<close> runs through 0 to 127 again and again.\<close>

fun load_test_bytes :: "nat \<Rightarrow> u8 \<Rightarrow> u8 list" where
  "load_test_bytes 0 v = []"
| "load_test_bytes (Suc n) v = v # load_test_bytes n ((v + 1) AND 0x7f)"

definition load_test_buf :: "nat \<Rightarrow> u8 list" where
  "load_test_buf len = load_test_bytes len 0"

text \<open>The negative part of \<open>test\<close>: byte \<open>i\<close> gets its high bit for one call and loses it again.\<close>

fun test_negative :: "validator \<Rightarrow> u8 list \<Rightarrow> int \<Rightarrow> nat list \<Rightarrow> bool \<Rightarrow> (u8 list \<times> bool) option" where
  "test_negative f data len [] error = Some (data, error)"
| "test_negative f data len (i # is) error = do {
     d \<leftarrow> c_load data i;
     data \<leftarrow> c_store data i (d + 0x80);
     r \<leftarrow> f data 0 len;
     d \<leftarrow> c_load data i;
     data \<leftarrow> c_store data i (d - 0x80);
     test_negative f data len is (error \<or> r)
   }"

text \<open>The buffer after the test and the verdict (\<open>True\<close> prints pass).\<close>

definition test :: "validator \<Rightarrow> u8 list \<Rightarrow> nat \<Rightarrow> (u8 list \<times> bool) option" where
  "test f data len = do {
     r \<leftarrow> f data 0 (int len);
     (data, error) \<leftarrow>
       (if len < 100 * 1024 then test_negative f data (int len) [0..<len] (\<not> r)
        else Some (data, \<not> r));
     Some (data, \<not> error)
   }"

definition test_sizes :: "nat list" where
  "test_sizes = [9, 16 + 1, 32 - 1, 128 + 1, 1024 + 15, 16 * 1024 + 1, 64 * 1024 + 15, 1024 * 1024]"

text \<open>The test loops of \<open>main\<close>: every size with every function of the table.\<close>

fun run_tests :: "(validator \<times> nat) list \<Rightarrow> u8 list \<Rightarrow> (u8 list \<times> bool list) option" where
  "run_tests [] data = Some (data, [])"
| "run_tests ((f, len) # todo) data = do {
     (data, ok) \<leftarrow> test f data len;
     (data, oks) \<leftarrow> run_tests todo data;
     Some (data, ok # oks)
   }"

definition main_tests :: "u32 \<Rightarrow> (u8 list \<times> bool list) option" where
  "main_tests upper =
     run_tests [(snd f, len). len \<leftarrow> test_sizes, f \<leftarrow> ftab upper] (load_test_buf (last test_sizes))"

subsection \<open>What a validator promises\<close>

definition ascii_bytes :: "u8 list \<Rightarrow> bool" where
  "ascii_bytes = list_all (\<lambda>b. b < 0x80)"

lemma ascii_bytes_simps [simp]:
  "ascii_bytes []" "ascii_bytes (b # bs) \<longleftrightarrow> b < 0x80 \<and> ascii_bytes bs"
  "ascii_bytes (bs @ cs) \<longleftrightarrow> ascii_bytes bs \<and> ascii_bytes cs"
  by (simp_all add: ascii_bytes_def)

lemma ascii_bytes_take_split:
  "ascii_bytes (take (m + n) (drop k data)) \<longleftrightarrow>
     ascii_bytes (take m (drop k data)) \<and> ascii_bytes (take n (drop (k + m) data))"
  by (simp add: take_add add.commute)

lemma or_less_80: "a OR b < 0x80 \<longleftrightarrow> a < 0x80 \<and> b < 0x80" for a b :: u8
  by (simp add: byte_high_bit bit_or_iff)

subsection \<open>The lanes\<close>

definition clean :: "u64 \<Rightarrow> bool" where
  "clean w \<longleftrightarrow> w AND 0x8080808080808080 = 0"

lemma mask_bits: "list_all (\<lambda>n. bit (0x8080808080808080 :: u64) n = (n mod 8 = 7)) [0..<64]"
  by code_simp

lemma clean_iff: "clean w \<longleftrightarrow> (\<forall>n<64. n mod 8 = 7 \<longrightarrow> \<not> bit w n)"
proof -
  have "bit (0x8080808080808080 :: u64) n \<longleftrightarrow> n mod 8 = 7" if "n < 64" for n
    using mask_bits that by (auto simp: list_all_iff)
  then show ?thesis
    unfolding clean_def bit_eq_iff by (auto simp: bit_and_iff dest: bit_imp_le_length)
qed

lemma clean_or: "clean (a OR b) \<longleftrightarrow> clean a \<and> clean b"
  by (auto simp: clean_iff bit_or_iff)

lemma clean_0 [simp]: "clean 0"
  by (simp add: clean_def)

lemma ascii_bytes_nth: "ascii_bytes bs \<longleftrightarrow> (\<forall>i<length bs. \<not> bit (bs ! i) 7)"
  by (auto simp: ascii_bytes_def list_all_length byte_high_bit)

lemma clean_le_word:
  assumes "length bs = 8"
  shows "clean (le_word bs) \<longleftrightarrow> ascii_bytes bs"
proof
  assume c: "clean (le_word bs)"
  have "\<not> bit (bs ! i) 7" if "i < 8" for i
    using c [unfolded clean_iff, rule_format, of "8 * i + 7"] that assms
    by (simp add: bit_le_word)
  then show "ascii_bytes bs" by (simp add: ascii_bytes_nth assms)
next
  assume "ascii_bytes bs"
  then have "\<not> bit (bs ! i) 7" if "i < 8" for i
    using that by (simp add: ascii_bytes_nth assms)
  then show "clean (le_word bs)"
    by (auto simp: clean_iff bit_le_word assms)
qed

lemma load64_clean:
  assumes "k + 8 \<le> length data"
  shows "\<exists>w. load64 data k = Some w \<and> (clean w \<longleftrightarrow> ascii_bytes (take 8 (drop k data)))"
  using assms by (auto simp: load64_def clean_le_word)

text \<open>Sixteen bytes as two lanes, ORed into two accumulators.\<close>

lemma load64_pair:
  assumes "k + 16 \<le> length data"
  obtains a b where "load64 data k = Some a" "load64 data (k + 8) = Some b"
    "\<And>or1 or2. clean ((or1 OR a) OR (or2 OR b)) \<longleftrightarrow>
       clean (or1 OR or2) \<and> ascii_bytes (take 16 (drop k data))"
proof -
  obtain a b where ab: "load64 data k = Some a" "load64 data (k + 8) = Some b"
    "clean a \<longleftrightarrow> ascii_bytes (take 8 (drop k data))"
    "clean b \<longleftrightarrow> ascii_bytes (take 8 (drop (k + 8) data))"
    using load64_clean [of k data] load64_clean [of "k + 8" data] assms by auto
  show thesis
    using that [OF ab(1,2)] ab(3,4) ascii_bytes_take_split [of 8 8 k data] by (simp add: clean_or) blast
qed

lemma div_steps [simp]:
  "(16 + m) div 16 = Suc (m div 16)" "(32 + m) div 32 = Suc (m div 32)" for m :: nat
  by (subst le_div_geq; simp)+

lemma u64_loop_spec:
  assumes "16 \<le> n" "k + n \<le> length data"
  shows "\<exists>or1' or2'. u64_loop data k (int n) or1 or2 = Some (k + 16 * (n div 16), int (n mod 16), or1', or2') \<and>
    (clean (or1' OR or2') \<longleftrightarrow> clean (or1 OR or2) \<and> ascii_bytes (take (16 * (n div 16)) (drop k data)))"
  using assms
proof (induction n arbitrary: k or1 or2 rule: less_induct)
  case (less n)
  from less.prems have "k + 16 \<le> length data" by linarith
  then obtain a b where ab: "load64 data k = Some a" "load64 data (k + 8) = Some b"
    "\<And>or1 or2. clean ((or1 OR a) OR (or2 OR b)) \<longleftrightarrow>
       clean (or1 OR or2) \<and> ascii_bytes (take 16 (drop k data))"
    by (rule load64_pair) blast
  obtain m where m: "n = 16 + m" using less.prems(1) le_Suc_ex by blast
  have step: "u64_loop data k (int n) or1 or2 =
      (if 16 \<le> m then u64_loop data (k + 16) (int m) (or1 OR a) (or2 OR b)
       else Some (k + 16, int m, or1 OR a, or2 OR b))"
    by (subst u64_loop.simps) (simp add: ab(1,2) m)
  show ?case
  proof (cases "16 \<le> m")
    case True
    with less.IH [of m "k + 16" "or1 OR a" "or2 OR b"] less.prems m obtain or1' or2' where
      "u64_loop data (k + 16) (int m) (or1 OR a) (or2 OR b) =
        Some (k + 16 + 16 * (m div 16), int (m mod 16), or1', or2')"
      "clean (or1' OR or2') \<longleftrightarrow> clean ((or1 OR a) OR (or2 OR b)) \<and>
        ascii_bytes (take (16 * (m div 16)) (drop (k + 16) data))"
      by auto
    with True step show ?thesis
      using ascii_bytes_take_split [of 16 "16 * (m div 16)" k data]
      by (simp add: m ab(3))
  next
    case False
    then show ?thesis using step by (simp add: m ab(3))
  qed
qed

lemma tail_or_spec:
  assumes "k + n \<le> length data"
  shows "\<exists>v. tail_or data k (int n) orall = Some v \<and>
    (v < 0x80 \<longleftrightarrow> orall < 0x80 \<and> ascii_bytes (take n (drop k data)))"
  using assms
proof (induction n arbitrary: k orall)
  case 0
  then show ?case by (subst tail_or.simps) simp
next
  case (Suc n)
  from Suc.IH [of "k + 1" "orall OR data ! k"] Suc.prems obtain v where
    "tail_or data (k + 1) (int n) (orall OR data ! k) = Some v"
    "v < 0x80 \<longleftrightarrow> orall OR data ! k < 0x80 \<and> ascii_bytes (take n (drop (k + 1) data))"
    by auto
  moreover have "take (Suc n) (drop k data) = data ! k # take n (drop (k + 1) data)"
    using Suc.prems by (simp add: Cons_nth_drop_Suc [symmetric])
  ultimately show ?case
    using Suc.prems by (subst tail_or.simps) (simp add: or_less_80)
qed

text \<open>The contract all three functions of the table are meant to meet.\<close>

locale ascii_validator =
  fixes f :: validator
  assumes decides: "k + n \<le> length data \<Longrightarrow> n < 2 ^ 31 \<Longrightarrow>
    f data k (int n) = Some (ascii_bytes (take n (drop k data)))"
begin

lemma test_negative_passes:
  assumes "ascii_bytes (take n data)" "n \<le> length data" "n < 2 ^ 31" "\<forall>i\<in>set is. i < n"
  shows "test_negative f data (int n) is error = Some (data, error)"
  using assms
proof (induction "is" arbitrary: error)
  case Nil
  then show ?case by simp
next
  case (Cons i "is")
  let ?d = "data[i := data ! i + 0x80]"
  have i: "i < n" "i < length data" using Cons.prems by auto
  have "data ! i < 0x80"
    using Cons.prems(1) i by (auto simp: ascii_bytes_def list_all_length)
  moreover have "b < 0x80 \<longrightarrow> \<not> (b + 0x80 < 0x80)" for b :: u8
    by (rule all_bytes) code_simp
  ultimately have "\<not> ascii_bytes (take n ?d)"
    using i by (auto simp: ascii_bytes_def list_all_length intro!: exI [of _ i])
  then have "f ?d 0 (int n) = Some False"
    using decides [of 0 n ?d] Cons.prems by simp
  moreover have "test_negative f data (int n) is error = Some (data, error)"
    using Cons.prems by (intro Cons.IH) auto
  ultimately show ?case
    using i by simp
qed

text \<open>The self test passes and leaves the buffer as it was.\<close>

lemma test_passes:
  assumes "ascii_bytes data" "n \<le> length data" "n < 2 ^ 31"
  shows "test f data n = Some (data, True)"
proof -
  have a: "ascii_bytes (take n data)"
    using assms(1) by (metis append_take_drop_id ascii_bytes_simps(3))
  have "f data 0 (int n) = Some True"
    using decides [of 0 n data] assms a by simp
  then show ?thesis
    using test_negative_passes [OF a assms(2,3)] by (simp add: test_def)
qed

end

lemma ascii_u64_decides:
  assumes "k + n \<le> length data"
  shows "ascii_u64 data k (int n) = Some (ascii_bytes (take n (drop k data)))"
proof (cases "16 \<le> n")
  case True
  let ?m = "16 * (n div 16)"
  from u64_loop_spec [OF True assms, of 0 0] obtain or1 or2 where
    l: "u64_loop data k (int n) 0 0 = Some (k + ?m, int (n mod 16), or1, or2)"
    "clean (or1 OR or2) \<longleftrightarrow> ascii_bytes (take ?m (drop k data))"
    by auto
  have split: "n = ?m + n mod 16" by simp
  have "k + ?m + n mod 16 \<le> length data" using assms split by linarith
  from tail_or_spec [OF this, of "if clean (or1 OR or2) then 0 else - 1"] obtain v where
    "tail_or data (k + ?m) (int (n mod 16)) (if clean (or1 OR or2) then 0 else - 1) = Some v"
    "v < 0x80 \<longleftrightarrow> clean (or1 OR or2) \<and> ascii_bytes (take (n mod 16) (drop (k + ?m) data))"
    by (auto split: if_splits)
  then show ?thesis
    using True l ascii_bytes_take_split [of ?m "n mod 16" k data]
    by (cases "clean (or1 OR or2)") (simp_all add: ascii_u64_def clean_def)
next
  case False
  with tail_or_spec [OF assms, of 0] show ?thesis
    by (auto simp: ascii_u64_def)
qed

interpretation u64: ascii_validator ascii_u64
  by unfold_locales (rule ascii_u64_decides)

subsection \<open>The vector version\<close>

lemma vorrq_ascii:
  "length a = length b \<Longrightarrow> ascii_bytes (vorrq_u8 a b) \<longleftrightarrow> ascii_bytes a \<and> ascii_bytes b"
  by (induction a b rule: list_induct2) (auto simp: vorrq_u8_def or_less_80)

lemma length_vorrq [simp]: "length (vorrq_u8 a b) = min (length a) (length b)"
  by (simp add: vorrq_u8_def)

lemma fold_max_ge: "0x80 \<le> fold max a (m :: u8) \<longleftrightarrow> 0x80 \<le> m \<or> \<not> ascii_bytes a"
  by (induction a arbitrary: m) (auto simp: le_max_iff_disj not_less)

lemma vmaxvq_ascii: "0x80 \<le> vmaxvq_u8 a \<longleftrightarrow> \<not> ascii_bytes a"
  by (simp add: vmaxvq_u8_def fold_max_ge)

lemma neon_loop_spec:
  assumes "k + n \<le> length data" "length or1 = 16" "length or2 = 16"
  shows "\<exists>or1' or2'. neon_loop data k (int n) or1 or2 = Some (k + 32 * (n div 32), int (n mod 32), or1', or2') \<and>
    length or1' = 16 \<and> length or2' = 16 \<and>
    (ascii_bytes (vorrq_u8 or1' or2') \<longleftrightarrow>
      ascii_bytes (vorrq_u8 or1 or2) \<and> ascii_bytes (take (32 * (n div 32)) (drop k data)))"
  using assms
proof (induction n arbitrary: k or1 or2 rule: less_induct)
  case (less n)
  show ?case
  proof (cases "32 \<le> n")
    case True
    obtain m where m: "n = 32 + m" using True le_Suc_ex by blast
    let ?a = "take 16 (drop k data)" and ?b = "take 16 (drop (k + 16) data)"
    have step: "neon_loop data k (int n) or1 or2 =
        neon_loop data (k + 32) (int m) (vorrq_u8 or1 ?a) (vorrq_u8 or2 ?b)"
      using less.prems by (subst neon_loop.simps) (simp add: vld1q_u8_def m)
    have "ascii_bytes (take n' (drop k data)) \<longleftrightarrow>
        ascii_bytes ?a \<and> ascii_bytes ?b \<and> ascii_bytes (take m' (drop (k + 32) data))"
      if "n' = 16 + (16 + m')" for n' m'
      unfolding that ascii_bytes_take_split by (simp add: ac_simps)
    from this [of "32 * (n div 32)" "32 * (m div 32)"]
    have split: "ascii_bytes (take (32 * (n div 32)) (drop k data)) \<longleftrightarrow>
        ascii_bytes ?a \<and> ascii_bytes ?b \<and> ascii_bytes (take (32 * (m div 32)) (drop (k + 32) data))"
      by (simp add: m)
    have "length ?a = 16" "length ?b = 16" using less.prems m by auto
    then show ?thesis
      using less.IH [of m "k + 32" "vorrq_u8 or1 ?a" "vorrq_u8 or2 ?b"] less.prems m
      unfolding step split by (auto simp: vorrq_ascii)
  next
    case False
    then show ?thesis
      using less.prems by (subst neon_loop.simps) simp
  qed
qed

lemma ascii_neon_decides:
  assumes "k + n \<le> length data"
  shows "ascii_neon data k (int n) = Some (ascii_bytes (take n (drop k data)))"
proof (cases "32 \<le> n")
  case True
  let ?m = "32 * (n div 32)"
  from neon_loop_spec [OF assms, of "vdupq_n_u8 0" "vdupq_n_u8 0"] obtain or1 or2 where
    l: "neon_loop data k (int n) (vdupq_n_u8 0) (vdupq_n_u8 0) = Some (k + ?m, int (n mod 32), or1, or2)"
    "ascii_bytes (vorrq_u8 or1 or2) \<longleftrightarrow> ascii_bytes (take ?m (drop k data))"
    by (auto simp: vdupq_n_u8_def vorrq_ascii) (auto simp: ascii_bytes_def list_all_iff)
  have "k + ?m + n mod 32 \<le> length data"
    using assms mult_div_mod_eq [of 32 n] by linarith
  then show ?thesis
    using True l ascii_bytes_take_split [of ?m "n mod 32" k data] ascii_u64_decides [of "k + ?m" "n mod 32" data]
    by (simp add: ascii_neon_def vmaxvq_ascii)
next
  case False
  then show ?thesis
    using ascii_u64_decides [OF assms] by (simp add: ascii_neon_def)
qed

interpretation neon: ascii_validator ascii_neon
  by unfold_locales (rule ascii_neon_decides)

subsection \<open>The assembly version\<close>

lemma asm_l16_loop_spec:
  assumes "16 \<le> n" "k + n \<le> length data" "e = k + n - 16"
  shows "\<exists>or1' or2'. asm_l16_loop data k e or1 or2 = Some (k + 16 * (n div 16), or1', or2') \<and>
    (clean (or1' OR or2') \<longleftrightarrow> clean (or1 OR or2) \<and> ascii_bytes (take (16 * (n div 16)) (drop k data)))"
  using assms
proof (induction n arbitrary: k or1 or2 rule: less_induct)
  case (less n)
  from less.prems have "k + 16 \<le> length data" by linarith
  then obtain a b where ab: "load64 data k = Some a" "load64 data (k + 8) = Some b"
    "\<And>or1 or2. clean ((or1 OR a) OR (or2 OR b)) \<longleftrightarrow>
       clean (or1 OR or2) \<and> ascii_bytes (take 16 (drop k data))"
    by (rule load64_pair) blast
  obtain m where m: "n = 16 + m" using less.prems(1) le_Suc_ex by blast
  have step: "asm_l16_loop data k e or1 or2 =
      (if 16 \<le> m then asm_l16_loop data (k + 16) e (or1 OR a) (or2 OR b)
       else Some (k + 16, or1 OR a, or2 OR b))"
    using less.prems(3) by (subst asm_l16_loop.simps) (auto simp: ab(1,2) m)
  show ?case
  proof (cases "16 \<le> m")
    case True
    with less.IH [of m "k + 16" "or1 OR a" "or2 OR b"] less.prems m obtain or1' or2' where
      "asm_l16_loop data (k + 16) e (or1 OR a) (or2 OR b) = Some (k + 16 + 16 * (m div 16), or1', or2')"
      "clean (or1' OR or2') \<longleftrightarrow> clean ((or1 OR a) OR (or2 OR b)) \<and>
        ascii_bytes (take (16 * (m div 16)) (drop (k + 16) data))"
      by auto
    with True step show ?thesis
      using ascii_bytes_take_split [of 16 "16 * (m div 16)" k data]
      by (simp add: m ab(3))
  next
    case False
    then show ?thesis using step by (simp add: m ab(3))
  qed
qed

lemma asm_remaining_spec:
  assumes "k + Suc n \<le> length data" "Suc n < 2 ^ 31"
  shows "\<exists>v. asm_remaining data k (of_nat (Suc n)) acc = Some v \<and>
    (bit v 7 \<longleftrightarrow> bit acc 7 \<or> \<not> ascii_bytes (take (Suc n) (drop k data)))"
  using assms
proof (induction n arbitrary: k acc)
  case 0
  then show ?case
    by (subst asm_remaining.simps)
      (auto simp: take_Suc_conv_app_nth byte_high_bit bit_simps hd_drop_conv_nth Cons_nth_drop_Suc [symmetric])
next
  case (Suc n)
  have take: "take (Suc (Suc n)) (drop k data) = data ! k # take (Suc n) (drop (k + 1) data)"
    using Suc.prems by (simp add: Cons_nth_drop_Suc [symmetric])
  have "(of_nat (Suc n) :: u32) \<noteq> 0"
    using Suc.prems(2) by (simp add: word_of_nat_eq_0_iff nat_dvd_not_less del: of_nat_Suc)
  then have step: "asm_remaining data k (of_nat (Suc (Suc n))) acc =
      asm_remaining data (k + 1) (of_nat (Suc n)) (acc OR ucast (data ! k))"
    using Suc.prems by (subst asm_remaining.simps) (simp del: of_nat_Suc add: of_nat_Suc [of "Suc n"])
  show ?case
    unfolding step using Suc.IH [of "k + 1" "acc OR ucast (data ! k)"] Suc.prems
    by (auto simp: take byte_high_bit bit_simps simp del: of_nat_Suc)
qed

lemma call_regs:
  "ucast (push_bit 32 (ucast upper) OR ucast w :: u64) = (w :: u32)"
  by (rule bit_word_eqI) (auto simp: bit_simps)

lemma unat_of_nat_small: "n < 2 ^ 31 \<Longrightarrow> unat (of_nat n :: u32) = n"
  by (simp add: unat_of_nat)

lemma sint_small:
  assumes "n < 2 ^ 31"
  shows "sint (of_nat n :: u32) = int n"
proof -
  have "sint (of_nat n :: u32) = signed_take_bit 31 (int n)"
    by (simp add: signed_of_nat)
  also have "\<dots> = int n"
    using assms by (simp add: signed_take_bit_int_eq_self)
  finally show ?thesis .
qed

lemma call_x_len:
  assumes "n < 2 ^ 31"
  shows "unat (push_bit 32 (ucast upper) OR ucast (of_nat n :: u32) :: u64) = 2 ^ 32 * unat (upper :: u32) + n"
proof -
  have n: "unat (ucast (of_nat n :: u32) :: u64) = n"
    using assms by (simp add: unsigned_ucast_eq unat_of_nat take_bit_eq_mod)
  have "unat (push_bit 32 (ucast upper) :: u64) = 2 ^ 32 * unat upper"
  proof -
    have "unat upper < 2 ^ 32"
      using unsigned_less [of upper] by simp
    then show ?thesis
      by (simp only: unsigned_push_bit_eq unsigned_ucast_eq) (simp add: take_bit_eq_mod push_bit_eq_mult)
  qed
  moreover have "2 ^ 32 * m OR n = 2 ^ 32 * m + n" for m :: nat
  proof -
    have "\<not> bit (push_bit 32 m) i \<or> \<not> bit n i" for i
    proof -
      have "take_bit 32 n = n"
        using assms by (simp add: take_bit_nat_eq_self)
      then show ?thesis
        by (metis bit_push_bit_iff_nat bit_take_bit_iff not_less)
    qed
    then show ?thesis
      by (simp add: disjunctive_add [symmetric] push_bit_eq_mult mult.commute)
  qed
  ultimately show ?thesis
    by (simp add: unsigned_or_eq n)
qed

lemma drop_bit_31: "drop_bit 31 x = (if bit x 31 then 1 else 0)" for x :: u32
proof (rule bit_word_eqI)
  fix n
  have "bit x (31 + n) \<longleftrightarrow> n = 0 \<and> bit x 31"
    using bit_imp_le_length [of x "31 + n"] by auto
  then show "bit (drop_bit 31 x) n \<longleftrightarrow> bit (if bit x 31 then 1 else 0 :: u32) n"
    by (simp add: bit_drop_bit_eq bit_1_iff)
qed

lemma verdict:
  "(drop_bit 31 (NOT (scast (ucast w :: u8) :: u32)) = 1) \<longleftrightarrow> \<not> bit w 7" for w :: u32
  by (simp only: drop_bit_31) (simp add: bit_simps)

lemma of_nat_mod16: "(of_nat n :: u32) AND 0xf = of_nat (n mod 16)" if "n < 2 ^ 31"
proof -
  have "(of_nat n :: u32) AND 0xf = take_bit 4 (of_nat n)"
    by (simp add: take_bit_eq_mask mask_eq_exp_minus_1)
  then show ?thesis
    using that
    by (simp only: word_unat_eq_iff unsigned_take_bit_eq) (simp add: unat_of_nat take_bit_eq_mod del: of_nat_mod)
qed

lemma asm_tail:
  assumes "k + n \<le> length data" "n < 2 ^ 31"
  shows "\<exists>v. (if (of_nat n :: u32) = 0 then Some acc else asm_remaining data k (of_nat n) acc) = Some v \<and>
    (bit v 7 \<longleftrightarrow> bit acc 7 \<or> \<not> ascii_bytes (take n (drop k data)))"
proof (cases n)
  case (Suc m)
  then have "(of_nat n :: u32) \<noteq> 0"
    using assms(2) by (simp add: word_unat_eq_iff unat_of_nat del: of_nat_Suc)
  then show ?thesis
    using asm_remaining_spec [of k m data acc] assms Suc by simp
qed simp

lemma ascii_u64_asm_decides:
  assumes "k + n \<le> length data" "n < 2 ^ 31"
  shows "call_ascii_u64_asm 0 data k (int n) = Some (ascii_bytes (take n (drop k data)))"
proof (cases "16 \<le> n")
  case True
  let ?m = "16 * (n div 16)"
  from asm_l16_loop_spec [OF True assms(1) refl, of 0 0] obtain or1 or2 where
    l: "asm_l16_loop data k (k + n - 16) 0 0 = Some (k + ?m, or1, or2)"
    "clean (or1 OR or2) \<longleftrightarrow> ascii_bytes (take ?m (drop k data))"
    by auto
  let ?acc = "if clean (or1 OR or2) then 0 else - 1 :: u32"
  have "k + ?m + n mod 16 \<le> length data"
    using assms mult_div_mod_eq [of 16 n] by linarith
  moreover have "n mod 16 < 2 ^ 31"
    by (rule less_trans [of _ 16]) simp_all
  ultimately obtain v where v:
    "(if (of_nat (n mod 16) :: u32) = 0 then Some ?acc
      else asm_remaining data (k + ?m) (of_nat (n mod 16)) ?acc) = Some v"
    "bit v 7 \<longleftrightarrow> bit ?acc 7 \<or> \<not> ascii_bytes (take (n mod 16) (drop (k + ?m) data))"
    using asm_tail [of "k + ?m" "n mod 16" data ?acc] by blast
  have acc: "bit ?acc 7 \<longleftrightarrow> \<not> clean (or1 OR or2)"
    by simp
  have "call_ascii_u64_asm 0 data k (int n) = Some (\<not> bit v 7)"
    using True assms(2) v(1)
    by (cases "clean (or1 OR or2)"; cases "(of_nat (n mod 16) :: u32) = 0")
      (simp_all add: call_ascii_u64_asm_def ascii_u64_asm_def call_regs [of 0, simplified] sint_small
        call_x_len [of n 0, simplified] l(1) of_nat_mod16 verdict clean_def [symmetric] del: of_nat_mod)
  then show ?thesis
    using v(2) l(2) acc ascii_bytes_take_split [of ?m "n mod 16" k data] by simp
next
  case False
  from asm_tail [OF assms, of 0] obtain v where
    "(if (of_nat n :: u32) = 0 then Some 0 else asm_remaining data k (of_nat n) 0) = Some v"
    "bit v 7 \<longleftrightarrow> \<not> ascii_bytes (take n (drop k data))"
    by auto
  with False assms(2) show ?thesis
    by (simp add: call_ascii_u64_asm_def ascii_u64_asm_def call_regs [of 0, simplified] sint_small verdict)
qed

interpretation u64_asm: ascii_validator "call_ascii_u64_asm 0"
  by unfold_locales (rule ascii_u64_asm_decides)

subsection \<open>Properties\<close>

text \<open>C32: The three validators of the function table (C lanes, assembly, vectors) agree with the
  specification at every offset and length inside the buffer: they answer whether all the bytes
  are below 0x80. The assembly does so for a caller that clears the upper half of \<open>x1\<close>.\<close>

theorem validators_correct:
  assumes "k + n \<le> length data" "n < 2 ^ 31"
  shows "\<forall>entry\<in>set (ftab 0). snd entry data k (int n) = Some (\<forall>b\<in>set (take n (drop k data)). b < 0x80)"
  using u64.decides [OF assms] u64_asm.decides [OF assms] neon.decides [OF assms]
  by (simp add: ftab_def ascii_bytes_def list_all_iff)

theorem validators_correct_witness:
  "ascii_neon (replicate 40 0x61) 1 (int 35) = Some True \<and>
   call_ascii_u64_asm 0 (replicate 40 0x61) 1 (int 35) = Some True"
proof -
  have "\<forall>entry\<in>set (ftab 0). snd entry (replicate 40 0x61) 1 (int 35) =
      Some (\<forall>b\<in>set (take 35 (drop 1 (replicate 40 (0x61 :: u8)))). b < 0x80)"
    by (rule validators_correct) simp_all
  then show ?thesis by (simp add: ftab_def)
qed

lemma asm_l16_loop_overrun:
  "length data \<le> e \<Longrightarrow> asm_l16_loop data k e or1 or2 = None"
proof (induction data k e or1 or2 rule: asm_l16_loop.induct)
  case (1 data k e or1 or2)
  show ?case
  proof (cases "k + 16 \<le> length data")
    case True
    then show ?thesis
      using 1 by (subst asm_l16_loop.simps) (auto simp: load64_def)
  next
    case False
    then show ?thesis
      by (subst asm_l16_loop.simps) (auto simp: load64_def)
  qed
qed

text \<open>Remark: The assembly version uses the whole of \<open>x1\<close> for the end of the buffer although its
  argument is an \<open>int\<close>: with anything in the upper half, which the procedure call standard allows,
  a call for 16 bytes or more of a buffer of less than 4 GiB runs past the end of the buffer.\<close>

theorem asm_upper_half_overrun:
  assumes "upper \<noteq> 0" "16 \<le> n" "n < 2 ^ 31" "length data < 2 ^ 32"
  shows "call_ascii_u64_asm upper data k (int n) = None"
proof -
  have "1 \<le> unat upper"
    using assms(1) by (simp add: unat_gt_0 Suc_le_eq)
  then have "length data \<le> k + (2 ^ 32 * unat upper + n) - 16"
    using assms(2,4) by simp
  then have "asm_l16_loop data k (k + (2 ^ 32 * unat upper + n) - 16) 0 0 = None"
    by (rule asm_l16_loop_overrun)
  then show ?thesis
    using assms(2,3)
    by (simp add: call_ascii_u64_asm_def ascii_u64_asm_def call_regs sint_small call_x_len del: One_nat_def)
qed

theorem asm_upper_half_overrun_witness:
  "call_ascii_u64_asm 1 (replicate 64 0) 0 (int 16) = None"
  by (rule asm_upper_half_overrun) simp_all

lemma load_test_bytes_ascii: "v < 0x80 \<Longrightarrow> ascii_bytes (load_test_bytes n v)"
proof (induction n arbitrary: v)
  case (Suc n)
  have "x AND 0x7f < 0x80" for x :: u8
    by (rule all_bytes) code_simp
  with Suc show ?case by simp
qed simp

lemma length_load_test_bytes: "length (load_test_bytes n v) = n"
  by (induction n arbitrary: v) simp_all

lemma run_tests_pass:
  assumes "ascii_bytes data"
    and "\<forall>(f, n)\<in>set todo. ascii_validator f \<and> n \<le> length data \<and> n < 2 ^ 31"
  shows "run_tests todo data = Some (data, replicate (length todo) True)"
  using assms(2)
proof (induction todo)
  case (Cons fn todo)
  then show ?case
    using assms(1) ascii_validator.test_passes [of "fst fn" data "snd fn"] by (cases fn) simp
qed simp

text \<open>Remark: The whole test run of \<open>main\<close> passes: every size with every validator, and each
  negative test puts the byte it damaged back.\<close>

theorem main_tests_pass:
  "main_tests 0 = Some (load_test_buf (1024 * 1024), replicate 24 True)"
proof -
  have len: "length (load_test_buf (1024 * 1024)) = 1024 * 1024"
    unfolding load_test_buf_def by (rule length_load_test_bytes)
  have asc: "ascii_bytes (load_test_buf (1024 * 1024))"
    unfolding load_test_buf_def by (rule load_test_bytes_ascii) simp
  have "main_tests 0 = Some (load_test_buf (1024 * 1024),
      replicate (length [(snd f, len). len \<leftarrow> test_sizes, f \<leftarrow> ftab 0]) True)"
    unfolding main_tests_def
    by (subst run_tests_pass)
      (use len asc u64.ascii_validator_axioms u64_asm.ascii_validator_axioms neon.ascii_validator_axioms
        in \<open>auto simp: test_sizes_def ftab_def\<close>)
  then show ?thesis
    by (simp add: test_sizes_def ftab_def del: replicate_Suc)
qed

end
