(* ===== verification/ReadLe.thy ===== *)
theory ReadLe
  imports AsciiCheck
begin

text \<open>
  Reading words through \<open>char\<close> and \<open>unsigned char\<close> pointers (\<open>src/read-le.cc\<close>): both benchmarks compute the
  bitwise or of all bytes.

  \<^item> \<open>read_le_char\<close> and \<open>read_le_uchar\<close> copy eight bytes into a word: \<open>load64\<close> of \<open>AsciiCheck\<close>, little-endian,
    out of the buffer \<open>None\<close>. The loop over the last bytes is \<open>tail_or\<close> of the same theory.
  \<^item> The memory that \<open>new\<close> returns is an argument: \<open>main\<close> sets only its first eight bytes.
\<close>

definition read_le_char :: "u8 list \<Rightarrow> nat \<Rightarrow> u64 option" where
  "read_le_char p k = load64 p k"

definition read_le_uchar :: "u8 list \<Rightarrow> nat \<Rightarrow> u64 option" where
  "read_le_uchar p k = load64 p k"

text \<open>The loop \<open>while (len >= 16)\<close> with either reader.\<close>

function lanes_loop :: "(u8 list \<Rightarrow> nat \<Rightarrow> u64 option) \<Rightarrow> u8 list \<Rightarrow> nat \<Rightarrow> int \<Rightarrow> u64 \<Rightarrow> u64 \<Rightarrow> (nat \<times> int \<times> u64 \<times> u64) option" where
  "lanes_loop rd data k len or1 or2 =
     (if 16 \<le> len then do {
        a \<leftarrow> rd data k;
        b \<leftarrow> rd data (k + 8);
        lanes_loop rd data (k + 16) (len - 16) (or1 OR a) (or2 OR b) }
      else Some (k, len, or1, or2))"
  by pat_completeness auto
termination
  by (relation "measure (\<lambda>(rd, data, k, len, or1, or2). nat len)") auto

declare lanes_loop.simps [simp del]

text \<open>The union: the eight bytes of a word.\<close>

definition or_bytes :: "u64 \<Rightarrow> u8" where
  "or_bytes w = fold (\<lambda>i orall. orall OR ucast (drop_bit (8 * i) w)) [0..<8] 0"

definition bench_with :: "(u8 list \<Rightarrow> nat \<Rightarrow> u64 option) \<Rightarrow> u8 list \<Rightarrow> nat \<Rightarrow> int \<Rightarrow> u8 option" where
  "bench_with rd data k len =
     (if 16 \<le> len then do {
        (k, len, or1, or2) \<leftarrow> lanes_loop rd data k len 0 0;
        tail_or data k len (or_bytes (or1 OR or2)) }
      else tail_or data k len 0)"

definition bench_char_char :: "u8 list \<Rightarrow> nat \<Rightarrow> int \<Rightarrow> u8 option" where
  "bench_char_char data k len = bench_with read_le_char data k len"

definition bench_uchar_char :: "u8 list \<Rightarrow> nat \<Rightarrow> int \<Rightarrow> u8 option" where
  "bench_uchar_char data k len = bench_with read_le_uchar data k len"

text \<open>The rounds of a benchmark, the word it prints, and \<open>main\<close>.\<close>

primrec or_rounds :: "nat \<Rightarrow> u8 option \<Rightarrow> u8 \<Rightarrow> u8 option" where
  "or_rounds 0 r acc = Some acc"
| "or_rounds (Suc n) r acc = do { x \<leftarrow> r; or_rounds n r (acc OR x) }"

definition bench_le :: "(u8 list \<Rightarrow> nat \<Rightarrow> int \<Rightarrow> u8 option) \<Rightarrow> u8 list \<Rightarrow> nat \<Rightarrow> int \<Rightarrow> (u8 \<times> string) option" where
  "bench_le func data k len =
     do { ret \<leftarrow> or_rounds (nat (1024 * 1024 * 1024 div len)) (func data k len) 0;
          Some (ret, if ret < 0x80 then ''pass '' else ''FAIL '') }"

definition max_size :: nat where "max_size = 16 * 1024"

definition fill :: "u8 list \<Rightarrow> u8 list" where
  "fill heap = fold (\<lambda>i data. data[i := of_nat i AND 0x7F]) [0..<8] heap"

definition main_read_le :: "u8 list \<Rightarrow> (int \<times> string list) option" where
  "main_read_le heap =
     (let data = fill (take (max_size + 1) heap)
      in do {
        (a, s) \<leftarrow> bench_le bench_char_char data 1 (int max_size);
        (b, t) \<leftarrow> bench_le bench_uchar_char data 1 (int max_size);
        Some (uint (a OR b), [s, t]) })"

subsection \<open>The bitwise or of a list of bytes\<close>

definition or_all :: "u8 list \<Rightarrow> u8" where
  "or_all bs = foldr (OR) bs 0"

lemma bit_or_all: "bit (or_all bs) j \<longleftrightarrow> (\<exists>b \<in> set bs. bit b j)"
  by (induction bs) (auto simp: or_all_def bit_simps)

lemma or_all_simps [simp]: "or_all [] = 0" "or_all (b # bs) = b OR or_all bs" "or_all (xs @ ys) = or_all xs OR or_all ys"
  by (simp_all add: or_all_def) (induction xs, simp_all add: ac_simps)

lemma bit_or_bytes: "bit (or_bytes w) j \<longleftrightarrow> j < 8 \<and> (\<exists>i < 8. bit w (8 * i + j))"
proof -
  have "bit (fold (\<lambda>i orall. orall OR ucast (drop_bit (8 * i) w)) is acc) j \<longleftrightarrow>
      bit (acc :: u8) j \<or> j < 8 \<and> (\<exists>i \<in> set is. bit w (8 * i + j))" for "is" acc
    by (induction "is" arbitrary: acc) (auto simp: bit_simps bit_drop_bit_eq)
  then show ?thesis unfolding or_bytes_def by auto
qed

lemma or_bytes_or: "or_bytes (a OR b) = or_bytes a OR or_bytes b"
  by (rule bit_word_eqI) (auto simp: bit_or_bytes bit_simps)

lemma or_bytes_0 [simp]: "or_bytes 0 = 0"
  by (rule bit_word_eqI) (simp add: bit_or_bytes)

lemma or_bytes_le_word:
  assumes "length bs = 8"
  shows "or_bytes (le_word bs) = or_all bs"
proof (rule bit_word_eqI)
  fix j assume j: "j < LENGTH(8)"
  have "bit (le_word bs :: u64) (8 * i + j) \<longleftrightarrow> bit (bs ! i) j" if "i < 8" for i
    using that j assms by (simp add: bit_le_word)
  then have "bit (or_bytes (le_word bs)) j \<longleftrightarrow> (\<exists>i < 8. bit (bs ! i) j)"
    using j by (auto simp: bit_or_bytes)
  then show "bit (or_bytes (le_word bs)) j \<longleftrightarrow> bit (or_all bs) j"
    unfolding bit_or_all by (metis assms in_set_conv_nth)
qed

subsection \<open>The loops\<close>

lemma take_drop_16: "n \<ge> 16 \<Longrightarrow> take n xs = take 8 xs @ take 8 (drop 8 xs) @ take (n - 16) (drop 16 xs)"
  using take_add [of 8 "n - 8" xs] take_add [of 8 "n - 16" "drop 8 xs"] by simp

lemma lanes_loop_spec:
  assumes "k + n \<le> length data" "rd = load64"
  shows "\<exists>a b. lanes_loop rd data k (int n) or1 or2 = Some (k + 16 * (n div 16), int (n mod 16), a, b) \<and>
    or_bytes (a OR b) = or_bytes (or1 OR or2) OR or_all (take (16 * (n div 16)) (drop k data))"
  using assms(1)
proof (induction n arbitrary: k or1 or2 rule: less_induct)
  case (less n)
  show ?case
  proof (cases "16 \<le> n")
    case True
    define a where "a = (le_word (take 8 (drop k data)) :: u64)"
    define b where "b = (le_word (take 8 (drop (k + 8) data)) :: u64)"
    have l: "load64 data k = Some a" "load64 data (k + 8) = Some b"
      using True less.prems by (simp_all add: load64_def a_def b_def)
    have s: "lanes_loop rd data k (int n) or1 or2 = lanes_loop rd data (k + 16) (int (n - 16)) (or1 OR a) (or2 OR b)"
      using True l by (subst lanes_loop.simps) (simp add: assms(2) of_nat_diff)
    obtain a' b' where r: "lanes_loop rd data (k + 16) (int (n - 16)) (or1 OR a) (or2 OR b) =
        Some (k + 16 + 16 * ((n - 16) div 16), int ((n - 16) mod 16), a', b')"
      "or_bytes (a' OR b') = or_bytes ((or1 OR a) OR (or2 OR b)) OR or_all (take (16 * ((n - 16) div 16)) (drop (k + 16) data))"
      using less.IH [of "n - 16" "k + 16" "or1 OR a" "or2 OR b"] True less.prems by auto
    have d: "n div 16 = Suc ((n - 16) div 16)" "(n - 16) mod 16 = n mod 16"
      using True by (simp_all add: le_div_geq le_mod_geq)
    have "or_bytes a = or_all (take 8 (drop k data))" "or_bytes b = or_all (take 8 (drop (k + 8) data))"
      unfolding a_def b_def using True less.prems by (simp_all add: or_bytes_le_word)
    then have "or_bytes (a' OR b') = or_bytes (or1 OR or2) OR or_all (take (16 * (n div 16)) (drop k data))"
      using r(2) take_drop_16 [of "16 * (n div 16)" "drop k data"] d(1)
      by (simp add: or_bytes_or ac_simps)
    then show ?thesis using s r(1) d by simp
  next
    case False
    then show ?thesis by (simp add: lanes_loop.simps [of rd data k "int n"])
  qed
qed

lemma tail_or_all:
  "k + n \<le> length data \<Longrightarrow> tail_or data k (int n) orall = Some (orall OR or_all (take n (drop k data)))"
proof (induction n arbitrary: k orall)
  case 0
  then show ?case by (simp add: tail_or.simps)
next
  case (Suc n)
  have "take (Suc n) (drop k data) = data ! k # take n (drop (Suc k) data)"
    using Suc.prems by (simp add: Cons_nth_drop_Suc [symmetric])
  then show ?case using Suc.IH [of "Suc k" "orall OR data ! k"] Suc.prems
    by (subst tail_or.simps) (simp add: ac_simps)
qed

lemma bench_with_or_all:
  assumes "k + n \<le> length data" "rd = load64"
  shows "bench_with rd data k (int n) = Some (or_all (take n (drop k data)))"
proof (cases "16 \<le> n")
  case True
  obtain a b where l: "lanes_loop rd data k (int n) 0 0 = Some (k + 16 * (n div 16), int (n mod 16), a, b)"
    "or_bytes (a OR b) = or_all (take (16 * (n div 16)) (drop k data))"
    using lanes_loop_spec [OF assms, of 0 0] by auto
  have s: "n = 16 * (n div 16) + n mod 16" by simp
  then have "k + 16 * (n div 16) + n mod 16 \<le> length data" using assms(1) by linarith
  then have "tail_or data (k + 16 * (n div 16)) (int (n mod 16)) (or_bytes (a OR b)) =
      Some (or_all (take (16 * (n div 16)) (drop k data)) OR or_all (take (n mod 16) (drop (k + 16 * (n div 16)) data)))"
    using tail_or_all l(2) by simp
  moreover have "take n (drop k data) = take (16 * (n div 16)) (drop k data) @ take (n mod 16) (drop (k + 16 * (n div 16)) data)"
    using take_add [of "16 * (n div 16)" "n mod 16" "drop k data"] by (simp add: add.commute)
  ultimately show ?thesis using True l(1) by (simp add: bench_with_def)
next
  case False
  then show ?thesis using tail_or_all [OF assms(1), of 0] by (simp add: bench_with_def)
qed

lemma or_rounds_same: "0 < n \<Longrightarrow> or_rounds n (Some x) 0 = Some x"
proof -
  have "or_rounds n (Some x) acc = Some (if n = 0 then acc else acc OR x)" for acc
    by (induction n arbitrary: acc) (simp_all add: or.assoc)
  then show "0 < n \<Longrightarrow> or_rounds n (Some x) 0 = Some x" by simp
qed

lemma fill_heap: "8 \<le> length heap \<Longrightarrow> fill heap = map (\<lambda>i. of_nat i) [0..<8] @ drop 8 heap"
proof -
  have s: "8 = Suc (Suc (Suc (Suc (Suc (Suc (Suc (Suc 0)))))))" by simp
  assume "8 \<le> length heap"
  then obtain a b c d e f g h rest where "heap = a # b # c # d # e # f # g # h # rest"
    unfolding s by (auto simp: Suc_le_length_iff)
  then show ?thesis by (simp add: fill_def upt_rec)
qed

text \<open>Remark: Both readers give the or of all bytes, at any alignment and length. \<open>main\<close> sets only eight bytes of the
  buffer before it measures the rest, so what it prints and returns depends on what \<open>new\<close> left there: it
  prints \<open>FAIL\<close> exactly when a byte after the eighth is not ASCII.\<close>

theorem read_le_agree:
  assumes "k + n \<le> length data" "max_size < length heap"
  shows "bench_char_char data k (int n) = Some (or_all (take n (drop k data))) \<and>
    bench_uchar_char data k (int n) = Some (or_all (take n (drop k data))) \<and>
    (let ret = 7 OR or_all (take (max_size - 7) (drop 8 heap)); s = (if ret < 0x80 then ''pass '' else ''FAIL '')
     in main_read_le heap = Some (uint ret, [s, s]))"
proof -
  have r: "read_le_char = load64" "read_le_uchar = load64"
    by (intro ext, simp add: read_le_char_def read_le_uchar_def)+
  define buf where "buf = fill (take (max_size + 1) heap)"
  have "buf = map (\<lambda>i. of_nat i) [0..<8] @ drop 8 (take (max_size + 1) heap)"
    unfolding buf_def using assms(2) by (intro fill_heap) (simp add: max_size_def)
  then have t: "take max_size (drop 1 buf) = [1, 2, 3, 4, 5, 6, 7] @ take (max_size - 7) (drop 8 heap)" "1 + max_size \<le> length buf"
    using assms(2) by (simp_all add: upt_rec max_size_def drop_take)
  have "or_all [1, 2, 3, 4, 5, 6, 7] = 7" by code_simp
  then have o: "or_all (take max_size (drop 1 buf)) = 7 OR or_all (take (max_size - 7) (drop 8 heap))" "1 + max_size \<le> length buf"
    unfolding t(1) or_all_simps(3) using t(2) by simp_all
  have "0 < nat (1024 * 1024 * 1024 div int max_size)" by (simp add: max_size_def)
  then have "bench_le bench_char_char buf 1 (int max_size) = bench_le bench_uchar_char buf 1 (int max_size)"
    "bench_le bench_char_char buf 1 (int max_size) = Some (or_all (take max_size (drop 1 buf)),
       if or_all (take max_size (drop 1 buf)) < 0x80 then ''pass '' else ''FAIL '')"
    using bench_with_or_all [OF o(2)] r by (simp_all add: bench_le_def bench_char_char_def bench_uchar_char_def or_rounds_same)
  then show ?thesis
    using bench_with_or_all [OF assms(1)] r o(1)
    by (simp add: bench_char_char_def bench_uchar_char_def main_read_le_def Let_def buf_def)
qed

lemma or_all_replicate_0: "or_all (replicate n 0) = 0"
  by (induction n) simp_all

theorem read_le_agree_witness:
  "bench_char_char [1, 2, 4, 8, 16, 32, 64, 1, 1, 1, 1, 1, 1, 1, 1, 1, 0x80, 3] 1 17 = Some 0xFF \<and>
   main_read_le (replicate 20000 0) = Some (7, [''pass '', ''pass ''])"
proof -
  have "or_all (take 17 (drop 1 [1, 2, 4, 8, 16, 32, 64, 1, 1, 1, 1, 1, 1, 1, 1, 1, 0x80, 3])) = 0xFF" by code_simp
  moreover have "or_all (take (max_size - 7) (drop 8 (replicate 20000 0))) = 0" by (simp add: or_all_replicate_0)
  moreover have "(7 :: u8) OR 0 = 7" "(7 :: u8) < 0x80" "uint (7 :: u8) = 7" by simp_all
  ultimately show ?thesis
    using read_le_agree [of 1 17 "[1, 2, 4, 8, 16, 32, 64, 1, 1, 1, 1, 1, 1, 1, 1, 1, 0x80, 3]" "replicate 20000 0"]
    by (simp add: max_size_def Let_def)
qed

end
