(* ===== verification/Atomics.thy ===== *)
theory Atomics
  imports Prelude
begin

unbundle bit_operations_syntax

text \<open>
  The atomic operations of \<open>src/qspinlock/include/atomic\<close>: the load-exclusive/store-exclusive
  loops of \<open>atomic_ll_sc.h\<close>, the single instructions of \<open>atomic_lse.h\<close>, the exchange and
  compare-exchange layer of \<open>cmpxchg.h\<close>, \<open>atomic.h\<close> on top, and the acquire, release and
  conditional loads of \<open>barrier.h\<close>.

  Memory is the eight-byte window at the pointer; a \<open>k\<close>-bit access reads or replaces its low
  \<open>k\<close> bits. An exclusive loop runs against a schedule: one \<open>round\<close> for every time it goes
  round, with what the other cores do before its load and between its load and its store.
  When the schedule ends before the loop does, the result is \<open>None\<close>. The instructions have their
  architectural meaning, and every access leaves an event with its ordering annotations.
\<close>

subsection \<open>Accesses of k bits\<close>

definition load_k :: "nat \<Rightarrow> u64 \<Rightarrow> u64" where
  "load_k k mem = take_bit k mem"

definition store_k :: "nat \<Rightarrow> u64 \<Rightarrow> u64 \<Rightarrow> u64" where
  "store_k k v mem = (mem AND NOT (mask k)) OR take_bit k v"

lemma load_store [simp]: "load_k k (store_k k v mem) = take_bit k v"
  by (rule bit_word_eqI) (auto simp: load_k_def store_k_def bit_simps)

lemma store_keeps_above: "drop_bit k (store_k k v mem) = drop_bit k mem"
  by (rule bit_word_eqI) (auto simp: store_k_def bit_simps dest: bit_imp_le_length)

lemma store_take [simp]: "store_k k (take_bit k v) mem = store_k k v mem"
  by (simp add: store_k_def)

lemma store_load [simp]: "store_k k (load_k k mem) mem = mem"
  by (rule bit_word_eqI) (auto simp: load_k_def store_k_def bit_simps)

subsection \<open>Ordering suffixes\<close>

datatype order = Relaxed | Acquire | Release | Full

datatype event =
    Load bool \<comment> \<open>acquire\<close>
  | Store bool \<comment> \<open>release\<close>
  | Swap bool bool \<comment> \<open>one atomic instruction with its \<open>a\<close> and \<open>l\<close>\<close>
  | DmbIsh

text \<open>The columns acq, rel and mb of the macro tables of \<open>atomic_ll_sc.h\<close>.\<close>

fun ll_sc_acq :: "order \<Rightarrow> bool" where
  "ll_sc_acq Acquire = True" | "ll_sc_acq _ = False"

fun ll_sc_rel :: "order \<Rightarrow> bool" where
  "ll_sc_rel Release = True" | "ll_sc_rel Full = True" | "ll_sc_rel _ = False"

fun ll_sc_mb :: "order \<Rightarrow> event list" where
  "ll_sc_mb Full = [DmbIsh]" | "ll_sc_mb _ = []"

text \<open>The column mb of \<open>atomic_lse.h\<close>: nothing, a, l, al.\<close>

fun lse_event :: "order \<Rightarrow> event" where
  "lse_event Relaxed = Swap False False"
| "lse_event Acquire = Swap True False"
| "lse_event Release = Swap False True"
| "lse_event Full = Swap True True"

subsection \<open>Exclusive loops\<close>

text \<open>Between the exclusive load and store: nothing, a loss of the monitor for another reason,
  or a write of another core. The store succeeds only after \<open>Quiet\<close>.\<close>

datatype 'm interference = Quiet | Spurious | Wrote 'm

record 'm round =
  before :: "'m option"
  during :: "'m interference"

definition env_before :: "'m round \<Rightarrow> 'm \<Rightarrow> 'm" where
  "env_before r mem = (case before r of None \<Rightarrow> mem | Some m \<Rightarrow> m)"

text \<open>\<open>1: ld..xr; compute; st..xr; cbnz 1b\<close>: the value loaded, the value stored, memory, events.\<close>

fun excl_loop :: "nat \<Rightarrow> order \<Rightarrow> (u64 \<Rightarrow> u64) \<Rightarrow> u64 round list \<Rightarrow> u64 \<Rightarrow> (u64 \<times> u64 \<times> u64 \<times> event list) option" where
  "excl_loop k ord f [] mem = None"
| "excl_loop k ord f (r # rs) mem =
     (let mem = env_before r mem; old = load_k k mem; new = take_bit k (f old);
          evs = [Load (ll_sc_acq ord)]
      in case during r of
        Quiet \<Rightarrow> Some (old, new, store_k k new mem, evs @ [Store (ll_sc_rel ord)])
      | Spurious \<Rightarrow> map_option (\<lambda>(o', n', m', es). (o', n', m', evs @ es)) (excl_loop k ord f rs mem)
      | Wrote m \<Rightarrow> map_option (\<lambda>(o', n', m', es). (o', n', m', evs @ es)) (excl_loop k ord f rs m))"

text \<open>The compare-exchange loop: \<open>cbnz tmp, 2f\<close> leaves without a store or a barrier.\<close>

fun excl_cmpxchg_loop :: "nat \<Rightarrow> order \<Rightarrow> u64 \<Rightarrow> u64 \<Rightarrow> u64 round list \<Rightarrow> u64 \<Rightarrow> (u64 \<times> u64 \<times> event list) option" where
  "excl_cmpxchg_loop k ord old new [] mem = None"
| "excl_cmpxchg_loop k ord old new (r # rs) mem =
     (let mem = env_before r mem; oldval = load_k k mem; evs = [Load (ll_sc_acq ord)] in
      if oldval XOR old \<noteq> 0 then Some (oldval, mem, evs)
      else case during r of
        Quiet \<Rightarrow> Some (oldval, store_k k new mem, evs @ [Store (ll_sc_rel ord)] @ ll_sc_mb ord)
      | Spurious \<Rightarrow> map_option (\<lambda>(v, m', es). (v, m', evs @ es)) (excl_cmpxchg_loop k ord old new rs mem)
      | Wrote m \<Rightarrow> map_option (\<lambda>(v, m', es). (v, m', evs @ es)) (excl_cmpxchg_loop k ord old new rs m))"

subsection \<open>Read-modify-write operations\<close>

datatype atomic_op = Andnot | Or | Xor | Add | And | Sub

text \<open>The instruction column of the tables: add, sub, and, orr, eor, bic.\<close>

fun alu :: "atomic_op \<Rightarrow> u64 \<Rightarrow> u64 \<Rightarrow> u64" where
  "alu Add a i = a + i"
| "alu Sub a i = a - i"
| "alu And a i = a AND i"
| "alu Or a i = a OR i"
| "alu Xor a i = a XOR i"
| "alu Andnot a i = a AND NOT i"

definition ll_sc_atomic :: "atomic_op \<Rightarrow> u64 \<Rightarrow> u64 round list \<Rightarrow> u64 \<Rightarrow> (u64 \<times> event list) option" where
  "ll_sc_atomic op i rs mem = do {
     (_, _, mem, evs) \<leftarrow> excl_loop 32 Relaxed (\<lambda>a. alu op a i) rs mem;
     Some (mem, evs)
   }"

definition ll_sc_atomic_return :: "order \<Rightarrow> atomic_op \<Rightarrow> u64 \<Rightarrow> u64 round list \<Rightarrow> u64 \<Rightarrow> (u64 \<times> u64 \<times> event list) option" where
  "ll_sc_atomic_return ord op i rs mem = do {
     (_, result, mem, evs) \<leftarrow> excl_loop 32 ord (\<lambda>a. alu op a i) rs mem;
     Some (result, mem, evs @ ll_sc_mb ord)
   }"

definition ll_sc_atomic_fetch :: "order \<Rightarrow> atomic_op \<Rightarrow> u64 \<Rightarrow> u64 round list \<Rightarrow> u64 \<Rightarrow> (u64 \<times> u64 \<times> event list) option" where
  "ll_sc_atomic_fetch ord op i rs mem = do {
     (result, _, mem, evs) \<leftarrow> excl_loop 32 ord (\<lambda>a. alu op a i) rs mem;
     Some (result, mem, evs @ ll_sc_mb ord)
   }"

text \<open>The instructions of the large system extension: \<open>ldclr\<close>, \<open>ldset\<close>, \<open>ldeor\<close>, \<open>ldadd\<close> return the
  old value; the \<open>st\<close> forms drop it.\<close>

datatype lse_insn = Clr | Set | Eor | AddI

fun lse_alu :: "lse_insn \<Rightarrow> u64 \<Rightarrow> u64 \<Rightarrow> u64" where
  "lse_alu Clr a i = a AND NOT i"
| "lse_alu Set a i = a OR i"
| "lse_alu Eor a i = a XOR i"
| "lse_alu AddI a i = a + i"

definition lse_ld :: "lse_insn \<Rightarrow> u64 \<Rightarrow> u64 \<Rightarrow> u64 \<times> u64" where
  "lse_ld insn i mem = (let old = load_k 32 mem in (old, store_k 32 (lse_alu insn old i) mem))"

text \<open>Which instruction implements an operation, and what \<open>mvn\<close> or \<open>neg\<close> do to \<open>i\<close> first.\<close>

fun lse_code :: "atomic_op \<Rightarrow> u64 \<Rightarrow> lse_insn \<times> u64" where
  "lse_code Andnot i = (Clr, i)"
| "lse_code Or i = (Set, i)"
| "lse_code Xor i = (Eor, i)"
| "lse_code Add i = (AddI, i)"
| "lse_code And i = (Clr, NOT i)"
| "lse_code Sub i = (AddI, - i)"

definition lse_atomic :: "atomic_op \<Rightarrow> u64 \<Rightarrow> u64 \<Rightarrow> u64 \<times> event list" where
  "lse_atomic op i mem =
     (let (insn, i) = lse_code op i in (snd (lse_ld insn i mem), [lse_event Relaxed]))"

definition lse_atomic_fetch :: "order \<Rightarrow> atomic_op \<Rightarrow> u64 \<Rightarrow> u64 \<Rightarrow> u64 \<times> u64 \<times> event list" where
  "lse_atomic_fetch ord op i mem =
     (let (insn, i) = lse_code op i; (old, mem) = lse_ld insn i mem in (old, mem, [lse_event ord]))"

text \<open>\<open>add_return\<close> and \<open>sub_return\<close>: a second addition rebuilds the new value.\<close>

definition lse_atomic_return :: "order \<Rightarrow> atomic_op \<Rightarrow> u64 \<Rightarrow> u64 \<Rightarrow> u64 \<times> u64 \<times> event list" where
  "lse_atomic_return ord op i mem =
     (let (insn, i) = lse_code op i; (tmp, mem) = lse_ld insn i mem
      in (take_bit 32 (i + tmp), mem, [lse_event ord]))"

subsection \<open>Exchange\<close>

datatype config = LSE | LL_SC

text \<open>The memory a single instruction meets: what the other cores left before it.\<close>

fun at_insn :: "'m round list \<Rightarrow> 'm \<Rightarrow> 'm option" where
  "at_insn [] mem = None"
| "at_insn (r # rs) mem = Some (env_before r mem)"

definition xchg_case :: "config \<Rightarrow> order \<Rightarrow> nat \<Rightarrow> u64 \<Rightarrow> u64 round list \<Rightarrow> u64 \<Rightarrow> (u64 \<times> u64 \<times> event list) option" where
  "xchg_case cfg ord k x rs mem =
     (case cfg of
       LSE \<Rightarrow> do {
         mem \<leftarrow> at_insn rs mem;
         Some (load_k k mem, store_k k x mem, [lse_event ord])
       }
     | LL_SC \<Rightarrow> do {
         (ret, _, mem, evs) \<leftarrow> excl_loop k ord (\<lambda>_. x) rs mem;
         Some (ret, mem, evs @ ll_sc_mb ord)
       })"

text \<open>The switch on the size; any other size reaches \<open>unreachable()\<close>.\<close>

definition xchg_gen :: "config \<Rightarrow> order \<Rightarrow> u64 \<Rightarrow> nat \<Rightarrow> u64 round list \<Rightarrow> u64 \<Rightarrow> (u64 \<times> u64 \<times> event list) option" where
  "xchg_gen cfg ord x sz rs mem =
     (if sz = 1 then xchg_case cfg ord 8 (take_bit 8 x) rs mem
      else if sz = 2 then xchg_case cfg ord 16 (take_bit 16 x) rs mem
      else if sz = 4 then xchg_case cfg ord 32 (take_bit 32 x) rs mem
      else if sz = 8 then xchg_case cfg ord 64 x rs mem
      else None)"

subsection \<open>Compare and exchange\<close>

text \<open>The comparison is made in a W register, or in an X register for 64 bits; below 32 bits
  the expected value is cut to its size first.\<close>

definition ll_sc_cmpxchg_case :: "order \<Rightarrow> nat \<Rightarrow> u64 \<Rightarrow> u64 \<Rightarrow> u64 round list \<Rightarrow> u64 \<Rightarrow> (u64 \<times> u64 \<times> event list) option" where
  "ll_sc_cmpxchg_case ord k old new rs mem =
     (let old = (if k < 32 then take_bit k old else old);
          reg = (if k = 64 then old else take_bit 32 old)
      in excl_cmpxchg_loop k ord reg new rs mem)"

text \<open>\<open>cas\<close> and its variants; a failing instruction has no store.\<close>

definition lse_cmpxchg_case :: "order \<Rightarrow> nat \<Rightarrow> u64 \<Rightarrow> u64 \<Rightarrow> u64 \<Rightarrow> u64 \<times> u64 \<times> event list" where
  "lse_cmpxchg_case ord k old new mem =
     (let tmp = load_k k mem in
      if tmp = take_bit k old then (tmp, store_k k new mem, [lse_event ord])
      else (tmp, mem, [Load (lse_event ord \<in> {Swap True False, Swap True True})]))"

definition cmpxchg_case :: "config \<Rightarrow> order \<Rightarrow> nat \<Rightarrow> u64 \<Rightarrow> u64 \<Rightarrow> u64 round list \<Rightarrow> u64 \<Rightarrow> (u64 \<times> u64 \<times> event list) option" where
  "cmpxchg_case cfg ord k old new rs mem =
     (case cfg of
       LSE \<Rightarrow> map_option (lse_cmpxchg_case ord k old new) (at_insn rs mem)
     | LL_SC \<Rightarrow> ll_sc_cmpxchg_case ord k old new rs mem)"

definition cmpxchg_gen :: "config \<Rightarrow> order \<Rightarrow> u64 \<Rightarrow> u64 \<Rightarrow> nat \<Rightarrow> u64 round list \<Rightarrow> u64 \<Rightarrow> (u64 \<times> u64 \<times> event list) option" where
  "cmpxchg_gen cfg ord old new sz rs mem =
     (if sz = 1 then cmpxchg_case cfg ord 8 (take_bit 8 old) (take_bit 8 new) rs mem
      else if sz = 2 then cmpxchg_case cfg ord 16 (take_bit 16 old) (take_bit 16 new) rs mem
      else if sz = 4 then cmpxchg_case cfg ord 32 (take_bit 32 old) (take_bit 32 new) rs mem
      else if sz = 8 then cmpxchg_case cfg ord 64 old new rs mem
      else None)"

text \<open>The pair versions: \<open>ldxp\<close>/\<open>stxp\<close> in a loop, or one \<open>casp\<close>. The result is 0 on success.\<close>

fun ll_sc_cmpxchg_double ::
    "u64 \<Rightarrow> u64 \<Rightarrow> u64 \<Rightarrow> u64 \<Rightarrow> (u64 \<times> u64) round list \<Rightarrow> u64 \<times> u64 \<Rightarrow> (u64 \<times> (u64 \<times> u64)) option" where
  "ll_sc_cmpxchg_double old1 old2 new1 new2 [] mem = None"
| "ll_sc_cmpxchg_double old1 old2 new1 new2 (r # rs) mem =
     (let (m1, m2) = env_before r mem; ret = (m1 XOR old1) OR (m2 XOR old2) in
      if ret \<noteq> 0 then Some (ret, (m1, m2))
      else case during r of
        Quiet \<Rightarrow> Some (ret, (new1, new2))
      | Spurious \<Rightarrow> ll_sc_cmpxchg_double old1 old2 new1 new2 rs (m1, m2)
      | Wrote m \<Rightarrow> ll_sc_cmpxchg_double old1 old2 new1 new2 rs m)"

definition lse_cmpxchg_double :: "u64 \<Rightarrow> u64 \<Rightarrow> u64 \<Rightarrow> u64 \<Rightarrow> u64 \<times> u64 \<Rightarrow> u64 \<times> (u64 \<times> u64)" where
  "lse_cmpxchg_double old1 old2 new1 new2 mem =
     (let (x0, x1) = mem;
          mem = (if x0 = old1 \<and> x1 = old2 then (new1, new2) else mem)
      in ((x0 XOR old1) OR (x1 XOR old2), mem))"

subsection \<open>The interface of atomic.h\<close>

definition arm_atomic :: "config \<Rightarrow> atomic_op \<Rightarrow> u64 \<Rightarrow> u64 round list \<Rightarrow> u64 \<Rightarrow> (u64 \<times> event list) option" where
  "arm_atomic cfg op i rs mem =
     (case cfg of LSE \<Rightarrow> map_option (lse_atomic op i) (at_insn rs mem)
      | LL_SC \<Rightarrow> ll_sc_atomic op i rs mem)"

definition arm_atomic_fetch :: "config \<Rightarrow> order \<Rightarrow> atomic_op \<Rightarrow> u64 \<Rightarrow> u64 round list \<Rightarrow> u64 \<Rightarrow> (u64 \<times> u64 \<times> event list) option" where
  "arm_atomic_fetch cfg ord op i rs mem =
     (case cfg of LSE \<Rightarrow> map_option (lse_atomic_fetch ord op i) (at_insn rs mem)
      | LL_SC \<Rightarrow> ll_sc_atomic_fetch ord op i rs mem)"

definition arm_atomic_return :: "config \<Rightarrow> order \<Rightarrow> atomic_op \<Rightarrow> u64 \<Rightarrow> u64 round list \<Rightarrow> u64 \<Rightarrow> (u64 \<times> u64 \<times> event list) option" where
  "arm_atomic_return cfg ord op i rs mem =
     (case cfg of LSE \<Rightarrow> map_option (lse_atomic_return ord op i) (at_insn rs mem)
      | LL_SC \<Rightarrow> ll_sc_atomic_return ord op i rs mem)"

text \<open>\<open>atomic_try_cmpxchg\<close> and its variants: success, the new \<open>*old\<close>, memory.\<close>

definition atomic_try_cmpxchg :: "config \<Rightarrow> order \<Rightarrow> u64 \<Rightarrow> u64 \<Rightarrow> u64 round list \<Rightarrow> u64 \<Rightarrow> (bool \<times> u64 \<times> u64) option" where
  "atomic_try_cmpxchg cfg ord old new rs mem = do {
     let expected = take_bit 32 old;
     (r, mem, _) \<leftarrow> cmpxchg_gen cfg ord expected new 4 rs mem;
     Some (r = expected, if r \<noteq> expected then r else old, mem)
   }"

subsection \<open>Barriers and waiting\<close>

text \<open>\<open>smp_store_release\<close> and \<open>smp_load_acquire\<close>: for a size outside the switch nothing is stored,
  and the loaded value is uninitialised.\<close>

definition smp_store_release :: "nat \<Rightarrow> u64 \<Rightarrow> u64 \<Rightarrow> u64 \<times> event list" where
  "smp_store_release sz v mem =
     (if sz \<in> {1, 2, 4, 8} then (store_k (8 * sz) v mem, [Store True]) else (mem, []))"

definition smp_load_acquire :: "nat \<Rightarrow> u64 \<Rightarrow> (u64 \<times> event list) option" where
  "smp_load_acquire sz mem =
     (if sz \<in> {1, 2, 4, 8} then Some (load_k (8 * sz) mem, [Load True]) else None)"

text \<open>\<open>__cmpwait\<close>: the first \<open>wfe\<close> consumes the event of \<open>sevl\<close>; after the exclusive load it sleeps in
  the second \<open>wfe\<close> if the value is unchanged, until a write clears the monitor. \<open>late\<close> are the
  writes still to come. \<open>None\<close>: asleep for good.\<close>

definition cmpwait :: "nat \<Rightarrow> u64 \<Rightarrow> u64 \<Rightarrow> u64 list \<Rightarrow> (u64 \<times> u64 list) option" where
  "cmpwait k val mem late =
     (if load_k k mem XOR take_bit k val \<noteq> 0 then Some (mem, late)
      else case late of [] \<Rightarrow> None | m # late' \<Rightarrow> Some (m, late'))"

text \<open>\<open>smp_cond_load_acquire\<close> and \<open>smp_cond_load_relaxed\<close>. The schedule gives for each round how
  many of the coming writes fall between the read of \<open>VAL\<close> and the exclusive load of
  \<open>__cmpwait\<close>; the loop stops waiting rounds with the schedule (\<open>Inl\<close>: still running), and
  \<open>Inr None\<close> is a thread asleep for good.\<close>

fun smp_cond_load :: "nat \<Rightarrow> (u64 \<Rightarrow> bool) \<Rightarrow> nat list \<Rightarrow> u64 \<Rightarrow> u64 list \<Rightarrow> u64 + (u64 \<times> u64 \<times> u64 list) option" where
  "smp_cond_load k cond [] mem late = Inl mem"
| "smp_cond_load k cond (n # sched) mem late =
     (let VAL = load_k k mem in
      if cond VAL then Inr (Some (VAL, mem, late))
      else
        let mem = last (mem # take n late); late = drop n late in
        case cmpwait k VAL mem late of
          None \<Rightarrow> Inr None
        | Some (mem, late) \<Rightarrow> smp_cond_load k cond sched mem late)"

subsection \<open>Where an operation takes effect\<close>

text \<open>The memory the successful round loads from: the linearisation point of an exclusive loop.\<close>

fun commit_mem :: "'m round list \<Rightarrow> 'm \<Rightarrow> 'm option" where
  "commit_mem [] mem = None"
| "commit_mem (r # rs) mem =
     (let mem = env_before r mem in
      case during r of Quiet \<Rightarrow> Some mem | Spurious \<Rightarrow> commit_mem rs mem | Wrote m \<Rightarrow> commit_mem rs m)"

text \<open>A compare-exchange also ends in a round that loads another value than the expected one.\<close>

fun cmp_commit_mem :: "('m \<Rightarrow> bool) \<Rightarrow> 'm round list \<Rightarrow> 'm \<Rightarrow> 'm option" where
  "cmp_commit_mem eq [] mem = None"
| "cmp_commit_mem eq (r # rs) mem =
     (let mem = env_before r mem in
      if \<not> eq mem then Some mem
      else case during r of Quiet \<Rightarrow> Some mem | Spurious \<Rightarrow> cmp_commit_mem eq rs mem | Wrote m \<Rightarrow> cmp_commit_mem eq rs m)"

definition quiet_round :: "'m round list \<Rightarrow> bool" where
  "quiet_round rs \<longleftrightarrow> (\<exists>r\<in>set rs. during r = Quiet)"

lemma commit_mem_iff: "commit_mem rs mem \<noteq> None \<longleftrightarrow> quiet_round rs"
  by (induction rs mem rule: commit_mem.induct)
    (auto simp: quiet_round_def Let_def split: interference.splits)

lemma cmp_commit_mem_quiet: "quiet_round rs \<Longrightarrow> cmp_commit_mem eq rs mem \<noteq> None"
  by (induction eq rs mem rule: cmp_commit_mem.induct)
    (auto simp: quiet_round_def Let_def split: interference.splits)

text \<open>An exclusive loop is one atomic update of the memory at its linearisation point.\<close>

lemma excl_loop_commit:
  "map_option (\<lambda>(old, new, mem, evs). (old, new, mem)) (excl_loop k ord f rs mem) =
   map_option (\<lambda>m. (load_k k m, take_bit k (f (load_k k m)), store_k k (f (load_k k m)) m)) (commit_mem rs mem)"
  by (induction k ord f rs mem rule: excl_loop.induct)
    (auto simp: Let_def option.map_comp comp_def case_prod_beta split: interference.splits)

lemma excl_loop_Some:
  "excl_loop k ord f rs mem = Some (old, new, mem', evs) \<Longrightarrow>
   \<exists>m. commit_mem rs mem = Some m \<and> old = load_k k m \<and> new = take_bit k (f old) \<and> mem' = store_k k (f old) m"
  using excl_loop_commit [of k ord f rs mem] by (cases "commit_mem rs mem") auto

lemma excl_loop_None: "excl_loop k ord f rs mem = None \<longleftrightarrow> commit_mem rs mem = None"
  using arg_cong [OF excl_loop_commit [of k ord f rs mem], of "\<lambda>x. x = None"] by simp

lemma xor_0_iff: "x XOR y = 0 \<longleftrightarrow> x = y" for x y :: u64
  by (auto simp: bit_eq_iff bit_xor_iff)

lemma excl_cmpxchg_loop_commit:
  "map_option (\<lambda>(v, mem, evs). (v, mem)) (excl_cmpxchg_loop k ord old new rs mem) =
   map_option (\<lambda>m. (load_k k m, if load_k k m = old then store_k k new m else m))
     (cmp_commit_mem (\<lambda>m. load_k k m = old) rs mem)"
proof (induction k ord old new rs mem rule: excl_cmpxchg_loop.induct)
  case (2 k ord old new r rs mem)
  have prefix: "map_option (\<lambda>(v, mem, evs). (v, mem)) (map_option (\<lambda>(v, m', es). (v, m', e # es)) x) =
      map_option (\<lambda>(v, mem, evs). (v, mem)) x" for e :: event and x :: "(u64 \<times> u64 \<times> event list) option"
    by (cases x) auto
  show ?case
  proof (cases "load_k k (env_before r mem) = old")
    case True
    then show ?thesis
      using 2 by (cases "during r") (simp_all add: Let_def prefix)
  next
    case False
    then show ?thesis by (simp add: Let_def xor_0_iff)
  qed
qed simp

subsection \<open>Properties of the read-modify-write operations\<close>

text \<open>What an operation does to the 32-bit counter at the pointer.\<close>

definition rmw :: "atomic_op \<Rightarrow> u64 \<Rightarrow> u64 \<Rightarrow> u64" where
  "rmw op i m = store_k 32 (alu op (load_k 32 m) i) m"

lemma lse_code_alu: "lse_code op i = (insn, j) \<Longrightarrow> lse_alu insn a j = alu op a i"
  by (cases op) auto

lemma lse_fetch_rmw: "lse_atomic_fetch ord op i m = (load_k 32 m, rmw op i m, [lse_event ord])"
  by (cases "lse_code op i") (auto simp: lse_atomic_fetch_def lse_ld_def rmw_def Let_def lse_code_alu)

lemma lse_atomic_rmw: "lse_atomic op i m = (rmw op i m, [lse_event Relaxed])"
  by (cases "lse_code op i") (auto simp: lse_atomic_def lse_ld_def rmw_def Let_def lse_code_alu)

lemma lse_return_rmw:
  "op \<in> {Add, Sub} \<Longrightarrow> lse_atomic_return ord op i m = (load_k 32 (rmw op i m), rmw op i m, [lse_event ord])"
  by (auto simp: lse_atomic_return_def lse_ld_def rmw_def Let_def add.commute)

text \<open>The memory an operation takes effect on, in either configuration.\<close>

fun at_point :: "config \<Rightarrow> 'm round list \<Rightarrow> 'm \<Rightarrow> 'm option" where
  "at_point LSE rs mem = at_insn rs mem"
| "at_point LL_SC rs mem = commit_mem rs mem"

text \<open>C33: Both implementations of every atomic read-modify-write operation, the exclusive loop and
  the single instruction (with \<open>mvn\<close> or \<open>neg\<close> in front for and and sub), are one atomic update of
  the counter at one moment: they return the value the counter had then, and leave the
  operation's result and the neighbouring bytes of that moment.\<close>

theorem atomic_fetch_linearises:
  "map_option (\<lambda>(r, m, _). (r, m)) (arm_atomic_fetch cfg ord op i rs mem) =
     map_option (\<lambda>m. (load_k 32 m, rmw op i m)) (at_point cfg rs mem) \<and>
   map_option fst (arm_atomic cfg op i rs mem) = map_option (rmw op i) (at_point cfg rs mem) \<and>
   drop_bit 32 (rmw op i m) = drop_bit 32 m"
proof (cases cfg)
  case LSE
  then show ?thesis
    by (cases "at_insn rs mem")
      (simp_all add: arm_atomic_fetch_def arm_atomic_def lse_fetch_rmw lse_atomic_rmw rmw_def store_keeps_above)
next
  case LL_SC
  then show ?thesis
    using excl_loop_commit [of 32 ord "\<lambda>a. alu op a i" rs mem]
      excl_loop_commit [of 32 Relaxed "\<lambda>a. alu op a i" rs mem]
    by (cases "excl_loop 32 ord (\<lambda>a. alu op a i) rs mem"; cases "excl_loop 32 Relaxed (\<lambda>a. alu op a i) rs mem";
        cases "commit_mem rs mem")
      (auto simp: arm_atomic_fetch_def arm_atomic_def ll_sc_atomic_fetch_def ll_sc_atomic_def rmw_def
        store_keeps_above)
qed

text \<open>Remark: \<open>add_return\<close> and \<open>sub_return\<close> return the new value of the counter in both
  implementations, although the single-instruction one recomputes it from the old value.\<close>

theorem atomic_return_new_value:
  assumes "op \<in> {Add, Sub}"
  shows "map_option (\<lambda>(r, m, _). (r, m)) (arm_atomic_return cfg ord op i rs mem) =
     map_option (\<lambda>m. (load_k 32 (rmw op i m), rmw op i m)) (at_point cfg rs mem)"
proof (cases cfg)
  case LSE
  then show ?thesis
    using assms by (cases "at_insn rs mem") (simp_all add: arm_atomic_return_def lse_return_rmw)
next
  case LL_SC
  then show ?thesis
    using excl_loop_commit [of 32 ord "\<lambda>a. alu op a i" rs mem]
    by (cases "excl_loop 32 ord (\<lambda>a. alu op a i) rs mem"; cases "commit_mem rs mem")
      (auto simp: arm_atomic_return_def ll_sc_atomic_return_def rmw_def)
qed

theorem atomic_return_new_value_witness:
  "map_option (\<lambda>(r, m, _). (r, m))
     (arm_atomic_return LL_SC Full Sub 1 [\<lparr>before = None, during = Wrote 8\<rparr>, \<lparr>before = None, during = Quiet\<rparr>] 5) =
   map_option (\<lambda>m. (load_k 32 (rmw Sub 1 m), rmw Sub 1 m))
     (at_point LL_SC [\<lparr>before = None, during = Wrote 8\<rparr>, \<lparr>before = None, during = Quiet\<rparr>] 5)"
  by (rule atomic_return_new_value) simp

text \<open>Remark: The exclusive loops end as soon as one round goes undisturbed, and only then.\<close>

theorem ll_sc_terminates_iff:
  "(arm_atomic_fetch LL_SC ord op i rs mem \<noteq> None \<longleftrightarrow> quiet_round rs) \<and>
   (arm_atomic_return LL_SC ord op i rs mem \<noteq> None \<longleftrightarrow> quiet_round rs) \<and>
   (arm_atomic LL_SC op i rs mem \<noteq> None \<longleftrightarrow> quiet_round rs) \<and>
   (xchg_case LL_SC ord k x rs mem \<noteq> None \<longleftrightarrow> quiet_round rs)"
  using commit_mem_iff [of rs mem] excl_loop_None
  by (auto simp: arm_atomic_fetch_def arm_atomic_return_def arm_atomic_def ll_sc_atomic_fetch_def xchg_case_def
      ll_sc_atomic_return_def ll_sc_atomic_def bind_eq_None_conv split: option.splits prod.splits)

subsection \<open>Properties of exchange and compare-exchange\<close>

definition valid_size :: "nat \<Rightarrow> bool" where
  "valid_size sz \<longleftrightarrow> sz = 1 \<or> sz = 2 \<or> sz = 4 \<or> sz = 8"

lemma xchg_case_commit:
  "map_option (\<lambda>(r, m, _). (r, m)) (xchg_case cfg ord k x rs mem) =
   map_option (\<lambda>m. (load_k k m, store_k k x m)) (at_point cfg rs mem)"
proof (cases cfg)
  case LSE
  then show ?thesis by (cases "at_insn rs mem") (simp_all add: xchg_case_def)
next
  case LL_SC
  then show ?thesis
    using excl_loop_commit [of k ord "\<lambda>_. x" rs mem]
    by (cases "excl_loop k ord (\<lambda>_. x) rs mem"; cases "commit_mem rs mem") (auto simp: xchg_case_def)
qed

lemma take_bit_64 [simp]: "take_bit 64 x = (x :: u64)"
  by (rule bit_word_eqI) (simp add: bit_take_bit_iff)

text \<open>Remark: Exchange of one to eight bytes is atomic in both implementations: it returns the bytes that
  were there and replaces them and nothing beside them. For other sizes it is undefined.\<close>

theorem xchg_atomic:
  "map_option (\<lambda>(r, m, _). (r, m)) (xchg_gen cfg ord x sz rs mem) =
   (if valid_size sz then map_option (\<lambda>m. (load_k (8 * sz) m, store_k (8 * sz) x m)) (at_point cfg rs mem)
    else None)"
  by (auto simp: xchg_gen_def valid_size_def xchg_case_commit)

lemma ll_sc_cmpxchg_commit:
  assumes "k = 8 \<or> k = 16 \<or> k = 32 \<or> k = 64"
  shows "map_option (\<lambda>(v, mem, evs). (v, mem)) (ll_sc_cmpxchg_case ord k old new rs mem) =
   map_option (\<lambda>m. (load_k k m, if load_k k m = take_bit k old then store_k k new m else m))
     (cmp_commit_mem (\<lambda>m. load_k k m = take_bit k old) rs mem)"
  using assms by (auto simp: ll_sc_cmpxchg_case_def excl_cmpxchg_loop_commit Let_def)

text \<open>Where a compare-exchange takes effect.\<close>

fun cmp_point :: "config \<Rightarrow> ('m \<Rightarrow> bool) \<Rightarrow> 'm round list \<Rightarrow> 'm \<Rightarrow> 'm option" where
  "cmp_point LSE eq rs mem = at_insn rs mem"
| "cmp_point LL_SC eq rs mem = cmp_commit_mem eq rs mem"

lemma cmpxchg_case_commit:
  assumes "k = 8 \<or> k = 16 \<or> k = 32 \<or> k = 64"
  shows "map_option (\<lambda>(v, m, _). (v, m)) (cmpxchg_case cfg ord k old new rs mem) =
   map_option (\<lambda>m. (load_k k m, if load_k k m = take_bit k old then store_k k new m else m))
     (cmp_point cfg (\<lambda>m. load_k k m = take_bit k old) rs mem)"
proof (cases cfg)
  case LSE
  then show ?thesis
    by (cases "at_insn rs mem") (simp_all add: cmpxchg_case_def lse_cmpxchg_case_def Let_def)
next
  case LL_SC
  then show ?thesis
    using ll_sc_cmpxchg_commit [OF assms] by (simp add: cmpxchg_case_def)
qed

text \<open>Remark: Compare-exchange of one to eight bytes is atomic in both implementations: it returns the
  bytes that were there, and replaces them exactly if they equal the expected value cut to
  the size, so the bits of the register above the size never decide the comparison.\<close>

theorem cmpxchg_atomic:
  "map_option (\<lambda>(v, m, _). (v, m)) (cmpxchg_gen cfg ord old new sz rs mem) =
   (if valid_size sz
    then map_option (\<lambda>m. (load_k (8 * sz) m,
        if load_k (8 * sz) m = take_bit (8 * sz) old then store_k (8 * sz) new m else m))
      (cmp_point cfg (\<lambda>m. load_k (8 * sz) m = take_bit (8 * sz) old) rs mem)
    else None)"
  by (auto simp: cmpxchg_gen_def valid_size_def cmpxchg_case_commit cong: if_cong)

text \<open>Remark: \<open>atomic_try_cmpxchg\<close> succeeds exactly if the counter had the expected value, and then
  stores the new one; otherwise memory is as it was and \<open>*old\<close> becomes the value seen, so
  that a retry starts from it.\<close>

theorem try_cmpxchg_result:
  assumes "atomic_try_cmpxchg cfg ord old new rs mem = Some (ok, old', mem')" "take_bit 32 old = old"
  shows "\<exists>m. cmp_point cfg (\<lambda>m. load_k 32 m = old) rs mem = Some m \<and>
     (ok \<longleftrightarrow> load_k 32 m = old) \<and> old' = load_k 32 m \<and> mem' = (if ok then store_k 32 new m else m)"
proof -
  from assms obtain evs r where r: "cmpxchg_gen cfg ord old new 4 rs mem = Some (r, mem', evs)"
    "ok \<longleftrightarrow> r = old" "old' = r"
    by (auto simp: atomic_try_cmpxchg_def bind_eq_Some_conv split: if_splits)
  have "map_option (\<lambda>(v, m, _). (v, m)) (cmpxchg_gen cfg ord old new 4 rs mem) =
      map_option (\<lambda>m. (load_k 32 m, if load_k 32 m = take_bit 32 old then store_k 32 new m else m))
        (cmp_point cfg (\<lambda>m. load_k 32 m = take_bit 32 old) rs mem)"
    by (simp add: cmpxchg_gen_def cmpxchg_case_commit cong: if_cong)
  with r assms(2) show ?thesis
    by (cases "cmp_point cfg (\<lambda>m. load_k 32 m = old) rs mem") auto
qed

theorem try_cmpxchg_result_witness:
  "\<exists>m. cmp_point LL_SC (\<lambda>m. load_k 32 m = 7) [\<lparr>before = Some 9, during = Quiet\<rparr>] 7 = Some m \<and>
     (False \<longleftrightarrow> load_k 32 m = 7) \<and> (9 :: u64) = load_k 32 m \<and> (9 :: u64) = (if False then store_k 32 8 m else m)"
  by (rule try_cmpxchg_result [where ord = Full]) code_simp+

text \<open>Remark: The pair compare-exchange: loop and instruction agree, return zero exactly on success, and
  replace both words or neither.\<close>

theorem cmpxchg_double_agree:
  "ll_sc_cmpxchg_double old1 old2 new1 new2 rs mem =
     map_option (lse_cmpxchg_double old1 old2 new1 new2) (cmp_commit_mem (\<lambda>m. m = (old1, old2)) rs mem) \<and>
   (fst (lse_cmpxchg_double old1 old2 new1 new2 m) = 0 \<longleftrightarrow> m = (old1, old2)) \<and>
   snd (lse_cmpxchg_double old1 old2 new1 new2 m) = (if m = (old1, old2) then (new1, new2) else m)"
proof (intro conjI)
  have or0: "x OR y = 0 \<longleftrightarrow> x = 0 \<and> y = 0" for x y :: u64
    by (auto simp: bit_eq_iff bit_or_iff)
  show "ll_sc_cmpxchg_double old1 old2 new1 new2 rs mem =
     map_option (lse_cmpxchg_double old1 old2 new1 new2) (cmp_commit_mem (\<lambda>m. m = (old1, old2)) rs mem)"
  proof (induction rs arbitrary: mem)
    case (Cons r rs)
    obtain m1 m2 where m: "env_before r mem = (m1, m2)" by fastforce
    show ?case
    proof (cases "m1 = old1 \<and> m2 = old2")
      case True
      then show ?thesis
        using Cons.IH m by (cases "during r") (simp_all add: lse_cmpxchg_double_def Let_def)
    next
      case False
      then show ?thesis
        using m by (auto simp: lse_cmpxchg_double_def or0 xor_0_iff)
    qed
  qed simp
  show "fst (lse_cmpxchg_double old1 old2 new1 new2 m) = 0 \<longleftrightarrow> m = (old1, old2)"
    by (cases m) (auto simp: lse_cmpxchg_double_def Let_def or0 xor_0_iff)
  show "snd (lse_cmpxchg_double old1 old2 new1 new2 m) = (if m = (old1, old2) then (new1, new2) else m)"
    by (cases m) (auto simp: lse_cmpxchg_double_def Let_def)
qed

subsection \<open>Ordering\<close>

text \<open>Accesses after the operation stay after it if its last load acquires or a barrier follows;
  accesses before it stay before it if its store releases.\<close>

fun later_ordered :: "event list \<Rightarrow> bool" where
  "later_ordered [] = False"
| "later_ordered (e # es) =
     (e = DmbIsh \<or> later_ordered es \<or>
      (\<forall>x\<in>set es. x \<noteq> Load False \<and> x \<noteq> Load True) \<and> (e = Load True \<or> e = Swap True False \<or> e = Swap True True))"

definition earlier_ordered :: "event list \<Rightarrow> bool" where
  "earlier_ordered es \<longleftrightarrow> (\<exists>e\<in>set es. e = Store True \<or> e = Swap False True \<or> e = Swap True True)"

lemma later_ordered_loads:
  "later_ordered (replicate n (Load a) @ Load a # es) \<longleftrightarrow> later_ordered (Load a # es)"
  by (induction n) auto

lemma earlier_ordered_loads:
  "earlier_ordered (replicate n (Load a) @ es) \<longleftrightarrow> earlier_ordered es"
  by (induction n) (simp_all add: earlier_ordered_def)

lemma excl_loop_events:
  "excl_loop k ord f rs mem = Some (old, new, mem', evs) \<Longrightarrow>
   \<exists>n. evs = replicate n (Load (ll_sc_acq ord)) @ Load (ll_sc_acq ord) # [Store (ll_sc_rel ord)]"
proof (induction rs arbitrary: mem evs)
  case (Cons r rs)
  have again: "\<exists>n. Load (ll_sc_acq ord) # es = replicate n (Load (ll_sc_acq ord)) @ Load (ll_sc_acq ord) # [Store (ll_sc_rel ord)]"
    if "excl_loop k ord f rs m = Some (old, new, mem', es)" for m es
  proof -
    from Cons.IH [OF that] obtain n where
      "es = replicate n (Load (ll_sc_acq ord)) @ Load (ll_sc_acq ord) # [Store (ll_sc_rel ord)]" ..
    then show ?thesis by (intro exI [of _ "Suc n"]) simp
  qed
  show ?case
  proof (cases "during r")
    case Quiet
    then show ?thesis
      using Cons.prems by (intro exI [of _ 0]) (simp add: Let_def)
  next
    case Spurious
    then obtain es where "evs = Load (ll_sc_acq ord) # es"
      "excl_loop k ord f rs (env_before r mem) = Some (old, new, mem', es)"
      using Cons.prems by (auto simp: Let_def)
    then show ?thesis using again by blast
  next
    case (Wrote m)
    then obtain es where "evs = Load (ll_sc_acq ord) # es" "excl_loop k ord f rs m = Some (old, new, mem', es)"
      using Cons.prems by (auto simp: Let_def)
    then show ?thesis using again by blast
  qed
qed simp

lemma excl_cmpxchg_loop_events:
  "excl_cmpxchg_loop k ord old new rs mem = Some (v, mem', evs) \<Longrightarrow>
   \<exists>n. evs = replicate n (Load (ll_sc_acq ord)) @ Load (ll_sc_acq ord) #
     (if v = old then Store (ll_sc_rel ord) # ll_sc_mb ord else [])"
proof (induction rs arbitrary: mem evs)
  case (Cons r rs)
  let ?a = "Load (ll_sc_acq ord)" and ?t = "if v = old then Store (ll_sc_rel ord) # ll_sc_mb ord else []"
  have again: "\<exists>n. ?a # es = replicate n ?a @ ?a # ?t"
    if "excl_cmpxchg_loop k ord old new rs m = Some (v, mem', es)" for m es
  proof -
    from Cons.IH [OF that] obtain n where "es = replicate n ?a @ ?a # ?t" ..
    then show ?thesis by (intro exI [of _ "Suc n"]) simp
  qed
  show ?case
  proof (cases "load_k k (env_before r mem) = old")
    case False
    then show ?thesis
      using Cons.prems by (intro exI [of _ 0]) (auto simp: Let_def xor_0_iff)
  next
    case True
    show ?thesis
    proof (cases "during r")
      case Quiet
      then show ?thesis
        using True Cons.prems by (intro exI [of _ 0]) (auto simp: Let_def)
    next
      case Spurious
      then obtain es where "evs = ?a # es"
        "excl_cmpxchg_loop k ord old new rs (env_before r mem) = Some (v, mem', es)"
        using True Cons.prems by (auto simp: Let_def)
      then show ?thesis using again by blast
    next
      case (Wrote m)
      then obtain es where "evs = ?a # es" "excl_cmpxchg_loop k ord old new rs m = Some (v, mem', es)"
        using True Cons.prems by (auto simp: Let_def)
      then show ?thesis using again by blast
    qed
  qed
qed simp

text \<open>Remark: Every ordering suffix means the same in both implementations: acquire and full operations
  keep later accesses after them, release and full operations keep earlier accesses before
  them, the other suffixes do not.\<close>

theorem fetch_ordering:
  assumes "arm_atomic_fetch cfg ord op i rs mem = Some (r, m, evs)"
  shows "(later_ordered evs \<longleftrightarrow> ord = Acquire \<or> ord = Full) \<and> (earlier_ordered evs \<longleftrightarrow> ord = Release \<or> ord = Full)"
proof (cases cfg)
  case LSE
  with assms have "evs = [lse_event ord]"
    by (auto simp: arm_atomic_fetch_def lse_fetch_rmw)
  then show ?thesis by (cases ord) (simp_all add: earlier_ordered_def)
next
  case LL_SC
  with assms obtain old new evs' where e: "excl_loop 32 ord (\<lambda>a. alu op a i) rs mem = Some (old, new, m, evs')"
    "evs = evs' @ ll_sc_mb ord"
    by (auto simp: arm_atomic_fetch_def ll_sc_atomic_fetch_def bind_eq_Some_conv)
  from excl_loop_events [OF e(1)] e(2) obtain n where
    "evs = replicate n (Load (ll_sc_acq ord)) @ Load (ll_sc_acq ord) # (Store (ll_sc_rel ord) # ll_sc_mb ord)"
    by auto
  then show ?thesis
    by (cases ord) (simp_all only: later_ordered_loads earlier_ordered_loads, simp_all add: earlier_ordered_def)
qed

theorem fetch_ordering_witness:
  "(later_ordered [Load False, Store True, DmbIsh] \<longleftrightarrow> Full = Acquire \<or> Full = Full) \<and>
   (earlier_ordered [Load False, Store True, DmbIsh] \<longleftrightarrow> Full = Release \<or> Full = Full)"
  by (rule fetch_ordering [of LL_SC Full Or 1 "[\<lparr>before = None, during = Quiet\<rparr>]" 4 4 5]) code_simp

text \<open>Remark: A successful compare-exchange is ordered as its suffix says in both implementations; a
  failed one never orders earlier accesses, because it does not store.\<close>

theorem cmpxchg_ordering:
  assumes "cmpxchg_case cfg ord k old new rs mem = Some (v, m, evs)"
    "k \<in> {8, 16, 32, 64}" "take_bit k old = old"
  shows "(v = old \<longrightarrow> (later_ordered evs \<longleftrightarrow> ord = Acquire \<or> ord = Full) \<and>
                       (earlier_ordered evs \<longleftrightarrow> ord = Release \<or> ord = Full)) \<and>
     (v \<noteq> old \<longrightarrow> \<not> earlier_ordered evs)"
proof (cases cfg)
  case LSE
  with assms(1) obtain m0 where l: "lse_cmpxchg_case ord k old new m0 = (v, m, evs)"
    by (auto simp: cmpxchg_case_def)
  then have "v = load_k k m0" "evs = (if v = old then [lse_event ord]
      else [Load (lse_event ord \<in> {Swap True False, Swap True True})])"
    unfolding lse_cmpxchg_case_def Let_def assms(3) by (auto split: if_splits)
  then show ?thesis
    by (cases "v = old"; cases ord) (simp_all add: earlier_ordered_def)
next
  case LL_SC
  have "take_bit 32 (take_bit k old) = take_bit k old" if "k \<noteq> 64"
    using assms(2) that by (auto simp: take_bit_take_bit)
  then have "take_bit 32 old = old" if "k \<noteq> 64"
    using that by (simp add: assms(3))
  then have "ll_sc_cmpxchg_case ord k old new rs mem = excl_cmpxchg_loop k ord old new rs mem"
    unfolding ll_sc_cmpxchg_case_def Let_def assms(3) by simp
  with LL_SC assms(1) have "excl_cmpxchg_loop k ord old new rs mem = Some (v, m, evs)"
    by (simp add: cmpxchg_case_def)
  from excl_cmpxchg_loop_events [OF this] obtain n where
    evs: "evs = replicate n (Load (ll_sc_acq ord)) @ Load (ll_sc_acq ord) #
     (if v = old then Store (ll_sc_rel ord) # ll_sc_mb ord else [])" ..
  show ?thesis
    unfolding evs later_ordered_loads earlier_ordered_loads
    by (cases "v = old"; cases ord) (simp_all add: earlier_ordered_def)
qed

theorem cmpxchg_ordering_witness:
  "cmpxchg_case LL_SC Full 32 4 1 [\<lparr>before = None, during = Quiet\<rparr>] 4 = Some (4, 1, [Load False, Store True, DmbIsh]) \<and>
   later_ordered [Load False, Store True, DmbIsh] \<and> earlier_ordered [Load False, Store True, DmbIsh]"
proof -
  have c: "cmpxchg_case LL_SC Full 32 4 1 [\<lparr>before = None, during = Quiet\<rparr>] 4 = Some (4, 1, [Load False, Store True, DmbIsh])"
    by code_simp
  have k: "32 \<in> {8, 16, 32, 64 :: nat}" "take_bit 32 4 = (4 :: u64)" by simp_all
  show ?thesis using c cmpxchg_ordering [OF c k] by simp
qed

subsection \<open>Waiting\<close>

lemma smp_cond_load_returns:
  "smp_cond_load k cond sched mem late = Inr (Some (v, m, rest)) \<Longrightarrow>
   cond v \<and> v = load_k k m \<and> m \<in> set (mem # late)"
proof (induction sched arbitrary: mem late)
  case (Cons n sched)
  let ?mem = "last (mem # take n late)"
  have m: "?mem \<in> set (mem # late)"
    using last_in_set [of "mem # take n late"] set_take_subset [of n late] by auto
  show ?case
  proof (cases "cond (load_k k mem)")
    case True
    then show ?thesis using Cons.prems by (auto simp: Let_def)
  next
    case False
    then obtain m' l' where w: "cmpwait k (load_k k mem) ?mem (drop n late) = Some (m', l')"
      and rec: "smp_cond_load k cond sched m' l' = Inr (Some (v, m, rest))"
      using Cons.prems by (simp add: Let_def split: option.splits prod.splits)
    from w have "m' = ?mem \<and> l' = drop n late \<or> drop n late = m' # l'"
      by (auto simp: cmpwait_def split: if_splits list.splits)
    then have "set (m' # l') \<subseteq> set (mem # late)"
      using m set_drop_subset [of n late] by auto
    then show ?thesis using Cons.IH [OF rec] by blast
  qed
qed simp

lemma last_drift: "last (mem # late) = last (last (mem # take n late) # drop n late)"
proof -
  have "last (mem # late) = last ((mem # take n late) @ drop n late)"
    by simp
  also have "\<dots> = (if drop n late = [] then last (mem # take n late) else last (drop n late))"
    by (rule last_append)
  also have "\<dots> = last (last (mem # take n late) # drop n late)"
    by (rule last.simps [symmetric])
  finally show ?thesis .
qed

lemma cmpwait_None:
  "cmpwait k (load_k k v) mem late = None \<Longrightarrow> load_k k mem = load_k k v \<and> late = []"
  by (auto simp: cmpwait_def xor_0_iff load_k_def split: if_splits list.splits)

lemma cmpwait_Some:
  assumes "cmpwait k (load_k k v) mem late = Some (m, l)"
  shows "last (m # l) = last (mem # late)" "m = mem \<and> l = late \<and> load_k k mem \<noteq> load_k k v \<or> late = m # l"
  using assms by (auto simp: cmpwait_def xor_0_iff load_k_def split: if_splits list.splits)

lemma smp_cond_load_asleep:
  "smp_cond_load k cond sched mem late = Inr None \<Longrightarrow> \<not> cond (load_k k (last (mem # late)))"
proof (induction sched arbitrary: mem late)
  case (Cons n sched)
  let ?mem = "last (mem # take n late)"
  have c: "\<not> cond (load_k k mem)"
    using Cons.prems by (auto simp: Let_def)
  show ?case
  proof (cases "cmpwait k (load_k k mem) ?mem (drop n late)")
    case None
    note w = cmpwait_None [OF this]
    have "last (mem # late) = ?mem"
      unfolding last_drift [of mem late n] conjunct2 [OF w] by (rule last_ConsL) (rule refl)
    then have "load_k k (last (mem # late)) = load_k k mem"
      using conjunct1 [OF w] by (simp only:)
    then show ?thesis using c by (simp only: not_False_eq_True)
  next
    case (Some p)
    obtain m' l' where p: "p = (m', l')" by fastforce
    have "smp_cond_load k cond sched m' l' = Inr None"
      using Cons.prems c Some p by (simp add: Let_def)
    from Cons.IH [OF this] cmpwait_Some(1) [OF Some [unfolded p]] show ?thesis
      unfolding last_drift [of mem late n] by simp
  qed
qed simp

lemma smp_cond_load_terminates:
  "cond (load_k k (last (mem # late))) \<Longrightarrow> length late < length sched \<Longrightarrow>
   \<exists>r. smp_cond_load k cond sched mem late = Inr (Some r)"
proof (induction sched arbitrary: mem late)
  case (Cons n sched)
  let ?mem = "last (mem # take n late)"
  show ?case
  proof (cases "cond (load_k k mem)")
    case True
    then show ?thesis by (simp add: Let_def)
  next
    case c: False
    then have ne: "late \<noteq> []" using Cons.prems(1) by auto
    show ?thesis
    proof (cases "cmpwait k (load_k k mem) ?mem (drop n late)")
      case None
      note w = cmpwait_None [OF this]
      have "last (mem # late) = ?mem"
        unfolding last_drift [of mem late n] conjunct2 [OF w] by (rule last_ConsL) (rule refl)
      then have "load_k k (last (mem # late)) = load_k k mem"
        using conjunct1 [OF w] by (simp only:)
      then show ?thesis using c Cons.prems(1) by (simp only: not_False_eq_True)
    next
      case (Some p)
      obtain m' l' where p: "p = (m', l')" by fastforce
      note w = cmpwait_Some [OF Some [unfolded p]]
      have "length l' < length late"
      proof (cases "drop n late = m' # l'")
        case True
        then have "length (drop n late) = Suc (length l')" by simp
        then show ?thesis by simp
      next
        case False
        with w(2) have l': "l' = drop n late" and "load_k k ?mem \<noteq> load_k k mem" by auto
        then have "n \<noteq> 0" by (cases n) auto
        with ne l' show ?thesis by simp
      qed
      moreover have "cond (load_k k (last (m' # l')))"
        using Cons.prems(1) unfolding w(1) last_drift [of mem late n] .
      ultimately show ?thesis
        using Cons.IH [of m' l'] Cons.prems(2) c Some p by (simp add: Let_def)
    qed
  qed
qed simp

text \<open>Remark: A conditional load returns only a value that was in memory and satisfies the condition; it
  falls asleep for good only if the last value ever written does not satisfy it; and if that one
  does, it returns after at most one round per write and one more.\<close>

theorem smp_cond_load_correct:
  "(\<forall>v m rest. smp_cond_load k cond sched mem late = Inr (Some (v, m, rest)) \<longrightarrow>
     cond v \<and> v = load_k k m \<and> m \<in> set (mem # late)) \<and>
   (smp_cond_load k cond sched mem late = Inr None \<longrightarrow> \<not> cond (load_k k (last (mem # late)))) \<and>
   (cond (load_k k (last (mem # late))) \<and> length late < length sched \<longrightarrow>
     (\<exists>r. smp_cond_load k cond sched mem late = Inr (Some r)))"
proof (intro conjI allI impI)
  fix v m rest assume r: "smp_cond_load k cond sched mem late = Inr (Some (v, m, rest))"
  note s = smp_cond_load_returns [OF r]
  show "cond v" by (rule s [THEN conjunct1])
  show "v = load_k k m" by (rule s [THEN conjunct2, THEN conjunct1])
  show "m \<in> set (mem # late)" by (rule s [THEN conjunct2, THEN conjunct2])
next
  assume "smp_cond_load k cond sched mem late = Inr None"
  then show "\<not> cond (load_k k (last (mem # late)))" by (rule smp_cond_load_asleep)
next
  assume "cond (load_k k (last (mem # late))) \<and> length late < length sched"
  then show "\<exists>r. smp_cond_load k cond sched mem late = Inr (Some r)"
    by (elim conjE) (rule smp_cond_load_terminates)
qed

theorem smp_cond_load_correct_witness:
  "\<exists>r. smp_cond_load 8 (\<lambda>v. v = 0) [0, 1, 0] 1 [0x101, 0x200] = Inr (Some r)"
proof -
  have "load_k 8 (last [1, 0x101, 0x200 :: u64]) = 0 \<and> length [0x101, 0x200 :: u64] < length [0, 1, 0 :: nat]"
    by code_simp
  then show ?thesis
    by (rule smp_cond_load_correct [THEN conjunct2, THEN conjunct2, rule_format])
qed

end
