(* ===== verification/QLayout.thy ===== *)
theory QLayout
  imports Prelude
begin

unbundle bit_operations_syntax

text \<open>
  The lock word of the queued spinlock: the union and the masks of
  \<open>src/qspinlock/include/qspinlock_types.h\<close>, the tail code and the stores to parts of the word of
  \<open>src/qspinlock/qspinlock.c\<close>, and the predicates on the value of \<open>src/qspinlock/qspinlock.h\<close>.

  The word is kept as the 32-bit value; the members of the union are its little-endian parts.
  \<open>mkw\<close> builds a word from a locked bit, a pending bit and a tail, and the lemmas say what every
  operation of the lock does to such words.
\<close>

subsection \<open>Masks\<close>

definition Q_SET_MASK :: "nat \<Rightarrow> nat \<Rightarrow> u32" where
  "Q_SET_MASK bits offset = push_bit offset (push_bit bits 1 - 1)"

definition Q_LOCKED_OFFSET :: nat where "Q_LOCKED_OFFSET = 0"
definition Q_LOCKED_BITS :: nat where "Q_LOCKED_BITS = 8"
definition Q_LOCKED_MASK :: u32 where "Q_LOCKED_MASK = Q_SET_MASK Q_LOCKED_BITS Q_LOCKED_OFFSET"
definition Q_PENDING_OFFSET :: nat where "Q_PENDING_OFFSET = Q_LOCKED_OFFSET + Q_LOCKED_BITS"
definition Q_PENDING_BITS :: nat where "Q_PENDING_BITS = 8"
definition Q_PENDING_MASK :: u32 where "Q_PENDING_MASK = Q_SET_MASK Q_PENDING_BITS Q_PENDING_OFFSET"
definition Q_TAIL_IDX_OFFSET :: nat where "Q_TAIL_IDX_OFFSET = Q_PENDING_OFFSET + Q_PENDING_BITS"
definition Q_TAIL_IDX_BITS :: nat where "Q_TAIL_IDX_BITS = 2"
definition Q_TAIL_IDX_MASK :: u32 where "Q_TAIL_IDX_MASK = Q_SET_MASK Q_TAIL_IDX_BITS Q_TAIL_IDX_OFFSET"
definition Q_TAIL_CPU_OFFSET :: nat where "Q_TAIL_CPU_OFFSET = Q_TAIL_IDX_OFFSET + Q_TAIL_IDX_BITS"
definition Q_TAIL_CPU_BITS :: nat where "Q_TAIL_CPU_BITS = 32 - Q_TAIL_CPU_OFFSET"
definition Q_TAIL_CPU_MASK :: u32 where "Q_TAIL_CPU_MASK = Q_SET_MASK Q_TAIL_CPU_BITS Q_TAIL_CPU_OFFSET"
definition Q_TAIL_OFFSET :: nat where "Q_TAIL_OFFSET = Q_TAIL_IDX_OFFSET"
definition Q_TAIL_MASK :: u32 where "Q_TAIL_MASK = Q_TAIL_IDX_MASK OR Q_TAIL_CPU_MASK"
definition Q_LOCKED_VAL :: u32 where "Q_LOCKED_VAL = push_bit Q_LOCKED_OFFSET 1"
definition Q_PENDING_VAL :: u32 where "Q_PENDING_VAL = push_bit Q_PENDING_OFFSET 1"
definition Q_LOCKED_PENDING_MASK :: u32 where "Q_LOCKED_PENDING_MASK = Q_LOCKED_MASK OR Q_PENDING_MASK"

lemmas Q_offsets = Q_LOCKED_OFFSET_def Q_LOCKED_BITS_def Q_PENDING_OFFSET_def Q_PENDING_BITS_def
  Q_TAIL_IDX_OFFSET_def Q_TAIL_IDX_BITS_def Q_TAIL_CPU_OFFSET_def Q_TAIL_CPU_BITS_def Q_TAIL_OFFSET_def

lemma Q_mask_values:
  "Q_LOCKED_MASK = 0xff" "Q_PENDING_MASK = 0xff00" "Q_TAIL_MASK = 0xffff0000"
  "Q_LOCKED_PENDING_MASK = 0xffff" "Q_LOCKED_VAL = 1" "Q_PENDING_VAL = 0x100"
  by (simp_all add: Q_LOCKED_MASK_def Q_PENDING_MASK_def Q_TAIL_MASK_def Q_TAIL_IDX_MASK_def Q_TAIL_CPU_MASK_def
      Q_LOCKED_PENDING_MASK_def Q_LOCKED_VAL_def Q_PENDING_VAL_def Q_SET_MASK_def Q_offsets)

subsection \<open>The members of the union\<close>

definition locked :: "u32 \<Rightarrow> u8" where "locked w = ucast w"
definition pending :: "u32 \<Rightarrow> u8" where "pending w = ucast (drop_bit 8 w)"
definition locked_pending :: "u32 \<Rightarrow> u16" where "locked_pending w = ucast w"
definition tail :: "u32 \<Rightarrow> u16" where "tail w = ucast (drop_bit 16 w)"

text \<open>A store to bits \<open>i\<close> to \<open>i + n - 1\<close> of the word.\<close>

definition put_field :: "nat \<Rightarrow> nat \<Rightarrow> u32 \<Rightarrow> u32 \<Rightarrow> u32" where
  "put_field i n v w = (w AND NOT (push_bit i (mask n))) OR push_bit i (take_bit n v)"

definition put_locked :: "u8 \<Rightarrow> u32 \<Rightarrow> u32" where "put_locked v w = put_field 0 8 (ucast v) w"
definition put_pending :: "u8 \<Rightarrow> u32 \<Rightarrow> u32" where "put_pending v w = put_field 8 8 (ucast v) w"
definition put_locked_pending :: "u16 \<Rightarrow> u32 \<Rightarrow> u32" where
  "put_locked_pending v w = put_field 0 16 (ucast v) w"
definition put_tail :: "u16 \<Rightarrow> u32 \<Rightarrow> u32" where "put_tail v w = put_field 16 16 (ucast v) w"

subsection \<open>The tail code\<close>

definition MAX_USER_THREADS :: nat where "MAX_USER_THREADS = 64"

definition encode_tail :: "nat \<Rightarrow> u32" where
  "encode_tail thread_index = push_bit Q_TAIL_CPU_OFFSET (of_nat (thread_index + 1))"

text \<open>\<open>decode_tail\<close>; \<open>None\<close> is the failing assertion.\<close>

definition decode_tail :: "u32 \<Rightarrow> nat option" where
  "decode_tail t =
     (let thread_index = drop_bit Q_TAIL_CPU_OFFSET t - 1 in
      if unat thread_index < MAX_USER_THREADS then Some (unat thread_index) else None)"

subsection \<open>Operations on the word\<close>

definition clear_pending :: "u32 \<Rightarrow> u32" where
  "clear_pending w = put_pending 0 w"

definition clear_pending_set_locked :: "u32 \<Rightarrow> u32" where
  "clear_pending_set_locked w = put_locked_pending (ucast Q_LOCKED_VAL) w"

definition set_locked :: "u32 \<Rightarrow> u32" where
  "set_locked w = put_locked (ucast Q_LOCKED_VAL) w"

text \<open>\<open>xchg_tail\<close>: the previous tail code word and the new lock word.\<close>

definition xchg_tail :: "u32 \<Rightarrow> u32 \<Rightarrow> u32 \<times> u32" where
  "xchg_tail code w = (push_bit Q_TAIL_OFFSET (ucast (tail w)), put_tail (ucast (drop_bit Q_TAIL_OFFSET code)) w)"

text \<open>\<open>queued_fetch_set_pending_acquire\<close>: the previous and the new lock word.\<close>

definition queued_fetch_set_pending :: "u32 \<Rightarrow> u32 \<times> u32" where
  "queued_fetch_set_pending w = (w, w OR Q_PENDING_VAL)"

definition queued_spin_is_locked :: "u32 \<Rightarrow> bool" where
  "queued_spin_is_locked w \<longleftrightarrow> w \<noteq> 0"

definition queued_spin_value_unlocked :: "u32 \<Rightarrow> bool" where
  "queued_spin_value_unlocked w \<longleftrightarrow> w = 0"

definition queued_spin_is_contended :: "u32 \<Rightarrow> bool" where
  "queued_spin_is_contended w \<longleftrightarrow> w AND NOT Q_LOCKED_MASK \<noteq> 0"

text \<open>\<open>queued_spin_unlock\<close>: the byte store.\<close>

definition queued_spin_unlock :: "u32 \<Rightarrow> u32" where
  "queued_spin_unlock w = put_locked 0 w"

text \<open>What the dump of \<open>test.c\<close> prints as the tail's thread.\<close>

definition tail_thread_index :: "u32 \<Rightarrow> int" where
  "tail_thread_index w = uint (drop_bit Q_TAIL_IDX_BITS (tail w)) - 1"

subsection \<open>Words of a lock\<close>

definition mkw :: "bool \<Rightarrow> bool \<Rightarrow> nat option \<Rightarrow> u32" where
  "mkw l p t = (if l then 1 else 0) OR (if p then push_bit 8 1 else 0) OR
     (case t of None \<Rightarrow> 0 | Some i \<Rightarrow> encode_tail i)"

lemma bit_encode_tail: "bit (encode_tail i) n \<longleftrightarrow> 18 \<le> n \<and> n < 32 \<and> bit (i + 1) (n - 18)"
  by (auto simp: encode_tail_def Q_offsets bit_simps simp del: of_nat_add of_nat_Suc)

definition tail_bit :: "nat option \<Rightarrow> nat \<Rightarrow> bool" where
  "tail_bit t n \<longleftrightarrow> (case t of None \<Rightarrow> False | Some i \<Rightarrow> bit (encode_tail i) n)"

lemma tail_bit_range: "tail_bit t n \<Longrightarrow> 18 \<le> n \<and> n < 32"
  by (auto simp: tail_bit_def bit_encode_tail split: option.splits)

lemma tail_bit_low: "n < 18 \<Longrightarrow> \<not> tail_bit t n"
  using tail_bit_range [of t n] by auto

lemma bit_256: "bit (256 :: u32) n \<longleftrightarrow> n = 8" "bit (256 :: int) n \<longleftrightarrow> n = 8"
proof -
  have "(256 :: u32) = 2 ^ 8" "(256 :: int) = 2 ^ 8" by simp_all
  then show "bit (256 :: u32) n \<longleftrightarrow> n = 8" "bit (256 :: int) n \<longleftrightarrow> n = 8"
    by (simp_all only: bit_exp_iff possible_bit_word possible_bit_def) auto
qed

lemma bit_mkw: "bit (mkw l p t) n \<longleftrightarrow> n = 0 \<and> l \<or> n = 8 \<and> p \<or> tail_bit t n"
  by (auto simp: mkw_def tail_bit_def bit_simps bit_1_iff bit_256 split: option.splits)

text \<open>Tails of threads that exist.\<close>

definition valid_tail :: "nat option \<Rightarrow> bool" where
  "valid_tail t \<longleftrightarrow> (case t of None \<Rightarrow> True | Some i \<Rightarrow> i < MAX_USER_THREADS)"

lemma unat_index: "i < 16383 \<Longrightarrow> unat (of_nat (i + 1) :: u32) = i + 1"
  by (simp add: unat_of_nat del: of_nat_add of_nat_Suc)

lemma drop_encode_tail:
  assumes "i < 16383"
  shows "drop_bit Q_TAIL_CPU_OFFSET (encode_tail i) = of_nat (i + 1)"
proof (rule bit_word_eqI)
  fix n assume n: "n < LENGTH(32)"
  have "take_bit 14 (i + 1) = i + 1"
    using assms by (intro take_bit_nat_eq_self) simp
  then have "bit (i + 1) n \<Longrightarrow> n < 14"
    by (metis bit_take_bit_iff)
  with n show "bit (drop_bit Q_TAIL_CPU_OFFSET (encode_tail i)) n \<longleftrightarrow> bit (of_nat (i + 1) :: u32) n"
    by (auto simp: bit_encode_tail bit_drop_bit_eq Q_offsets bit_of_nat_iff simp del: of_nat_add of_nat_Suc)
qed

lemma decode_raw:
  assumes "i < 16383"
  shows "unat (drop_bit Q_TAIL_CPU_OFFSET (encode_tail i) - 1) = i"
proof -
  have "(of_nat (i + 1) - 1 :: u32) = of_nat i" by simp
  then show ?thesis
    using assms by (simp only: drop_encode_tail) (simp add: unat_of_nat)
qed

lemma decode_encode_tail: "i < MAX_USER_THREADS \<Longrightarrow> decode_tail (encode_tail i) = Some i"
  by (simp add: decode_tail_def decode_raw MAX_USER_THREADS_def)

lemma encode_tail_inj: "i < 16383 \<Longrightarrow> j < 16383 \<Longrightarrow> encode_tail i = encode_tail j \<Longrightarrow> i = j"
  by (metis decode_raw)

lemma encode_tail_nonzero: "i < 16383 \<Longrightarrow> encode_tail i \<noteq> 0"
  using drop_encode_tail [of i] unat_index [of i] by force

lemma tail_bit_ex: "valid_tail t \<Longrightarrow> (\<exists>n. tail_bit t n) \<longleftrightarrow> t \<noteq> None"
proof (cases t)
  case (Some i)
  assume "valid_tail t"
  then have "encode_tail i \<noteq> 0"
    by (intro encode_tail_nonzero) (simp add: Some valid_tail_def MAX_USER_THREADS_def)
  then have "\<exists>n. bit (encode_tail i) n"
    by (metis bit_eqI bit_0_eq bot_apply bot_bool_def)
  then show ?thesis by (simp add: tail_bit_def Some)
qed (simp add: tail_bit_def)

lemma and_eq_0: "a AND b = 0 \<longleftrightarrow> (\<forall>n. bit a n \<longrightarrow> \<not> bit b n)" for a b :: u32
  using bit_imp_le_length [of a] by (auto simp: bit_eq_iff bit_and_iff)

lemma mask_bits_Q:
  "bit Q_LOCKED_MASK n \<longleftrightarrow> n < 8" "bit Q_PENDING_MASK n \<longleftrightarrow> 8 \<le> n \<and> n < 16"
  "bit Q_TAIL_MASK n \<longleftrightarrow> 16 \<le> n \<and> n < 32" "bit Q_LOCKED_PENDING_MASK n \<longleftrightarrow> n < 16"
proof -
  have m: "Q_LOCKED_MASK = mask 8" "Q_PENDING_MASK = push_bit 8 (mask 8)"
    "Q_TAIL_MASK = push_bit 16 (mask 16)" "Q_LOCKED_PENDING_MASK = mask 16"
    by (simp_all add: Q_mask_values mask_eq_exp_minus_1)
  show "bit Q_LOCKED_MASK n \<longleftrightarrow> n < 8" "bit Q_LOCKED_PENDING_MASK n \<longleftrightarrow> n < 16"
    by (simp_all only: m) (auto simp: bit_simps)
  show "bit Q_PENDING_MASK n \<longleftrightarrow> 8 \<le> n \<and> n < 16"
    unfolding m by (auto simp: bit_push_bit_iff bit_mask_iff)
  show "bit Q_TAIL_MASK n \<longleftrightarrow> 16 \<le> n \<and> n < 32"
    unfolding m by (auto simp: bit_push_bit_iff bit_mask_iff)
qed

lemma mkw_inj:
  assumes "valid_tail t" "valid_tail t'"
  shows "mkw l p t = mkw l' p' t' \<longleftrightarrow> l = l' \<and> p = p' \<and> t = t'"
proof
  assume eq: "mkw l p t = mkw l' p' t'"
  have b: "(n = 0 \<and> l \<or> n = 8 \<and> p \<or> tail_bit t n) = (n = 0 \<and> l' \<or> n = 8 \<and> p' \<or> tail_bit t' n)" for n
    unfolding bit_mkw [symmetric] eq ..
  have "l = l'" "p = p'"
    using b [of 0] b [of 8] by (simp_all add: tail_bit_low)
  have tb: "tail_bit t n = tail_bit t' n" for n
  proof (cases "18 \<le> n")
    case True
    then show ?thesis using b [of n] by simp
  next
    case False
    then show ?thesis by (simp add: tail_bit_low)
  qed
  have "(\<exists>n. tail_bit t n) \<longleftrightarrow> (\<exists>n. tail_bit t' n)"
    by (simp only: tb)
  then have none: "t = None \<longleftrightarrow> t' = None"
    unfolding tail_bit_ex [OF assms(1)] tail_bit_ex [OF assms(2)] by blast
  have "t = t'"
  proof (cases t)
    case None
    then show ?thesis using none by simp
  next
    case i: (Some i)
    then obtain j where j: "t' = Some j" using none by auto
    have "bit (encode_tail i) n = bit (encode_tail j) n" for n
      using tb [of n] by (simp add: tail_bit_def i j)
    then have "encode_tail i = encode_tail j"
      by (intro bit_word_eqI)
    moreover have "i < 16383" "j < 16383"
      using assms by (simp_all add: i j valid_tail_def MAX_USER_THREADS_def)
    ultimately show ?thesis
      using encode_tail_inj i j by blast
  qed
  with \<open>l = l'\<close> \<open>p = p'\<close> show "l = l' \<and> p = p' \<and> t = t'" by simp
qed simp

lemma mkw_values:
  "mkw False False None = 0" "mkw True False None = Q_LOCKED_VAL" "mkw False True None = Q_PENDING_VAL"
  "mkw False False (Some i) = encode_tail i"
  by (simp_all add: mkw_def Q_mask_values)

lemma mkw_tests:
  assumes "valid_tail t"
  shows "mkw l p t = 0 \<longleftrightarrow> \<not> l \<and> \<not> p \<and> t = None"
    and "mkw l p t = Q_PENDING_VAL \<longleftrightarrow> \<not> l \<and> p \<and> t = None"
    and "mkw l p t AND NOT Q_LOCKED_MASK = 0 \<longleftrightarrow> \<not> p \<and> t = None"
    and "mkw l p t AND Q_PENDING_MASK = 0 \<longleftrightarrow> \<not> p"
    and "mkw l p t AND Q_LOCKED_MASK = 0 \<longleftrightarrow> \<not> l"
    and "mkw l p t AND Q_LOCKED_PENDING_MASK = 0 \<longleftrightarrow> \<not> l \<and> \<not> p"
    and "mkw l p t AND Q_TAIL_MASK = mkw False False t"
proof -
  have v: "valid_tail None" by (simp add: valid_tail_def)
  show "mkw l p t = 0 \<longleftrightarrow> \<not> l \<and> \<not> p \<and> t = None"
    by (simp add: mkw_inj [OF assms v] flip: mkw_values(1))
  show "mkw l p t = Q_PENDING_VAL \<longleftrightarrow> \<not> l \<and> p \<and> t = None"
    by (simp add: mkw_inj [OF assms v] flip: mkw_values(3))
  have "mkw l p t AND NOT Q_LOCKED_MASK = 0 \<longleftrightarrow> \<not> (p \<or> (\<exists>n. tail_bit t n))"
  proof -
    have "tail_bit t n \<Longrightarrow> bit (NOT Q_LOCKED_MASK) n" "bit (NOT Q_LOCKED_MASK) 8" "\<not> bit (NOT Q_LOCKED_MASK) 0" for n
      using tail_bit_range [of t n] by (auto simp: bit_not_iff mask_bits_Q)
    then show ?thesis by (auto simp: and_eq_0 bit_mkw)
  qed
  then show "mkw l p t AND NOT Q_LOCKED_MASK = 0 \<longleftrightarrow> \<not> p \<and> t = None"
    using tail_bit_ex [OF assms] by simp
  show "mkw l p t AND Q_PENDING_MASK = 0 \<longleftrightarrow> \<not> p"
    by (auto simp: and_eq_0 mask_bits_Q bit_mkw dest: tail_bit_range)
  show "mkw l p t AND Q_LOCKED_MASK = 0 \<longleftrightarrow> \<not> l"
    by (auto simp: and_eq_0 mask_bits_Q bit_mkw dest: tail_bit_range)
  show "mkw l p t AND Q_LOCKED_PENDING_MASK = 0 \<longleftrightarrow> \<not> l \<and> \<not> p"
    by (auto simp: and_eq_0 mask_bits_Q bit_mkw dest: tail_bit_range)
  show "mkw l p t AND Q_TAIL_MASK = mkw False False t"
    by (rule bit_word_eqI) (auto simp: bit_and_iff mask_bits_Q bit_mkw dest: tail_bit_range)
qed

lemma bit_put_field:
  "bit (put_field i n v w) m \<longleftrightarrow> m < 32 \<and> (if i \<le> m \<and> m < i + n then bit v (m - i) else bit w m)"
  by (auto simp: put_field_def bit_simps dest: bit_imp_le_length)

lemma mkw_stores:
  "clear_pending (mkw l p t) = mkw l False t"
  "clear_pending_set_locked (mkw l p t) = mkw True False t"
  "set_locked (mkw l p t) = mkw True p t"
  "queued_spin_unlock (mkw l p t) = mkw False p t"
  "queued_fetch_set_pending (mkw l p t) = (mkw l p t, mkw l True t)"
proof -
  have one: "bit Q_LOCKED_VAL n \<longleftrightarrow> n = 0" "bit Q_PENDING_VAL n \<longleftrightarrow> n = 8" for n
    by (auto simp: Q_LOCKED_VAL_def Q_PENDING_VAL_def Q_offsets bit_simps bit_1_iff bit_256)
  show "clear_pending (mkw l p t) = mkw l False t"
    by (rule bit_word_eqI) (auto simp: clear_pending_def put_pending_def bit_put_field bit_mkw dest: tail_bit_range)
  show "clear_pending_set_locked (mkw l p t) = mkw True False t"
    by (rule bit_word_eqI) (auto simp: clear_pending_set_locked_def put_locked_pending_def bit_put_field bit_mkw
        bit_ucast_iff one dest: tail_bit_range)
  show "set_locked (mkw l p t) = mkw True p t"
    by (rule bit_word_eqI) (auto simp: set_locked_def put_locked_def bit_put_field bit_mkw
        bit_ucast_iff one dest: tail_bit_range)
  show "queued_spin_unlock (mkw l p t) = mkw False p t"
    by (rule bit_word_eqI) (auto simp: queued_spin_unlock_def put_locked_def bit_put_field bit_mkw dest: tail_bit_range)
  show "queued_fetch_set_pending (mkw l p t) = (mkw l p t, mkw l True t)"
    by (auto simp: queued_fetch_set_pending_def bit_eq_iff bit_or_iff one bit_mkw)
qed

lemma mkw_xchg_tail:
  "xchg_tail (encode_tail i) (mkw l p t) = (mkw False False t, mkw l p (Some i))"
proof -
  have "push_bit Q_TAIL_OFFSET (ucast (tail (mkw l p t))) = mkw False False t"
  proof (rule bit_word_eqI)
    fix n assume "n < LENGTH(32)"
    then show "bit (push_bit Q_TAIL_OFFSET (ucast (tail (mkw l p t))) :: u32) n = bit (mkw False False t) n"
      using tail_bit_range [of t n]
      by (cases "16 \<le> n") (auto simp: bit_mkw Q_offsets tail_def bit_simps)
  qed
  moreover have "put_tail (ucast (drop_bit Q_TAIL_OFFSET (encode_tail i))) (mkw l p t) = mkw l p (Some i)"
    by (rule bit_word_eqI)
      (auto simp: bit_mkw Q_offsets put_tail_def bit_put_field bit_simps tail_bit_def bit_encode_tail
        dest: tail_bit_range split: option.splits)
  ultimately show ?thesis by (simp add: xchg_tail_def)
qed

lemma tail_thread_index_mkw:
  assumes "valid_tail t"
  shows "tail_thread_index (mkw l p t) = (case t of None \<Rightarrow> - 1 | Some i \<Rightarrow> int i)"
proof -
  have tl: "bit (drop_bit 2 (tail (mkw l p t))) n \<longleftrightarrow> n + 18 < 32 \<and> tail_bit t (n + 18)" for n
    by (auto simp: tail_def bit_simps bit_mkw ac_simps)
  show ?thesis
  proof (cases t)
    case None
    then have "drop_bit 2 (tail (mkw l p t)) = 0"
      by (intro bit_word_eqI) (simp add: tl [unfolded None] tail_bit_def)
    then show ?thesis by (simp add: tail_thread_index_def Q_offsets None)
  next
    case (Some i)
    then have i: "i < 64"
      using assms by (simp add: valid_tail_def MAX_USER_THREADS_def)
    then have "take_bit 14 (i + 1) = i + 1"
      by (intro take_bit_nat_eq_self) simp
    then have up: "bit (i + 1) m \<Longrightarrow> m < 14" for m
      by (metis bit_take_bit_iff)
    have "drop_bit 2 (tail (mkw l p t)) = of_nat (i + 1)"
    proof (rule bit_word_eqI)
      fix n assume "n < LENGTH(16)"
      then show "bit (drop_bit 2 (tail (mkw l p t))) n \<longleftrightarrow> bit (of_nat (i + 1) :: u16) n"
        unfolding tl using up [of n] by (auto simp: tail_bit_def Some bit_encode_tail bit_of_nat_iff
          simp del: of_nat_add of_nat_Suc)
    qed
    then have "tail_thread_index (mkw l p t) = uint (of_nat (i + 1) :: u16) - 1"
      by (simp only: tail_thread_index_def Q_offsets)
    also have "uint (of_nat (i + 1) :: u16) = int (i + 1)"
      using i by (simp only: uint_nat unat_of_nat) simp
    finally show ?thesis by (simp add: Some)
  qed
qed

subsection \<open>Properties\<close>

text \<open>Remark: The tail code names its thread: decoding inverts encoding for every thread that may exist (up
  to 16383 of them), no code is the empty tail, the assertion of \<open>decode_tail\<close> holds for the
  threads of the build, and the thread index is the first one whose code is the empty tail at 16383.\<close>

theorem tail_code_roundtrip:
  "(\<forall>i<16383. unat (drop_bit Q_TAIL_CPU_OFFSET (encode_tail i) - 1) = i \<and> encode_tail i \<noteq> 0) \<and>
   (\<forall>i<MAX_USER_THREADS. decode_tail (encode_tail i) = Some i) \<and>
   encode_tail 16383 = 0"
proof -
  have "encode_tail 16383 = 0" by code_simp
  then show ?thesis
    by (auto simp: decode_raw encode_tail_nonzero decode_encode_tail)
qed

theorem tail_code_roundtrip_witness:
  "unat (drop_bit Q_TAIL_CPU_OFFSET (encode_tail 5) - 1) = 5"
  using tail_code_roundtrip by simp

text \<open>Remark: Each operation on the lock word does what the state triples of the comments say, and nothing
  else: for a word with locked bit, pending bit and the tail of an existing thread, setting pending,
  clearing it, taking ownership, setting locked, unlocking and exchanging the tail change exactly
  their members, and the exchange returns the previous tail code; the dump prints the thread.\<close>

theorem lock_word_operations:
  assumes "valid_tail t"
  shows "queued_fetch_set_pending (mkw l p t) = (mkw l p t, mkw l True t) \<and>
     clear_pending (mkw l p t) = mkw l False t \<and>
     clear_pending_set_locked (mkw l p t) = mkw True False t \<and>
     set_locked (mkw l p t) = mkw True p t \<and>
     queued_spin_unlock (mkw l p t) = mkw False p t \<and>
     xchg_tail (encode_tail i) (mkw l p t) = (mkw l p t AND Q_TAIL_MASK, mkw l p (Some i)) \<and>
     (queued_spin_is_locked (mkw l p t) \<longleftrightarrow> l \<or> p \<or> t \<noteq> None) \<and>
     (queued_spin_value_unlocked (mkw l p t) \<longleftrightarrow> \<not> l \<and> \<not> p \<and> t = None) \<and>
     (queued_spin_is_contended (mkw l p t) \<longleftrightarrow> p \<or> t \<noteq> None) \<and>
     tail_thread_index (mkw l p t) = (case t of None \<Rightarrow> - 1 | Some i \<Rightarrow> int i)"
  using assms
  by (auto simp: mkw_stores mkw_xchg_tail mkw_tests tail_thread_index_mkw queued_spin_is_locked_def
      queued_spin_value_unlocked_def queued_spin_is_contended_def)

theorem lock_word_operations_witness:
  "xchg_tail (encode_tail 7) (mkw True False (Some 3)) = (encode_tail 3, mkw True False (Some 7)) \<and>
   tail_thread_index (mkw True False (Some 3)) = 3"
  using lock_word_operations [of "Some 3" True False 7]
  by (simp add: valid_tail_def MAX_USER_THREADS_def mkw_tests mkw_values)

end
