(* ===== verification/QSpinlock.thy ===== *)
theory QSpinlock
  imports QLayout
begin

unbundle bit_operations_syntax

text \<open>
  The queued spinlock of \<open>src/qspinlock/qspinlock.c\<close> and \<open>qspinlock.h\<close>, run by up to
  \<open>MAX_USER_THREADS\<close> threads that interleave at every access to shared memory.

  A thread's program counter names the next shared access and carries its live local variables
  (\<open>val\<close>, \<open>old\<close>, \<open>next\<close>, the spin count). \<open>exec i\<close> performs one access of thread \<open>i\<close>, with the
  branches the code takes on its result; a wait loop whose condition does not hold leaves the
  state as it is. The accesses are sequentially consistent.
\<close>

subsection \<open>State\<close>

record qnode =
  next_node :: "nat option"
  nlocked :: nat
  count :: nat

datatype pc =
    Idle
  | PendWait nat \<comment> \<open>the bounded wait for a hand-over, with \<open>cnt\<close>\<close>
  | SetPending
  | ClearPending
  | WaitLocked
  | TakeOwner
  | NodeGrab
  | NodeInitLocked
  | NodeInitNext
  | TryRead
  | TryCas
  | XchgTail
  | Link u32 \<comment> \<open>\<open>old\<close>\<close>
  | WaitNode
  | ReadNext
  | WaitHead "nat option" \<comment> \<open>\<open>next\<close>\<close>
  | HeadTry "nat option" u32 \<comment> \<open>\<open>next\<close>, \<open>val\<close>\<close>
  | SetLocked "nat option"
  | WaitNext
  | Handoff nat
  | ReleaseNode
  | Crit
  | Aborted

record qstate =
  lockw :: u32
  node :: "nat \<Rightarrow> qnode"
  pc :: "nat \<Rightarrow> pc"

definition goto :: "nat \<Rightarrow> pc \<Rightarrow> qstate \<Rightarrow> qstate" where
  "goto i p s = s\<lparr>pc := (pc s)(i := p)\<rparr>"

definition set_word :: "u32 \<Rightarrow> qstate \<Rightarrow> qstate" where
  "set_word w s = s\<lparr>lockw := w\<rparr>"

definition upd_node :: "nat \<Rightarrow> (qnode \<Rightarrow> qnode) \<Rightarrow> qstate \<Rightarrow> qstate" where
  "upd_node i f s = s\<lparr>node := (node s)(i := f (node s i))\<rparr>"

definition Q_PENDING_LOOPS :: nat where "Q_PENDING_LOOPS = 1"

subsection \<open>One shared access\<close>

text \<open>Where the slow path goes with the value it has: to the queue, or on to the pending bit.\<close>

definition contention :: "u32 \<Rightarrow> pc" where
  "contention val = (if val AND NOT Q_LOCKED_MASK \<noteq> 0 then NodeGrab else SetPending)"

definition slow_entry :: "u32 \<Rightarrow> pc" where
  "slow_entry val = (if val = Q_PENDING_VAL then PendWait Q_PENDING_LOOPS else contention val)"

definition after_set_pending :: "u32 \<Rightarrow> pc" where
  "after_set_pending val =
     (if val AND NOT Q_LOCKED_MASK \<noteq> 0
      then (if val AND Q_PENDING_MASK = 0 then ClearPending else NodeGrab)
      else if val AND Q_LOCKED_MASK \<noteq> 0 then WaitLocked else TakeOwner)"

definition exec :: "nat \<Rightarrow> qstate \<Rightarrow> qstate" where
  "exec i s =
     (case pc s i of
       Idle \<Rightarrow>
         if lockw s = 0 then goto i Crit (set_word Q_LOCKED_VAL s)
         else goto i (slow_entry (lockw s)) s
     | PendWait cnt \<Rightarrow>
         if lockw s \<noteq> Q_PENDING_VAL \<or> cnt = 0 then goto i (contention (lockw s)) s
         else goto i (PendWait (cnt - 1)) s
     | SetPending \<Rightarrow>
         let (val, w) = queued_fetch_set_pending (lockw s) in goto i (after_set_pending val) (set_word w s)
     | ClearPending \<Rightarrow> goto i NodeGrab (set_word (clear_pending (lockw s)) s)
     | WaitLocked \<Rightarrow> if lockw s AND Q_LOCKED_MASK = 0 then goto i TakeOwner s else s
     | TakeOwner \<Rightarrow> goto i Crit (set_word (clear_pending_set_locked (lockw s)) s)
     | NodeGrab \<Rightarrow>
         let idx = count (node s i); s = upd_node i (count_update Suc) s
         in goto i (if idx \<ge> 1 then Aborted else NodeInitLocked) s
     | NodeInitLocked \<Rightarrow> goto i NodeInitNext (upd_node i (nlocked_update (\<lambda>_. 0)) s)
     | NodeInitNext \<Rightarrow> goto i TryRead (upd_node i (next_node_update (\<lambda>_. None)) s)
     | TryRead \<Rightarrow> goto i (if lockw s \<noteq> 0 then XchgTail else TryCas) s
     | TryCas \<Rightarrow>
         if lockw s = 0 then goto i ReleaseNode (set_word Q_LOCKED_VAL s) else goto i XchgTail s
     | XchgTail \<Rightarrow>
         let (old, w) = xchg_tail (encode_tail i) (lockw s)
         in goto i (if old AND Q_TAIL_MASK \<noteq> 0 then Link old else WaitHead None) (set_word w s)
     | Link old \<Rightarrow>
         (case decode_tail old of
           None \<Rightarrow> goto i Aborted s
         | Some prev \<Rightarrow> goto i WaitNode (upd_node prev (next_node_update (\<lambda>_. Some i)) s))
     | WaitNode \<Rightarrow> if nlocked (node s i) \<noteq> 0 then goto i ReadNext s else s
     | ReadNext \<Rightarrow> goto i (WaitHead (next_node (node s i))) s
     | WaitHead n \<Rightarrow>
         if lockw s AND Q_LOCKED_PENDING_MASK = 0
         then goto i (if lockw s AND Q_TAIL_MASK = encode_tail i then HeadTry n (lockw s) else SetLocked n) s
         else s
     | HeadTry n val \<Rightarrow>
         if lockw s = val then goto i ReleaseNode (set_word Q_LOCKED_VAL s) else goto i (SetLocked n) s
     | SetLocked n \<Rightarrow>
         goto i (case n of None \<Rightarrow> WaitNext | Some j \<Rightarrow> Handoff j) (set_word (set_locked (lockw s)) s)
     | WaitNext \<Rightarrow> (case next_node (node s i) of None \<Rightarrow> s | Some j \<Rightarrow> goto i (Handoff j) s)
     | Handoff j \<Rightarrow> goto i ReleaseNode (upd_node j (nlocked_update (\<lambda>_. 1)) s)
     | ReleaseNode \<Rightarrow> goto i Crit (upd_node i (count_update (\<lambda>c. c - 1)) s)
     | Crit \<Rightarrow> goto i Idle (set_word (queued_spin_unlock (lockw s)) s)
     | Aborted \<Rightarrow> s)"

definition qinit :: qstate where
  "qinit = \<lparr>lockw = 0, node = (\<lambda>_. \<lparr>next_node = None, nlocked = 0, count = 0\<rparr>), pc = (\<lambda>_. Idle)\<rparr>"

inductive qstep :: "qstate \<Rightarrow> qstate \<Rightarrow> bool" where
  access: "i < MAX_USER_THREADS \<Longrightarrow> qstep s (exec i s)"

inductive_cases qstepE: "qstep s t"

subsection \<open>Phases of a thread\<close>

fun owns :: "pc \<Rightarrow> bool" where
  "owns Crit = True" | "owns ReleaseNode = True" | "owns WaitNext = True" | "owns (Handoff _) = True"
| "owns _ = False"

fun pends :: "pc \<Rightarrow> bool" where
  "pends ClearPending = True" | "pends WaitLocked = True" | "pends TakeOwner = True" | "pends _ = False"

fun first_waiter :: "pc \<Rightarrow> bool" where
  "first_waiter WaitLocked = True" | "first_waiter TakeOwner = True" | "first_waiter _ = False"

fun claims :: "pc \<Rightarrow> bool" where
  "claims (HeadTry _ _) = True" | "claims (SetLocked _) = True" | "claims _ = False"

fun waits_behind :: "pc \<Rightarrow> bool" where
  "waits_behind (Link _) = True" | "waits_behind WaitNode = True" | "waits_behind _ = False"

fun is_head :: "pc \<Rightarrow> bool" where
  "is_head WaitNode = True" | "is_head ReadNext = True" | "is_head (WaitHead _) = True"
| "is_head (HeadTry _ _) = True" | "is_head (SetLocked _) = True" | "is_head WaitNext = True"
| "is_head (Handoff _) = True" | "is_head _ = False"

definition queued :: "pc \<Rightarrow> bool" where
  "queued p \<longleftrightarrow> waits_behind p \<or> is_head p"

text \<open>The successor a queue head has in a local variable, if any.\<close>

fun local_next :: "pc \<Rightarrow> nat option" where
  "local_next (WaitHead n) = n" | "local_next (HeadTry n _) = n" | "local_next (SetLocked n) = n"
| "local_next (Handoff j) = Some j" | "local_next _ = None"

fun node_taken :: "pc \<Rightarrow> bool" where
  "node_taken Idle = False" | "node_taken (PendWait _) = False" | "node_taken SetPending = False"
| "node_taken ClearPending = False" | "node_taken WaitLocked = False" | "node_taken TakeOwner = False"
| "node_taken NodeGrab = False" | "node_taken Crit = False" | "node_taken _ = True"

text \<open>Threads that are sure to reach the queue.\<close>

fun coming :: "pc \<Rightarrow> bool" where
  "coming ClearPending = True" | "coming NodeGrab = True" | "coming NodeInitLocked = True"
| "coming NodeInitNext = True" | "coming TryRead = True" | "coming TryCas = True" | "coming XchgTail = True"
| "coming _ = False"

subsection \<open>Invariant\<close>

definition tail_of :: "nat list \<Rightarrow> nat option" where
  "tail_of q = (if q = [] then None else Some (last q))"

text \<open>The word says who owns the lock, whether someone holds the pending byte, and the queue's end.\<close>

definition word_inv :: "nat list \<Rightarrow> u32 \<Rightarrow> (nat \<Rightarrow> pc) \<Rightarrow> bool" where
  "word_inv q w f \<longleftrightarrow> (\<exists>ow pe. w = mkw (ow \<noteq> None) (pe \<noteq> None) (tail_of q) \<and>
     (\<forall>i. owns (f i) \<longleftrightarrow> ow = Some i) \<and> (\<forall>i. pends (f i) \<longleftrightarrow> pe = Some i) \<and>
     (\<forall>i. f i = TakeOwner \<longrightarrow> ow = None) \<and>
     (\<forall>i. claims (f i) \<longrightarrow> ow = None \<and> (\<forall>j. \<not> first_waiter (f j))))"

text \<open>The queue: each node but the last points to its successor once that one has linked itself,
  and everyone behind the head waits with a cleared flag.\<close>

fun chain :: "(nat \<Rightarrow> pc) \<Rightarrow> (nat \<Rightarrow> qnode) \<Rightarrow> nat list \<Rightarrow> bool" where
  "chain f nd [] \<longleftrightarrow> True"
| "chain f nd [i] \<longleftrightarrow> next_node (nd i) = None"
| "chain f nd (i # j # q) \<longleftrightarrow>
     waits_behind (f j) \<and> nlocked (nd j) = 0 \<and>
     (case f j of Link old \<Rightarrow> old = encode_tail i \<and> next_node (nd i) = None | _ \<Rightarrow> next_node (nd i) = Some j) \<and>
     chain f nd (j # q)"

definition head_inv :: "(nat \<Rightarrow> pc) \<Rightarrow> (nat \<Rightarrow> qnode) \<Rightarrow> nat list \<Rightarrow> bool" where
  "head_inv f nd q \<longleftrightarrow>
     (case q of [] \<Rightarrow> True
      | h # r \<Rightarrow> is_head (f h) \<and> (f h = WaitNode \<longrightarrow> nlocked (nd h) \<noteq> 0) \<and>
          (\<forall>j. local_next (f h) = Some j \<longrightarrow> next_node (nd h) = Some j) \<and>
          (\<forall>n v. f h = HeadTry n v \<longrightarrow> v = encode_tail h))"

definition queue_inv :: "nat list \<Rightarrow> (nat \<Rightarrow> pc) \<Rightarrow> (nat \<Rightarrow> qnode) \<Rightarrow> bool" where
  "queue_inv q f nd \<longleftrightarrow> distinct q \<and> (\<forall>i. queued (f i) \<longleftrightarrow> i \<in> set q) \<and> chain f nd q \<and> head_inv f nd q"

definition thread_inv :: "nat \<Rightarrow> pc \<Rightarrow> qnode \<Rightarrow> bool" where
  "thread_inv i p nd \<longleftrightarrow> p \<noteq> Aborted \<and> (p \<noteq> Idle \<longrightarrow> i < MAX_USER_THREADS) \<and>
     count nd = (if node_taken p then 1 else 0) \<and>
     (p \<in> {NodeInitNext, TryRead, TryCas, XchgTail} \<longrightarrow> nlocked nd = 0) \<and>
     (p \<in> {TryRead, TryCas, XchgTail} \<longrightarrow> next_node nd = None)"

text \<open>A head that gave up clearing the tail will get a successor.\<close>

definition succ_inv :: "nat list \<Rightarrow> (nat \<Rightarrow> pc) \<Rightarrow> bool" where
  "succ_inv q f \<longleftrightarrow> (\<forall>h. q = [h] \<and> (f h = WaitNext \<or> (\<exists>n. f h = SetLocked n)) \<longrightarrow> (\<exists>j. coming (f j)))"

definition parts_inv :: "nat list \<Rightarrow> u32 \<Rightarrow> (nat \<Rightarrow> pc) \<Rightarrow> (nat \<Rightarrow> qnode) \<Rightarrow> bool" where
  "parts_inv q w f nd \<longleftrightarrow> word_inv q w f \<and> queue_inv q f nd \<and> (\<forall>i. thread_inv i (f i) (nd i)) \<and> succ_inv q f"

definition qinv :: "nat list \<Rightarrow> qstate \<Rightarrow> bool" where
  "qinv q s \<longleftrightarrow> parts_inv q (lockw s) (pc s) (node s)"

subsection \<open>Frame lemmas\<close>

lemmas exec_updates = goto_def set_word_def upd_node_def

lemma owns_iff: "owns p \<longleftrightarrow> p = Crit \<or> p = ReleaseNode \<or> p = WaitNext \<or> (\<exists>j. p = Handoff j)"
  by (cases p) auto

lemma pends_iff: "pends p \<longleftrightarrow> p = ClearPending \<or> p = WaitLocked \<or> p = TakeOwner"
  by (cases p) auto

lemma first_waiter_iff: "first_waiter p \<longleftrightarrow> p = WaitLocked \<or> p = TakeOwner"
  by (cases p) auto

lemma claims_iff: "claims p \<longleftrightarrow> (\<exists>n v. p = HeadTry n v) \<or> (\<exists>n. p = SetLocked n)"
  by (cases p) auto

lemma claims_queued: "claims p \<Longrightarrow> queued p"
  by (cases p) (auto simp: queued_def)

text \<open>Steps that change neither the word nor the phase that the word records.\<close>

lemma word_frame:
  assumes "word_inv q w f" "owns p = owns (f i)" "pends p = pends (f i)"
    and "p = TakeOwner \<longrightarrow> f i = TakeOwner" "claims p \<longrightarrow> claims (f i)" "first_waiter p \<longrightarrow> first_waiter (f i)"
  shows "word_inv q w (f(i := p))"
proof -
  from assms(1) obtain ow pe where w: "w = mkw (ow \<noteq> None) (pe \<noteq> None) (tail_of q)"
    "\<forall>i. owns (f i) \<longleftrightarrow> ow = Some i" "\<forall>i. pends (f i) \<longleftrightarrow> pe = Some i"
    "\<forall>i. f i = TakeOwner \<longrightarrow> ow = None"
    "\<forall>i. claims (f i) \<longrightarrow> ow = None \<and> (\<forall>j. \<not> first_waiter (f j))"
    unfolding word_inv_def by blast
  show ?thesis
    unfolding word_inv_def
  proof (intro exI conjI)
    show "w = mkw (ow \<noteq> None) (pe \<noteq> None) (tail_of q)" by (rule w)
    show "\<forall>j. owns ((f(i := p)) j) \<longleftrightarrow> ow = Some j" using w(2) assms(2) by auto
    show "\<forall>j. pends ((f(i := p)) j) \<longleftrightarrow> pe = Some j" using w(3) assms(3) by auto
    show "\<forall>j. (f(i := p)) j = TakeOwner \<longrightarrow> ow = None" using w(4) assms(4) by auto
    show "\<forall>j. claims ((f(i := p)) j) \<longrightarrow> ow = None \<and> (\<forall>j. \<not> first_waiter ((f(i := p)) j))"
      using w(5) assms(5,6) by auto
  qed
qed

text \<open>The chain depends on the phase and flag of all nodes but the first, and on all links.\<close>

lemma chain_cong:
  "\<forall>j\<in>set (tl q). f j = f' j \<and> nlocked (nd j) = nlocked (nd' j) \<Longrightarrow>
   \<forall>j\<in>set q. next_node (nd j) = next_node (nd' j) \<Longrightarrow> chain f nd q \<longleftrightarrow> chain f' nd' q"
  by (induction f nd q rule: chain.induct) (auto split: pc.splits)

lemma chain_other:
  assumes "chain f nd q" "i \<notin> set q"
  shows "chain (f(i := p)) (nd(i := n)) q"
  using assms list.set_sel(2) [of q] by (subst chain_cong [of q _ f _ nd]) (cases "q = []"; auto)+

lemma chain_tl: "chain f nd (i # q) \<Longrightarrow> chain f nd q"
  by (cases q) auto

lemma chain_snoc:
  assumes "chain f nd q" "q \<noteq> []" "waits_behind (f j)" "nlocked (nd j) = 0" "next_node (nd j) = None"
    "f j = Link (encode_tail (last q))"
  shows "chain f nd (q @ [j])"
  using assms by (induction f nd q rule: chain.induct) auto

text \<open>A waiter links itself behind its predecessor.\<close>

lemma chain_link:
  assumes "chain f nd q" "distinct q" "k + 1 < length q" "f (q ! (k + 1)) = Link old"
  shows "old = encode_tail (q ! k) \<and> next_node (nd (q ! k)) = None \<and>
    chain (f(q ! (k + 1) := WaitNode)) (nd(q ! k := nd (q ! k)\<lparr>next_node := Some (q ! (k + 1))\<rparr>)) q"
  using assms
proof (induction f nd q arbitrary: k rule: chain.induct)
  case (3 f nd i j q)
  show ?case
  proof (cases k)
    case 0
    have "chain (f(j := WaitNode)) (nd(i := nd i\<lparr>next_node := Some j\<rparr>)) (j # q)"
      using 3 0 by (subst chain_cong [of _ _ f _ nd]) auto
    then show ?thesis using 3 0 by (auto simp: fun_upd_def)
  next
    case (Suc m)
    have m: "m + 1 < length (j # q)" "f ((j # q) ! (m + 1)) = Link old" "distinct (j # q)"
      using 3 Suc by auto
    have ne: "(j # q) ! (m + 1) \<noteq> j" "(j # q) ! m \<noteq> i"
      using m(1,3) 3(3) nth_mem [of m "j # q"] by auto
    note ih = 3(1) [OF _ m(3,1,2)]
    show ?thesis
      using 3(2) Suc ih ne by (auto split: pc.splits)
  qed
qed auto

lemma chain_waits: "chain f nd (h # q) \<Longrightarrow> \<forall>j\<in>set q. waits_behind (f j) \<and> nlocked (nd j) = 0"
  by (induction q arbitrary: h) auto

lemma chain_next: "chain f nd (h # q) \<Longrightarrow> next_node (nd h) = Some j \<Longrightarrow> \<exists>r. q = j # r \<and> f j = WaitNode"
  by (cases q) (auto split: pc.splits elim: waits_behind.elims)

subsection \<open>Two kinds of steps\<close>

lemma not_coming_queued: "queued p \<Longrightarrow> \<not> coming p"
  by (cases p) (auto simp: queued_def)

text \<open>A step of a thread outside the queue that touches only its own node.\<close>

lemma parts_local:
  assumes inv: "parts_inv q w f nd" and out: "\<not> queued (f i)" "\<not> queued p"
    and new: "word_inv q w' (f(i := p))" "thread_inv i p n" "coming (f i) \<longrightarrow> coming p \<or> q = []"
  shows "parts_inv q w' (f(i := p)) (nd(i := n))"
proof -
  from inv have qi: "queue_inv q f nd" and ti: "\<forall>i. thread_inv i (f i) (nd i)" and si: "succ_inv q f"
    by (auto simp: parts_inv_def)
  from qi out(1) have i: "i \<notin> set q" by (auto simp: queue_inv_def)
  have "queue_inv q (f(i := p)) (nd(i := n))"
    unfolding queue_inv_def
  proof (intro conjI)
    show "distinct q" using qi by (simp add: queue_inv_def)
    show "\<forall>j. queued ((f(i := p)) j) \<longleftrightarrow> j \<in> set q" using qi out i by (auto simp: queue_inv_def)
    show "chain (f(i := p)) (nd(i := n)) q" using qi i by (intro chain_other) (auto simp: queue_inv_def)
    show "head_inv (f(i := p)) (nd(i := n)) q"
      using qi i by (cases q) (auto simp: queue_inv_def head_inv_def)
  qed
  moreover have "\<forall>j. thread_inv j ((f(i := p)) j) ((nd(i := n)) j)"
    using ti new(2) by simp
  moreover have "succ_inv q (f(i := p))"
    unfolding succ_inv_def
  proof (intro allI impI)
    fix h assume h: "q = [h] \<and> ((f(i := p)) h = WaitNext \<or> (\<exists>n. (f(i := p)) h = SetLocked n))"
    with i have "f h = WaitNext \<or> (\<exists>n. f h = SetLocked n)" by auto
    with h si obtain j where "coming (f j)" by (auto simp: succ_inv_def)
    with new(3) h show "\<exists>j. coming ((f(i := p)) j)" by (cases "j = i") auto
  qed
  ultimately show ?thesis using new(1) by (simp add: parts_inv_def)
qed

text \<open>A step of the head of the queue that leaves queue and nodes alone.\<close>

lemma parts_head:
  assumes inv: "parts_inv (h # q) w f nd"
    and p: "is_head p" "p \<noteq> WaitNode" "\<forall>j. local_next p = Some j \<longrightarrow> next_node (nd h) = Some j"
      "\<forall>n v. p = HeadTry n v \<longrightarrow> v = encode_tail h"
    and new: "word_inv (h # q) w' (f(h := p))" "thread_inv h p (nd h)"
      "q = [] \<and> (p = WaitNext \<or> (\<exists>n. p = SetLocked n)) \<longrightarrow> (\<exists>j. coming (f j))"
  shows "parts_inv (h # q) w' (f(h := p)) nd"
proof -
  from inv have qi: "queue_inv (h # q) f nd" and ti: "\<forall>i. thread_inv i (f i) (nd i)"
    by (auto simp: parts_inv_def)
  have "queued (f h)" using qi by (auto simp: queue_inv_def)
  then have nc: "\<not> coming (f h)" by (rule not_coming_queued)
  have "queue_inv (h # q) (f(h := p)) nd"
    unfolding queue_inv_def
  proof (intro conjI)
    show "distinct (h # q)" using qi by (simp add: queue_inv_def)
    show "\<forall>j. queued ((f(h := p)) j) \<longleftrightarrow> j \<in> set (h # q)" using qi p(1) by (auto simp: queue_inv_def queued_def)
    have "chain f nd (h # q) \<longleftrightarrow> chain (f(h := p)) nd (h # q)"
      using qi by (intro chain_cong) (auto simp: queue_inv_def)
    then show "chain (f(h := p)) nd (h # q)" using qi by (auto simp: queue_inv_def)
    show "head_inv (f(h := p)) nd (h # q)" using p by (simp add: head_inv_def)
  qed
  moreover have "\<forall>j. thread_inv j ((f(h := p)) j) (nd j)"
    using ti new(2) by simp
  moreover have "succ_inv (h # q) (f(h := p))"
    using new(3) nc by (auto simp: succ_inv_def)
  ultimately show ?thesis using new(1) by (simp add: parts_inv_def)
qed

subsection \<open>Steps outside the queue\<close>

lemma queued_not_Idle: "queued p \<Longrightarrow> p \<noteq> Idle"
  by (auto simp: queued_def)

lemma queue_member: "parts_inv q w f nd \<Longrightarrow> i \<in> set q \<Longrightarrow> queued (f i) \<and> i < MAX_USER_THREADS"
  using queued_not_Idle [of "f i"] by (simp add: parts_inv_def queue_inv_def thread_inv_def)

lemma tail_valid:
  assumes "parts_inv q w f nd"
  shows "valid_tail (tail_of q)"
proof (cases "q = []")
  case False
  then have "last q < MAX_USER_THREADS"
    using queue_member [OF assms last_in_set] by simp
  with False show ?thesis by (simp add: tail_of_def valid_tail_def)
qed (simp add: tail_of_def valid_tail_def)

lemma word_invE:
  assumes "parts_inv q w f nd"
  obtains ow pe where "w = mkw (ow \<noteq> None) (pe \<noteq> None) (tail_of q)" "valid_tail (tail_of q)"
    "\<And>i. owns (f i) \<longleftrightarrow> ow = Some i" "\<And>i. pends (f i) \<longleftrightarrow> pe = Some i"
    "\<And>i. f i = TakeOwner \<Longrightarrow> ow = None"
    "\<And>i. claims (f i) \<Longrightarrow> ow = None" "\<And>i j. claims (f i) \<Longrightarrow> \<not> first_waiter (f j)"
    "\<And>i. claims (f i) \<Longrightarrow> q \<noteq> []"
proof -
  have cq: "claims (f i) \<Longrightarrow> q \<noteq> []" for i
    using assms claims_queued [of "f i"] by (auto simp: parts_inv_def queue_inv_def)
  from assms have "word_inv q w f" by (simp add: parts_inv_def)
  then obtain ow pe where o: "w = mkw (ow \<noteq> None) (pe \<noteq> None) (tail_of q)"
    "\<forall>i. owns (f i) \<longleftrightarrow> ow = Some i" "\<forall>i. pends (f i) \<longleftrightarrow> pe = Some i"
    "\<forall>i. f i = TakeOwner \<longrightarrow> ow = None"
    "\<forall>i. claims (f i) \<longrightarrow> ow = None \<and> (\<forall>j. \<not> first_waiter (f j))"
    unfolding word_inv_def by (elim exE conjE)
  show thesis
    by (rule that [OF o(1) tail_valid [OF assms]]) (use o(2-) cq in blast)+
qed

lemma word_invI:
  assumes "w = mkw (ow \<noteq> None) (pe \<noteq> None) (tail_of q)"
    "\<And>i. owns (f i) \<longleftrightarrow> ow = Some i" "\<And>i. pends (f i) \<longleftrightarrow> pe = Some i"
    "\<And>i. f i = TakeOwner \<Longrightarrow> ow = None" "\<And>i. claims (f i) \<Longrightarrow> ow = None"
    "\<And>i j. claims (f i) \<Longrightarrow> \<not> first_waiter (f j)"
  shows "word_inv q w f"
  unfolding word_inv_def using assms by blast

text \<open>What a step may do to the queue.\<close>

definition queue_step :: "nat \<Rightarrow> nat list \<Rightarrow> nat list \<Rightarrow> bool" where
  "queue_step i q q' \<longleftrightarrow> q' = q \<or> q' = q @ [i] \<or> q = i # q'"

lemma tail_of_None [simp]: "tail_of q = None \<longleftrightarrow> q = []"
  by (simp add: tail_of_def)

lemma own_thread: "parts_inv q w f nd \<Longrightarrow> thread_inv i (f i) (nd i)"
  by (simp add: parts_inv_def)

text \<open>Taking the free lock by compare-exchange.\<close>

lemma word_take_free:
  assumes inv: "parts_inv q w f nd" and w0: "w = 0" and i: "owns p" "\<not> pends (f i)"
  shows "word_inv q Q_LOCKED_VAL (f(i := p)) \<and> q = []"
proof -
  from inv obtain ow pe where w: "w = mkw (ow \<noteq> None) (pe \<noteq> None) (tail_of q)" "valid_tail (tail_of q)"
    "\<And>i. owns (f i) \<longleftrightarrow> ow = Some i" "\<And>i. pends (f i) \<longleftrightarrow> pe = Some i" "\<And>i. claims (f i) \<Longrightarrow> q \<noteq> []"
    by (rule word_invE) blast
  with w0 have e: "ow = None" "pe = None" "q = []"
    by (auto simp: mkw_tests)
  have p: "\<not> pends p" "p \<noteq> TakeOwner" "\<not> claims p" "\<not> first_waiter p"
    using i(1) by (cases p; simp)+
  have "word_inv q Q_LOCKED_VAL (f(i := p))"
  proof (rule word_invI [where ow = "Some i" and pe = None])
    show "Q_LOCKED_VAL = mkw (Some i \<noteq> None) (None \<noteq> None) (tail_of q)" for i
      by (simp add: e tail_of_def mkw_values)
  qed (use w e p i in \<open>auto simp: first_waiter_iff pends_iff split: if_splits\<close>)
  with e show ?thesis by simp
qed

text \<open>The same for the other changes of the word outside the queue.\<close>

lemma word_set_pending:
  assumes inv: "parts_inv q w f nd" and i: "f i = SetPending"
  shows "word_inv q (snd (queued_fetch_set_pending w)) (f(i := after_set_pending w)) \<and>
    fst (queued_fetch_set_pending w) = w"
proof -
  from inv obtain ow pe where w: "w = mkw (ow \<noteq> None) (pe \<noteq> None) (tail_of q)" and v: "valid_tail (tail_of q)"
    and r: "\<And>i. owns (f i) \<longleftrightarrow> ow = Some i" "\<And>i. pends (f i) \<longleftrightarrow> pe = Some i"
    "\<And>i. f i = TakeOwner \<Longrightarrow> ow = None" "\<And>i. claims (f i) \<Longrightarrow> ow = None"
    "\<And>i j. claims (f i) \<Longrightarrow> \<not> first_waiter (f j)" "\<And>i. claims (f i) \<Longrightarrow> q \<noteq> []"
    by (rule word_invE) blast
  have i': "ow \<noteq> Some i" "pe \<noteq> Some i" using r(1,2) [of i] i by simp_all
  have w': "snd (queued_fetch_set_pending w) = mkw (ow \<noteq> None) True (tail_of q)"
    by (simp add: w mkw_stores)
  have ap: "after_set_pending w =
      (if pe \<noteq> None then NodeGrab else if q \<noteq> [] then ClearPending
       else if ow \<noteq> None then WaitLocked else TakeOwner)"
    unfolding after_set_pending_def w mkw_tests [OF v] by auto
  show ?thesis
  proof (cases "pe = None")
    case False
    have "word_inv q (mkw (ow \<noteq> None) True (tail_of q)) (f(i := NodeGrab))"
      by (rule word_invI [where ow = ow and pe = pe])
        (use False r i' in \<open>auto split: if_splits\<close>)
    with False show ?thesis by (simp add: w' ap) (simp add: w mkw_stores)
  next
    case True
    have "word_inv q (mkw (ow \<noteq> None) True (tail_of q)) (f(i := after_set_pending w))"
      by (rule word_invI [where ow = ow and pe = "Some i"])
        (use True r i' ap in \<open>auto split: if_splits\<close>)
    then show ?thesis by (simp add: w') (simp add: w mkw_stores)
  qed
qed

lemma word_clear_pending:
  assumes inv: "parts_inv q w f nd" and i: "f i = ClearPending"
  shows "word_inv q (clear_pending w) (f(i := NodeGrab))"
proof -
  from inv obtain ow pe where w: "w = mkw (ow \<noteq> None) (pe \<noteq> None) (tail_of q)"
    and r: "\<And>i. owns (f i) \<longleftrightarrow> ow = Some i" "\<And>i. pends (f i) \<longleftrightarrow> pe = Some i"
    "\<And>i. f i = TakeOwner \<Longrightarrow> ow = None" "\<And>i. claims (f i) \<Longrightarrow> ow = None"
    "\<And>i j. claims (f i) \<Longrightarrow> \<not> first_waiter (f j)"
    by (rule word_invE) blast
  have "pe = Some i" "ow \<noteq> Some i" using r(1,2) [of i] i by simp_all
  then show ?thesis
    by (intro word_invI [where ow = ow and pe = None])
      (use r in \<open>auto simp: w mkw_stores split: if_splits\<close>)
qed

lemma word_wait_locked:
  assumes inv: "parts_inv q w f nd" and i: "f i = WaitLocked" and w0: "w AND Q_LOCKED_MASK = 0"
  shows "word_inv q w (f(i := TakeOwner))"
proof -
  from inv obtain ow pe where w: "w = mkw (ow \<noteq> None) (pe \<noteq> None) (tail_of q)" and v: "valid_tail (tail_of q)"
    and r: "\<And>i. owns (f i) \<longleftrightarrow> ow = Some i" "\<And>i. pends (f i) \<longleftrightarrow> pe = Some i"
    "\<And>i. claims (f i) \<Longrightarrow> ow = None"
    "\<And>i j. claims (f i) \<Longrightarrow> \<not> first_waiter (f j)"
    by (rule word_invE) blast
  have "pe = Some i" "ow = None" using r(2) [of i] i w0 by (auto simp: w mkw_tests [OF v])
  moreover have "\<not> claims (f j)" for j
    using r(4) [of j i] i by auto
  ultimately show ?thesis
    by (intro word_invI [where ow = None and pe = "Some i"])
      (use r in \<open>auto simp: w split: if_splits\<close>)
qed

lemma word_take_owner:
  assumes inv: "parts_inv q w f nd" and i: "f i = TakeOwner"
  shows "word_inv q (clear_pending_set_locked w) (f(i := Crit))"
proof -
  from inv obtain ow pe where w: "w = mkw (ow \<noteq> None) (pe \<noteq> None) (tail_of q)"
    and r: "\<And>i. owns (f i) \<longleftrightarrow> ow = Some i" "\<And>i. pends (f i) \<longleftrightarrow> pe = Some i"
    "\<And>i. f i = TakeOwner \<Longrightarrow> ow = None"
    "\<And>i j. claims (f i) \<Longrightarrow> \<not> first_waiter (f j)"
    by (rule word_invE) blast
  have pe: "pe = Some i" "ow = None" using r(2,3) [of i] i by auto
  moreover have "\<not> claims (f j)" for j
    using r(4) [of j i] i by auto
  moreover have "f j = TakeOwner \<Longrightarrow> j = i" for j
    using r(2) [of j] pe by simp
  ultimately show ?thesis
    by (intro word_invI [where ow = "Some i" and pe = None])
      (use r in \<open>auto simp: w mkw_stores split: if_splits\<close>)
qed

lemma word_unlock:
  assumes inv: "parts_inv q w f nd" and i: "f i = Crit"
  shows "word_inv q (queued_spin_unlock w) (f(i := Idle))"
proof -
  from inv obtain ow pe where w: "w = mkw (ow \<noteq> None) (pe \<noteq> None) (tail_of q)"
    and r: "\<And>i. owns (f i) \<longleftrightarrow> ow = Some i" "\<And>i. pends (f i) \<longleftrightarrow> pe = Some i"
    "\<And>i j. claims (f i) \<Longrightarrow> \<not> first_waiter (f j)"
    by (rule word_invE) blast
  have pe: "ow = Some i" "pe \<noteq> Some i" using r(1,2) [of i] i by auto
  show ?thesis
    by (intro word_invI [where ow = None and pe = pe])
      (use r pe in \<open>auto simp: w mkw_stores split: if_splits\<close>)
qed

text \<open>Each step outside the queue keeps the invariant and the queue.\<close>

lemma parts_local_same:
  assumes "parts_inv q w f nd" "\<not> queued (f i)" "\<not> queued p" "word_inv q w' (f(i := p))"
    "thread_inv i p (nd i)" "coming (f i) \<longrightarrow> coming p \<or> q = []"
  shows "parts_inv q w' (f(i := p)) nd"
  using parts_local [OF assms] by simp

lemma parts_word: "parts_inv q w f nd \<Longrightarrow> word_inv q w f"
  by (simp add: parts_inv_def)

lemma contention_cases: "contention val = NodeGrab \<or> contention val = SetPending"
  by (simp add: contention_def)

lemma slow_entry_cases:
  "slow_entry val = PendWait Q_PENDING_LOOPS \<or> slow_entry val = NodeGrab \<or> slow_entry val = SetPending"
  using contention_cases [of val] by (auto simp: slow_entry_def)

lemma after_set_pending_cases:
  "after_set_pending val \<in> {ClearPending, NodeGrab, WaitLocked, TakeOwner}"
  by (simp add: after_set_pending_def)

lemmas step_simps = exec_def exec_updates qinv_def queued_def thread_inv_def

lemma step_Idle:
  assumes inv: "qinv q s" and i: "pc s i = Idle" "i < MAX_USER_THREADS"
  shows "qinv q (exec i s)"
proof -
  have p: "parts_inv q (lockw s) (pc s) (node s)" using inv by (simp add: qinv_def)
  have c: "count (node s i) = 0" using own_thread [OF p, of i] i by (simp add: thread_inv_def)
  show ?thesis
  proof (cases "lockw s = 0")
    case True
    have w: "word_inv q Q_LOCKED_VAL ((pc s)(i := Crit)) \<and> q = []"
      by (rule word_take_free [OF p True]) (simp_all add: i)
    have "parts_inv q Q_LOCKED_VAL ((pc s)(i := Crit)) (node s)"
      by (intro parts_local_same [OF p] conjunct1 [OF w])
        (use i c in \<open>simp_all add: queued_def thread_inv_def\<close>)
    then show ?thesis using True i by (simp add: step_simps)
  next
    case False
    have "parts_inv q (lockw s) ((pc s)(i := slow_entry (lockw s))) (node s)"
      using slow_entry_cases [of "lockw s"]
      by (intro parts_local_same [OF p] word_frame parts_word [OF p])
        (use i c in \<open>auto simp: queued_def thread_inv_def\<close>)
    then show ?thesis using False i by (simp add: step_simps)
  qed
qed

lemma step_PendWait:
  assumes inv: "qinv q s" and i: "pc s i = PendWait cnt"
  shows "qinv q (exec i s)"
proof -
  have p: "parts_inv q (lockw s) (pc s) (node s)" using inv by (simp add: qinv_def)
  have t: "count (node s i) = 0 \<and> i < MAX_USER_THREADS" using own_thread [OF p, of i] i by (simp add: thread_inv_def)
  have "parts_inv q (lockw s) ((pc s)(i := x)) (node s)" if "x = contention (lockw s) \<or> x = PendWait (cnt - 1)" for x
    using that contention_cases [of "lockw s"]
    by (intro parts_local_same [OF p] word_frame parts_word [OF p])
      (use i t in \<open>auto simp: queued_def thread_inv_def\<close>)
  from this [of "contention (lockw s)"] this [of "PendWait (cnt - 1)"] show ?thesis
    using i by (auto simp: step_simps)
qed

lemma step_SetPending:
  assumes inv: "qinv q s" and i: "pc s i = SetPending"
  shows "qinv q (exec i s)"
proof -
  have p: "parts_inv q (lockw s) (pc s) (node s)" using inv by (simp add: qinv_def)
  have t: "count (node s i) = 0 \<and> i < MAX_USER_THREADS" using own_thread [OF p, of i] i by (simp add: thread_inv_def)
  note w = word_set_pending [OF p i]
  have "parts_inv q (snd (queued_fetch_set_pending (lockw s))) ((pc s)(i := after_set_pending (lockw s))) (node s)"
    using after_set_pending_cases [of "lockw s"]
    by (intro parts_local_same [OF p] conjunct1 [OF w])
      (use i t in \<open>auto simp: queued_def thread_inv_def\<close>)
  then show ?thesis
    using i conjunct2 [OF w] by (simp add: step_simps case_prod_beta)
qed

lemma step_ClearPending:
  assumes inv: "qinv q s" and i: "pc s i = ClearPending"
  shows "qinv q (exec i s)"
proof -
  have p: "parts_inv q (lockw s) (pc s) (node s)" using inv by (simp add: qinv_def)
  have t: "count (node s i) = 0 \<and> i < MAX_USER_THREADS" using own_thread [OF p, of i] i by (simp add: thread_inv_def)
  have "parts_inv q (clear_pending (lockw s)) ((pc s)(i := NodeGrab)) (node s)"
    by (intro parts_local_same [OF p] word_clear_pending [OF p i])
      (use i t in \<open>auto simp: queued_def thread_inv_def\<close>)
  then show ?thesis using i by (simp add: step_simps)
qed

lemma step_WaitLocked:
  assumes inv: "qinv q s" and i: "pc s i = WaitLocked"
  shows "qinv q (exec i s)"
proof (cases "lockw s AND Q_LOCKED_MASK = 0")
  case True
  have p: "parts_inv q (lockw s) (pc s) (node s)" using inv by (simp add: qinv_def)
  have t: "count (node s i) = 0 \<and> i < MAX_USER_THREADS" using own_thread [OF p, of i] i by (simp add: thread_inv_def)
  have "parts_inv q (lockw s) ((pc s)(i := TakeOwner)) (node s)"
    by (intro parts_local_same [OF p] word_wait_locked [OF p i True])
      (use i t in \<open>auto simp: queued_def thread_inv_def\<close>)
  then show ?thesis using i True by (simp add: step_simps)
qed (use assms in \<open>simp add: exec_def\<close>)

lemma step_TakeOwner:
  assumes inv: "qinv q s" and i: "pc s i = TakeOwner"
  shows "qinv q (exec i s)"
proof -
  have p: "parts_inv q (lockw s) (pc s) (node s)" using inv by (simp add: qinv_def)
  have t: "count (node s i) = 0 \<and> i < MAX_USER_THREADS" using own_thread [OF p, of i] i by (simp add: thread_inv_def)
  have "parts_inv q (clear_pending_set_locked (lockw s)) ((pc s)(i := Crit)) (node s)"
    by (intro parts_local_same [OF p] word_take_owner [OF p i])
      (use i t in \<open>auto simp: queued_def thread_inv_def\<close>)
  then show ?thesis using i by (simp add: step_simps)
qed

lemma step_Crit:
  assumes inv: "qinv q s" and i: "pc s i = Crit"
  shows "qinv q (exec i s)"
proof -
  have p: "parts_inv q (lockw s) (pc s) (node s)" using inv by (simp add: qinv_def)
  have t: "count (node s i) = 0 \<and> i < MAX_USER_THREADS" using own_thread [OF p, of i] i by (simp add: thread_inv_def)
  have "parts_inv q (queued_spin_unlock (lockw s)) ((pc s)(i := Idle)) (node s)"
    by (intro parts_local_same [OF p] word_unlock [OF p i])
      (use i t in \<open>auto simp: queued_def thread_inv_def\<close>)
  then show ?thesis using i by (simp add: step_simps)
qed

text \<open>The steps that prepare the node and try the lock once more.\<close>

lemma step_NodeGrab:
  assumes inv: "qinv q s" and i: "pc s i = NodeGrab"
  shows "qinv q (exec i s)"
proof -
  have p: "parts_inv q (lockw s) (pc s) (node s)" using inv by (simp add: qinv_def)
  have t: "count (node s i) = 0 \<and> i < MAX_USER_THREADS" using own_thread [OF p, of i] i by (simp add: thread_inv_def)
  have "parts_inv q (lockw s) ((pc s)(i := NodeInitLocked)) ((node s)(i := count_update Suc (node s i)))"
    by (intro parts_local [OF p] word_frame parts_word [OF p])
      (use i t in \<open>auto simp: queued_def thread_inv_def\<close>)
  then show ?thesis using i t by (simp add: step_simps)
qed

lemma step_NodeInitLocked:
  assumes inv: "qinv q s" and i: "pc s i = NodeInitLocked"
  shows "qinv q (exec i s)"
proof -
  have p: "parts_inv q (lockw s) (pc s) (node s)" using inv by (simp add: qinv_def)
  have t: "count (node s i) = 1 \<and> i < MAX_USER_THREADS" using own_thread [OF p, of i] i by (simp add: thread_inv_def)
  have "parts_inv q (lockw s) ((pc s)(i := NodeInitNext)) ((node s)(i := nlocked_update (\<lambda>_. 0) (node s i)))"
    by (intro parts_local [OF p] word_frame parts_word [OF p])
      (use i t in \<open>auto simp: queued_def thread_inv_def\<close>)
  then show ?thesis using i by (simp add: step_simps)
qed

lemma step_NodeInitNext:
  assumes inv: "qinv q s" and i: "pc s i = NodeInitNext"
  shows "qinv q (exec i s)"
proof -
  have p: "parts_inv q (lockw s) (pc s) (node s)" using inv by (simp add: qinv_def)
  have t: "count (node s i) = 1 \<and> i < MAX_USER_THREADS \<and> nlocked (node s i) = 0"
    using own_thread [OF p, of i] i by (simp add: thread_inv_def)
  have "parts_inv q (lockw s) ((pc s)(i := TryRead)) ((node s)(i := next_node_update (\<lambda>_. None) (node s i)))"
    by (intro parts_local [OF p] word_frame parts_word [OF p])
      (use i t in \<open>auto simp: queued_def thread_inv_def\<close>)
  then show ?thesis using i by (simp add: step_simps)
qed

lemma step_TryRead:
  assumes inv: "qinv q s" and i: "pc s i = TryRead"
  shows "qinv q (exec i s)"
proof -
  have p: "parts_inv q (lockw s) (pc s) (node s)" using inv by (simp add: qinv_def)
  have t: "thread_inv i TryRead (node s i)" using own_thread [OF p, of i] i by simp
  have "parts_inv q (lockw s) ((pc s)(i := x)) (node s)" if "x = XchgTail \<or> x = TryCas" for x
    using that by (intro parts_local_same [OF p] word_frame parts_word [OF p])
      (use i t in \<open>auto simp: queued_def thread_inv_def\<close>)
  from this [of XchgTail] this [of TryCas] show ?thesis using i by (auto simp: step_simps)
qed

lemma step_TryCas:
  assumes inv: "qinv q s" and i: "pc s i = TryCas"
  shows "qinv q (exec i s)"
proof -
  have p: "parts_inv q (lockw s) (pc s) (node s)" using inv by (simp add: qinv_def)
  have t: "thread_inv i TryCas (node s i)" using own_thread [OF p, of i] i by simp
  show ?thesis
  proof (cases "lockw s = 0")
    case True
    have w: "word_inv q Q_LOCKED_VAL ((pc s)(i := ReleaseNode)) \<and> q = []"
      by (rule word_take_free [OF p True]) (simp_all add: i)
    have "parts_inv q Q_LOCKED_VAL ((pc s)(i := ReleaseNode)) (node s)"
      by (intro parts_local_same [OF p] conjunct1 [OF w])
        (use i t conjunct2 [OF w] in \<open>simp_all add: queued_def thread_inv_def\<close>)
    then show ?thesis using True i by (simp add: step_simps)
  next
    case False
    have "parts_inv q (lockw s) ((pc s)(i := XchgTail)) (node s)"
      by (intro parts_local_same [OF p] word_frame parts_word [OF p])
        (use i t in \<open>auto simp: queued_def thread_inv_def\<close>)
    then show ?thesis using False i by (simp add: step_simps)
  qed
qed

lemma step_ReleaseNode:
  assumes inv: "qinv q s" and i: "pc s i = ReleaseNode"
  shows "qinv q (exec i s)"
proof -
  have p: "parts_inv q (lockw s) (pc s) (node s)" using inv by (simp add: qinv_def)
  have t: "count (node s i) = 1 \<and> i < MAX_USER_THREADS" using own_thread [OF p, of i] i by (simp add: thread_inv_def)
  have "parts_inv q (lockw s) ((pc s)(i := Crit)) ((node s)(i := count_update (\<lambda>c. c - 1) (node s i)))"
    by (intro parts_local [OF p] word_frame parts_word [OF p])
      (use i t in \<open>auto simp: queued_def thread_inv_def\<close>)
  then show ?thesis using i by (simp add: step_simps)
qed

subsection \<open>Steps of the queue\<close>

lemma parts_queue: "parts_inv q w f nd \<Longrightarrow> queue_inv q f nd"
  by (simp add: parts_inv_def)

lemma queued_iff: "parts_inv q w f nd \<Longrightarrow> i \<in> set q \<longleftrightarrow> queued (f i)"
  by (simp add: parts_inv_def queue_inv_def)

text \<open>A thread that has waited behind others or is the head is where the queue says.\<close>

lemma head_of:
  assumes "parts_inv q w f nd" "is_head (f i)" "f i = WaitNode \<longrightarrow> nlocked (nd i) \<noteq> 0"
  obtains r where "q = i # r"
proof -
  from assms have qi: "queue_inv q f nd" and "i \<in> set q"
    by (auto simp: parts_inv_def queue_inv_def queued_def)
  then obtain h r where q: "q = h # r" by (cases q) auto
  have "i \<notin> set r"
  proof
    assume "i \<in> set r"
    then have "waits_behind (f i) \<and> nlocked (nd i) = 0"
      using chain_waits [of f nd h r] qi q by (auto simp: queue_inv_def)
    with assms(2,3) show False by (cases "f i") auto
  qed
  with \<open>i \<in> set q\<close> q that show thesis by auto
qed

lemma head_facts:
  assumes "parts_inv (h # r) w f nd"
  shows "is_head (f h)" "\<And>j. local_next (f h) = Some j \<Longrightarrow> next_node (nd h) = Some j"
    "\<And>n v. f h = HeadTry n v \<Longrightarrow> v = encode_tail h" "f h = WaitNode \<Longrightarrow> nlocked (nd h) \<noteq> 0"
    "thread_inv h (f h) (nd h)"
  using assms by (auto simp: parts_inv_def queue_inv_def head_inv_def)

lemma word_xchg_tail:
  assumes inv: "parts_inv q w f nd" and i: "f i = XchgTail"
    and p: "p = WaitHead None \<or> p = Link old"
  shows "word_inv (q @ [i]) (snd (xchg_tail (encode_tail i) w)) (f(i := p)) \<and>
    fst (xchg_tail (encode_tail i) w) AND Q_TAIL_MASK = fst (xchg_tail (encode_tail i) w) \<and>
    fst (xchg_tail (encode_tail i) w) = (if q = [] then 0 else encode_tail (last q)) \<and>
    (q \<noteq> [] \<longrightarrow> encode_tail (last q) \<noteq> 0)"
proof -
  from inv obtain ow pe where w: "w = mkw (ow \<noteq> None) (pe \<noteq> None) (tail_of q)" and v: "valid_tail (tail_of q)"
    and r: "\<And>i. owns (f i) \<longleftrightarrow> ow = Some i" "\<And>i. pends (f i) \<longleftrightarrow> pe = Some i"
    "\<And>i. f i = TakeOwner \<Longrightarrow> ow = None" "\<And>i. claims (f i) \<Longrightarrow> ow = None"
    "\<And>i j. claims (f i) \<Longrightarrow> \<not> first_waiter (f j)"
    by (rule word_invE) blast
  have pe: "ow \<noteq> Some i" "pe \<noteq> Some i" using r(1,2) [of i] i by auto
  have "word_inv (q @ [i]) (mkw (ow \<noteq> None) (pe \<noteq> None) (Some i)) (f(i := p))"
    by (rule word_invI [where ow = ow and pe = pe])
      (use r pe p in \<open>auto simp: tail_of_def split: if_splits\<close>)
  moreover have "mkw False False (tail_of q) = (if q = [] then 0 else encode_tail (last q))"
    by (simp add: tail_of_def mkw_values)
  moreover have "q \<noteq> [] \<longrightarrow> mkw False False (tail_of q) \<noteq> 0"
    using mkw_tests(1) [OF v, of False False] by simp
  ultimately show ?thesis
    using mkw_tests(7) [OF v, of False False] by (simp add: w mkw_xchg_tail)
qed

lemma step_XchgTail:
  assumes inv: "qinv q s" and i: "pc s i = XchgTail"
  shows "qinv (q @ [i]) (exec i s)"
proof -
  let ?f = "pc s" and ?nd = "node s"
  have p: "parts_inv q (lockw s) ?f ?nd" using inv by (simp add: qinv_def)
  have t: "count (?nd i) = 1" "i < MAX_USER_THREADS" "nlocked (?nd i) = 0" "next_node (?nd i) = None"
    using own_thread [OF p, of i] i by (simp_all add: thread_inv_def)
  define x where "x = (if q = [] then WaitHead None else Link (encode_tail (last q)))"
  have x: "x = WaitHead None \<or> x = Link (encode_tail (last q))" by (simp add: x_def)
  note w = word_xchg_tail [OF p i x]
  note qi = parts_queue [OF p]
  have iq: "i \<notin> set q" using queued_iff [OF p, of i] i by (simp add: queued_def)
  have "queue_inv (q @ [i]) (?f(i := x)) ?nd"
    unfolding queue_inv_def
  proof (intro conjI)
    show "distinct (q @ [i])" using qi iq by (simp add: queue_inv_def)
    show "\<forall>j. queued ((?f(i := x)) j) \<longleftrightarrow> j \<in> set (q @ [i])"
      using qi x by (auto simp: queue_inv_def queued_def)
    have c: "chain (?f(i := x)) ?nd q"
      using chain_other [of ?f ?nd q i x "?nd i"] qi iq by (simp add: queue_inv_def)
    show "chain (?f(i := x)) ?nd (q @ [i])"
    proof (cases "q = []")
      case False
      then show ?thesis using c t by (intro chain_snoc) (simp_all add: x_def)
    qed (use t in simp)
    show "head_inv (?f(i := x)) ?nd (q @ [i])"
    proof (cases q)
      case Nil
      then show ?thesis by (simp add: head_inv_def x_def)
    next
      case (Cons h r)
      then show ?thesis using qi iq by (simp add: queue_inv_def head_inv_def)
    qed
  qed
  moreover have "\<forall>j. thread_inv j ((?f(i := x)) j) (?nd j)"
    using p t x by (auto simp: parts_inv_def thread_inv_def)
  moreover have "succ_inv (q @ [i]) (?f(i := x))"
    by (auto simp: succ_inv_def x_def)
  ultimately have "parts_inv (q @ [i]) (snd (xchg_tail (encode_tail i) (lockw s))) (?f(i := x)) ?nd"
    using conjunct1 [OF w] by (simp add: parts_inv_def)
  moreover have "exec i s = goto i x (set_word (snd (xchg_tail (encode_tail i) (lockw s))) s)"
    using i w by (auto simp: exec_def x_def case_prod_beta Let_def)
  ultimately show ?thesis by (simp add: qinv_def exec_updates)
qed

lemma step_Link:
  assumes inv: "qinv q s" and i: "pc s i = Link old"
  shows "qinv q (exec i s)"
proof -
  let ?f = "pc s" and ?nd = "node s"
  have p: "parts_inv q (lockw s) ?f ?nd" using inv by (simp add: qinv_def)
  note qi = parts_queue [OF p]
  have t: "count (?nd i) = 1" "i < MAX_USER_THREADS"
    using own_thread [OF p, of i] i by (simp_all add: thread_inv_def)
  have "i \<in> set q" using queued_iff [OF p, of i] i by (simp add: queued_def)
  then obtain m where m: "m < length q" "q ! m = i" unfolding in_set_conv_nth by blast
  obtain h r where q: "q = h # r" using m by (cases q) auto
  have "h \<noteq> i" using head_facts(1) [OF p [unfolded q]] i by auto
  with m q have "m \<noteq> 0" by (cases m) simp_all
  then obtain k where "m = k + 1" using Suc_eq_plus1 not0_implies_Suc by metis
  with m have k: "k + 1 < length q" "q ! (k + 1) = i" by simp_all
  have "distinct q" "chain ?f ?nd q" using qi by (simp_all add: queue_inv_def)
  note link = chain_link [OF this(2,1) k(1), unfolded k(2), OF i]
  define prev where "prev = q ! k"
  have pq: "prev \<in> set q" using k by (simp add: prev_def)
  have "prev \<noteq> i"
    using nth_eq_iff_index_eq [OF \<open>distinct q\<close>, of k "k + 1"] k by (simp add: prev_def)
  have dec: "decode_tail old = Some prev"
    using link queue_member [OF p pq] by (simp add: prev_def decode_encode_tail)
  let ?nd' = "?nd(prev := ?nd prev\<lparr>next_node := Some i\<rparr>)"
  have "queue_inv q (?f(i := WaitNode)) ?nd'"
    unfolding queue_inv_def
  proof (intro conjI)
    show "distinct q" by fact
    show "\<forall>j. queued ((?f(i := WaitNode)) j) \<longleftrightarrow> j \<in> set q"
      using queued_iff [OF p] i by (simp add: queued_def)
    show "chain (?f(i := WaitNode)) ?nd' q" using link by (simp add: prev_def)
    have "local_next (?f h) = Some j \<Longrightarrow> next_node (?nd' h) = Some j" for j
      using head_facts(2) [OF p [unfolded q], of j] link by (cases "h = prev") (simp_all add: prev_def)
    moreover have "nlocked (?nd' h) = nlocked (?nd h)" by simp
    ultimately show "head_inv (?f(i := WaitNode)) ?nd' q"
      using head_facts(1,3,4) [OF p [unfolded q]] \<open>h \<noteq> i\<close> unfolding head_inv_def q list.case
      by (simp del: fun_upd_apply add: fun_upd_other)
  qed
  moreover have "\<forall>j. thread_inv j ((?f(i := WaitNode)) j) (?nd' j)"
  proof
    fix j
    have "queued (?f prev)" using queue_member [OF p pq] by simp
    then have "?f prev \<notin> {NodeInitNext, TryRead, TryCas, XchgTail}" by (auto simp: queued_def)
    with own_thread [OF p, of j] t \<open>prev \<noteq> i\<close> show "thread_inv j ((?f(i := WaitNode)) j) (?nd' j)"
      by (cases "j = i"; cases "j = prev") (simp_all add: thread_inv_def)
  qed
  moreover have "q \<noteq> [x]" for x using k(1) by auto
  then have "succ_inv q (?f(i := WaitNode))" by (simp add: succ_inv_def)
  moreover have "word_inv q (lockw s) (?f(i := WaitNode))"
    by (intro word_frame parts_word [OF p]) (simp_all add: i)
  ultimately have "parts_inv q (lockw s) (?f(i := WaitNode)) ?nd'"
    by (simp add: parts_inv_def)
  then show ?thesis using i dec by (simp add: step_simps)
qed

lemma step_WaitNode:
  assumes inv: "qinv q s" and i: "pc s i = WaitNode"
  shows "qinv q (exec i s)"
proof (cases "nlocked (node s i) = 0")
  case True
  then show ?thesis using assms by (simp add: exec_def)
next
  case False
  have p: "parts_inv q (lockw s) (pc s) (node s)" using inv by (simp add: qinv_def)
  obtain r where q: "q = i # r" by (rule head_of [OF p, of i]) (use i False in simp_all)
  have "parts_inv (i # r) (lockw s) ((pc s)(i := ReadNext)) (node s)"
    by (intro parts_head [OF p [unfolded q]] word_frame parts_word [OF p [unfolded q]])
      (use i own_thread [OF p, of i] in \<open>auto simp: thread_inv_def\<close>)
  then show ?thesis using i False q by (simp add: step_simps)
qed

lemma step_ReadNext:
  assumes inv: "qinv q s" and i: "pc s i = ReadNext"
  shows "qinv q (exec i s)"
proof -
  have p: "parts_inv q (lockw s) (pc s) (node s)" using inv by (simp add: qinv_def)
  obtain r where q: "q = i # r" by (rule head_of [OF p, of i]) (use i in simp_all)
  have "parts_inv (i # r) (lockw s) ((pc s)(i := WaitHead (next_node (node s i)))) (node s)"
    by (intro parts_head [OF p [unfolded q]] word_frame parts_word [OF p [unfolded q]])
      (use i own_thread [OF p, of i] in \<open>auto simp: thread_inv_def\<close>)
  then show ?thesis using i q by (simp add: step_simps)
qed

text \<open>The head claims a lock that nobody owns or waits for with the pending byte.\<close>

lemma word_claim:
  assumes inv: "parts_inv q w f nd" and i: "f i = WaitHead n" and w0: "w AND Q_LOCKED_PENDING_MASK = 0"
    and p: "claims p"
  shows "word_inv q w (f(i := p))" "w AND Q_TAIL_MASK = mkw False False (tail_of q)" "w = mkw False False (tail_of q)"
proof -
  from inv obtain ow pe where w: "w = mkw (ow \<noteq> None) (pe \<noteq> None) (tail_of q)" and v: "valid_tail (tail_of q)"
    and r: "\<And>i. owns (f i) \<longleftrightarrow> ow = Some i" "\<And>i. pends (f i) \<longleftrightarrow> pe = Some i"
    "\<And>i. f i = TakeOwner \<Longrightarrow> ow = None" "\<And>i. claims (f i) \<Longrightarrow> ow = None"
    by (rule word_invE) blast
  from w0 have e: "ow = None" "pe = None" unfolding w mkw_tests(6) [OF v] by simp_all
  show "w = mkw False False (tail_of q)" by (simp add: w e)
  show "w AND Q_TAIL_MASK = mkw False False (tail_of q)"
    unfolding w by (rule mkw_tests(7) [OF v])
  have pp: "\<not> owns p" "\<not> pends p" "p \<noteq> TakeOwner" "\<not> first_waiter p"
    using p by (cases p; simp)+
  have "\<not> first_waiter (f j)" for j
    using r(2) [of j] e by (auto simp: first_waiter_iff)
  then show "word_inv q w (f(i := p))"
    by (intro word_invI [where ow = None and pe = None])
      (use r e pp in \<open>auto simp: w split: if_splits\<close>)
qed

lemma encode_tail_eq_tail_of:
  "parts_inv q w f nd \<Longrightarrow> i < MAX_USER_THREADS \<Longrightarrow>
   mkw False False (tail_of q) = encode_tail i \<longleftrightarrow> tail_of q = Some i"
  using mkw_inj [OF tail_valid, of q w f nd "Some i" False False False False]
  by (simp add: mkw_values valid_tail_def)

lemma step_WaitHead:
  assumes inv: "qinv q s" and i: "pc s i = WaitHead n"
  shows "qinv q (exec i s)"
proof (cases "lockw s AND Q_LOCKED_PENDING_MASK = 0")
  case False
  then show ?thesis using assms by (simp add: exec_def)
next
  case True
  have p: "parts_inv q (lockw s) (pc s) (node s)" using inv by (simp add: qinv_def)
  obtain r where q: "q = i # r" by (rule head_of [OF p, of i]) (use i in simp_all)
  have t: "thread_inv i (WaitHead n) (node s i)" using own_thread [OF p, of i] i by simp
  have ln: "\<forall>j. n = Some j \<longrightarrow> next_node (node s i) = Some j"
    using head_facts(2) [OF p [unfolded q]] i by simp
  show ?thesis
  proof (cases "lockw s AND Q_TAIL_MASK = encode_tail i")
    case tl: True
    note w = word_claim [OF p i True, of "HeadTry n (lockw s)"]
    have "lockw s = encode_tail i" using w(2,3) tl by simp
    then have "parts_inv (i # r) (lockw s) ((pc s)(i := HeadTry n (lockw s))) (node s)"
      using w(1) by (intro parts_head [OF p [unfolded q]])
        (use ln t q in \<open>simp_all add: thread_inv_def\<close>)
    then show ?thesis using i True tl q by (simp add: step_simps)
  next
    case tl: False
    note w = word_claim [OF p i True, of "SetLocked n"]
    have "i < MAX_USER_THREADS" using t by (simp add: thread_inv_def)
    then have "tail_of q \<noteq> Some i"
      using encode_tail_eq_tail_of [OF p] w(2) tl by simp
    then have "r \<noteq> []" by (auto simp: q tail_of_def)
    then have "parts_inv (i # r) (lockw s) ((pc s)(i := SetLocked n)) (node s)"
      using w(1) by (intro parts_head [OF p [unfolded q]])
        (use ln t q in \<open>simp_all add: thread_inv_def\<close>)
    then show ?thesis using i True tl q by (simp add: step_simps)
  qed
qed

text \<open>The only one in the queue takes the lock and clears the tail.\<close>

lemma step_HeadTry_success:
  assumes inv: "qinv q s" and i: "pc s i = HeadTry n v" and eq: "lockw s = v"
  shows "q = [i] \<and> qinv [] (exec i s)"
proof -
  let ?f = "pc s" and ?nd = "node s"
  have p: "parts_inv q (lockw s) ?f ?nd" using inv by (simp add: qinv_def)
  obtain r where q: "q = i # r" by (rule head_of [OF p, of i]) (use i in simp_all)
  have t: "thread_inv i (HeadTry n v) (?nd i)" using own_thread [OF p, of i] i by simp
  have v: "lockw s = encode_tail i" using head_facts(3) [OF p [unfolded q] i] eq by simp
  from p obtain ow pe where w: "lockw s = mkw (ow \<noteq> None) (pe \<noteq> None) (tail_of q)" "valid_tail (tail_of q)"
    and r: "\<And>i. owns (?f i) \<longleftrightarrow> ow = Some i" "\<And>i. pends (?f i) \<longleftrightarrow> pe = Some i"
    by (rule word_invE) blast
  have "mkw (ow \<noteq> None) (pe \<noteq> None) (tail_of q) = mkw False False (Some i)"
    using w(1) v by (simp add: mkw_values)
  then have e: "ow = None" "pe = None" "tail_of q = Some i"
    using mkw_inj [OF w(2), of "Some i"] t by (simp_all add: valid_tail_def thread_inv_def)
  have "distinct q" using parts_queue [OF p] by (simp add: queue_inv_def)
  then have r0: "q = [i]"
    using e(3) q by (cases "r = []") (auto simp: tail_of_def)
  have q0: "queued (?f j) \<longleftrightarrow> j = i" for j
    using queued_iff [OF p, of j] r0 by simp
  then have nc: "\<not> claims (?f j)" if "j \<noteq> i" for j
    using that claims_queued by blast
  have "word_inv [] Q_LOCKED_VAL (?f(i := ReleaseNode))"
  proof (rule word_invI [where ow = "Some i" and pe = None])
    show "Q_LOCKED_VAL = mkw (Some i \<noteq> None) (None \<noteq> None) (tail_of [])" for i
      by (simp add: tail_of_def mkw_values)
  qed (use r e nc i in \<open>auto simp: pends_iff split: if_splits\<close>)
  moreover have "queue_inv [] (?f(i := ReleaseNode)) ?nd"
    using q0 by (auto simp: queue_inv_def head_inv_def queued_def)
  moreover have "\<forall>j. thread_inv j ((?f(i := ReleaseNode)) j) (?nd j)"
    using p t by (auto simp: parts_inv_def thread_inv_def)
  ultimately have "parts_inv [] Q_LOCKED_VAL (?f(i := ReleaseNode)) ?nd"
    by (simp add: parts_inv_def succ_inv_def)
  then show ?thesis using r0 i eq by (simp add: step_simps)
qed

lemma step_HeadTry_failure:
  assumes inv: "qinv q s" and i: "pc s i = HeadTry n v" and ne: "lockw s \<noteq> v"
  shows "qinv q (exec i s)"
proof -
  let ?f = "pc s"
  have p: "parts_inv q (lockw s) ?f (node s)" using inv by (simp add: qinv_def)
  obtain r where q: "q = i # r" by (rule head_of [OF p, of i]) (use i in simp_all)
  have t: "thread_inv i (HeadTry n v) (node s i)" using own_thread [OF p, of i] i by simp
  have v: "v = encode_tail i" using head_facts(3) [OF p [unfolded q] i] .
  have ln: "\<forall>j. n = Some j \<longrightarrow> next_node (node s i) = Some j"
    using head_facts(2) [OF p [unfolded q]] i by simp
  from p obtain ow pe where w: "lockw s = mkw (ow \<noteq> None) (pe \<noteq> None) (tail_of q)"
    and rl: "\<And>i. owns (?f i) \<longleftrightarrow> ow = Some i" "\<And>i. pends (?f i) \<longleftrightarrow> pe = Some i"
    "\<And>i. ?f i = TakeOwner \<Longrightarrow> ow = None" "\<And>i. claims (?f i) \<Longrightarrow> ow = None"
    "\<And>i j. claims (?f i) \<Longrightarrow> \<not> first_waiter (?f j)"
    by (rule word_invE) blast
  have ow: "ow = None" and fw: "\<not> first_waiter (?f j)" for j
    using rl(4) [of i] rl(5) [of i j] i by simp_all
  have "\<exists>j. coming (?f j)" if "r = []"
  proof -
    have "pe \<noteq> None"
    proof
      assume "pe = None"
      with w that ow q have "lockw s = encode_tail i" by (simp add: tail_of_def mkw_values)
      with ne v show False by simp
    qed
    then obtain j where "pends (?f j)" using rl(2) by auto
    then have "?f j = ClearPending" using fw [of j] by (simp add: pends_iff first_waiter_iff)
    then show ?thesis by (intro exI [of _ j]) simp
  qed
  then have "parts_inv (i # r) (lockw s) (?f(i := SetLocked n)) (node s)"
    by (intro parts_head [OF p [unfolded q]] word_frame parts_word [OF p [unfolded q]])
      (use ln t i in \<open>auto simp: thread_inv_def\<close>)
  then show ?thesis using i ne q by (simp add: step_simps)
qed

lemma word_set_locked:
  assumes inv: "parts_inv q w f nd" and i: "f i = SetLocked n" and q: "q = i # r"
    and p: "p = WaitNext \<or> p = Handoff j"
  shows "word_inv q (set_locked w) (f(i := p))"
proof -
  from inv obtain ow pe where w: "w = mkw (ow \<noteq> None) (pe \<noteq> None) (tail_of q)"
    and rl: "\<And>i. owns (f i) \<longleftrightarrow> ow = Some i" "\<And>i. pends (f i) \<longleftrightarrow> pe = Some i"
    "\<And>i. f i = TakeOwner \<Longrightarrow> ow = None" "\<And>i. claims (f i) \<Longrightarrow> ow = None"
    "\<And>i j. claims (f i) \<Longrightarrow> \<not> first_waiter (f j)"
    by (rule word_invE) blast
  have e: "ow = None" "\<not> first_waiter (f k)" "pe \<noteq> Some i" for k
    using rl(4) [of i] rl(5) [of i k] rl(2) [of i] i by simp_all
  have nc: "\<not> claims (f k)" if "k \<noteq> i" for k
  proof
    assume c: "claims (f k)"
    have "is_head (f k)" using c by (cases "f k") simp_all
    moreover have "f k = WaitNode \<longrightarrow> nlocked (nd k) \<noteq> 0" using c by auto
    ultimately obtain r' where "q = k # r'" by (rule head_of [OF inv])
    with q that show False by simp
  qed
  show ?thesis
    by (intro word_invI [where ow = "Some i" and pe = pe])
      (use rl e nc p in \<open>auto simp: w mkw_stores first_waiter_iff split: if_splits\<close>)
qed

lemma step_SetLocked:
  assumes inv: "qinv q s" and i: "pc s i = SetLocked n"
  shows "qinv q (exec i s)"
proof -
  have p: "parts_inv q (lockw s) (pc s) (node s)" using inv by (simp add: qinv_def)
  obtain r where q: "q = i # r" by (rule head_of [OF p, of i]) (use i in simp_all)
  have t: "thread_inv i (SetLocked n) (node s i)" using own_thread [OF p, of i] i by simp
  have ln: "\<forall>j. n = Some j \<longrightarrow> next_node (node s i) = Some j"
    using head_facts(2) [OF p [unfolded q]] i by simp
  have su: "\<exists>j. coming (pc s j)" if "r = []"
    using p i that q by (auto simp: parts_inv_def succ_inv_def)
  define x where "x = (case n of None \<Rightarrow> WaitNext | Some j \<Rightarrow> Handoff j)"
  have x: "x = WaitNext \<or> x = Handoff (the n)" by (cases n) (simp_all add: x_def)
  have "word_inv (i # r) (set_locked (lockw s)) ((pc s)(i := x))"
    using word_set_locked [OF p i q x] q by simp
  then have "parts_inv (i # r) (set_locked (lockw s)) ((pc s)(i := x)) (node s)"
    by (intro parts_head [OF p [unfolded q]])
      (use ln t su x in \<open>auto simp: thread_inv_def x_def split: option.splits\<close>)
  then show ?thesis using i q by (simp add: step_simps x_def)
qed

lemma step_WaitNext:
  assumes inv: "qinv q s" and i: "pc s i = WaitNext"
  shows "qinv q (exec i s)"
proof (cases "next_node (node s i)")
  case None
  then show ?thesis using assms by (simp add: exec_def)
next
  case (Some j)
  have p: "parts_inv q (lockw s) (pc s) (node s)" using inv by (simp add: qinv_def)
  obtain r where q: "q = i # r" by (rule head_of [OF p, of i]) (use i in simp_all)
  have "parts_inv (i # r) (lockw s) ((pc s)(i := Handoff j)) (node s)"
    by (intro parts_head [OF p [unfolded q]] word_frame parts_word [OF p [unfolded q]])
      (use Some i own_thread [OF p, of i] in \<open>auto simp: thread_inv_def\<close>)
  then show ?thesis using i Some q by (simp add: step_simps)
qed

lemma step_Handoff:
  assumes inv: "qinv q s" and i: "pc s i = Handoff j"
  shows "\<exists>r. q = i # j # r \<and> qinv (j # r) (exec i s)"
proof -
  let ?f = "pc s" and ?nd = "node s"
  have p: "parts_inv q (lockw s) ?f ?nd" using inv by (simp add: qinv_def)
  obtain r' where q': "q = i # r'" by (rule head_of [OF p, of i]) (use i in simp_all)
  have nx: "next_node (?nd i) = Some j"
    using head_facts(2) [OF p [unfolded q'], of j] i by simp
  have ch: "chain ?f ?nd (i # r')" and di: "distinct (i # r')"
    using parts_queue [OF p] q' by (simp_all add: queue_inv_def)
  from chain_next [OF ch nx] obtain r where r: "r' = j # r" and j: "?f j = WaitNode" by blast
  have ne: "i \<noteq> j" "i \<notin> set r" "j \<notin> set r" using di r by simp_all
  let ?f' = "?f(i := ReleaseNode)" and ?nd' = "?nd(j := nlocked_update (\<lambda>_. 1) (?nd j))"
  have "queue_inv (j # r) ?f' ?nd'"
    unfolding queue_inv_def
  proof (intro conjI)
    show "distinct (j # r)" using di r by simp
    show "\<forall>k. queued (?f' k) \<longleftrightarrow> k \<in> set (j # r)"
      using queued_iff [OF p] ne by (auto simp: q' r queued_def)
    have "chain ?f ?nd (j # r) \<longleftrightarrow> chain ?f' ?nd' (j # r)"
      by (rule chain_cong) (use ne in auto)
    then show "chain ?f' ?nd' (j # r)" using chain_tl [OF ch] r by simp
    show "head_inv ?f' ?nd' (j # r)" using ne j by (simp add: head_inv_def)
  qed
  moreover have "\<forall>k. thread_inv k (?f' k) (?nd' k)"
  proof
    fix k
    show "thread_inv k (?f' k) (?nd' k)"
      using own_thread [OF p, of k] i j ne by (cases "k = i"; cases "k = j") (simp_all add: thread_inv_def)
  qed
  moreover have "succ_inv (j # r) ?f'"
    using j ne by (simp add: succ_inv_def)
  moreover have "word_inv (j # r) (lockw s) ?f'"
  proof -
    have "word_inv q (lockw s) ?f'"
      by (intro word_frame parts_word [OF p]) (simp_all add: i)
    then show ?thesis by (simp add: word_inv_def tail_of_def q' r)
  qed
  ultimately have "parts_inv (j # r) (lockw s) ?f' ?nd'" by (simp add: parts_inv_def)
  then show ?thesis using i q' r by (simp add: step_simps)
qed

subsection \<open>All steps\<close>

lemma step_queue:
  assumes inv: "qinv q s" and i: "i < MAX_USER_THREADS"
  shows "\<exists>q'. qinv q' (exec i s) \<and>
    (q' = q \<or> pc s i = XchgTail \<and> q' = q @ [i] \<or>
     q = i # q' \<and> claims (pc s i) \<and> owns (pc (exec i s) i) \<or>
     (\<exists>j r. q = i # q' \<and> q' = j # r \<and> pc s i = Handoff j))"
proof (cases "pc s i")
  case (HeadTry n v)
  show ?thesis
  proof (cases "lockw s = v")
    case True
    from step_HeadTry_success [OF inv HeadTry True] have "q = [i]" "qinv [] (exec i s)" by simp_all
    moreover have "owns (pc (exec i s) i)" using HeadTry True by (simp add: exec_def exec_updates)
    ultimately show ?thesis using HeadTry by (intro exI [of _ "[]"]) simp
  next
    case False
    then show ?thesis using step_HeadTry_failure [OF inv HeadTry] by blast
  qed
next
  case (Handoff j)
  from step_Handoff [OF inv this] obtain r where "q = i # j # r" "qinv (j # r) (exec i s)" by blast
  with Handoff show ?thesis by (intro exI [of _ "j # r"]) simp
next
  case XchgTail
  with step_XchgTail [OF inv this] show ?thesis by blast
next
  case Idle
  then have "qinv q (exec i s)" by (rule step_Idle [OF inv _ i])
  then show ?thesis by blast
next
  case (PendWait cnt)
  then have "qinv q (exec i s)" by (rule step_PendWait [OF inv])
  then show ?thesis by blast
next
  case SetPending
  then have "qinv q (exec i s)" by (rule step_SetPending [OF inv])
  then show ?thesis by blast
next
  case ClearPending
  then have "qinv q (exec i s)" by (rule step_ClearPending [OF inv])
  then show ?thesis by blast
next
  case WaitLocked
  then have "qinv q (exec i s)" by (rule step_WaitLocked [OF inv])
  then show ?thesis by blast
next
  case TakeOwner
  then have "qinv q (exec i s)" by (rule step_TakeOwner [OF inv])
  then show ?thesis by blast
next
  case NodeGrab
  then have "qinv q (exec i s)" by (rule step_NodeGrab [OF inv])
  then show ?thesis by blast
next
  case NodeInitLocked
  then have "qinv q (exec i s)" by (rule step_NodeInitLocked [OF inv])
  then show ?thesis by blast
next
  case NodeInitNext
  then have "qinv q (exec i s)" by (rule step_NodeInitNext [OF inv])
  then show ?thesis by blast
next
  case TryRead
  then have "qinv q (exec i s)" by (rule step_TryRead [OF inv])
  then show ?thesis by blast
next
  case TryCas
  then have "qinv q (exec i s)" by (rule step_TryCas [OF inv])
  then show ?thesis by blast
next
  case (Link old)
  then have "qinv q (exec i s)" by (rule step_Link [OF inv])
  then show ?thesis by blast
next
  case WaitNode
  then have "qinv q (exec i s)" by (rule step_WaitNode [OF inv])
  then show ?thesis by blast
next
  case ReadNext
  then have "qinv q (exec i s)" by (rule step_ReadNext [OF inv])
  then show ?thesis by blast
next
  case (WaitHead n)
  then have "qinv q (exec i s)" by (rule step_WaitHead [OF inv])
  then show ?thesis by blast
next
  case (SetLocked n)
  then have "qinv q (exec i s)" by (rule step_SetLocked [OF inv])
  then show ?thesis by blast
next
  case WaitNext
  then have "qinv q (exec i s)" by (rule step_WaitNext [OF inv])
  then show ?thesis by blast
next
  case ReleaseNode
  then have "qinv q (exec i s)" by (rule step_ReleaseNode [OF inv])
  then show ?thesis by blast
next
  case Crit
  then have "qinv q (exec i s)" by (rule step_Crit [OF inv])
  then show ?thesis by blast
next
  case Aborted
  then have "qinv q (exec i s)" using inv by (simp add: exec_def)
  then show ?thesis by blast
qed

subsection \<open>Progress\<close>

definition can_move :: "qstate \<Rightarrow> bool" where
  "can_move s \<longleftrightarrow> (\<exists>j. pc s j \<noteq> Idle \<and> exec j s \<noteq> s)"

lemma can_moveI: "pc s j \<noteq> Idle \<Longrightarrow> pc (exec j s) j \<noteq> pc s j \<Longrightarrow> can_move s"
  unfolding can_move_def by metis

text \<open>The program counters at which a thread never waits.\<close>

fun runs :: "pc \<Rightarrow> bool" where
  "runs Idle = False" | "runs WaitLocked = False" | "runs WaitNode = False" | "runs (WaitHead _) = False"
| "runs WaitNext = False" | "runs Aborted = False" | "runs _ = True"

lemma runs_move: "runs (pc s j) \<Longrightarrow> can_move s"
proof (rule can_moveI [of s j])
  assume r: "runs (pc s j)"
  then show "pc s j \<noteq> Idle" by auto
  show "pc (exec j s) j \<noteq> pc s j"
    using r contention_cases [of "lockw s"] after_set_pending_cases [of "lockw s"]
    by (cases "pc s j")
      (auto simp: exec_def exec_updates Let_def queued_fetch_set_pending_def xchg_tail_def split: option.splits)
qed

lemma coming_runs: "coming p \<Longrightarrow> runs p"
  by (cases p) auto

lemma owner_progress:
  assumes inv: "qinv q s" and i: "owns (pc s i)"
  shows "can_move s"
proof (cases "pc s i = WaitNext")
  case False
  then have "runs (pc s i)" using i by (cases "pc s i") auto
  then show ?thesis by (rule runs_move)
next
  case True
  have p: "parts_inv q (lockw s) (pc s) (node s)" using inv by (simp add: qinv_def)
  obtain r where q: "q = i # r" by (rule head_of [OF p, of i]) (use True in simp_all)
  show ?thesis
  proof (cases r)
    case Nil
    then obtain j where "coming (pc s j)"
      using p True q by (auto simp: parts_inv_def succ_inv_def)
    then show ?thesis by (intro runs_move coming_runs)
  next
    case (Cons k r')
    then have c: "case pc s k of Link old \<Rightarrow> old = encode_tail i \<and> next_node (node s i) = None
        | _ \<Rightarrow> next_node (node s i) = Some k"
      using parts_queue [OF p] q by (simp add: queue_inv_def)
    show ?thesis
    proof (cases "\<exists>old. pc s k = Link old")
      case True
      then have "runs (pc s k)" by auto
      then show ?thesis by (rule runs_move)
    next
      case False
      then have "next_node (node s i) = Some k" using c by (cases "pc s k") auto
      then show ?thesis using True by (intro can_moveI [of s i]) (simp_all add: exec_def exec_updates)
    qed
  qed
qed

lemma pending_progress:
  assumes inv: "qinv q s" and i: "pends (pc s i)"
  shows "can_move s"
proof (cases "pc s i = WaitLocked")
  case False
  then have "runs (pc s i)" using i by (cases "pc s i") auto
  then show ?thesis by (rule runs_move)
next
  case True
  have p: "parts_inv q (lockw s) (pc s) (node s)" using inv by (simp add: qinv_def)
  then obtain ow pe where w: "lockw s = mkw (ow \<noteq> None) (pe \<noteq> None) (tail_of q)" "valid_tail (tail_of q)"
    "\<And>i. owns (pc s i) \<longleftrightarrow> ow = Some i" "\<And>i. pends (pc s i) \<longleftrightarrow> pe = Some i"
    by (rule word_invE) blast
  show ?thesis
  proof (cases ow)
    case None
    then have "lockw s AND Q_LOCKED_MASK = 0" unfolding w(1) mkw_tests(5) [OF w(2)] by simp
    then show ?thesis using True by (intro can_moveI [of s i]) (simp_all add: exec_def exec_updates)
  next
    case (Some j)
    then have "owns (pc s j)" using w(3) by simp
    then show ?thesis by (rule owner_progress [OF inv])
  qed
qed

lemma queue_progress:
  assumes inv: "qinv q s" and "q \<noteq> []"
  shows "can_move s"
proof -
  have p: "parts_inv q (lockw s) (pc s) (node s)" using inv by (simp add: qinv_def)
  obtain h r where q: "q = h # r" using assms(2) by (cases q) auto
  note hd = head_facts [OF p [unfolded q]]
  consider "runs (pc s h)" | "pc s h = WaitNext" | "pc s h = WaitNode" | n where "pc s h = WaitHead n"
    using hd(1) by (cases "pc s h") auto
  then show ?thesis
  proof cases
    case 1
    then show ?thesis by (rule runs_move)
  next
    case 2
    then show ?thesis using owner_progress [OF inv, of h] by simp
  next
    case 3
    then show ?thesis using hd(4) by (intro can_moveI [of s h]) (simp_all add: exec_def exec_updates)
  next
    case (4 n)
    from p obtain ow pe where w: "lockw s = mkw (ow \<noteq> None) (pe \<noteq> None) (tail_of q)" "valid_tail (tail_of q)"
      "\<And>i. owns (pc s i) \<longleftrightarrow> ow = Some i" "\<And>i. pends (pc s i) \<longleftrightarrow> pe = Some i"
      by (rule word_invE) blast
    show ?thesis
    proof (cases "ow = None \<and> pe = None")
      case True
      then have "lockw s AND Q_LOCKED_PENDING_MASK = 0" unfolding w(1) mkw_tests(6) [OF w(2)] by simp
      then show ?thesis using 4 by (intro can_moveI [of s h]) (simp_all add: exec_def exec_updates)
    next
      case False
      then obtain j where "owns (pc s j) \<or> pends (pc s j)" using w(3,4) by auto
      then show ?thesis using owner_progress [OF inv] pending_progress [OF inv] by blast
    qed
  qed
qed

lemma engaged_progress:
  assumes inv: "qinv q s" and i: "pc s i \<noteq> Idle"
  shows "can_move s"
proof -
  have p: "parts_inv q (lockw s) (pc s) (node s)" using inv by (simp add: qinv_def)
  consider "runs (pc s i)" | "pends (pc s i)" | "queued (pc s i)" | "pc s i = Aborted"
    using i by (cases "pc s i") (auto simp: queued_def)
  then show ?thesis
  proof cases
    case 1
    then show ?thesis by (rule runs_move)
  next
    case 2
    then show ?thesis by (rule pending_progress [OF inv])
  next
    case 3
    then have "q \<noteq> []" using queued_iff [OF p, of i] by auto
    then show ?thesis by (rule queue_progress [OF inv])
  next
    case 4
    then show ?thesis using own_thread [OF p, of i] by (simp add: thread_inv_def)
  qed
qed

subsection \<open>The lock as a lock system\<close>

definition qholds :: "qstate \<Rightarrow> nat \<Rightarrow> bool" where
  "qholds s i \<longleftrightarrow> owns (pc s i)"

definition qengaged :: "qstate \<Rightarrow> nat \<Rightarrow> bool" where
  "qengaged s i \<longleftrightarrow> pc s i \<noteq> Idle"

definition qreachable :: "qstate \<Rightarrow> bool" where
  "qreachable = reachable (\<lambda>s. s = qinit) qstep"

lemma qinv_init: "qinv [] qinit"
proof -
  have "word_inv [] 0 (\<lambda>_. Idle)"
    by (rule word_invI [where ow = None and pe = None]) (simp_all add: tail_of_def mkw_values)
  then show ?thesis
    by (simp add: qinv_def parts_inv_def qinit_def queue_inv_def head_inv_def succ_inv_def thread_inv_def queued_def)
qed

interpretation qlock: progress_lock "\<lambda>s. s = qinit" qstep "\<lambda>s. \<exists>q. qinv q s" qholds qengaged exec
proof unfold_locales
  show "s = qinit \<Longrightarrow> \<exists>q. qinv q s" for s using qinv_init by blast
  show "\<exists>q. qinv q s \<Longrightarrow> qstep s t \<Longrightarrow> \<exists>q. qinv q t" for s t
    using step_queue by (blast elim: qstepE)
  show "i = j" if inv: "\<exists>q. qinv q s" and "qholds s i" "qholds s j" for s i j
  proof -
    from inv obtain q where "parts_inv q (lockw s) (pc s) (node s)" by (auto simp: qinv_def)
    then obtain ow pe where "lockw s = mkw (ow \<noteq> None) (pe \<noteq> None) (tail_of q)"
      "\<And>i. owns (pc s i) \<longleftrightarrow> ow = Some i" "\<And>i. pends (pc s i) \<longleftrightarrow> pe = Some i"
      by (rule word_invE) blast
    with that(2,3) show ?thesis by (simp add: qholds_def)
  qed
  show "qstep s (exec i s)" if "qengaged s i" "\<exists>q. qinv q s" for s i
    using that own_thread [of _ "lockw s" "pc s" "node s" i]
    by (auto simp: qengaged_def qinv_def thread_inv_def intro!: qstep.access)
  show "\<exists>j. qengaged s j \<and> exec j s \<noteq> s" if "\<exists>q. qinv q s" "qengaged s i" for s i
    using that engaged_progress [of _ s i] by (auto simp: qengaged_def can_move_def)
qed

lemma qreachable_qinv: "qreachable s \<Longrightarrow> \<exists>q. qinv q s"
  unfolding qreachable_def by (rule qlock.reachable_inv)

lemma qreachable_run: "set is \<subseteq> {..<MAX_USER_THREADS} \<Longrightarrow> qreachable s \<Longrightarrow> qreachable (fold exec is s)"
proof (induction "is" arbitrary: s)
  case (Cons i "is")
  have "qstep s (exec i s)" using Cons.prems(1) by (intro qstep.access) simp
  then have "qreachable (exec i s)" using Cons.prems(2) unfolding qreachable_def by (rule reach_step [rotated])
  then show ?case using Cons by simp
qed simp

lemma qreachable_init: "qreachable qinit"
  unfolding qreachable_def by (rule reach_init) (rule refl)

lemma word_bits:
  assumes "parts_inv q w f nd"
  shows "w AND Q_LOCKED_MASK \<noteq> 0 \<longleftrightarrow> (\<exists>i. owns (f i))" "w AND Q_PENDING_MASK \<noteq> 0 \<longleftrightarrow> (\<exists>i. pends (f i))"
proof -
  obtain ow pe where w: "w = mkw (ow \<noteq> None) (pe \<noteq> None) (tail_of q)" and v: "valid_tail (tail_of q)"
    and r: "\<And>i. owns (f i) \<longleftrightarrow> ow = Some i" "\<And>i. pends (f i) \<longleftrightarrow> pe = Some i"
    using assms by (rule word_invE) blast
  show "w AND Q_LOCKED_MASK \<noteq> 0 \<longleftrightarrow> (\<exists>i. owns (f i))" unfolding w mkw_tests(5) [OF v] using r(1) by auto
  show "w AND Q_PENDING_MASK \<noteq> 0 \<longleftrightarrow> (\<exists>i. pends (f i))" unfolding w mkw_tests(4) [OF v] using r(2) by auto
qed

subsection \<open>Properties\<close>

text \<open>C1: Mutual exclusion: however the threads' accesses interleave, at most one of them owns the lock,
  from the access that acquires it (by the fast path, the pending byte, or the queue, where the
  owner still has to hand the queue on and give back its node) to the unlock.\<close>

theorem qspinlock_mutual_exclusion:
  assumes "qreachable s" "owns (pc s i)" "owns (pc s j)"
  shows "i = j"
  using qlock.mutual_exclusion [of s i j] assms by (simp add: qreachable_def qholds_def)

theorem qspinlock_mutual_exclusion_witness:
  "qreachable (exec 5 qinit) \<and> {j. owns (pc (exec 5 qinit) j)} = {5}"
proof -
  have r: "qreachable (exec 5 qinit)"
    using qreachable_run [of "[5]", OF _ qreachable_init] by (simp add: MAX_USER_THREADS_def)
  have o: "owns (pc (exec 5 qinit) 5)" by (simp add: exec_def exec_updates qinit_def)
  show ?thesis using r o qspinlock_mutual_exclusion [OF r o] by blast
qed

text \<open>C6: First in, first out: the threads that have exchanged the tail form a queue that grows only at
  its end, by the exchange, and shrinks only at its head, by a thread that takes or has taken the
  lock; every other access of any thread leaves the queue as it is.\<close>

theorem qspinlock_fifo:
  assumes "qinv q s" "i < MAX_USER_THREADS"
  shows "\<exists>q'. qinv q' (exec i s) \<and> (\<forall>j. j \<in> set q \<longleftrightarrow> queued (pc s j)) \<and>
    (q' = q \<or> pc s i = XchgTail \<and> q' = q @ [i] \<or> q = i # q' \<and> owns (pc (exec i s) i))"
proof -
  have "\<forall>j. j \<in> set q \<longleftrightarrow> queued (pc s j)"
    using assms(1) queued_iff by (simp add: qinv_def)
  moreover obtain q' where "qinv q' (exec i s)" "q' = q \<or> pc s i = XchgTail \<and> q' = q @ [i] \<or>
      q = i # q' \<and> claims (pc s i) \<and> owns (pc (exec i s) i) \<or> (\<exists>j r. q = i # q' \<and> q' = j # r \<and> pc s i = Handoff j)"
    using step_queue [OF assms] by blast
  moreover have "pc s i = Handoff j \<Longrightarrow> owns (pc (exec i s) i)" for j
    by (simp add: exec_def exec_updates)
  ultimately show ?thesis by blast
qed

theorem qspinlock_fifo_witness:
  "\<exists>q'. qinv q' (exec 3 qinit) \<and> (\<forall>j. j \<in> set [] \<longleftrightarrow> queued (pc qinit j)) \<and>
    (q' = [] \<or> pc qinit 3 = XchgTail \<and> q' = [] @ [3] \<or> [] = 3 # q' \<and> owns (pc (exec 3 qinit) 3))"
  using qspinlock_fifo [OF qinv_init, of 3] by (simp add: MAX_USER_THREADS_def)

text \<open>Remark: The code never aborts: no thread ever finds its node in use, and every tail code that is
  decoded names an existing thread, so neither \<open>abort()\<close> nor the assertion of \<open>decode_tail\<close> is reached;
  outside its slow path a thread's node is free.\<close>

theorem qspinlock_never_aborts:
  assumes "qreachable s"
  shows "pc s i \<noteq> Aborted \<and> count (node s i) = (if node_taken (pc s i) then 1 else 0)"
proof -
  obtain q where "qinv q s" using qreachable_qinv [OF assms] by blast
  then have "thread_inv i (pc s i) (node s i)" by (simp add: qinv_def parts_inv_def)
  then show ?thesis by (simp add: thread_inv_def)
qed

theorem qspinlock_never_aborts_witness: "pc qinit 9 \<noteq> Aborted \<and> count (node qinit 9) = 0"
  using qspinlock_never_aborts [OF qreachable_init, of 9] by (simp add: qinit_def)

text \<open>C8: No deadlock: in every reachable state in which some thread is acquiring or holding the lock,
  a thread that is acquiring or holding it can make an access that changes the state, so the waits
  of the code never all block each other.\<close>

theorem qspinlock_no_deadlock:
  assumes "qreachable s" "pc s i \<noteq> Idle"
  shows "\<exists>j. pc s j \<noteq> Idle \<and> exec j s \<noteq> s \<and> qstep s (exec j s)"
  using qlock.no_deadlock [of s i] assms by (auto simp: qreachable_def qengaged_def)

theorem qspinlock_no_deadlock_witness:
  "\<exists>j. pc (exec 2 qinit) j \<noteq> Idle \<and> exec j (exec 2 qinit) \<noteq> exec 2 qinit \<and> qstep (exec 2 qinit) (exec j (exec 2 qinit))"
proof (rule qspinlock_no_deadlock)
  show "qreachable (exec 2 qinit)"
    using qreachable_run [of "[2]", OF _ qreachable_init] by (simp add: MAX_USER_THREADS_def)
  show "pc (exec 2 qinit) 2 \<noteq> Idle" by (simp add: exec_def exec_updates qinit_def)
qed



end
