(* ===== verification/QDrivers.thy ===== *)
theory QDrivers
  imports QSpinlock
begin

text \<open>
  The test and the benchmark of the queued spinlock (\<open>src/qspinlock/test.c\<close>, \<open>src/qspinlock/bench.c\<close>): workers that
  lock, unlock and count, a main thread that prints the growth of the counters, and the dump of lock and nodes at
  the end of the test.

  \<^item> The lock is that of \<open>QSpinlock\<close>: a worker makes one of its accesses a step. \<open>acquired\<close> only counts.
  \<^item> \<open>SIGINT\<close> may come at any time; a cancelled worker may end at any of its steps.
  \<^item> A column is the thread and the number printed for it. The loops that only take time are left out.
\<close>

subsection \<open>State\<close>

datatype worker_at = W_None | W_Begin | W_Lock | W_Busy | W_Count | W_Gone

datatype driver_at = D_Create nat | D_Loop | D_Print nat | D_Cancel nat | D_Join nat | D_Dump | D_Return

record dump_line =
  d_locked :: nat
  d_count :: nat
  d_next :: "int option"
  d_multiple :: bool

record dump =
  l_locked :: bool
  l_pending :: bool
  l_tail :: int
  l_nodes :: "dump_line list option"

record driver =
  qlock_st :: qstate
  worker :: "nat \<Rightarrow> worker_at"
  counters :: "nat \<Rightarrow> u64"
  thread_index :: "nat \<Rightarrow> int"
  cancelled :: "nat \<Rightarrow> bool"
  stop_flag :: bool
  main_pc :: driver_at
  prev_counts :: "nat \<Rightarrow> u64"
  columns :: "(nat \<times> u64) list"
  line_sum :: u64
  totals :: "u64 list"
  dumped :: "dump option"
  acquired :: "nat \<Rightarrow> nat"

definition driver_init :: driver where
  "driver_init = \<lparr>qlock_st = qinit, worker = (\<lambda>_. W_None), counters = (\<lambda>_. 0), thread_index = (\<lambda>_. 0), cancelled = (\<lambda>_. False),
     stop_flag = False, main_pc = D_Create 0, prev_counts = (\<lambda>_. 0), columns = [], line_sum = 0, totals = [], dumped = None,
     acquired = (\<lambda>_. 0)\<rparr>"

subsection \<open>Workers\<close>

definition worker_thread :: "nat \<Rightarrow> driver \<Rightarrow> driver option" where
  "worker_thread i s =
     (case worker s i of
        W_Begin \<Rightarrow> Some (s\<lparr>thread_index := (thread_index s)(i := int i), worker := (worker s)(i := W_Lock)\<rparr>)
      | W_Lock \<Rightarrow> let q = exec i (qlock_st s)
          in if pc q i = Crit
             then Some (s\<lparr>qlock_st := q, worker := (worker s)(i := W_Busy), acquired := (acquired s)(i := acquired s i + 1)\<rparr>)
             else Some (s\<lparr>qlock_st := q\<rparr>)
      | W_Busy \<Rightarrow> Some (s\<lparr>qlock_st := exec i (qlock_st s), worker := (worker s)(i := W_Count)\<rparr>)
      | W_Count \<Rightarrow> Some (s\<lparr>counters := (counters s)(i := counters s i + 1), worker := (worker s)(i := W_Lock)\<rparr>)
      | W_None \<Rightarrow> None
      | W_Gone \<Rightarrow> None)"

subsection \<open>The dump\<close>

fun dump_nodes :: "qstate \<Rightarrow> (nat \<Rightarrow> int) \<Rightarrow> nat list \<Rightarrow> bool list \<Rightarrow> dump_line list option" where
  "dump_nodes q ti [] exists = Some []"
| "dump_nodes q ti (i # rest) exists =
     (case next_node (node q i) of
        None \<Rightarrow> map_option (Cons \<lparr>d_locked = nlocked (node q i), d_count = qnode.count (node q i), d_next = None, d_multiple = False\<rparr>)
          (dump_nodes q ti rest exists)
      | Some j \<Rightarrow>
          if ti j < 0 \<or> int MAX_USER_THREADS \<le> ti j then None
          else map_option (Cons \<lparr>d_locked = nlocked (node q i), d_count = qnode.count (node q i), d_next = Some (ti j),
                 d_multiple = exists ! nat (ti j)\<rparr>)
            (dump_nodes q ti rest (exists[nat (ti j) := True])))"

definition dump_all :: "nat \<Rightarrow> qstate \<Rightarrow> (nat \<Rightarrow> int) \<Rightarrow> dump" where
  "dump_all n q ti =
     \<lparr>l_locked = (lockw q AND Q_LOCKED_MASK \<noteq> 0), l_pending = (lockw q AND Q_PENDING_MASK \<noteq> 0), l_tail = tail_thread_index (lockw q),
      l_nodes = dump_nodes q ti [0..<n] (replicate MAX_USER_THREADS False)\<rparr>"

subsection \<open>The main threads\<close>

definition create_worker :: "nat \<Rightarrow> driver \<Rightarrow> driver" where
  "create_worker i s = s\<lparr>thread_index := (thread_index s)(i := - 1), worker := (worker s)(i := W_Begin), main_pc := D_Create (i + 1)\<rparr>"

definition print_column :: "nat \<Rightarrow> driver \<Rightarrow> driver" where
  "print_column i s =
     (let current_count = counters s i
      in s\<lparr>columns := columns s @ [(i, current_count - prev_counts s i)], line_sum := line_sum s + (current_count - prev_counts s i),
           prev_counts := (prev_counts s)(i := current_count), main_pc := D_Print (i + 1)\<rparr>)"

text \<open>\<open>main\<close> of \<open>test.c\<close> for \<open>n\<close> threads; it keeps no sum, \<open>line_sum\<close> is only for the other program.\<close>

definition main_test :: "nat \<Rightarrow> driver \<Rightarrow> driver option" where
  "main_test n s =
     (case main_pc s of
        D_Create i \<Rightarrow> Some (if i < n then create_worker i s else s\<lparr>main_pc := D_Loop\<rparr>)
      | D_Loop \<Rightarrow> Some (if stop_flag s then s\<lparr>main_pc := D_Cancel 0\<rparr> else s\<lparr>main_pc := D_Print 0\<rparr>)
      | D_Print i \<Rightarrow> Some (if i < n then print_column i s else s\<lparr>main_pc := D_Loop\<rparr>)
      | D_Cancel i \<Rightarrow> Some (if i < n then s\<lparr>cancelled := (cancelled s)(i := True), main_pc := D_Cancel (i + 1)\<rparr> else s\<lparr>main_pc := D_Join 0\<rparr>)
      | D_Join i \<Rightarrow> if i < n then (if worker s i = W_Gone then Some (s\<lparr>main_pc := D_Join (i + 1)\<rparr>) else None) else Some (s\<lparr>main_pc := D_Dump\<rparr>)
      | D_Dump \<Rightarrow> Some (s\<lparr>dumped := Some (dump_all n (qlock_st s) (thread_index s)), main_pc := D_Return\<rparr>)
      | D_Return \<Rightarrow> None)"

definition main_bench :: "nat \<Rightarrow> driver \<Rightarrow> driver option" where
  "main_bench n s =
     (case main_pc s of
        D_Create i \<Rightarrow> Some (if i < n then create_worker i s else s\<lparr>main_pc := D_Loop\<rparr>)
      | D_Loop \<Rightarrow> Some (s\<lparr>line_sum := 0, main_pc := D_Print 0\<rparr>)
      | D_Print i \<Rightarrow> Some (if i < n then print_column i s else s\<lparr>totals := totals s @ [line_sum s], main_pc := D_Loop\<rparr>)
      | _ \<Rightarrow> None)"

text \<open>The number of threads on the command line.\<close>

definition thread_count_of :: "string list \<Rightarrow> nat option option" where
  "thread_count_of args =
     (case args of [] \<Rightarrow> Some (Some 16)
      | a # _ \<Rightarrow> (case atoi a of None \<Rightarrow> None | Some n \<Rightarrow> Some (if n \<le> 0 \<or> int MAX_USER_THREADS < n then None else Some (nat n))))"

inductive driver_step :: "(nat \<Rightarrow> driver \<Rightarrow> driver option) \<Rightarrow> nat \<Rightarrow> driver \<Rightarrow> driver \<Rightarrow> bool" for main n where
  main_steps: "main n s = Some t \<Longrightarrow> driver_step main n s t"
| worker_steps: "i < n \<Longrightarrow> worker_thread i s = Some t \<Longrightarrow> driver_step main n s t"
| sigint: "driver_step main n s (s\<lparr>stop_flag := True\<rparr>)"
| cancels: "i < n \<Longrightarrow> cancelled s i \<Longrightarrow> worker s i \<notin> {W_None, W_Gone} \<Longrightarrow> driver_step main n s (s\<lparr>worker := (worker s)(i := W_Gone)\<rparr>)"

subsection \<open>What one access of the lock changes\<close>

lemma exec_other: "j \<noteq> i \<Longrightarrow> pc (exec i s) j = pc s j"
  by (cases "pc s i") (auto simp: exec_def exec_updates Let_def split: prod.split option.split)

lemma exec_unlock: "pc s i = Crit \<Longrightarrow> pc (exec i s) i = Idle"
  by (simp add: exec_def exec_updates)

lemma exec_links: "next_node (node (exec i s) k) \<in> {next_node (node s k), None, Some i}"
  by (cases "pc s i") (auto simp: exec_def exec_updates Let_def split: prod.split option.split)

lemma exec_reachable: "qreachable q \<Longrightarrow> i < MAX_USER_THREADS \<Longrightarrow> qreachable (exec i q)"
  using qreachable_run [of "[i]" q] by simp

subsection \<open>Invariant of the workers\<close>

definition worker_ok :: "worker_at \<Rightarrow> pc \<Rightarrow> bool" where
  "worker_ok w p \<longleftrightarrow>
     (case w of W_None \<Rightarrow> p = Idle | W_Begin \<Rightarrow> p = Idle | W_Lock \<Rightarrow> p \<noteq> Crit | W_Busy \<Rightarrow> p = Crit | W_Count \<Rightarrow> p = Idle | W_Gone \<Rightarrow> True)"

definition count_ok :: "worker_at \<Rightarrow> u64 \<Rightarrow> nat \<Rightarrow> bool" where
  "count_ok w c a \<longleftrightarrow>
     (case w of W_Busy \<Rightarrow> of_nat a = c + 1 | W_Count \<Rightarrow> of_nat a = c + 1 | W_Gone \<Rightarrow> of_nat a = c \<or> of_nat a = c + 1 | _ \<Rightarrow> of_nat a = c)"

definition column_sum :: "nat \<Rightarrow> (nat \<times> u64) list \<Rightarrow> u64" where
  "column_sum i cs = sum_list (map snd (filter (\<lambda>c. fst c = i) cs))"

definition pointed :: "qstate \<Rightarrow> nat \<Rightarrow> bool" where
  "pointed q j \<longleftrightarrow> (\<exists>k. next_node (node q k) = Some j)"

definition workers_inv :: "nat \<Rightarrow> driver \<Rightarrow> bool" where
  "workers_inv n s \<longleftrightarrow>
     qreachable (qlock_st s) \<and>
     (\<forall>i. worker_ok (worker s i) (pc (qlock_st s) i) \<and> count_ok (worker s i) (counters s i) (acquired s i) \<and>
        (worker s i \<in> {W_Lock, W_Busy, W_Count} \<longrightarrow> thread_index s i = int i) \<and>
        (worker s i = W_None \<longrightarrow> \<not> pointed (qlock_st s) i) \<and>
        (pointed (qlock_st s) i \<longrightarrow> thread_index s i = int i) \<and>
        (n \<le> i \<longrightarrow> worker s i = W_None) \<and>
        prev_counts s i = column_sum i (columns s)) \<and>
     (\<forall>m. main_pc s = D_Create m \<longrightarrow> (\<forall>i\<ge>m. worker s i = W_None))"

text \<open>What both main threads promise: they create workers and print columns, and otherwise leave the state of the
  workers alone.\<close>

locale driver_main =
  fixes main :: "nat \<Rightarrow> driver \<Rightarrow> driver option"
  assumes main_moves: "main n s = Some t \<Longrightarrow>
     (\<exists>i<n. main_pc s = D_Create i \<and> t = create_worker i s) \<or> (\<exists>i<n. main_pc s = D_Print i \<and> t = print_column i s) \<or>
     (qlock_st t = qlock_st s \<and> worker t = worker s \<and> counters t = counters s \<and> thread_index t = thread_index s \<and>
      columns t = columns s \<and> prev_counts t = prev_counts s \<and> acquired t = acquired s \<and> (\<forall>m. main_pc t \<noteq> D_Create m))"

lemma workers_inv_init: "workers_inv n driver_init"
  by (simp add: workers_inv_def driver_init_def qreachable_init worker_ok_def count_ok_def column_sum_def pointed_def) (simp add: qinit_def)

lemma created_inv:
  assumes "workers_inv n s" "i < n" "main_pc s = D_Create i"
  shows "workers_inv n (create_worker i s)"
  using assms by (auto simp: workers_inv_def create_worker_def worker_ok_def count_ok_def)

lemma column_inv:
  assumes "workers_inv n s"
  shows "workers_inv n (print_column i s)"
  using assms by (auto simp: workers_inv_def print_column_def column_sum_def Let_def)

lemma gone_inv:
  assumes "workers_inv n s" "worker s i \<notin> {W_None, W_Gone}"
  shows "workers_inv n (s\<lparr>worker := (worker s)(i := W_Gone)\<rparr>)"
proof -
  have "i < n" using assms by (auto simp: workers_inv_def not_le)
  moreover have "count_ok W_Gone (counters s i) (acquired s i)"
  proof -
    have "count_ok (worker s i) (counters s i) (acquired s i)" using assms(1) by (simp add: workers_inv_def)
    then show ?thesis using assms(2) by (cases "worker s i") (simp_all add: count_ok_def)
  qed
  moreover have "main_pc s = D_Create m \<Longrightarrow> i < m" for m
    using assms by (auto simp: workers_inv_def not_le)
  ultimately show ?thesis using assms by (auto simp: workers_inv_def worker_ok_def)
qed

lemma pointed_exec: "pointed (exec i q) j \<Longrightarrow> pointed q j \<or> j = i"
  unfolding pointed_def
proof (elim exE)
  fix k assume "next_node (node (exec i q) k) = Some j"
  then show "(\<exists>k. next_node (node q k) = Some j) \<or> j = i" using exec_links [of i q k] by auto
qed

text \<open>An access of a worker that has set its index.\<close>

lemma access_inv:
  assumes inv: "workers_inv n s" and le: "n \<le> MAX_USER_THREADS" and w: "worker s i \<in> {W_Lock, W_Busy}" "w \<in> {W_Lock, W_Busy, W_Count}"
    and new: "worker_ok w (pc (exec i (qlock_st s)) i)" "count_ok w (counters s i) a"
  shows "workers_inv n (s\<lparr>qlock_st := exec i (qlock_st s), worker := (worker s)(i := w), acquired := (acquired s)(i := a)\<rparr>)"
proof -
  have i: "i < n" "thread_index s i = int i" using inv w(1) by (auto simp: workers_inv_def not_le)
  have "qreachable (exec i (qlock_st s))" using inv exec_reachable i(1) le by (simp add: workers_inv_def)
  moreover have "main_pc s = D_Create m \<Longrightarrow> i < m" for m
    using inv w(1) by (auto simp: workers_inv_def not_le)
  moreover have "worker s j = W_None \<Longrightarrow> \<not> pointed (exec i (qlock_st s)) j" for j
    using inv w(1) pointed_exec [of i "qlock_st s" j] by (auto simp: workers_inv_def)
  moreover have "pointed (exec i (qlock_st s)) j \<Longrightarrow> thread_index s j = int j" for j
    using inv i(2) pointed_exec [of i "qlock_st s" j] by (auto simp: workers_inv_def)
  moreover have "j \<noteq> i \<Longrightarrow> worker_ok (worker s j) (pc (exec i (qlock_st s)) j)" for j
    using inv exec_other [of j i] by (simp add: workers_inv_def)
  ultimately show ?thesis using inv i new w(2) by (auto simp: workers_inv_def)
qed

lemma worker_step_inv:
  assumes inv: "workers_inv n s" and le: "n \<le> MAX_USER_THREADS" and st: "worker_thread i s = Some t"
  shows "workers_inv n t"
proof -
  have ok: "worker_ok (worker s i) (pc (qlock_st s) i)" "count_ok (worker s i) (counters s i) (acquired s i)"
    using inv by (simp_all add: workers_inv_def)
  show ?thesis
  proof (cases "worker s i")
    case W_Begin
    then have t: "t = s\<lparr>thread_index := (thread_index s)(i := int i), worker := (worker s)(i := W_Lock)\<rparr>"
      using st by (simp add: worker_thread_def)
    have "i < n" "main_pc s = D_Create m \<Longrightarrow> i < m" for m
      using inv W_Begin by (auto simp: workers_inv_def not_le)
    then show ?thesis using inv W_Begin ok unfolding t by (auto simp: workers_inv_def worker_ok_def count_ok_def)
  next
    case W_Lock
    then have t: "t = (if pc (exec i (qlock_st s)) i = Crit
        then s\<lparr>qlock_st := exec i (qlock_st s), worker := (worker s)(i := W_Busy), acquired := (acquired s)(i := acquired s i + 1)\<rparr>
        else s\<lparr>qlock_st := exec i (qlock_st s)\<rparr>)"
      using st by (simp add: worker_thread_def Let_def split: if_splits)
    show ?thesis
    proof (cases "pc (exec i (qlock_st s)) i = Crit")
      case True
      then show ?thesis using access_inv [OF inv le, of i W_Busy "acquired s i + 1"] W_Lock ok unfolding t
        by (simp add: worker_ok_def count_ok_def)
    next
      case False
      have "s\<lparr>qlock_st := exec i (qlock_st s)\<rparr> = s\<lparr>qlock_st := exec i (qlock_st s), worker := (worker s)(i := W_Lock), acquired := (acquired s)(i := acquired s i)\<rparr>"
        using W_Lock fun_upd_triv [of "worker s" i] by simp
      then show ?thesis using access_inv [OF inv le, of i W_Lock "acquired s i"] W_Lock ok False unfolding t
        by (simp add: worker_ok_def count_ok_def)
    qed
  next
    case W_Busy
    then have t: "t = s\<lparr>qlock_st := exec i (qlock_st s), worker := (worker s)(i := W_Count), acquired := (acquired s)(i := acquired s i)\<rparr>"
      using st by (auto simp: worker_thread_def)
    have "pc (exec i (qlock_st s)) i = Idle" using W_Busy ok exec_unlock by (simp add: worker_ok_def)
    then show ?thesis using access_inv [OF inv le, of i W_Count "acquired s i"] W_Busy ok unfolding t
      by (simp add: worker_ok_def count_ok_def)
  next
    case W_Count
    then have t: "t = s\<lparr>counters := (counters s)(i := counters s i + 1), worker := (worker s)(i := W_Lock)\<rparr>"
      using st by (simp add: worker_thread_def)
    have "i < n" "main_pc s = D_Create m \<Longrightarrow> i < m" for m
      using inv W_Count by (auto simp: workers_inv_def not_le)
    then show ?thesis using inv W_Count ok unfolding t by (auto simp: workers_inv_def worker_ok_def count_ok_def)
  qed (use st in \<open>simp_all add: worker_thread_def\<close>)
qed

context driver_main
begin

lemma driver_inv_step:
  assumes "workers_inv n s" "n \<le> MAX_USER_THREADS" "driver_step main n s t"
  shows "workers_inv n t"
  using assms(3)
proof cases
  case main_steps
  from main_moves [OF this] show ?thesis
    using created_inv [OF assms(1)] column_inv [OF assms(1)] assms(1) by (elim disjE) (auto simp: workers_inv_def)
next
  case (worker_steps i)
  then show ?thesis using worker_step_inv [OF assms(1,2)] by blast
next
  case sigint
  then show ?thesis using assms(1) by (simp add: workers_inv_def)
next
  case (cancels i)
  then show ?thesis using gone_inv [OF assms(1)] by simp
qed

lemma driver_workers:
  assumes "reachable (\<lambda>s. s = driver_init) (driver_step main n) s" "n \<le> MAX_USER_THREADS"
  shows "workers_inv n s"
  using assms(1) by (induction rule: reachable.induct) (use workers_inv_init driver_inv_step assms(2) in blast)+

lemma one_busy:
  assumes "reachable (\<lambda>s. s = driver_init) (driver_step main n) s" "n \<le> MAX_USER_THREADS" "worker s i = W_Busy" "worker s j = W_Busy"
  shows "i = j"
proof -
  have w: "workers_inv n s" by (rule driver_workers [OF assms(1,2)])
  then have "worker_ok (worker s i) (pc (qlock_st s) i)" "worker_ok (worker s j) (pc (qlock_st s) j)" "qreachable (qlock_st s)"
    by (simp_all add: workers_inv_def)
  then show ?thesis
    using qlock.mutual_exclusion [of "qlock_st s" i j] assms(3,4) by (simp add: worker_ok_def qreachable_def qholds_def)
qed

end

interpretation test_main: driver_main main_test
proof
  show "(\<exists>i<n. main_pc s = D_Create i \<and> t = create_worker i s) \<or> (\<exists>i<n. main_pc s = D_Print i \<and> t = print_column i s) \<or>
     (qlock_st t = qlock_st s \<and> worker t = worker s \<and> counters t = counters s \<and> thread_index t = thread_index s \<and>
      columns t = columns s \<and> prev_counts t = prev_counts s \<and> acquired t = acquired s \<and> (\<forall>m. main_pc t \<noteq> D_Create m))"
    if "main_test n s = Some t" for n s t
    using that by (auto simp: main_test_def split: driver_at.splits if_splits)
qed

interpretation bench_main: driver_main main_bench
proof
  show "(\<exists>i<n. main_pc s = D_Create i \<and> t = create_worker i s) \<or> (\<exists>i<n. main_pc s = D_Print i \<and> t = print_column i s) \<or>
     (qlock_st t = qlock_st s \<and> worker t = worker s \<and> counters t = counters s \<and> thread_index t = thread_index s \<and>
      columns t = columns s \<and> prev_counts t = prev_counts s \<and> acquired t = acquired s \<and> (\<forall>m. main_pc t \<noteq> D_Create m))"
    if "main_bench n s = Some t" for n s t
    using that by (auto simp: main_bench_def split: driver_at.splits if_splits)
qed

subsection \<open>Properties of the printed counts\<close>

lemma thread_count_bound: "thread_count_of args = Some (Some n) \<Longrightarrow> n \<le> MAX_USER_THREADS"
  by (auto simp: thread_count_of_def MAX_USER_THREADS_def split: list.splits option.splits if_splits)

lemma column_sum_append: "column_sum i (cs @ [(j, v)]) = column_sum i cs + (if i = j then v else 0)"
  by (simp add: column_sum_def)

text \<open>The lines of the benchmark.\<close>

definition totals_inv :: "driver \<Rightarrow> bool" where
  "totals_inv s \<longleftrightarrow> (case main_pc s of D_Print i \<Rightarrow> sum_list (totals s) + line_sum s = sum_list (map snd (columns s))
     | D_Create i \<Rightarrow> columns s = [] \<and> totals s = [] | _ \<Rightarrow> sum_list (totals s) = sum_list (map snd (columns s)))"

lemma totals_step:
  assumes "totals_inv s" "driver_step main_bench n s t"
  shows "totals_inv t"
  using assms(2)
proof cases
  case main_steps
  then show ?thesis using assms(1)
    by (auto simp: main_bench_def totals_inv_def create_worker_def print_column_def Let_def split: driver_at.splits if_splits)
next
  case (worker_steps i)
  then have "main_pc t = main_pc s \<and> totals t = totals s \<and> line_sum t = line_sum s \<and> columns t = columns s"
    by (auto simp: worker_thread_def Let_def split: worker_at.splits if_splits)
  then show ?thesis using assms(1) by (cases "main_pc s") (simp_all add: totals_inv_def)
qed (use assms(1) in \<open>cases "main_pc s"; simp add: totals_inv_def\<close>)+

interpretation bench_lines: invariant_system "\<lambda>s. s = driver_init" "driver_step main_bench n" totals_inv for n
  by unfold_locales (use totals_step in \<open>auto simp: totals_inv_def driver_init_def\<close>)

text \<open>C4: Test and benchmark around the lock: at most one worker is between lock and unlock; the counter of a
  worker is the number of times it got the lock, but for the one it has not counted yet, modulo 2 to the 64; the
  numbers printed for it add up to its counter at the last look; and the totals of the benchmark add up to all
  numbers printed in full lines.\<close>

theorem drivers_count:
  assumes args: "thread_count_of args = Some (Some n)" and run: "reachable (\<lambda>s. s = driver_init) (driver_step (if bench then main_bench else main_test) n) s"
  shows "(worker s i = W_Busy \<longrightarrow> worker s j = W_Busy \<longrightarrow> i = j) \<and>
    of_nat (acquired s i) - counters s i \<in> {0, 1} \<and> (worker s i \<in> {W_None, W_Begin, W_Lock} \<longrightarrow> counters s i = of_nat (acquired s i)) \<and>
    prev_counts s i = sum_list (map snd (filter (\<lambda>c. fst c = i) (columns s))) \<and>
    (bench \<and> main_pc s = D_Loop \<longrightarrow> sum_list (totals s) = sum_list (map snd (columns s)))"
proof -
  note assms = thread_count_bound [OF args] run
  have w: "workers_inv n s"
    using assms test_main.driver_workers bench_main.driver_workers by (cases bench) auto
  have c: "count_ok (worker s i) (counters s i) (acquired s i)" "prev_counts s i = column_sum i (columns s)"
    using w by (simp_all add: workers_inv_def)
  have "worker s i = W_Busy \<longrightarrow> worker s j = W_Busy \<longrightarrow> i = j"
    using assms test_main.one_busy bench_main.one_busy by (cases bench) auto
  moreover have "of_nat (acquired s i) - counters s i \<in> {0, 1}"
    using c(1) by (cases "worker s i") (auto simp: count_ok_def)
  moreover have "worker s i \<in> {W_None, W_Begin, W_Lock} \<longrightarrow> counters s i = of_nat (acquired s i)"
    using c(1) by (auto simp: count_ok_def)
  moreover have "bench \<and> main_pc s = D_Loop \<longrightarrow> sum_list (totals s) = sum_list (map snd (columns s))"
    using bench_lines.reachable_inv [of n s] assms(2) by (auto simp: totals_inv_def)
  ultimately show ?thesis using c(2) by (simp add: column_sum_def)
qed

subsection \<open>Properties of the dump\<close>

text \<open>Once every worker has been joined nothing changes any more.\<close>

definition joined_inv :: "nat \<Rightarrow> driver \<Rightarrow> bool" where
  "joined_inv n s \<longleftrightarrow>
     (case main_pc s of D_Join m \<Rightarrow> \<forall>k<min m n. worker s k = W_Gone
      | D_Dump \<Rightarrow> \<forall>k<n. worker s k = W_Gone
      | D_Return \<Rightarrow> (\<forall>k<n. worker s k = W_Gone) \<and> dumped s = Some (dump_all n (qlock_st s) (thread_index s))
      | _ \<Rightarrow> True)"

lemma joined_step:
  assumes "joined_inv n s" "driver_step main_test n s t"
  shows "joined_inv n t"
  using assms(2)
proof cases
  case main_steps
  then show ?thesis using assms(1)
    by (auto simp: main_test_def joined_inv_def create_worker_def print_column_def Let_def less_Suc_eq split: driver_at.splits if_splits)
next
  case (worker_steps i)
  then have "worker s i \<noteq> W_Gone" "main_pc t = main_pc s" "\<forall>k. k \<noteq> i \<longrightarrow> worker t k = worker s k"
    by (auto simp: worker_thread_def Let_def split: worker_at.splits if_splits)
  then show ?thesis using assms(1) worker_steps(1) by (cases "main_pc s") (auto simp: joined_inv_def)
next
  case sigint
  then show ?thesis using assms(1) by (cases "main_pc s") (simp_all add: joined_inv_def)
next
  case (cancels i)
  then show ?thesis using assms(1) by (cases "main_pc s") (auto simp: joined_inv_def)
qed

interpretation test_end: invariant_system "\<lambda>s. s = driver_init" "driver_step main_test n" "joined_inv n" for n
  by unfold_locales (use joined_step in \<open>auto simp: joined_inv_def driver_init_def\<close>)

text \<open>What the dump prints for a node, and when it complains: an earlier node points to the same one.\<close>

definition line_of :: "qstate \<Rightarrow> nat \<Rightarrow> bool \<Rightarrow> dump_line" where
  "line_of q i again = \<lparr>d_locked = nlocked (node q i), d_count = qnode.count (node q i),
     d_next = map_option int (next_node (node q i)), d_multiple = (next_node (node q i) \<noteq> None \<and> again)\<rparr>"

lemma dump_nodes_lines:
  assumes "\<forall>i\<in>set is. \<forall>j. next_node (node q i) = Some j \<longrightarrow> j < MAX_USER_THREADS \<and> ti j = int j" "length ex = MAX_USER_THREADS"
  shows "\<exists>lines. dump_nodes q ti is ex = Some lines \<and> length lines = length is \<and>
    (\<forall>m<length is. lines ! m = line_of q (is ! m)
       (\<exists>j. next_node (node q (is ! m)) = Some j \<and> (ex ! j \<or> (\<exists>k\<in>set (take m is). next_node (node q k) = Some j))))"
  using assms
proof (induction "is" arbitrary: ex)
  case Nil
  then show ?case by simp
next
  case (Cons i "is")
  define ex' where "ex' = (case next_node (node q i) of None \<Rightarrow> ex | Some j \<Rightarrow> ex[j := True])"
  have len: "length ex' = MAX_USER_THREADS" using Cons.prems(2) by (simp add: ex'_def split: option.split)
  obtain ls where ls: "dump_nodes q ti is ex' = Some ls" "length ls = length is"
      "\<forall>m<length is. ls ! m = line_of q (is ! m)
         (\<exists>j. next_node (node q (is ! m)) = Some j \<and> (ex' ! j \<or> (\<exists>k\<in>set (take m is). next_node (node q k) = Some j)))"
    using Cons.IH [OF _ len] Cons.prems(1) by auto
  have up: "ex' ! j \<longleftrightarrow> ex ! j \<or> next_node (node q i) = Some j" if "k \<in> set is" "next_node (node q k) = Some j" for k j
    using Cons.prems that by (auto simp: ex'_def nth_list_update split: option.split)
  let ?l = "line_of q i (\<exists>j. next_node (node q i) = Some j \<and> ex ! j)"
  have "dump_nodes q ti (i # is) ex = Some (?l # ls)"
    using Cons.prems(1) ls(1) by (cases "next_node (node q i)") (simp_all add: ex'_def line_of_def)
  moreover have "(?l # ls) ! m = line_of q ((i # is) ! m)
      (\<exists>j. next_node (node q ((i # is) ! m)) = Some j \<and> (ex ! j \<or> (\<exists>k\<in>set (take m (i # is)). next_node (node q k) = Some j)))"
    if m: "m < length (i # is)" for m
  proof (cases m)
    case (Suc m')
    then have "is ! m' \<in> set is" using m by simp
    then have "(\<exists>j. next_node (node q (is ! m')) = Some j \<and> (ex' ! j \<or> (\<exists>k\<in>set (take m' is). next_node (node q k) = Some j))) \<longleftrightarrow>
        (\<exists>j. next_node (node q (is ! m')) = Some j \<and> (ex ! j \<or> (\<exists>k\<in>set (take m (i # is)). next_node (node q k) = Some j)))"
      using up [of "is ! m'"] Suc by auto
    then show ?thesis using ls(3) m Suc by simp
  qed simp
  ultimately show ?case using ls(2) by (intro exI [of _ "?l # ls"]) simp
qed

text \<open>Nodes in the queue point to different nodes.\<close>

lemma chain_successor: "chain f nd q \<Longrightarrow> i \<in> set q \<Longrightarrow> next_node (nd i) = Some j \<Longrightarrow> \<exists>a b. q = a @ i # j # b"
proof (induction f nd q rule: chain.induct)
  case (3 f nd h k q)
  show ?case
  proof (cases "i = h")
    case True
    then have "j = k" using 3 by (auto split: pc.splits)
    then show ?thesis using True by (intro exI [of _ "[]"] exI [of _ q]) simp
  next
    case False
    then obtain a b where "k # q = a @ i # j # b" using 3 by auto
    then show ?thesis by (intro exI [of _ "h # a"] exI [of _ b]) simp
  qed
qed auto

lemma queue_links_differ:
  assumes "qreachable q" "queued (pc q i)" "queued (pc q k)" "next_node (node q i) = Some j" "next_node (node q k) = Some j"
  shows "i = k"
proof -
  obtain qs where qs: "distinct qs" "i \<in> set qs" "k \<in> set qs" "chain (pc q) (node q) qs"
    using qreachable_qinv [OF assms(1)] assms(2,3) by (auto simp: qinv_def parts_inv_def queue_inv_def)
  obtain a b where ab: "qs = a @ i # j # b" using chain_successor [OF qs(4,2) assms(4)] by blast
  obtain c d where cd: "qs = c @ k # j # d" using chain_successor [OF qs(4,3) assms(5)] by blast
  have "distinct (a @ i # j # b)" "distinct (c @ k # j # d)" using qs(1) ab cd by (simp_all only:)
  then have "j \<notin> set (a @ [i])" "j \<notin> set b" "j \<notin> set (c @ [k])" "j \<notin> set d" by auto
  moreover have "(a @ [i]) @ j # b = (c @ [k]) @ j # d" using ab cd by simp
  ultimately have "a @ [i] = c @ [k]" using append_Cons_eq_iff [of j "a @ [i]" b "c @ [k]" d] by blast
  then show ?thesis by simp
qed

text \<open>C28: When the test ends, every worker has ended and its dump is well defined: it says truly whether a thread
  ended while it owned the lock or the pending byte, and prints for each node the thread its link names. It complains
  at a node exactly when an earlier node has the same link. Two nodes that are in the queue never have, so
  such a complaint is about a node whose thread has left the queue: unlocking does not clear the link.\<close>

theorem test_dump:
  assumes run: "reachable (\<lambda>s. s = driver_init) (driver_step main_test n) s" and args: "thread_count_of args = Some (Some n)"
    and fin: "main_pc s = D_Return"
  shows "\<exists>d lines. dumped s = Some d \<and> l_nodes d = Some lines \<and> length lines = n \<and> (\<forall>i<n. worker s i = W_Gone) \<and>
    (l_locked d \<longleftrightarrow> (\<exists>i. owns (pc (qlock_st s) i))) \<and> (l_pending d \<longleftrightarrow> (\<exists>i. pends (pc (qlock_st s) i))) \<and>
    (\<forall>i<n. d_next (lines ! i) = map_option int (next_node (node (qlock_st s) i)) \<and>
      (d_multiple (lines ! i) \<longleftrightarrow> (\<exists>j. next_node (node (qlock_st s) i) = Some j \<and> (\<exists>k<i. next_node (node (qlock_st s) k) = Some j)))) \<and>
    (\<forall>i k j. queued (pc (qlock_st s) i) \<longrightarrow> queued (pc (qlock_st s) k) \<longrightarrow> next_node (node (qlock_st s) i) = Some j \<longrightarrow>
      next_node (node (qlock_st s) k) = Some j \<longrightarrow> i = k)"
proof -
  let ?q = "qlock_st s"
  note assms = run thread_count_bound [OF args] fin
  have w: "workers_inv n s" using test_main.driver_workers assms(1,2) by blast
  have q: "qreachable ?q" using w by (simp add: workers_inv_def)
  have d: "dumped s = Some (dump_all n ?q (thread_index s))" "\<forall>i<n. worker s i = W_Gone"
    using test_end.reachable_inv [OF assms(1)] assms(3) by (simp_all add: joined_inv_def)
  have "j < MAX_USER_THREADS \<and> thread_index s j = int j" if "next_node (node ?q i) = Some j" for i j
  proof -
    have "pointed ?q j" using that by (auto simp: pointed_def)
    then have "worker s j \<noteq> W_None" "thread_index s j = int j" using w by (auto simp: workers_inv_def)
    then show ?thesis using w assms(2) by (auto simp: workers_inv_def intro: less_le_trans [of j n] leI)
  qed
  then obtain lines where l: "dump_nodes ?q (thread_index s) [0..<n] (replicate MAX_USER_THREADS False) = Some lines" "length lines = n"
      "\<forall>m<n. lines ! m = line_of ?q m (\<exists>j. next_node (node ?q m) = Some j \<and> (replicate MAX_USER_THREADS False ! j \<or> (\<exists>k\<in>set (take m [0..<n]). next_node (node ?q k) = Some j)))"
    using dump_nodes_lines [of "[0..<n]" ?q "thread_index s" "replicate MAX_USER_THREADS False"] by auto
  have "j < MAX_USER_THREADS" if "next_node (node ?q i) = Some j" for i j
    using that \<open>\<And>i j. next_node (node ?q i) = Some j \<Longrightarrow> j < MAX_USER_THREADS \<and> thread_index s j = int j\<close> by blast
  then have m: "d_multiple (lines ! i) \<longleftrightarrow> (\<exists>j. next_node (node ?q i) = Some j \<and> (\<exists>k<i. next_node (node ?q k) = Some j))" if "i < n" for i
    using l(3) that by (auto simp: line_of_def take_upt)
  have n: "d_next (lines ! i) = map_option int (next_node (node ?q i))" if "i < n" for i
    using l(3) that by (simp add: line_of_def)
  obtain qs where "parts_inv qs (lockw ?q) (pc ?q) (node ?q)" using qreachable_qinv [OF q] by (auto simp: qinv_def)
  then have "lockw ?q AND Q_LOCKED_MASK \<noteq> 0 \<longleftrightarrow> (\<exists>i. owns (pc ?q i))" "lockw ?q AND Q_PENDING_MASK \<noteq> 0 \<longleftrightarrow> (\<exists>i. pends (pc ?q i))"
    using word_bits by blast+
  then show ?thesis
    using l(1,2) d m n queue_links_differ [OF q] by (intro exI [of _ "dump_all n ?q (thread_index s)"] exI [of _ lines]) (simp add: dump_all_def)
qed

text \<open>A run of the test with three threads, step by step, in which the dump complains about a lock that works.\<close>

datatype turn = Main | Work nat | Interrupt | Die nat

fun drive_test :: "nat \<Rightarrow> turn list \<Rightarrow> driver \<Rightarrow> driver option" where
  "drive_test n [] s = Some s"
| "drive_test n (Main # ts) s = (case main_test n s of None \<Rightarrow> None | Some t \<Rightarrow> drive_test n ts t)"
| "drive_test n (Work i # ts) s = (if i < n then (case worker_thread i s of None \<Rightarrow> None | Some t \<Rightarrow> drive_test n ts t) else None)"
| "drive_test n (Interrupt # ts) s = drive_test n ts (s\<lparr>stop_flag := True\<rparr>)"
| "drive_test n (Die i # ts) s =
     (if i < n \<and> cancelled s i \<and> worker s i \<notin> {W_None, W_Gone} then drive_test n ts (s\<lparr>worker := (worker s)(i := W_Gone)\<rparr>) else None)"

lemma drive_reachable:
  "drive_test n ts s = Some t \<Longrightarrow> reachable (\<lambda>s. s = driver_init) (driver_step main_test n) s \<Longrightarrow>
   reachable (\<lambda>s. s = driver_init) (driver_step main_test n) t"
proof (induction n ts s rule: drive_test.induct)
  case (2 n ts s)
  then obtain u where "main_test n s = Some u" "drive_test n ts u = Some t" by (auto split: option.splits)
  then show ?case using 2 reach_step [OF 2(3) driver_step.main_steps] by blast
next
  case (3 n i ts s)
  then obtain u where "i < n" "worker_thread i s = Some u" "drive_test n ts u = Some t" by (auto split: option.splits if_splits)
  then show ?case using 3 reach_step [OF 3(3) driver_step.worker_steps] by blast
next
  case (4 n ts s)
  then show ?case using reach_step [OF 4(3) driver_step.sigint] by simp
next
  case (5 n i ts s)
  then have "i < n" "cancelled s i" "worker s i \<notin> {W_None, W_Gone}" "drive_test n ts (s\<lparr>worker := (worker s)(i := W_Gone)\<rparr>) = Some t"
    by (auto split: if_splits)
  then show ?case using 5 reach_step [OF 5(3) driver_step.cancels] by blast
qed simp

definition alarm_run :: "turn list" where
  "alarm_run = replicate 4 Main @ map Work [0, 1, 2,
     1, 0, 0, 2, 2, 2, 2, 2, 2, 1, 1, 0, 0, 1, 1, 1, 1, 1, 1, 1, 0, 0, 2, 2, 2, 2, 2, 1, 1, 2, 2, 1, 1, 1, 1, 1, 1,
     2, 2, 0, 0, 0, 0, 0, 0, 1, 1, 2, 2, 1, 1, 1, 1, 1, 1, 1] @ [Interrupt] @ replicate 5 Main @ map Die [0, 1, 2] @ replicate 5 Main"

lemma alarm_run_ends:
  "(case drive_test 3 alarm_run driver_init of None \<Rightarrow> False
    | Some s \<Rightarrow> main_pc s = D_Return \<and> next_node (node (qlock_st s) 0) = Some 1 \<and> next_node (node (qlock_st s) 2) = Some 1)"
  by code_simp

theorem test_dump_witness:
  "\<exists>s d lines. reachable (\<lambda>s. s = driver_init) (driver_step main_test 3) s \<and> dumped s = Some d \<and> l_nodes d = Some lines \<and>
    d_multiple (lines ! 2) \<and> d_next (lines ! 2) = Some 1"
proof -
  obtain s where s: "drive_test 3 alarm_run driver_init = Some s" "main_pc s = D_Return"
      "next_node (node (qlock_st s) 0) = Some 1" "next_node (node (qlock_st s) 2) = Some 1"
    using alarm_run_ends by (auto split: option.splits)
  have r: "reachable (\<lambda>s. s = driver_init) (driver_step main_test 3) s"
    by (rule drive_reachable [OF s(1)]) (rule reach_init, rule refl)
  have "thread_count_of [''3''] = Some (Some 3)" by (simp add: thread_count_of_def atoi_def leading_number_def is_digit_def is_space_def MAX_USER_THREADS_def)
  from test_dump [OF r this s(2)] obtain d lines where "dumped s = Some d" "l_nodes d = Some lines"
      "\<forall>i<3. d_next (lines ! i) = map_option int (next_node (node (qlock_st s) i)) \<and>
        (d_multiple (lines ! i) \<longleftrightarrow> (\<exists>j. next_node (node (qlock_st s) i) = Some j \<and> (\<exists>k<i. next_node (node (qlock_st s) k) = Some j)))"
    by blast
  moreover have "\<exists>k<(2::nat). next_node (node (qlock_st s) k) = Some 1" using s(3) by (intro exI [of _ 0]) simp
  ultimately have "d_multiple (lines ! 2) \<and> d_next (lines ! 2) = Some 1" using s(4) by auto
  then show ?thesis using r \<open>dumped s = Some d\<close> \<open>l_nodes d = Some lines\<close> by blast
qed

lemma first_lock: "case drive_test 2 (replicate 3 Main @ map Work [0, 1, 0, 1, 0, 0]) driver_init of None \<Rightarrow> False
    | Some s \<Rightarrow> worker s 0 = W_Lock \<and> acquired s 0 = 1 \<and> counters s 0 = 1"
  by code_simp

theorem drivers_count_witness:
  "\<exists>s. reachable (\<lambda>s. s = driver_init) (driver_step main_test 2) s \<and> acquired s 0 = 1 \<and> counters s 0 = of_nat (acquired s 0)"
proof -
  obtain s where s: "drive_test 2 (replicate 3 Main @ map Work [0, 1, 0, 1, 0, 0]) driver_init = Some s" "worker s 0 = W_Lock" "acquired s 0 = 1"
    using first_lock by (auto split: option.splits)
  have r: "reachable (\<lambda>s. s = driver_init) (driver_step (if False then main_bench else main_test) 2) s"
    using drive_reachable [OF s(1) reach_init] by simp
  have "thread_count_of [''2''] = Some (Some 2)" by (simp add: thread_count_of_def atoi_def leading_number_def is_digit_def is_space_def MAX_USER_THREADS_def)
  from drivers_count [OF this r, of 0 0] show ?thesis using r s(2,3) by auto
qed

end
