(* ===== verification/McsLock.thy ===== *)
theory McsLock
  imports Prelude
begin

text \<open>
  The MCS lock of \<open>src/qspinlock/include/mcs_spinlock.h\<close>: \<open>mcs_spin_lock\<close> and
  \<open>mcs_spin_unlock\<close>, run by any number of threads that interleave at every access to shared
  memory. Thread \<open>i\<close> passes its own node \<open>i\<close>; \<open>NULL\<close> is \<open>None\<close>. The program counter names the
  next shared access. Accesses are sequentially consistent.
\<close>

subsection \<open>State and steps\<close>

record mcs_node =
  mnext :: "nat option"
  mlocked :: nat
  mcount :: nat \<comment> \<open>the nesting count of the queued spinlock; not used by this lock\<close>

datatype mpc =
    MIdle
  | MInitLocked
  | MInitNext
  | MXchg
  | MLink nat \<comment> \<open>\<open>prev\<close>\<close>
  | MWait
  | MCrit
  | MReadNext
  | MCas
  | MSpinNext
  | MHandoff nat \<comment> \<open>\<open>next\<close>\<close>

record mstate =
  mlock :: "nat option"
  mnode :: "nat \<Rightarrow> mcs_node"
  mpc :: "nat \<Rightarrow> mpc"

definition mgoto :: "nat \<Rightarrow> mpc \<Rightarrow> mstate \<Rightarrow> mstate" where
  "mgoto i p s = s\<lparr>mpc := (mpc s)(i := p)\<rparr>"

definition mset :: "nat \<Rightarrow> (mcs_node \<Rightarrow> mcs_node) \<Rightarrow> mstate \<Rightarrow> mstate" where
  "mset i f s = s\<lparr>mnode := (mnode s)(i := f (mnode s i))\<rparr>"

text \<open>\<open>mcs_spin_lock\<close>.\<close>

definition mcs_lock_step :: "nat \<Rightarrow> mstate \<Rightarrow> mstate" where
  "mcs_lock_step i s =
     (case mpc s i of
       MIdle \<Rightarrow> mgoto i MInitLocked s
     | MInitLocked \<Rightarrow> mgoto i MInitNext (mset i (mlocked_update (\<lambda>_. 0)) s)
     | MInitNext \<Rightarrow> mgoto i MXchg (mset i (mnext_update (\<lambda>_. None)) s)
     | MXchg \<Rightarrow>
         let prev = mlock s; s = s\<lparr>mlock := Some i\<rparr>
         in (case prev of None \<Rightarrow> mgoto i MCrit s | Some p \<Rightarrow> mgoto i (MLink p) s)
     | MLink prev \<Rightarrow> mgoto i MWait (mset prev (mnext_update (\<lambda>_. Some i)) s)
     | MWait \<Rightarrow> if mlocked (mnode s i) \<noteq> 0 then mgoto i MCrit s else s
     | _ \<Rightarrow> s)"

text \<open>\<open>mcs_spin_unlock\<close>, from the end of the critical section.\<close>

definition mcs_unlock_step :: "nat \<Rightarrow> mstate \<Rightarrow> mstate" where
  "mcs_unlock_step i s =
     (case mpc s i of
       MCrit \<Rightarrow> mgoto i MReadNext s
     | MReadNext \<Rightarrow> (case mnext (mnode s i) of None \<Rightarrow> mgoto i MCas s | Some n \<Rightarrow> mgoto i (MHandoff n) s)
     | MCas \<Rightarrow> if mlock s = Some i then mgoto i MIdle (s\<lparr>mlock := None\<rparr>) else mgoto i MSpinNext s
     | MSpinNext \<Rightarrow> (case mnext (mnode s i) of None \<Rightarrow> s | Some n \<Rightarrow> mgoto i (MHandoff n) s)
     | MHandoff n \<Rightarrow> mgoto i MIdle (mset n (mlocked_update (\<lambda>_. 1)) s)
     | _ \<Rightarrow> s)"

fun locking :: "mpc \<Rightarrow> bool" where
  "locking MIdle = True" | "locking MInitLocked = True" | "locking MInitNext = True" | "locking MXchg = True"
| "locking (MLink _) = True" | "locking MWait = True" | "locking _ = False"

definition mexec :: "nat \<Rightarrow> mstate \<Rightarrow> mstate" where
  "mexec i s = (if locking (mpc s i) then mcs_lock_step i s else mcs_unlock_step i s)"

definition minit :: mstate where
  "minit = \<lparr>mlock = None, mnode = (\<lambda>_. \<lparr>mnext = None, mlocked = 0, mcount = 0\<rparr>), mpc = (\<lambda>_. MIdle)\<rparr>"

inductive mstep :: "mstate \<Rightarrow> mstate \<Rightarrow> bool" where
  maccess: "mstep s (mexec i s)"

inductive_cases mstepE: "mstep s t"

subsection \<open>Invariant\<close>

fun mwaits :: "mpc \<Rightarrow> bool" where
  "mwaits (MLink _) = True" | "mwaits MWait = True" | "mwaits _ = False"

fun mhead :: "mpc \<Rightarrow> bool" where
  "mhead MWait = True" | "mhead MCrit = True" | "mhead MReadNext = True" | "mhead MCas = True"
| "mhead MSpinNext = True" | "mhead (MHandoff _) = True" | "mhead _ = False"

fun mholds_pc :: "mpc \<Rightarrow> bool" where
  "mholds_pc MCrit = True" | "mholds_pc MReadNext = True" | "mholds_pc MCas = True"
| "mholds_pc MSpinNext = True" | "mholds_pc (MHandoff _) = True" | "mholds_pc _ = False"

definition mqueued :: "mpc \<Rightarrow> bool" where
  "mqueued p \<longleftrightarrow> mwaits p \<or> mhead p"

definition mtail :: "nat list \<Rightarrow> nat option" where
  "mtail q = (if q = [] then None else Some (last q))"

fun mchain :: "(nat \<Rightarrow> mpc) \<Rightarrow> (nat \<Rightarrow> mcs_node) \<Rightarrow> nat list \<Rightarrow> bool" where
  "mchain f nd [] \<longleftrightarrow> True"
| "mchain f nd [i] \<longleftrightarrow> mnext (nd i) = None"
| "mchain f nd (i # j # q) \<longleftrightarrow>
     mwaits (f j) \<and> mlocked (nd j) = 0 \<and>
     (case f j of MLink p \<Rightarrow> p = i \<and> mnext (nd i) = None | _ \<Rightarrow> mnext (nd i) = Some j) \<and>
     mchain f nd (j # q)"

definition mhead_inv :: "(nat \<Rightarrow> mpc) \<Rightarrow> (nat \<Rightarrow> mcs_node) \<Rightarrow> nat list \<Rightarrow> bool" where
  "mhead_inv f nd q \<longleftrightarrow>
     (case q of [] \<Rightarrow> True
      | h # r \<Rightarrow> mhead (f h) \<and> (f h = MWait \<longrightarrow> mlocked (nd h) \<noteq> 0) \<and>
          (\<forall>j. f h = MHandoff j \<longrightarrow> mnext (nd h) = Some j) \<and> (f h = MSpinNext \<longrightarrow> r \<noteq> []))"

definition mnode_inv :: "mpc \<Rightarrow> mcs_node \<Rightarrow> bool" where
  "mnode_inv p n \<longleftrightarrow> (p = MInitNext \<or> p = MXchg \<longrightarrow> mlocked n = 0) \<and> (p = MXchg \<longrightarrow> mnext n = None)"

definition minv :: "nat list \<Rightarrow> mstate \<Rightarrow> bool" where
  "minv q s \<longleftrightarrow> mlock s = mtail q \<and> distinct q \<and> (\<forall>i. mqueued (mpc s i) \<longleftrightarrow> i \<in> set q) \<and>
     mchain (mpc s) (mnode s) q \<and> mhead_inv (mpc s) (mnode s) q \<and> (\<forall>i. mnode_inv (mpc s i) (mnode s i))"

lemma mchain_cong:
  "\<forall>j\<in>set (tl q). f j = f' j \<and> mlocked (nd j) = mlocked (nd' j) \<Longrightarrow>
   \<forall>j\<in>set q. mnext (nd j) = mnext (nd' j) \<Longrightarrow> mchain f nd q \<longleftrightarrow> mchain f' nd' q"
  by (induction f nd q rule: mchain.induct) (auto split: mpc.splits)

lemma mchain_other:
  assumes "mchain f nd q" "i \<notin> set q"
  shows "mchain (f(i := p)) (nd(i := n)) q"
  using assms list.set_sel(2) [of q] by (subst mchain_cong [of q _ f _ nd]) (cases "q = []"; auto)+

lemma mchain_tl: "mchain f nd (i # q) \<Longrightarrow> mchain f nd q"
  by (cases q) auto

lemma mchain_snoc:
  assumes "mchain f nd q" "q \<noteq> []" "mlocked (nd j) = 0" "mnext (nd j) = None" "f j = MLink (last q)"
  shows "mchain f nd (q @ [j])"
  using assms by (induction f nd q rule: mchain.induct) auto

lemma mchain_link:
  assumes "mchain f nd q" "distinct q" "k + 1 < length q" "f (q ! (k + 1)) = MLink prev"
  shows "prev = q ! k \<and> mnext (nd (q ! k)) = None \<and>
    mchain (f(q ! (k + 1) := MWait)) (nd(q ! k := nd (q ! k)\<lparr>mnext := Some (q ! (k + 1))\<rparr>)) q"
  using assms
proof (induction f nd q arbitrary: k rule: mchain.induct)
  case (3 f nd i j q)
  show ?case
  proof (cases k)
    case 0
    have "mchain (f(j := MWait)) (nd(i := nd i\<lparr>mnext := Some j\<rparr>)) (j # q)"
      using 3 0 by (subst mchain_cong [of _ _ f _ nd]) auto
    then show ?thesis using 3 0 by (auto simp: fun_upd_def)
  next
    case (Suc m)
    have m: "m + 1 < length (j # q)" "f ((j # q) ! (m + 1)) = MLink prev" "distinct (j # q)"
      using 3 Suc by auto
    have ne: "(j # q) ! (m + 1) \<noteq> j" "(j # q) ! m \<noteq> i"
      using m(1,3) 3(3) nth_mem [of m "j # q"] by auto
    note ih = 3(1) [OF _ m(3,1,2)]
    show ?thesis
      using 3(2) Suc ih ne by (auto split: mpc.splits)
  qed
qed auto

lemma mchain_waits: "mchain f nd (h # q) \<Longrightarrow> \<forall>j\<in>set q. mwaits (f j) \<and> mlocked (nd j) = 0"
  by (induction q arbitrary: h) auto

lemma mchain_next: "mchain f nd (h # q) \<Longrightarrow> mnext (nd h) = Some j \<Longrightarrow> \<exists>r. q = j # r \<and> f j = MWait"
  by (cases q) (auto split: mpc.splits elim: mwaits.elims)

lemma mhead_of:
  assumes "minv q s" "mhead (mpc s i)" "mpc s i = MWait \<longrightarrow> mlocked (mnode s i) \<noteq> 0"
  obtains r where "q = i # r"
proof -
  from assms have "i \<in> set q" by (auto simp: minv_def mqueued_def)
  then obtain h r where q: "q = h # r" by (cases q) auto
  have "i \<notin> set r"
  proof
    assume "i \<in> set r"
    moreover have "mchain (mpc s) (mnode s) (h # r)" using assms(1) q by (simp add: minv_def)
    ultimately have "mwaits (mpc s i) \<and> mlocked (mnode s i) = 0"
      using mchain_waits by blast
    with assms(2,3) show False by (cases "mpc s i") auto
  qed
  with \<open>i \<in> set q\<close> q that show thesis by auto
qed

subsection \<open>Steps keep the invariant\<close>

lemmas mexec_simps = mexec_def mcs_lock_step_def mcs_unlock_step_def mgoto_def mset_def

lemma mqueued_iff: "minv q s \<Longrightarrow> i \<in> set q \<longleftrightarrow> mqueued (mpc s i)"
  by (simp add: minv_def)

lemma minv_local:
  assumes inv: "minv q s" and out: "\<not> mqueued (mpc s i)" "\<not> mqueued p" "mnode_inv p n"
  shows "minv q (s\<lparr>mnode := (mnode s)(i := n), mpc := (mpc s)(i := p)\<rparr>)"
proof -
  have i: "i \<notin> set q" using mqueued_iff [OF inv, of i] out(1) by simp
  have "mchain ((mpc s)(i := p)) ((mnode s)(i := n)) q"
    using inv i by (intro mchain_other) (simp_all add: minv_def)
  moreover have "mhead_inv ((mpc s)(i := p)) ((mnode s)(i := n)) q"
    using inv i by (cases q) (simp_all add: minv_def mhead_inv_def)
  ultimately show ?thesis using inv out i by (simp add: minv_def)
qed

lemma minv_head:
  assumes inv: "minv (h # r) s" and p: "mhead p" "p \<noteq> MWait" "\<forall>j. p = MHandoff j \<longrightarrow> mnext (mnode s h) = Some j"
    "p = MSpinNext \<longrightarrow> r \<noteq> []"
  shows "minv (h # r) (s\<lparr>mpc := (mpc s)(h := p)\<rparr>)"
proof -
  have "mchain (mpc s) (mnode s) (h # r) \<longleftrightarrow> mchain ((mpc s)(h := p)) (mnode s) (h # r)"
    using inv by (intro mchain_cong) (auto simp: minv_def)
  moreover have "mnode_inv p (mnode s h)" using p(1) by (cases p) (simp_all add: mnode_inv_def)
  ultimately show ?thesis using inv p by (auto simp: minv_def mhead_inv_def mqueued_def)
qed

lemma mstep_xchg:
  assumes inv: "minv q s" and i: "mpc s i = MXchg"
  shows "minv (q @ [i]) (mexec i s)"
proof -
  define x where "x = (if q = [] then MCrit else MLink (last q))"
  have iq: "i \<notin> set q" using mqueued_iff [OF inv, of i] i by (simp add: mqueued_def)
  have n: "mlocked (mnode s i) = 0" "mnext (mnode s i) = None"
    using inv i by (auto simp: minv_def mnode_inv_def split: if_splits)
  have c: "mchain ((mpc s)(i := x)) (mnode s) q"
    using mchain_other [of "mpc s" "mnode s" q i x "mnode s i"] inv iq by (simp add: minv_def)
  have "mchain ((mpc s)(i := x)) (mnode s) (q @ [i])"
  proof (cases "q = []")
    case False
    then show ?thesis using c n by (intro mchain_snoc) (simp_all add: x_def)
  qed (use n in simp)
  moreover have "mhead_inv ((mpc s)(i := x)) (mnode s) (q @ [i])"
  proof (cases q)
    case Nil
    then show ?thesis by (simp add: mhead_inv_def x_def)
  next
    case (Cons h r)
    then show ?thesis using inv iq by (simp add: minv_def mhead_inv_def)
  qed
  moreover have "mqueued x" "mnode_inv x (mnode s i)"
    by (simp_all add: x_def mqueued_def mnode_inv_def)
  ultimately have "minv (q @ [i]) (s\<lparr>mlock := Some i, mpc := (mpc s)(i := x)\<rparr>)"
    using inv iq by (simp add: minv_def mtail_def)
  moreover have "mexec i s = s\<lparr>mlock := Some i, mpc := (mpc s)(i := x)\<rparr>"
    using inv i by (simp add: minv_def mtail_def mexec_simps x_def Let_def)
  ultimately show ?thesis by simp
qed

lemma mstep_link:
  assumes inv: "minv q s" and i: "mpc s i = MLink prev"
  shows "minv q (mexec i s)"
proof -
  have "i \<in> set q" using mqueued_iff [OF inv, of i] i by (simp add: mqueued_def)
  then obtain m where m: "m < length q" "q ! m = i" unfolding in_set_conv_nth by blast
  obtain h r where q: "q = h # r" using m by (cases q) auto
  have hd: "mhead_inv (mpc s) (mnode s) (h # r)" using inv q by (simp add: minv_def)
  then have "h \<noteq> i" using i by (auto simp: mhead_inv_def)
  with m q have "m \<noteq> 0" by (cases m) simp_all
  then obtain k where "m = k + 1" using Suc_eq_plus1 not0_implies_Suc by metis
  with m have k: "k + 1 < length q" "q ! (k + 1) = i" by simp_all
  have di: "distinct q" and ch: "mchain (mpc s) (mnode s) q" using inv by (simp_all add: minv_def)
  note link = mchain_link [OF ch di k(1), unfolded k(2), OF i]
  have pq: "prev \<in> set q" using k link by simp
  have "prev \<noteq> i"
    using nth_eq_iff_index_eq [OF di, of k "k + 1"] k link by simp
  let ?nd = "(mnode s)(prev := mnode s prev\<lparr>mnext := Some i\<rparr>)"
  have "mhead_inv ((mpc s)(i := MWait)) ?nd q"
    using hd link \<open>h \<noteq> i\<close> unfolding q mhead_inv_def list.case by auto
  moreover have "mchain ((mpc s)(i := MWait)) ?nd q" using link by simp
  moreover have "\<forall>j. mnode_inv (((mpc s)(i := MWait)) j) (?nd j)"
  proof
    fix j
    have "mqueued (mpc s prev)" using mqueued_iff [OF inv, of prev] pq by simp
    then have "mpc s prev \<noteq> MInitNext" "mpc s prev \<noteq> MXchg" by (auto simp: mqueued_def)
    then show "mnode_inv (((mpc s)(i := MWait)) j) (?nd j)"
      using inv \<open>prev \<noteq> i\<close> by (cases "j = i"; cases "j = prev") (simp_all add: minv_def mnode_inv_def)
  qed
  moreover have "mqueued (((mpc s)(i := MWait)) j) \<longleftrightarrow> j \<in> set q" for j
    using mqueued_iff [OF inv, of j] \<open>i \<in> set q\<close> by (cases "j = i") (simp_all add: mqueued_def)
  ultimately have "minv q (s\<lparr>mnode := ?nd, mpc := (mpc s)(i := MWait)\<rparr>)"
    using inv by (simp add: minv_def)
  then show ?thesis using i by (simp add: mexec_simps)
qed

lemma mstep_cas:
  assumes inv: "minv q s" and i: "mpc s i = MCas"
  shows "mlock s = Some i \<and> q = [i] \<and> minv [] (mexec i s) \<or> mlock s \<noteq> Some i \<and> minv q (mexec i s)"
proof -
  obtain r where q: "q = i # r" by (rule mhead_of [OF inv, of i]) (use i in simp_all)
  have tl: "mlock s = mtail q" "distinct q" using inv by (simp_all add: minv_def)
  show ?thesis
  proof (cases "mlock s = Some i")
    case True
    then have r: "r = []" using tl q by (cases "r = []") (auto simp: mtail_def)
    have "mqueued (((mpc s)(i := MIdle)) j) \<longleftrightarrow> j \<in> set []" for j
      using mqueued_iff [OF inv, of j] q r by (simp add: mqueued_def)
    then have "minv [] (s\<lparr>mlock := None, mpc := (mpc s)(i := MIdle)\<rparr>)"
      using inv by (simp add: minv_def mtail_def mhead_inv_def mnode_inv_def)
    then show ?thesis using True i r q by (simp add: mexec_simps)
  next
    case False
    then have "r \<noteq> []" using tl q by (auto simp: mtail_def)
    then have "minv (i # r) (s\<lparr>mpc := (mpc s)(i := MSpinNext)\<rparr>)"
      using inv q by (intro minv_head) simp_all
    then show ?thesis using False i q by (simp add: mexec_simps)
  qed
qed

lemma mstep_handoff:
  assumes inv: "minv q s" and i: "mpc s i = MHandoff j"
  shows "\<exists>r. q = i # j # r \<and> minv (j # r) (mexec i s)"
proof -
  obtain r' where q': "q = i # r'" by (rule mhead_of [OF inv, of i]) (use i in simp_all)
  have nx: "mnext (mnode s i) = Some j" and ch: "mchain (mpc s) (mnode s) (i # r')" and di: "distinct (i # r')"
    using inv i q' by (simp_all add: minv_def mhead_inv_def)
  from mchain_next [OF ch nx] obtain r where r: "r' = j # r" and j: "mpc s j = MWait" by blast
  have ne: "i \<noteq> j" "i \<notin> set r" "j \<notin> set r" using di r by simp_all
  let ?f = "(mpc s)(i := MIdle)" and ?nd = "(mnode s)(j := mlocked_update (\<lambda>_. 1) (mnode s j))"
  have "mchain (mpc s) (mnode s) (j # r) \<longleftrightarrow> mchain ?f ?nd (j # r)"
    by (rule mchain_cong) (use ne in auto)
  then have "mchain ?f ?nd (j # r)" using mchain_tl [OF ch] r by simp
  moreover have "mhead_inv ?f ?nd (j # r)" using ne j by (simp add: mhead_inv_def)
  moreover have "mqueued (?f k) \<longleftrightarrow> k \<in> set (j # r)" for k
    using mqueued_iff [OF inv, of k] ne by (auto simp: q' r mqueued_def)
  moreover have "mnode_inv (?f k) (?nd k)" for k
    using inv j ne by (cases "k = i"; cases "k = j") (simp_all add: minv_def mnode_inv_def)
  ultimately have "minv (j # r) (s\<lparr>mnode := ?nd, mpc := ?f\<rparr>)"
    using inv di r q' by (simp add: minv_def mtail_def)
  then show ?thesis using i q' r by (simp add: mexec_simps)
qed

lemma mstep_queue:
  assumes inv: "minv q s"
  shows "\<exists>q'. minv q' (mexec i s) \<and>
    (q' = q \<or> mpc s i = MXchg \<and> q' = q @ [i] \<or> q = i # q' \<and> mholds_pc (mpc s i) \<and> mpc (mexec i s) i = MIdle)"
proof (cases "mpc s i")
  case MIdle
  then have "minv q (mexec i s)"
    using minv_local [OF inv, of i MInitLocked "mnode s i"] by (simp add: mexec_simps mqueued_def mnode_inv_def)
  then show ?thesis by blast
next
  case MInitLocked
  then have "minv q (mexec i s)"
    using minv_local [OF inv, of i MInitNext "mlocked_update (\<lambda>_. 0) (mnode s i)"]
    by (simp add: mexec_simps mqueued_def mnode_inv_def)
  then show ?thesis by blast
next
  case MInitNext
  then have "mlocked (mnode s i) = 0" using inv by (auto simp: minv_def mnode_inv_def split: if_splits)
  then have "minv q (mexec i s)"
    using MInitNext minv_local [OF inv, of i MXchg "mnext_update (\<lambda>_. None) (mnode s i)"]
    by (simp add: mexec_simps mqueued_def mnode_inv_def)
  then show ?thesis by blast
next
  case MXchg
  then show ?thesis using mstep_xchg [OF inv] by blast
next
  case (MLink prev)
  then show ?thesis using mstep_link [OF inv] by blast
next
  case MWait
  show ?thesis
  proof (cases "mlocked (mnode s i) = 0")
    case True
    then have "mexec i s = s" using MWait by (simp add: mexec_simps)
    then show ?thesis using inv by auto
  next
    case False
    obtain r where q: "q = i # r" by (rule mhead_of [OF inv, of i]) (use MWait False in simp_all)
    have "minv q (mexec i s)"
      using MWait False minv_head [OF inv [unfolded q], of MCrit] q by (simp add: mexec_simps)
    then show ?thesis by blast
  qed
next
  case MCrit
  obtain r where q: "q = i # r" by (rule mhead_of [OF inv, of i]) (use MCrit in simp_all)
  have "minv q (mexec i s)"
    using MCrit minv_head [OF inv [unfolded q], of MReadNext] q by (simp add: mexec_simps)
  then show ?thesis by blast
next
  case MReadNext
  obtain r where q: "q = i # r" by (rule mhead_of [OF inv, of i]) (use MReadNext in simp_all)
  have "minv q (mexec i s)"
  proof (cases "mnext (mnode s i)")
    case None
    then show ?thesis
      using MReadNext minv_head [OF inv [unfolded q], of MCas] by (simp add: mexec_simps q)
  next
    case (Some j)
    then show ?thesis
      using MReadNext minv_head [OF inv [unfolded q], of "MHandoff j"] by (simp add: mexec_simps q)
  qed
  then show ?thesis by blast
next
  case MCas
  from mstep_cas [OF inv this] show ?thesis
  proof (elim disjE conjE)
    assume "mlock s = Some i" "q = [i]" "minv [] (mexec i s)"
    then show ?thesis using MCas by (intro exI [of _ "[]"]) (simp add: mexec_simps)
  qed blast
next
  case MSpinNext
  obtain r where q: "q = i # r" by (rule mhead_of [OF inv, of i]) (use MSpinNext in simp_all)
  have "minv q (mexec i s)"
  proof (cases "mnext (mnode s i)")
    case None
    then show ?thesis using MSpinNext inv by (simp add: mexec_simps)
  next
    case (Some j)
    then show ?thesis
      using MSpinNext minv_head [OF inv [unfolded q], of "MHandoff j"] by (simp add: mexec_simps q)
  qed
  then show ?thesis by blast
next
  case (MHandoff j)
  from mstep_handoff [OF inv this] obtain r where "q = i # j # r" "minv (j # r) (mexec i s)" by blast
  then show ?thesis using MHandoff by (intro exI [of _ "j # r"]) (simp add: mexec_simps)
qed

subsection \<open>Progress, and the lock as a lock system\<close>

definition mholds :: "mstate \<Rightarrow> nat \<Rightarrow> bool" where
  "mholds s i \<longleftrightarrow> mholds_pc (mpc s i)"

definition mengaged :: "mstate \<Rightarrow> nat \<Rightarrow> bool" where
  "mengaged s i \<longleftrightarrow> mpc s i \<noteq> MIdle"

definition mreachable :: "mstate \<Rightarrow> bool" where
  "mreachable = reachable (\<lambda>s. s = minit) mstep"

lemma mholder_head:
  assumes "minv q s" "mholds_pc (mpc s i)"
  obtains r where "q = i # r"
  by (rule mhead_of [OF assms(1), of i]) (use assms(2) that in \<open>cases "mpc s i"; simp\<close>)+

lemma mmoves:
  "mpc s i \<noteq> MIdle \<Longrightarrow> mpc s i \<noteq> MWait \<Longrightarrow> mpc s i \<noteq> MSpinNext \<Longrightarrow> mpc (mexec i s) i \<noteq> mpc s i"
  by (cases "mpc s i") (auto simp: mexec_simps Let_def split: option.splits)

lemma mmoves_progress: "mengaged s i \<Longrightarrow> mpc (mexec i s) i \<noteq> mpc s i \<Longrightarrow> \<exists>j. mengaged s j \<and> mexec j s \<noteq> s"
  by metis

text \<open>The head of a queue always has a step, or its successor does.\<close>

lemma mqueue_progress:
  assumes inv: "minv (h # r) s"
  shows "\<exists>j. mengaged s j \<and> mexec j s \<noteq> s"
proof -
  have hd: "mhead_inv (mpc s) (mnode s) (h # r)" and ch: "mchain (mpc s) (mnode s) (h # r)"
    using inv by (simp_all add: minv_def)
  have eng: "mengaged s h" using hd by (auto simp: mengaged_def mhead_inv_def)
  consider "mpc s h = MWait" | "mpc s h = MSpinNext" | "mpc s h \<noteq> MWait" "mpc s h \<noteq> MSpinNext" by blast
  then show ?thesis
  proof cases
    case 1
    then have "mpc (mexec h s) h \<noteq> mpc s h" using hd by (simp add: mhead_inv_def mexec_simps)
    then show ?thesis by (rule mmoves_progress [OF eng])
  next
    case 2
    then obtain k r' where r: "r = k # r'" using hd by (cases r) (auto simp: mhead_inv_def)
    show ?thesis
    proof (cases "\<exists>p. mpc s k = MLink p")
      case True
      then have "mengaged s k" "mpc (mexec k s) k \<noteq> mpc s k"
        using mmoves [of s k] by (auto simp: mengaged_def)
      then show ?thesis by (rule mmoves_progress)
    next
      case False
      then have "mnext (mnode s h) = Some k" using ch r by (cases "mpc s k") auto
      then have "mpc (mexec h s) h \<noteq> mpc s h" using 2 by (simp add: mexec_simps)
      then show ?thesis by (rule mmoves_progress [OF eng])
    qed
  next
    case 3
    then have "mpc (mexec h s) h \<noteq> mpc s h"
      using eng by (intro mmoves) (simp_all add: mengaged_def)
    then show ?thesis by (rule mmoves_progress [OF eng])
  qed
qed

lemma mengaged_progress:
  assumes inv: "minv q s" and i: "mengaged s i"
  shows "\<exists>j. mengaged s j \<and> mexec j s \<noteq> s"
proof (cases "mqueued (mpc s i)")
  case True
  then have "i \<in> set q" using mqueued_iff [OF inv] by simp
  then obtain h r where "q = h # r" by (cases q) auto
  with inv show ?thesis using mqueue_progress by blast
next
  case False
  then have "mpc (mexec i s) i \<noteq> mpc s i"
    using i by (intro mmoves) (auto simp: mengaged_def mqueued_def)
  then show ?thesis by (rule mmoves_progress [OF i])
qed

lemma minv_init: "minv [] minit"
  by (simp add: minv_def minit_def mtail_def mqueued_def mhead_inv_def mnode_inv_def)

interpretation mcs: progress_lock "\<lambda>s. s = minit" mstep "\<lambda>s. \<exists>q. minv q s" mholds mengaged mexec
proof unfold_locales
  show "s = minit \<Longrightarrow> \<exists>q. minv q s" for s using minv_init by blast
  show "\<exists>q. minv q s \<Longrightarrow> mstep s t \<Longrightarrow> \<exists>q. minv q t" for s t
    using mstep_queue by (blast elim: mstepE)
  show "i = j" if inv: "\<exists>q. minv q s" and h: "mholds s i" "mholds s j" for s i j
  proof -
    from inv obtain q where q: "minv q s" by blast
    obtain r where "q = i # r" by (rule mholder_head [OF q, of i]) (use h in \<open>simp_all add: mholds_def\<close>)
    moreover obtain r' where "q = j # r'" by (rule mholder_head [OF q, of j]) (use h in \<open>simp_all add: mholds_def\<close>)
    ultimately show ?thesis by simp
  qed
  show "mstep s (mexec i s)" for s i by (rule maccess)
  show "\<exists>j. mengaged s j \<and> mexec j s \<noteq> s" if "\<exists>q. minv q s" "mengaged s i" for s i
    using that mengaged_progress by blast
qed

subsection \<open>Properties\<close>

text \<open>C5: The MCS lock excludes: in every reachable state at most one thread is between the access that
  gave it the lock and the one that gives it up.\<close>

theorem mcs_mutual_exclusion:
  assumes "mreachable s" "mholds_pc (mpc s i)" "mholds_pc (mpc s j)"
  shows "i = j"
  using mcs.mutual_exclusion [of s i j] assms by (simp add: mreachable_def mholds_def)

lemma mreachable_run: "mreachable (fold mexec is minit)"
proof -
  have "mreachable s \<Longrightarrow> mreachable (fold mexec is s)" for s
  proof (induction "is" arbitrary: s)
    case (Cons i "is")
    have "mreachable (mexec i s)"
      using Cons.prems maccess [of s i] unfolding mreachable_def by (rule reach_step)
    then show ?case using Cons.IH by simp
  qed simp
  moreover have "mreachable minit" unfolding mreachable_def by (rule reach_init) (rule refl)
  ultimately show ?thesis by blast
qed

theorem mcs_mutual_exclusion_witness:
  "{j. mholds_pc (mpc (fold mexec [4, 4, 4, 4] minit) j)} = {4}"
proof -
  have o: "mholds_pc (mpc (fold mexec [4, 4, 4, 4] minit) 4)"
    by (simp add: mexec_simps minit_def)
  show ?thesis using o mcs_mutual_exclusion [OF mreachable_run o] by blast
qed

text \<open>C7: The MCS lock is fair: the threads form a queue whose head is the only one that may hold the
  lock; it grows at its end by the exchange of the tail pointer, and shrinks at its head by the end
  of an unlock.\<close>

theorem mcs_fifo:
  assumes "minv q s"
  shows "(\<forall>j. mholds_pc (mpc s j) \<longrightarrow> q \<noteq> [] \<and> hd q = j) \<and>
    (\<exists>q'. minv q' (mexec i s) \<and>
      (q' = q \<or> mpc s i = MXchg \<and> q' = q @ [i] \<or> q = i # q' \<and> mholds_pc (mpc s i) \<and> mpc (mexec i s) i = MIdle))"
proof
  show "\<forall>j. mholds_pc (mpc s j) \<longrightarrow> q \<noteq> [] \<and> hd q = j"
  proof (intro allI impI)
    fix j assume "mholds_pc (mpc s j)"
    then obtain r where "q = j # r" by (rule mholder_head [OF assms])
    then show "q \<noteq> [] \<and> hd q = j" by simp
  qed
qed (rule mstep_queue [OF assms])

theorem mcs_fifo_witness:
  "\<exists>q'. minv q' (mexec 2 minit) \<and>
      (q' = [] \<or> mpc minit 2 = MXchg \<and> q' = [] @ [2] \<or> [] = 2 # q' \<and> mholds_pc (mpc minit 2) \<and> mpc (mexec 2 minit) 2 = MIdle)"
  by (rule mcs_fifo [OF minv_init, THEN conjunct2])

text \<open>C11: The MCS lock does not deadlock: whenever a thread is locking or unlocking, some such thread has
  an access that changes the state; in particular an unlocker that waits for its successor's link
  has a successor that is about to write it.\<close>

theorem mcs_no_deadlock:
  assumes "mreachable s" "mpc s i \<noteq> MIdle"
  shows "\<exists>j. mpc s j \<noteq> MIdle \<and> mexec j s \<noteq> s"
  using mcs.no_deadlock [of s i] assms by (auto simp: mreachable_def mengaged_def)

theorem mcs_no_deadlock_witness:
  "\<exists>j. mpc (fold mexec [0] minit) j \<noteq> MIdle \<and> mexec j (fold mexec [0] minit) \<noteq> fold mexec [0] minit"
  using mcs_no_deadlock [OF mreachable_run [of "[0]"], of 0] by (simp add: mexec_simps minit_def)

end
