(* ===== verification/C2cLat.thy ===== *)
theory C2cLat
  imports Prelude
begin

text \<open>
  The latency between two cores (\<open>src/c2c-lat/c2c-lat.cc\<close>): two threads pass a shared variable to and fro
  with compare-and-exchange, and a second variable tells the helper thread to stop.

  \<^item> One step is one access to a shared variable. A compare-and-exchange that fails changes nothing that is
    looked at again and is no step; so is the first loop of the measuring thread, which only reads.
  \<^item> What \<open>getopt_long\<close> finds in the arguments is an argument, and so are the processors a thread can be pinned
    to and whether \<open>open\<close> and \<open>mmap\<close> succeed.
  \<^item> Accesses are sequentially consistent. \<open>exchanges\<close> and \<open>polls\<close> only count.
\<close>

definition loops :: nat where "loops = 1000000"

subsection \<open>test_latency\<close>

datatype peer_at = P_Pin | P_Check | P_Store | P_Swap | P_Stop | P_Done

datatype lat_at = L_Init | L_Wait | L_Store | L_Swap | L_Print | L_Stop | L_Poll | L_Zero | L_Join | L_Return | L_Exit

record lat =
  shared_var :: int
  stop_token :: int
  peer_pc :: peer_at
  lat_pc :: lat_at
  loop_i :: nat
  lines_out :: nat
  exchanges :: nat
  polls :: nat

definition lat_init :: "int \<Rightarrow> lat" where
  "lat_init v = \<lparr>shared_var = v, stop_token = 0, peer_pc = P_Pin, lat_pc = L_Init, loop_i = 0, lines_out = 0,
     exchanges = 0, polls = 0\<rparr>"

text \<open>The helper thread. When it cannot be pinned the whole process ends.\<close>

definition peer_thd :: "bool \<Rightarrow> lat \<Rightarrow> lat option" where
  "peer_thd pins s =
     (case peer_pc s of
        P_Pin \<Rightarrow> Some (if pins then s\<lparr>peer_pc := P_Check\<rparr> else s\<lparr>lat_pc := L_Exit\<rparr>)
      | P_Check \<Rightarrow> Some (s\<lparr>peer_pc := (if stop_token s = 0 then P_Store else P_Stop)\<rparr>)
      | P_Store \<Rightarrow> Some (s\<lparr>shared_var := 1, peer_pc := P_Swap\<rparr>)
      | P_Swap \<Rightarrow> if shared_var s = 0 then Some (s\<lparr>shared_var := 1, exchanges := exchanges s + 1, peer_pc := P_Check\<rparr>) else None
      | P_Stop \<Rightarrow> Some (s\<lparr>stop_token := 2, peer_pc := P_Done\<rparr>)
      | P_Done \<Rightarrow> None)"

definition test_latency :: "bool \<Rightarrow> lat \<Rightarrow> lat option" where
  "test_latency busy_loop s =
     (case lat_pc s of
        L_Init \<Rightarrow> Some (s\<lparr>shared_var := 0, lat_pc := L_Wait\<rparr>)
      | L_Wait \<Rightarrow> if shared_var s = 0 then None else Some (s\<lparr>lat_pc := L_Store\<rparr>)
      | L_Store \<Rightarrow> Some (s\<lparr>shared_var := 0, lat_pc := L_Swap\<rparr>)
      | L_Swap \<Rightarrow> if shared_var s = 1 then Some (s\<lparr>shared_var := 0, loop_i := loop_i s + 1,
            lat_pc := (if loop_i s + 1 < loops then L_Store else L_Print)\<rparr>) else None
      | L_Print \<Rightarrow> Some (s\<lparr>lines_out := lines_out s + 1,
            loop_i := (if busy_loop then 0 else loop_i s), lat_pc := (if busy_loop then L_Store else L_Stop)\<rparr>)
      | L_Stop \<Rightarrow> Some (s\<lparr>stop_token := 1, lat_pc := L_Poll\<rparr>)
      | L_Poll \<Rightarrow> Some (if stop_token s \<noteq> 2 then s\<lparr>polls := polls s + 1, lat_pc := L_Zero\<rparr> else s\<lparr>lat_pc := L_Join\<rparr>)
      | L_Zero \<Rightarrow> Some (s\<lparr>shared_var := 0, lat_pc := L_Poll\<rparr>)
      | L_Join \<Rightarrow> if peer_pc s = P_Done then Some (s\<lparr>lat_pc := L_Return\<rparr>) else None
      | L_Return \<Rightarrow> None
      | L_Exit \<Rightarrow> None)"

text \<open>The helper thread runs once it has been created, until the process ends.\<close>

inductive lat_step :: "bool \<Rightarrow> bool \<Rightarrow> lat \<Rightarrow> lat \<Rightarrow> bool" for pins busy where
  src_steps: "test_latency busy s = Some t \<Longrightarrow> lat_step pins busy s t"
| peer_steps: "lat_pc s \<notin> {L_Init, L_Exit} \<Longrightarrow> peer_thd pins s = Some t \<Longrightarrow> lat_step pins busy s t"

inductive_cases lat_stepE: "lat_step pins busy s t"

subsection \<open>Invariant and potential\<close>

text \<open>Writes of 0 by the measuring thread before it stops, writes of 1 by the helper.\<close>

definition iterations :: "lat \<Rightarrow> nat" where
  "iterations s = (if lat_pc s \<in> {L_Store, L_Swap, L_Print} then lines_out s * loops + loop_i s else lines_out s * loops)"

definition zeros :: "lat \<Rightarrow> nat" where
  "zeros s = 2 * iterations s + (if lat_pc s = L_Swap then 1 else 0)"

definition ones :: "lat \<Rightarrow> nat" where
  "ones s = 2 * exchanges s + (if peer_pc s = P_Swap then 1 else 0)"

definition ended :: "lat \<Rightarrow> bool" where
  "ended s \<longleftrightarrow> lat_pc s \<in> {L_Poll, L_Zero, L_Join, L_Return}"

definition pair_inv :: "bool \<Rightarrow> lat \<Rightarrow> bool" where
  "pair_inv busy s \<longleftrightarrow>
     (lat_pc s \<noteq> L_Init \<longrightarrow> shared_var s \<in> {0, 1}) \<and> stop_token s \<in> {0, 1, 2} \<and>
     (ended s \<longrightarrow> stop_token s \<noteq> 0 \<and> \<not> busy) \<and> (lat_pc s \<in> {L_Init, L_Wait, L_Store, L_Swap, L_Print, L_Stop} \<longrightarrow> stop_token s = 0) \<and>
     (stop_token s = 2 \<longleftrightarrow> peer_pc s = P_Done) \<and> (peer_pc s \<in> {P_Stop, P_Done} \<longrightarrow> stop_token s \<noteq> 0) \<and>
     (lat_pc s \<in> {L_Join, L_Return} \<longrightarrow> peer_pc s = P_Done) \<and>
     (lat_pc s = L_Init \<longrightarrow> peer_pc s = P_Pin) \<and>
     (lat_pc s \<in> {L_Stop, L_Poll, L_Zero, L_Join, L_Return} \<longrightarrow> lines_out s = 1 \<and> \<not> busy) \<and> (lat_pc s \<in> {L_Init, L_Wait} \<longrightarrow> lines_out s = 0) \<and>
     (lat_pc s \<in> {L_Store, L_Swap, L_Print} \<and> \<not> busy \<longrightarrow> lines_out s = 0) \<and>
     (lat_pc s \<in> {L_Store, L_Swap} \<longrightarrow> loop_i s < loops) \<and> (lat_pc s = L_Print \<longrightarrow> loop_i s = loops) \<and>
     (lat_pc s \<in> {L_Init, L_Wait} \<longrightarrow> loop_i s = 0) \<and> (peer_pc s = P_Pin \<longrightarrow> exchanges s = 0) \<and>
     (peer_pc s = P_Pin \<longrightarrow> shared_var s = 0 \<and> lat_pc s \<in> {L_Wait, L_Exit} \<or> lat_pc s = L_Init)"

definition rate_inv :: "lat \<Rightarrow> bool" where
  "rate_inv s \<longleftrightarrow> iterations s + (if lat_pc s = L_Swap \<and> shared_var s = 1 then 1 else 0) \<le> ones s \<and>
     (if ended s then exchanges s + (if peer_pc s \<in> {P_Store, P_Swap} then 1 else 0) \<le> zeros s + 1
      else exchanges s + (if peer_pc s = P_Swap \<and> shared_var s = 0 then 1 else 0) \<le> zeros s)"

definition lat_left :: "lat \<Rightarrow> nat" where
  "lat_left s =
     (case lat_pc s of
        L_Init \<Rightarrow> 12 + 8 * loops
      | L_Wait \<Rightarrow> 8 + 8 * loops
      | L_Store \<Rightarrow> 7 + 8 * (loops - loop_i s)
      | L_Swap \<Rightarrow> 3 + 8 * (loops - loop_i s)
      | L_Print \<Rightarrow> 7 | L_Stop \<Rightarrow> 6 | L_Zero \<Rightarrow> 3 | L_Poll \<Rightarrow> 2 | L_Join \<Rightarrow> 1 | L_Return \<Rightarrow> 0 | L_Exit \<Rightarrow> 0)"

text \<open>A 0 in the shared variable is worth three steps of the helper: it can exchange it, look at the stop
  token, and store.\<close>

definition peer_left :: "lat \<Rightarrow> nat" where
  "peer_left s =
     (if stop_token s = 0
      then (case peer_pc s of P_Pin \<Rightarrow> 3 | P_Check \<Rightarrow> 2 | P_Store \<Rightarrow> 1 | P_Swap \<Rightarrow> 0 | P_Stop \<Rightarrow> 1 | P_Done \<Rightarrow> 0) +
        (if shared_var s = 0 then 3 else 0)
      else (case peer_pc s of P_Pin \<Rightarrow> 0 | P_Store \<Rightarrow> 4 | P_Swap \<Rightarrow> 3 | P_Check \<Rightarrow> 2 | P_Stop \<Rightarrow> 1 | P_Done \<Rightarrow> 0))"

definition lat_inv :: "bool \<Rightarrow> lat \<Rightarrow> bool" where
  "lat_inv busy s \<longleftrightarrow> pair_inv busy s \<and> rate_inv s"

lemmas lat_defs = lat_inv_def pair_inv_def rate_inv_def iterations_def zeros_def ones_def ended_def

lemma loops_pos [simp]: "0 < loops"
  by (simp add: loops_def)

text \<open>What each access does to the invariant and to the potential.\<close>

definition lat_potential :: "lat \<Rightarrow> nat" where
  "lat_potential s = lat_left s + peer_left s"

lemmas left_defs = lat_potential_def lat_left_def peer_left_def

lemma src_updates:
  assumes "lat_inv busy s"
  shows "lat_pc s = L_Init \<Longrightarrow> lat_inv busy (s\<lparr>shared_var := 0, lat_pc := L_Wait\<rparr>)"
    "lat_pc s = L_Wait \<Longrightarrow> shared_var s \<noteq> 0 \<Longrightarrow> lat_inv busy (s\<lparr>lat_pc := L_Store\<rparr>)"
    "lat_pc s = L_Store \<Longrightarrow> lat_inv busy (s\<lparr>shared_var := 0, lat_pc := L_Swap\<rparr>)"
    "lat_pc s = L_Swap \<Longrightarrow> shared_var s = 1 \<Longrightarrow> lat_inv busy (s\<lparr>shared_var := 0, loop_i := loop_i s + 1,
        lat_pc := (if loop_i s + 1 < loops then L_Store else L_Print)\<rparr>)"
    "lat_pc s = L_Print \<Longrightarrow> lat_inv busy (s\<lparr>lines_out := lines_out s + 1, loop_i := (if busy then 0 else loop_i s),
        lat_pc := (if busy then L_Store else L_Stop)\<rparr>)"
    "lat_pc s = L_Stop \<Longrightarrow> lat_inv busy (s\<lparr>stop_token := 1, lat_pc := L_Poll\<rparr>)"
    "lat_pc s = L_Poll \<Longrightarrow> stop_token s \<noteq> 2 \<Longrightarrow> lat_inv busy (s\<lparr>polls := polls s + 1, lat_pc := L_Zero\<rparr>)"
    "lat_pc s = L_Poll \<Longrightarrow> stop_token s = 2 \<Longrightarrow> lat_inv busy (s\<lparr>lat_pc := L_Join\<rparr>)"
    "lat_pc s = L_Zero \<Longrightarrow> lat_inv busy (s\<lparr>shared_var := 0, lat_pc := L_Poll\<rparr>)"
    "lat_pc s = L_Join \<Longrightarrow> lat_inv busy (s\<lparr>lat_pc := L_Return\<rparr>)"
  using assms by (cases "peer_pc s"; force simp: lat_defs)+

lemma peer_updates:
  assumes "lat_inv busy s" "lat_pc s \<notin> {L_Init, L_Exit}"
  shows "peer_pc s = P_Pin \<Longrightarrow> lat_inv busy (s\<lparr>peer_pc := P_Check\<rparr>)"
    "peer_pc s = P_Pin \<Longrightarrow> lat_inv busy (s\<lparr>lat_pc := L_Exit\<rparr>)"
    "peer_pc s = P_Check \<Longrightarrow> lat_inv busy (s\<lparr>peer_pc := (if stop_token s = 0 then P_Store else P_Stop)\<rparr>)"
    "peer_pc s = P_Store \<Longrightarrow> lat_inv busy (s\<lparr>shared_var := 1, peer_pc := P_Swap\<rparr>)"
    "peer_pc s = P_Swap \<Longrightarrow> shared_var s = 0 \<Longrightarrow> lat_inv busy (s\<lparr>shared_var := 1, exchanges := exchanges s + 1, peer_pc := P_Check\<rparr>)"
    "peer_pc s = P_Stop \<Longrightarrow> lat_inv busy (s\<lparr>stop_token := 2, peer_pc := P_Done\<rparr>)"
  using assms by (cases "lat_pc s"; force simp: lat_defs)+

lemma src_step:
  assumes "lat_inv busy s" "test_latency busy s = Some t"
  shows "lat_inv busy t \<and> (\<not> busy \<longrightarrow> lat_potential t + 1 + 2 * polls s \<le> lat_potential s + 2 * polls t)"
proof -
  note u = src_updates [OF assms(1)]
  have m: "lat_pc s = L_Swap \<Longrightarrow> loop_i s < loops" "lat_pc s = L_Store \<Longrightarrow> loop_i s < loops" "lat_pc s = L_Wait \<Longrightarrow> loop_i s = 0"
    "lat_pc s = L_Stop \<Longrightarrow> stop_token s = 0" "lat_pc s = L_Swap \<Longrightarrow> stop_token s = 0"
    using assms(1) by (simp_all add: lat_inv_def pair_inv_def)
  show ?thesis
  proof (cases "lat_pc s")
    case L_Swap
    then have "shared_var s = 1" "t = s\<lparr>shared_var := 0, loop_i := loop_i s + 1,
        lat_pc := (if loop_i s + 1 < loops then L_Store else L_Print)\<rparr>"
      using assms(2) by (simp_all add: test_latency_def split: if_splits)
    moreover have "8 * (loops - loop_i s) = 8 + 8 * (loops - Suc (loop_i s))" using m(1) L_Swap by simp
    ultimately show ?thesis using u(4) L_Swap m(5) by (cases "peer_pc s") (simp_all add: left_defs)
  next
    case L_Wait
    then have "shared_var s \<noteq> 0" "t = s\<lparr>lat_pc := L_Store\<rparr>"
      using assms(2) by (simp_all add: test_latency_def split: if_splits)
    then show ?thesis using u(2) L_Wait m(3) by (cases "peer_pc s") (simp_all add: left_defs)
  next
    case L_Store
    then have "t = s\<lparr>shared_var := 0, lat_pc := L_Swap\<rparr>" using assms(2) by (simp add: test_latency_def)
    then show ?thesis using u(3) L_Store m(2) by (cases "peer_pc s") (simp_all add: left_defs)
  next
    case L_Print
    then have "t = s\<lparr>lines_out := lines_out s + 1, loop_i := (if busy then 0 else loop_i s),
        lat_pc := (if busy then L_Store else L_Stop)\<rparr>" using assms(2) by (simp add: test_latency_def)
    then show ?thesis using u(5) L_Print by (cases "peer_pc s"; cases busy) (simp_all add: left_defs)
  next
    case L_Stop
    then have "t = s\<lparr>stop_token := 1, lat_pc := L_Poll\<rparr>" using assms(2) by (simp add: test_latency_def)
    then show ?thesis using u(6) L_Stop m(4) by (cases "peer_pc s") (simp_all add: left_defs)
  next
    case L_Poll
    then have "t = (if stop_token s \<noteq> 2 then s\<lparr>polls := polls s + 1, lat_pc := L_Zero\<rparr> else s\<lparr>lat_pc := L_Join\<rparr>)"
      using assms(2) by (simp add: test_latency_def)
    then show ?thesis using u(7,8) L_Poll by (cases "stop_token s = 2") (simp_all add: left_defs)
  next
    case L_Join
    then have "t = s\<lparr>lat_pc := L_Return\<rparr>" using assms(2) by (simp add: test_latency_def split: if_splits)
    then show ?thesis using u(10) L_Join by (simp add: left_defs)
  next
    case L_Init
    then have "t = s\<lparr>shared_var := 0, lat_pc := L_Wait\<rparr>" using assms(2) by (simp add: test_latency_def)
    then show ?thesis using u(1) L_Init by (cases "peer_pc s") (simp_all add: left_defs)
  next
    case L_Zero
    then have "t = s\<lparr>shared_var := 0, lat_pc := L_Poll\<rparr>" using assms(2) by (simp add: test_latency_def)
    moreover have "stop_token s \<noteq> 0" using assms(1) L_Zero by (simp add: lat_inv_def pair_inv_def ended_def)
    ultimately show ?thesis using u(9) L_Zero by (simp add: left_defs)
  qed (use assms(2) in \<open>simp_all add: test_latency_def\<close>)
qed

lemma peer_step:
  assumes "lat_inv busy s" "lat_pc s \<notin> {L_Init, L_Exit}" "peer_thd pins s = Some t"
  shows "lat_inv busy t \<and> polls t = polls s \<and> lat_potential t < lat_potential s"
proof -
  note u = peer_updates [OF assms(1,2)]
  have st: "peer_pc s = P_Stop \<Longrightarrow> stop_token s \<noteq> 0" "peer_pc s = P_Pin \<Longrightarrow> stop_token s = 0 \<and> lat_pc s = L_Wait"
    using assms(1,2) by (simp_all add: lat_inv_def pair_inv_def) 
  show ?thesis
  proof (cases "peer_pc s")
    case P_Pin
    then have "t = (if pins then s\<lparr>peer_pc := P_Check\<rparr> else s\<lparr>lat_pc := L_Exit\<rparr>)" using assms(3) by (simp add: peer_thd_def)
    then show ?thesis using u(1,2) P_Pin st(2) by (cases pins) (simp_all add: left_defs)
  next
    case P_Check
    then have "t = s\<lparr>peer_pc := (if stop_token s = 0 then P_Store else P_Stop)\<rparr>" using assms(3) by (simp add: peer_thd_def)
    then show ?thesis using u(3) P_Check by (cases "lat_pc s") (simp_all add: left_defs)
  next
    case P_Store
    then have "t = s\<lparr>shared_var := 1, peer_pc := P_Swap\<rparr>" using assms(3) by (simp add: peer_thd_def)
    then show ?thesis using u(4) P_Store by (cases "lat_pc s") (simp_all add: left_defs)
  next
    case P_Swap
    then have "shared_var s = 0" "t = s\<lparr>shared_var := 1, exchanges := exchanges s + 1, peer_pc := P_Check\<rparr>"
      using assms(3) by (simp_all add: peer_thd_def split: if_splits)
    then show ?thesis using u(5) P_Swap by (cases "lat_pc s") (simp_all add: left_defs)
  next
    case P_Stop
    then have "t = s\<lparr>stop_token := 2, peer_pc := P_Done\<rparr>" using assms(3) by (simp add: peer_thd_def)
    then show ?thesis using u(6) P_Stop st(1) by (cases "lat_pc s") (simp_all add: left_defs)
  qed (use assms(3) in \<open>simp add: peer_thd_def\<close>)
qed

lemma lat_inv_init: "lat_inv busy (lat_init v)"
  by (simp add: lat_init_def lat_defs)

lemma no_exit:
  assumes "lat_step True busy s t" "lat_pc s \<noteq> L_Exit"
  shows "lat_pc t \<noteq> L_Exit"
  using assms(1)
proof (rule lat_stepE)
  assume "test_latency busy s = Some t"
  then show ?thesis using assms(2) by (auto simp: test_latency_def split: lat_at.splits if_splits)
next
  assume "peer_thd True s = Some t"
  then show ?thesis using assms(2) by (auto simp: peer_thd_def split: peer_at.splits if_splits)
qed

definition lat_ok :: "bool \<Rightarrow> lat \<Rightarrow> bool" where
  "lat_ok busy s \<longleftrightarrow> lat_inv busy s \<and> lat_pc s \<noteq> L_Exit"

lemma lat_ok_init: "lat_ok busy (lat_init v)"
  using lat_inv_init by (simp add: lat_ok_def) (simp add: lat_init_def)

lemma lat_ok_step:
  assumes "lat_ok busy s" "lat_step True busy s t"
  shows "lat_ok busy t \<and> (\<not> busy \<longrightarrow> lat_potential t + 1 + 2 * polls s \<le> lat_potential s + 2 * polls t)"
proof -
  have i: "lat_inv busy s" "lat_pc s \<noteq> L_Exit" using assms(1) by (simp_all add: lat_ok_def)
  have "lat_inv busy t \<and> (\<not> busy \<longrightarrow> lat_potential t + 1 + 2 * polls s \<le> lat_potential s + 2 * polls t)"
    using assms(2)
  proof cases
    case src_steps
    then show ?thesis using src_step [OF i(1)] by blast
  next
    case peer_steps
    then show ?thesis using peer_step [OF i(1), of True t] by simp
  qed
  then show ?thesis using no_exit [OF assms(2) i(2)] by (simp add: lat_ok_def)
qed

interpretation latency: paced_system "\<lambda>s. \<exists>v. s = lat_init v" "lat_step True False" "lat_ok False" lat_potential polls 2
  by unfold_locales (use lat_ok_init lat_ok_step in blast)+

interpretation endless: invariant_system "\<lambda>s. \<exists>v. s = lat_init v" "lat_step True True" "lat_ok True"
  by unfold_locales (use lat_ok_init lat_ok_step in blast)+

subsection \<open>Nobody is stuck\<close>

lemma peer_can:
  assumes "peer_pc s \<noteq> P_Done" "peer_pc s = P_Swap \<Longrightarrow> shared_var s = 0" "lat_pc s \<notin> {L_Init, L_Exit}"
  shows "\<exists>t. lat_step pins busy s t \<and> polls t = polls s"
proof -
  obtain t where "peer_thd pins s = Some t" "polls t = polls s"
    using assms(1,2) by (cases "peer_pc s") (auto simp: peer_thd_def)
  then show ?thesis using peer_steps [OF assms(3)] by blast
qed

lemma lat_enabled:
  assumes "lat_inv busy s" "lat_pc s \<notin> {L_Return, L_Exit}"
  shows "(\<exists>t. lat_step pins busy s t \<and> polls t = polls s) \<or> lat_pc s = L_Poll \<and> peer_pc s = P_Swap \<and> stop_token s = 1"
proof (cases "lat_pc s = L_Wait \<and> shared_var s = 0 \<or> lat_pc s = L_Swap \<and> shared_var s \<noteq> 1 \<or> lat_pc s = L_Poll \<and> stop_token s \<noteq> 2")
  case True
  then have "peer_pc s \<noteq> P_Done" "lat_pc s \<notin> {L_Init, L_Exit}" "lat_pc s \<noteq> L_Poll \<longrightarrow> shared_var s = 0" "lat_pc s = L_Poll \<longrightarrow> stop_token s = 1"
    using assms(1) by (elim disjE conjE; simp add: lat_inv_def pair_inv_def ended_def)+
  then show ?thesis using peer_can [of s pins busy] by blast
next
  case False
  have "lat_pc s = L_Join \<Longrightarrow> peer_pc s = P_Done" "lat_pc s = L_Wait \<Longrightarrow> shared_var s \<noteq> 0"
    using assms(1) False by (simp_all add: lat_inv_def pair_inv_def)
  then obtain t where "test_latency busy s = Some t" "polls t = polls s"
    using assms(2) False by (cases "lat_pc s") (auto simp: test_latency_def)
  then show ?thesis using src_steps by blast
qed

text \<open>Where the helper waits for a 0, two accesses of the measuring thread give it one.\<close>

lemma poll_releases:
  assumes "lat_pc s = L_Poll" "peer_pc s = P_Swap" "stop_token s = 1"
  shows "\<exists>t u. lat_step pins busy s t \<and> lat_step pins busy t u \<and> (\<exists>w. lat_step pins busy u w \<and> peer_pc w = P_Check)"
proof (intro exI conjI)
  let ?t = "s\<lparr>polls := polls s + 1, lat_pc := L_Zero\<rparr>" let ?u = "?t\<lparr>shared_var := 0, lat_pc := L_Poll\<rparr>"
  show "lat_step pins busy s ?t" using assms by (intro src_steps) (simp add: test_latency_def)
  show "lat_step pins busy ?t ?u" by (intro src_steps) (simp add: test_latency_def)
  show "lat_step pins busy ?u (?u\<lparr>shared_var := 1, exchanges := exchanges ?u + 1, peer_pc := P_Check\<rparr>)"
    using assms by (intro peer_steps) (simp_all add: peer_thd_def)
  show "peer_pc (?u\<lparr>shared_var := 1, exchanges := exchanges ?u + 1, peer_pc := P_Check\<rparr>) = P_Check" by simp
qed


subsection \<open>Particular runs\<close>

text \<open>A schedule says whose turn it is; the measuring thread is \<open>True\<close>.\<close>

fun lat_play :: "bool \<Rightarrow> bool list \<Rightarrow> lat \<Rightarrow> lat option" where
  "lat_play busy [] s = Some s"
| "lat_play busy (who # rest) s =
     (if who then (case test_latency busy s of None \<Rightarrow> None | Some t \<Rightarrow> lat_play busy rest t)
      else if lat_pc s \<in> {L_Init, L_Exit} then None
      else (case peer_thd True s of None \<Rightarrow> None | Some t \<Rightarrow> lat_play busy rest t))"

lemma lat_play_steps: "lat_play busy sched s = Some t \<Longrightarrow> (lat_step True busy)\<^sup>*\<^sup>* s t"
proof (induction sched arbitrary: s)
  case (Cons who rest)
  then obtain u where "lat_step True busy s u" "lat_play busy rest u = Some t"
    using src_steps [of busy s] peer_steps [of s True _ busy] by (auto split: if_splits option.splits)
  then show ?case using Cons.IH [of u] by (meson converse_rtranclp_into_rtranclp)
qed simp

definition at_loop :: "nat \<Rightarrow> nat \<Rightarrow> lat" where
  "at_loop i e = \<lparr>shared_var = 1, stop_token = 0, peer_pc = P_Swap, lat_pc = L_Store, loop_i = i, lines_out = 0, exchanges = e, polls = 0\<rparr>"

definition at_swap :: "nat \<Rightarrow> nat \<Rightarrow> lat" where
  "at_swap i e = \<lparr>shared_var = 0, stop_token = 0, peer_pc = P_Store, lat_pc = L_Swap, loop_i = i, lines_out = 0, exchanges = e, polls = 0\<rparr>"

lemma to_loop: "(lat_step True busy)\<^sup>*\<^sup>* (lat_init v) (at_loop 0 0)"
  by (rule lat_play_steps [of _ "[True, False, False, False, True]"])
     (simp add: lat_init_def at_loop_def test_latency_def peer_thd_def)

lemma helper_twice: "Suc i < loops \<Longrightarrow> (lat_step True busy)\<^sup>*\<^sup>* (at_loop i e) (at_loop (Suc i) (e + 2))"
  by (rule lat_play_steps [of _ "[True, False, False, False, True, False, False, False]"])
     (simp add: at_loop_def test_latency_def peer_thd_def)

lemma to_swap: "Suc 0 < loops \<Longrightarrow> (lat_step True busy)\<^sup>*\<^sup>* (at_loop 0 0) (at_swap 1 1)"
  by (rule lat_play_steps [of _ "[True, False, True, True, False]"])
     (simp add: at_loop_def at_swap_def test_latency_def peer_thd_def)

lemma helper_once: "Suc (Suc i) < loops \<Longrightarrow> (lat_step True busy)\<^sup>*\<^sup>* (at_swap i e) (at_swap (Suc (Suc i)) (Suc e))"
  by (rule lat_play_steps [of _ "[False, True, True, False, True, True, False]"])
     (simp add: at_swap_def test_latency_def peer_thd_def)

lemma helper_ahead: "k < loops \<Longrightarrow> (lat_step True busy)\<^sup>*\<^sup>* (lat_init v) (at_loop k (2 * k))"
proof (induction k)
  case 0
  then show ?case using to_loop by simp
next
  case (Suc k)
  then show ?case using helper_twice [of k busy "2 * k"] by (simp add: rtranclp_trans)
qed

lemma helper_behind: "2 * k + 1 < loops \<Longrightarrow> (lat_step True busy)\<^sup>*\<^sup>* (lat_init v) (at_swap (2 * k + 1) (k + 1))"
proof (induction k)
  case 0
  then show ?case using rtranclp_trans [OF to_loop to_swap] by simp
next
  case (Suc k)
  then show ?case using rtranclp_trans [OF _ helper_once [of "2 * k + 1" busy "k + 1"]] by simp
qed


text \<open>Remark: In the mode that repeats, the program never gets to the end of a measurement, and one of the threads can always
  go on. The helper makes at most twice as many exchanges as the loop has rounds, and at least half as many, but for
  one; both are possible, for any number of rounds, so the four transfers a round that the latency is
  divided by are one possibility among others.\<close>

theorem latency_repeats:
  "(\<forall>s. (lat_step True True)\<^sup>*\<^sup>* (lat_init v) s \<longrightarrow> lat_pc s \<notin> {L_Stop, L_Poll, L_Zero, L_Join, L_Return, L_Exit} \<and>
      (\<exists>t. lat_step True True s t) \<and> exchanges s \<le> 2 * iterations s + 1 \<and> iterations s \<le> 2 * exchanges s + 1) \<and>
   (2 * k + 1 < loops \<longrightarrow> (\<exists>s t. (lat_step True True)\<^sup>*\<^sup>* (lat_init v) s \<and> iterations s = k \<and> exchanges s = 2 * k \<and>
      (lat_step True True)\<^sup>*\<^sup>* (lat_init v) t \<and> iterations t = 2 * k + 1 \<and> exchanges t = k + 1))"
proof -
  have "lat_pc s \<notin> {L_Stop, L_Poll, L_Zero, L_Join, L_Return, L_Exit} \<and>
      (\<exists>t. lat_step True True s t) \<and> exchanges s \<le> 2 * iterations s + 1 \<and> iterations s \<le> 2 * exchanges s + 1"
    if "(lat_step True True)\<^sup>*\<^sup>* (lat_init v) s" for s
  proof -
    have i: "lat_inv True s" "lat_pc s \<noteq> L_Exit"
      using endless.inv_rtranclp [OF that] lat_ok_init by (simp_all add: lat_ok_def)
    then have p: "lat_pc s \<notin> {L_Stop, L_Poll, L_Zero, L_Join, L_Return, L_Exit}" by (simp add: lat_inv_def pair_inv_def)
    then have "\<exists>t. lat_step True True s t" using lat_enabled [OF i(1), of True] by blast
    moreover have "exchanges s \<le> zeros s \<and> iterations s \<le> ones s"
      using i(1) p unfolding lat_inv_def rate_inv_def ended_def by simp
    ultimately show ?thesis using p by (auto simp: zeros_def ones_def split: if_splits)
  qed
  moreover have "2 * k + 1 < loops \<longrightarrow> (\<exists>s t. (lat_step True True)\<^sup>*\<^sup>* (lat_init v) s \<and> iterations s = k \<and> exchanges s = 2 * k \<and>
      (lat_step True True)\<^sup>*\<^sup>* (lat_init v) t \<and> iterations t = 2 * k + 1 \<and> exchanges t = k + 1)"
    using helper_ahead [of k True v] helper_behind [of k True v]
    by (intro impI exI [of _ "at_loop k (2 * k)"] exI [of _ "at_swap (2 * k + 1) (k + 1)"])
       (simp add: iterations_def at_loop_def at_swap_def)
  ultimately show ?thesis by blast
qed

theorem latency_repeats_witness:
  "\<exists>t. (lat_step True True)\<^sup>*\<^sup>* (lat_init 0) t \<and> iterations t = 11 \<and> exchanges t = 6 \<and> (\<exists>u. lat_step True True t u)"
proof -
  have r: "2 * 5 + 1 < loops" by (simp add: loops_def)
  from latency_repeats [of 0 5] r obtain t where
    "(lat_step True True)\<^sup>*\<^sup>* (lat_init 0) t" "iterations t = 11" "exchanges t = 6" by auto
  moreover have "\<exists>u. lat_step True True t u" using latency_repeats [of 0 5] calculation(1) by blast
  ultimately show ?thesis by blast
qed

subsection \<open>Arguments, the shared variable, and main\<close>

datatype lat_option = Opt_peer string | Opt_hugetlbfs string | Opt_offset string | Opt_help | Opt_unknown

text \<open>How the process ends before a measurement: with a status, by an exception or \<open>abort\<close>, or undefined.\<close>

datatype lat_end = Status nat | Aborted | Overflow

record lat_args =
  src_cpu :: int
  peer_cpu :: int
  offset :: int
  tlb1g_dir :: string

definition digit_value :: "char \<Rightarrow> nat" where
  "digit_value c =
     (let n = of_char c in if 48 \<le> n \<and> n \<le> 57 then n - 48 else if 65 \<le> n \<and> n \<le> 70 then n - 55
      else if 97 \<le> n \<and> n \<le> 102 then n - 87 else 99)"

text \<open>\<open>std::stoi\<close> on digits of a base; it throws when the number does not fit an \<open>int\<close>.\<close>

definition stoi_digits :: "nat \<Rightarrow> string \<Rightarrow> int option" where
  "stoi_digits base s =
     (let n = foldl (\<lambda>n c. base * n + digit_value c) 0 (takeWhile (\<lambda>c. digit_value c < base) s)
      in if n < 2 ^ 31 then Some (int n) else None)"

definition parse_offset :: "string \<Rightarrow> lat_end + int" where
  "parse_offset optarg =
     (if 2 \<le> length optarg \<and> optarg ! 0 = CHR ''0''
      then (case (if optarg ! 1 = CHR ''x'' \<or> optarg ! 1 = CHR ''X'' then stoi_digits 16 (drop 2 optarg) else stoi_digits 8 optarg)
            of None \<Rightarrow> Inl Aborted | Some n \<Rightarrow> Inr n)
      else if 1 \<le> length optarg \<and> is_digit (optarg ! 0)
      then (case atoi optarg of None \<Rightarrow> Inl Overflow | Some n \<Rightarrow> Inr n)
      else Inl (Status 1))"

fun lat_options :: "int \<Rightarrow> lat_option list \<Rightarrow> lat_args \<Rightarrow> lat_end + lat_args" where
  "lat_options n_cpus [] a = Inr a"
| "lat_options n_cpus (Opt_peer s # rest) a =
     (case atoi s of None \<Rightarrow> Inl Overflow
      | Some p \<Rightarrow> if p < 0 \<or> n_cpus \<le> p then Inl (Status 1) else lat_options n_cpus rest (a\<lparr>peer_cpu := p\<rparr>))"
| "lat_options n_cpus (Opt_hugetlbfs s # rest) a = lat_options n_cpus rest (a\<lparr>tlb1g_dir := s\<rparr>)"
| "lat_options n_cpus (Opt_offset s # rest) a =
     (case parse_offset s of Inl e \<Rightarrow> Inl e | Inr n \<Rightarrow> lat_options n_cpus rest (a\<lparr>offset := n\<rparr>))"
| "lat_options n_cpus (Opt_help # rest) a = Inl (Status 0)"
| "lat_options n_cpus (Opt_unknown # rest) a = Inl (Status 1)"

text \<open>Where the shared variable is: on the heap, or at an offset in the huge page.\<close>

definition alloc_atomic :: "bool \<Rightarrow> bool \<Rightarrow> string \<Rightarrow> int \<Rightarrow> lat_end + int option" where
  "alloc_atomic opens maps dir off =
     (if dir = [] then Inr None
      else if \<not> opens \<or> \<not> maps then Inl (Status 1)
      else if 2 ^ 30 < off + 4 then Inl Aborted
      else Inr (Some off))"

definition main_c2c ::
  "int \<Rightarrow> (int \<Rightarrow> bool) \<Rightarrow> bool \<Rightarrow> bool \<Rightarrow> lat_option list \<Rightarrow> string list \<Rightarrow> lat_end + int option \<times> (int \<times> int \<times> bool) list" where
  "main_c2c n_cpus pins opens maps opts args =
     (case lat_options n_cpus opts \<lparr>src_cpu = 0, peer_cpu = - 1, offset = 0, tlb1g_dir = []\<rparr> of
        Inl e \<Rightarrow> Inl e
      | Inr a \<Rightarrow>
          (case (case args of [] \<Rightarrow> Some (src_cpu a) | s # _ \<Rightarrow> atoi s) of
             None \<Rightarrow> Inl Overflow
           | Some src \<Rightarrow>
               if src < 0 \<or> n_cpus \<le> src then Inl (Status 1)
               else if src = peer_cpu a then Inl (Status 1)
               else if \<not> pins src then Inl (Status 1)
               else (case alloc_atomic opens maps (tlb1g_dir a) (offset a) of
                       Inl e \<Rightarrow> Inl e
                     | Inr place \<Rightarrow>
                         Inr (place, if peer_cpu a = - 1
                           then map (\<lambda>p. (src, p, False)) (filter (\<lambda>p. p \<noteq> src) [0..n_cpus - 1])
                           else [(src, peer_cpu a, True)]))))"

subsection \<open>What main measures\<close>

lemma stoi_digits_bound: "stoi_digits b s = Some n \<Longrightarrow> 0 \<le> n \<and> n < 2 ^ 31"
  by (auto simp: stoi_digits_def Let_def split: if_splits)

lemma leading_digit_nonneg:
  assumes "s \<noteq> []" "is_digit (hd s)"
  shows "0 \<le> leading_number s"
proof -
  have p: "0 \<le> m \<Longrightarrow> \<forall>c\<in>set cs. is_digit c \<Longrightarrow> 0 \<le> foldl (\<lambda>n c. 10 * n + (int (of_char c) - 48)) m cs" for m cs
  proof (induction cs arbitrary: m)
    case (Cons c cs)
    then have "48 \<le> int (of_char c)" by (simp add: is_digit_def)
    then have "0 \<le> 10 * m + (int (of_char c) - 48)" using Cons.prems(1) by linarith
    then show ?case using Cons.IH Cons.prems(2) by simp
  qed simp
  have h: "\<not> is_space (hd s)" "hd s \<noteq> CHR ''-''" "hd s \<noteq> CHR ''+''"
    using assms(2) by (auto simp: is_digit_def is_space_def)
  then have "dropWhile is_space s = s" using assms(1) by (cases s) auto
  moreover have "0 \<le> foldl (\<lambda>n c. 10 * n + (int (of_char c) - 48)) 0 (takeWhile is_digit s)"
    by (rule p) (auto dest: set_takeWhileD)
  ultimately show ?thesis using h by (simp add: leading_number_def)
qed

lemma parse_offset_bound: "parse_offset s = Inr n \<Longrightarrow> 0 \<le> n \<and> n < 2 ^ 31"
proof -
  assume n: "parse_offset s = Inr n"
  have d: "1 \<le> length s \<Longrightarrow> is_digit (s ! 0) \<Longrightarrow> 0 \<le> leading_number s"
    using leading_digit_nonneg [of s] by (cases s) simp_all
  then show ?thesis using n stoi_digits_bound [of 16 "drop 2 s" n] stoi_digits_bound [of 8 s n]
    by (auto simp: parse_offset_def atoi_def Let_def split: if_splits option.splits)
qed

lemma lat_options_ok:
  assumes "lat_options n opts a = Inr b" "0 \<le> offset a" "peer_cpu a = - 1 \<or> 0 \<le> peer_cpu a \<and> peer_cpu a < n"
  shows "0 \<le> offset b \<and> (peer_cpu b = - 1 \<or> 0 \<le> peer_cpu b \<and> peer_cpu b < n) \<and> src_cpu b = src_cpu a"
  using assms
proof (induction n opts a rule: lat_options.induct)
  case (4 n s rest a)
  then show ?case using parse_offset_bound [of s] by (auto split: sum.splits)
qed (auto split: option.splits if_splits)

lemma alloc_atomic_ok: "alloc_atomic opens maps dir off = Inr place \<Longrightarrow> place = (if dir = [] then None else Some off) \<and> (dir \<noteq> [] \<longrightarrow> off + 4 \<le> 2 ^ 30)"
  by (auto simp: alloc_atomic_def split: if_splits)

text \<open>Remark: When \<open>main\<close> comes to measure, source and peer are different existing processors and the source can be
  pinned; without \<open>--peer-cpu\<close> every other processor is measured once, in order, and the program ends, with it the one
  pair is measured for ever. The shared variable lies within the huge page, but at any byte of it: nothing
  asks for the alignment that an atomic needs.\<close>

theorem c2c_plan:
  assumes "main_c2c n pins opens maps opts args = Inr (place, ms)"
  shows "(\<exists>src. 0 \<le> src \<and> src < n \<and> pins src \<and>
      (ms = map (\<lambda>p. (src, p, False)) (filter (\<lambda>p. p \<noteq> src) [0..n - 1]) \<or>
       (\<exists>p. 0 \<le> p \<and> p < n \<and> p \<noteq> src \<and> ms = [(src, p, True)]))) \<and>
    (\<forall>off. place = Some off \<longrightarrow> 0 \<le> off \<and> off + 4 \<le> 2 ^ 30) \<and>
    (\<exists>opts'. main_c2c 2 (\<lambda>_. True) True True opts' [] = Inr (Some 1, [(0, 1, False)]))"
proof -
  obtain a src where a: "lat_options n opts \<lparr>src_cpu = 0, peer_cpu = - 1, offset = 0, tlb1g_dir = []\<rparr> = Inr a"
      and src: "0 \<le> src" "src < n" "src \<noteq> peer_cpu a" "pins src"
      and place: "alloc_atomic opens maps (tlb1g_dir a) (offset a) = Inr place"
      and ms: "ms = (if peer_cpu a = - 1 then map (\<lambda>p. (src, p, False)) (filter (\<lambda>p. p \<noteq> src) [0..n - 1]) else [(src, peer_cpu a, True)])"
  proof -
    from assms obtain a where a: "lat_options n opts \<lparr>src_cpu = 0, peer_cpu = - 1, offset = 0, tlb1g_dir = []\<rparr> = Inr a"
      by (simp add: main_c2c_def split: sum.splits)
    then obtain src where c: "(case args of [] \<Rightarrow> Some (src_cpu a) | s # _ \<Rightarrow> atoi s) = Some src"
      using assms by (simp add: main_c2c_def split: option.splits)
    have "\<not> (src < 0 \<or> n \<le> src)" "src \<noteq> peer_cpu a" "pins src" using assms a c by (auto simp: main_c2c_def split: if_splits)
    then show thesis using that [OF a, of src] assms a c by (simp add: main_c2c_def split: sum.splits)
  qed
  have o: "0 \<le> offset a" "peer_cpu a = - 1 \<or> 0 \<le> peer_cpu a \<and> peer_cpu a < n" using lat_options_ok [OF a] by simp_all
  have "\<exists>opts'. main_c2c 2 (\<lambda>_. True) True True opts' [] = Inr (Some 1, [(0, 1, False)])"
    by (rule exI [of _ "[Opt_hugetlbfs ''/h'', Opt_offset ''1'']"])
       (simp add: main_c2c_def parse_offset_def atoi_def leading_number_def is_digit_def is_space_def alloc_atomic_def upto.simps)
  then show ?thesis using o alloc_atomic_ok [OF place] src ms by auto
qed

theorem c2c_plan_witness:
  "main_c2c 4 (\<lambda>_. True) True True [Opt_offset ''0x40''] [''2''] = Inr (None, [(2, 0, False), (2, 1, False), (2, 3, False)]) \<and>
    (\<exists>src. 0 \<le> src \<and> src < (4::int) \<and> [(2, 0, False), (2, 1, False), (2, 3, False)] = map (\<lambda>p. (src, p, False)) (filter (\<lambda>p. p \<noteq> src) [0..3]))"
proof -
  have m: "main_c2c 4 (\<lambda>_. True) True True [Opt_offset ''0x40''] [''2''] = Inr (None, [(2, 0, False), (2, 1, False), (2, 3, False)])"
    by (simp add: main_c2c_def parse_offset_def stoi_digits_def digit_value_def atoi_def leading_number_def is_digit_def is_space_def alloc_atomic_def upto.simps)
  from c2c_plan [OF m] show ?thesis using m by auto
qed

end
