(* ===== verification/MtPrint.thy ===== *)
theory MtPrint
  imports Prelude
begin

text \<open>
  Three threads that take turns with three mutexes (\<open>src/mt-print.c\<close>): whatever the scheduler does,
  they print \<open>010203040506\<close>, and \<open>main\<close> returns.

  \<^item> A mutex is the thread that locked it, \<open>None\<close> when it is free; \<open>main\<close> is thread 3. Locking a locked
    mutex waits. Unlocking frees the mutex whoever locked it, as the source relies on.
  \<^item> One step is one call of a thread: a lock, a print, or an unlock with the end of the loop body. A thread
    can step as soon as \<open>main\<close> has created it.
\<close>

subsection \<open>State\<close>

datatype thread_pc = Locking | Printing | Unlocking | Returned

datatype main_pc = M_Lock nat | M_Create nat | M_Join nat | M_Return

record mt =
  mtx :: "nat option list"
  pcs :: "thread_pc list"
  ivar :: "nat list"
  main_at :: main_pc
  stderr :: string

definition mutex_lock :: "nat \<Rightarrow> nat \<Rightarrow> mt \<Rightarrow> mt option" where
  "mutex_lock t m s = (if mtx s ! m = None then Some (s\<lparr>mtx := (mtx s)[m := Some t]\<rparr>) else None)"

definition mutex_unlock :: "nat \<Rightarrow> mt \<Rightarrow> mt" where
  "mutex_unlock m s = s\<lparr>mtx := (mtx s)[m := None]\<rparr>"

definition goto :: "nat \<Rightarrow> thread_pc \<Rightarrow> mt \<Rightarrow> mt" where
  "goto t p s = s\<lparr>pcs := (pcs s)[t := p]\<rparr>"

definition fprintf :: "string \<Rightarrow> mt \<Rightarrow> mt" where
  "fprintf txt s = s\<lparr>stderr := stderr s @ txt\<rparr>"

text \<open>The end of a loop body: \<open>i += d\<close>, and the test \<open>i < n\<close>.\<close>

definition next_i :: "nat \<Rightarrow> nat \<Rightarrow> nat \<Rightarrow> mt \<Rightarrow> mt" where
  "next_i t d n s =
     (let i = ivar s ! t + d
      in goto t (if i < n then Locking else Returned) (s\<lparr>ivar := (ivar s)[t := i]\<rparr>))"

subsection \<open>The threads\<close>

definition thread0 :: "mt \<Rightarrow> mt option" where
  "thread0 s =
     (case pcs s ! 0 of
        Locking \<Rightarrow> map_option (goto 0 Printing) (mutex_lock 0 0 s)
      | Printing \<Rightarrow> Some (goto 0 Unlocking (fprintf ''0'' s))
      | Unlocking \<Rightarrow> Some (next_i 0 1 6 (mutex_unlock ((ivar s ! 0) mod 2 + 1) s))
      | Returned \<Rightarrow> None)"

definition thread1 :: "mt \<Rightarrow> mt option" where
  "thread1 s =
     (case pcs s ! 1 of
        Locking \<Rightarrow> map_option (goto 1 Printing) (mutex_lock 1 1 s)
      | Printing \<Rightarrow> Some (goto 1 Unlocking (fprintf (decimal (ivar s ! 1)) s))
      | Unlocking \<Rightarrow> Some (next_i 1 2 6 (mutex_unlock 0 s))
      | Returned \<Rightarrow> None)"

definition thread2 :: "mt \<Rightarrow> mt option" where
  "thread2 s =
     (case pcs s ! 2 of
        Locking \<Rightarrow> map_option (goto 2 Printing) (mutex_lock 2 2 s)
      | Printing \<Rightarrow> Some (goto 2 Unlocking (fprintf (decimal (ivar s ! 2)) s))
      | Unlocking \<Rightarrow> Some (next_i 2 2 7 (mutex_unlock 0 s))
      | Returned \<Rightarrow> None)"

subsection \<open>main\<close>

definition mt_init :: mt where
  "mt_init = \<lparr>mtx = [None, None, None], pcs = [Locking, Locking, Locking], ivar = [0, 1, 2], main_at = M_Lock 1, stderr = []\<rparr>"

definition main_mt_print :: "mt \<Rightarrow> mt option" where
  "main_mt_print s =
     (case main_at s of
        M_Lock m \<Rightarrow> map_option (\<lambda>s. s\<lparr>main_at := (if m = 1 then M_Lock 2 else M_Create 0)\<rparr>) (mutex_lock 3 m s)
      | M_Create t \<Rightarrow> Some (s\<lparr>main_at := (if t < 2 then M_Create (t + 1) else M_Join 0)\<rparr>)
      | M_Join t \<Rightarrow> (if pcs s ! t = Returned then Some (s\<lparr>main_at := (if t < 2 then M_Join (t + 1) else M_Return)\<rparr>) else None)
      | M_Return \<Rightarrow> None)"

fun created :: "nat \<Rightarrow> main_pc \<Rightarrow> bool" where
  "created t (M_Lock m) = False"
| "created t (M_Create k) = (t < k)"
| "created t (M_Join k) = True"
| "created t M_Return = True"

inductive mt_step :: "mt \<Rightarrow> mt \<Rightarrow> bool" where
  main_steps: "main_mt_print s = Some t \<Longrightarrow> mt_step s t"
| thread0_steps: "created 0 (main_at s) \<Longrightarrow> thread0 s = Some t \<Longrightarrow> mt_step s t"
| thread1_steps: "created 1 (main_at s) \<Longrightarrow> thread1 s = Some t \<Longrightarrow> mt_step s t"
| thread2_steps: "created 2 (main_at s) \<Longrightarrow> thread2 s = Some t \<Longrightarrow> mt_step s t"

subsection \<open>The only order the threads can run in\<close>

text \<open>The state of the threads after \<open>n\<close> steps: at every time one thread at most can go on.\<close>

definition next_turn :: "mt \<Rightarrow> mt" where
  "next_turn s =
     (case thread0 s of Some s \<Rightarrow> s | None \<Rightarrow>
      (case thread1 s of Some s \<Rightarrow> s | None \<Rightarrow>
       (case thread2 s of Some s \<Rightarrow> s | None \<Rightarrow> s)))"

primrec turn :: "nat \<Rightarrow> mt" where
  "turn 0 = mt_init\<lparr>mtx := [None, Some 3, Some 3], main_at := M_Create 0\<rparr>"
| "turn (Suc n) = next_turn (turn n)"

definition thread_left :: "nat \<Rightarrow> nat \<Rightarrow> nat \<Rightarrow> mt \<Rightarrow> nat" where
  "thread_left t d n s =
     (case pcs s ! t of
        Locking \<Rightarrow> 3 * ((n - ivar s ! t + d - 1) div d)
      | Printing \<Rightarrow> 3 * ((n - ivar s ! t + d - 1) div d) - 1
      | Unlocking \<Rightarrow> 3 * ((n - ivar s ! t + d - 1) div d) - 2
      | Returned \<Rightarrow> 0)"

definition threads_left :: "mt \<Rightarrow> nat" where
  "threads_left s = thread_left 0 1 6 s + thread_left 1 2 6 s + thread_left 2 2 7 s"

fun main_left :: "main_pc \<Rightarrow> nat" where
  "main_left (M_Lock m) = 9 - m"
| "main_left (M_Create t) = 6 - t"
| "main_left (M_Join t) = 3 - t"
| "main_left M_Return = 0"

definition mt_left :: "mt \<Rightarrow> nat" where
  "mt_left s = threads_left s + main_left (main_at s)"

text \<open>At a turn exactly one thread can step; it has one step less to make, and the mutex it frees is
  one that another thread locked.\<close>

definition frees :: "nat \<Rightarrow> mt \<Rightarrow> nat" where
  "frees t s = (if t = 0 then (ivar s ! 0) mod 2 + 1 else 0)"

definition foreign :: "mt \<Rightarrow> bool" where
  "foreign s = list_all (\<lambda>t. pcs s ! t = Unlocking \<longrightarrow> mtx s ! frees t s \<notin> {None, Some t}) [0, 1, 2]"

definition printed_ok :: "mt \<Rightarrow> bool" where
  "printed_ok s \<longleftrightarrow> take (length (stderr s)) ''010203040506'' = stderr s"

definition turn_ok :: "mt \<Rightarrow> bool" where
  "turn_ok s \<longleftrightarrow>
     list_all (\<lambda>r. r = None \<or> r = Some (next_turn s)) [thread0 s, thread1 s, thread2 s] \<and>
     \<not> list_all (\<lambda>r. r = None) [thread0 s, thread1 s, thread2 s] \<and>
     threads_left (next_turn s) < threads_left s \<and> pcs s ! 2 \<noteq> Returned \<and> printed_ok s \<and> foreign s"

definition last_turn :: "mt \<Rightarrow> bool" where
  "last_turn s \<longleftrightarrow>
     list_all (\<lambda>r. r = None) [thread0 s, thread1 s, thread2 s] \<and> pcs s = [Returned, Returned, Returned] \<and>
     threads_left s = 0 \<and> stderr s = ''010203040506''"

primrec turns_ok :: "nat \<Rightarrow> mt \<Rightarrow> bool" where
  "turns_ok 0 s = last_turn s"
| "turns_ok (Suc n) s = (turn_ok s \<and> turns_ok n (next_turn s))"

lemma all_turns_ok: "turns_ok 36 (turn 0)"
  by code_simp

lemma turns_okD: "turns_ok k (turn m) \<Longrightarrow> last_turn (turn (m + k)) \<and> (\<forall>j < k. turn_ok (turn (m + j)))"
proof (induction k arbitrary: m)
  case (Suc k)
  then have "last_turn (turn (Suc m + k)) \<and> (\<forall>j < k. turn_ok (turn (Suc m + j)))" by (simp del: add_Suc)
  then show ?case using Suc.prems by (auto simp: less_Suc_eq_0_disj)
qed simp

lemma turn_ok_turn: "n < 36 \<Longrightarrow> turn_ok (turn n)"
  using turns_okD [OF all_turns_ok] by simp

lemma last_turn_36: "last_turn (turn 36)"
  using turns_okD [OF all_turns_ok] by simp

subsection \<open>main does not touch what the threads use\<close>

lemma main_at_commutes:
  "thread0 (s\<lparr>main_at := p\<rparr>) = map_option (main_at_update (\<lambda>_. p)) (thread0 s)"
  "thread1 (s\<lparr>main_at := p\<rparr>) = map_option (main_at_update (\<lambda>_. p)) (thread1 s)"
  "thread2 (s\<lparr>main_at := p\<rparr>) = map_option (main_at_update (\<lambda>_. p)) (thread2 s)"
  by (auto simp: thread0_def thread1_def thread2_def mutex_lock_def mutex_unlock_def goto_def fprintf_def next_i_def Let_def
      split: thread_pc.split)

lemma main_at_kept:
  "thread0 s = Some t \<Longrightarrow> main_at t = main_at s" "thread1 s = Some t \<Longrightarrow> main_at t = main_at s" "thread2 s = Some t \<Longrightarrow> main_at t = main_at s"
  by (auto simp: thread0_def thread1_def thread2_def mutex_lock_def mutex_unlock_def goto_def fprintf_def next_i_def Let_def
      split: thread_pc.splits if_splits)

lemma threads_left_main [simp]: "threads_left (s\<lparr>main_at := p\<rparr>) = threads_left s"
  by (simp add: threads_left_def thread_left_def split: thread_pc.split)

subsection \<open>The invariant\<close>

definition started :: "main_pc \<Rightarrow> nat \<Rightarrow> bool" where
  "started p n \<longleftrightarrow>
     (case p of M_Lock m \<Rightarrow> False | M_Create t \<Rightarrow> t < 3 | M_Join t \<Rightarrow> t < 3 | M_Return \<Rightarrow> n = 36)"

definition mt_inv :: "mt \<Rightarrow> bool" where
  "mt_inv s \<longleftrightarrow>
     s = mt_init \<or> s = mt_init\<lparr>mtx := [None, Some 3, None], main_at := M_Lock 2\<rparr> \<or>
     (\<exists>n \<le> 36. s = (turn n)\<lparr>main_at := main_at s\<rparr> \<and> started (main_at s) n)"

lemma mt_init_left: "threads_left mt_init = 36"
  by code_simp

lemma turn_step:
  assumes "r \<in> {thread0 (turn n), thread1 (turn n), thread2 (turn n)}" "r = Some t" "n \<le> 36"
  shows "n < 36 \<and> t = turn (Suc n)"
proof (cases "n < 36")
  case True
  then show ?thesis using turn_ok_turn [OF True] assms by (auto simp: turn_ok_def)
next
  case False
  then have "n = 36" using assms(3) by simp
  then show ?thesis using last_turn_36 assms by (auto simp: last_turn_def simp del: turn.simps)
qed

lemma thread_steps:
  assumes "mt_inv s" "created 0 (main_at s) \<and> thread0 s = Some t \<or> created 1 (main_at s) \<and> thread1 s = Some t \<or> created 2 (main_at s) \<and> thread2 s = Some t"
  obtains n where "n < 36" "s = (turn n)\<lparr>main_at := main_at s\<rparr>" "t = (turn (Suc n))\<lparr>main_at := main_at s\<rparr>" "started (main_at s) n"
proof -
  have "\<not> (s = mt_init \<or> s = mt_init\<lparr>mtx := [None, Some 3, None], main_at := M_Lock 2\<rparr>)"
    using assms(2) by (auto simp: mt_init_def)
  then obtain n where n: "n \<le> 36" "s = (turn n)\<lparr>main_at := main_at s\<rparr>" "started (main_at s) n"
    using assms(1) unfolding mt_inv_def by blast
  obtain r u where r: "r \<in> {thread0 (turn n), thread1 (turn n), thread2 (turn n)}" "r = Some u" "t = u\<lparr>main_at := main_at s\<rparr>"
  proof -
    have "thread0 s = map_option (main_at_update (\<lambda>_. main_at s)) (thread0 (turn n))"
      "thread1 s = map_option (main_at_update (\<lambda>_. main_at s)) (thread1 (turn n))"
      "thread2 s = map_option (main_at_update (\<lambda>_. main_at s)) (thread2 (turn n))"
      by (subst n(2), rule main_at_commutes)+
    then obtain u where "thread0 (turn n) = Some u \<or> thread1 (turn n) = Some u \<or> thread2 (turn n) = Some u" "t = u\<lparr>main_at := main_at s\<rparr>"
      using assms(2) by auto
    then show ?thesis using that [of "Some u" u] by auto
  qed
  show ?thesis using that [OF _ n(2) _ n(3)] turn_step [OF r(1,2) n(1)] r(3) by simp
qed

lemma thread_turn_inv:
  assumes "mt_inv s" "created 0 (main_at s) \<and> thread0 s = Some t \<or> created 1 (main_at s) \<and> thread1 s = Some t \<or> created 2 (main_at s) \<and> thread2 s = Some t"
  shows "mt_inv t \<and> mt_left t < mt_left s"
proof -
  obtain n where n: "n < 36" "s = (turn n)\<lparr>main_at := main_at s\<rparr>" "t = (turn (Suc n))\<lparr>main_at := main_at s\<rparr>" "started (main_at s) n"
    using thread_steps [OF assms] .
  have m: "main_at t = main_at s" by (simp add: n(3))
  have "started (main_at s) (Suc n)" using n(1,4) by (auto simp: started_def split: main_pc.splits)
  moreover have "t = (turn (Suc n))\<lparr>main_at := main_at t\<rparr>" unfolding m by (rule n(3))
  ultimately have "mt_inv t" using n(1) m unfolding mt_inv_def by (metis Suc_leI)
  moreover have "threads_left s = threads_left (turn n)" by (subst n(2)) simp
  moreover have "threads_left t = threads_left (turn (Suc n))" unfolding n(3) by simp
  ultimately show ?thesis using turn_ok_turn [OF n(1)] m by (simp add: mt_left_def turn_ok_def)
qed

lemma main_steps_inv:
  assumes "mt_inv s" "main_mt_print s = Some t"
  shows "mt_inv t \<and> mt_left t < mt_left s"
proof -
  consider "s = mt_init" | "s = mt_init\<lparr>mtx := [None, Some 3, None], main_at := M_Lock 2\<rparr>"
    | n where "n \<le> 36" "s = (turn n)\<lparr>main_at := main_at s\<rparr>" "started (main_at s) n"
    using assms(1) unfolding mt_inv_def by blast
  then show ?thesis
  proof cases
    case 1
    then have "t = mt_init\<lparr>mtx := [None, Some 3, None], main_at := M_Lock 2\<rparr>"
      using assms(2) by (simp add: main_mt_print_def mt_init_def mutex_lock_def)
    then show ?thesis using 1 by (simp add: mt_inv_def mt_left_def threads_left_def thread_left_def mt_init_def)
  next
    case 2
    have "Some t = Some ((turn 0)\<lparr>main_at := M_Create 0\<rparr>)"
      unfolding assms(2) [symmetric] by (simp add: 2 main_mt_print_def mt_init_def mutex_lock_def)
    then have t: "t = (turn 0)\<lparr>main_at := M_Create 0\<rparr>" by (rule option.inject [THEN iffD1])
    have m: "main_at t = M_Create 0" unfolding t by simp
    have "t = (turn 0)\<lparr>main_at := main_at t\<rparr>" "started (main_at t) 0" unfolding m by (rule t) (simp add: started_def)
    then have "mt_inv t" unfolding mt_inv_def by blast
    then show ?thesis using 2 t by (simp add: mt_left_def threads_left_def thread_left_def mt_init_def)
  next
    case 3
    have full: "n = 36" if "pcs s ! 2 = Returned"
    proof (rule ccontr)
      assume "n \<noteq> 36"
      then have "turn_ok (turn n)" using 3(1) turn_ok_turn by simp
      moreover have "pcs (turn n) ! 2 = Returned" using that by (subst (asm) 3(2)) simp
      ultimately show False by (simp add: turn_ok_def)
    qed
    obtain p where p: "t = s\<lparr>main_at := p\<rparr>" "started p n" "main_left p < main_left (main_at s)"
      using assms(2) 3(3) full [unfolded numeral_2_eq_2] unfolding main_mt_print_def
      by (cases "main_at s") (auto simp: started_def less_Suc_eq numeral_3_eq_3 split: if_splits)
    have "t = (turn n)\<lparr>main_at := main_at t\<rparr>" by (subst p(1), subst 3(2)) (simp add: p(1))
    then have "mt_inv t" using 3(1) p unfolding mt_inv_def by auto
    then show ?thesis using p by (simp add: mt_left_def)
  qed
qed

lemma mt_step_inv:
  assumes "mt_inv s" "mt_step s t"
  shows "mt_inv t \<and> mt_left t < mt_left s"
  using assms(2)
proof cases
  case main_steps
  then show ?thesis using main_steps_inv assms(1) by blast
next
  fix k
  assume a: "created 0 (main_at s)" "thread0 s = Some t"
  then show ?thesis using assms(1) thread_turn_inv by blast
next
  assume a: "created 1 (main_at s)" "thread1 s = Some t"
  then show ?thesis using assms(1) thread_turn_inv by blast
next
  assume a: "created 2 (main_at s)" "thread2 s = Some t"
  then show ?thesis using assms(1) thread_turn_inv by blast
qed

lemma mt_enabled:
  assumes "mt_inv s" "main_at s \<noteq> M_Return"
  shows "\<exists>t. mt_step s t"
proof (cases "main_mt_print s")
  case (Some t)
  then show ?thesis using mt_step.main_steps by blast
next
  case None
  then obtain k where k: "main_at s = M_Join k" "pcs s ! k \<noteq> Returned"
    using assms by (auto simp: main_mt_print_def mt_inv_def mt_init_def mutex_lock_def started_def split: main_pc.splits if_splits)
  then obtain n where n: "n \<le> 36" "s = (turn n)\<lparr>main_at := M_Join k\<rparr>" "k < 3"
    using assms(1) by (auto simp: mt_inv_def mt_init_def started_def)
  then have "n < 36" using last_turn_36 k(2) by (cases "n = 36") (auto simp: last_turn_def less_Suc_eq numeral_3_eq_3)
  then have "turn_ok (turn n)" by (rule turn_ok_turn)
  then obtain u where "thread0 (turn n) = Some u \<or> thread1 (turn n) = Some u \<or> thread2 (turn n) = Some u" by (auto simp: turn_ok_def)
  then have "\<exists>v. thread0 s = Some v \<or> thread1 s = Some v \<or> thread2 s = Some v" by (auto simp: n(2) main_at_commutes)
  then show ?thesis using k(1) mt_step.intros [of s] by auto
qed

interpretation turns: ending_protocol "\<lambda>s. s = mt_init" mt_step mt_inv mt_left "\<lambda>s. main_at s = M_Return"
proof
  show "mt_inv s" if "s = mt_init" for s using that by (simp add: mt_inv_def)
  show "mt_left s = 0" if "mt_inv s" "main_at s = M_Return" for s
  proof -
    have "s = (turn 36)\<lparr>main_at := M_Return\<rparr>" using that by (auto simp: mt_inv_def mt_init_def started_def)
    then show ?thesis using last_turn_36 by (simp add: mt_left_def last_turn_def)
  qed
qed (use mt_step_inv mt_enabled in auto)

lemma mt_inv_printed:
  assumes "mt_inv s"
  shows "printed_ok s \<and> foreign s \<and> (main_at s = M_Return \<longrightarrow> stderr s = ''010203040506'')"
proof -
  have i: "printed_ok mt_init" "foreign mt_init" "main_at mt_init \<noteq> M_Return"
    "printed_ok (mt_init\<lparr>mtx := m, main_at := M_Lock 2\<rparr>)" "foreign (mt_init\<lparr>mtx := m, main_at := M_Lock 2\<rparr>)" for m
    by (simp_all add: printed_ok_def foreign_def mt_init_def)
  have l: "printed_ok (turn 36) \<and> foreign (turn 36)"
    using last_turn_36 by (simp add: last_turn_def printed_ok_def foreign_def)
  consider "s = mt_init" | "s = mt_init\<lparr>mtx := [None, Some 3, None], main_at := M_Lock 2\<rparr>"
    | n where "n \<le> 36" "s = (turn n)\<lparr>main_at := main_at s\<rparr>" "started (main_at s) n"
    using assms unfolding mt_inv_def by blast
  then show ?thesis
  proof cases
    case 3
    have "printed_ok (turn n) \<and> foreign (turn n)" using 3(1) l turn_ok_turn [of n] by (cases "n = 36") (auto simp: turn_ok_def)
    then have "printed_ok s \<and> foreign s"
      by (subst 3(2), subst (2) 3(2)) (simp add: printed_ok_def foreign_def frees_def)
    moreover have "stderr s = ''010203040506''" if "main_at s = M_Return"
      using 3 that last_turn_36 by (subst 3(2)) (auto simp: started_def last_turn_def)
    ultimately show ?thesis by blast
  qed (use i in auto)
qed

subsection \<open>What the program prints\<close>



text \<open>Remark: Every time a thread unlocks a mutex, another thread holds it: the program rests on what POSIX leaves
  undefined for its mutexes.\<close>

theorem mt_print_foreign_unlock:
  assumes "reachable (\<lambda>s. s = mt_init) mt_step s" "t \<in> {0, 1, 2}" "pcs s ! t = Unlocking"
  shows "\<exists>u. u \<noteq> t \<and> mtx s ! frees t s = Some u"
  using mt_inv_printed [OF turns.reachable_inv [OF assms(1)]] assms(2,3)
  by (cases "mtx s ! frees t s") (auto simp: foreign_def)

end
