(* ===== verification/MtCond.thy ===== *)
theory MtCond
  imports Prelude
begin

text \<open>
  A thread that waits on a condition variable for a counter to reach three, and one that counts
  (\<open>src/mt-cond.c\<close>): no wake-up is lost, also when the counting thread signals without the mutex and when
  the wait returns without a signal.

  \<^item> The mutex is the thread that holds it: 0 is \<open>thread_wait3\<close>, 1 is \<open>thread_add\<close>.
  \<^item> \<open>pthread_cond_wait\<close> is three steps of its caller: it gives up the mutex and waits, it is woken, it
    takes the mutex again. \<open>wakeups\<close> is how often it will still be woken without a signal.
  \<^item> When \<open>main\<close> returns the process ends, whatever \<open>thread_add\<close> is doing.
\<close>

subsection \<open>State\<close>

datatype wait_pc = W_Lock | W_Test | W_Call | W_Waiting | W_Woken | W_Print | W_Unlock | W_Done

datatype add_pc = A_Sleep | A_Lock | A_Add | A_Unlock | A_Signal | A_Done

datatype cond_main = C_Create0 | C_Create1 | C_Join | C_Return

record mc =
  cnt :: nat
  holder :: "nat option"
  wait_at :: wait_pc
  wait_n :: nat
  add_at :: add_pc
  add_i :: nat
  cmain_at :: cond_main
  stdout :: string
  wakeups :: nat

definition mc_init :: "nat \<Rightarrow> mc" where
  "mc_init k = \<lparr>cnt = 0, holder = None, wait_at = W_Lock, wait_n = 1, add_at = A_Sleep, add_i = 0,
     cmain_at = C_Create0, stdout = [], wakeups = k\<rparr>"

definition wait_line :: "nat \<Rightarrow> string" where
  "wait_line n = ''wait: '' @ decimal n @ [newline]"

subsection \<open>The threads\<close>

definition thread_wait3 :: "mc \<Rightarrow> mc option" where
  "thread_wait3 s =
     (case wait_at s of
        W_Lock \<Rightarrow> if holder s = None then Some (s\<lparr>holder := Some 0, wait_at := W_Test\<rparr>) else None
      | W_Test \<Rightarrow> Some (s\<lparr>wait_at := (if cnt s < 3 then W_Call else W_Unlock)\<rparr>)
      | W_Call \<Rightarrow> Some (s\<lparr>holder := None, wait_at := W_Waiting\<rparr>)
      | W_Waiting \<Rightarrow> None
      | W_Woken \<Rightarrow> if holder s = None then Some (s\<lparr>holder := Some 0, wait_at := W_Print\<rparr>) else None
      | W_Print \<Rightarrow> Some (s\<lparr>stdout := stdout s @ wait_line (wait_n s), wait_n := wait_n s + 1, wait_at := W_Test\<rparr>)
      | W_Unlock \<Rightarrow> Some (s\<lparr>holder := None, wait_at := W_Done\<rparr>)
      | W_Done \<Rightarrow> None)"

definition cond_signal :: "mc \<Rightarrow> mc" where
  "cond_signal s = (if wait_at s = W_Waiting then s\<lparr>wait_at := W_Woken\<rparr> else s)"

definition thread_add :: "mc \<Rightarrow> mc option" where
  "thread_add s =
     (case add_at s of
        A_Sleep \<Rightarrow> Some (s\<lparr>add_at := A_Lock\<rparr>)
      | A_Lock \<Rightarrow> if holder s = None then Some (s\<lparr>holder := Some 1, add_at := A_Add\<rparr>) else None
      | A_Add \<Rightarrow> Some (s\<lparr>cnt := cnt s + 1, add_at := A_Unlock\<rparr>)
      | A_Unlock \<Rightarrow> Some (s\<lparr>holder := None, add_at := A_Signal\<rparr>)
      | A_Signal \<Rightarrow> Some ((cond_signal s)\<lparr>add_i := add_i s + 1, add_at := (if add_i s + 1 < 3 then A_Sleep else A_Done)\<rparr>)
      | A_Done \<Rightarrow> None)"

definition main_mt_cond :: "mc \<Rightarrow> mc option" where
  "main_mt_cond s =
     (case cmain_at s of
        C_Create0 \<Rightarrow> Some (s\<lparr>cmain_at := C_Create1\<rparr>)
      | C_Create1 \<Rightarrow> Some (s\<lparr>cmain_at := C_Join\<rparr>)
      | C_Join \<Rightarrow> if wait_at s = W_Done then Some (s\<lparr>cmain_at := C_Return\<rparr>) else None
      | C_Return \<Rightarrow> None)"

inductive mc_step :: "mc \<Rightarrow> mc \<Rightarrow> bool" where
  cmain_steps: "main_mt_cond s = Some t \<Longrightarrow> mc_step s t"
| wait3_steps: "cmain_at s \<in> {C_Create1, C_Join} \<Longrightarrow> thread_wait3 s = Some t \<Longrightarrow> mc_step s t"
| add_steps: "cmain_at s = C_Join \<Longrightarrow> thread_add s = Some t \<Longrightarrow> mc_step s t"
| wakes_up: "cmain_at s \<in> {C_Create1, C_Join} \<Longrightarrow> wait_at s = W_Waiting \<Longrightarrow> wakeups s = Suc k \<Longrightarrow>
     mc_step s (s\<lparr>wait_at := W_Woken, wakeups := k\<rparr>)"

subsection \<open>Invariant and measure\<close>

definition added :: "mc \<Rightarrow> nat" where
  "added s = add_i s + (if add_at s \<in> {A_Unlock, A_Signal} then 1 else 0)"

definition awake :: "mc \<Rightarrow> nat" where
  "awake s = (if wait_at s \<in> {W_Woken, W_Print} then 1 else 0)"

definition mc_inv :: "nat \<Rightarrow> mc \<Rightarrow> bool" where
  "mc_inv k s \<longleftrightarrow>
     cnt s = added s \<and> add_i s \<le> 3 \<and> (add_at s = A_Done \<longleftrightarrow> add_i s = 3) \<and>
     holder s = (if wait_at s \<in> {W_Test, W_Call, W_Print, W_Unlock} then Some 0 else if add_at s \<in> {A_Add, A_Unlock} then Some 1 else None) \<and>
     (wait_at s \<in> {W_Test, W_Call, W_Print, W_Unlock} \<longrightarrow> add_at s \<notin> {A_Add, A_Unlock}) \<and>
     (wait_at s = W_Call \<longrightarrow> added s < 3) \<and>
     (wait_at s = W_Waiting \<longrightarrow> added s < 3 \<or> add_at s \<in> {A_Unlock, A_Signal}) \<and>
     (wait_at s \<in> {W_Unlock, W_Done} \<longrightarrow> 3 \<le> added s) \<and>
     (cmain_at s = C_Return \<longrightarrow> wait_at s = W_Done) \<and>
     wakeups s \<le> k \<and> 0 < wait_n s \<and> wait_n s + awake s + wakeups s \<le> 1 + add_i s + k \<and>
     stdout s = concat (map wait_line [1..<wait_n s])"

fun add_left :: "add_pc \<Rightarrow> nat" where
  "add_left A_Sleep = 5" | "add_left A_Lock = 4" | "add_left A_Add = 3" | "add_left A_Unlock = 2"
| "add_left A_Signal = 1" | "add_left A_Done = 5"

fun wait_left :: "wait_pc \<Rightarrow> nat" where
  "wait_left W_Lock = 4" | "wait_left W_Woken = 5" | "wait_left W_Print = 4" | "wait_left W_Test = 3"
| "wait_left W_Call = 2" | "wait_left W_Waiting = 1" | "wait_left W_Unlock = 1" | "wait_left W_Done = 0"

fun cmain_left :: "cond_main \<Rightarrow> nat" where
  "cmain_left C_Create0 = 3" | "cmain_left C_Create1 = 2" | "cmain_left C_Join = 1" | "cmain_left C_Return = 0"

text \<open>A signal, or a wake-up without one, gives the waiting thread four steps more.\<close>

definition mc_left :: "mc \<Rightarrow> nat" where
  "mc_left s =
     (if cmain_at s = C_Return then 0
      else 5 * (5 * (2 - add_i s) + (if add_i s < 3 then add_left (add_at s) else 0)) + wait_left (wait_at s) +
        5 * wakeups s + cmain_left (cmain_at s))"

lemma added_kept [simp]:
  "added (s\<lparr>holder := h\<rparr>) = added s" "added (s\<lparr>wait_at := w\<rparr>) = added s" "added (s\<lparr>wait_n := n\<rparr>) = added s"
  "added (s\<lparr>stdout := out\<rparr>) = added s" "added (s\<lparr>wakeups := k\<rparr>) = added s" "added (s\<lparr>cmain_at := m\<rparr>) = added s"
  by (simp_all add: added_def)

lemma mc_invD:
  assumes "mc_inv k s"
  shows "cnt s = added s" "add_i s \<le> 3" "add_at s = A_Done \<longleftrightarrow> add_i s = 3" "wait_at s = W_Done \<Longrightarrow> 3 \<le> added s"
    "wait_at s \<notin> {W_Test, W_Call, W_Print, W_Unlock} \<Longrightarrow> add_at s \<notin> {A_Add, A_Unlock} \<Longrightarrow> holder s = None"
    "wait_at s = W_Waiting \<Longrightarrow> added s < 3 \<or> add_at s \<in> {A_Unlock, A_Signal}"
    "cmain_at s = C_Return \<Longrightarrow> wait_at s = W_Done"
    "0 < wait_n s" "wait_n s \<le> 1 + add_i s + k" "stdout s = concat (map wait_line [1..<wait_n s])"
  using assms unfolding mc_inv_def by (simp_all split del: if_split)

text \<open>What each step of the waiting thread keeps.\<close>

lemma wait_steps_inv:
  assumes "mc_inv k s"
  shows "wait_at s = W_Lock \<Longrightarrow> holder s = None \<Longrightarrow> mc_inv k (s\<lparr>holder := Some 0, wait_at := W_Test\<rparr>)"
    "wait_at s = W_Test \<Longrightarrow> mc_inv k (s\<lparr>wait_at := (if cnt s < 3 then W_Call else W_Unlock)\<rparr>)"
    "wait_at s = W_Call \<Longrightarrow> mc_inv k (s\<lparr>holder := None, wait_at := W_Waiting\<rparr>)"
    "wait_at s = W_Woken \<Longrightarrow> holder s = None \<Longrightarrow> mc_inv k (s\<lparr>holder := Some 0, wait_at := W_Print\<rparr>)"
    "wait_at s = W_Print \<Longrightarrow> mc_inv k (s\<lparr>stdout := stdout s @ wait_line (wait_n s), wait_n := wait_n s + 1, wait_at := W_Test\<rparr>)"
    "wait_at s = W_Unlock \<Longrightarrow> mc_inv k (s\<lparr>holder := None, wait_at := W_Done\<rparr>)"
  using assms by (cases "add_at s"; simp add: mc_inv_def awake_def)+

lemma add_steps_inv:
  assumes "mc_inv k s"
  shows "add_at s = A_Sleep \<Longrightarrow> mc_inv k (s\<lparr>add_at := A_Lock\<rparr>)"
    "add_at s = A_Lock \<Longrightarrow> holder s = None \<Longrightarrow> mc_inv k (s\<lparr>holder := Some 1, add_at := A_Add\<rparr>)"
    "add_at s = A_Add \<Longrightarrow> mc_inv k (s\<lparr>cnt := cnt s + 1, add_at := A_Unlock\<rparr>)"
    "add_at s = A_Unlock \<Longrightarrow> mc_inv k (s\<lparr>holder := None, add_at := A_Signal\<rparr>)"
    "add_at s = A_Signal \<Longrightarrow> mc_inv k ((cond_signal s)\<lparr>add_i := add_i s + 1, add_at := (if add_i s + 1 < 3 then A_Sleep else A_Done)\<rparr>)"
  using assms by (cases "wait_at s"; simp add: mc_inv_def awake_def added_def cond_signal_def)+

lemma wait_steps:
  assumes "mc_inv k s" "thread_wait3 s = Some t"
  shows "mc_inv k t \<and> wait_left (wait_at t) < wait_left (wait_at s) \<and>
    (add_i t, add_at t, wakeups t, cmain_at t) = (add_i s, add_at s, wakeups s, cmain_at s)"
proof -
  note w = wait_steps_inv [OF assms(1)]
  show ?thesis
  proof (cases "wait_at s")
    case W_Lock
    then have "t = s\<lparr>holder := Some 0, wait_at := W_Test\<rparr>" "holder s = None"
      using assms(2) by (simp_all add: thread_wait3_def split: if_splits)
    then show ?thesis using w(1) W_Lock by simp
  next
    case W_Woken
    then have "t = s\<lparr>holder := Some 0, wait_at := W_Print\<rparr>" "holder s = None"
      using assms(2) by (simp_all add: thread_wait3_def split: if_splits)
    then show ?thesis using w(4) W_Woken by simp
  qed (use assms(2) w(2,3,5,6) in \<open>simp_all add: thread_wait3_def\<close>, auto)
qed

lemma add_step:
  assumes "mc_inv k s" "thread_add s = Some t"
  shows "mc_inv k t \<and> (wakeups t, cmain_at t) = (wakeups s, cmain_at s) \<and> wait_left (wait_at t) \<le> wait_left (wait_at s) + 4 \<and>
    5 * (2 - add_i t) + (if add_i t < 3 then add_left (add_at t) else 0) < 5 * (2 - add_i s) + (if add_i s < 3 then add_left (add_at s) else 0)"
proof -
  note w = add_steps_inv [OF assms(1)]
  have i: "add_i s < 3 \<longleftrightarrow> add_at s \<noteq> A_Done" using mc_invD(2,3) [OF assms(1)] by linarith
  show ?thesis
  proof (cases "add_at s")
    case A_Lock
    then have "t = s\<lparr>holder := Some 1, add_at := A_Add\<rparr>" "holder s = None"
      using assms(2) by (simp_all add: thread_add_def split: if_splits)
    then show ?thesis using w(2) A_Lock i by simp
  next
    case A_Signal
    then have "t = (cond_signal s)\<lparr>add_i := add_i s + 1, add_at := (if add_i s + 1 < 3 then A_Sleep else A_Done)\<rparr>"
      using assms(2) by (simp add: thread_add_def)
    moreover have "add_i s = 0 \<or> add_i s = 1 \<or> add_i s = 2" using i A_Signal by auto
    ultimately show ?thesis using w(5) A_Signal by (elim disjE) (simp_all add: cond_signal_def)
  qed (use assms(2) w(1,3,4) i in \<open>simp_all add: thread_add_def\<close>, auto)
qed

lemma main_step:
  assumes "mc_inv k s" "main_mt_cond s = Some t"
  obtains p where "mc_inv k (s\<lparr>cmain_at := p\<rparr>)" "t = s\<lparr>cmain_at := p\<rparr>" "cmain_left p < cmain_left (cmain_at s)"
proof -
  obtain p where "t = s\<lparr>cmain_at := p\<rparr>" "cmain_left p < cmain_left (cmain_at s)" "p = C_Return \<longrightarrow> wait_at s = W_Done"
  proof (cases "cmain_at s")
    case C_Join
    then show thesis using assms(2) that [of C_Return] by (simp add: main_mt_cond_def split: if_splits)
  qed (use assms(2) that [of C_Create1] that [of C_Join] in \<open>simp_all add: main_mt_cond_def\<close>)
  moreover have "mc_inv k (s\<lparr>cmain_at := p\<rparr>)" using assms(1) calculation(3) by (cases p) (simp_all add: mc_inv_def awake_def)
  ultimately show thesis using that by blast
qed

lemma mc_step_inv:
  assumes "mc_inv k s" "mc_step s t"
  shows "mc_inv k t \<and> mc_left t < mc_left s"
  using assms(2)
proof cases
  case cmain_steps
  obtain p where "mc_inv k (s\<lparr>cmain_at := p\<rparr>)" "t = s\<lparr>cmain_at := p\<rparr>" "cmain_left p < cmain_left (cmain_at s)"
    using main_step [OF assms(1) cmain_steps] .
  then show ?thesis by (cases "cmain_at s"; cases p) (simp_all add: mc_left_def)
next
  case wait3_steps
  then show ?thesis using wait_steps [OF assms(1)] by (auto simp: mc_left_def)
next
  case add_steps
  then show ?thesis using add_step [OF assms(1) add_steps(2)] by (simp add: mc_left_def)
next
  case (wakes_up k)
  then show ?thesis using assms(1) by (simp add: mc_inv_def awake_def mc_left_def)
qed

lemma mc_enabled:
  assumes "mc_inv k s" "cmain_at s \<noteq> C_Return"
  shows "\<exists>t. mc_step s t \<and> wakeups t = wakeups s"
proof (cases "cmain_at s = C_Join \<and> wait_at s \<noteq> W_Done")
  case True
  have "thread_wait3 s \<noteq> None \<or> thread_add s \<noteq> None"
  proof (cases "wait_at s = W_Waiting \<or> wait_at s \<in> {W_Lock, W_Woken} \<and> holder s \<noteq> None")
    case True
    then have "add_at s \<noteq> A_Done" "add_at s = A_Lock \<longrightarrow> holder s = None"
      using mc_invD(1,3,5,6) [OF assms(1)] by (auto simp: added_def)
    then show ?thesis by (cases "add_at s") (simp_all add: thread_add_def)
  next
    case False
    then show ?thesis using True by (cases "wait_at s") (simp_all add: thread_wait3_def)
  qed
  then obtain t where "thread_wait3 s = Some t \<or> thread_add s = Some t" by blast
  then have "mc_step s t \<and> wakeups t = wakeups s"
  proof
    assume "thread_wait3 s = Some t"
    then show ?thesis using True mc_step.wait3_steps [of s t] wait_steps [OF assms(1), of t] by simp
  next
    assume "thread_add s = Some t"
    then show ?thesis using True mc_step.add_steps [of s t] add_step [OF assms(1), of t] by simp
  qed
  then show ?thesis by blast
next
  case False
  then obtain t where "main_mt_cond s = Some t"
    using assms(2) by (cases "cmain_at s") (simp_all add: main_mt_cond_def)
  moreover obtain p where "t = s\<lparr>cmain_at := p\<rparr>" using main_step [OF assms(1) calculation] by blast
  ultimately have "mc_step s t \<and> wakeups t = wakeups s" using mc_step.cmain_steps [of s t] by simp
  then show ?thesis by blast
qed

lemma mc_inv_init: "mc_inv k (mc_init k)"
  by (simp add: mc_init_def mc_inv_def added_def awake_def)

interpretation waiting: ending_protocol "\<lambda>s. s = mc_init k" mc_step "mc_inv k" mc_left "\<lambda>s. cmain_at s = C_Return"
proof
  show "mc_inv k s" if "s = mc_init k" for s using mc_inv_init that by simp
  show "\<exists>t. mc_step s t" if "mc_inv k s" "cmain_at s \<noteq> C_Return" for s using mc_enabled [OF that] by blast
  show "mc_left s = 0" if "cmain_at s = C_Return" for s using that by (simp add: mc_left_def)
qed (use mc_step_inv in blast)+

text \<open>C12: With any number of wake-ups that no signal caused, the program ends after a bounded number of steps and
  some thread can go on until then, even when none of these wake-ups happens: no signal is lost. It prints
  at most three lines more than such wake-ups, numbered from 1, and the counter is 3 at the end.\<close>

theorem mt_cond_correct:
  assumes "(mc_step ^^ m) (mc_init k) s"
  shows "m \<le> 82 + 5 * k \<and>
    (if cmain_at s = C_Return
     then cnt s = 3 \<and> \<not> (\<exists>t. mc_step s t) \<and> (\<exists>n \<le> 3 + k. stdout s = concat (map wait_line [1..<Suc n]))
     else \<exists>t. mc_step s t \<and> wakeups t = wakeups s)"
proof -
  have i: "mc_inv k s" using waiting.run_inv [OF mc_inv_init assms] by blast
  have "mc_left (mc_init k) = 82 + 5 * k" by (simp add: mc_init_def mc_left_def)
  then have "m \<le> 82 + 5 * k" "(\<exists>t. mc_step s t) \<longleftrightarrow> cmain_at s \<noteq> C_Return"
    using waiting.ends [OF _ _ refl assms] by auto
  moreover have "cnt s = 3 \<and> (\<exists>n \<le> 3 + k. stdout s = concat (map wait_line [1..<Suc n]))" if "cmain_at s = C_Return"
  proof (intro conjI exI [of _ "wait_n s - 1"])
    show "cnt s = 3" using mc_invD(1-4,7) [OF i] that by (auto simp: added_def split: if_splits)
  qed (use mc_invD(2,8-10) [OF i] in auto)
  ultimately show ?thesis using mc_enabled [OF i] by auto
qed

theorem mt_cond_correct_witness:
  "\<exists>m s. (mc_step ^^ m) (mc_init 2) s \<and> m \<le> 92 \<and> cmain_at s = C_Return \<and> cnt s = 3"
proof -
  obtain m s where "(mc_step ^^ m) (mc_init 2) s" "cmain_at s = C_Return"
    using waiting.reaches_end [OF mc_inv_init] by blast
  then show ?thesis using mt_cond_correct [of m 2 s] by auto
qed

end
