(* ===== verification/Order.thy ===== *)
theory Order
  imports Prelude
begin

text \<open>
  The memory-order experiment (\<open>src/order.c\<close>): \<open>main\<close> writes \<open>input\<close> and then \<open>input_changed\<close>, and any
  number of consumers wait for the second and look at the first; four semaphores keep the rounds apart.

  \<^item> One step is one access to shared memory or one call on a semaphore; looking at \<open>input\<close> and counting a
    catch are one step. A consumer that finds
    \<open>input_changed\<close> still 0 reads it again, which is no step.
  \<^item> \<open>weak\<close> says whether the processor may execute the load of \<open>input\<close> before the loop on
    \<open>input_changed\<close> has ended (the \<open>rmb\<close> that forbids it is compiled out); the value then waits in
    \<open>early\<close>. The store barrier of \<open>main\<close> keeps its two stores in order.
\<close>

subsection \<open>State\<close>

datatype consumer_pc = P_Wait | P_Input | P_Changed | P_Post | C_Wait | C_Spin | C_Check | C_Post

datatype producer_pc = Post_Prepare nat | Wait_Prepared nat | Post_Consume nat | Put_Input | Put_Changed | Wait_Consumed nat

record order =
  input :: u8
  input_changed :: u8
  sem_prepare :: nat
  sem_prepare_done :: nat
  sem_consume :: nat
  sem_consume_done :: nat
  caught :: u32
  rounds :: u32
  cons_at :: "consumer_pc list"
  early :: "u8 option list"
  prod_at :: producer_pc

definition order_init :: "nat \<Rightarrow> order" where
  "order_init n = \<lparr>input = 0, input_changed = 0, sem_prepare = 0, sem_prepare_done = 0, sem_consume = 0,
     sem_consume_done = 0, caught = 0, rounds = 0, cons_at = replicate n P_Wait, early = replicate n None,
     prod_at = Post_Prepare 0\<rparr>"

definition cons_goto :: "nat \<Rightarrow> consumer_pc \<Rightarrow> order \<Rightarrow> order" where
  "cons_goto c p s = s\<lparr>cons_at := (cons_at s)[c := p]\<rparr>"

subsection \<open>Consumers and producer\<close>

definition the_early :: "nat \<Rightarrow> order \<Rightarrow> u8" where
  "the_early c s = (case early s ! c of Some v \<Rightarrow> v | None \<Rightarrow> input s)"

definition consumer :: "nat \<Rightarrow> order \<Rightarrow> order option" where
  "consumer c s =
     (case cons_at s ! c of
        P_Wait \<Rightarrow> if 0 < sem_prepare s then Some (cons_goto c P_Input (s\<lparr>sem_prepare := sem_prepare s - 1\<rparr>)) else None
      | P_Input \<Rightarrow> Some (cons_goto c P_Changed (s\<lparr>input := 0x55\<rparr>))
      | P_Changed \<Rightarrow> Some (cons_goto c P_Post (s\<lparr>input_changed := 0\<rparr>))
      | P_Post \<Rightarrow> Some (cons_goto c C_Wait (s\<lparr>sem_prepare_done := sem_prepare_done s + 1\<rparr>))
      | C_Wait \<Rightarrow> if 0 < sem_consume s then Some (cons_goto c C_Spin (s\<lparr>sem_consume := sem_consume s - 1\<rparr>)) else None
      | C_Spin \<Rightarrow> if input_changed s \<noteq> 0 then Some (cons_goto c C_Check s) else None
      | C_Check \<Rightarrow> Some (cons_goto c C_Post
          (s\<lparr>caught := (if the_early c s = 0x55 then caught s + 1 else caught s), early := (early s)[c := None]\<rparr>))
      | C_Post \<Rightarrow> Some (cons_goto c P_Wait (s\<lparr>sem_consume_done := sem_consume_done s + 1\<rparr>)))"

text \<open>The load of \<open>input\<close>, executed while the consumer still waits for \<open>input_changed\<close>.\<close>

definition load_early :: "nat \<Rightarrow> order \<Rightarrow> order option" where
  "load_early c s = (if cons_at s ! c = C_Spin then Some (s\<lparr>early := (early s)[c := Some (input s)]\<rparr>) else None)"

definition producer :: "nat \<Rightarrow> order \<Rightarrow> order option" where
  "producer n s =
     (case prod_at s of
        Post_Prepare i \<Rightarrow>
          if i < n then Some (s\<lparr>sem_prepare := sem_prepare s + 1, prod_at := Post_Prepare (i + 1)\<rparr>)
          else Some (s\<lparr>prod_at := Wait_Prepared 0\<rparr>)
      | Wait_Prepared i \<Rightarrow>
          if i < n then (if 0 < sem_prepare_done s then Some (s\<lparr>sem_prepare_done := sem_prepare_done s - 1, prod_at := Wait_Prepared (i + 1)\<rparr>) else None)
          else Some (s\<lparr>prod_at := Post_Consume 0\<rparr>)
      | Post_Consume i \<Rightarrow>
          if i < n then Some (s\<lparr>sem_consume := sem_consume s + 1, prod_at := Post_Consume (i + 1)\<rparr>)
          else Some (s\<lparr>prod_at := Put_Input\<rparr>)
      | Put_Input \<Rightarrow> Some (s\<lparr>input := 0xAA, prod_at := Put_Changed\<rparr>)
      | Put_Changed \<Rightarrow> Some (s\<lparr>input_changed := 1, prod_at := Wait_Consumed 0\<rparr>)
      | Wait_Consumed i \<Rightarrow>
          if i < n then (if 0 < sem_consume_done s then Some (s\<lparr>sem_consume_done := sem_consume_done s - 1, prod_at := Wait_Consumed (i + 1)\<rparr>) else None)
          else Some (s\<lparr>rounds := rounds s + 1, prod_at := Post_Prepare 0\<rparr>))"

inductive order_step :: "bool \<Rightarrow> nat \<Rightarrow> order \<Rightarrow> order \<Rightarrow> bool" for weak n where
  consumes: "c < n \<Longrightarrow> consumer c s = Some t \<Longrightarrow> order_step weak n s t"
| produces: "producer n s = Some t \<Longrightarrow> order_step weak n s t"
| loads_early: "weak \<Longrightarrow> c < n \<Longrightarrow> load_early c s = Some t \<Longrightarrow> order_step weak n s t"

subsection \<open>How many consumers are where\<close>

definition at :: "consumer_pc \<Rightarrow> order \<Rightarrow> nat" where
  "at p s = count_list (cons_at s) p"

lemma count_list_update:
  "c < length ps \<Longrightarrow> count_list (ps[c := q]) p + (if ps ! c = p then 1 else 0) = count_list ps p + (if q = p then 1 else 0)"
proof (induction ps arbitrary: c)
  case (Cons r ps)
  show ?case
  proof (cases c)
    case (Suc k)
    then show ?thesis using Cons.IH [of k] Cons.prems by auto
  qed auto
qed simp

lemma replicate_update_same [simp]: "(replicate n x)[c := x] = replicate n x"
  proof (cases "c < n")
  case True
  then show ?thesis using list_update_id [of "replicate n x" c] by simp
qed (simp add: list_update_beyond)

lemma moved:
  assumes "c < length (cons_at s)" "cons_at s ! c = p" "p \<noteq> q"
  shows "0 < at p s" "at r (cons_goto c q s) = (if r = p then at p s - 1 else if r = q then at q s + 1 else at r s)"
proof -
  have e: "count_list ((cons_at s)[c := q]) r + (if p = r then 1 else 0) = count_list (cons_at s) r + (if q = r then 1 else 0)" for r
    using count_list_update [OF assms(1)] assms(2) by simp
  from e [of p] show "0 < at p s" using assms(3) by (simp add: at_def)
  from e [of r] show "at r (cons_goto c q s) = (if r = p then at p s - 1 else if r = q then at q s + 1 else at r s)"
    using assms(3) by (auto simp: at_def cons_goto_def)
qed

lemma at_kept [simp]:
  "at p (s\<lparr>input := v\<rparr>) = at p s" "at p (s\<lparr>input_changed := v\<rparr>) = at p s" "at p (s\<lparr>sem_prepare := k\<rparr>) = at p s"
  "at p (s\<lparr>sem_prepare_done := k\<rparr>) = at p s" "at p (s\<lparr>sem_consume := k\<rparr>) = at p s" "at p (s\<lparr>sem_consume_done := k\<rparr>) = at p s"
  "at p (s\<lparr>caught := w\<rparr>) = at p s" "at p (s\<lparr>rounds := w\<rparr>) = at p s" "at p (s\<lparr>early := e\<rparr>) = at p s" "at p (s\<lparr>prod_at := q\<rparr>) = at p s"
  by (simp_all add: at_def)

lemma goto_kept [simp]:
  "input (cons_goto c p s) = input s" "input_changed (cons_goto c p s) = input_changed s"
  "sem_prepare (cons_goto c p s) = sem_prepare s" "sem_prepare_done (cons_goto c p s) = sem_prepare_done s"
  "sem_consume (cons_goto c p s) = sem_consume s" "sem_consume_done (cons_goto c p s) = sem_consume_done s"
  "caught (cons_goto c p s) = caught s" "early (cons_goto c p s) = early s" "prod_at (cons_goto c p s) = prod_at s"
  "length (cons_at (cons_goto c p s)) = length (cons_at s)"
  by (simp_all add: cons_goto_def)

subsection \<open>The invariant\<close>

definition preparing :: "order \<Rightarrow> bool" where
  "preparing s \<longleftrightarrow>
     at C_Spin s = 0 \<and> at C_Check s = 0 \<and> at C_Post s = 0 \<and> sem_consume s = 0 \<and> sem_consume_done s = 0 \<and>
     (0 < at P_Changed s + at P_Post s + at C_Wait s \<longrightarrow> input s = 0x55) \<and>
     (0 < at P_Post s + at C_Wait s \<longrightarrow> input_changed s = 0)"

definition consuming :: "order \<Rightarrow> bool" where
  "consuming s \<longleftrightarrow>
     at P_Input s = 0 \<and> at P_Changed s = 0 \<and> at P_Post s = 0 \<and> sem_prepare s = 0 \<and> sem_prepare_done s = 0"

definition released :: "nat \<Rightarrow> order \<Rightarrow> bool" where
  "released i s \<longleftrightarrow>
     consuming s \<and> at P_Wait s = 0 \<and> at C_Check s = 0 \<and> at C_Post s = 0 \<and> sem_consume s + at C_Spin s = i \<and>
     sem_consume_done s = 0 \<and> (0 < at C_Wait s + at C_Spin s \<longrightarrow> input_changed s = 0)"

definition phase_ok :: "nat \<Rightarrow> order \<Rightarrow> bool" where
  "phase_ok n s =
     (case prod_at s of
        Post_Prepare i \<Rightarrow> preparing s \<and> i \<le> n \<and> sem_prepare s + n = at P_Wait s + i \<and> sem_prepare_done s = at C_Wait s
      | Wait_Prepared i \<Rightarrow> preparing s \<and> i \<le> n \<and> sem_prepare s = at P_Wait s \<and> sem_prepare_done s + i = at C_Wait s
      | Post_Consume i \<Rightarrow> released i s \<and> i \<le> n
      | Put_Input \<Rightarrow> released n s
      | Put_Changed \<Rightarrow> released n s \<and> input s = 0xAA
      | Wait_Consumed i \<Rightarrow> consuming s \<and> i \<le> n \<and> sem_consume s = at C_Wait s \<and> sem_consume_done s + i = at P_Wait s \<and>
          input s = 0xAA \<and> input_changed s = 1)"

definition order_inv :: "nat \<Rightarrow> order \<Rightarrow> bool" where
  "order_inv n s \<longleftrightarrow>
     length (cons_at s) = n \<and> early s = replicate n None \<and> caught s = 0 \<and>
     at P_Wait s + at P_Input s + at P_Changed s + at P_Post s + at C_Wait s + at C_Spin s + at C_Check s + at C_Post s = n \<and>
     phase_ok n s"

lemmas phase_defs = phase_ok_def preparing_def consuming_def released_def

lemma consumer_inv:
  assumes "order_inv n s" "c < n" "consumer c s = Some t"
  shows "order_inv n t"
proof -
  have c: "c < length (cons_at s)" using assms by (simp add: order_inv_def)
  note m = moved [where c = c]
  show ?thesis
  proof (cases "cons_at s ! c")
    case P_Wait
    then have t: "t = cons_goto c P_Input (s\<lparr>sem_prepare := sem_prepare s - 1\<rparr>)" "0 < sem_prepare s"
      using assms(3) by (simp_all add: consumer_def split: if_splits)
    have "at r t = (if r = P_Wait then at P_Wait s - 1 else if r = P_Input then at P_Input s + 1 else at r s)" "0 < at P_Wait s" for r
      using moved [where s = "s\<lparr>sem_prepare := sem_prepare s - 1\<rparr>" and c = c and q = P_Input] c P_Wait by (simp_all add: t(1))
    then show ?thesis using assms(1) t(2) by (cases "prod_at s") (simp_all add: order_inv_def phase_defs t(1))
  next
    case P_Input
    then have t: "t = cons_goto c P_Changed (s\<lparr>input := 0x55\<rparr>)"
      using assms(3) by (simp add: consumer_def)
    have "at r t = (if r = P_Input then at P_Input s - 1 else if r = P_Changed then at P_Changed s + 1 else at r s)" "0 < at P_Input s" for r
      using moved [where s = "s\<lparr>input := 0x55\<rparr>" and c = c and q = P_Changed] c P_Input by (simp_all add: t(1))
    then show ?thesis using assms(1) by (cases "prod_at s") (simp_all add: order_inv_def phase_defs t(1))
  next
    case P_Changed
    then have t: "t = cons_goto c P_Post (s\<lparr>input_changed := 0\<rparr>)"
      using assms(3) by (simp add: consumer_def)
    have "at r t = (if r = P_Changed then at P_Changed s - 1 else if r = P_Post then at P_Post s + 1 else at r s)" "0 < at P_Changed s" for r
      using moved [where s = "s\<lparr>input_changed := 0\<rparr>" and c = c and q = P_Post] c P_Changed by (simp_all add: t(1))
    then show ?thesis using assms(1) by (cases "prod_at s") (simp_all add: order_inv_def phase_defs t(1))
  next
    case P_Post
    then have t: "t = cons_goto c C_Wait (s\<lparr>sem_prepare_done := sem_prepare_done s + 1\<rparr>)"
      using assms(3) by (simp add: consumer_def)
    have "at r t = (if r = P_Post then at P_Post s - 1 else if r = C_Wait then at C_Wait s + 1 else at r s)" "0 < at P_Post s" for r
      using moved [where s = "s\<lparr>sem_prepare_done := sem_prepare_done s + 1\<rparr>" and c = c and q = C_Wait] c P_Post by (simp_all add: t(1))
    then show ?thesis using assms(1) by (cases "prod_at s") (simp_all add: order_inv_def phase_defs t(1))
  next
    case C_Wait
    then have t: "t = cons_goto c C_Spin (s\<lparr>sem_consume := sem_consume s - 1\<rparr>)" "0 < sem_consume s"
      using assms(3) by (simp_all add: consumer_def split: if_splits)
    have "at r t = (if r = C_Wait then at C_Wait s - 1 else if r = C_Spin then at C_Spin s + 1 else at r s)" "0 < at C_Wait s" for r
      using moved [where s = "s\<lparr>sem_consume := sem_consume s - 1\<rparr>" and c = c and q = C_Spin] c C_Wait by (simp_all add: t(1))
    then show ?thesis using assms(1) t(2) by (cases "prod_at s") (simp_all add: order_inv_def phase_defs t(1))
  next
    case C_Spin
    then have t: "t = cons_goto c C_Check s" "input_changed s \<noteq> 0"
      using assms(3) by (simp_all add: consumer_def split: if_splits)
    have "at r t = (if r = C_Spin then at C_Spin s - 1 else if r = C_Check then at C_Check s + 1 else at r s)" "0 < at C_Spin s" for r
      using moved [where s = s and c = c and q = C_Check] c C_Spin by (simp_all add: t(1))
    then show ?thesis using assms(1) t(2) by (cases "prod_at s") (simp_all add: order_inv_def phase_defs t(1))
  next
    case C_Check
    let ?s = "s\<lparr>caught := (if the_early c s = 0x55 then caught s + 1 else caught s), early := (early s)[c := None]\<rparr>"
    have t: "t = cons_goto c C_Post ?s"
      using assms(3) C_Check by (simp add: consumer_def)
    have a: "at r t = (if r = C_Check then at C_Check s - 1 else if r = C_Post then at C_Post s + 1 else at r s)" "0 < at C_Check s" for r
      using moved [where s = ?s and c = c and q = C_Post] c C_Check by (simp_all add: t(1))
    have "input s = 0xAA" using assms(1) a(2) by (cases "prod_at s") (simp_all add: order_inv_def phase_defs)
    then have "the_early c s = 0xAA" using assms(1,2) by (simp add: order_inv_def the_early_def)
    then show ?thesis using assms(1) a by (cases "prod_at s") (simp_all add: order_inv_def phase_defs t(1))
  next
    case C_Post
    then have t: "t = cons_goto c P_Wait (s\<lparr>sem_consume_done := sem_consume_done s + 1\<rparr>)"
      using assms(3) by (simp add: consumer_def)
    have "at r t = (if r = C_Post then at C_Post s - 1 else if r = P_Wait then at P_Wait s + 1 else at r s)" "0 < at C_Post s" for r
      using moved [where s = "s\<lparr>sem_consume_done := sem_consume_done s + 1\<rparr>" and c = c and q = P_Wait] c C_Post by (simp_all add: t(1))
    then show ?thesis using assms(1) by (cases "prod_at s") (simp_all add: order_inv_def phase_defs t(1))
  qed
qed

lemma producer_inv:
  assumes "order_inv n s" "producer n s = Some t"
  shows "order_inv n t"
  using assms(2,1) by (cases "prod_at s"; simp add: producer_def split: if_splits; clarsimp simp: order_inv_def phase_defs)

lemma order_init_inv: "order_inv n (order_init n)"
  by (simp add: order_inv_def order_init_def phase_defs at_def) (induction n, auto)

lemma order_enabled:
  assumes "order_inv n s"
  shows "\<exists>t. order_step False n s t"
proof (cases "producer n s")
  case (Some t)
  then show ?thesis using order_step.produces by blast
next
  case None
  have "\<exists>c < n. consumer c s \<noteq> None"
  proof (rule ccontr)
    assume "\<not> (\<exists>c < n. consumer c s \<noteq> None)"
    then have b: "consumer c s = None" if "c < n" for c using that by simp
    have l: "length (cons_at s) = n" using assms by (simp add: order_inv_def)
    have z: "at p s = 0" if "\<And>c. cons_at s ! c = p \<Longrightarrow> c < n \<Longrightarrow> consumer c s \<noteq> None" for p
      using that b l by (metis at_def count_list_0_iff in_set_conv_nth)
    have "at P_Input s = 0" "at P_Changed s = 0" "at P_Post s = 0" "at C_Check s = 0" "at C_Post s = 0"
      "0 < sem_prepare s \<Longrightarrow> at P_Wait s = 0" "0 < sem_consume s \<Longrightarrow> at C_Wait s = 0"
      "input_changed s \<noteq> 0 \<Longrightarrow> at C_Spin s = 0"
      by (rule z; simp add: consumer_def)+
    then show False using assms None by (cases "prod_at s") (auto simp: order_inv_def phase_defs producer_def split: if_splits)
  qed
  then show ?thesis using order_step.consumes by blast
qed

interpretation order: invariant_system "\<lambda>s. s = order_init n" "order_step False n" "order_inv n"
proof
  show "order_inv n t" if "order_inv n s" "order_step False n s t" for s t
    using that(2,1) by cases (auto intro: consumer_inv producer_inv)
qed (use order_init_inv in simp)

subsection \<open>What the experiment observes\<close>

text \<open>A run given by who moves: \<open>main\<close>, a consumer, or the early load of a consumer.\<close>

datatype order_move = Main_Moves | Moves nat | Loads nat

fun moves :: "nat \<Rightarrow> order_move list \<Rightarrow> order \<Rightarrow> order option" where
  "moves n [] s = Some s"
| "moves n (Main_Moves # ms) s = Option.bind (producer n s) (moves n ms)"
| "moves n (Moves c # ms) s = (if c < n then Option.bind (consumer c s) (moves n ms) else None)"
| "moves n (Loads c # ms) s = (if c < n then Option.bind (load_early c s) (moves n ms) else None)"

lemma moves_reachable: "moves n ms s = Some t \<Longrightarrow> reachable init (order_step True n) s \<Longrightarrow> reachable init (order_step True n) t"
proof (induction n ms s rule: moves.induct)
  case (2 n ms s)
  show ?case
  proof (cases "producer n s")
    case (Some u)
    then have "moves n ms u = Some t" using "2.prems"(1) by (simp_all split: if_splits)
    then show ?thesis using "2.IH" Some "2.prems"(2) order_step.produces reach_step by metis
  qed (use "2.prems"(1) in \<open>simp_all split: if_splits\<close>)
next
  case (3 n c ms s)
  show ?case
  proof (cases "consumer c s")
    case (Some u)
    then have "moves n ms u = Some t" "c < n" using "3.prems"(1) by (simp_all split: if_splits)
    then show ?thesis using "3.IH" Some "3.prems"(2) order_step.consumes reach_step by metis
  qed (use "3.prems"(1) in \<open>simp_all split: if_splits\<close>)
next
  case (4 n c ms s)
  show ?case
  proof (cases "load_early c s")
    case (Some u)
    then have "moves n ms u = Some t" "c < n" using "4.prems"(1) by (simp_all split: if_splits)
    then show ?thesis using "4.IH" Some "4.prems"(2) order_step.loads_early reach_step by metis
  qed (use "4.prems"(1) in \<open>simp_all split: if_splits\<close>)
qed simp

definition reordered :: "order_move list" where
  "reordered = [Main_Moves, Main_Moves, Moves 0, Moves 0, Moves 0, Moves 0, Main_Moves, Main_Moves, Main_Moves, Main_Moves,
     Moves 0, Loads 0, Main_Moves, Main_Moves, Moves 0, Moves 0]"

lemma reordered_caught: "map_option caught (moves 1 reordered (order_init 1)) = Some 1"
  by code_simp

text \<open>C35: Without early loads no consumer ever sees the old \<open>input\<close> after the new \<open>input_changed\<close>, for any
  number of consumers: the semaphores keep the rounds apart, and nobody is stuck. With early loads one
  round of one consumer already catches the reordering.\<close>

theorem order_caught_only_weak:
  assumes "reachable (\<lambda>s. s = order_init n) (order_step False n) s"
  shows "caught s = 0 \<and> (\<exists>t. order_step False n s t) \<and>
    (\<exists>t. reachable (\<lambda>s. s = order_init 1) (order_step True 1) t \<and> caught t = 1)"
proof -
  obtain t where "moves 1 reordered (order_init 1) = Some t" "caught t = 1"
    using reordered_caught by (cases "moves 1 reordered (order_init 1)") simp_all
  then have "\<exists>t. reachable (\<lambda>s. s = order_init 1) (order_step True 1) t \<and> caught t = 1"
    using moves_reachable reach_init [of "\<lambda>s. s = order_init 1"] by blast
  moreover have i: "order_inv n s" using order.reachable_inv [OF assms] .
  then have "caught s = 0" unfolding order_inv_def by blast
  ultimately show ?thesis using order_enabled [OF i] by blast
qed

theorem order_caught_only_weak_witness:
  "\<exists>s. producer 50 (order_init 50) = Some s \<and> caught s = 0 \<and> (\<exists>t. order_step False 50 s t)"
proof -
  let ?s = "(order_init 50)\<lparr>sem_prepare := 1, prod_at := Post_Prepare 1\<rparr>"
  have s: "producer 50 (order_init 50) = Some ?s" by (simp add: producer_def order_init_def)
  have "reachable (\<lambda>s. s = order_init 50) (order_step False 50) ?s"
    using order_step.produces [OF s] reach_init [of "\<lambda>s. s = order_init 50" "order_init 50"] by (rule reach_step [rotated]) simp
  then show ?thesis using order_caught_only_weak [of 50 ?s] s by blast
qed

end
