(* ===== verification/Order2.thy ===== *)
theory Order2
  imports Prelude
begin

text \<open>
  The store-buffering experiment (\<open>src/order2.cc\<close>): in each round two threads each set their variable and then read the
  other's; \<open>main\<close> counts the rounds in which both read 0.

  \<^item> Thread \<open>True\<close> is \<open>thread1Func\<close> with \<open>X\<close>, \<open>r1\<close> and \<open>beginSema1\<close>; \<open>False\<close> is \<open>thread2Func\<close> with \<open>Y\<close>, \<open>r2\<close> and \<open>beginSema2\<close>.
  \<^item> One step is one access or one call on a semaphore. \<open>weak\<close> says whether the relaxed load may be executed before the
    exchange in front of it has stored: neither the acquire nor the release order of the exchange, nor the acquire
    fence, forbids that. A semaphore is passed only after everything in front of the call has been done.
  \<^item> The exchange compares with 0 and is strong: it fails only when the variable is not 0. The counters of \<open>main\<close> are unbounded.
\<close>

subsection \<open>State and steps\<close>

datatype racer_at = T_Wait | T_Race bool bool \<comment> \<open>has stored, has loaded\<close>

datatype judge_at = J_ResetX | J_ResetY | J_Begin1 | J_Begin2 | J_End1 | J_End2 | J_Check

record race =
  shared :: "bool \<Rightarrow> nat"
  seen :: "bool \<Rightarrow> nat"
  begin_sema :: "bool \<Rightarrow> nat"
  end_sema :: nat
  racer :: "bool \<Rightarrow> racer_at"
  judge :: judge_at
  iterations :: nat
  detected :: nat

definition race_init :: race where
  "race_init = \<lparr>shared = (\<lambda>_. 0), seen = (\<lambda>_. 0), begin_sema = (\<lambda>_. 0), end_sema = 0, racer = (\<lambda>_. T_Wait),
     judge = J_ResetX, iterations = 1, detected = 0\<rparr>"

text \<open>What a thread can do next: nothing, or one of at most two accesses.\<close>

definition thread_func :: "bool \<Rightarrow> bool \<Rightarrow> race \<Rightarrow> race list" where
  "thread_func weak i s =
     (case racer s i of
        T_Wait \<Rightarrow> if 0 < begin_sema s i
          then [s\<lparr>begin_sema := (begin_sema s)(i := begin_sema s i - 1), racer := (racer s)(i := T_Race False False)\<rparr>] else []
      | T_Race stored loaded \<Rightarrow>
          (if \<not> stored then [s\<lparr>shared := (if shared s i = 0 then (shared s)(i := 1) else shared s), racer := (racer s)(i := T_Race True loaded)\<rparr>] else []) @
          (if \<not> loaded \<and> (stored \<or> weak) then [s\<lparr>seen := (seen s)(i := shared s (\<not> i)), racer := (racer s)(i := T_Race stored True)\<rparr>] else []) @
          (if stored \<and> loaded then [s\<lparr>end_sema := end_sema s + 1, racer := (racer s)(i := T_Wait)\<rparr>] else []))"

definition main_order2 :: "race \<Rightarrow> race option" where
  "main_order2 s =
     (case judge s of
        J_ResetX \<Rightarrow> Some (s\<lparr>shared := (shared s)(True := 0), judge := J_ResetY\<rparr>)
      | J_ResetY \<Rightarrow> Some (s\<lparr>shared := (shared s)(False := 0), judge := J_Begin1\<rparr>)
      | J_Begin1 \<Rightarrow> Some (s\<lparr>begin_sema := (begin_sema s)(True := begin_sema s True + 1), judge := J_Begin2\<rparr>)
      | J_Begin2 \<Rightarrow> Some (s\<lparr>begin_sema := (begin_sema s)(False := begin_sema s False + 1), judge := J_End1\<rparr>)
      | J_End1 \<Rightarrow> if 0 < end_sema s then Some (s\<lparr>end_sema := end_sema s - 1, judge := J_End2\<rparr>) else None
      | J_End2 \<Rightarrow> if 0 < end_sema s then Some (s\<lparr>end_sema := end_sema s - 1, judge := J_Check\<rparr>) else None
      | J_Check \<Rightarrow> Some (s\<lparr>detected := (if seen s True = 0 \<and> seen s False = 0 then detected s + 1 else detected s),
            iterations := iterations s + 1, judge := J_ResetX\<rparr>))"

inductive race_step :: "bool \<Rightarrow> race \<Rightarrow> race \<Rightarrow> bool" for weak where
  judge_steps: "main_order2 s = Some t \<Longrightarrow> race_step weak s t"
| racer_steps: "t \<in> set (thread_func weak i s) \<Longrightarrow> race_step weak s t"

subsection \<open>Invariant\<close>

definition begun :: "bool \<Rightarrow> judge_at \<Rightarrow> bool" where
  "begun i j \<longleftrightarrow> (if i then j \<in> {J_Begin2, J_End1, J_End2, J_Check} else j \<in> {J_End1, J_End2, J_Check})"

definition through :: "race \<Rightarrow> bool \<Rightarrow> bool" where
  "through s i \<longleftrightarrow> begun i (judge s) \<and> racer s i = T_Wait \<and> begin_sema s i = 0"

fun stored_at :: "racer_at \<Rightarrow> bool" where
  "stored_at T_Wait = False" | "stored_at (T_Race st ld) = st"

fun loaded_at :: "racer_at \<Rightarrow> bool" where
  "loaded_at T_Wait = False" | "loaded_at (T_Race st ld) = ld"

definition has_stored :: "race \<Rightarrow> bool \<Rightarrow> bool" where
  "has_stored s i \<longleftrightarrow> through s i \<or> stored_at (racer s i)"

definition has_loaded :: "race \<Rightarrow> bool \<Rightarrow> bool" where
  "has_loaded s i \<longleftrightarrow> through s i \<or> loaded_at (racer s i)"

definition ended_waits :: "judge_at \<Rightarrow> nat" where
  "ended_waits j = (case j of J_End2 \<Rightarrow> 1 | J_Check \<Rightarrow> 2 | _ \<Rightarrow> 0)"

definition racer_inv :: "bool \<Rightarrow> race \<Rightarrow> bool \<Rightarrow> bool" where
  "racer_inv weak s i \<longleftrightarrow>
     (if begun i (judge s) then racer s i = T_Wait \<and> begin_sema s i \<le> 1 \<or> racer s i \<noteq> T_Wait \<and> begin_sema s i = 0
      else racer s i = T_Wait \<and> begin_sema s i = 0) \<and>
     (judge s \<notin> {J_ResetX, J_ResetY} \<longrightarrow> shared s i = (if has_stored s i then 1 else 0)) \<and>
     (\<not> weak \<longrightarrow> has_loaded s i \<longrightarrow> has_stored s i)"

definition race_inv :: "bool \<Rightarrow> race \<Rightarrow> bool" where
  "race_inv weak s \<longleftrightarrow>
     racer_inv weak s True \<and> racer_inv weak s False \<and> (judge s = J_ResetY \<longrightarrow> shared s True = 0) \<and>
     end_sema s + ended_waits (judge s) = (if through s True then 1 else 0) + (if through s False then 1 else 0) \<and>
     (\<not> weak \<longrightarrow> detected s = 0 \<and> (has_loaded s True \<and> has_loaded s False \<longrightarrow> seen s True = 1 \<or> seen s False = 1))"

lemmas race_defs = race_inv_def racer_inv_def through_def has_stored_def has_loaded_def begun_def ended_waits_def

lemma race_init_inv: "race_inv weak race_init"
  by (simp add: race_defs race_init_def)

lemma judge_inv:
  assumes "race_inv weak s" "main_order2 s = Some t"
  shows "race_inv weak t"
proof (cases "judge s")
  case J_ResetX
  then have "t = s\<lparr>shared := (shared s)(True := 0), judge := J_ResetY\<rparr>" using assms(2) by (simp add: main_order2_def)
  then show ?thesis using assms(1) J_ResetX by (simp add: race_defs)
next
  case J_ResetY
  then have "t = s\<lparr>shared := (shared s)(False := 0), judge := J_Begin1\<rparr>" using assms(2) by (simp add: main_order2_def)
  then show ?thesis using assms(1) J_ResetY by (simp add: race_defs)
next
  case J_Begin1
  then have "t = s\<lparr>begin_sema := (begin_sema s)(True := begin_sema s True + 1), judge := J_Begin2\<rparr>" using assms(2) by (simp add: main_order2_def)
  then show ?thesis using assms(1) J_Begin1 by (simp add: race_defs)
next
  case J_Begin2
  then have "t = s\<lparr>begin_sema := (begin_sema s)(False := begin_sema s False + 1), judge := J_End1\<rparr>" using assms(2) by (simp add: main_order2_def)
  then show ?thesis using assms(1) J_Begin2 by (simp add: race_defs)
next
  case J_End1
  then obtain e where e: "end_sema s = Suc e" "t = s\<lparr>end_sema := e, judge := J_End2\<rparr>"
    using assms(2) by (cases "end_sema s") (simp_all add: main_order2_def)
  then show ?thesis using assms(1) J_End1 by (simp add: race_defs)
next
  case J_End2
  then obtain e where e: "end_sema s = Suc e" "t = s\<lparr>end_sema := e, judge := J_Check\<rparr>"
    using assms(2) by (cases "end_sema s") (simp_all add: main_order2_def)
  then show ?thesis using assms(1) J_End2 by (simp add: race_defs)
next
  case J_Check
  then have t: "t = s\<lparr>detected := (if seen s True = 0 \<and> seen s False = 0 then detected s + 1 else detected s), iterations := iterations s + 1, judge := J_ResetX\<rparr>"
    using assms(2) by (simp add: main_order2_def)
  have "through s True" "through s False" using assms(1) J_Check by (simp_all add: race_inv_def ended_waits_def split: if_splits)
  then show ?thesis using assms(1) J_Check unfolding t by (simp add: race_defs) linarith
qed

text \<open>The four kinds of steps of a thread.\<close>

lemma racer_updates:
  assumes "race_inv weak s"
  shows "racer s i = T_Wait \<Longrightarrow> begin_sema s i = Suc b \<Longrightarrow>
      race_inv weak (s\<lparr>begin_sema := (begin_sema s)(i := b), racer := (racer s)(i := T_Race False False)\<rparr>)"
    "racer s i = T_Race False ld \<Longrightarrow>
      race_inv weak (s\<lparr>shared := (if shared s i = 0 then (shared s)(i := 1) else shared s), racer := (racer s)(i := T_Race True ld)\<rparr>)"
    "racer s i = T_Race st False \<Longrightarrow> st \<or> weak \<Longrightarrow>
      race_inv weak (s\<lparr>seen := (seen s)(i := shared s (\<not> i)), racer := (racer s)(i := T_Race st True)\<rparr>)"
    "racer s i = T_Race True True \<Longrightarrow> race_inv weak (s\<lparr>end_sema := end_sema s + 1, racer := (racer s)(i := T_Wait)\<rparr>)"
proof -
  have "judge s \<noteq> J_ResetX \<and> judge s \<noteq> J_ResetY" if "racer s i \<noteq> T_Wait \<or> begin_sema s i \<noteq> 0"
    using assms that by (cases i; cases "judge s") (simp_all add: race_defs)
  note j = this
  show "race_inv weak (s\<lparr>begin_sema := (begin_sema s)(i := b), racer := (racer s)(i := T_Race False False)\<rparr>)"
    if "racer s i = T_Wait" "begin_sema s i = Suc b"
    using assms that j by (cases i; cases "judge s") (simp_all add: race_defs split: if_splits)
  show "race_inv weak (s\<lparr>shared := (if shared s i = 0 then (shared s)(i := 1) else shared s), racer := (racer s)(i := T_Race True ld)\<rparr>)"
    if "racer s i = T_Race False ld"
    using assms that j by (cases i; cases "judge s") (simp_all add: race_defs split: if_splits)
  show "race_inv weak (s\<lparr>seen := (seen s)(i := shared s (\<not> i)), racer := (racer s)(i := T_Race st True)\<rparr>)"
    if "racer s i = T_Race st False" "st \<or> weak"
    using assms that j by (cases i; cases "judge s") (simp_all add: race_defs split: if_splits)
  show "race_inv weak (s\<lparr>end_sema := end_sema s + 1, racer := (racer s)(i := T_Wait)\<rparr>)" if "racer s i = T_Race True True"
    using assms that j by (cases i; cases "judge s") (simp_all add: race_defs split: if_splits)
qed

lemma racer_inv_step:
  assumes "race_inv weak s" "t \<in> set (thread_func weak i s)"
  shows "race_inv weak t"
proof (cases "racer s i")
  case T_Wait
  then obtain b where "begin_sema s i = Suc b" "t = s\<lparr>begin_sema := (begin_sema s)(i := b), racer := (racer s)(i := T_Race False False)\<rparr>"
    using assms(2) by (cases "begin_sema s i") (simp_all add: thread_func_def)
  then show ?thesis using racer_updates(1) [OF assms(1) T_Wait] by simp
next
  case (T_Race st ld)
  then consider "\<not> st" "t = s\<lparr>shared := (if shared s i = 0 then (shared s)(i := 1) else shared s), racer := (racer s)(i := T_Race True ld)\<rparr>"
    | "\<not> ld" "st \<or> weak" "t = s\<lparr>seen := (seen s)(i := shared s (\<not> i)), racer := (racer s)(i := T_Race st True)\<rparr>"
    | "st" "ld" "t = s\<lparr>end_sema := end_sema s + 1, racer := (racer s)(i := T_Wait)\<rparr>"
    using assms(2) by (auto simp: thread_func_def split: if_splits)
  then show ?thesis
  proof cases
    case 1
    then show ?thesis using racer_updates(2) [OF assms(1), of i ld] T_Race by simp
  next
    case 2
    then show ?thesis using racer_updates(3) [OF assms(1), of i st] T_Race by simp
  next
    case 3
    then show ?thesis using racer_updates(4) [OF assms(1), of i] T_Race by simp
  qed
qed

interpretation race: invariant_system "\<lambda>s. s = race_init" "race_step weak" "race_inv weak" for weak
proof
  show "race_inv weak t" if "race_inv weak s" "race_step weak s t" for s t
    using that(2,1) by cases (use judge_inv racer_inv_step in blast)+
qed (simp add: race_init_inv)

lemma race_enabled:
  assumes "race_inv weak s"
  shows "\<exists>t. race_step weak s t"
proof (cases "main_order2 s")
  case (Some t)
  then show ?thesis using judge_steps by blast
next
  case None
  then have j: "judge s \<in> {J_End1, J_End2}" "end_sema s = 0" by (cases "judge s"; simp add: main_order2_def split: if_splits)+
  then obtain i where i: "\<not> through s i"
    using assms by (auto simp: race_inv_def ended_waits_def split: if_splits)
  have "begun i (judge s)" using j(1) by (auto simp: begun_def)
  then have "thread_func weak i s \<noteq> []"
    using i by (cases "racer s i") (auto simp: through_def thread_func_def)
  then obtain t where "t \<in> set (thread_func weak i s)" by (cases "thread_func weak i s") auto
  then show ?thesis using racer_steps by blast
qed

text \<open>A round in which both threads load first.\<close>

datatype race_move = Judge | Racer bool nat

fun race_play :: "bool \<Rightarrow> race_move list \<Rightarrow> race \<Rightarrow> race option" where
  "race_play weak [] s = Some s"
| "race_play weak (Judge # ms) s = (case main_order2 s of None \<Rightarrow> None | Some t \<Rightarrow> race_play weak ms t)"
| "race_play weak (Racer i k # ms) s = (let ts = thread_func weak i s in if k < length ts then race_play weak ms (ts ! k) else None)"

lemma race_play_reachable:
  "race_play weak ms s = Some t \<Longrightarrow> reachable init (race_step weak) s \<Longrightarrow> reachable init (race_step weak) t"
proof (induction weak ms s rule: race_play.induct)
  case (2 weak ms s)
  then obtain u where "main_order2 s = Some u" "race_play weak ms u = Some t" by (auto split: option.splits)
  then show ?case using 2 reach_step [OF 2(3) judge_steps] by blast
next
  case (3 weak i k ms s)
  then have "k < length (thread_func weak i s)" "race_play weak ms (thread_func weak i s ! k) = Some t" by (auto simp: Let_def split: if_splits)
  then show ?case using 3 reach_step [OF 3(3) racer_steps [OF nth_mem]] by blast
qed simp

definition both_early :: "race_move list" where
  "both_early = replicate 4 Judge @ [Racer True 0, Racer False 0, Racer True 1, Racer False 1, Racer True 0, Racer False 0,
     Racer True 0, Racer False 0] @ replicate 3 Judge"

lemma both_early_detected: "map_option (\<lambda>s. (detected s, iterations s)) (race_play True both_early race_init) = Some (1, 2)"
  by code_simp

subsection \<open>Properties\<close>

text \<open>Remark: When loads keep their place behind the exchange, no round ever ends with both threads having read 0; when a load
  may be executed before the exchange has stored, one round can be enough, although the exchanges are acquire and
  release operations. In either case the semaphores keep the rounds apart: after a round both variables are 1, and
  somebody can always go on.\<close>

theorem order2_detects:
  assumes "reachable (\<lambda>s. s = race_init) (race_step weak) s"
  shows "(\<not> weak \<longrightarrow> detected s = 0) \<and> (judge s = J_Check \<longrightarrow> shared s True = 1 \<and> shared s False = 1 \<and> (\<forall>i. racer s i = T_Wait)) \<and>
    (\<exists>t. race_step weak s t) \<and>
    (\<exists>t. reachable (\<lambda>s. s = race_init) (race_step True) t \<and> detected t = 1 \<and> iterations t = 2)"
proof -
  have i: "race_inv weak s" by (rule race.reachable_inv [OF assms])
  obtain t where "race_play True both_early race_init = Some t" "detected t = 1" "iterations t = 2"
    using both_early_detected by (cases "race_play True both_early race_init") auto
  then have "\<exists>t. reachable (\<lambda>s. s = race_init) (race_step True) t \<and> detected t = 1 \<and> iterations t = 2"
    using race_play_reachable reach_init [of "\<lambda>s. s = race_init"] by blast
  moreover have "judge s = J_Check \<longrightarrow> shared s True = 1 \<and> shared s False = 1 \<and> (\<forall>i. racer s i = T_Wait)"
  proof
    assume c: "judge s = J_Check"
    have th: "through s True" "through s False" using i c by (simp_all add: race_inv_def ended_waits_def split: if_splits)
    then have "racer s i = T_Wait" for i by (cases i) (simp_all add: through_def)
    then show "shared s True = 1 \<and> shared s False = 1 \<and> (\<forall>i. racer s i = T_Wait)"
      using i c th by (simp add: race_inv_def racer_inv_def has_stored_def)
  qed
  moreover have "\<not> weak \<longrightarrow> detected s = 0" using i by (simp add: race_inv_def)
  ultimately show ?thesis using race_enabled [OF i] by blast
qed

lemma strong_round: "map_option (\<lambda>s. (judge s, seen s True, seen s False))
    (race_play False (replicate 4 Judge @ [Racer True 0, Racer True 0, Racer True 0, Racer True 0, Racer False 0, Racer False 0, Racer False 0,
       Racer False 0, Judge, Judge]) race_init) = Some (J_Check, 0, 1)"
  by code_simp

theorem order2_detects_witness:
  "\<exists>s. reachable (\<lambda>s. s = race_init) (race_step False) s \<and> judge s = J_Check \<and> seen s True = 0 \<and> detected s = 0 \<and> shared s False = 1"
proof -
  obtain s ms where s: "race_play False ms race_init = Some s" "judge s = J_Check" "seen s True = 0"
    using strong_round by (auto simp: map_option_case split: option.splits)
  have r: "reachable (\<lambda>s. s = race_init) (race_step False) s"
    using race_play_reachable [OF s(1)] reach_init [of "\<lambda>s. s = race_init"] by blast
  then show ?thesis using order2_detects [OF r] s by blast
qed

end
