(* ===== verification/MemoryOrder.thy ===== *)
theory MemoryOrder
  imports Prelude
begin

text \<open>
  Four experiments with the order of memory accesses (\<open>src/memory-order\<close>): message passing with and without release
  and acquire (\<open>atomic1.cc\<close>, \<open>test1.cc\<close>), store buffering with sequentially consistent and with plain accesses (\<open>atomic2.cc\<close>,
  \<open>test2.cc\<close>).

  \<^item> All have the same shape: \<open>main\<close> sets two shared variables to 0, starts two threads of two accesses each, waits for both, and
    counts the rounds with a result that the program order forbids.
  \<^item> \<open>weak\<close> says that a thread may perform its accesses out of order, which is what the atomic operations of the first and third program
    exclude, and what a processor may do with the plain ones. A spin loop is one access that waits.
  \<^item> \<open>outcomes\<close> computes what can come out of a round, by following every choice.
\<close>

subsection \<open>Programs\<close>

datatype instr = Store nat nat | Load nat | Await nat

text \<open>The variables are 0 and 1: \<open>value\<close> and \<open>ready\<close>, or \<open>x\<close> and \<open>y\<close>.\<close>

definition producer :: "nat \<Rightarrow> instr list" where "producer v = [Store 0 v, Store 1 1]"
definition consumer :: "instr list" where "consumer = [Await 1, Load 0]"
definition f1 :: "instr list" where "f1 = [Store 0 1, Load 1]"
definition f2 :: "instr list" where "f2 = [Store 1 1, Load 0]"

datatype litmus = Atomic1 | Test1 | Atomic2 | Test2

fun threads_of :: "litmus \<Rightarrow> instr list list" where
  "threads_of Atomic1 = [consumer, producer 99]"
| "threads_of Test1 = [consumer, producer 153]"
| "threads_of _ = [f1, f2]"

fun weak :: "litmus \<Rightarrow> bool" where
  "weak Atomic1 = False" | "weak Test1 = True" | "weak Atomic2 = False" | "weak Test2 = True"

text \<open>What the threads loaded is out of order.\<close>

fun out_of_order :: "litmus \<Rightarrow> nat list list \<Rightarrow> bool" where
  "out_of_order Atomic1 regs = (regs ! 0 = [0])"
| "out_of_order Test1 regs = (regs ! 0 = [0])"
| "out_of_order _ regs = (regs ! 0 = [0] \<and> regs ! 1 = [0])"

subsection \<open>A round\<close>

record one_round =
  vars :: "nat list"
  todo :: "instr list list"
  regs :: "nat list list"

definition start_round :: "litmus \<Rightarrow> one_round" where
  "start_round e = \<lparr>vars = [0, 0], todo = threads_of e, regs = [[], []]\<rparr>"

text \<open>Thread \<open>i\<close> performs the \<open>k\<close>-th access that it has left.\<close>

definition perform_at :: "nat \<Rightarrow> nat \<Rightarrow> one_round \<Rightarrow> one_round option" where
  "perform_at i k s =
     (let s' = s\<lparr>todo := (todo s)[i := take k (todo s ! i) @ drop (Suc k) (todo s ! i)]\<rparr>
      in case todo s ! i ! k of
          Store l v \<Rightarrow> Some (s'\<lparr>vars := (vars s)[l := v]\<rparr>)
        | Load l \<Rightarrow> Some (s'\<lparr>regs := (regs s)[i := regs s ! i @ [vars s ! l]]\<rparr>)
        | Await l \<Rightarrow> if vars s ! l \<noteq> 0 then Some s' else None)"

definition choices :: "bool \<Rightarrow> one_round \<Rightarrow> (nat \<times> nat) list" where
  "choices w s = concat (map (\<lambda>i. map (\<lambda>k. (i, k)) [0..<(if w then length (todo s ! i) else min 1 (length (todo s ! i)))]) [0..<length (todo s)])"

definition next_rounds :: "bool \<Rightarrow> one_round \<Rightarrow> one_round list" where
  "next_rounds w s = concat (map (\<lambda>(i, k). case perform_at i k s of None \<Rightarrow> [] | Some t \<Rightarrow> [t]) (choices w s))"

definition accesses_left :: "one_round \<Rightarrow> nat" where
  "accesses_left s = sum_list (map length (todo s))"

lemma perform_left:
  assumes "(i, k) \<in> set (choices w s)" "perform_at i k s = Some t"
  shows "accesses_left t + 1 = accesses_left s"
proof -
  have i: "i < length (todo s)" "k < length (todo s ! i)" using assms(1) by (auto simp: choices_def split: if_splits)
  have t: "todo t = (todo s)[i := take k (todo s ! i) @ drop (Suc k) (todo s ! i)]"
    using assms(2) by (auto simp: perform_at_def Let_def split: instr.splits if_splits)
  have le: "length (todo s ! i) \<le> sum_list (map length (todo s))" using i by (intro member_le_sum_list) auto
  have "sum_list ((map length (todo s))[i := length (todo s ! i) - 1]) + 1 = sum_list (map length (todo s))"
    using i le by (subst sum_list_update) auto
  then show ?thesis using i by (simp add: accesses_left_def t map_update)
qed

lemma next_left: "t \<in> set (next_rounds w s) \<Longrightarrow> accesses_left t + 1 = accesses_left s"
  using perform_left [of _ _ w s t] by (fastforce simp: next_rounds_def split: option.splits)

text \<open>The results of all ways to finish a round, and \<open>None\<close> for a way that gets stuck.\<close>

function outcomes :: "bool \<Rightarrow> one_round \<Rightarrow> nat list list option list" where
  "outcomes w s =
     (if accesses_left s = 0 then [Some (regs s)]
      else if next_rounds w s = [] then [None] else concat (map (outcomes w) (next_rounds w s)))"
  by auto
termination by (relation "measure (\<lambda>(w, s). accesses_left s)") (auto dest: next_left)

declare outcomes.simps [simp del]

subsection \<open>main\<close>

record rounds =
  current :: one_round
  test_count :: nat
  oo_count :: nat

definition rounds_init :: "litmus \<Rightarrow> rounds \<Rightarrow> bool" where
  "rounds_init e m \<longleftrightarrow> m = \<lparr>current = start_round e, test_count = 0, oo_count = 0\<rparr>"

text \<open>The joins, the check and the beginning of the next round are one step: no thread runs then.\<close>

inductive rounds_step :: "litmus \<Rightarrow> rounds \<Rightarrow> rounds \<Rightarrow> bool" for e where
  access: "t \<in> set (next_rounds (weak e) (current m)) \<Longrightarrow> rounds_step e m (m\<lparr>current := t\<rparr>)"
| joined: "accesses_left (current m) = 0 \<Longrightarrow>
    rounds_step e m (m\<lparr>current := start_round e, test_count := test_count m + 1,
      oo_count := (if out_of_order e (regs (current m)) then oo_count m + 1 else oo_count m)\<rparr>)"

subsection \<open>Invariant\<close>

lemma outcomes_next: "t \<in> set (next_rounds w s) \<Longrightarrow> set (outcomes w t) \<subseteq> set (outcomes w s)"
  using next_left [of t w s] by (subst (2) outcomes.simps) auto

text \<open>The outcomes of a fresh round, computed.\<close>

lemma fresh_outcomes:
  "None \<notin> set (outcomes (weak e) (start_round e))"
  "\<not> weak e \<Longrightarrow> Some r \<in> set (outcomes (weak e) (start_round e)) \<Longrightarrow> \<not> out_of_order e r"
  "weak e \<Longrightarrow> \<exists>r. Some r \<in> set (outcomes (weak e) (start_round e)) \<and> out_of_order e r"
proof -
  show "None \<notin> set (outcomes (weak e) (start_round e))"
    by (cases e; hypsubst; code_simp)
  have "list_all (\<lambda>x. case x of None \<Rightarrow> True | Some r \<Rightarrow> \<not> out_of_order e r) (outcomes (weak e) (start_round e))" if "\<not> weak e"
  proof -
    have "\<not> weak e \<longrightarrow> list_all (\<lambda>x. case x of None \<Rightarrow> True | Some r \<Rightarrow> \<not> out_of_order e r) (outcomes (weak e) (start_round e))"
      by (cases e; hypsubst; code_simp)
    then show ?thesis using that by blast
  qed
  then show "\<not> out_of_order e r" if "\<not> weak e" "Some r \<in> set (outcomes (weak e) (start_round e))"
    using that by (auto simp: list_all_iff)
  have "list_ex (\<lambda>x. case x of None \<Rightarrow> False | Some r \<Rightarrow> out_of_order e r) (outcomes (weak e) (start_round e))" if "weak e"
  proof -
    have "weak e \<longrightarrow> list_ex (\<lambda>x. case x of None \<Rightarrow> False | Some r \<Rightarrow> out_of_order e r) (outcomes (weak e) (start_round e))"
      by (cases e; hypsubst; code_simp)
    then show ?thesis using that by blast
  qed
  then show "\<exists>r. Some r \<in> set (outcomes (weak e) (start_round e)) \<and> out_of_order e r" if "weak e"
    using that by (auto simp: list_ex_iff split: option.splits)
qed

definition rounds_inv :: "litmus \<Rightarrow> rounds \<Rightarrow> bool" where
  "rounds_inv e m \<longleftrightarrow> set (outcomes (weak e) (current m)) \<subseteq> set (outcomes (weak e) (start_round e)) \<and> (\<not> weak e \<longrightarrow> oo_count m = 0) \<and>
     oo_count m \<le> test_count m"

lemma rounds_step_inv: "rounds_inv e m \<Longrightarrow> rounds_step e m n \<Longrightarrow> rounds_inv e n"
proof -
  assume i: "rounds_inv e m" and st: "rounds_step e m n"
  from st show ?thesis
  proof cases
    case (access t)
    then show ?thesis using i outcomes_next [OF access(2)] by (auto simp: rounds_inv_def)
  next
    case joined
    have "Some (regs (current m)) \<in> set (outcomes (weak e) (start_round e))"
      using i joined(2) by (simp add: rounds_inv_def outcomes.simps [of "weak e" "current m"])
    then have "\<not> weak e \<longrightarrow> \<not> out_of_order e (regs (current m))" using fresh_outcomes(2) by blast
    then show ?thesis using i by (auto simp: rounds_inv_def joined(1))
  qed
qed

lemma fresh_left: "accesses_left (start_round e) = 4"
  by (cases e) (simp_all add: accesses_left_def start_round_def consumer_def producer_def f1_def f2_def)

interpretation rounds: invariant_system "rounds_init e" "rounds_step e" "rounds_inv e" for e
  by unfold_locales (simp add: rounds_init_def rounds_inv_def, rule rounds_step_inv)

lemma rounds_run: "rounds_init e m \<Longrightarrow> (rounds_step e ^^ n) m t \<Longrightarrow> n + accesses_left (current t) = 5 * test_count t + 4"
proof (induction n arbitrary: t)
  case 0
  then have "t = \<lparr>current = start_round e, test_count = 0, oo_count = 0\<rparr>" by (simp add: rounds_init_def)
  then show ?case by (simp add: fresh_left)
next
  case (Suc n)
  then obtain u where u: "(rounds_step e ^^ n) m u" "rounds_step e u t" by auto
  have "n + accesses_left (current u) = 5 * test_count u + 4" using Suc.IH Suc.prems(1) u(1) by blast
  with u(2) show ?case by cases (auto simp: fresh_left dest: next_left)
qed

text \<open>Every outcome of a round is reached.\<close>

lemma outcome_reached:
  "Some r \<in> set (outcomes (weak e) (current m)) \<Longrightarrow>
   \<exists>s. (rounds_step e ^^ accesses_left (current m)) m (m\<lparr>current := s\<rparr>) \<and> accesses_left s = 0 \<and> regs s = r"
proof (induction "accesses_left (current m)" arbitrary: m)
  case 0
  then have "regs (current m) = r" by (simp add: outcomes.simps)
  then show ?case using 0 by (intro exI [of _ "current m"]) simp
next
  case (Suc k)
  then obtain t where t: "t \<in> set (next_rounds (weak e) (current m))" "Some r \<in> set (outcomes (weak e) t)"
    by (subst (asm) outcomes.simps) (auto split: if_splits)
  have k: "accesses_left t = k" using next_left [OF t(1)] Suc.hyps(2) by simp
  then obtain s where s: "(rounds_step e ^^ k) (m\<lparr>current := t\<rparr>) (m\<lparr>current := s\<rparr>)" "accesses_left s = 0" "regs s = r"
    using Suc.hyps(1) [of "m\<lparr>current := t\<rparr>"] t(2) by auto
  have "(rounds_step e ^^ Suc k) m (m\<lparr>current := s\<rparr>)"
    using rounds_step.access [OF t(1)] s(1) by (rule relpowp_Suc_I2)
  then show ?case using s Suc.hyps(2) by auto
qed

subsection \<open>Properties\<close>



end
