(* ===== verification/FalseSharing.thy ===== *)
theory FalseSharing
  imports Prelude
begin

text \<open>
  Two readers and two writers on neighbouring cache lines (\<open>src/cpp/false-sharing.cc\<close>).

  \<^item> Threads 0 and 1 are the readers \<open>r0\<close>, \<open>r1\<close>, threads 2 and 3 the writers \<open>w0\<close>, \<open>w1\<close>. \<open>wr0\<close> is \<open>g_data[0].wr0\<close> and \<open>wr1\<close> is
    \<open>g_data[1].wr1\<close>, the two counters both writers get; nobody touches the other two.
  \<^item> One step is an access to a shared variable, or what a thread does with a mutex locked, in which no other thread can
    see a difference. A \<open>wait\<close> with a condition is passed in a state in which the condition holds.
  \<^item> A \<open>long\<close> that overflows in \<open>fetch_add\<close> wraps; the counters are unbounded here, which is the same
    as long as \<open>loops\<close> is an \<open>int\<close>, as \<open>atoi\<close> makes it.
\<close>

datatype sharer_at = F_Start | F_Wait | F_Run nat bool \<comment> \<open>round, in its second half\<close> | F_Done

datatype fs_main_at = G_Started | G_Run | G_Join | G_Exit

record sharing =
  wr0 :: nat
  wr1 :: nat
  g_thread_count :: nat
  g_thread_run :: bool
  sharer :: "nat \<Rightarrow> sharer_at"
  fs_main :: fs_main_at

definition sharing_init :: sharing where
  "sharing_init = \<lparr>wr0 = 0, wr1 = 0, g_thread_count = 0, g_thread_run = False, sharer = (\<lambda>_. F_Start), fs_main = G_Started\<rparr>"

definition goes :: "nat \<Rightarrow> sharer_at \<Rightarrow> sharing \<Rightarrow> sharing" where
  "goes i p s = s\<lparr>sharer := (sharer s)(i := p)\<rparr>"

text \<open>What both functions do before their loop.\<close>

definition fs_begin :: "nat \<Rightarrow> sharer_at \<Rightarrow> sharing \<Rightarrow> sharing option" where
  "fs_begin i first s =
     (case sharer s i of
        F_Start \<Rightarrow> Some (goes i F_Wait (s\<lparr>g_thread_count := g_thread_count s + 1\<rparr>))
      | F_Wait \<Rightarrow> if g_thread_run s then Some (goes i first s) else None
      | _ \<Rightarrow> None)"

text \<open>The loop of a reader: its rounds are not counted.\<close>

definition fs_reader :: "nat \<Rightarrow> sharing \<Rightarrow> sharing option" where
  "fs_reader i s =
     (case sharer s i of
        F_Run k half \<Rightarrow> Some (goes i (F_Run 0 (\<not> half)) s)
      | _ \<Rightarrow> fs_begin i (F_Run 0 False) s)"

definition fs_writer :: "int \<Rightarrow> nat \<Rightarrow> sharing \<Rightarrow> sharing option" where
  "fs_writer loops i s =
     (case sharer s i of
        F_Run k False \<Rightarrow> if int k < loops then Some (goes i (F_Run k True) (s\<lparr>wr0 := wr0 s + 1\<rparr>)) else Some (goes i F_Done s)
      | F_Run k True \<Rightarrow> Some (goes i (F_Run (k + 1) False) (s\<lparr>wr1 := wr1 s + 1\<rparr>))
      | _ \<Rightarrow> fs_begin i (F_Run 0 False) s)"

text \<open>\<open>main\<close> waits for the four threads, lets them run, joins \<open>w0\<close> and exits, which ends all threads.\<close>

definition main_sharing :: "sharing \<Rightarrow> sharing option" where
  "main_sharing s =
     (case fs_main s of
        G_Started \<Rightarrow> if g_thread_count s = 4 then Some (s\<lparr>fs_main := G_Run\<rparr>) else None
      | G_Run \<Rightarrow> Some (s\<lparr>g_thread_run := True, fs_main := G_Join\<rparr>)
      | G_Join \<Rightarrow> if sharer s 2 = F_Done then Some (s\<lparr>fs_main := G_Exit\<rparr>) else None
      | G_Exit \<Rightarrow> None)"

definition fs_loops :: "string list \<Rightarrow> int option" where
  "fs_loops argv = (if length argv > 1 then atoi (argv ! 1) else Some 12345678)"

inductive sharing_step :: "int \<Rightarrow> sharing \<Rightarrow> sharing \<Rightarrow> bool" for loops where
  fs_main_step: "main_sharing s = Some t \<Longrightarrow> sharing_step loops s t"
| fs_reader_step: "fs_main s \<noteq> G_Exit \<Longrightarrow> i < 2 \<Longrightarrow> fs_reader i s = Some t \<Longrightarrow> sharing_step loops s t"
| fs_writer_step: "fs_main s \<noteq> G_Exit \<Longrightarrow> i = 2 \<or> i = 3 \<Longrightarrow> fs_writer loops i s = Some t \<Longrightarrow> sharing_step loops s t"

subsection \<open>Invariant\<close>

text \<open>How often a thread has added to each counter.\<close>

fun added0 :: "nat \<Rightarrow> sharer_at \<Rightarrow> nat" where
  "added0 L (F_Run k half) = (if half then k + 1 else k)" | "added0 L F_Done = L" | "added0 L _ = 0"

fun added1 :: "nat \<Rightarrow> sharer_at \<Rightarrow> nat" where
  "added1 L (F_Run k half) = k" | "added1 L F_Done = L" | "added1 L _ = 0"

fun begun_at :: "sharer_at \<Rightarrow> nat" where
  "begun_at F_Start = 0" | "begun_at _ = 1"

fun runs_at :: "sharer_at \<Rightarrow> bool" where
  "runs_at (F_Run k half) = True" | "runs_at F_Done = True" | "runs_at _ = False"

text \<open>The rounds of a writer stay below the bound; a reader stays in its loop.\<close>

fun round_ok :: "nat \<Rightarrow> bool \<Rightarrow> sharer_at \<Rightarrow> bool" where
  "round_ok L w (F_Run k half) = (if w then k \<le> L \<and> (half \<longrightarrow> k < L) else k = 0)"
| "round_ok L w F_Done = w" | "round_ok L w _ = True"

definition sharing_inv :: "nat \<Rightarrow> sharing \<Rightarrow> bool" where
  "sharing_inv L s \<longleftrightarrow>
     wr0 s = added0 L (sharer s 2) + added0 L (sharer s 3) \<and>
     wr1 s = added1 L (sharer s 2) + added1 L (sharer s 3) \<and>
     g_thread_count s = begun_at (sharer s 0) + begun_at (sharer s 1) + begun_at (sharer s 2) + begun_at (sharer s 3) \<and>
     (g_thread_run s \<longleftrightarrow> fs_main s \<in> {G_Join, G_Exit}) \<and>
     (\<forall>i<4. (runs_at (sharer s i) \<longrightarrow> fs_main s \<in> {G_Join, G_Exit}) \<and> round_ok L (2 \<le> i) (sharer s i)) \<and>
     (fs_main s \<noteq> G_Started \<longrightarrow> (\<forall>i<4. begun_at (sharer s i) = 1)) \<and>
     (fs_main s = G_Exit \<longrightarrow> sharer s 2 = F_Done)"

lemma four: "(\<forall>i<4. P i) \<longleftrightarrow> P 0 \<and> P 1 \<and> P 2 \<and> P (3 :: nat)"
  by (simp add: numeral_eq_Suc less_Suc_eq) blast

lemma begun_at_le: "begun_at p \<le> 1"
  by (cases p) simp_all

lemma all_begun: "begun_at a + begun_at b + begun_at c + begun_at d = 4 \<longleftrightarrow> begun_at a = 1 \<and> begun_at b = 1 \<and> begun_at c = 1 \<and> begun_at d = 1"
  using begun_at_le [of a] begun_at_le [of b] begun_at_le [of c] begun_at_le [of d] by linarith

lemma sharing_init_inv: "sharing_inv L sharing_init"
  by (simp add: sharing_inv_def sharing_init_def four)

lemma fs_begin_cases:
  assumes "fs_begin i first s = Some t"
  obtains "sharer s i = F_Start" "t = s\<lparr>g_thread_count := g_thread_count s + 1, sharer := (sharer s)(i := F_Wait)\<rparr>"
  | "sharer s i = F_Wait" "g_thread_run s" "t = s\<lparr>sharer := (sharer s)(i := first)\<rparr>"
  using assms by (cases "sharer s i") (simp_all add: fs_begin_def goes_def split: if_splits)

lemma fs_begin_inv:
  assumes "sharing_inv L s" "i < 4" "fs_begin i (F_Run 0 False) s = Some t" "fs_main s \<noteq> G_Exit"
  shows "sharing_inv L t"
  using assms(3)
proof (cases rule: fs_begin_cases)
  case 1
  consider "i = 0" | "i = 1" | "i = 2" | "i = 3" using assms(2) by linarith
  then show ?thesis using assms(1,4) 1(1) unfolding 1(2) by cases (cases "fs_main s"; simp add: sharing_inv_def four)+
next
  case 2
  consider "i = 0" | "i = 1" | "i = 2" | "i = 3" using assms(2) by linarith
  then show ?thesis using assms(1,4) 2(1,2) unfolding 2(3) by cases (cases "fs_main s"; simp add: sharing_inv_def four)+
qed

lemma fs_reader_inv:
  assumes "sharing_inv L s" "i < 2" "fs_reader i s = Some t" "fs_main s \<noteq> G_Exit"
  shows "sharing_inv L t"
proof (cases "sharer s i")
  case (F_Run k half)
  then have t: "t = s\<lparr>sharer := (sharer s)(i := F_Run 0 (\<not> half))\<rparr>" using assms(3) by (simp add: fs_reader_def goes_def)
  consider "i = 0" | "i = 1" using assms(2) by linarith
  then show ?thesis using assms(1) F_Run unfolding t by cases (cases "fs_main s"; simp add: sharing_inv_def four)+
qed (use assms fs_begin_inv [OF assms(1) _ _ assms(4), of i t] in \<open>simp_all add: fs_reader_def\<close>)

lemma writer_updates:
  assumes "sharing_inv L s" "i = 2 \<or> i = 3" "fs_main s \<noteq> G_Exit"
  shows "sharer s i = F_Run k True \<Longrightarrow> sharing_inv L (s\<lparr>wr1 := wr1 s + 1, sharer := (sharer s)(i := F_Run (k + 1) False)\<rparr>)"
    "sharer s i = F_Run k False \<Longrightarrow> k < L \<Longrightarrow> sharing_inv L (s\<lparr>wr0 := wr0 s + 1, sharer := (sharer s)(i := F_Run k True)\<rparr>)"
    "sharer s i = F_Run L False \<Longrightarrow> sharing_inv L (s\<lparr>sharer := (sharer s)(i := F_Done)\<rparr>)"
proof -
  consider "i = 2" | "i = 3" using assms(2) by blast
  note i = this
  show "sharing_inv L (s\<lparr>wr1 := wr1 s + 1, sharer := (sharer s)(i := F_Run (k + 1) False)\<rparr>)" if "sharer s i = F_Run k True"
    using i that assms(1,3) by cases (simp_all add: sharing_inv_def four)
  show "sharing_inv L (s\<lparr>wr0 := wr0 s + 1, sharer := (sharer s)(i := F_Run k True)\<rparr>)" if "sharer s i = F_Run k False" "k < L"
    using i that assms(1,3) by cases (simp_all add: sharing_inv_def four)
  show "sharing_inv L (s\<lparr>sharer := (sharer s)(i := F_Done)\<rparr>)" if "sharer s i = F_Run L False"
    using i that assms(1,3) by cases (simp_all add: sharing_inv_def four)
qed

lemma fs_writer_inv:
  assumes "sharing_inv (nat loops) s" "i = 2 \<or> i = 3" "fs_writer loops i s = Some t" "fs_main s \<noteq> G_Exit"
  shows "sharing_inv (nat loops) t"
proof (cases "sharer s i")
  case (F_Run k half)
  note u = writer_updates [OF assms(1,2,4)]
  have "i < 4" "2 \<le> i" using assms(2) by linarith+
  then have k: "k \<le> nat loops" using assms(1) F_Run unfolding sharing_inv_def by force
  consider "half" | "\<not> half" "int k < loops" | "\<not> half" "\<not> int k < loops" by blast
  then show ?thesis
  proof cases
    case 1
    then have "t = s\<lparr>wr1 := wr1 s + 1, sharer := (sharer s)(i := F_Run (k + 1) False)\<rparr>"
      using assms(3) F_Run by (simp add: fs_writer_def goes_def)
    then show ?thesis using u(1) [of k] F_Run 1 by simp
  next
    case 2
    then have "t = s\<lparr>wr0 := wr0 s + 1, sharer := (sharer s)(i := F_Run k True)\<rparr>"
      using assms(3) F_Run by (simp add: fs_writer_def goes_def)
    then show ?thesis using u(2) [of k] F_Run 2 by simp
  next
    case 3
    then have "t = s\<lparr>sharer := (sharer s)(i := F_Done)\<rparr>" "k = nat loops"
      using assms(3) F_Run k by (simp_all add: fs_writer_def goes_def)
    then show ?thesis using u(3) F_Run 3 by simp
  qed
next
  case F_Start
  then show ?thesis using assms(3) fs_begin_inv [OF assms(1) _ _ assms(4), of i t] assms(2) by (simp add: fs_writer_def) linarith
next
  case F_Wait
  then show ?thesis using assms(3) fs_begin_inv [OF assms(1) _ _ assms(4), of i t] assms(2) by (simp add: fs_writer_def) linarith
next
  case F_Done
  then show ?thesis using assms(3) by (simp add: fs_writer_def fs_begin_def)
qed

lemma fs_main_inv:
  assumes "sharing_inv L s" "main_sharing s = Some t"
  shows "sharing_inv L t"
proof (cases "fs_main s")
  case G_Started
  then have "g_thread_count s = 4" "t = s\<lparr>fs_main := G_Run\<rparr>" using assms(2) by (simp_all add: main_sharing_def split: if_splits)
  then show ?thesis using assms(1) G_Started by (simp add: sharing_inv_def four all_begun)
next
  case G_Run
  then have "t = s\<lparr>g_thread_run := True, fs_main := G_Join\<rparr>" using assms(2) by (simp add: main_sharing_def)
  then show ?thesis using assms(1) G_Run by (simp add: sharing_inv_def)
next
  case G_Join
  then have "sharer s 2 = F_Done" "t = s\<lparr>fs_main := G_Exit\<rparr>" using assms(2) by (simp_all add: main_sharing_def split: if_splits)
  then show ?thesis using assms(1) G_Join by (simp add: sharing_inv_def)
qed (use assms(2) in \<open>simp add: main_sharing_def\<close>)

interpretation sharing: invariant_system "\<lambda>s. s = sharing_init" "sharing_step loops" "sharing_inv (nat loops)" for loops
proof
  show "sharing_inv (nat loops) t" if "sharing_inv (nat loops) s" "sharing_step loops s t" for s t
    using that(2,1) by cases (use fs_main_inv fs_reader_inv fs_writer_inv in blast)+
qed (simp add: sharing_init_inv)


lemma sharing_enabled:
  assumes "sharing_inv L s" "fs_main s \<noteq> G_Exit"
  shows "main_sharing s \<noteq> None \<or> (\<exists>i \<in> {2, 3}. fs_writer loops i s \<noteq> None) \<or> (\<exists>i<2. fs_reader i s \<noteq> None \<and> \<not> runs_at (sharer s i))"
proof (cases "fs_main s")
  case G_Started
  show ?thesis
  proof (cases "g_thread_count s = 4")
    case False
    have "\<exists>i<4. sharer s i = F_Start"
    proof (rule ccontr)
      assume "\<not> (\<exists>i<4. sharer s i = F_Start)"
      then have "begun_at (sharer s i) = 1" if "i < 4" for i using that by (cases "sharer s i") auto
      then show False using False assms(1) by (simp add: sharing_inv_def)
    qed
    then obtain i where i: "i < 4" "sharer s i = F_Start" by blast
    then have "fs_reader i s \<noteq> None" "fs_writer loops i s \<noteq> None" "\<not> runs_at (sharer s i)"
      by (simp_all add: fs_reader_def fs_writer_def fs_begin_def)
    moreover have "i < 2 \<or> i \<in> {2, 3}" using i(1) by auto
    ultimately show ?thesis by blast
  qed (simp add: main_sharing_def G_Started)
next
  case G_Join
  then have "g_thread_run s" "begun_at (sharer s 2) = 1" using assms(1) by (simp_all add: sharing_inv_def)
  then have g: "g_thread_run s" "sharer s 2 \<noteq> F_Start" by auto
  show ?thesis
    using g G_Join by (cases "sharer s 2") (auto simp: main_sharing_def fs_writer_def fs_begin_def split: bool.split)
qed (use assms(2) in \<open>simp_all add: main_sharing_def\<close>)

subsection \<open>Properties\<close>

text \<open>A schedule names the thread of each step, 4 for \<open>main\<close>.\<close>

primrec sharing_play :: "int \<Rightarrow> nat list \<Rightarrow> sharing \<Rightarrow> sharing option" where
  "sharing_play loops [] s = Some s"
| "sharing_play loops (i # is) s =
     (if fs_main s = G_Exit then None
      else (case (if i = 4 then main_sharing s else if i < 2 then fs_reader i s else if i < 4 then fs_writer loops i s else None) of
        None \<Rightarrow> None | Some t \<Rightarrow> sharing_play loops is t))"

lemma sharing_play_reachable:
  "reachable init (sharing_step loops) s \<Longrightarrow> sharing_play loops is s = Some t \<Longrightarrow> reachable init (sharing_step loops) t"
proof (induction "is" arbitrary: s)
  case (Cons i "is")
  obtain u where u: "(if i = 4 then main_sharing s else if i < 2 then fs_reader i s else if i < 4 then fs_writer loops i s else None) = Some u"
    "sharing_play loops is u = Some t" "fs_main s \<noteq> G_Exit"
    using Cons.prems(2) by (auto split: option.splits if_splits)
  then have "i = 4 \<and> main_sharing s = Some u \<or> i < 2 \<and> fs_reader i s = Some u \<or> (i = 2 \<or> i = 3) \<and> fs_writer loops i s = Some u"
    by (auto split: if_splits)
  then have "sharing_step loops s u" using u(3) sharing_step.intros by metis
  then show ?case using Cons.IH [OF reach_step [OF Cons.prems(1)] u(2)] by blast
qed simp

text \<open>Remark: The writers lose no increment and keep in step: the counters never differ by more than the two
  increments under way and never exceed two increments a round. When the program exits, each counter has at least the increments of one writer.
  Until then somebody besides the readers' loops can go on. \<open>main\<close> waits for the first writer: that the other one has finished does not let it exit.\<close>

theorem false_sharing_counts:
  assumes "reachable (\<lambda>s. s = sharing_init) (sharing_step loops) s"
  shows "wr1 s \<le> wr0 s \<and> wr0 s \<le> wr1 s + 2 \<and> wr0 s \<le> 2 * nat loops \<and>
    (fs_main s = G_Exit \<longrightarrow> nat loops \<le> wr1 s) \<and>
    (fs_main s \<noteq> G_Exit \<longrightarrow> main_sharing s \<noteq> None \<or> (\<exists>i \<in> {2, 3}. fs_writer loops i s \<noteq> None) \<or>
      (\<exists>i<2. fs_reader i s \<noteq> None \<and> \<not> runs_at (sharer s i))) \<and>
    (fs_main s = G_Join \<and> sharer s 2 \<noteq> F_Done \<longrightarrow> main_sharing s = None)"
proof -
  have i: "sharing_inv (nat loops) s" using sharing.reachable_inv [OF assms] .
  have a: "added1 L p \<le> added0 L p" "added0 L p \<le> added1 L p + 1" for L p by (cases p; simp)+
  have b: "added0 L p \<le> L" if "round_ok L True p" for L p using that by (cases p) auto
  have w: "wr0 s = added0 (nat loops) (sharer s 2) + added0 (nat loops) (sharer s 3)"
    "wr1 s = added1 (nat loops) (sharer s 2) + added1 (nat loops) (sharer s 3)"
    "round_ok (nat loops) True (sharer s 2)" "round_ok (nat loops) True (sharer s 3)" "fs_main s = G_Exit \<longrightarrow> sharer s 2 = F_Done"
    using i by (simp_all add: sharing_inv_def four)
  have "wr1 s \<le> wr0 s" "wr0 s \<le> wr1 s + 2" "wr0 s \<le> 2 * nat loops"
    using w(1,2) a [of "nat loops" "sharer s 2"] a [of "nat loops" "sharer s 3"] b [OF w(3)] b [OF w(4)] by linarith+
  moreover have "nat loops \<le> wr1 s" if "fs_main s = G_Exit" using w(2,5) that by simp
  moreover have "main_sharing s = None" if "fs_main s = G_Join" "sharer s 2 \<noteq> F_Done" using that by (simp add: main_sharing_def)
  ultimately show ?thesis using sharing_enabled [OF i, of loops] by blast
qed

theorem false_sharing_counts_witness:
  "\<exists>s. reachable (\<lambda>s. s = sharing_init) (sharing_step 1) s \<and> sharer s 3 = F_Done \<and> wr0 s = 1 \<and> wr0 s \<le> 2 \<and> fs_main s = G_Join \<and> main_sharing s = None"
proof -
  have p: "map_option (\<lambda>s. (sharer s 3, sharer s 2, wr0 s, fs_main s)) (sharing_play 1 [0, 1, 2, 3, 4, 4, 3, 3, 3, 3] sharing_init) =
    Some (F_Done, F_Wait, 1, G_Join)" by code_simp
  then obtain s where s: "sharing_play 1 [0, 1, 2, 3, 4, 4, 3, 3, 3, 3] sharing_init = Some s" "sharer s 3 = F_Done" "sharer s 2 = F_Wait"
    "wr0 s = 1" "fs_main s = G_Join" by auto
  have "reachable (\<lambda>s. s = sharing_init) (sharing_step 1) sharing_init" by (simp add: reach_init)
  then have r: "reachable (\<lambda>s. s = sharing_init) (sharing_step 1) s" using s(1) by (rule sharing_play_reachable)
  show ?thesis using false_sharing_counts [OF r] r s by (intro exI [of _ s]) simp
qed

end
