(* ===== verification/CasBench.thy ===== *)
theory CasBench
  imports Prelude
begin

text \<open>
  Two micro benchmarks of compare-and-exchange: the lock of MySQL with full and with half barriers
  (\<open>src/mysql/bench/bench-lock.cc\<close>, \<open>os0atomic.h\<close>), and a chain of exchanges (\<open>src/cas-lat.c\<close>).

  \<^item> Every program has one thread. Values are \<open>int\<close>s, copies of the buffers move whole lists.
  \<^item> The header of \<open>bench-lock.cc\<close> says which accesses a processor may reorder. For that a test is also a list of
    accesses with their memory orders, and \<open>may_swap\<close> says which neighbours may change places.
\<close>

subsection \<open>Compare and exchange\<close>

text \<open>The result, the variable and \<open>expected\<close> after \<open>compare_exchange_strong\<close>; the older built-in has no \<open>expected\<close>.\<close>

definition compare_exchange :: "int \<Rightarrow> int \<Rightarrow> int \<Rightarrow> bool \<times> int \<times> int" where
  "compare_exchange v expected desired = (if v = expected then (True, desired, expected) else (False, v, v))"

definition os_compare_and_swap :: "int \<Rightarrow> int \<Rightarrow> int \<Rightarrow> bool \<times> int" where
  "os_compare_and_swap v old_val new_val = (if v = old_val then (True, new_val) else (False, v))"

subsection \<open>The lock\<close>

definition lock_original :: "int \<Rightarrow> bool \<times> int" where
  "lock_original lock = os_compare_and_swap lock 0 1"

definition unlock_original :: "int \<Rightarrow> int" where
  "unlock_original lock = snd (os_compare_and_swap lock 1 0)"

definition lock_optimized :: "int \<Rightarrow> bool \<times> int" where
  "lock_optimized lock = (let (ok, lock, expected) = compare_exchange lock 0 1 in (ok, lock))"

definition unlock_optimized :: "int \<Rightarrow> int" where
  "unlock_optimized lock = (let (ok, lock, expected) = compare_exchange lock 1 0 in lock)"

text \<open>The four buffers and the lock; \<open>taken\<close> counts the calls of the lock function that returned true, which the
  benchmark does not look at.\<close>

record bench =
  buf1 :: string
  buf2 :: string
  buf3 :: string
  buf4 :: string
  lock_var :: int
  taken :: nat

definition loops :: nat where "loops = 40000000"

definition test_round :: "(int \<Rightarrow> bool \<times> int) \<Rightarrow> (int \<Rightarrow> int) \<Rightarrow> bench \<Rightarrow> bench" where
  "test_round lock unlock b =
     (let b = b\<lparr>buf1 := buf2 b\<rparr>;
          (ok, v) = lock (lock_var b);
          b = b\<lparr>lock_var := v, taken := taken b + (if ok then 1 else 0)\<rparr>;
          b = b\<lparr>buf3 := buf4 b\<rparr>
      in b\<lparr>lock_var := unlock (lock_var b)\<rparr>)"

definition test_lock_original :: "bench \<Rightarrow> bench" where
  "test_lock_original b = (test_round lock_original unlock_original ^^ loops) (b\<lparr>lock_var := 0\<rparr>)"

definition test_lock_optimized :: "bench \<Rightarrow> bench" where
  "test_lock_optimized b = (test_round lock_optimized unlock_optimized ^^ loops) (b\<lparr>lock_var := 0\<rparr>)"

text \<open>\<open>main\<close>: the warm-up and the two tests; the buffers are static.\<close>

definition main_bench_lock :: "bench \<Rightarrow> bench" where
  "main_bench_lock b = test_lock_optimized (test_lock_original (test_lock_original b))"

subsection \<open>What may be reordered\<close>

datatype order = Full | Acquire | Release

text \<open>The accesses of round \<open>i\<close>.\<close>

datatype access = Copy1 nat | Locks order nat | Copy2 nat | Unlocks order nat

definition round_trace :: "order \<Rightarrow> order \<Rightarrow> nat \<Rightarrow> access list" where
  "round_trace l u i = [Copy1 i, Locks l i, Copy2 i, Unlocks u i]"

definition trace :: "order \<Rightarrow> order \<Rightarrow> nat \<Rightarrow> access list" where
  "trace l u n = concat (map (round_trace l u) [0..<n])"

definition original_trace :: "nat \<Rightarrow> access list" where "original_trace = trace Full Full"

definition optimized_trace :: "nat \<Rightarrow> access list" where "optimized_trace = trace Acquire Release"

text \<open>Neighbours \<open>a\<close>, \<open>b\<close>, in this order, may change places: accesses of one variable never do, nothing passes a full barrier,
  nothing behind an acquire comes before it and nothing in front of a release comes after it.\<close>

fun order_of :: "access \<Rightarrow> order option" where
  "order_of (Locks l i) = Some l" | "order_of (Unlocks u i) = Some u" | "order_of _ = None"

fun variable_of :: "access \<Rightarrow> nat" where
  "variable_of (Copy1 i) = 0" | "variable_of (Copy2 i) = 1" | "variable_of _ = 2"

definition may_swap :: "access \<Rightarrow> access \<Rightarrow> bool" where
  "may_swap a b \<longleftrightarrow> variable_of a \<noteq> variable_of b \<and> order_of a \<notin> {Some Full, Some Acquire} \<and> order_of b \<notin> {Some Full, Some Release}"

inductive reorders :: "access list \<Rightarrow> access list \<Rightarrow> bool" where
  same: "reorders tr tr"
| swap: "reorders tr (xs @ a # b # ys) \<Longrightarrow> may_swap a b \<Longrightarrow> reorders tr (xs @ b # a # ys)"

fun before :: "'a \<Rightarrow> 'a \<Rightarrow> 'a list \<Rightarrow> bool" where
  "before a b [] = False"
| "before a b (x # xs) = (if x = a then b \<in> set xs else before a b xs)"

subsection \<open>The chain of exchanges\<close>

text \<open>The body of \<open>main\<close> is 50 times the same two calls; \<open>None\<close> as the message means that it is not printed.\<close>

definition exchange_pair :: "int \<times> int \<times> int \<Rightarrow> int \<times> int \<times> int" where
  "exchange_pair s =
     (let (i, one, two) = s;
          (_, i, one) = compare_exchange i one 2;
          (_, i, two) = compare_exchange i two 1
      in (i, one, two))"

definition main_cas_lat :: "string option" where
  "main_cas_lat =
     (let (i, one, two) = (exchange_pair ^^ 50) (1, 1, 2)
      in if one \<noteq> 1 \<or> two \<noteq> 2 then Some ''RESULT may be not valid!'' else None)"

subsection \<open>Both locks are the same\<close>

lemma locks_agree: "lock_optimized = lock_original" "unlock_optimized = unlock_original"
  by (simp_all add: fun_eq_iff lock_optimized_def lock_original_def unlock_optimized_def unlock_original_def
      compare_exchange_def os_compare_and_swap_def)

lemma lock_rounds_run:
  "(test_round lock_original unlock_original ^^ Suc n) (b\<lparr>lock_var := 0\<rparr>) =
   b\<lparr>buf1 := buf2 b, buf3 := buf4 b, lock_var := 0, taken := taken b + Suc n\<rparr>"
  by (induction n) (simp_all add: test_round_def lock_original_def unlock_original_def os_compare_and_swap_def)

lemma test_run: "test_lock_original b = b\<lparr>buf1 := buf2 b, buf3 := buf4 b, lock_var := 0, taken := taken b + loops\<rparr>"
  using lock_rounds_run [of "loops - 1" b] by (simp add: test_lock_original_def loops_def)

subsection \<open>Reorderings\<close>

lemma before_append: "before a b (xs @ ys) \<longleftrightarrow> before a b xs \<or> a \<in> set xs \<and> b \<in> set ys \<or> a \<notin> set xs \<and> before a b ys"
  by (induction xs) auto

lemma before_in: "before a b xs \<Longrightarrow> a \<in> set xs \<and> b \<in> set xs"
  by (induction xs) (auto split: if_splits)

lemma reorders_same: "reorders tr us \<Longrightarrow> set us = set tr \<and> (distinct us \<longleftrightarrow> distinct tr)"
  by (induction rule: reorders.induct) auto

lemma reorders_before:
  "reorders tr us \<Longrightarrow> distinct tr \<Longrightarrow> \<not> may_swap a b \<Longrightarrow> before a b tr \<Longrightarrow> before a b us"
proof (induction rule: reorders.induct)
  case (swap tr xs c d ys)
  then have b: "before a b (xs @ c # d # ys)" by blast
  have d: "distinct (xs @ c # d # ys)" using reorders_same [OF swap.hyps(1)] swap.prems(1) by simp
  have "\<not> (a = c \<and> b = d)" using swap.hyps(2) swap.prems(2) by blast
  then show ?case using b d before_in [of a b xs] before_in [of a b ys] by (auto simp: before_append split: if_splits)
qed

lemma reorders_none: "reorders tr us \<Longrightarrow> (\<And>xs a b ys. tr = xs @ a # b # ys \<Longrightarrow> \<not> may_swap a b) \<Longrightarrow> us = tr"
  by (induction rule: reorders.induct) auto

lemma trace_Suc: "trace l u (Suc n) = trace l u n @ round_trace l u n"
  by (simp add: trace_def)

lemma trace_0: "trace l u 0 = []"
  by (simp add: trace_def)

fun round_of :: "access \<Rightarrow> nat" where
  "round_of (Copy1 i) = i" | "round_of (Locks l i) = i" | "round_of (Copy2 i) = i" | "round_of (Unlocks u i) = i"

lemma trace_rounds: "a \<in> set (trace l u n) \<Longrightarrow> round_of a < n"
  by (induction n) (auto simp: trace_0 trace_Suc round_trace_def less_SucI)

lemma trace_distinct: "distinct (trace l u n)"
proof (induction n)
  case (Suc n)
  have "set (trace l u n) \<inter> set (round_trace l u n) = {}" using trace_rounds [of _ l u n] by (fastforce simp: round_trace_def)
  then show ?case using Suc by (simp add: trace_Suc) (simp add: round_trace_def)
qed (simp add: trace_0)

lemma trace_split: "i < n \<Longrightarrow> \<exists>ys. trace l u n = trace l u i @ round_trace l u i @ ys"
proof (induction n)
  case (Suc n)
  show ?case
  proof (cases "i = n")
    case False
    then obtain ys where "trace l u n = trace l u i @ round_trace l u i @ ys" using Suc by auto
    then show ?thesis by (simp add: trace_Suc)
  qed (simp add: trace_Suc)
qed simp

lemma original_guarded: "successively (\<lambda>a b. \<not> may_swap a b) (trace Full Full n) \<and> (n > 0 \<longrightarrow> last (trace Full Full n) = Unlocks Full (n - 1))"
  by (induction n) (auto simp: trace_0 trace_Suc round_trace_def successively_append_iff may_swap_def)

subsection \<open>Properties\<close>

text \<open>Remark: The chain of exchanges never prints that its result may be wrong.\<close>

theorem cas_lat_silent: "main_cas_lat = None"
proof -
  have "(exchange_pair ^^ n) (1, 1, 2) = (1, 1, 2)" for n
    by (induction n) (simp_all add: exchange_pair_def compare_exchange_def)
  then show ?thesis by (simp add: main_cas_lat_def)
qed

text \<open>Remark: Both locks do the same: a benchmark copies its buffers, gets the lock in every round and leaves it free. What the
  half barriers gain is what the header of the source says: with full barriers no access can move at all, with half barriers the first copy
  can move behind the lock, while the second stays between lock and unlock in every order that is possible.\<close>

theorem bench_lock_barriers:
  assumes "i < n" "reorders (optimized_trace n) vs" "reorders (original_trace n) us"
  shows "lock_optimized = lock_original \<and> unlock_optimized = unlock_original \<and>
    main_bench_lock b = b\<lparr>buf1 := buf2 b, buf3 := buf4 b, lock_var := 0, taken := taken b + 3 * loops\<rparr> \<and>
    us = original_trace n \<and>
    before (Locks Acquire i) (Copy2 i) vs \<and> before (Copy2 i) (Unlocks Release i) vs \<and>
    (\<exists>ws. reorders (optimized_trace n) ws \<and> before (Locks Acquire i) (Copy1 i) ws)"
proof -
  obtain ys where o: "optimized_trace n = trace Acquire Release i @ round_trace Acquire Release i @ ys"
    using trace_split [OF assms(1)] unfolding optimized_trace_def by blast
  have d: "distinct (optimized_trace n)" by (simp add: optimized_trace_def trace_distinct)
  have b: "before (Locks Acquire i) (Copy2 i) (optimized_trace n)" "before (Copy2 i) (Unlocks Release i) (optimized_trace n)"
    using trace_rounds [of _ Acquire Release i] unfolding o by (fastforce simp: before_append round_trace_def)+
  have "before (Locks Acquire i) (Copy2 i) vs" "before (Copy2 i) (Unlocks Release i) vs"
    using reorders_before [OF assms(2) d _ b(1)] reorders_before [OF assms(2) d _ b(2)] by (simp_all add: may_swap_def)
  moreover have "us = original_trace n"
    using reorders_none [OF assms(3)] original_guarded [of n] by (force simp: original_trace_def successively_append_iff)
  moreover
  let ?ws = "trace Acquire Release i @ Locks Acquire i # Copy1 i # Copy2 i # Unlocks Release i # ys"
  have "reorders (optimized_trace n) (trace Acquire Release i @ Copy1 i # Locks Acquire i # Copy2 i # Unlocks Release i # ys)"
    using reorders.same [of "optimized_trace n"] o by (simp add: round_trace_def)
  then have "reorders (optimized_trace n) ?ws" by (rule reorders.swap) (simp add: may_swap_def)
  moreover have "before (Locks Acquire i) (Copy1 i) ?ws"
    using trace_rounds [of "Locks Acquire i" Acquire Release i] by (auto simp: before_append)
  moreover have "test_lock_optimized = test_lock_original"
    by (simp add: fun_eq_iff test_lock_optimized_def test_lock_original_def locks_agree)
  then have "main_bench_lock b = b\<lparr>buf1 := buf2 b, buf3 := buf4 b, lock_var := 0, taken := taken b + 3 * loops\<rparr>"
    by (simp add: main_bench_lock_def test_run)
  ultimately show ?thesis using locks_agree by blast
qed

theorem bench_lock_barriers_witness:
  "before (Locks Acquire 0) (Copy2 0) [Locks Acquire 0, Copy1 0, Copy2 0, Unlocks Release 0]"
proof -
  have t: "optimized_trace 1 = [] @ Copy1 0 # Locks Acquire 0 # [Copy2 0, Unlocks Release 0]"
    by (simp add: optimized_trace_def trace_def round_trace_def)
  have "reorders (optimized_trace 1) ([] @ Locks Acquire 0 # Copy1 0 # [Copy2 0, Unlocks Release 0])"
    by (rule reorders.swap) (simp_all add: t [symmetric] reorders.same may_swap_def del: append_Nil)
  then show ?thesis using bench_lock_barriers [of 0 1, OF _ _ reorders.same] by simp
qed

end
