(* ===== verification/Verbs.thy ===== *)
theory Verbs
  imports Prelude "HOL-Library.Multiset"
begin

text \<open>
  What the three programs under \<open>src/rdma\<close> share: the calls they make to the verbs and connection
  manager libraries, and the C strings they put in their buffers.

  The libraries are not part of the repository. A handler is modelled as a function from its
  connection to the new connection and the list of calls it makes, in order; \<open>Exit\<close> stands for
  \<open>die\<close>. \<open>perform ok\<close> makes the calls: \<open>ok\<close> says which ones succeed, and is a parameter. A call
  that the source wraps in \<open>TEST_NZ\<close> or \<open>TEST_Z\<close> ends the process when it fails.
  Addresses and keys are named by the memory region they belong to (type \<open>'r\<close>).
\<close>

datatype peer = Client | Server

fun other :: "peer \<Rightarrow> peer" where
  "other Client = Server" | "other Server = Client"

lemma other_other [simp]: "other (other p) = p"
  by (cases p) simp_all

lemma other_neq [simp]: "other p \<noteq> p" "p \<noteq> other p"
  by (cases p; simp)+

lemma other_eq_iff [simp]: "other p = q \<longleftrightarrow> p = other q"
  by (cases p; cases q) simp_all

subsection \<open>Library interface\<close>

datatype cm_event = ADDR_RESOLVED | ROUTE_RESOLVED | CONNECT_REQUEST | ESTABLISHED | DISCONNECTED | OTHER_EVENT nat

datatype wc_opcode = WC_SEND | WC_RDMA_WRITE | WC_RDMA_READ | WC_RECV | WC_RECV_RDMA_WITH_IMM

text \<open>\<open>opcode & IBV_WC_RECV\<close>: the documented test for a receive completion.\<close>

fun is_recv :: "wc_opcode \<Rightarrow> bool" where
  "is_recv WC_RECV = True" | "is_recv WC_RECV_RDMA_WITH_IMM = True" | "is_recv _ = False"

record wc =
  wc_success :: bool
  wc_opcode :: wc_opcode
  wc_imm :: u32

datatype wr_opcode = WR_SEND | WR_RDMA_WRITE | WR_RDMA_READ | WR_RDMA_WRITE_WITH_IMM

record 'r mr =
  mr_addr :: 'r
  mr_rkey :: 'r
  mr_remote_write :: bool
  mr_remote_read :: bool

record 'r wr =
  wr_opcode :: wr_opcode
  wr_sge :: "('r \<times> nat) option" \<comment> \<open>the scatter element: region and length\<close>
  wr_imm_data :: u32
  wr_remote_addr :: "'r option"
  wr_rkey :: "'r option"

record qp_attr =
  max_send_wr :: nat
  max_recv_wr :: nat
  max_send_sge :: nat
  max_recv_sge :: nat

record conn_param =
  initiator_depth :: nat
  responder_resources :: nat
  rnr_retry_count :: nat

datatype 'r call =
    Alloc_context | Alloc_pd | Create_comp_channel | Create_cq nat | Req_notify_cq | Create_poller
  | Create_qp qp_attr | Alloc_conn | Alloc 'r nat | Reg_mr "'r" nat "'r mr"
  | Post_recv "('r \<times> nat) option" | Post_send "'r wr"
  | Getaddrinfo string string | Create_event_channel | Create_id | Resolve_addr nat | Bind_addr | Listen nat
  | Resolve_route | Connect conn_param | Accept conn_param | Disconnect
  | Open string | Write string nat
  | Destroy_qp | Dereg_mr 'r | Free 'r | Destroy_id | Close | Free_conn
  | Destroy_event_channel | Print string | Exit string

text \<open>The calls whose result is tested.\<close>

fun tested :: "'r call \<Rightarrow> bool" where
  "tested Alloc_pd = True" | "tested Create_comp_channel = True" | "tested (Create_cq _) = True"
| "tested Req_notify_cq = True" | "tested Create_poller = True" | "tested (Create_qp _) = True"
| "tested (Reg_mr _ _ _) = True" | "tested (Post_recv _) = True" | "tested (Post_send _) = True"
| "tested Resolve_route = True" | "tested (Connect _) = True" | "tested (Accept _) = True"
| "tested (Getaddrinfo _ _) = True" | "tested Create_event_channel = True" | "tested Create_id = True"
| "tested (Resolve_addr _) = True" | "tested Bind_addr = True" | "tested (Listen _) = True"
| "tested (Open _) = True" | "tested (Write _ _) = True" | "tested _ = False"

text \<open>The calls made until the end of the list or of the process, and whether the process goes on.\<close>

fun perform :: "('r call \<Rightarrow> bool) \<Rightarrow> 'r call list \<Rightarrow> 'r call list \<times> bool" where
  "perform ok [] = ([], True)"
| "perform ok (c # cs) =
     (case c of Exit _ \<Rightarrow> ([c], False)
      | _ \<Rightarrow> if tested c \<and> \<not> ok c then ([c], False) else (let (ds, b) = perform ok cs in (c # ds, b)))"

lemma perform_all_ok:
  "\<forall>c\<in>set cs. (tested c \<longrightarrow> ok c) \<and> (\<forall>r. c \<noteq> Exit r) \<Longrightarrow> perform ok cs = (cs, True)"
  by (induction cs) (auto split: call.splits)

lemma perform_prefix: "\<exists>r. cs = fst (perform ok cs) @ r \<and> (snd (perform ok cs) \<longrightarrow> r = [])"
  by (induction cs) (auto split: call.splits prod.splits)

subsection \<open>Parameters every program uses\<close>

definition build_qp_attr :: qp_attr where
  "build_qp_attr = \<lparr>max_send_wr = 10, max_recv_wr = 10, max_send_sge = 1, max_recv_sge = 1\<rparr>"

text \<open>\<open>build_context\<close> with the device of the static context, if there is one.\<close>

definition build_context :: "nat option \<Rightarrow> nat \<Rightarrow> nat option \<times> 'r call list" where
  "build_context s_ctx verbs =
     (case s_ctx of
       Some ctx \<Rightarrow>
         if ctx \<noteq> verbs then (s_ctx, [Exit ''cannot handle events in more than one context.'']) else (s_ctx, [])
     | None \<Rightarrow>
         (Some verbs, [Alloc_context, Alloc_pd, Create_comp_channel, Create_cq 10, Req_notify_cq, Create_poller]))"

lemma build_context_again:
  "build_context (fst (build_context None v)) w =
     (if v = w then (Some v, []) else (Some v, [Exit ''cannot handle events in more than one context.'']))"
  by (simp add: build_context_def)

text \<open>\<open>while (rdma_get_cm_event(ec, &event) == 0) ... if (on_event(&event_copy)) break;\<close> on the events
  the library reports until it fails.\<close>

fun event_loop :: "('e \<Rightarrow> 's \<Rightarrow> ('s \<times> 'r call list \<times> bool) option) \<Rightarrow> 'e list \<Rightarrow> 's \<Rightarrow> ('s \<times> 'r call list) option" where
  "event_loop h [] s = Some (s, [])"
| "event_loop h (e # es) s =
     do {
       (s, cs, stop) \<leftarrow> h e s;
       (if stop then Some (s, cs)
        else do { (s, ds) \<leftarrow> event_loop h es s; Some (s, cs @ ds) }) }"

text \<open>Resources of a connection that the calls acquire and give back.\<close>

datatype 'r resource = R_qp | R_conn | R_mem 'r | R_mr 'r

fun acquires :: "'r call \<Rightarrow> 'r resource list" where
  "acquires (Create_qp _) = [R_qp]" | "acquires Alloc_conn = [R_conn]" | "acquires (Alloc r _) = [R_mem r]"
| "acquires (Reg_mr r _ _) = [R_mr r]" | "acquires _ = []"

fun releases :: "'r call \<Rightarrow> 'r resource list" where
  "releases Destroy_qp = [R_qp]" | "releases Free_conn = [R_conn]" | "releases (Free r) = [R_mem r]"
| "releases (Dereg_mr r) = [R_mr r]" | "releases _ = []"

definition acquired :: "'r call list \<Rightarrow> 'r resource multiset" where
  "acquired cs = mset (concat (map acquires cs))"

definition released :: "'r call list \<Rightarrow> 'r resource multiset" where
  "released cs = mset (concat (map releases cs))"

lemma resource_append [simp]:
  "acquired [] = {#}" "released [] = {#}"
  "acquired (xs @ ys) = acquired xs + acquired ys" "released (xs @ ys) = released xs + released ys"
  "acquired (c # xs) = mset (acquires c) + acquired xs" "released (c # xs) = mset (releases c) + released xs"
  by (simp_all add: acquired_def released_def)

subsection \<open>C strings\<close>

text \<open>The string a region holds, as \<open>%s\<close> prints it, and \<open>sprintf\<close> into a region; a text that does
  not fit is undefined behaviour.\<close>

definition c_sprintf :: "string \<Rightarrow> string \<Rightarrow> string option" where
  "c_sprintf region s = (if length s < length region then Some (overwrite region 0 (s @ [NUL])) else None)"

fun decimal :: "nat \<Rightarrow> string" where
  "decimal n = (if n < 10 then [] else decimal (n div 10)) @ [char_of (48 + n mod 10)]"

declare decimal.simps [simp del]

lemma decimal_no_NUL: "NUL \<notin> set (decimal n)"
proof (induction n rule: decimal.induct)
  case (1 n)
  have "char_of (48 + n mod 10) \<noteq> NUL"
  proof
    assume "char_of (48 + n mod 10) = NUL"
    then have "of_char (char_of (48 + n mod 10) :: char) = (of_char NUL :: nat)" by simp
    then show False by (simp add: NUL_def of_char_of)
  qed
  then show ?case using 1 by (subst decimal.simps) auto
qed

lemma length_decimal: "n < 10 ^ Suc k \<Longrightarrow> length (decimal n) \<le> Suc k"
proof (induction k arbitrary: n)
  case 0
  then show ?case by (subst decimal.simps) simp
next
  case (Suc k)
  show ?case
  proof (cases "n < 10")
    case True
    then show ?thesis by (subst decimal.simps) simp
  next
    case False
    have "n div 10 < 10 ^ Suc k" using Suc.prems by (simp add: less_mult_imp_div_less ac_simps)
    then show ?thesis using Suc.IH [of "n div 10"] False by (subst decimal.simps) simp
  qed
qed

lemma c_string_sprintf:
  assumes "c_sprintf region s = Some r" "NUL \<notin> set s"
  shows "c_string r = s" "length r = length region"
proof -
  have r: "r = s @ NUL # drop (Suc (length s)) region" and l: "length s < length region"
    using assms(1) by (auto simp: c_sprintf_def overwrite_def split: if_splits)
  have "\<forall>x\<in>set s. x \<noteq> NUL" using assms(2) by auto
  then show "c_string r = s" by (simp add: r c_string_def takeWhile_append2)
  show "length r = length region" using l by (simp add: r)
qed

text \<open>The greetings of the two sides.\<close>

definition greeting :: "peer \<Rightarrow> nat \<Rightarrow> string" where
  "greeting p pid =
     (case p of Client \<Rightarrow> ''message from active/client side with pid ''
      | Server \<Rightarrow> ''message from passive/server side with pid '') @ decimal pid"

lemma greeting_fits: "pid < 2 ^ 31 \<Longrightarrow> length (greeting p pid) < 64"
  using length_decimal [of pid 9] by (cases p) (auto simp: greeting_def)

lemma greeting_no_NUL: "NUL \<notin> set (greeting p pid)"
  using decimal_no_NUL [of pid] by (cases p) (auto simp: greeting_def NUL_def)

end
