(* ===== verification/Link.thy ===== *)
theory Link
  imports Verbs
begin

text \<open>
  Two endpoints of a reliable connection, for all three programs under \<open>src/rdma\<close>. An endpoint has
  its connection, the requests it posted that the transport has not executed (\<open>sq\<close>), the number of
  receives it posted that are not used (\<open>rq\<close>), its completion queue (\<open>cq\<close>), and the completions that
  the transport still owes it (\<open>unacked\<close>).

  The programs give the handlers; what the adapter does with a request of a side, \<open>exec\<close>, is an
  argument of the transport's moves: it has the endpoint of the requester and of its peer before and
  after, and whether the request succeeds; \<open>None\<close> is a request that has to wait.
\<close>

record ('c, 'r) endpoint =
  conn :: 'c
  sq :: "'r wr list"
  rq :: nat
  cq :: "wc list"
  unacked :: "wc list"
  out :: "string list"
  gone :: bool \<comment> \<open>has called \<open>rdma_disconnect\<close>\<close>
  exited :: bool \<comment> \<open>has called \<open>die\<close>\<close>

text \<open>An endpoint that records whether its \<open>ESTABLISHED\<close> event has been handled.\<close>

record ('c, 'r) event_endpoint = "('c, 'r) endpoint" +
  established :: bool

definition sends :: "wc list \<Rightarrow> nat" where
  "sends ws = length (filter (\<lambda>w. \<not> is_recv (wc_opcode w)) ws)"

definition recvs :: "wc list \<Rightarrow> nat" where
  "recvs ws = length (filter (\<lambda>w. is_recv (wc_opcode w)) ws)"

lemma count_simps [simp]:
  "sends [] = 0" "recvs [] = 0" "sends (xs @ ys) = sends xs + sends ys" "recvs (xs @ ys) = recvs xs + recvs ys"
  "is_recv (wc_opcode w) \<Longrightarrow> sends (w # xs) = sends xs" "\<not> is_recv (wc_opcode w) \<Longrightarrow> sends (w # xs) = Suc (sends xs)"
  "is_recv (wc_opcode w) \<Longrightarrow> recvs (w # xs) = Suc (recvs xs)" "\<not> is_recv (wc_opcode w) \<Longrightarrow> recvs (w # xs) = recvs xs"
  by (simp_all add: sends_def recvs_def)

text \<open>What a call does to the endpoint; posting fails when the queue pair is full.\<close>

fun do_call :: "'r call \<Rightarrow> ('c, 'r, 'z) endpoint_scheme \<Rightarrow> ('c, 'r, 'z) endpoint_scheme" where
  "do_call (Post_send w) e =
     (if length (sq e) + sends (cq e @ unacked e) < max_send_wr build_qp_attr then e\<lparr>sq := sq e @ [w]\<rparr>
      else e\<lparr>exited := True\<rparr>)"
| "do_call (Post_recv _) e =
     (if rq e + recvs (cq e) < max_recv_wr build_qp_attr then e\<lparr>rq := rq e + 1\<rparr> else e\<lparr>exited := True\<rparr>)"
| "do_call Disconnect e = e\<lparr>gone := True\<rparr>"
| "do_call (Print x) e = e\<lparr>out := out e @ [x]\<rparr>"
| "do_call (Exit x) e = e\<lparr>out := out e @ [x], exited := True\<rparr>"
| "do_call _ e = e"

fun do_calls :: "'r call list \<Rightarrow> ('c, 'r, 'z) endpoint_scheme \<Rightarrow> ('c, 'r, 'z) endpoint_scheme" where
  "do_calls [] e = e"
| "do_calls (c # cs) e = (if exited e then e else do_calls cs (do_call c e))"

lemma conn_do_call [simp]: "conn (do_call c e) = conn e"
  by (cases c) simp_all

lemma conn_do_calls [simp]: "conn (do_calls cs e) = conn e"
  by (induction cs e rule: do_calls.induct) auto

lemma do_calls_inert: "\<not> exited e \<Longrightarrow> \<forall>c\<in>set cs. do_call c e = e \<Longrightarrow> do_calls (cs @ ds) e = do_calls ds e"
  by (induction cs) auto

subsection \<open>Transport\<close>

fun completion_of :: "wr_opcode \<Rightarrow> wc_opcode" where
  "completion_of WR_SEND = WC_SEND" | "completion_of WR_RDMA_READ = WC_RDMA_READ"
| "completion_of _ = WC_RDMA_WRITE"

text \<open>The oldest request of a side is executed and its completion queued; or the completion is owed,
  and queued by \<open>ack\<close>.\<close>

definition deliver_by ::
  "('r wr \<Rightarrow> ('c, 'r, 'z) endpoint_scheme \<Rightarrow> ('c, 'r, 'z) endpoint_scheme \<Rightarrow>
     (bool \<times> ('c, 'r, 'z) endpoint_scheme \<times> ('c, 'r, 'z) endpoint_scheme) option) \<Rightarrow>
   peer \<Rightarrow> (peer \<Rightarrow> ('c, 'r, 'z) endpoint_scheme) \<Rightarrow> (peer \<Rightarrow> ('c, 'r, 'z) endpoint_scheme) option" where
  "deliver_by exec q s =
     (case sq (s q) of [] \<Rightarrow> None
      | w # ws \<Rightarrow> do {
          (ok, a, b) \<leftarrow> exec w (s q) (s (other q));
          Some (s(q := a\<lparr>sq := ws, cq := cq a @ [\<lparr>wc_success = ok, wc_opcode = completion_of (wr_opcode w), wc_imm = 0\<rparr>]\<rparr>,
                  other q := b)) })"

definition deliver_late_by ::
  "('r wr \<Rightarrow> ('c, 'r, 'z) endpoint_scheme \<Rightarrow> ('c, 'r, 'z) endpoint_scheme \<Rightarrow>
     (bool \<times> ('c, 'r, 'z) endpoint_scheme \<times> ('c, 'r, 'z) endpoint_scheme) option) \<Rightarrow>
   peer \<Rightarrow> (peer \<Rightarrow> ('c, 'r, 'z) endpoint_scheme) \<Rightarrow> (peer \<Rightarrow> ('c, 'r, 'z) endpoint_scheme) option" where
  "deliver_late_by exec q s =
     (case sq (s q) of [] \<Rightarrow> None
      | w # ws \<Rightarrow> do {
          (ok, a, b) \<leftarrow> exec w (s q) (s (other q));
          Some (s(q := a\<lparr>sq := ws, unacked := unacked a @ [\<lparr>wc_success = ok, wc_opcode = completion_of (wr_opcode w), wc_imm = 0\<rparr>]\<rparr>,
                  other q := b)) })"

definition ack :: "peer \<Rightarrow> (peer \<Rightarrow> ('c, 'r, 'z) endpoint_scheme) \<Rightarrow> (peer \<Rightarrow> ('c, 'r, 'z) endpoint_scheme) option" where
  "ack q s =
     (case unacked (s q) of [] \<Rightarrow> None
      | w # ws \<Rightarrow> Some (s(q := (s q)\<lparr>unacked := ws, cq := cq (s q) @ [w]\<rparr>)))"

subsection \<open>Steps\<close>

text \<open>The event thread of a side handles an event, the poller of a side handles a completion, or the
  transport moves.\<close>

inductive lstep :: "(peer \<Rightarrow> 's \<Rightarrow> 's option) \<Rightarrow> (peer \<Rightarrow> 's \<Rightarrow> 's option) \<Rightarrow> ('s \<Rightarrow> 's \<Rightarrow> bool) \<Rightarrow> 's \<Rightarrow> 's \<Rightarrow> bool"
  for ev :: "peer \<Rightarrow> 's \<Rightarrow> 's option" and poll :: "peer \<Rightarrow> 's \<Rightarrow> 's option" and wire :: "'s \<Rightarrow> 's \<Rightarrow> bool" where
  event: "ev p s = Some t \<Longrightarrow> lstep ev poll wire s t"
| completion: "poll p s = Some t \<Longrightarrow> lstep ev poll wire s t"
| transport: "wire s t \<Longrightarrow> lstep ev poll wire s t"

inductive_simps lstep_iff: "lstep ev poll wire s t"

lemma lstep_mono: "lstep ev poll wire s t \<Longrightarrow> (\<And>s t. wire s t \<Longrightarrow> wire' s t) \<Longrightarrow> lstep ev poll wire' s t"
  by (induction rule: lstep.induct) (auto intro: lstep.intros)

lemma lstep_reachable_mono:
  assumes "reachable i (lstep ev poll wire) s" "\<And>s t. wire s t \<Longrightarrow> wire' s t"
  shows "reachable i (lstep ev poll wire') s"
  using assms(1)
proof (induction rule: reachable.induct)
  case (reach_step s t)
  have "lstep ev poll wire' s t" by (rule lstep_mono [OF reach_step(2) assms(2)])
  then show ?case using reach_step(3) by (rule reachable.reach_step [rotated])
qed (rule reach_init)

subsection \<open>The two sides as a pair\<close>

fun pair :: "'e \<Rightarrow> 'e \<Rightarrow> peer \<Rightarrow> 'e" where
  "pair a b Client = a" | "pair a b Server = b"

lemma pair_upd [simp]: "(pair a b)(Client := c) = pair c b" "(pair a b)(Server := c) = pair a c"
  by (rule ext, case_tac x; simp)+

lemma pair_eta: "s = pair (s Client) (s Server)"
  by (rule ext, case_tac x) simp_all

end
