(* ===== verification/RdmaRw.thy ===== *)
theory RdmaRw
  imports Verbs
begin

text \<open>
  The RDMA read/write example (\<open>src/rdma/02_read-write\<close>): two processes tell each other where
  their buffer is, move one message each by a one-sided write or read, say that they are done, and
  disconnect. \<open>rdma-common.c\<close> is the state machine of the completions; \<open>rdma-client.c\<close> and
  \<open>rdma-server.c\<close> are the handlers of the connection manager's events.

  \<^item> Handlers are functions from the connection to the connection and the calls made.
  \<^item> Both endpoints run against a transport that is a parameter, \<open>wire\<close>: a relation on their
    states. \<open>rc_deliver\<close> says what the documentation of a reliable connection allows it to do; a
    theorem assumes that \<open>wire\<close> does nothing else, or that it does not stop.
\<close>

subsection \<open>rdma-common.c: data\<close>

datatype mode = M_WRITE | M_READ

datatype region = Send_msg | Recv_msg | Rdma_local_region | Rdma_remote_region

datatype msg_type = MSG_MR | MSG_DONE

record message =
  msg_type :: msg_type
  msg_mr :: "region mr"

record connection =
  connected :: bool
  peer_mr :: "region mr"
  recv_msg :: message
  send_msg :: message
  rdma_local_region :: string
  rdma_remote_region :: string
  send_state :: nat
  recv_state :: nat

definition RDMA_BUFFER_SIZE :: nat where "RDMA_BUFFER_SIZE = 1024"

definition SS_INIT :: nat where "SS_INIT = 0"
definition SS_MR_SENT :: nat where "SS_MR_SENT = 1"
definition SS_RDMA_SENT :: nat where "SS_RDMA_SENT = 2"
definition SS_DONE_SENT :: nat where "SS_DONE_SENT = 3"
definition RS_INIT :: nat where "RS_INIT = 0"
definition RS_MR_RECV :: nat where "RS_MR_RECV = 1"
definition RS_DONE_RECV :: nat where "RS_DONE_RECV = 2"

lemmas state_codes = SS_INIT_def SS_MR_SENT_def SS_RDMA_SENT_def SS_DONE_SENT_def RS_INIT_def
  RS_MR_RECV_def RS_DONE_RECV_def

text \<open>\<open>sizeof(struct message)\<close> on LP64: the tag, padding, and the 48 bytes of a \<open>struct ibv_mr\<close>.\<close>

definition message_size :: nat where "message_size = 56"

subsection \<open>rdma-common.c: operations\<close>

definition reg :: "mode \<Rightarrow> region \<Rightarrow> bool \<Rightarrow> region mr" where
  "reg m r remote = \<lparr>mr_addr = r, mr_rkey = r, mr_remote_write = (remote \<and> m = M_WRITE), mr_remote_read = (remote \<and> m = M_READ)\<rparr>"

text \<open>The regions the process registers; only the receive message and the remote buffer are open to
  the peer, for writing or for reading.\<close>

definition send_mr_of :: "mode \<Rightarrow> region mr" where "send_mr_of m = reg m Send_msg False"
definition recv_mr_of :: "mode \<Rightarrow> region mr" where "recv_mr_of m = reg m Recv_msg True"
definition rdma_local_mr :: "mode \<Rightarrow> region mr" where "rdma_local_mr m = reg m Rdma_local_region False"
definition rdma_remote_mr :: "mode \<Rightarrow> region mr" where "rdma_remote_mr m = reg m Rdma_remote_region True"

definition register_memory :: "mode \<Rightarrow> region call list" where
  "register_memory m =
     [Alloc Send_msg message_size, Alloc Recv_msg message_size,
      Alloc Rdma_local_region RDMA_BUFFER_SIZE, Alloc Rdma_remote_region RDMA_BUFFER_SIZE,
      Reg_mr Send_msg message_size (send_mr_of m), Reg_mr Recv_msg message_size (recv_mr_of m),
      Reg_mr Rdma_local_region RDMA_BUFFER_SIZE (rdma_local_mr m),
      Reg_mr Rdma_remote_region RDMA_BUFFER_SIZE (rdma_remote_mr m)]"

definition post_receives :: "region call list" where
  "post_receives = [Post_recv (Some (Recv_msg, message_size))]"

text \<open>\<open>build_connection\<close>; \<open>mem\<close> is what the fresh memory of the connection holds.\<close>

definition build_connection :: "mode \<Rightarrow> nat option \<Rightarrow> nat \<Rightarrow> connection \<Rightarrow> nat option \<times> connection \<times> region call list" where
  "build_connection m s_ctx verbs mem =
     (let (s_ctx, cs) = build_context s_ctx verbs
      in (s_ctx, mem\<lparr>send_state := SS_INIT, recv_state := RS_INIT, connected := False\<rparr>,
          cs @ [Create_qp build_qp_attr, Alloc_conn] @ register_memory m @ post_receives))"

definition build_params :: conn_param where
  "build_params = \<lparr>initiator_depth = 1, responder_resources = 1, rnr_retry_count = 7\<rparr>"

definition destroy_connection :: "region call list" where
  "destroy_connection =
     [Destroy_qp, Dereg_mr Send_msg, Dereg_mr Recv_msg, Dereg_mr Rdma_local_region, Dereg_mr Rdma_remote_region,
      Free Send_msg, Free Recv_msg, Free Rdma_local_region, Free Rdma_remote_region, Destroy_id, Free_conn]"

definition get_local_message_region :: "mode \<Rightarrow> connection \<Rightarrow> string" where
  "get_local_message_region m conn = (if m = M_WRITE then rdma_local_region conn else rdma_remote_region conn)"

definition put_local_message_region :: "mode \<Rightarrow> string \<Rightarrow> connection \<Rightarrow> connection" where
  "put_local_message_region m r conn =
     (if m = M_WRITE then conn\<lparr>rdma_local_region := r\<rparr> else conn\<lparr>rdma_remote_region := r\<rparr>)"

definition get_peer_message_region :: "mode \<Rightarrow> connection \<Rightarrow> string" where
  "get_peer_message_region m conn = (if m = M_WRITE then rdma_remote_region conn else rdma_local_region conn)"

text \<open>\<open>send_message\<close> spins until the connection is established: \<open>None\<close> as long as it would spin.\<close>

definition send_message :: "connection \<Rightarrow> (region call list) option" where
  "send_message conn =
     (if connected conn
      then Some [Post_send \<lparr>wr_opcode = WR_SEND, wr_sge = Some (Send_msg, message_size), wr_imm_data = 0,
                            wr_remote_addr = None, wr_rkey = None\<rparr>]
      else None)"

definition send_mr :: "mode \<Rightarrow> connection \<Rightarrow> (connection \<times> region call list) option" where
  "send_mr m conn =
     (let conn = conn\<lparr>send_msg := (send_msg conn)\<lparr>msg_type := MSG_MR, msg_mr := rdma_remote_mr m\<rparr>\<rparr>
      in do { cs \<leftarrow> send_message conn; Some (conn, cs) })"

definition rdma_request :: "mode \<Rightarrow> connection \<Rightarrow> region wr" where
  "rdma_request m conn =
     \<lparr>wr_opcode = (if m = M_WRITE then WR_RDMA_WRITE else WR_RDMA_READ),
      wr_sge = Some (Rdma_local_region, RDMA_BUFFER_SIZE), wr_imm_data = 0,
      wr_remote_addr = Some (mr_addr (peer_mr conn)), wr_rkey = Some (mr_rkey (peer_mr conn))\<rparr>"

text \<open>\<open>on_completion\<close>: the count of the completion, the answer to a message, and what the two states
  together call for.\<close>

definition on_recv :: "mode \<Rightarrow> connection \<Rightarrow> (connection \<times> region call list) option" where
  "on_recv m conn =
     (let conn = conn\<lparr>recv_state := recv_state conn + 1\<rparr>
      in if msg_type (recv_msg conn) = MSG_MR
         then let conn = conn\<lparr>peer_mr := msg_mr (recv_msg conn)\<rparr>
              in (if send_state conn = SS_INIT
                  then do { (conn, cs) \<leftarrow> send_mr m conn; Some (conn, post_receives @ cs) }
                  else Some (conn, post_receives))
         else Some (conn, []))"

definition on_send :: "connection \<Rightarrow> (connection \<times> region call list) option" where
  "on_send conn = Some (conn\<lparr>send_state := send_state conn + 1\<rparr>, [Print ''send completed successfully.''])"

definition on_states :: "mode \<Rightarrow> connection \<Rightarrow> (connection \<times> region call list) option" where
  "on_states m conn =
     (if send_state conn = SS_MR_SENT \<and> recv_state conn = RS_MR_RECV then
        do {
          let rdma = Post_send (rdma_request m conn);
          let conn = conn\<lparr>send_msg := (send_msg conn)\<lparr>msg_type := MSG_DONE\<rparr>\<rparr>;
          cs \<leftarrow> send_message conn;
          Some (conn, [Print (if m = M_WRITE then ''received MSG_MR. writing message to remote memory...''
                              else ''received MSG_MR. reading message from remote memory...''), rdma] @ cs) }
      else if send_state conn = SS_DONE_SENT \<and> recv_state conn = RS_DONE_RECV then
        Some (conn, [Print (''remote buffer: '' @ c_string (get_peer_message_region m conn)), Disconnect])
      else Some (conn, []))"

definition on_completion :: "mode \<Rightarrow> wc \<Rightarrow> connection \<Rightarrow> (connection \<times> region call list) option" where
  "on_completion m wc conn =
     (if \<not> wc_success wc then Some (conn, [Exit ''on_completion: status is not IBV_WC_SUCCESS.''])
      else do {
        (conn, cs) \<leftarrow> (if is_recv (wc_opcode wc) then on_recv m conn else on_send conn);
        (conn, ds) \<leftarrow> on_states m conn;
        Some (conn, cs @ ds) })"

definition on_connect :: "connection \<Rightarrow> connection" where
  "on_connect conn = conn\<lparr>connected := True\<rparr>"

subsection \<open>rdma-client.c and rdma-server.c: connection events\<close>

text \<open>Both \<open>main\<close> functions read the mode from their first argument.\<close>

definition mode_of_arg :: "string \<Rightarrow> mode option" where
  "mode_of_arg a = (if a = ''write'' then Some M_WRITE else if a = ''read'' then Some M_READ else None)"

text \<open>The setup of a connection: the client's when the address is resolved, the server's on a request;
  \<open>None\<close> if the greeting does not fit its region.\<close>

definition on_addr_resolved :: "mode \<Rightarrow> nat option \<Rightarrow> nat \<Rightarrow> nat \<Rightarrow> connection \<Rightarrow> (nat option \<times> connection \<times> region call list) option" where
  "on_addr_resolved m s_ctx verbs pid mem =
     (let (s_ctx, conn, cs) = build_connection m s_ctx verbs mem
      in do { r \<leftarrow> c_sprintf (get_local_message_region m conn) (greeting Client pid);
              Some (s_ctx, put_local_message_region m r conn, [Print ''address resolved.''] @ cs @ [Resolve_route]) })"

definition on_connect_request :: "mode \<Rightarrow> nat option \<Rightarrow> nat \<Rightarrow> nat \<Rightarrow> connection \<Rightarrow> (nat option \<times> connection \<times> region call list) option" where
  "on_connect_request m s_ctx verbs pid mem =
     (let (s_ctx, conn, cs) = build_connection m s_ctx verbs mem
      in do { r \<leftarrow> c_sprintf (get_local_message_region m conn) (greeting Server pid);
              Some (s_ctx, put_local_message_region m r conn, [Print ''received connection request.''] @ cs @ [Accept build_params]) })"

definition on_route_resolved :: "region call list" where
  "on_route_resolved = [Print ''route resolved.'', Connect build_params]"

definition client_on_connection :: "mode \<Rightarrow> connection \<Rightarrow> (connection \<times> region call list) option" where
  "client_on_connection m conn = send_mr m (on_connect conn)"

definition server_on_connection :: "mode \<Rightarrow> connection \<Rightarrow> (connection \<times> region call list) option" where
  "server_on_connection m conn = Some (on_connect conn, [])"

definition client_on_disconnect :: "region call list \<times> bool" where
  "client_on_disconnect = (Print ''disconnected.'' # destroy_connection, True)"

definition server_on_disconnect :: "region call list \<times> bool" where
  "server_on_disconnect = (Print ''peer disconnected.'' # destroy_connection, False)"

text \<open>\<open>on_event\<close> of the client and of the server: the static context and the connection (\<open>None\<close> when
  it is gone), the calls, and whether the event loop ends.\<close>

fun client_on_event :: "mode \<Rightarrow> nat \<Rightarrow> nat \<Rightarrow> connection \<Rightarrow> cm_event \<Rightarrow> nat option \<Rightarrow> connection
    \<Rightarrow> (nat option \<times> connection option \<times> region call list \<times> bool) option" where
  "client_on_event m verbs pid mem ADDR_RESOLVED s_ctx conn =
     do { (x, c, cs) \<leftarrow> on_addr_resolved m s_ctx verbs pid mem; Some (x, Some c, cs, False) }"
| "client_on_event m verbs pid mem ROUTE_RESOLVED s_ctx conn = Some (s_ctx, Some conn, on_route_resolved, False)"
| "client_on_event m verbs pid mem ESTABLISHED s_ctx conn =
     do { (c, cs) \<leftarrow> client_on_connection m conn; Some (s_ctx, Some c, cs, False) }"
| "client_on_event m verbs pid mem DISCONNECTED s_ctx conn =
     (let (cs, stop) = client_on_disconnect in Some (s_ctx, None, cs, stop))"
| "client_on_event m verbs pid mem _ s_ctx conn = Some (s_ctx, Some conn, [Exit ''on_event: unknown event.''], False)"

fun server_on_event :: "mode \<Rightarrow> nat \<Rightarrow> nat \<Rightarrow> connection \<Rightarrow> cm_event \<Rightarrow> nat option \<Rightarrow> connection
    \<Rightarrow> (nat option \<times> connection option \<times> region call list \<times> bool) option" where
  "server_on_event m verbs pid mem CONNECT_REQUEST s_ctx conn =
     do { (x, c, cs) \<leftarrow> on_connect_request m s_ctx verbs pid mem; Some (x, Some c, cs, False) }"
| "server_on_event m verbs pid mem ESTABLISHED s_ctx conn =
     do { (c, cs) \<leftarrow> server_on_connection m conn; Some (s_ctx, Some c, cs, False) }"
| "server_on_event m verbs pid mem DISCONNECTED s_ctx conn =
     (let (cs, stop) = server_on_disconnect in Some (s_ctx, None, cs, stop))"
| "server_on_event m verbs pid mem _ s_ctx conn = Some (s_ctx, Some conn, [Exit ''on_event: unknown event.''], False)"

fun on_event :: "peer \<Rightarrow> mode \<Rightarrow> nat \<Rightarrow> nat \<Rightarrow> connection \<Rightarrow> cm_event \<Rightarrow> nat option \<Rightarrow> connection
    \<Rightarrow> (nat option \<times> connection option \<times> region call list \<times> bool) option" where
  "on_event Client = client_on_event"
| "on_event Server = server_on_event"

lemmas event_defs = client_on_connection_def server_on_connection_def client_on_disconnect_def server_on_disconnect_def

declare event_defs [simp]

subsection \<open>rdma-client.c and rdma-server.c: main\<close>

text \<open>The event loop keeps the static context and the connection of each id; an id that is seen for the
  first time has fresh memory \<open>mem cid\<close>.\<close>

definition handle :: "peer \<Rightarrow> mode \<Rightarrow> nat \<Rightarrow> nat \<Rightarrow> (nat \<Rightarrow> connection) \<Rightarrow> cm_event \<times> nat \<Rightarrow> nat option \<times> (nat \<rightharpoonup> connection)
    \<Rightarrow> ((nat option \<times> (nat \<rightharpoonup> connection)) \<times> region call list \<times> bool) option" where
  "handle p m verbs pid mem ev st =
     (case (ev, st) of ((e, cid), (s_ctx, conns)) \<Rightarrow>
       do {
         (s_ctx, c, cs, stop) \<leftarrow> on_event p m verbs pid (mem cid) e s_ctx (case conns cid of Some c \<Rightarrow> c | None \<Rightarrow> mem cid);
         Some ((s_ctx, conns(cid := c)), cs, stop) })"

text \<open>\<open>main\<close> of the client (arguments: mode, address, port) and of the server (argument: mode); \<open>port\<close> is
  the one the library bound.\<close>

definition TIMEOUT_IN_MS :: nat where "TIMEOUT_IN_MS = 500"

definition usage :: "peer \<Rightarrow> region call list" where
  "usage p = [Exit (case p of Client \<Rightarrow> ''usage: <mode> <server-address> <server-port>'' | Server \<Rightarrow> ''usage: <mode>'')]"

definition main_client :: "string list \<Rightarrow> nat \<Rightarrow> nat \<Rightarrow> (nat \<Rightarrow> connection) \<Rightarrow> (cm_event \<times> nat) list \<Rightarrow> (region call list) option" where
  "main_client argv verbs pid mem events =
     (if length argv \<noteq> 3 then Some (usage Client)
      else case mode_of_arg (argv ! 0) of
        None \<Rightarrow> Some (usage Client)
      | Some m \<Rightarrow> do {
          (s, cs) \<leftarrow> event_loop (handle Client m verbs pid mem) events (None, Map.empty);
          Some ([Getaddrinfo (argv ! 1) (argv ! 2), Create_event_channel, Create_id, Resolve_addr TIMEOUT_IN_MS] @ cs @
                [Destroy_event_channel]) })"

definition main_server :: "string list \<Rightarrow> nat \<Rightarrow> nat \<Rightarrow> nat \<Rightarrow> (nat \<Rightarrow> connection) \<Rightarrow> (cm_event \<times> nat) list \<Rightarrow> (region call list) option" where
  "main_server argv port verbs pid mem events =
     (if length argv \<noteq> 1 then Some (usage Server)
      else case mode_of_arg (argv ! 0) of
        None \<Rightarrow> Some (usage Server)
      | Some m \<Rightarrow> do {
          (s, cs) \<leftarrow> event_loop (handle Server m verbs pid mem) events (None, Map.empty);
          Some ([Create_event_channel, Create_id, Bind_addr, Listen 10, Print (''listening on port '' @ decimal port @ ''.'')] @ cs @
                [Destroy_id, Destroy_event_channel]) })"

subsection \<open>Resources\<close>

lemma build_connection_resources:
  assumes "build_connection m x v mem = (y, c, cs)"
  shows "acquired cs = released destroy_connection" "released cs = {#}"
  using assms
  by (auto simp: build_connection_def build_context_def destroy_connection_def register_memory_def post_receives_def
      split: option.splits if_splits)

text \<open>The life of a connection as the library reports it.\<close>

fun life :: "peer \<Rightarrow> cm_event list" where
  "life Client = [ADDR_RESOLVED, ROUTE_RESOLVED, ESTABLISHED, DISCONNECTED]"
| "life Server = [CONNECT_REQUEST, ESTABLISHED, DISCONNECTED]"

lemma send_mr_resources: "send_mr m c = Some (d, cs) \<Longrightarrow> acquired cs = {#} \<and> released cs = {#}"
  by (auto simp: send_mr_def send_message_def Let_def bind_eq_Some_conv split: if_splits)

lemma setup_resources:
  assumes "on_addr_resolved m x v pid mem = Some (y, c, cs) \<or> on_connect_request m x v pid mem = Some (y, c, cs)"
    and "x = None \<or> x = Some v"
  shows "acquired cs = released destroy_connection \<and> released cs = {#} \<and> y = Some v"
  using assms
  by (auto simp: on_addr_resolved_def on_connect_request_def build_connection_def build_context_def
      destroy_connection_def register_memory_def post_receives_def bind_eq_Some_conv)

lemma client_life:
  assumes "event_loop (handle Client m v pid mem) (map (\<lambda>e. (e, cid)) (life Client)) (x, conns) = Some (st, cs)"
    and "x = None \<or> x = Some v"
  shows "acquired cs = released cs"
  using assms(1) setup_resources [OF disjI1 assms(2)] send_mr_resources
  by (auto simp: handle_def bind_eq_Some_conv on_route_resolved_def)
     (auto simp: destroy_connection_def)

lemma server_life:
  assumes "event_loop (handle Server m v pid mem) (map (\<lambda>e. (e, cid)) (life Server) @ es) (x, conns) = Some (st, cs)"
    and "x = None \<or> x = Some v"
  shows "\<exists>bs ds conns'. cs = bs @ ds \<and> acquired bs = released bs \<and>
    event_loop (handle Server m v pid mem) es (Some v, conns') = Some (st, ds)"
proof -
  obtain y c as ds where r: "on_connect_request m x v pid (mem cid) = Some (y, c, as)"
    and es: "event_loop (handle Server m v pid mem) es (y, conns(cid := None)) = Some (st, ds)"
    and cs: "cs = (as @ Print ''peer disconnected.'' # destroy_connection) @ ds"
    using assms(1) by (auto simp: handle_def bind_eq_Some_conv)
  have "acquired (as @ Print ''peer disconnected.'' # destroy_connection) = released (as @ Print ''peer disconnected.'' # destroy_connection)"
    using setup_resources [OF disjI2 [OF r] assms(2)] by (simp add: destroy_connection_def)
  then show ?thesis using es cs setup_resources [OF disjI2 [OF r] assms(2)] by blast
qed

lemma server_lives:
  assumes "event_loop (handle Server m v pid mem) (concat (map (\<lambda>c. map (\<lambda>e. (e, c)) (life Server)) ids)) (x, conns) = Some (st, cs)"
    and "x = None \<or> x = Some v"
  shows "acquired cs = released cs"
  using assms
proof (induction ids arbitrary: x conns cs)
  case (Cons i ids)
  obtain bs ds conns' where "cs = bs @ ds" "acquired bs = released bs"
    "event_loop (handle Server m v pid mem) (concat (map (\<lambda>c. map (\<lambda>e. (e, c)) (life Server)) ids)) (Some v, conns') = Some (st, ds)"
    using server_life [of m v pid mem i "concat (map (\<lambda>c. map (\<lambda>e. (e, c)) (life Server)) ids)" x conns st cs] Cons.prems
    by auto
  then show ?case using Cons.IH [of "Some v" conns' ds] by simp
qed simp

lemma main_resources:
  assumes "main_client [a, addr, port] v pid mem (map (\<lambda>e. (e, cid)) (life Client)) = Some cs"
  shows "acquired cs = released cs"
  using assms client_life [of _ v pid mem cid None Map.empty]
  by (auto simp: main_client_def usage_def bind_eq_Some_conv simp del: life.simps event_loop.simps split: option.splits)

lemma main_server_resources:
  assumes "main_server [a] n v pid mem (concat (map (\<lambda>c. map (\<lambda>e. (e, c)) (life Server)) ids)) = Some ds"
  shows "acquired ds = released ds"
  using assms server_lives [of _ v pid mem ids None Map.empty]
  by (auto simp: main_server_def usage_def bind_eq_Some_conv simp del: life.simps event_loop.simps split: option.splits)

end
