(* ===== verification/RdmaRwLink.thy ===== *)
theory RdmaRwLink
  imports RdmaRw Link
begin

text \<open>
  Two endpoints of the RDMA read/write example, connected: the handlers of \<open>RdmaRw\<close> run on both
  sides, interleaved with each other and with the transport. An endpoint has its connection, the
  requests it posted that the transport has not executed (\<open>sq\<close>), the number of receives it posted
  that are not used (\<open>rq\<close>), and its completion queue (\<open>cq\<close>).

  \<open>rc_deliver\<close> is what the documentation lets a reliable connection do with the oldest request of a
  side: a send uses a receive of the peer (and waits for one), a write or a read copies between the
  registered regions when the key fits; the completion of the request and the receive completion of
  the peer are queued together. \<open>rc_deliver_late\<close> queues the completion of the request at any later
  time. The transport of the theorems is a parameter.
\<close>

subsection \<open>Endpoints\<close>

type_synonym rw_endpoint = "(connection, region) endpoint"
type_synonym link = "peer \<Rightarrow> rw_endpoint"

text \<open>The endpoint after its connection has been set up in memory that held \<open>mem\<close>.\<close>

definition blank :: "connection \<Rightarrow> rw_endpoint" where
  "blank c = \<lparr>conn = c, sq = [], rq = 0, cq = [], unacked = [], out = [], gone = False, exited = False\<rparr>"

definition start :: "peer \<Rightarrow> mode \<Rightarrow> nat \<Rightarrow> connection \<Rightarrow> rw_endpoint option" where
  "start p m pid mem =
     do { (x, c, cs, b) \<leftarrow> on_event p m 0 pid mem (case p of Client \<Rightarrow> ADDR_RESOLVED | Server \<Rightarrow> CONNECT_REQUEST) None mem;
          c \<leftarrow> c;
          Some (do_calls cs (blank c)) }"

definition rw_init :: "mode \<Rightarrow> (peer \<Rightarrow> nat) \<Rightarrow> link \<Rightarrow> bool" where
  "rw_init m pid s \<longleftrightarrow>
     (\<forall>p. \<exists>mem. length (rdma_local_region mem) = RDMA_BUFFER_SIZE \<and>
        length (rdma_remote_region mem) = RDMA_BUFFER_SIZE \<and> start p m (pid p) mem = Some (s p))"

subsection \<open>Transport\<close>

definition granted :: "mode \<Rightarrow> region wr \<Rightarrow> bool" where
  "granted m w \<longleftrightarrow> wr_remote_addr w = Some Rdma_remote_region \<and> wr_rkey w = Some Rdma_remote_region \<and>
     wr_sge w = Some (Rdma_local_region, RDMA_BUFFER_SIZE) \<and>
     (wr_opcode w = WR_RDMA_WRITE \<and> mr_remote_write (rdma_remote_mr m) \<or>
      wr_opcode w = WR_RDMA_READ \<and> mr_remote_read (rdma_remote_mr m))"

definition execute :: "mode \<Rightarrow> region wr \<Rightarrow> rw_endpoint \<Rightarrow> rw_endpoint \<Rightarrow> (bool \<times> rw_endpoint \<times> rw_endpoint) option" where
  "execute m w a b =
     (if wr_opcode w = WR_SEND then
        (if rq b = 0 then None
         else Some (True, a,
           b\<lparr>rq := rq b - 1, cq := cq b @ [\<lparr>wc_success = True, wc_opcode = WC_RECV, wc_imm = 0\<rparr>],
             conn := (conn b)\<lparr>recv_msg := send_msg (conn a)\<rparr>\<rparr>))
      else if \<not> granted m w then Some (False, a, b)
      else if wr_opcode w = WR_RDMA_WRITE then
        Some (True, a, b\<lparr>conn := (conn b)\<lparr>rdma_remote_region := overwrite (rdma_remote_region (conn b)) 0 (rdma_local_region (conn a))\<rparr>\<rparr>)
      else
        Some (True, a\<lparr>conn := (conn a)\<lparr>rdma_local_region := overwrite (rdma_local_region (conn a)) 0 (rdma_remote_region (conn b))\<rparr>\<rparr>, b))"

definition deliver :: "mode \<Rightarrow> peer \<Rightarrow> link \<Rightarrow> link option" where
  "deliver m = deliver_by (execute m)"

definition rc_deliver :: "mode \<Rightarrow> link \<Rightarrow> link \<Rightarrow> bool" where
  "rc_deliver m s t \<longleftrightarrow> (\<exists>q. deliver m q s = Some t)"

definition deliver_late :: "mode \<Rightarrow> peer \<Rightarrow> link \<Rightarrow> link option" where
  "deliver_late m = deliver_late_by (execute m)"

definition rc_deliver_late :: "mode \<Rightarrow> link \<Rightarrow> link \<Rightarrow> bool" where
  "rc_deliver_late m s t \<longleftrightarrow> (\<exists>q. deliver_late m q s = Some t \<or> ack q s = Some t)"

subsection \<open>Steps\<close>

text \<open>The event thread handles \<open>ESTABLISHED\<close> once; the poller handles the oldest completion, when the
  handler does not spin; the transport moves.\<close>

definition establish :: "mode \<Rightarrow> peer \<Rightarrow> link \<Rightarrow> link option" where
  "establish m p s =
     (if connected (conn (s p)) \<or> exited (s p) then None
      else do {
        (x, c, cs, b) \<leftarrow> on_event p m 0 0 (conn (s p)) ESTABLISHED None (conn (s p));
        c \<leftarrow> c;
        Some (s(p := do_calls cs ((s p)\<lparr>conn := c\<rparr>))) })"

definition poll_cq :: "mode \<Rightarrow> peer \<Rightarrow> link \<Rightarrow> link option" where
  "poll_cq m p s =
     (if exited (s p) then None
      else case cq (s p) of [] \<Rightarrow> None
      | w # ws \<Rightarrow> do {
          (c, cs) \<leftarrow> on_completion m w (conn (s p));
          Some (s(p := do_calls cs ((s p)\<lparr>conn := c, cq := ws\<rparr>))) })"

abbreviation rstep :: "mode \<Rightarrow> (link \<Rightarrow> link \<Rightarrow> bool) \<Rightarrow> link \<Rightarrow> link \<Rightarrow> bool" where
  "rstep m \<equiv> lstep (establish m) (poll_cq m)"

subsection \<open>Invariant\<close>

text \<open>Requests executed, messages received, and requests posted, as functions of the state.\<close>

definition executed :: "rw_endpoint \<Rightarrow> nat" where
  "executed e = send_state (conn e) + sends (cq e)"

definition received :: "rw_endpoint \<Rightarrow> nat" where
  "received e = recv_state (conn e) + recvs (cq e)"

definition posted :: "peer \<Rightarrow> rw_endpoint \<Rightarrow> nat" where
  "posted p e =
     (if (case p of Client \<Rightarrow> \<not> connected (conn e) | Server \<Rightarrow> recv_state (conn e) = 0) then 0
      else if send_state (conn e) \<ge> 1 \<and> recv_state (conn e) \<ge> 1 then 3 else 1)"

definition messages :: "nat \<Rightarrow> nat" where
  "messages n = (if n = 0 then 0 else if n \<le> 2 then 1 else 2)"

definition send_wr :: "region wr" where
  "send_wr = \<lparr>wr_opcode = WR_SEND, wr_sge = Some (Send_msg, message_size), wr_imm_data = 0,
              wr_remote_addr = None, wr_rkey = None\<rparr>"

definition rdma_wr :: "mode \<Rightarrow> region wr" where
  "rdma_wr m =
     \<lparr>wr_opcode = (if m = M_WRITE then WR_RDMA_WRITE else WR_RDMA_READ),
      wr_sge = Some (Rdma_local_region, RDMA_BUFFER_SIZE), wr_imm_data = 0,
      wr_remote_addr = Some Rdma_remote_region, wr_rkey = Some Rdma_remote_region\<rparr>"

definition script :: "mode \<Rightarrow> region wr list" where
  "script m = [send_wr, rdma_wr m, send_wr]"

text \<open>Every receive but the server's first follows the completion of the first send.\<close>

definition recv_ok :: "peer \<Rightarrow> nat \<Rightarrow> nat \<Rightarrow> bool" where
  "recv_ok p ss rs \<longleftrightarrow> ss \<ge> 1 \<or> p = Server \<and> rs = 0"

fun wf_cq :: "peer \<Rightarrow> nat \<Rightarrow> nat \<Rightarrow> wc list \<Rightarrow> bool" where
  "wf_cq p ss rs [] \<longleftrightarrow> True"
| "wf_cq p ss rs (w # ws) \<longleftrightarrow> wc_success w \<and>
     (if is_recv (wc_opcode w) then recv_ok p ss rs \<and> wf_cq p ss (Suc rs) ws else wf_cq p (Suc ss) rs ws)"

definition mr_message :: "mode \<Rightarrow> message" where
  "mr_message m = \<lparr>msg_type = MSG_MR, msg_mr = rdma_remote_mr m\<rparr>"

text \<open>Control part, message part and memory part of the invariant of side \<open>p\<close>, whose peer is \<open>f\<close>.\<close>

definition ctl_inv :: "mode \<Rightarrow> peer \<Rightarrow> rw_endpoint \<Rightarrow> rw_endpoint \<Rightarrow> bool" where
  "ctl_inv m p e f \<longleftrightarrow>
     (p = Server \<and> recv_state (conn e) \<ge> 1 \<longrightarrow> connected (conn e)) \<and>
     (recv_state (conn e) \<ge> 1 \<longrightarrow> recv_ok p (send_state (conn e)) (recv_state (conn e) - 1)) \<and>
     executed e \<le> posted p e \<and> sq e = drop (executed e) (take (posted p e) (script m)) \<and>
     received e = messages (executed f) \<and> received e \<le> Suc (recv_state (conn e)) \<and>
     rq e = (if recv_state (conn e) = 0 then 1 else 2) - received e \<and>
     wf_cq p (send_state (conn e)) (recv_state (conn e)) (cq e) \<and> unacked e = [] \<and> \<not> exited e \<and>
     (gone e \<longleftrightarrow> send_state (conn e) = 3 \<and> recv_state (conn e) = 2)"

definition msg_inv :: "mode \<Rightarrow> peer \<Rightarrow> rw_endpoint \<Rightarrow> bool" where
  "msg_inv m p e \<longleftrightarrow>
     (posted p e = 1 \<longrightarrow> send_msg (conn e) = mr_message m) \<and>
     (posted p e = 3 \<longrightarrow> msg_type (send_msg (conn e)) = MSG_DONE) \<and>
     (received e = 1 \<longrightarrow> recv_msg (conn e) = mr_message m) \<and>
     (received e = 2 \<longrightarrow> msg_type (recv_msg (conn e)) = MSG_DONE) \<and>
     (recv_state (conn e) \<ge> 1 \<longrightarrow> peer_mr (conn e) = rdma_remote_mr m)"

definition moved :: "mode \<Rightarrow> rw_endpoint \<Rightarrow> rw_endpoint \<Rightarrow> bool" where
  "moved m e f \<longleftrightarrow>
     (if m = M_WRITE then executed f \<ge> 2 \<longrightarrow> rdma_remote_region (conn e) = rdma_local_region (conn f)
      else executed e \<ge> 2 \<longrightarrow> rdma_local_region (conn e) = rdma_remote_region (conn f))"

definition is_buffer_line :: "string \<Rightarrow> bool" where
  "is_buffer_line x \<longleftrightarrow> take 14 x = ''remote buffer:''"

definition mem_inv :: "mode \<Rightarrow> (peer \<Rightarrow> nat) \<Rightarrow> peer \<Rightarrow> rw_endpoint \<Rightarrow> rw_endpoint \<Rightarrow> bool" where
  "mem_inv m pid p e f \<longleftrightarrow>
     length (rdma_local_region (conn e)) = RDMA_BUFFER_SIZE \<and> length (rdma_remote_region (conn e)) = RDMA_BUFFER_SIZE \<and>
     c_string (get_local_message_region m (conn e)) = greeting p (pid p) \<and> moved m e f \<and>
     filter is_buffer_line (out e) = (if gone e then [''remote buffer: '' @ greeting (other p) (pid (other p))] else [])"

definition rinv :: "mode \<Rightarrow> (peer \<Rightarrow> nat) \<Rightarrow> link \<Rightarrow> bool" where
  "rinv m pid s \<longleftrightarrow>
     (\<forall>p. ctl_inv m p (s p) (s (other p)) \<and> msg_inv m p (s p) \<and> mem_inv m pid p (s p) (s (other p)))"

lemma wf_cq_append [simp]:
  "wf_cq p ss rs (xs @ ys) \<longleftrightarrow> wf_cq p ss rs xs \<and> wf_cq p (ss + sends xs) (rs + recvs xs) ys"
  by (induction p ss rs xs rule: wf_cq.induct) auto

lemmas on_completion_simps = on_completion_def on_recv_def on_send_def on_states_def send_mr_def
  send_message_def post_receives_def state_codes Let_def


subsection \<open>The handlers keep the invariant\<close>

lemma messages_simps [simp]:
  "messages 0 = 0" "messages (Suc 0) = 1" "messages 2 = 1" "messages 3 = 2" "messages n \<le> 2"
  by (simp_all add: messages_def)

lemma posted_le [simp]: "posted p e \<le> 3"
  by (simp add: posted_def)

text \<open>The situations in which a completion can be handled.\<close>

lemma poll_situations:
  assumes inv: "ctl_inv m p e f" and cq: "cq e = w # ws"
  obtains (first_recv_unsent) "wc_success w" "is_recv (wc_opcode w)" "recv_state (conn e) = 0" "recvs ws = 0"
      "send_state (conn e) = 0" "sends ws = 0" "p = Server"
    | (first_recv) "wc_success w" "is_recv (wc_opcode w)" "recv_state (conn e) = 0" "recvs ws = 0"
      "send_state (conn e) = 1" "sends ws = 0" "p = Client" "connected (conn e)"
    | (second_recv) "wc_success w" "is_recv (wc_opcode w)" "recv_state (conn e) = 1" "recvs ws = 0"
      "send_state (conn e) \<ge> 1" "send_state (conn e) + sends ws \<le> 3" "connected (conn e)"
    | (first_send_early) "wc_success w" "\<not> is_recv (wc_opcode w)" "send_state (conn e) = 0" "sends ws = 0"
      "recv_state (conn e) = 0" "p = Client" "connected (conn e)" "recvs ws \<le> 1"
    | (first_send) "wc_success w" "\<not> is_recv (wc_opcode w)" "send_state (conn e) = 0" "sends ws = 0"
      "recv_state (conn e) = 1" "p = Server" "connected (conn e)" "recvs ws \<le> 1"
    | (later_send) "wc_success w" "\<not> is_recv (wc_opcode w)" "send_state (conn e) \<ge> 1" "send_state (conn e) + sends ws \<le> 2"
      "recv_state (conn e) \<ge> 1" "recv_state (conn e) + recvs ws \<le> 2" "connected (conn e)"
proof -
  have w: "wc_success w" using inv cq by (simp add: ctl_inv_def)
  have p: "executed e \<le> posted p e" and r: "received e \<le> Suc (recv_state (conn e))" and r2: "received e \<le> 2"
    using inv by (simp_all add: ctl_inv_def)
  have con: "posted p e \<noteq> 0 \<Longrightarrow> connected (conn e)"
    using inv by (cases p) (auto simp: posted_def ctl_inv_def split: if_splits)
  have ok: "recv_state (conn e) \<ge> 1 \<Longrightarrow> recv_ok p (send_state (conn e)) (recv_state (conn e) - 1)"
    using inv by (simp add: ctl_inv_def)
  show thesis
  proof (cases "is_recv (wc_opcode w)")
    case True
    have now: "recv_ok p (send_state (conn e)) (recv_state (conn e))"
      using inv cq True by (simp add: ctl_inv_def)
    have rs: "recv_state (conn e) = 0 \<and> recvs ws = 0 \<or> recv_state (conn e) = 1 \<and> recvs ws = 0"
      using r r2 cq True by (auto simp: received_def)
    show thesis
    proof (cases "recv_state (conn e) = 0")
      case rs0: True
      show thesis
      proof (cases "p = Server")
        case srv: True
        then have "executed e = 0" using p rs0 by (simp add: posted_def)
        then show thesis using first_recv_unsent w True rs0 rs srv cq by (simp add: executed_def)
      next
        case False
        then have cl: "p = Client" by (cases p) auto
        then have "send_state (conn e) \<ge> 1" using now by (simp add: recv_ok_def)
        moreover have "posted p e \<le> 1" using rs0 by (simp add: posted_def)
        moreover have "posted p e \<noteq> 0" using p calculation(1) by (auto simp: executed_def)
        ultimately show thesis
          using first_recv [OF w True rs0] rs rs0 cl con p cq True by (simp add: executed_def)
      qed
    next
      case False
      then have rs1: "recv_state (conn e) = 1" "recvs ws = 0" using rs by auto
      have ss: "send_state (conn e) \<ge> 1" using now rs1 by (simp add: recv_ok_def)
      then have "posted p e \<noteq> 0" using p by (auto simp: executed_def)
      moreover have "executed e \<le> 3" using p posted_le [of p e] by linarith
      ultimately show thesis
        using second_recv [OF w True rs1 ss] con cq True by (simp add: executed_def)
    qed
  next
    case False
    have ne: "posted p e \<noteq> 0" using p cq False by (auto simp: executed_def)
    show thesis
    proof (cases "recv_state (conn e) = 0")
      case rs0: True
      then have cl: "p = Client" using ne by (cases p) (auto simp: posted_def)
      have "posted p e = 1" using rs0 ne by (auto simp: posted_def split: if_splits)
      then show thesis
        using first_send_early w False rs0 cl con [OF ne] p r cq by (simp add: executed_def received_def)
    next
      case rs1: False
      show thesis
      proof (cases "send_state (conn e) = 0")
        case ss0: True
        have "p = Server" "recv_state (conn e) = 1" using ok rs1 ss0 by (auto simp: recv_ok_def)
        moreover have "posted p e = 1" using ss0 ne by (auto simp: posted_def split: if_splits)
        ultimately show thesis
          using first_send w False ss0 con [OF ne] p r cq by (simp add: executed_def received_def)
      next
        case ss1: False
        then have "executed e \<le> 3" using p posted_le [of p e] by linarith
        then show thesis
          using later_send [OF w False] ss1 rs1 con [OF ne] r r2 cq False by (simp add: executed_def received_def)
      qed
    qed
  qed
qed


lemma buffer_lines [simp]:
  "is_buffer_line ''send completed successfully.'' = False"
  "is_buffer_line ''received MSG_MR. writing message to remote memory...'' = False"
  "is_buffer_line ''received MSG_MR. reading message from remote memory...'' = False"
  "is_buffer_line (''remote buffer: '' @ x) = True"
  by (simp_all add: is_buffer_line_def)

lemma Suc_le_numeral_cases: "Suc 0 \<le> (n :: nat) \<Longrightarrow> n \<le> 2 \<Longrightarrow> n = 1 \<or> n = 2"
  by auto

text \<open>What handling a completion does, in terms of the invariant.\<close>

definition kept :: "rw_endpoint \<Rightarrow> rw_endpoint \<Rightarrow> bool" where
  "kept e e' \<longleftrightarrow> executed e' = executed e \<and> received e' = received e \<and>
     rdma_local_region (conn e') = rdma_local_region (conn e) \<and> rdma_remote_region (conn e') = rdma_remote_region (conn e)"

lemma mem_inv_kept:
  assumes "mem_inv m pid p e f" "kept e e'" "gone e' = gone e"
    and "filter is_buffer_line (out e') = filter is_buffer_line (out e)"
  shows "mem_inv m pid p e' f"
  using assms by (cases m) (simp_all add: mem_inv_def kept_def moved_def get_local_message_region_def)

text \<open>The effect of each handler call on the endpoint, in the situations of the invariant.\<close>

lemma first_recv_effect:
  assumes "wc_success w" "is_recv (wc_opcode w)" "recv_state (conn e) = 0" "recv_msg (conn e) = mr_message m"
    and "on_completion m w (conn e) = Some (c, cs)" "\<not> exited e" "rq e = 0" "unacked e = []" "sends ws = 0" "recvs ws = 0"
    and "length (sq e) < 8" "send_state (conn e) \<le> 1" "sq e = []"
  shows "connected (conn e) \<and> do_calls cs (e\<lparr>conn := c, cq := ws\<rparr>) =
    (if send_state (conn e) = 0
     then e\<lparr>conn := (conn e)\<lparr>recv_state := 1, peer_mr := rdma_remote_mr m, send_msg := mr_message m\<rparr>, cq := ws, rq := 1, sq := [send_wr]\<rparr>
     else e\<lparr>conn := (conn e)\<lparr>recv_state := 1, peer_mr := rdma_remote_mr m, send_msg := (send_msg (conn e))\<lparr>msg_type := MSG_DONE\<rparr>\<rparr>,
            cq := ws, rq := 1, sq := [rdma_wr m, send_wr],
            out := out e @ [if m = M_WRITE then ''received MSG_MR. writing message to remote memory...''
                              else ''received MSG_MR. reading message from remote memory...'']\<rparr>)"
proof -
  have con: "connected (conn e)"
    using assms by (simp add: on_completion_simps mr_message_def split: if_splits)
  have "send_state (conn e) = 0 \<or> send_state (conn e) = 1" using assms(12) by auto
  then show ?thesis
  proof
    assume "send_state (conn e) = 0"
    then show ?thesis
      using assms con by (auto simp: on_completion_simps mr_message_def build_qp_attr_def send_wr_def)
  next
    assume "send_state (conn e) = 1"
    then show ?thesis
      using assms con
      by (auto simp: on_completion_simps mr_message_def build_qp_attr_def send_wr_def rdma_wr_def rdma_request_def
          rdma_remote_mr_def reg_def)
  qed
qed

lemma other_recv_effect:
  assumes "wc_success w" "is_recv (wc_opcode w)" "recv_state (conn e) = 1" "msg_type (recv_msg (conn e)) = MSG_DONE"
    and "on_completion m w (conn e) = Some (c, cs)" "\<not> exited e"
  shows "do_calls cs (e\<lparr>conn := c, cq := ws\<rparr>) =
    (if send_state (conn e) = 3
     then e\<lparr>conn := (conn e)\<lparr>recv_state := 2\<rparr>, cq := ws, gone := True,
            out := out e @ [''remote buffer: '' @ c_string (get_peer_message_region m (conn e))]\<rparr>
     else e\<lparr>conn := (conn e)\<lparr>recv_state := 2\<rparr>, cq := ws\<rparr>)"
  using assms by (auto simp: on_completion_simps get_peer_message_region_def)

lemma send_effect:
  assumes "wc_success w" "\<not> is_recv (wc_opcode w)"
    and "on_completion m w (conn e) = Some (c, cs)" "\<not> exited e" "connected (conn e)" "unacked e = []"
    and "recv_state (conn e) \<ge> 1 \<Longrightarrow> peer_mr (conn e) = rdma_remote_mr m"
    and "send_state (conn e) = 0 \<Longrightarrow> sends ws = 0 \<and> sq e = []"
  shows "do_calls cs (e\<lparr>conn := c, cq := ws\<rparr>) =
    (if send_state (conn e) = 0 \<and> recv_state (conn e) = 1
     then e\<lparr>conn := (conn e)\<lparr>send_state := 1, send_msg := (send_msg (conn e))\<lparr>msg_type := MSG_DONE\<rparr>\<rparr>,
            cq := ws, sq := [rdma_wr m, send_wr],
            out := out e @ [''send completed successfully.'',
              if m = M_WRITE then ''received MSG_MR. writing message to remote memory...''
              else ''received MSG_MR. reading message from remote memory...'']\<rparr>
     else if send_state (conn e) = 2 \<and> recv_state (conn e) = 2
     then e\<lparr>conn := (conn e)\<lparr>send_state := 3\<rparr>, cq := ws, gone := True,
            out := out e @ [''send completed successfully.'', ''remote buffer: '' @ c_string (get_peer_message_region m (conn e))]\<rparr>
     else e\<lparr>conn := (conn e)\<lparr>send_state := Suc (send_state (conn e))\<rparr>, cq := ws,
            out := out e @ [''send completed successfully.'']\<rparr>)"
  using assms
  by (auto simp: on_completion_simps build_qp_attr_def send_wr_def rdma_wr_def rdma_request_def get_peer_message_region_def
      rdma_remote_mr_def reg_def)

text \<open>At the end of the exchange, the region that gets printed holds the greeting of the peer.\<close>

lemma peer_greeting:
  assumes "mem_inv m pid p e f" "mem_inv m pid (other p) f e"
    and "executed e \<ge> 2" "executed f \<ge> 2"
  shows "c_string (get_peer_message_region m (conn e)) = greeting (other p) (pid (other p))"
  using assms by (cases m) (simp_all add: mem_inv_def moved_def get_peer_message_region_def get_local_message_region_def)

lemma messages_eq: "messages n = 2 \<Longrightarrow> 3 \<le> n" "messages n = 1 \<Longrightarrow> 1 \<le> n \<and> n \<le> 2"
  by (auto simp: messages_def split: if_splits)

lemma mem_inv_gone:
  assumes "mem_inv m pid p e f" "mem_inv m pid (other p) f e" "kept e e'" "gone e'" "\<not> gone e"
    and "filter is_buffer_line (out e') =
      filter is_buffer_line (out e) @ [''remote buffer: '' @ c_string (get_peer_message_region m (conn e))]"
    and "executed e \<ge> 2" "executed f \<ge> 2"
  shows "mem_inv m pid p e' f"
  using assms peer_greeting [OF assms(1,2,7,8)]
  by (cases m) (simp_all add: mem_inv_def kept_def moved_def get_local_message_region_def)

lemmas inv_simps = ctl_inv_def msg_inv_def kept_def executed_def received_def

lemma poll_first_recv:
  assumes ctl: "ctl_inv m p e f" and msg: "msg_inv m p e" and mem: "mem_inv m pid p e f"
    and cq: "cq e = w # ws" and h: "on_completion m w (conn e) = Some (c, cs)"
    and e': "e' = do_calls cs (e\<lparr>conn := c, cq := ws\<rparr>)"
    and w: "wc_success w" "is_recv (wc_opcode w)" "recv_state (conn e) = 0" "recvs ws = 0" "sends ws = 0"
    and ss: "send_state (conn e) = 0 \<and> p = Server \<or> send_state (conn e) = 1 \<and> p = Client \<and> connected (conn e)"
  shows "ctl_inv m p e' f \<and> msg_inv m p e' \<and> mem_inv m pid p e' f \<and> kept e e'"
proof -
  have r1: "received e = 1" and x: "executed e = send_state (conn e)" using w cq by (simp_all add: received_def executed_def)
  have rm: "recv_msg (conn e) = mr_message m" using msg r1 by (simp add: msg_inv_def)
  have ps: "posted p e = send_state (conn e)" using ss w(3) by (auto simp: posted_def)
  have q: "sq e = []" "rq e = 0" "\<not> exited e" "unacked e = []" "\<not> gone e"
    using ctl w(3) r1 x ps by (simp_all add: ctl_inv_def)
  have eff: "connected (conn e)" "e' = (if send_state (conn e) = 0
     then e\<lparr>conn := (conn e)\<lparr>recv_state := 1, peer_mr := rdma_remote_mr m, send_msg := mr_message m\<rparr>, cq := ws, rq := 1, sq := [send_wr]\<rparr>
     else e\<lparr>conn := (conn e)\<lparr>recv_state := 1, peer_mr := rdma_remote_mr m, send_msg := (send_msg (conn e))\<lparr>msg_type := MSG_DONE\<rparr>\<rparr>,
            cq := ws, rq := 1, sq := [rdma_wr m, send_wr],
            out := out e @ [if m = M_WRITE then ''received MSG_MR. writing message to remote memory...''
                              else ''received MSG_MR. reading message from remote memory...'']\<rparr>)"
    using first_recv_effect [OF w(1-3) rm h q(3) q(2) q(4) w(5,4)] q(1) ss e' by auto
  have k: "kept e e'" using w cq by (simp add: eff(2) kept_def executed_def received_def)
  have mem': "mem_inv m pid p e' f"
    by (rule mem_inv_kept [OF mem k]) (simp_all add: eff(2))
  have "messages (executed f) = 1" using ctl r1 by (simp add: ctl_inv_def)
  moreover have "wf_cq p (send_state (conn e)) 1 ws" using ctl cq w by (simp add: ctl_inv_def)
  moreover have x': "executed e' = send_state (conn e)" "received e' = 1" using k r1 x by (simp_all add: kept_def)
  moreover have ps': "posted p e' = (if send_state (conn e) = 0 then 1 else 3)" using ss eff(1)
    by (auto simp: posted_def eff(2))
  ultimately have c: "ctl_inv m p e' f"
    using ss q eff(1) unfolding ctl_inv_def x' ps' by (auto simp: eff(2) recv_ok_def script_def)
  have "msg_inv m p e'" unfolding msg_inv_def x' ps' using rm by (auto simp: eff(2))
  then show ?thesis using c k mem' by blast
qed

lemma poll_second_recv:
  assumes ctl: "ctl_inv m p e f" and msg: "msg_inv m p e" and mem: "mem_inv m pid p e f"
    and memf: "mem_inv m pid (other p) f e"
    and cq: "cq e = w # ws" and h: "on_completion m w (conn e) = Some (c, cs)"
    and e': "e' = do_calls cs (e\<lparr>conn := c, cq := ws\<rparr>)"
    and w: "wc_success w" "is_recv (wc_opcode w)" "recv_state (conn e) = 1" "recvs ws = 0"
    and ss: "send_state (conn e) \<ge> 1" "connected (conn e)"
  shows "ctl_inv m p e' f \<and> msg_inv m p e' \<and> mem_inv m pid p e' f \<and> kept e e'"
proof -
  have r2: "received e = 2" using w cq by (simp add: received_def)
  then have xf: "3 \<le> executed f" using ctl by (simp add: ctl_inv_def messages_eq)
  have rm: "msg_type (recv_msg (conn e)) = MSG_DONE" using msg r2 by (simp add: msg_inv_def)
  have ps: "posted p e = 3" using ss w(3) by (auto simp: posted_def split: peer.splits)
  have g: "\<not> exited e" "\<not> gone e" using ctl w(3) by (simp_all add: ctl_inv_def)
  have eff: "e' = (if send_state (conn e) = 3
     then e\<lparr>conn := (conn e)\<lparr>recv_state := 2\<rparr>, cq := ws, gone := True,
            out := out e @ [''remote buffer: '' @ c_string (get_peer_message_region m (conn e))]\<rparr>
     else e\<lparr>conn := (conn e)\<lparr>recv_state := 2\<rparr>, cq := ws\<rparr>)"
    using other_recv_effect [OF w(1-3) rm h g(1)] e' by simp
  have k: "kept e e'" using w cq by (simp add: eff kept_def executed_def received_def)
  have "mem_inv m pid p e' f"
  proof (cases "send_state (conn e) = 3")
    case True
    show ?thesis by (rule mem_inv_gone [OF mem memf k]) (use True g xf in \<open>simp_all add: eff executed_def is_buffer_line_def\<close>)
  next
    case False
    show ?thesis by (rule mem_inv_kept [OF mem k]) (use False in \<open>simp_all add: eff\<close>)
  qed
  moreover have "wf_cq p (send_state (conn e)) 2 ws" using ctl cq w by (simp add: ctl_inv_def numeral_2_eq_2)
  moreover have "posted p e' = 3" "executed e' = executed e" "received e' = 2" using ss k r2 ps
    by (auto simp: posted_def eff kept_def split: peer.splits)
  ultimately show ?thesis
    using ss k w ctl msg r2 ps g rm
    by (auto simp: eff ctl_inv_def msg_inv_def recv_ok_def)
qed

lemma poll_send:
  assumes ctl: "ctl_inv m p e f" and msg: "msg_inv m p e" and mem: "mem_inv m pid p e f"
    and memf: "mem_inv m pid (other p) f e"
    and cq: "cq e = w # ws" and h: "on_completion m w (conn e) = Some (c, cs)"
    and e': "e' = do_calls cs (e\<lparr>conn := c, cq := ws\<rparr>)"
    and w: "wc_success w" "\<not> is_recv (wc_opcode w)" and con: "connected (conn e)"
    and sw: "send_state (conn e) = 0 \<Longrightarrow> sends ws = 0 \<and> recv_state (conn e) \<le> 1"
    and bound: "send_state (conn e) + sends ws \<le> 2"
    and rs0: "recv_state (conn e) = 0 \<Longrightarrow> send_state (conn e) = 0 \<and> p = Client"
  shows "ctl_inv m p e' f \<and> msg_inv m p e' \<and> mem_inv m pid p e' f \<and> kept e e'"
proof -
  have pm: "recv_state (conn e) \<ge> 1 \<Longrightarrow> peer_mr (conn e) = rdma_remote_mr m" using msg by (simp add: msg_inv_def)
  have ps: "posted p e = (if send_state (conn e) = 0 then 1 else 3)"
    using con rs0 sw ctl cq w by (cases p) (auto simp: posted_def ctl_inv_def executed_def)
  have q0: "send_state (conn e) = 0 \<Longrightarrow> sends ws = 0 \<and> sq e = []"
    using ctl ps sw cq w by (auto simp: ctl_inv_def executed_def)
  have g: "\<not> exited e" "\<not> gone e" "unacked e = []" using ctl bound by (auto simp: ctl_inv_def)
  have r: "received e = messages (executed f)" using ctl by (simp add: ctl_inv_def)
  have rs: "recv_state (conn e) \<le> 2"
    using r messages_simps(5) [of "executed f"] unfolding received_def by linarith
  let ?x = "out e @ [''send completed successfully.'']"
  have eff: "e' =
    (if send_state (conn e) = 0 \<and> recv_state (conn e) = 1
     then e\<lparr>conn := (conn e)\<lparr>send_state := 1, send_msg := (send_msg (conn e))\<lparr>msg_type := MSG_DONE\<rparr>\<rparr>,
            cq := ws, sq := [rdma_wr m, send_wr],
            out := out e @ [''send completed successfully.'',
              if m = M_WRITE then ''received MSG_MR. writing message to remote memory...''
              else ''received MSG_MR. reading message from remote memory...'']\<rparr>
     else if send_state (conn e) = 2 \<and> recv_state (conn e) = 2
     then e\<lparr>conn := (conn e)\<lparr>send_state := 3\<rparr>, cq := ws, gone := True,
            out := out e @ [''send completed successfully.'', ''remote buffer: '' @ c_string (get_peer_message_region m (conn e))]\<rparr>
     else e\<lparr>conn := (conn e)\<lparr>send_state := Suc (send_state (conn e))\<rparr>, cq := ws,
            out := out e @ [''send completed successfully.'']\<rparr>)"
    unfolding e' by (rule send_effect [OF w h g(1) con g(3) pm q0])
  have k: "kept e e'" using w cq by (simp add: eff kept_def executed_def received_def)
  have mem': "mem_inv m pid p e' f"
  proof (cases "send_state (conn e) = 2 \<and> recv_state (conn e) = 2")
    case True
    then have "messages (executed f) = 2"
      using r messages_simps(5) [of "executed f"] unfolding received_def by linarith
    then have "3 \<le> executed f" by (rule messages_eq)
    then show ?thesis
      by (intro mem_inv_gone [OF mem memf k]) (use True g in \<open>simp_all add: eff executed_def is_buffer_line_def\<close>)
  next
    case False
    show ?thesis by (rule mem_inv_kept [OF mem k]) (use False g in \<open>auto simp: eff\<close>)
  qed
  have wf: "wf_cq p (Suc (send_state (conn e))) (recv_state (conn e)) ws" using ctl cq w by (simp add: ctl_inv_def)
  have ps': "posted p e' = (if recv_state (conn e) = 0 then 1 else 3)"
    using con rs0 by (cases p) (auto simp: posted_def eff)
  have x: "executed e' = executed e" "received e' = received e" using k by (simp_all add: kept_def)
  have xe: "executed e = Suc (send_state (conn e) + sends ws)" using cq w by (simp add: executed_def)
  have old: "sq e = drop (executed e) (take (posted p e) (script m))" "executed e \<le> posted p e" "received e \<le> Suc (recv_state (conn e))"
      "rq e = (if recv_state (conn e) = 0 then 1 else 2) - received e"
      "recv_state (conn e) \<ge> 1 \<Longrightarrow> recv_ok p (send_state (conn e)) (recv_state (conn e) - 1)"
    using ctl by (simp_all add: ctl_inv_def)
  have u: "ctl_inv m p e' f"
  proof (cases "send_state (conn e) = 0 \<and> recv_state (conn e) = 1")
    case True
    then have n: "executed e = 1" using xe sw by simp
    show ?thesis
      using wf ps' x con g old(3,4) r True n
      by (simp add: eff ctl_inv_def recv_ok_def script_def)
  next
    case not_first: False
    then have pp: "posted p e' = posted p e" using ps ps' sw rs0 by (cases "send_state (conn e) = 0") auto
    show ?thesis
    proof (cases "send_state (conn e) = 2 \<and> recv_state (conn e) = 2")
      case True
      then show ?thesis using wf pp x con g old r by (simp add: eff ctl_inv_def recv_ok_def)
    next
      case False
      have e: "e' = e\<lparr>conn := (conn e)\<lparr>send_state := Suc (send_state (conn e))\<rparr>, cq := ws,
            out := out e @ [''send completed successfully.'']\<rparr>"
        unfolding eff if_not_P [OF not_first] if_not_P [OF False] ..
      have "\<not> gone e'" "send_state (conn e') = 3 \<longrightarrow> recv_state (conn e') \<noteq> 2" using g False by (simp_all add: e)
      moreover have "p = Server \<and> recv_state (conn e') \<ge> 1 \<longrightarrow> connected (conn e')" using con by (simp add: e)
      moreover have "sq e' = sq e" "rq e' = rq e" "cq e' = ws" "unacked e' = []" "\<not> exited e'"
        "recv_state (conn e') = recv_state (conn e)" "send_state (conn e') = Suc (send_state (conn e))"
        using g by (simp_all add: e)
      ultimately show ?thesis unfolding ctl_inv_def using wf pp x old r by (simp add: recv_ok_def)
    qed
  qed
  have v: "msg_inv m p e'"
  proof (cases "send_state (conn e) = 0 \<and> recv_state (conn e) = 1")
    case True
    then show ?thesis using ps' x msg by (simp add: eff msg_inv_def)
  next
    case False
    then have pp: "posted p e' = posted p e" using ps ps' sw rs0 by (cases "send_state (conn e) = 0") auto
    have "send_msg (conn e') = send_msg (conn e)" "recv_msg (conn e') = recv_msg (conn e)"
      "peer_mr (conn e') = peer_mr (conn e)" "recv_state (conn e') = recv_state (conn e)"
      using False by (auto simp: eff)
    then show ?thesis using pp x msg unfolding msg_inv_def by simp
  qed
  show ?thesis using u v mem' k by blast
qed

lemma poll_keeps:
  assumes ctl: "ctl_inv m p e f" and msg: "msg_inv m p e" and mem: "mem_inv m pid p e f"
    and memf: "mem_inv m pid (other p) f e"
    and cq: "cq e = w # ws" and h: "on_completion m w (conn e) = Some (c, cs)"
    and e': "e' = do_calls cs (e\<lparr>conn := c, cq := ws\<rparr>)"
  shows "ctl_inv m p e' f \<and> msg_inv m p e' \<and> mem_inv m pid p e' f \<and> kept e e'"
  using ctl cq
proof (cases rule: poll_situations)
  case first_recv_unsent
  then show ?thesis by (intro poll_first_recv [OF ctl msg mem cq h e']) simp_all
next
  case first_recv
  then show ?thesis by (intro poll_first_recv [OF ctl msg mem cq h e']) simp_all
next
  case second_recv
  then show ?thesis by (intro poll_second_recv [OF ctl msg mem memf cq h e']) simp_all
next
  case first_send_early
  then show ?thesis by (intro poll_send [OF ctl msg mem memf cq h e']) simp_all
next
  case first_send
  then show ?thesis by (intro poll_send [OF ctl msg mem memf cq h e']) simp_all
next
  case later_send
  then show ?thesis by (intro poll_send [OF ctl msg mem memf cq h e']) simp_all
qed

lemma establish_keeps:
  assumes ctl: "ctl_inv m p e f" and msg: "msg_inv m p e" and mem: "mem_inv m pid p e f"
    and new: "\<not> connected (conn e)"
    and h: "on_event p m 0 0 (conn e) ESTABLISHED None (conn e) = Some (x, Some c, cs, b)"
    and e': "e' = do_calls cs (e\<lparr>conn := c\<rparr>)"
  shows "ctl_inv m p e' f \<and> msg_inv m p e' \<and> mem_inv m pid p e' f \<and> kept e e' \<and> connected (conn e')"
proof (cases p)
  case Server
  have e: "e' = e\<lparr>conn := on_connect (conn e)\<rparr>" using h Server e' by (cases m) auto
  have k: "kept e e'" by (simp add: e kept_def executed_def received_def on_connect_def)
  have ps: "posted p e' = posted p e" by (simp add: Server e posted_def on_connect_def)
  have "mem_inv m pid p e' f" by (rule mem_inv_kept [OF mem k]) (simp_all add: e)
  moreover have "ctl_inv m p e' f" using ctl ps k unfolding ctl_inv_def kept_def by (simp add: e on_connect_def)
  moreover have "msg_inv m p e'" using msg ps k unfolding msg_inv_def kept_def by (simp add: e on_connect_def)
  ultimately show ?thesis using k by (simp add: e on_connect_def)
next
  case Client
  have "posted p e = 0" using new Client by (simp add: posted_def)
  then have z: "executed e = 0" "sq e = []" "\<not> exited e" "unacked e = []" using ctl by (simp_all add: ctl_inv_def)
  then have ss: "send_state (conn e) = 0" "sends (cq e) = 0" by (simp_all add: executed_def)
  have e: "e' = e\<lparr>conn := (conn e)\<lparr>connected := True, send_msg := mr_message m\<rparr>, sq := [send_wr]\<rparr>"
    using h e' z ss unfolding Client
    by (auto simp: on_connect_def send_mr_def send_message_def mr_message_def send_wr_def build_qp_attr_def Let_def)
  have k: "kept e e'" by (simp add: e kept_def executed_def received_def)
  have ps: "posted p e' = 1" using ss by (simp add: Client e posted_def)
  have "mem_inv m pid p e' f" by (rule mem_inv_kept [OF mem k]) (simp_all add: e)
  moreover have "ctl_inv m p e' f" using ctl ps k z unfolding ctl_inv_def kept_def by (simp add: e script_def)
  moreover have "msg_inv m p e'" using msg ps k unfolding msg_inv_def kept_def by (simp add: e)
  ultimately show ?thesis using k by (simp add: e)
qed

lemma inv_peer_kept:
  assumes "kept e e'"
  shows "ctl_inv m p f e' = ctl_inv m p f e" "mem_inv m pid p f e' = mem_inv m pid p f e"
  using assms by (cases m; simp add: ctl_inv_def mem_inv_def kept_def moved_def)+

text \<open>What the transport does with the request at the head of the queue.\<close>

lemma deliver_situations:
  assumes ctl: "ctl_inv m q e f" and ctlf: "ctl_inv m (other q) f e"
    and sq: "sq e = w # ws"
  obtains (first) "w = send_wr" "executed e = 0" "posted q e = 1" "ws = []" "received f = 0" "recv_state (conn f) = 0" "rq f = 1"
      "recv_ok (other q) (executed f) 0"
    | (move) "w = rdma_wr m" "executed e = 1" "posted q e = 3" "ws = [send_wr]" "received f = 1"
    | (last) "w = send_wr" "executed e = 2" "posted q e = 3" "ws = []" "received f = 1" "recv_state (conn f) \<le> 1"
      "rq f = recv_state (conn f)" "1 \<le> executed f"
proof -
  have s: "drop (executed e) (take (posted q e) (script m)) = w # ws" "executed e \<le> posted q e"
    "received f = messages (executed e)" "received e = messages (executed f)"
    "rq f = (if recv_state (conn f) = 0 then 1 else 2) - received f"
    using ctl ctlf sq by (simp_all add: ctl_inv_def)
  have lt: "executed e < posted q e"
    using s(1,2) by (cases "executed e = posted q e") auto
  have rsf: "recv_state (conn f) \<le> received f" by (simp add: received_def)
  show thesis
  proof (cases "posted q e = 3")
    case True
    then have ss: "send_state (conn e) \<ge> 1" "recv_state (conn e) \<ge> 1" by (auto simp: posted_def split: if_splits)
    then have "executed e = 1 \<or> executed e = 2" using lt True by (auto simp: executed_def)
    moreover have "received e \<noteq> 0" using ss by (simp add: received_def)
    then have "1 \<le> executed f" using s(4) by (cases "executed f") auto
    ultimately show thesis
      using move last s True rsf by (auto simp: script_def numeral_3_eq_3)
  next
    case False
    then have one: "posted q e = 1" "executed e = 0" using lt by (auto simp: posted_def split: if_splits)
    have "recv_ok (other q) (executed f) 0"
    proof (cases q)
      case Client
      then show ?thesis by (simp add: recv_ok_def)
    next
      case Server
      then have "recv_state (conn e) \<ge> 1" using one by (auto simp: posted_def split: if_splits)
      then have "received e \<noteq> 0" by (simp add: received_def)
      then have "1 \<le> executed f" using s(4) by (cases "executed f") auto
      then show ?thesis by (simp add: recv_ok_def)
    qed
    then show thesis using first s one rsf by (simp add: script_def)
  qed
qed

lemma overwrite_all: "length xs = length ys \<Longrightarrow> overwrite xs 0 ys = ys"
  by (simp add: overwrite_def)

lemma posted_cong:
  "connected (conn e') = connected (conn e) \<Longrightarrow> send_state (conn e') = send_state (conn e) \<Longrightarrow>
   recv_state (conn e') = recv_state (conn e) \<Longrightarrow> posted p e' = posted p e"
  by (cases p) (simp_all add: posted_def)

lemma deliver_send_keeps:
  assumes e: "ctl_inv m q e f" "msg_inv m q e" "mem_inv m pid q e f"
    and f: "ctl_inv m (other q) f e" "msg_inv m (other q) f" "mem_inv m pid (other q) f e"
    and sq: "sq e = send_wr # ws" and rq: "rq f \<noteq> 0"
    and e': "e' = e\<lparr>sq := ws, cq := cq e @ [\<lparr>wc_success = True, wc_opcode = WC_SEND, wc_imm = 0\<rparr>]\<rparr>"
    and f': "f' = f\<lparr>rq := rq f - 1, cq := cq f @ [\<lparr>wc_success = True, wc_opcode = WC_RECV, wc_imm = 0\<rparr>],
             conn := (conn f)\<lparr>recv_msg := send_msg (conn e)\<rparr>\<rparr>"
  shows "ctl_inv m q e' f' \<and> msg_inv m q e' \<and> mem_inv m pid q e' f' \<and>
    ctl_inv m (other q) f' e' \<and> msg_inv m (other q) f' \<and> mem_inv m pid (other q) f' e' \<and>
    executed e' = Suc (executed e) \<and> executed f' = executed f"
proof -
  have x: "executed e' = Suc (executed e)" "executed f' = executed f" "received e' = received e" "received f' = Suc (received f)"
    by (simp_all add: e' f' executed_def received_def)
  have ps: "posted q e' = posted q e" "posted (other q) f' = posted (other q) f"
    by (rule posted_cong; simp add: e' f')+
  note x = x ps
  have fits: "rq f = 1 \<and> received f = recv_state (conn f) \<and> messages (Suc (executed e)) = Suc (messages (executed e)) \<and>
    recv_ok (other q) (executed f) (recv_state (conn f)) \<and> Suc (executed e) \<le> posted q e \<and>
    ws = drop (Suc (executed e)) (take (posted q e) (script m)) \<and>
    (2 \<le> Suc (executed e) \<longleftrightarrow> 2 \<le> executed e) \<and>
    (if received f = 0 then posted q e = 1 else received f = 1 \<and> posted q e = 3)"
    using e(1) f(1) sq
  proof (cases rule: deliver_situations)
    case first
    then show ?thesis by (simp add: script_def)
  next
    case move
    then show ?thesis using sq by (cases m) (simp_all add: send_wr_def rdma_wr_def)
  next
    case last
    then have "recv_state (conn f) = 1" using rq by simp
    then show ?thesis using last by (simp add: script_def messages_def recv_ok_def)
  qed
  have fe: "sq e' = ws" "rq e' = rq e" "cq e' = cq e @ [\<lparr>wc_success = True, wc_opcode = WC_SEND, wc_imm = 0\<rparr>]"
    "conn e' = conn e" "unacked e' = unacked e" "exited e' = exited e" "gone e' = gone e" "out e' = out e"
    by (simp_all add: e')
  have ff: "sq f' = sq f" "rq f' = 0" "cq f' = cq f @ [\<lparr>wc_success = True, wc_opcode = WC_RECV, wc_imm = 0\<rparr>]"
    "unacked f' = unacked f" "exited f' = exited f" "gone f' = gone f" "out f' = out f"
    "connected (conn f') = connected (conn f)" "send_state (conn f') = send_state (conn f)" "recv_state (conn f') = recv_state (conn f)"
    "send_msg (conn f') = send_msg (conn f)" "recv_msg (conn f') = send_msg (conn e)" "peer_mr (conn f') = peer_mr (conn f)"
    "rdma_local_region (conn f') = rdma_local_region (conn f)" "rdma_remote_region (conn f') = rdma_remote_region (conn f)"
    using fits by (simp_all add: f')
  have rcv: "send_state (conn f) + sends (cq f) = executed f" "recvs (cq f) = 0" "received f = recv_state (conn f)"
    using fits by (simp_all add: executed_def received_def)
  have "ctl_inv m q e' f'"
    using e(1) fits unfolding ctl_inv_def x fe by simp
  moreover have "ctl_inv m (other q) f' e'"
  proof -
    have "if received f = 0 then posted q e = 1 else received f = 1 \<and> posted q e = 3" using fits by blast
    then have le: "received f \<le> 1" by (simp split: if_splits)
    have "received f = messages (executed e)" using f(1) by (simp add: ctl_inv_def)
    then have g1: "Suc (received f) = messages (Suc (executed e))" using fits by simp
    have g2: "Suc (received f) \<le> Suc (recv_state (conn f))" using rcv(3) by simp
    have g3: "0 = (if recv_state (conn f) = 0 then 1 else 2) - Suc (received f)"
      using le rcv(3) by (cases "recv_state (conn f) = 0") simp_all
    have g4: "wf_cq (other q) (send_state (conn f)) (recv_state (conn f)) (cq f @ [\<lparr>wc_success = True, wc_opcode = WC_RECV, wc_imm = 0\<rparr>])"
    proof -
      have "wf_cq (other q) (send_state (conn f)) (recv_state (conn f)) (cq f)" using f(1) by (simp add: ctl_inv_def)
      moreover have "recv_ok (other q) (executed f) (recv_state (conn f))" using fits by blast
      ultimately show ?thesis by (simp add: rcv)
    qed
    show ?thesis
      using f(1) g1 g2 g3 g4 unfolding ctl_inv_def x ff by blast
  qed
  moreover have "msg_inv m q e'" using e(2) unfolding msg_inv_def x fe by simp
  moreover have "msg_inv m (other q) f'"
  proof (cases "received f = 0")
    case True
    then show ?thesis using f(2) e(2) fits unfolding msg_inv_def x ff by simp
  next
    case False
    have "if received f = 0 then posted q e = 1 else received f = 1 \<and> posted q e = 3" using fits by blast
    then have "received f = 1" "posted q e = 3" using False by (simp_all split: if_splits)
    then show ?thesis using f(2) e(2) unfolding msg_inv_def x ff by simp
  qed
  moreover have "mem_inv m pid q e' f'"
    using e(3) fits unfolding mem_inv_def moved_def get_local_message_region_def x fe ff by simp
  moreover have "mem_inv m pid (other q) f' e'"
    using f(3) fits unfolding mem_inv_def moved_def get_local_message_region_def x fe ff by simp
  ultimately show ?thesis using x by simp
qed

lemma deliver_rdma_keeps:
  assumes e: "ctl_inv m q e f" "msg_inv m q e" "mem_inv m pid q e f"
    and f: "ctl_inv m (other q) f e" "msg_inv m (other q) f" "mem_inv m pid (other q) f e"
    and sq: "sq e = rdma_wr m # ws"
    and ex: "execute m (rdma_wr m) e f = Some (ok, a, f')"
    and e': "e' = a\<lparr>sq := ws, cq := cq a @ [\<lparr>wc_success = ok, wc_opcode = completion_of (wr_opcode (rdma_wr m)), wc_imm = 0\<rparr>]\<rparr>"
  shows "ctl_inv m q e' f' \<and> msg_inv m q e' \<and> mem_inv m pid q e' f' \<and>
    ctl_inv m (other q) f' e' \<and> msg_inv m (other q) f' \<and> mem_inv m pid (other q) f' e' \<and>
    executed e' = Suc (executed e) \<and> executed f' = executed f"
proof -
  have len: "overwrite (rdma_remote_region (conn f)) 0 (rdma_local_region (conn e)) = rdma_local_region (conn e)"
    "overwrite (rdma_local_region (conn e)) 0 (rdma_remote_region (conn f)) = rdma_remote_region (conn f)"
    using e(3) f(3) by (simp_all add: mem_inv_def overwrite_all)
  have n: "executed e = 1 \<and> posted q e = 3 \<and> ws = [send_wr] \<and> received f = 1"
    using e(1) f(1) sq by (cases rule: deliver_situations) (cases m; simp_all add: send_wr_def rdma_wr_def)+
  have "ok \<and> a = (if m = M_WRITE then e else e\<lparr>conn := (conn e)\<lparr>rdma_local_region := rdma_remote_region (conn f)\<rparr>\<rparr>) \<and>
    f' = (if m = M_WRITE then f\<lparr>conn := (conn f)\<lparr>rdma_remote_region := rdma_local_region (conn e)\<rparr>\<rparr> else f)"
    using ex len by (cases m) (auto simp: execute_def rdma_wr_def granted_def rdma_remote_mr_def reg_def)
  then have ok: "ok" and a: "a = (if m = M_WRITE then e else e\<lparr>conn := (conn e)\<lparr>rdma_local_region := rdma_remote_region (conn f)\<rparr>\<rparr>)"
    and f': "f' = (if m = M_WRITE then f\<lparr>conn := (conn f)\<lparr>rdma_remote_region := rdma_local_region (conn e)\<rparr>\<rparr> else f)"
    by blast+
  have r: "conn e' = (if m = M_WRITE then conn e else (conn e)\<lparr>rdma_local_region := rdma_remote_region (conn f)\<rparr>)"
    "conn f' = (if m = M_WRITE then (conn f)\<lparr>rdma_remote_region := rdma_local_region (conn e)\<rparr> else conn f)"
    "sq e' = ws" "rq e' = rq e" "unacked e' = unacked e" "exited e' = exited e"
    "gone e' = gone e" "out e' = out e"
    "cq f' = cq f" "sq f' = sq f" "rq f' = rq f" "unacked f' = unacked f" "exited f' = exited f" "gone f' = gone f" "out f' = out f"
    by (simp_all add: e' a f')
  have "\<not> is_recv (completion_of (wr_opcode (rdma_wr m)))" by (simp add: rdma_wr_def)
  then obtain x where cq': "\<not> is_recv (wc_opcode x)" "wc_success x" "cq e' = cq e @ [x]"
    using ok that [of "\<lparr>wc_success = ok, wc_opcode = completion_of (wr_opcode (rdma_wr m)), wc_imm = 0\<rparr>"]
    by (simp add: e' a)
  have fields: "connected (conn e') = connected (conn e)" "send_state (conn e') = send_state (conn e)" "recv_state (conn e') = recv_state (conn e)"
    "send_msg (conn e') = send_msg (conn e)" "recv_msg (conn e') = recv_msg (conn e)" "peer_mr (conn e') = peer_mr (conn e)"
    "connected (conn f') = connected (conn f)" "send_state (conn f') = send_state (conn f)" "recv_state (conn f') = recv_state (conn f)"
    "send_msg (conn f') = send_msg (conn f)" "recv_msg (conn f') = recv_msg (conn f)" "peer_mr (conn f') = peer_mr (conn f)"
    by (simp_all add: r)
  have k: "executed e' = Suc (executed e)" "executed f' = executed f" "received e' = received e" "received f' = received f"
    using cq' by (simp_all add: executed_def received_def fields r)
  have ps: "posted q e' = posted q e" "posted (other q) f' = posted (other q) f"
    by (rule posted_cong; simp add: fields)+
  note k = k ps
  have "ctl_inv m q e' f'" using e(1) n k cq' unfolding ctl_inv_def by (simp add: fields r script_def)
  moreover have "ctl_inv m (other q) f' e'" using f(1) n k unfolding ctl_inv_def by (simp add: fields r messages_def)
  moreover have "msg_inv m q e'" "msg_inv m (other q) f'" using e(2) f(2) k unfolding msg_inv_def by (simp_all add: fields)
  moreover have "moved m e' f' \<and> moved m f' e'"
  proof (cases m)
    case M_WRITE
    have "moved m e f" using e(3) by (simp add: mem_inv_def)
    then show ?thesis unfolding moved_def k by (simp add: r M_WRITE)
  next
    case M_READ
    have "moved m f e" using f(3) by (simp add: mem_inv_def)
    then show ?thesis unfolding moved_def k by (simp add: r M_READ)
  qed
  moreover have "get_local_message_region m (conn e') = get_local_message_region m (conn e)"
    "get_local_message_region m (conn f') = get_local_message_region m (conn f)"
    by (cases m; simp add: r get_local_message_region_def)+
  moreover have "length (rdma_local_region (conn e')) = RDMA_BUFFER_SIZE" "length (rdma_remote_region (conn e')) = RDMA_BUFFER_SIZE"
    "length (rdma_local_region (conn f')) = RDMA_BUFFER_SIZE" "length (rdma_remote_region (conn f')) = RDMA_BUFFER_SIZE"
    using e(3) f(3) by (simp_all add: mem_inv_def r)
  ultimately show ?thesis using e(3) f(3) k by (simp add: mem_inv_def r)
qed

end
