(* ===== verification/RdmaRwSafe.thy ===== *)
theory RdmaRwSafe
  imports RdmaRwLink
begin

text \<open>
  Theorems on the RDMA read/write exchange: what both sides print, that neither dies, that the
  exchange always ends after eighteen steps, that nothing is outstanding when a side disconnects, and
  what goes wrong when the completion of a request may come later than the answer to it.
\<close>

subsection \<open>Every step keeps the invariant\<close>

lemma rinvD:
  assumes "rinv m pid s"
  shows "ctl_inv m p (s p) (s (other p))" "msg_inv m p (s p)" "mem_inv m pid p (s p) (s (other p))"
    "ctl_inv m (other p) (s (other p)) (s p)" "mem_inv m pid (other p) (s (other p)) (s p)" "msg_inv m (other p) (s (other p))"
proof -
  have "ctl_inv m q (s q) (s (other q)) \<and> msg_inv m q (s q) \<and> mem_inv m pid q (s q) (s (other q))" for q
    using assms by (simp add: rinv_def)
  from this [of p] this [of "other p"] show
    "ctl_inv m p (s p) (s (other p))" "msg_inv m p (s p)" "mem_inv m pid p (s p) (s (other p))"
    "ctl_inv m (other p) (s (other p)) (s p)" "mem_inv m pid (other p) (s (other p)) (s p)" "msg_inv m (other p) (s (other p))"
    by simp_all
qed

lemma rinv_local:
  assumes "rinv m pid s" "ctl_inv m p e' (s (other p)) \<and> msg_inv m p e' \<and> mem_inv m pid p e' (s (other p)) \<and> kept (s p) e'"
  shows "rinv m pid (s(p := e'))"
  unfolding rinv_def
proof
  fix q
  have "q = p \<or> q = other p" by (cases p; cases q) auto
  then show "ctl_inv m q ((s(p := e')) q) ((s(p := e')) (other q)) \<and> msg_inv m q ((s(p := e')) q) \<and>
      mem_inv m pid q ((s(p := e')) q) ((s(p := e')) (other q))"
    using assms(2) rinvD [OF assms(1), of p] inv_peer_kept [of "s p" e'] by auto
qed

lemma rinv_both:
  assumes "ctl_inv m q e' f' \<and> msg_inv m q e' \<and> mem_inv m pid q e' f' \<and>
    ctl_inv m (other q) f' e' \<and> msg_inv m (other q) f' \<and> mem_inv m pid (other q) f' e'"
  shows "rinv m pid (s(q := e', other q := f'))"
  unfolding rinv_def
proof
  fix p
  have "p = q \<or> p = other q" by (cases p; cases q) auto
  then show "ctl_inv m p ((s(q := e', other q := f')) p) ((s(q := e', other q := f')) (other p)) \<and>
      msg_inv m p ((s(q := e', other q := f')) p) \<and>
      mem_inv m pid p ((s(q := e', other q := f')) p) ((s(q := e', other q := f')) (other p))"
    using assms by auto
qed

text \<open>The number of steps made so far: each step adds one.\<close>

definition progress_of :: "rw_endpoint \<Rightarrow> nat" where
  "progress_of e = (if connected (conn e) then 1 else 0) + executed e + send_state (conn e) + recv_state (conn e)"

definition progress :: "link \<Rightarrow> nat" where
  "progress s = progress_of (s Client) + progress_of (s Server)"

lemma progress_split: "progress s = progress_of (s p) + progress_of (s (other p))"
  by (cases p) (simp_all add: progress_def)

lemma on_completion_counts:
  assumes "on_completion m w c0 = Some (c, cs)" "wc_success w"
  shows "connected c = connected c0" "send_state c + recv_state c = Suc (send_state c0 + recv_state c0)"
  using assms by (auto simp: on_completion_simps bind_eq_Some_conv split: if_splits)

lemma establish_counts:
  assumes "on_event p m 0 0 c0 ESTABLISHED None c0 = Some (x, Some c, cs, b)"
  shows "connected c" "send_state c = send_state c0" "recv_state c = recv_state c0"
  using assms by (cases p; auto simp: on_connect_def send_mr_def send_message_def Let_def bind_eq_Some_conv split: if_splits)+

lemma establish_step:
  assumes inv: "rinv m pid s" and st: "establish m p s = Some t"
  shows "rinv m pid t \<and> progress t = Suc (progress s)"
proof -
  from st obtain x c cs b where new: "\<not> connected (conn (s p))"
    and h: "on_event p m 0 0 (conn (s p)) ESTABLISHED None (conn (s p)) = Some (x, Some c, cs, b)"
    and t: "t = s(p := do_calls cs ((s p)\<lparr>conn := c\<rparr>))"
    by (auto simp: establish_def bind_eq_Some_conv split: if_splits)
  let ?e = "do_calls cs ((s p)\<lparr>conn := c\<rparr>)"
  have k: "ctl_inv m p ?e (s (other p)) \<and> msg_inv m p ?e \<and> mem_inv m pid p ?e (s (other p)) \<and> kept (s p) ?e \<and> connected (conn ?e)"
    by (rule establish_keeps [OF rinvD(1-3) [OF inv] new h refl])
  then have "rinv m pid t" unfolding t by (intro rinv_local [OF inv]) blast
  moreover have "progress_of ?e = Suc (progress_of (s p))"
    using k new establish_counts [OF h] by (simp add: progress_of_def kept_def)
  then have "progress t = Suc (progress s)" by (simp add: progress_split [of _ p] t)
  ultimately show ?thesis by blast
qed

lemma poll_step:
  assumes inv: "rinv m pid s" and st: "poll_cq m p s = Some t"
  shows "rinv m pid t \<and> progress t = Suc (progress s)"
proof -
  from st obtain w ws c cs where cq: "cq (s p) = w # ws" and h: "on_completion m w (conn (s p)) = Some (c, cs)"
    and t: "t = s(p := do_calls cs ((s p)\<lparr>conn := c, cq := ws\<rparr>))"
    by (auto simp: poll_cq_def bind_eq_Some_conv split: if_splits list.splits)
  let ?e = "do_calls cs ((s p)\<lparr>conn := c, cq := ws\<rparr>)"
  have k: "ctl_inv m p ?e (s (other p)) \<and> msg_inv m p ?e \<and> mem_inv m pid p ?e (s (other p)) \<and> kept (s p) ?e"
    by (rule poll_keeps [OF rinvD(1-3) [OF inv] rinvD(5) [OF inv] cq h refl])
  then have "rinv m pid t" unfolding t by (intro rinv_local [OF inv]) blast
  moreover have "wc_success w" using rinvD(1) [OF inv, of p] cq by (simp add: ctl_inv_def)
  then have "progress_of ?e = Suc (progress_of (s p))"
    using k on_completion_counts [OF h] by (simp add: progress_of_def kept_def)
  then have "progress t = Suc (progress s)" by (simp add: progress_split [of _ p] t)
  ultimately show ?thesis by blast
qed

lemma deliver_step:
  assumes inv: "rinv m pid s" and st: "deliver m q s = Some t"
  shows "rinv m pid t \<and> progress t = Suc (progress s)"
proof -
  from st obtain w ws ok a f' where sq: "sq (s q) = w # ws" and ex: "execute m w (s q) (s (other q)) = Some (ok, a, f')"
    and t: "t = s(q := a\<lparr>sq := ws, cq := cq a @ [\<lparr>wc_success = ok, wc_opcode = completion_of (wr_opcode w), wc_imm = 0\<rparr>]\<rparr>, other q := f')"
    by (auto simp: deliver_def deliver_by_def bind_eq_Some_conv split: list.splits)
  let ?e = "a\<lparr>sq := ws, cq := cq a @ [\<lparr>wc_success = ok, wc_opcode = completion_of (wr_opcode w), wc_imm = 0\<rparr>]\<rparr>"
  have w: "w = send_wr \<or> w = rdma_wr m"
    using rinvD(1,4) [OF inv, of q] sq by (cases rule: deliver_situations) auto
  have keep: "ctl_inv m q ?e f' \<and> msg_inv m q ?e \<and> mem_inv m pid q ?e f' \<and>
    ctl_inv m (other q) f' ?e \<and> msg_inv m (other q) f' \<and> mem_inv m pid (other q) f' ?e \<and>
    executed ?e = Suc (executed (s q)) \<and> executed f' = executed (s (other q))"
    using w
  proof
    assume w: "w = send_wr"
    have "rq (s (other q)) \<noteq> 0" "ok" "a = s q"
      "f' = (s (other q))\<lparr>rq := rq (s (other q)) - 1, cq := cq (s (other q)) @ [\<lparr>wc_success = True, wc_opcode = WC_RECV, wc_imm = 0\<rparr>],
             conn := (conn (s (other q)))\<lparr>recv_msg := send_msg (conn (s q))\<rparr>\<rparr>"
      using ex w by (auto simp: execute_def send_wr_def split: if_splits)
    then show ?thesis
      using sq w by (intro deliver_send_keeps [OF rinvD(1,2,3,4,6,5) [OF inv]]) (simp_all add: send_wr_def)
  next
    assume w: "w = rdma_wr m"
    then show ?thesis
      using sq ex by (intro deliver_rdma_keeps [OF rinvD(1,2,3,4,6,5) [OF inv], where a = a]) simp_all
  qed
  then have "rinv m pid t" unfolding t by (intro rinv_both) blast
  moreover have "connected (conn ?e) = connected (conn (s q))" "send_state (conn ?e) = send_state (conn (s q))"
    "recv_state (conn ?e) = recv_state (conn (s q))" "connected (conn f') = connected (conn (s (other q)))"
    "send_state (conn f') = send_state (conn (s (other q)))" "recv_state (conn f') = recv_state (conn (s (other q)))"
    using ex by (auto simp: execute_def split: if_splits)
  then have "progress_of ?e + progress_of f' = Suc (progress_of (s q) + progress_of (s (other q)))"
    using keep by (simp add: progress_of_def)
  then have "progress t = Suc (progress s)" by (simp add: progress_split [of _ q] t)
  ultimately show ?thesis by blast
qed

lemma rstep_keeps:
  assumes "rinv m pid s" "rstep m (rc_deliver m) s t"
  shows "rinv m pid t \<and> progress t = Suc (progress s)"
  using assms(2)
proof (cases rule: lstep.cases)
  case (event p)
  then show ?thesis by (rule establish_step [OF assms(1)])
next
  case (completion p)
  then show ?thesis by (rule poll_step [OF assms(1)])
next
  case transport
  then obtain q where "deliver m q s = Some t" unfolding rc_deliver_def deliver_by_def by blast
  then show ?thesis by (rule deliver_step [OF assms(1)])
qed

definition bring_up :: "mode \<Rightarrow> region call list" where
  "bring_up m = [Alloc_context, Alloc_pd, Create_comp_channel, Create_cq 10, Req_notify_cq, Create_poller,
     Create_qp build_qp_attr, Alloc_conn] @ register_memory m"

lemma build_connection_calls:
  "build_connection m None v mem =
     (Some v, mem\<lparr>send_state := SS_INIT, recv_state := RS_INIT, connected := False\<rparr>, bring_up m @ post_receives)"
  by (simp add: build_connection_def build_context_def bring_up_def)

lemma bring_up_calls:
  "do_calls (Print x # bring_up m @ post_receives @ ys) (blank c) = do_calls ys ((blank c)\<lparr>rq := 1, out := [x]\<rparr>)"
proof -
  have "do_calls (bring_up m @ post_receives @ ys) ((blank c)\<lparr>out := [x]\<rparr>) = do_calls (post_receives @ ys) ((blank c)\<lparr>out := [x]\<rparr>)"
    by (rule do_calls_inert) (auto simp: blank_def bring_up_def register_memory_def)
  then show ?thesis by (simp add: blank_def post_receives_def build_qp_attr_def)
qed

lemma start_endpoint:
  assumes l: "length (rdma_local_region mem) = RDMA_BUFFER_SIZE" "length (rdma_remote_region mem) = RDMA_BUFFER_SIZE"
    and st: "start p m pid mem = Some e"
  obtains c x where "e = (blank c)\<lparr>rq := 1, out := [x]\<rparr>" "send_state c = 0" "recv_state c = 0" "\<not> connected c"
    "length (rdma_local_region c) = RDMA_BUFFER_SIZE" "length (rdma_remote_region c) = RDMA_BUFFER_SIZE"
    "c_string (get_local_message_region m c) = greeting p pid" "\<not> is_buffer_line x"
proof -
  let ?c = "mem\<lparr>send_state := SS_INIT, recv_state := RS_INIT, connected := False\<rparr>"
  let ?x = "case p of Client \<Rightarrow> ''address resolved.'' | Server \<Rightarrow> ''received connection request.''"
  let ?y = "case p of Client \<Rightarrow> Resolve_route | Server \<Rightarrow> Accept build_params"
  obtain r where r: "c_sprintf (get_local_message_region m ?c) (greeting p pid) = Some r"
    and e: "e = do_calls (Print ?x # bring_up m @ post_receives @ [?y]) (blank (put_local_message_region m r ?c))"
    using st by (cases p)
      (auto simp: start_def on_addr_resolved_def on_connect_request_def build_connection_calls bind_eq_Some_conv
        simp del: do_calls.simps)
  let ?d = "put_local_message_region m r ?c"
  have e: "e = (blank ?d)\<lparr>rq := 1, out := [?x]\<rparr>"
    unfolding e bring_up_calls by (cases p) (simp_all add: blank_def)
  have s: "c_string r = greeting p pid" and lr: "length r = length (get_local_message_region m ?c)"
    using c_string_sprintf [OF r greeting_no_NUL] by simp_all
  show thesis
  proof (rule that [OF e])
    show "\<not> is_buffer_line ?x" by (cases p) (simp_all add: is_buffer_line_def)
  qed (use s lr l in \<open>cases m; simp add: put_local_message_region_def get_local_message_region_def SS_INIT_def RS_INIT_def\<close>)+
qed

lemma start_inv:
  assumes c: "e = (blank c)\<lparr>rq := 1, out := [x]\<rparr>" "send_state c = 0" "recv_state c = 0" "\<not> connected c"
    "length (rdma_local_region c) = RDMA_BUFFER_SIZE" "length (rdma_remote_region c) = RDMA_BUFFER_SIZE"
    "c_string (get_local_message_region m c) = greeting p pid" "\<not> is_buffer_line x"
    and f: "executed f = 0" and pid: "pid = pid' p"
  shows "ctl_inv m p e f \<and> msg_inv m p e \<and> mem_inv m pid' p e f \<and> progress_of e = 0 \<and> executed e = 0"
proof -
  have x: "executed e = 0" "received e = 0" "posted p e = 0"
    using c(2-4) by (cases p; simp add: c(1) executed_def received_def posted_def blank_def)+
  have "ctl_inv m p e f" unfolding ctl_inv_def x f using c(2-4) by (simp add: c(1) blank_def)
  moreover have "msg_inv m p e" unfolding msg_inv_def x using c(2-4) by (simp add: c(1) blank_def)
  moreover have "mem_inv m pid' p e f" unfolding mem_inv_def moved_def x f using c(5-8) pid by (simp add: c(1) blank_def)
  ultimately show ?thesis using x c(2-4) by (simp add: progress_of_def c(1) blank_def)
qed

lemma rw_init_inv:
  assumes "rw_init m pid s"
  shows "rinv m pid s \<and> progress s = 0"
proof -
  have zero: "executed (s p) = 0" for p
  proof -
    obtain mem where m: "length (rdma_local_region mem) = RDMA_BUFFER_SIZE" "length (rdma_remote_region mem) = RDMA_BUFFER_SIZE"
      "start p m (pid p) mem = Some (s p)" using assms by (auto simp: rw_init_def)
    obtain c x where "s p = (blank c)\<lparr>rq := 1, out := [x]\<rparr>" "send_state c = 0" by (rule start_endpoint [OF m])
    then show ?thesis by (simp add: executed_def blank_def)
  qed
  have one: "ctl_inv m p (s p) (s (other p)) \<and> msg_inv m p (s p) \<and> mem_inv m pid p (s p) (s (other p)) \<and>
    progress_of (s p) = 0 \<and> executed (s p) = 0" for p
  proof -
    obtain mem where m: "length (rdma_local_region mem) = RDMA_BUFFER_SIZE" "length (rdma_remote_region mem) = RDMA_BUFFER_SIZE"
      "start p m (pid p) mem = Some (s p)" using assms by (auto simp: rw_init_def)
    show ?thesis by (rule start_endpoint [OF m], rule start_inv) (use zero in auto)
  qed
  then show ?thesis unfolding rinv_def progress_def by simp
qed

subsection \<open>The transport as a parameter\<close>

text \<open>\<open>wire\<close> does nothing but what the documentation allows; and it does something when it can.\<close>

definition rc_adapter :: "mode \<Rightarrow> (link \<Rightarrow> link \<Rightarrow> bool) \<Rightarrow> bool" where
  "rc_adapter m wire \<longleftrightarrow> (\<forall>s t. wire s t \<longrightarrow> rc_deliver m s t)"

definition rc_fair :: "mode \<Rightarrow> (link \<Rightarrow> link \<Rightarrow> bool) \<Rightarrow> bool" where
  "rc_fair m wire \<longleftrightarrow> (\<forall>s. (\<exists>t. rc_deliver m s t) \<longrightarrow> (\<exists>t. wire s t))"

lemma rc_adapter_self: "rc_adapter m (rc_deliver m)" "rc_fair m (rc_deliver m)"
  by (simp_all add: rc_adapter_def rc_fair_def)

lemma wire_reachable:
  assumes "rc_adapter m wire" "reachable (rw_init m pid) (rstep m wire) s"
  shows "rinv m pid s"
proof -
  have "reachable (rw_init m pid) (rstep m (rc_deliver m)) s"
    by (rule lstep_reachable_mono [OF assms(2)]) (use assms(1) in \<open>simp add: rc_adapter_def\<close>)
  then show ?thesis
  proof (induction rule: reachable.induct)
    case (reach_init s)
    then show ?case using rw_init_inv by blast
  next
    case (reach_step s t)
    then show ?case using rstep_keeps by blast
  qed
qed

lemma gone_state:
  assumes inv: "rinv m pid s" and g: "gone (s p)"
  shows "executed (s p) = 3" "executed (s (other p)) = 3" "received (s p) = 2" "received (s (other p)) = 2"
proof -
  have c: "ctl_inv m p (s p) (s (other p))" and d: "ctl_inv m (other p) (s (other p)) (s p)"
    by (rule rinvD [OF inv])+
  have "send_state (conn (s p)) = 3 \<and> recv_state (conn (s p)) = 2" using c g unfolding ctl_inv_def by blast
  then have lo: "3 \<le> executed (s p)" "2 \<le> received (s p)" by (simp_all add: executed_def received_def)
  have "executed (s p) \<le> posted p (s p)" "executed (s (other p)) \<le> posted (other p) (s (other p))"
    using c d unfolding ctl_inv_def by blast+
  then have hi: "executed (s p) \<le> 3" "executed (s (other p)) \<le> 3" using posted_le le_trans by blast+
  have r: "received (s p) = messages (executed (s (other p)))" "received (s (other p)) = messages (executed (s p))"
    using c d unfolding ctl_inv_def by blast+
  show x: "executed (s p) = 3" using lo hi by simp
  show "received (s p) = 2" using lo(2) r(1) messages_simps(5) [of "executed (s (other p))"] by linarith
  then show "executed (s (other p)) = 3" using messages_eq(1) [of "executed (s (other p))"] r(1) hi(2) by linarith
  show "received (s (other p)) = 2" using r(2) x by simp
qed

lemma drained:
  assumes "ctl_inv m p e f" "executed e = 3" "received e = 2"
  shows "sq e = []" "rq e = 0"
  using assms posted_le [of p e] by (auto simp: ctl_inv_def script_def)

subsection \<open>The exchange always ends\<close>

lemma establish_enabled:
  assumes "\<not> connected (conn (s p))" "\<not> exited (s p)"
  shows "\<exists>t. establish m p s = Some t"
  using assms by (cases p) (simp_all add: establish_def on_connect_def send_mr_def send_message_def Let_def)

lemma poll_enabled:
  assumes "connected (conn (s p))" "\<not> exited (s p)" "cq (s p) \<noteq> []"
  shows "\<exists>t. poll_cq m p s = Some t"
proof -
  obtain w ws where cq: "cq (s p) = w # ws" using assms(3) by (cases "cq (s p)") auto
  have "\<exists>c cs. on_completion m w (conn (s p)) = Some (c, cs)"
    using assms(1) by (auto simp: on_completion_simps)
  then show ?thesis using assms(2) cq by (auto simp: poll_cq_def)
qed

lemma deliver_enabled:
  assumes inv: "rinv m pid s" and "sq (s q) \<noteq> []" "cq (s (other q)) = []"
  shows "\<exists>t. deliver m q s = Some t"
proof -
  obtain w ws where sq: "sq (s q) = w # ws" using assms(2) by (cases "sq (s q)") auto
  have rs: "received (s (other q)) = recv_state (conn (s (other q)))" using assms(3) by (simp add: received_def)
  have "wr_opcode w = WR_SEND \<Longrightarrow> rq (s (other q)) \<noteq> 0"
    using rinvD(1,4) [OF inv, of q] sq
    by (cases rule: deliver_situations) (use rs in \<open>auto simp: send_wr_def rdma_wr_def split: if_splits\<close>)
  then show ?thesis using sq by (auto simp: deliver_def deliver_by_def execute_def)
qed

lemma drop_take_Nil: "drop n (take k (script m)) = [] \<Longrightarrow> n \<le> k \<Longrightarrow> k \<le> 3 \<Longrightarrow> n = k"
  by (simp add: script_def)

lemma stuck_gone:
  assumes inv: "rinv m pid s"
    and stuck: "\<And>p. connected (conn (s p)) \<and> cq (s p) = [] \<and> sq (s p) = []"
  shows "gone (s p)"
proof -
  have c: "ctl_inv m q (s q) (s (other q))" for q using rinvD(1) [OF inv] .
  have x: "executed (s q) = send_state (conn (s q))" "received (s q) = recv_state (conn (s q))" for q
    using stuck [of q] by (simp_all add: executed_def received_def)
  have ps: "send_state (conn (s q)) = posted q (s q)" for q
    using drop_take_Nil [of "executed (s q)" "posted q (s q)" m] c [of q] stuck [of q] x(1) [of q]
    by (simp add: ctl_inv_def)
  have r: "recv_state (conn (s q)) = messages (send_state (conn (s (other q))))" for q
    using c [of q] x by (simp add: ctl_inv_def)
  have nz: "messages n \<ge> 1" if "n \<ge> 1" for n using that by (simp add: messages_def)
  have "posted Client (s Client) \<ge> 1" using stuck [of Client] by (simp add: posted_def)
  then have rS: "recv_state (conn (s Server)) \<ge> 1" using r [of Server] ps [of Client] nz by simp
  then have "posted Server (s Server) \<ge> 1" by (simp add: posted_def)
  then have "recv_state (conn (s Client)) \<ge> 1" using r [of Client] ps [of Server] nz by simp
  then have ge: "recv_state (conn (s q)) \<ge> 1" "send_state (conn (s q)) \<ge> 1" for q
    using rS \<open>posted Client (s Client) \<ge> 1\<close> \<open>posted Server (s Server) \<ge> 1\<close> ps [of Client] ps [of Server]
    by (cases q; simp)+
  have "posted q (s q) = 3" for q using stuck [of q] ge [of q] by (cases q) (auto simp: posted_def)
  then have "send_state (conn (s q)) = 3" for q using ps by simp
  then show ?thesis using c [of p] r [of p] by (simp add: ctl_inv_def)
qed

lemma some_step:
  assumes inv: "rinv m pid s" and fair: "rc_fair m wire" and "\<not> (gone (s Client) \<and> gone (s Server))"
  shows "\<exists>t. rstep m wire s t"
proof -
  have ex: "\<not> exited (s p)" for p using rinvD(1) [OF inv, of p] by (simp add: ctl_inv_def)
  have "\<not> (\<forall>p. connected (conn (s p)) \<and> cq (s p) = [] \<and> sq (s p) = [])"
    using stuck_gone [OF inv] assms(3) by blast
  then obtain p where p: "connected (conn (s p)) \<longrightarrow> cq (s p) = [] \<longrightarrow> sq (s p) \<noteq> []" by blast
  show ?thesis
  proof (cases "\<exists>q. \<not> connected (conn (s q))")
    case True
    then show ?thesis using establish_enabled ex unfolding lstep_iff by blast
  next
    case con: False
    show ?thesis
    proof (cases "\<exists>q. cq (s q) \<noteq> []")
      case True
      then show ?thesis using poll_enabled con ex unfolding lstep_iff by blast
    next
      case False
      then have "\<exists>t. rc_deliver m s t"
        using deliver_enabled [OF inv] p con unfolding rc_deliver_def deliver_by_def by blast
      then show ?thesis using fair unfolding rc_fair_def lstep_iff by blast
    qed
  qed
qed

lemma progress_bound:
  assumes inv: "rinv m pid s"
  shows "progress s \<le> 18" "progress s = 18 \<longleftrightarrow> gone (s Client) \<and> gone (s Server)"
proof -
  have b: "progress_of (s p) \<le> 9 \<and> (progress_of (s p) = 9 \<longleftrightarrow> connected (conn (s p)) \<and> gone (s p))" for p
  proof -
    note c = rinvD(1) [OF inv, of p]
    have "executed (s p) \<le> 3" using c posted_le [of p "s p"] unfolding ctl_inv_def by linarith
    moreover have "send_state (conn (s p)) \<le> executed (s p)" by (simp add: executed_def)
    moreover have "recv_state (conn (s p)) \<le> 2"
      using c messages_simps(5) [of "executed (s (other p))"] unfolding ctl_inv_def received_def by linarith
    moreover have "gone (s p) \<longleftrightarrow> send_state (conn (s p)) = 3 \<and> recv_state (conn (s p)) = 2"
      using c by (simp add: ctl_inv_def)
    ultimately show ?thesis unfolding progress_of_def by (cases "connected (conn (s p))") auto
  qed
  have g: "connected (conn (s p))" if "gone (s p)" for p
  proof -
    have "executed (s p) = 3" "received (s p) = 2" using gone_state [OF inv that] by simp_all
    then have "posted p (s p) \<noteq> 0" "recv_state (conn (s p)) \<ge> 1"
      using rinvD(1) [OF inv, of p] by (auto simp: ctl_inv_def)
    moreover have "p = Server \<and> recv_state (conn (s p)) \<ge> 1 \<longrightarrow> connected (conn (s p))"
      using rinvD(1) [OF inv, of p] unfolding ctl_inv_def by blast
    ultimately show ?thesis by (cases p) (auto simp: posted_def split: if_splits)
  qed
  show "progress s \<le> 18" using b [of Client] b [of Server] by (simp add: progress_def)
  show "progress s = 18 \<longleftrightarrow> gone (s Client) \<and> gone (s Server)"
    using b [of Client] b [of Server] g unfolding progress_def by auto
qed

interpretation rw: ending_protocol "rw_init m pid" "rstep m (rc_deliver m)" "rinv m pid"
    "\<lambda>s. 18 - progress s" "\<lambda>s. gone (s Client) \<and> gone (s Server)" for m pid
proof unfold_locales
  fix s t
  show "rw_init m pid s \<Longrightarrow> rinv m pid s" using rw_init_inv by blast
  show "rinv m pid s \<Longrightarrow> rstep m (rc_deliver m) s t \<Longrightarrow> rinv m pid t" using rstep_keeps by blast
  show "rinv m pid s \<Longrightarrow> rstep m (rc_deliver m) s t \<Longrightarrow> 18 - progress t < 18 - progress s"
  proof -
    assume s: "rinv m pid s" "rstep m (rc_deliver m) s t"
    then have "rinv m pid t" "progress t = Suc (progress s)" using rstep_keeps by blast+
    then show "18 - progress t < 18 - progress s" using progress_bound(1) [of m pid t] by linarith
  qed
  show "rinv m pid s \<Longrightarrow> \<not> (gone (s Client) \<and> gone (s Server)) \<Longrightarrow> \<exists>t. rstep m (rc_deliver m) s t"
    by (rule some_step [OF _ rc_adapter_self(2)])
  show "rinv m pid s \<Longrightarrow> gone (s Client) \<and> gone (s Server) \<Longrightarrow> 18 - progress s = 0"
    using progress_bound(2) [of m pid s] by simp
qed

lemma rstep_sub: "rc_adapter m wire \<Longrightarrow> rstep m wire s t \<Longrightarrow> rstep m (rc_deliver m) s t"
  by (erule lstep_mono) (simp add: rc_adapter_def)

lemma rstep_fair: "rc_fair m wire \<Longrightarrow> rstep m (rc_deliver m) s t \<Longrightarrow> \<exists>u. rstep m wire s u"
  unfolding lstep_iff rc_fair_def by blast

lemma run_progress:
  assumes "rc_adapter m wire" "rw_init m pid s" "(rstep m wire ^^ n) s t"
  shows "rinv m pid t \<and> progress t = n"
  using assms(3)
proof (induction n arbitrary: t)
  case 0
  then show ?case using rw_init_inv [OF assms(2)] by simp
next
  case (Suc n)
  then obtain u where u: "(rstep m wire ^^ n) s u" "rstep m wire u t" by auto
  then show ?case using rstep_keeps [OF _ rstep_sub [OF assms(1) u(2)]] Suc.IH [OF u(1)] by blast
qed

end
