(* ===== verification/RdmaRwRuns.thy ===== *)
theory RdmaRwRuns
  imports RdmaRwSafe
begin

text \<open>
  Particular runs of the RDMA read/write exchange: instances of its theorems, and two runs in which
  the programs go wrong, one because the completion of a request may be reported after the answer to
  it, one because the connection is destroyed while completions are waiting.
\<close>

datatype move = Establish peer | Poll peer | Deliver peer | Deliver_late peer | Ack peer

fun play :: "mode \<Rightarrow> move \<Rightarrow> link \<Rightarrow> link option" where
  "play m (Establish p) s = establish m p s"
| "play m (Poll p) s = poll_cq m p s"
| "play m (Deliver p) s = deliver m p s"
| "play m (Deliver_late p) s = deliver_late m p s"
| "play m (Ack p) s = ack p s"

fun play_all :: "mode \<Rightarrow> move list \<Rightarrow> link \<Rightarrow> link option" where
  "play_all m [] s = Some s"
| "play_all m (x # xs) s = Option.bind (play m x s) (play_all m xs)"

fun prompt :: "move \<Rightarrow> bool" where
  "prompt (Deliver_late _) = False" | "prompt (Ack _) = False" | "prompt _ = True"

fun late :: "move \<Rightarrow> bool" where
  "late (Deliver _) = False" | "late _ = True"

lemma play_prompt: "play m x s = Some t \<Longrightarrow> prompt x \<Longrightarrow> rstep m (rc_deliver m) s t"
  by (cases x) (auto simp: lstep_iff rc_deliver_def)

lemma play_late: "play m x s = Some t \<Longrightarrow> late x \<Longrightarrow> rstep m (rc_deliver_late m) s t"
  by (cases x) (auto simp: lstep_iff rc_deliver_late_def)

lemma play_all_prompt:
  "play_all m xs s = Some t \<Longrightarrow> list_all prompt xs \<Longrightarrow> (rstep m (rc_deliver m) ^^ length xs) s t"
proof (induction xs arbitrary: s)
  case (Cons x xs)
  then obtain u where "play m x s = Some u" "play_all m xs u = Some t" by (auto simp: bind_eq_Some_conv)
  then show ?case using Cons play_prompt [of m x s u] by (simp add: relpowp_Suc_I2 del: relpowp.simps)
qed simp

lemma play_all_late:
  "play_all m xs s = Some t \<Longrightarrow> list_all late xs \<Longrightarrow> reachable i (rstep m (rc_deliver_late m)) s
   \<Longrightarrow> reachable i (rstep m (rc_deliver_late m)) t"
proof (induction xs arbitrary: s)
  case (Cons x xs)
  then obtain u where "play m x s = Some u" "play_all m xs u = Some t" by (auto simp: bind_eq_Some_conv)
  then show ?case using Cons play_late [of m x s u] reachable.reach_step by fastforce
qed simp

text \<open>A state both sides can start in.\<close>

definition fresh :: connection where
  "fresh = \<lparr>connected = False, peer_mr = rdma_remote_mr M_WRITE, recv_msg = mr_message M_WRITE, send_msg = mr_message M_WRITE,
     rdma_local_region = replicate RDMA_BUFFER_SIZE NUL, rdma_remote_region = replicate RDMA_BUFFER_SIZE NUL,
     send_state = 0, recv_state = 0\<rparr>"

definition started :: "mode \<Rightarrow> (peer \<Rightarrow> nat) \<Rightarrow> link" where
  "started m pid p = the (start p m (pid p) fresh)"

lemma start_fresh:
  assumes "pid < 2 ^ 31"
  shows "\<exists>e. start p m pid fresh = Some e"
proof -
  have "length (greeting p pid) < RDMA_BUFFER_SIZE" using greeting_fits [OF assms, of p] by (simp add: RDMA_BUFFER_SIZE_def)
  then show ?thesis
    by (cases p; cases m) (simp_all add: start_def on_addr_resolved_def on_connect_request_def build_connection_calls
        c_sprintf_def get_local_message_region_def fresh_def)
qed

lemma rw_init_started: "\<forall>p. pid p < 2 ^ 31 \<Longrightarrow> rw_init m pid (started m pid)"
  unfolding rw_init_def started_def
proof
  fix p assume "\<forall>p. pid p < 2 ^ 31"
  then obtain e where "start p m (pid p) fresh = Some e" using start_fresh by blast
  moreover have "length (rdma_local_region fresh) = RDMA_BUFFER_SIZE" "length (rdma_remote_region fresh) = RDMA_BUFFER_SIZE"
    by (simp_all add: fresh_def)
  ultimately show "\<exists>mem. length (rdma_local_region mem) = RDMA_BUFFER_SIZE \<and> length (rdma_remote_region mem) = RDMA_BUFFER_SIZE \<and>
    start p m (pid p) mem = Some (the (start p m (pid p) fresh))" by (metis option.sel)
qed

lemma rw_init_pair:
  assumes "rw_init m pid s"
  obtains c x d y where "s = pair ((blank c)\<lparr>rq := 1, out := [x]\<rparr>) ((blank d)\<lparr>rq := 1, out := [y]\<rparr>)"
    "send_state c = 0" "recv_state c = 0" "\<not> connected c" "send_state d = 0" "recv_state d = 0" "\<not> connected d"
    "\<not> is_buffer_line x" "\<not> is_buffer_line y"
proof -
  have ex: "\<exists>c x. s p = (blank c)\<lparr>rq := 1, out := [x]\<rparr> \<and> send_state c = 0 \<and> recv_state c = 0 \<and> \<not> connected c \<and> \<not> is_buffer_line x" for p
  proof -
    obtain mem where m: "length (rdma_local_region mem) = RDMA_BUFFER_SIZE" "length (rdma_remote_region mem) = RDMA_BUFFER_SIZE"
      "start p m (pid p) mem = Some (s p)" using assms by (auto simp: rw_init_def)
    show ?thesis by (rule start_endpoint [OF m]) blast
  qed
  obtain c x where "s Client = (blank c)\<lparr>rq := 1, out := [x]\<rparr>" "send_state c = 0" "recv_state c = 0" "\<not> connected c" "\<not> is_buffer_line x"
    using ex [of Client] by blast
  moreover obtain d y where "s Server = (blank d)\<lparr>rq := 1, out := [y]\<rparr>" "send_state d = 0" "recv_state d = 0" "\<not> connected d" "\<not> is_buffer_line y"
    using ex [of Server] by blast
  ultimately show thesis using that pair_eta [of s] by metis
qed

definition late_run :: "move list" where
  "late_run =
     [Establish Client, Deliver_late Client, Establish Server, Poll Server, Deliver_late Server, Poll Client,
      Ack Server, Poll Server, Deliver_late Server, Deliver_late Server, Ack Server, Poll Server, Ack Server, Poll Server,
      Deliver_late Client, Poll Server]"

lemmas play_simps = establish_def poll_cq_def deliver_def deliver_late_def deliver_by_def deliver_late_by_def ack_def execute_def granted_def
  on_connect_def blank_def build_qp_attr_def rdma_request_def rdma_remote_mr_def reg_def get_peer_message_region_def

lemma late_play:
  assumes "send_state c = 0" "recv_state c = 0" "\<not> connected c" "send_state d = 0" "recv_state d = 0" "\<not> connected d"
    "\<not> is_buffer_line x" "\<not> is_buffer_line y"
  shows "\<exists>t. play_all M_WRITE late_run (pair ((blank c)\<lparr>rq := 1, out := [x]\<rparr>) ((blank d)\<lparr>rq := 1, out := [y]\<rparr>)) = Some t \<and>
    gone (t Server) \<and> filter is_buffer_line (out (t Server)) = [''remote buffer: '' @ c_string (rdma_remote_region d)]"
  using assms by (simp add: late_run_def play_simps on_completion_simps is_buffer_line_def)


text \<open>C39: If the completion of a request may be queued later than the answer to it, the exchange goes wrong:
  from every initial state there is a run in which the client, whose send has not completed when the
  answer arrives, sends its memory region a second time; the server takes the second one for the end,
  disconnects, and prints its buffer as it was before the connection.\<close>

theorem rw_late_completion_breaks:
  assumes "rw_init M_WRITE pid s"
  shows "\<exists>t. reachable (rw_init M_WRITE pid) (rstep M_WRITE (rc_deliver_late M_WRITE)) t \<and> gone (t Server) \<and>
    filter is_buffer_line (out (t Server)) = [''remote buffer: '' @ c_string (rdma_remote_region (conn (s Server)))]"
proof -
  obtain c x d y where s: "s = pair ((blank c)\<lparr>rq := 1, out := [x]\<rparr>) ((blank d)\<lparr>rq := 1, out := [y]\<rparr>)"
    and zero: "send_state c = 0" "recv_state c = 0" "\<not> connected c" "send_state d = 0" "recv_state d = 0" "\<not> connected d"
    "\<not> is_buffer_line x" "\<not> is_buffer_line y"
    by (rule rw_init_pair [OF assms])
  obtain t where t: "play_all M_WRITE late_run s = Some t" "gone (t Server)"
      "filter is_buffer_line (out (t Server)) = [''remote buffer: '' @ c_string (rdma_remote_region d)]"
    using late_play [OF zero] unfolding s by blast
  have "list_all late late_run" by (simp add: late_run_def)
  moreover have "reachable (rw_init M_WRITE pid) (rstep M_WRITE (rc_deliver_late M_WRITE)) s"
    by (rule reach_init [of "rw_init M_WRITE pid" s, OF assms])
  ultimately have "reachable (rw_init M_WRITE pid) (rstep M_WRITE (rc_deliver_late M_WRITE)) t"
    by (rule play_all_late [OF t(1)])
  then show ?thesis using t by (auto simp: s blank_def)
qed

theorem rw_late_completion_breaks_witness:
  "\<exists>t. reachable (rw_init M_WRITE (\<lambda>_. 7)) (rstep M_WRITE (rc_deliver_late M_WRITE)) t \<and> gone (t Server) \<and>
    filter is_buffer_line (out (t Server)) =
      [''remote buffer: '' @ c_string (rdma_remote_region (conn (started M_WRITE (\<lambda>_. 7) Server)))]"
  by (rule rw_late_completion_breaks [OF rw_init_started]) simp

definition early_end_run :: "move list" where
  "early_end_run =
     [Establish Client, Deliver Client, Establish Server, Poll Server, Deliver Server, Poll Client, Poll Client,
      Deliver Client, Poll Server, Deliver Server, Deliver Server, Deliver Client, Poll Client, Poll Client, Poll Client]"

lemma early_end_play:
  assumes "send_state c = 0" "recv_state c = 0" "\<not> connected c" "send_state d = 0" "recv_state d = 0" "\<not> connected d"
  shows "\<exists>t. play_all M_WRITE early_end_run (pair ((blank c)\<lparr>rq := 1, out := [x]\<rparr>) ((blank d)\<lparr>rq := 1, out := [y]\<rparr>)) = Some t \<and>
    gone (t Client) \<and> length (cq (t Server)) = 3 \<and> \<not> gone (t Server)"
  using assms by (simp add: early_end_run_def play_simps on_completion_simps)

lemma client_ends_first:
  assumes "rw_init M_WRITE pid s"
  shows "\<exists>t. reachable (rw_init M_WRITE pid) (rstep M_WRITE (rc_deliver M_WRITE)) t \<and> gone (t Client) \<and>
    length (cq (t Server)) = 3 \<and> \<not> gone (t Server)"
proof -
  obtain c x d y where s: "s = pair ((blank c)\<lparr>rq := 1, out := [x]\<rparr>) ((blank d)\<lparr>rq := 1, out := [y]\<rparr>)"
    and zero: "send_state c = 0" "recv_state c = 0" "\<not> connected c" "send_state d = 0" "recv_state d = 0" "\<not> connected d"
    by (rule rw_init_pair [OF assms])
  obtain t where t: "play_all M_WRITE early_end_run s = Some t" "gone (t Client)" "length (cq (t Server)) = 3" "\<not> gone (t Server)"
    using early_end_play [OF zero] unfolding s by blast
  have "list_all prompt early_end_run" by (simp add: early_end_run_def)
  then have "(rstep M_WRITE (rc_deliver M_WRITE))\<^sup>*\<^sup>* s t"
    using play_all_prompt [OF t(1)] relpowp_imp_rtranclp by fast
  then have "reachable (rw_init M_WRITE pid) (rstep M_WRITE (rc_deliver M_WRITE)) t"
    by (rule reachable_rtranclp [OF reach_init [of "rw_init M_WRITE pid", OF assms]])
  then show ?thesis using t by blast
qed

text \<open>Remark: When the client has disconnected, three completions may still be waiting at the server, each with
  the address of the connection in it, and the server has not printed; the handler of the disconnect
  event frees the connection without looking.\<close>

theorem rw_destroy_races:
  assumes "rw_init M_WRITE pid s"
  shows "\<exists>t. reachable (rw_init M_WRITE pid) (rstep M_WRITE (rc_deliver M_WRITE)) t \<and> gone (t Client) \<and>
    length (cq (t Server)) = 3 \<and> \<not> gone (t Server) \<and> Free_conn \<in> set (fst server_on_disconnect)"
  using client_ends_first [OF assms] by (auto simp: destroy_connection_def)

theorem rw_destroy_races_witness:
  "\<exists>t. reachable (rw_init M_WRITE (\<lambda>_. 7)) (rstep M_WRITE (rc_deliver M_WRITE)) t \<and> gone (t Client) \<and>
    length (cq (t Server)) = 3 \<and> \<not> gone (t Server) \<and> Free_conn \<in> set (fst server_on_disconnect)"
  by (rule rw_destroy_races [OF rw_init_started]) simp

subsection \<open>The exchange\<close>

lemma started_reachable:
  "reachable (rw_init m (\<lambda>_. 7)) (rstep m (rc_deliver m)) (started m (\<lambda>_. 7))"
proof (rule reach_init)
  show "rw_init m (\<lambda>_. 7) (started m (\<lambda>_. 7))" by (rule rw_init_started) simp
qed



text \<open>Remark: When a side disconnects, no request of either side is waiting and no posted receive is left that the
  disconnect would complete with an error.\<close>

theorem rw_clean_disconnect:
  assumes "rc_adapter m wire" "reachable (rw_init m pid) (rstep m wire) s" "gone (s p)"
  shows "sq (s q) = [] \<and> rq (s q) = 0"
proof -
  note inv = wire_reachable [OF assms(1,2)]
  note g = gone_state [OF inv assms(3)]
  have "q = p \<or> q = other p" by (cases p; cases q) auto
  then show ?thesis
    using drained [OF rinvD(1) [OF inv] g(1,3)] drained [OF rinvD(4) [OF inv] g(2,4)] by auto
qed

theorem rw_clean_disconnect_witness:
  "\<exists>t :: link. gone (t Client) \<and> sq (t Server) = [] \<and> rq (t Server) = 0"
proof -
  have "rw_init M_WRITE (\<lambda>_. 7) (started M_WRITE (\<lambda>_. 7))" by (rule rw_init_started) simp
  then obtain t where t: "reachable (rw_init M_WRITE (\<lambda>_. 7)) (rstep M_WRITE (rc_deliver M_WRITE)) t" "gone (t Client)"
    using client_ends_first by blast
  then show ?thesis using rw_clean_disconnect [OF rc_adapter_self(1) t, of Server] by blast
qed



subsection \<open>Resources\<close>

text \<open>Remark: A client from its start to its end, and a server over any number of connections one after the
  other, give back every region, registration, queue pair and connection they acquired, exactly once.\<close>

theorem rw_resources_balanced:
  assumes "main_client [a, addr, port] v pid mem (map (\<lambda>e. (e, cid)) (life Client)) = Some cs"
    and "main_server [a] n v pid' mem' (concat (map (\<lambda>c. map (\<lambda>e. (e, c)) (life Server)) ids)) = Some ds"
  shows "acquired cs = released cs \<and> acquired ds = released ds"
  using main_resources [OF assms(1)] main_server_resources [OF assms(2)] by blast

lemma main_runs:
  "\<exists>cs. main_client [''read'', a, b] 0 7 (\<lambda>_. fresh) (map (\<lambda>e. (e, 1)) (life Client)) = Some cs \<and> cs \<noteq> []"
  "\<exists>ds. main_server [''read''] n 0 7 (\<lambda>_. fresh) (concat (map (\<lambda>c. map (\<lambda>e. (e, c)) (life Server)) [1, 2])) = Some ds \<and> ds \<noteq> []"
proof -
  have "length (greeting p 7) < RDMA_BUFFER_SIZE" for p
    using greeting_fits [of 7 p] by (simp add: RDMA_BUFFER_SIZE_def)
  then obtain r where r: "c_sprintf (get_local_message_region M_READ (fresh\<lparr>send_state := SS_INIT, recv_state := RS_INIT, connected := False\<rparr>)) (greeting p 7) = Some (r p)" for p
    by (simp add: c_sprintf_def get_local_message_region_def fresh_def)
  show "\<exists>cs. main_client [''read'', a, b] 0 7 (\<lambda>_. fresh) (map (\<lambda>e. (e, 1)) (life Client)) = Some cs \<and> cs \<noteq> []"
    using r [of Client] by (simp add: main_client_def mode_of_arg_def handle_def on_addr_resolved_def build_connection_def build_context_def
        send_mr_def send_message_def on_connect_def Let_def)
  show "\<exists>ds. main_server [''read''] n 0 7 (\<lambda>_. fresh) (concat (map (\<lambda>c. map (\<lambda>e. (e, c)) (life Server)) [1, 2])) = Some ds \<and> ds \<noteq> []"
    using r [of Server] by (simp add: main_server_def mode_of_arg_def handle_def on_connect_request_def build_connection_def build_context_def
        on_connect_def Let_def)
qed

theorem rw_resources_balanced_witness:
  "\<exists>cs ds. cs \<noteq> [] \<and> ds \<noteq> [] \<and> acquired (cs :: region call list) = released cs \<and> acquired (ds :: region call list) = released ds"
proof -
  obtain cs ds where "main_client [''read'', [], []] 0 7 (\<lambda>_. fresh) (map (\<lambda>e. (e, 1)) (life Client)) = Some cs" "cs \<noteq> []"
    "main_server [''read''] 9 0 7 (\<lambda>_. fresh) (concat (map (\<lambda>c. map (\<lambda>e. (e, c)) (life Server)) [1, 2])) = Some ds" "ds \<noteq> []"
    using main_runs(1) [of "[]" "[]"] main_runs(2) [of 9] by blast
  then show ?thesis using rw_resources_balanced [of "''read''" "[]" "[]" 0 7 "\<lambda>_. fresh" 1 cs 9 7 "\<lambda>_. fresh" "[1, 2]" ds] by blast
qed

end
