(* ===== verification/RdmaBasic.thy ===== *)
theory RdmaBasic
  imports Link
begin

text \<open>
  The basic client and server (\<open>src/rdma/01_basic-client-server\<close>): each sends the other one message
  when the connection is established; the client disconnects after two completions. The two sides
  run together against a transport that may report completions late. The connection is made with a
  retry count of zero, so a send that finds no receive fails.
\<close>

subsection \<open>client.c and server.c: operations\<close>

datatype bregion = Send_region | Recv_region

record bconnection =
  recv_region :: string
  send_region :: string
  num_completions :: nat

definition BUFFER_SIZE :: nat where "BUFFER_SIZE = 1024"

definition b_register_memory :: "bregion call list" where
  "b_register_memory =
     [Alloc Send_region BUFFER_SIZE, Alloc Recv_region BUFFER_SIZE,
      Reg_mr Send_region BUFFER_SIZE \<lparr>mr_addr = Send_region, mr_rkey = Send_region, mr_remote_write = True, mr_remote_read = False\<rparr>,
      Reg_mr Recv_region BUFFER_SIZE \<lparr>mr_addr = Recv_region, mr_rkey = Recv_region, mr_remote_write = True, mr_remote_read = False\<rparr>]"

definition b_post_receives :: "bregion call list" where
  "b_post_receives = [Post_recv (Some (Recv_region, BUFFER_SIZE))]"

text \<open>Connection parameters after \<open>memset(&cm_params, 0, sizeof(cm_params))\<close>.\<close>

definition zero_params :: conn_param where
  "zero_params = \<lparr>initiator_depth = 0, responder_resources = 0, rnr_retry_count = 0\<rparr>"

definition b_on_addr_resolved :: "nat option \<Rightarrow> nat \<Rightarrow> bconnection \<Rightarrow> nat option \<times> bconnection \<times> bregion call list" where
  "b_on_addr_resolved s_ctx verbs mem =
     (let (s_ctx, cs) = build_context s_ctx verbs
      in (s_ctx, mem\<lparr>num_completions := 0\<rparr>,
          [Print ''address resolved.''] @ cs @ [Create_qp build_qp_attr, Alloc_conn] @ b_register_memory @ b_post_receives @ [Resolve_route]))"

definition b_on_connect_request :: "nat option \<Rightarrow> nat \<Rightarrow> bconnection \<Rightarrow> nat option \<times> bconnection \<times> bregion call list" where
  "b_on_connect_request s_ctx verbs mem =
     (let (s_ctx, cs) = build_context s_ctx verbs
      in (s_ctx, mem,
          [Print ''received connection request.''] @ cs @ [Create_qp build_qp_attr, Alloc_conn] @ b_register_memory @ b_post_receives
            @ [Accept zero_params]))"

definition b_on_route_resolved :: "bregion call list" where
  "b_on_route_resolved = [Print ''route resolved.'', Connect zero_params]"

text \<open>\<open>snprintf\<close>: at most \<open>n - 1\<close> characters and the end of the string.\<close>

definition c_snprintf :: "string \<Rightarrow> nat \<Rightarrow> string \<Rightarrow> string" where
  "c_snprintf region n s = overwrite region 0 (take (n - 1) s @ [NUL])"

definition b_send_request :: "bregion call" where
  "b_send_request =
     Post_send \<lparr>wr_opcode = WR_SEND, wr_sge = Some (Send_region, BUFFER_SIZE), wr_imm_data = 0,
                wr_remote_addr = None, wr_rkey = None\<rparr>"

definition b_client_on_connection :: "nat \<Rightarrow> bconnection \<Rightarrow> bconnection \<times> bregion call list" where
  "b_client_on_connection pid c =
     (c\<lparr>send_region := c_snprintf (send_region c) BUFFER_SIZE (greeting Client pid)\<rparr>,
      [Print ''connected. posting send...'', b_send_request])"

definition b_server_on_connection :: "nat \<Rightarrow> bconnection \<Rightarrow> bconnection \<times> bregion call list" where
  "b_server_on_connection pid c =
     (c\<lparr>send_region := c_snprintf (send_region c) BUFFER_SIZE (greeting Server pid)\<rparr>,
      [Print ''connected. posting send...'', b_send_request])"

text \<open>\<open>on_completion\<close>: the client counts, and refuses other kinds of completions.\<close>

definition count_completion :: "bconnection \<Rightarrow> bconnection \<times> bregion call list" where
  "count_completion c =
     (let c = c\<lparr>num_completions := num_completions c + 1\<rparr>
      in (c, if num_completions c = 2 then [Disconnect] else []))"

definition b_client_on_completion :: "wc \<Rightarrow> bconnection \<Rightarrow> bconnection \<times> bregion call list" where
  "b_client_on_completion wc c =
     (if \<not> wc_success wc then (c, [Exit ''on_completion: status is not IBV_WC_SUCCESS.''])
      else if is_recv (wc_opcode wc) then
        (let (d, cs) = count_completion c in (d, Print (''received message: '' @ c_string (recv_region c)) # cs))
      else if wc_opcode wc = WC_SEND then
        (let (d, cs) = count_completion c in (d, Print ''send completed successfully.'' # cs))
      else (c, [Exit ''on_completion: completion isn't a send or a receive.'']))"

definition b_server_on_completion :: "wc \<Rightarrow> bconnection \<Rightarrow> bconnection \<times> bregion call list" where
  "b_server_on_completion wc c =
     (if \<not> wc_success wc then (c, [Exit ''on_completion: status is not IBV_WC_SUCCESS.''])
      else if is_recv (wc_opcode wc) then (c, [Print (''received message: '' @ c_string (recv_region c))])
      else if wc_opcode wc = WC_SEND then (c, [Print ''send completed successfully.''])
      else (c, []))"

definition b_destroy :: "bregion call list" where
  "b_destroy = [Destroy_qp, Dereg_mr Send_region, Dereg_mr Recv_region, Free Send_region, Free Recv_region, Free_conn, Destroy_id]"

definition b_client_on_disconnect :: "bregion call list \<times> bool" where
  "b_client_on_disconnect = (Print ''disconnected.'' # b_destroy, True)"

definition b_server_on_disconnect :: "bregion call list \<times> bool" where
  "b_server_on_disconnect = (Print ''peer disconnected.'' # b_destroy, False)"

text \<open>\<open>on_event\<close>: the static context, the connection (\<open>None\<close> when it is gone), the calls, and whether the
  event loop ends.\<close>

fun b_client_on_event :: "nat \<Rightarrow> nat \<Rightarrow> bconnection \<Rightarrow> cm_event \<Rightarrow> nat option \<Rightarrow> bconnection
    \<Rightarrow> nat option \<times> bconnection option \<times> bregion call list \<times> bool" where
  "b_client_on_event verbs pid mem ADDR_RESOLVED s_ctx c =
     (let (x, d, cs) = b_on_addr_resolved s_ctx verbs mem in (x, Some d, cs, False))"
| "b_client_on_event verbs pid mem ROUTE_RESOLVED s_ctx c = (s_ctx, Some c, b_on_route_resolved, False)"
| "b_client_on_event verbs pid mem ESTABLISHED s_ctx c =
     (let (d, cs) = b_client_on_connection pid c in (s_ctx, Some d, cs, False))"
| "b_client_on_event verbs pid mem DISCONNECTED s_ctx c =
     (let (cs, stop) = b_client_on_disconnect in (s_ctx, None, cs, stop))"
| "b_client_on_event verbs pid mem _ s_ctx c = (s_ctx, Some c, [Exit ''on_event: unknown event.''], False)"

fun b_server_on_event :: "nat \<Rightarrow> nat \<Rightarrow> bconnection \<Rightarrow> cm_event \<Rightarrow> nat option \<Rightarrow> bconnection
    \<Rightarrow> nat option \<times> bconnection option \<times> bregion call list \<times> bool" where
  "b_server_on_event verbs pid mem CONNECT_REQUEST s_ctx c =
     (let (x, d, cs) = b_on_connect_request s_ctx verbs mem in (x, Some d, cs, False))"
| "b_server_on_event verbs pid mem ESTABLISHED s_ctx c =
     (let (d, cs) = b_server_on_connection pid c in (s_ctx, Some d, cs, False))"
| "b_server_on_event verbs pid mem DISCONNECTED s_ctx c =
     (let (cs, stop) = b_server_on_disconnect in (s_ctx, None, cs, stop))"
| "b_server_on_event verbs pid mem _ s_ctx c = (s_ctx, Some c, [Exit ''on_event: unknown event.''], False)"

text \<open>The program of a side.\<close>

fun b_on_completion :: "peer \<Rightarrow> wc \<Rightarrow> bconnection \<Rightarrow> bconnection \<times> bregion call list" where
  "b_on_completion Client = b_client_on_completion"
| "b_on_completion Server = b_server_on_completion"

fun b_on_event :: "peer \<Rightarrow> nat \<Rightarrow> nat \<Rightarrow> bconnection \<Rightarrow> cm_event \<Rightarrow> nat option \<Rightarrow> bconnection
    \<Rightarrow> nat option \<times> bconnection option \<times> bregion call list \<times> bool" where
  "b_on_event Client = b_client_on_event"
| "b_on_event Server = b_server_on_event"

subsection \<open>main\<close>

definition b_handle :: "peer \<Rightarrow> nat \<Rightarrow> nat \<Rightarrow> (nat \<Rightarrow> bconnection) \<Rightarrow> cm_event \<times> nat \<Rightarrow> nat option \<times> (nat \<rightharpoonup> bconnection)
    \<Rightarrow> ((nat option \<times> (nat \<rightharpoonup> bconnection)) \<times> bregion call list \<times> bool) option" where
  "b_handle p verbs pid mem ev st =
     (case (ev, st) of ((e, cid), (s_ctx, conns)) \<Rightarrow>
       let (s_ctx, c, cs, stop) = b_on_event p verbs pid (mem cid) e s_ctx (case conns cid of Some c \<Rightarrow> c | None \<Rightarrow> mem cid)
       in Some ((s_ctx, conns(cid := c)), cs, stop))"

definition b_main_client :: "string list \<Rightarrow> nat \<Rightarrow> nat \<Rightarrow> (nat \<Rightarrow> bconnection) \<Rightarrow> (cm_event \<times> nat) list \<Rightarrow> (bregion call list) option" where
  "b_main_client argv verbs pid mem events =
     (if length argv \<noteq> 2 then Some [Exit ''usage: client <server-address> <server-port>'']
      else do {
        (s, cs) \<leftarrow> event_loop (b_handle Client verbs pid mem) events (None, Map.empty);
        Some ([Getaddrinfo (argv ! 0) (argv ! 1), Create_event_channel, Create_id, Resolve_addr 500] @ cs @ [Destroy_event_channel]) })"

definition b_main_server :: "nat \<Rightarrow> nat \<Rightarrow> nat \<Rightarrow> (nat \<Rightarrow> bconnection) \<Rightarrow> (cm_event \<times> nat) list \<Rightarrow> (bregion call list) option" where
  "b_main_server port verbs pid mem events =
     do {
       (s, cs) \<leftarrow> event_loop (b_handle Server verbs pid mem) events (None, Map.empty);
       Some ([Create_event_channel, Create_id, Bind_addr, Listen 10, Print (''listening on port '' @ decimal port @ ''.'')] @ cs @
             [Destroy_id, Destroy_event_channel]) }"

subsection \<open>The two sides together\<close>

type_synonym b_endpoint = "(bconnection, bregion) event_endpoint"
type_synonym b_link = "peer \<Rightarrow> b_endpoint"

definition b_blank :: "bconnection \<Rightarrow> b_endpoint" where
  "b_blank c = \<lparr>conn = c, sq = [], rq = 0, cq = [], unacked = [], out = [], gone = False, exited = False, established = False\<rparr>"

definition b_start :: "peer \<Rightarrow> nat \<Rightarrow> bconnection \<Rightarrow> b_endpoint option" where
  "b_start p pid mem =
     (let (x, c, cs, b) = b_on_event p 0 pid mem (case p of Client \<Rightarrow> ADDR_RESOLVED | Server \<Rightarrow> CONNECT_REQUEST) None mem
      in do { c \<leftarrow> c; Some (do_calls cs (b_blank c)) })"

definition b_init :: "(peer \<Rightarrow> nat) \<Rightarrow> b_link \<Rightarrow> bool" where
  "b_init pid s \<longleftrightarrow>
     (\<forall>p. \<exists>mem. length (recv_region mem) = BUFFER_SIZE \<and> length (send_region mem) = BUFFER_SIZE \<and>
        b_start p (pid p) mem = Some (s p))"

text \<open>A send takes a receive of the peer and copies the buffer; without a receive it fails.\<close>

definition b_execute :: "bregion wr \<Rightarrow> b_endpoint \<Rightarrow> b_endpoint \<Rightarrow> (bool \<times> b_endpoint \<times> b_endpoint) option" where
  "b_execute w a b =
     (if wr_opcode w \<noteq> WR_SEND \<or> rq b = 0 then Some (False, a, b)
      else Some (True, a,
        b\<lparr>rq := rq b - 1, cq := cq b @ [\<lparr>wc_success = True, wc_opcode = WC_RECV, wc_imm = 0\<rparr>],
          conn := (conn b)\<lparr>recv_region := overwrite (recv_region (conn b)) 0 (send_region (conn a))\<rparr>\<rparr>))"

definition b_wire :: "b_link \<Rightarrow> b_link \<Rightarrow> bool" where
  "b_wire s t \<longleftrightarrow> (\<exists>q. deliver_by b_execute q s = Some t \<or> deliver_late_by b_execute q s = Some t \<or> ack q s = Some t)"

definition b_establish :: "(peer \<Rightarrow> nat) \<Rightarrow> peer \<Rightarrow> b_link \<Rightarrow> b_link option" where
  "b_establish pid p s =
     (if established (s p) \<or> exited (s p) then None
      else let (x, c, cs, b) = b_on_event p 0 (pid p) (conn (s p)) ESTABLISHED None (conn (s p))
      in do { c \<leftarrow> c; Some (s(p := do_calls cs ((s p)\<lparr>conn := c, established := True\<rparr>))) })"

definition b_poll :: "peer \<Rightarrow> b_link \<Rightarrow> b_link option" where
  "b_poll p s =
     (if exited (s p) then None
      else case cq (s p) of [] \<Rightarrow> None
      | w # ws \<Rightarrow> (let (c, cs) = b_on_completion p w (conn (s p)) in Some (s(p := do_calls cs ((s p)\<lparr>conn := c, cq := ws\<rparr>)))))"

abbreviation b_step :: "(peer \<Rightarrow> nat) \<Rightarrow> (b_link \<Rightarrow> b_link \<Rightarrow> bool) \<Rightarrow> b_link \<Rightarrow> b_link \<Rightarrow> bool" where
  "b_step pid \<equiv> lstep (b_establish pid) b_poll"

end
