(* ===== verification/RdmaBasicSafe.thy ===== *)
theory RdmaBasicSafe
  imports RdmaBasic
begin

text \<open>
  The basic RDMA client and server together: an invariant of the exchange, and what follows from it.
\<close>

subsection \<open>Invariant\<close>

definition b_wr :: "bregion wr" where
  "b_wr = \<lparr>wr_opcode = WR_SEND, wr_sge = Some (Send_region, BUFFER_SIZE), wr_imm_data = 0, wr_remote_addr = None, wr_rkey = None\<rparr>"

definition delivered :: "b_endpoint \<Rightarrow> bool" where
  "delivered e \<longleftrightarrow> established e \<and> sq e = []"

definition is_message_line :: "string \<Rightarrow> bool" where
  "is_message_line x \<longleftrightarrow> take 17 x = ''received message:''"

definition ok_wc :: "wc \<Rightarrow> bool" where
  "ok_wc w \<longleftrightarrow> wc_success w \<and> (wc_opcode w = WC_SEND \<or> wc_opcode w = WC_RECV)"

text \<open>Requests: at most one, posted by the event; completions of the send and of the receive, at most
  one each.\<close>

definition b_ctl :: "peer \<Rightarrow> b_endpoint \<Rightarrow> b_endpoint \<Rightarrow> bool" where
  "b_ctl p e f \<longleftrightarrow>
     \<not> exited e \<and> (sq e = [] \<or> established e \<and> sq e = [b_wr]) \<and>
     list_all ok_wc (cq e @ unacked e) \<and> recvs (unacked e) = 0 \<and>
     sends (cq e @ unacked e) \<le> of_bool (delivered e) \<and> recvs (cq e) \<le> of_bool (delivered f) \<and>
     rq e = of_bool (\<not> delivered f) \<and>
     (p = Client \<longrightarrow> num_completions (conn e) + sends (cq e @ unacked e) + recvs (cq e) = of_bool (delivered e) + of_bool (delivered f)) \<and>
     (gone e \<longleftrightarrow> p = Client \<and> num_completions (conn e) = 2)"

definition b_mem :: "(peer \<Rightarrow> nat) \<Rightarrow> peer \<Rightarrow> b_endpoint \<Rightarrow> b_endpoint \<Rightarrow> bool" where
  "b_mem pid p e f \<longleftrightarrow>
     length (recv_region (conn e)) = BUFFER_SIZE \<and> length (send_region (conn e)) = BUFFER_SIZE \<and>
     (established e \<longrightarrow> c_string (send_region (conn e)) = greeting p (pid p)) \<and>
     (delivered f \<longrightarrow> c_string (recv_region (conn e)) = greeting (other p) (pid (other p))) \<and>
     filter is_message_line (out e) =
       (if delivered f \<and> recvs (cq e) = 0 then [''received message: '' @ greeting (other p) (pid (other p))] else [])"

definition b_inv :: "(peer \<Rightarrow> nat) \<Rightarrow> b_link \<Rightarrow> bool" where
  "b_inv pid s \<longleftrightarrow> (\<forall>p. b_ctl p (s p) (s (other p)) \<and> b_mem pid p (s p) (s (other p)))"

text \<open>Steps that are left: six for a side that is not established, and so on.\<close>

definition b_left1 :: "b_endpoint \<Rightarrow> nat" where
  "b_left1 e = (if established e then 0 else 6) + 5 * length (sq e) + 2 * length (unacked e) + length (cq e)"

definition b_left :: "b_link \<Rightarrow> nat" where
  "b_left s = b_left1 (s Client) + b_left1 (s Server)"

lemma b_left_split: "b_left s = b_left1 (s p) + b_left1 (s (other p))"
  by (cases p) (simp_all add: b_left_def)

lemma b_invD:
  assumes "b_inv pid s"
  shows "b_ctl p (s p) (s (other p))" "b_mem pid p (s p) (s (other p))"
    "b_ctl (other p) (s (other p)) (s p)" "b_mem pid (other p) (s (other p)) (s p)"
proof -
  have "b_ctl q (s q) (s (other q)) \<and> b_mem pid q (s q) (s (other q))" for q using assms by (simp add: b_inv_def)
  from this [of p] this [of "other p"] show "b_ctl p (s p) (s (other p))" "b_mem pid p (s p) (s (other p))"
    "b_ctl (other p) (s (other p)) (s p)" "b_mem pid (other p) (s (other p)) (s p)" by simp_all
qed

lemma b_inv_both:
  assumes "b_ctl q e f \<and> b_mem pid q e f \<and> b_ctl (other q) f e \<and> b_mem pid (other q) f e"
  shows "b_inv pid (s(q := e, other q := f))"
  unfolding b_inv_def
proof
  fix p
  have "p = q \<or> p = other q" by (cases p; cases q) auto
  then show "b_ctl p ((s(q := e, other q := f)) p) ((s(q := e, other q := f)) (other p)) \<and>
      b_mem pid p ((s(q := e, other q := f)) p) ((s(q := e, other q := f)) (other p))"
    using assms by auto
qed

lemma b_peer_kept:
  assumes "delivered e' = delivered e"
  shows "b_ctl p f e' = b_ctl p f e" "b_mem pid p f e' = b_mem pid p f e"
  using assms by (simp_all add: b_ctl_def b_mem_def)

lemma b_inv_local:
  assumes "b_inv pid s" "b_ctl p e' (s (other p))" "b_mem pid p e' (s (other p))" "delivered e' = delivered (s p)"
  shows "b_inv pid (s(p := e'))"
proof -
  have "s(p := e') = s(p := e', other p := s (other p))" by (rule ext) simp
  then show ?thesis
    using b_inv_both [of p e' "s (other p)" pid s] assms b_invD(3,4) [OF assms(1), of p] b_peer_kept [OF assms(4)]
    by simp
qed

lemma snprintf_greeting:
  assumes "length r = BUFFER_SIZE" "pid < 2 ^ 31"
  shows "c_string (c_snprintf r BUFFER_SIZE (greeting p pid)) = greeting p pid"
    "length (c_snprintf r BUFFER_SIZE (greeting p pid)) = BUFFER_SIZE"
proof -
  have l: "length (greeting p pid) < 64" using assms(2) by (rule greeting_fits)
  then have eq: "c_snprintf r BUFFER_SIZE (greeting p pid) = overwrite r 0 (greeting p pid @ [NUL])"
    by (simp add: c_snprintf_def BUFFER_SIZE_def)
  have "c_sprintf r (greeting p pid) = Some (overwrite r 0 (greeting p pid @ [NUL]))"
    using l assms(1) by (simp add: c_sprintf_def BUFFER_SIZE_def)
  from c_string_sprintf [OF this greeting_no_NUL]
  show "c_string (c_snprintf r BUFFER_SIZE (greeting p pid)) = greeting p pid"
    "length (c_snprintf r BUFFER_SIZE (greeting p pid)) = BUFFER_SIZE"
    using assms(1) by (simp_all add: eq)
qed

lemma b_establish_step:
  assumes inv: "b_inv pid s" and pids: "\<forall>p. pid p < 2 ^ 31" and st: "b_establish pid p s = Some t"
  shows "b_inv pid t \<and> b_left t < b_left s"
proof -
  let ?e = "s p"
  note c = b_invD(1) [OF inv, of p] and d = b_invD(2) [OF inv, of p]
  have new: "\<not> established ?e" "\<not> exited ?e" using st by (auto simp: b_establish_def split: if_splits)
  have z: "sq ?e = []" "sends (cq ?e @ unacked ?e) = 0" "\<not> delivered ?e"
    using c new by (simp_all add: b_ctl_def delivered_def)
  let ?r = "c_snprintf (send_region (conn ?e)) BUFFER_SIZE (greeting p (pid p))"
  define e' where "e' = ?e\<lparr>conn := (conn ?e)\<lparr>send_region := ?r\<rparr>, established := True, sq := [b_wr], out := out ?e @ [''connected. posting send...'']\<rparr>"
  have t: "t = s(p := e')"
    using st new z by (cases p) (auto simp: b_establish_def b_client_on_connection_def b_server_on_connection_def b_send_request_def build_qp_attr_def b_wr_def e'_def)
  have r: "c_string ?r = greeting p (pid p)" "length ?r = BUFFER_SIZE"
    using snprintf_greeting [of "send_region (conn ?e)" "pid p"] d pids by (simp_all add: b_mem_def)
  have dl: "delivered e' = delivered ?e" using z by (simp add: e'_def delivered_def)
  have "b_ctl p e' (s (other p))" using c z new unfolding b_ctl_def dl by (simp add: e'_def)
  moreover have "b_mem pid p e' (s (other p))" using d r new unfolding b_mem_def by (simp add: e'_def is_message_line_def)
  ultimately have "b_inv pid t" unfolding t using b_inv_local [OF inv] dl by blast
  moreover have "b_left1 e' < b_left1 ?e" using new z by (simp add: b_left1_def e'_def)
  then have "b_left t < b_left s" by (simp add: b_left_split [of _ p] t)
  ultimately show ?thesis by blast
qed


lemma b_poll_effect:
  assumes c: "b_ctl p e f" and cq: "cq e = w # ws" and h: "b_on_completion p w (conn e) = (c, cs)"
  shows "ok_wc w" "do_calls cs (e\<lparr>conn := c, cq := ws\<rparr>) =
    e\<lparr>conn := (if p = Client then (conn e)\<lparr>num_completions := Suc (num_completions (conn e))\<rparr> else conn e), cq := ws,
      gone := (p = Client \<and> num_completions (conn e) = 1),
      out := out e @ [if is_recv (wc_opcode w) then ''received message: '' @ c_string (recv_region (conn e))
                      else ''send completed successfully.'']\<rparr>"
proof -
  show ok: "ok_wc w" using c cq by (simp add: b_ctl_def)
  have n: "p = Client \<Longrightarrow> num_completions (conn e) \<le> 1 \<and> \<not> gone e" "p = Server \<Longrightarrow> \<not> gone e" "\<not> exited e"
    using c cq by (cases "is_recv (wc_opcode w)"; auto simp: b_ctl_def of_bool_def split: if_splits)+
  show "do_calls cs (e\<lparr>conn := c, cq := ws\<rparr>) =
    e\<lparr>conn := (if p = Client then (conn e)\<lparr>num_completions := Suc (num_completions (conn e))\<rparr> else conn e), cq := ws,
      gone := (p = Client \<and> num_completions (conn e) = 1),
      out := out e @ [if is_recv (wc_opcode w) then ''received message: '' @ c_string (recv_region (conn e))
                      else ''send completed successfully.'']\<rparr>"
  proof (cases p)
    case Client
    then show ?thesis using h ok n
      by (cases "num_completions (conn e) = 1") (auto simp: ok_wc_def count_completion_def b_client_on_completion_def)
  next
    case Server
    then show ?thesis using h ok n by (auto simp: ok_wc_def b_server_on_completion_def)
  qed
qed

lemma b_poll_step:
  assumes inv: "b_inv pid s" and st: "b_poll p s = Some t"
  shows "b_inv pid t \<and> b_left t < b_left s"
proof -
  let ?e = "s p" and ?f = "s (other p)"
  note c = b_invD(1) [OF inv, of p] and d = b_invD(2) [OF inv, of p]
  obtain w ws where cq: "cq ?e = w # ws" using st by (auto simp: b_poll_def split: if_splits list.splits)
  obtain k cs where h: "b_on_completion p w (conn ?e) = (k, cs)" by fastforce
  define e' where "e' = do_calls cs (?e\<lparr>conn := k, cq := ws\<rparr>)"
  have t: "t = s(p := e')" using st cq h by (simp add: b_poll_def e'_def split: if_splits)
  note ok = b_poll_effect(1) [OF c cq h] and eff = b_poll_effect(2) [OF c cq h, folded e'_def]
  have f: "established e' = established ?e" "sq e' = sq ?e" "rq e' = rq ?e" "cq e' = ws" "unacked e' = unacked ?e" "exited e' = exited ?e"
    "recv_region (conn e') = recv_region (conn ?e)" "send_region (conn e') = send_region (conn ?e)"
    by (simp_all add: eff)
  have dl: "delivered e' = delivered ?e" by (simp add: f delivered_def)
  have one: "sends (cq ?e @ unacked ?e) \<le> of_bool (delivered ?e)" "recvs (cq ?e) \<le> of_bool (delivered ?f)"
    using c unfolding b_ctl_def by blast+
  have l: "list_all ok_wc ws" using c cq by (simp add: b_ctl_def)
  have b1: "b_ctl p e' ?f"
  proof (cases "is_recv (wc_opcode w)")
    case True
    then have "sends (cq ?e) = sends ws" "recvs (cq ?e) = Suc (recvs ws)" using cq by simp_all
    then show ?thesis
      using c l one unfolding b_ctl_def f dl by (auto simp: eff)
  next
    case False
    then have "sends (cq ?e) = Suc (sends ws)" "recvs (cq ?e) = recvs ws" using cq by simp_all
    then show ?thesis
      using c l one unfolding b_ctl_def f dl by (auto simp: eff)
  qed
  have b2: "b_mem pid p e' ?f"
  proof (cases "is_recv (wc_opcode w)")
    case True
    then have "recvs (cq ?e) = 1" "recvs ws = 0" "delivered ?f"
      using cq one(2) by (auto simp: of_bool_def split: if_splits)
    then show ?thesis using d True unfolding b_mem_def f by (simp add: eff is_message_line_def)
  next
    case False
    then have "recvs ws = recvs (cq ?e)" using cq by simp
    then show ?thesis using d False unfolding b_mem_def f by (simp add: eff is_message_line_def)
  qed
  have "b_inv pid t" unfolding t by (rule b_inv_local [OF inv b1 b2 dl])
  moreover have "b_left1 e' < b_left1 ?e" using cq by (simp add: b_left1_def f)
  then have "b_left t < b_left s" by (simp add: b_left_split [of _ p] t)
  ultimately show ?thesis by blast
qed


text \<open>The transport takes the send of a side that is established and has not been delivered; then the
  peer's receive is still there.\<close>

lemma b_deliver_keeps:
  assumes e: "b_ctl q e f" "b_mem pid q e f" and f: "b_ctl (other q) f e" "b_mem pid (other q) f e"
    and sq: "sq e = w # ws" and ex: "b_execute w e f = Some (ok, a, f')"
    and e': "e' = a\<lparr>sq := ws, cq := cq a @ xs, unacked := unacked a @ ys\<rparr>"
    and xy: "xs @ ys = [\<lparr>wc_success = ok, wc_opcode = completion_of (wr_opcode w), wc_imm = 0\<rparr>]"
  shows "b_ctl q e' f' \<and> b_mem pid q e' f' \<and> b_ctl (other q) f' e' \<and> b_mem pid (other q) f' e'"
    "b_left1 e' + b_left1 f' < b_left1 e + b_left1 f" "rq f \<noteq> 0" "ok"
proof -
  have w: "w = b_wr" "ws = []" "established e" "\<not> delivered e" using e(1) sq by (auto simp: b_ctl_def delivered_def)
  have rq: "rq f = 1" using f(1) w(4) by (simp add: b_ctl_def)
  then show "rq f \<noteq> 0" by simp
  have r: "ok" "a = e" "f' = f\<lparr>rq := 0, cq := cq f @ [\<lparr>wc_success = True, wc_opcode = WC_RECV, wc_imm = 0\<rparr>],
          conn := (conn f)\<lparr>recv_region := overwrite (recv_region (conn f)) 0 (send_region (conn e))\<rparr>\<rparr>"
    using ex rq by (auto simp: b_execute_def w b_wr_def)
  then show "ok" by simp
  have ow: "overwrite (recv_region (conn f)) 0 (send_region (conn e)) = send_region (conn e)"
    using e(2) f(2) by (simp add: b_mem_def overwrite_def)
  have x: "sends (xs @ ys) = 1" "recvs xs = 0" "recvs ys = 0" "list_all ok_wc xs" "list_all ok_wc ys"
    using xy by (cases xs; auto simp: w b_wr_def r ok_wc_def sends_def recvs_def)+
  have fe: "established e' = established e" "sq e' = []" "rq e' = rq e" "cq e' = cq e @ xs" "unacked e' = unacked e @ ys"
    "conn e' = conn e" "out e' = out e" "gone e' = gone e" "exited e' = exited e"
    by (simp_all add: e' r w)
  have ff: "established f' = established f" "sq f' = sq f" "rq f' = 0" "cq f' = cq f @ [\<lparr>wc_success = True, wc_opcode = WC_RECV, wc_imm = 0\<rparr>]"
    "unacked f' = unacked f" "out f' = out f" "gone f' = gone f" "exited f' = exited f"
    "recv_region (conn f') = send_region (conn e)" "send_region (conn f') = send_region (conn f)" "num_completions (conn f') = num_completions (conn f)"
    by (simp_all add: r ow)
  have dl: "delivered e'" "delivered f' = delivered f" using w(3) by (simp_all add: delivered_def fe ff)
  have z: "sends (cq e @ unacked e) = 0" "recvs (cq f) = 0" using e(1) f(1) w(4) by (simp_all add: b_ctl_def)
  have s1: "sends (cq e' @ unacked e') = 1" "recvs (cq e') = recvs (cq e)" "recvs (unacked e') = recvs (unacked e)"
    using x z(1) by (simp_all add: fe)
  have s2: "sends (cq f' @ unacked f') = sends (cq f @ unacked f)" "recvs (cq f') = 1" by (simp_all add: ff z)
  have "b_ctl q e' f'"
    using e(1) w(3,4) x z(1) unfolding b_ctl_def dl s1 fe by (auto simp: dl)
  moreover have "b_ctl (other q) f' e'"
    using f(1) w(4) z(2) unfolding b_ctl_def dl s2 ff by (simp add: dl ok_wc_def)
  moreover have "b_mem pid q e' f'" using e(2) x(2) unfolding b_mem_def fe dl by simp
  moreover have "b_mem pid (other q) f' e'"
    using f(2) e(2) w(3,4) unfolding b_mem_def ff dl s2 by (simp add: dl)
  ultimately show "b_ctl q e' f' \<and> b_mem pid q e' f' \<and> b_ctl (other q) f' e' \<and> b_mem pid (other q) f' e'" by blast
  have "length xs + length ys = 1" using arg_cong [OF xy, of length] by simp
  then show "b_left1 e' + b_left1 f' < b_left1 e + b_left1 f"
    using w(2) sq unfolding b_left1_def fe ff by simp
qed

lemma b_ack_step:
  assumes inv: "b_inv pid s" and st: "ack q s = Some t"
  shows "b_inv pid t \<and> b_left t < b_left s"
proof -
  obtain w ws where u: "unacked (s q) = w # ws" and t: "t = s(q := (s q)\<lparr>unacked := ws, cq := cq (s q) @ [w]\<rparr>)"
    using st by (auto simp: ack_def split: list.splits)
  let ?e = "(s q)\<lparr>unacked := ws, cq := cq (s q) @ [w]\<rparr>"
  note c = b_invD(1) [OF inv, of q] and d = b_invD(2) [OF inv, of q]
  have nr: "\<not> is_recv (wc_opcode w)" "recvs ws = 0" 
  proof -
    have "recvs (w # ws) = 0" using c u by (simp add: b_ctl_def)
    then show "\<not> is_recv (wc_opcode w)" "recvs ws = 0" by (cases "is_recv (wc_opcode w)"; simp)+
  qed
  have dl: "delivered ?e = delivered (s q)" by (simp add: delivered_def)
  have "b_ctl q ?e (s (other q))" using c u nr unfolding b_ctl_def dl by (cases q) auto
  moreover have "b_mem pid q ?e (s (other q))" using d nr unfolding b_mem_def by simp
  ultimately have "b_inv pid t" unfolding t using b_inv_local [OF inv] dl by blast
  moreover have "b_left1 ?e < b_left1 (s q)" using u by (simp add: b_left1_def)
  then have "b_left t < b_left s" by (simp add: b_left_split [of _ q] t)
  ultimately show ?thesis by blast
qed

lemma b_wire_step:
  assumes inv: "b_inv pid s" and st: "b_wire s t"
  shows "b_inv pid t \<and> b_left t < b_left s"
proof -
  from st obtain q where "deliver_by b_execute q s = Some t \<or> deliver_late_by b_execute q s = Some t \<or> ack q s = Some t"
    unfolding b_wire_def by blast
  then consider (now) "deliver_by b_execute q s = Some t" | (late) "deliver_late_by b_execute q s = Some t" | (ack) "ack q s = Some t"
    by blast
  then show ?thesis
  proof cases
    case now
    then obtain w ws ok a f' where sq: "sq (s q) = w # ws" "b_execute w (s q) (s (other q)) = Some (ok, a, f')"
      and t: "t = s(q := a\<lparr>sq := ws, cq := cq a @ [\<lparr>wc_success = ok, wc_opcode = completion_of (wr_opcode w), wc_imm = 0\<rparr>]\<rparr>, other q := f')"
      by (auto simp: deliver_by_def bind_eq_Some_conv split: list.splits)
    have "b_inv pid t \<and> b_left1 (t q) + b_left1 (t (other q)) < b_left1 (s q) + b_left1 (s (other q))"
      unfolding t using b_deliver_keeps(1,2) [OF b_invD [OF inv] sq, where ys = "[]"]
      by (intro conjI b_inv_both) auto
    then show ?thesis by (simp add: b_left_split [of _ q])
  next
    case late
    then obtain w ws ok a f' where sq: "sq (s q) = w # ws" "b_execute w (s q) (s (other q)) = Some (ok, a, f')"
      and t: "t = s(q := a\<lparr>sq := ws, unacked := unacked a @ [\<lparr>wc_success = ok, wc_opcode = completion_of (wr_opcode w), wc_imm = 0\<rparr>]\<rparr>, other q := f')"
      by (auto simp: deliver_late_by_def bind_eq_Some_conv split: list.splits)
    have "b_inv pid t \<and> b_left1 (t q) + b_left1 (t (other q)) < b_left1 (s q) + b_left1 (s (other q))"
      unfolding t using b_deliver_keeps(1,2) [OF b_invD [OF inv] sq, where xs = "[]"]
      by (intro conjI b_inv_both) auto
    then show ?thesis by (simp add: b_left_split [of _ q])
  next
    case ack
    then show ?thesis by (rule b_ack_step [OF inv])
  qed
qed


lemma b_init_inv:
  assumes "b_init pid s"
  shows "b_inv pid s \<and> b_left s = 12"
proof -
  have st: "\<exists>c x. s p = (b_blank c)\<lparr>rq := 1, out := [x]\<rparr> \<and> (p = Client \<longrightarrow> num_completions c = 0) \<and>
      length (recv_region c) = BUFFER_SIZE \<and> length (send_region c) = BUFFER_SIZE \<and> \<not> is_message_line x" for p
  proof -
    obtain mem where m: "length (recv_region mem) = BUFFER_SIZE" "length (send_region mem) = BUFFER_SIZE" "b_start p (pid p) mem = Some (s p)"
      using assms by (auto simp: b_init_def)
    let ?m = "if p = Client then mem\<lparr>num_completions := 0\<rparr> else mem"
    let ?x = "case p of Client \<Rightarrow> ''address resolved.'' | Server \<Rightarrow> ''received connection request.''"
    have "s p = (b_blank ?m)\<lparr>rq := 1, out := [?x]\<rparr>"
      using m(3) by (cases p) (auto simp: b_start_def b_on_addr_resolved_def b_on_connect_request_def build_context_def
          b_register_memory_def b_post_receives_def b_blank_def build_qp_attr_def)
    then show ?thesis
      by (intro exI [of _ ?m] exI [of _ ?x]) (use m in \<open>cases p; simp add: is_message_line_def\<close>)
  qed
  have nd: "\<not> delivered (s p)" for p using st [of p] by (auto simp: delivered_def b_blank_def)
  have "b_ctl p (s p) (s (other p)) \<and> b_mem pid p (s p) (s (other p)) \<and> b_left1 (s p) = 6" for p
    using st [of p] nd [of p] nd [of "other p"] by (auto simp: b_ctl_def b_mem_def b_left1_def b_blank_def)
  then show ?thesis unfolding b_inv_def b_left_def by simp
qed

text \<open>Nothing is left to do.\<close>

definition b_finished :: "b_link \<Rightarrow> bool" where
  "b_finished s \<longleftrightarrow> (\<forall>p. established (s p) \<and> sq (s p) = [] \<and> unacked (s p) = [] \<and> cq (s p) = [])"

lemma b_enabled:
  assumes inv: "b_inv pid s" and nf: "\<not> b_finished s"
  shows "\<exists>t. b_step pid b_wire s t"
proof -
  obtain p where p: "\<not> (established (s p) \<and> sq (s p) = [] \<and> unacked (s p) = [] \<and> cq (s p) = [])"
    using nf by (auto simp: b_finished_def)
  have ex: "\<not> exited (s p)" using b_invD(1) [OF inv, of p] by (simp add: b_ctl_def)
  consider "\<not> established (s p)" | "sq (s p) \<noteq> []" | "unacked (s p) \<noteq> []" | "cq (s p) \<noteq> []" using p by blast
  then show ?thesis
  proof cases
    case 1
    then have "\<exists>t. b_establish pid p s = Some t" using ex by (cases p) (simp_all add: b_establish_def split: prod.splits)
    then show ?thesis unfolding lstep_iff by blast
  next
    case 2
    then obtain w ws where "sq (s p) = w # ws" by (cases "sq (s p)") auto
    then have "\<exists>t. deliver_by b_execute p s = Some t" by (simp add: deliver_by_def b_execute_def)
    then show ?thesis unfolding lstep_iff b_wire_def by blast
  next
    case 3
    then obtain w ws where "unacked (s p) = w # ws" by (cases "unacked (s p)") auto
    then have "\<exists>t. ack p s = Some t" by (simp add: ack_def)
    then show ?thesis unfolding lstep_iff b_wire_def by blast
  next
    case 4
    then obtain w ws where "cq (s p) = w # ws" by (cases "cq (s p)") auto
    then have "\<exists>t. b_poll p s = Some t" using ex by (simp add: b_poll_def split: prod.splits)
    then show ?thesis unfolding lstep_iff by blast
  qed
qed

lemma b_step_keeps:
  assumes "\<forall>p. pid p < 2 ^ 31" "b_inv pid s" "b_step pid b_wire s t"
  shows "b_inv pid t \<and> b_left t < b_left s"
  using assms(3)
proof (cases rule: lstep.cases)
  case (event p)
  then show ?thesis by (rule b_establish_step [OF assms(2,1)])
next
  case (completion p)
  then show ?thesis by (rule b_poll_step [OF assms(2)])
next
  case transport
  then show ?thesis by (rule b_wire_step [OF assms(2)])
qed

text \<open>Process ids are below \<open>2 ^ 31\<close>; the locale's laws hold for such ids.\<close>

definition a_pid :: "nat \<Rightarrow> nat" where
  "a_pid n = n mod 2 ^ 31"

lemma a_pid_less: "a_pid n < 2 ^ 31"
  by (simp add: a_pid_def)

interpretation basic: ending_protocol "b_init (a_pid \<circ> pid)" "b_step (a_pid \<circ> pid) b_wire" "b_inv (a_pid \<circ> pid)"
    b_left b_finished for pid
proof unfold_locales
  fix s t
  have pids: "\<forall>p. (a_pid \<circ> pid) p < 2 ^ 31" by (simp only: comp_apply a_pid_less) blast
  show "b_init (a_pid \<circ> pid) s \<Longrightarrow> b_inv (a_pid \<circ> pid) s" using b_init_inv by blast
  show "b_inv (a_pid \<circ> pid) s \<Longrightarrow> b_step (a_pid \<circ> pid) b_wire s t \<Longrightarrow> b_inv (a_pid \<circ> pid) t" using b_step_keeps [OF pids] by blast
  show "b_inv (a_pid \<circ> pid) s \<Longrightarrow> b_step (a_pid \<circ> pid) b_wire s t \<Longrightarrow> b_left t < b_left s" using b_step_keeps [OF pids] by blast
  show "b_inv (a_pid \<circ> pid) s \<Longrightarrow> \<not> b_finished s \<Longrightarrow> \<exists>t. b_step (a_pid \<circ> pid) b_wire s t" by (rule b_enabled)
  show "b_inv (a_pid \<circ> pid) s \<Longrightarrow> b_finished s \<Longrightarrow> b_left s = 0"
    by (simp add: b_finished_def b_left_def b_left1_def)
qed


subsection \<open>The transport as a parameter\<close>

definition b_adapter :: "(b_link \<Rightarrow> b_link \<Rightarrow> bool) \<Rightarrow> bool" where
  "b_adapter wire \<longleftrightarrow> (\<forall>s t. wire s t \<longrightarrow> b_wire s t)"

definition b_fair :: "(b_link \<Rightarrow> b_link \<Rightarrow> bool) \<Rightarrow> bool" where
  "b_fair wire \<longleftrightarrow> (\<forall>s. (\<exists>t. b_wire s t) \<longrightarrow> (\<exists>t. wire s t))"

lemma b_wire_self: "b_adapter b_wire" "b_fair b_wire"
  by (simp_all add: b_adapter_def b_fair_def)

lemma a_pid_id: "\<forall>p. pid p < 2 ^ 31 \<Longrightarrow> a_pid \<circ> pid = pid"
  by (auto simp: a_pid_def comp_def)

lemma b_reachable_inv:
  assumes "\<forall>p. pid p < 2 ^ 31" "b_adapter wire" "reachable (b_init pid) (b_step pid wire) s"
  shows "b_inv pid s"
proof -
  have "reachable (b_init pid) (b_step pid b_wire) s"
    by (rule lstep_reachable_mono [OF assms(3)]) (use assms(2) in \<open>simp add: b_adapter_def\<close>)
  then show ?thesis using basic.reachable_inv [of pid s] unfolding a_pid_id [OF assms(1)] by blast
qed

lemma b_gone:
  assumes inv: "b_inv pid s" and g: "gone (s p)"
  shows "p = Client" "delivered (s q)" "recvs (cq (s Client)) = 0"
proof -
  have n: "p = Client" "num_completions (conn (s p)) = 2" using b_invD(1) [OF inv, of p] g unfolding b_ctl_def by blast+
  then have "2 + sends (cq (s Client) @ unacked (s Client)) + recvs (cq (s Client)) = of_bool (delivered (s Client)) + of_bool (delivered (s Server))"
    using b_invD(1) [OF inv, of Client] by (simp add: b_ctl_def)
  then have "delivered (s Client) \<and> delivered (s Server) \<and> recvs (cq (s Client)) = 0"
    by (cases "delivered (s Client)"; cases "delivered (s Server)") simp_all
  then show "p = Client" "delivered (s q)" "recvs (cq (s Client)) = 0" using n by (cases q; simp)+
qed


text \<open>Remark: Every run of the two sides takes at most twelve steps; when no step is left, both have printed
  their peer's message and the client has disconnected.\<close>

theorem basic_exchange_ends:
  assumes "\<forall>p. pid p < 2 ^ 31" "b_adapter wire" "b_fair wire" "b_init pid s" "(b_step pid wire ^^ n) s t"
  shows "n \<le> 12 \<and> ((\<nexists>u. b_step pid wire t u) \<longrightarrow> gone (t Client) \<and>
    (\<forall>p. filter is_message_line (out (t p)) = [''received message: '' @ greeting (other p) (pid (other p))]))"
proof -
  have sub: "b_step pid wire u v \<Longrightarrow> b_step (a_pid \<circ> pid) b_wire u v" for u v
    unfolding a_pid_id [OF assms(1)] by (erule lstep_mono) (use assms(2) in \<open>simp add: b_adapter_def\<close>)
  have fair: "b_step (a_pid \<circ> pid) b_wire u v \<Longrightarrow> \<exists>v. b_step pid wire u v" for u v
    unfolding a_pid_id [OF assms(1)] lstep_iff using assms(3) unfolding b_fair_def by blast
  have i: "b_init (a_pid \<circ> pid) s" using assms(4) unfolding a_pid_id [OF assms(1)] .
  have e: "n \<le> b_left s" "(\<exists>u. b_step pid wire t u) \<longleftrightarrow> \<not> b_finished t"
    by (rule basic.ends [of "b_step pid wire" pid s n t]; (erule sub | erule fair | rule i | rule assms(5)))+
  have "n \<le> 12" using e(1) b_init_inv [OF assms(4)] by simp
  moreover have "gone (t Client) \<and>
    (\<forall>p. filter is_message_line (out (t p)) = [''received message: '' @ greeting (other p) (pid (other p))])"
    if "\<nexists>u. b_step pid wire t u"
  proof -
    have f: "b_finished t" using e(2) that by blast
    have "(b_step pid wire)\<^sup>*\<^sup>* s t" using assms(5) by (rule relpowp_imp_rtranclp)
    then have inv: "b_inv pid t"
      by (intro b_reachable_inv [OF assms(1,2)] reachable_rtranclp [OF reach_init [of "b_init pid" s, OF assms(4)]])
    have dl: "delivered (t p)" "recvs (cq (t p)) = 0" "sends (cq (t p) @ unacked (t p)) = 0" for p
      using f by (simp_all add: b_finished_def delivered_def)
    have "gone (t Client)" using b_invD(1) [OF inv, of Client] dl by (simp add: b_ctl_def)
    moreover have "filter is_message_line (out (t p)) = [''received message: '' @ greeting (other p) (pid (other p))]" for p
      using b_invD(2) [OF inv, of p] dl by (simp add: b_mem_def)
    ultimately show ?thesis by blast
  qed
  ultimately show ?thesis by blast
qed

text \<open>A state to start in.\<close>

definition b_fresh :: bconnection where
  "b_fresh = \<lparr>recv_region = replicate BUFFER_SIZE NUL, send_region = replicate BUFFER_SIZE NUL, num_completions = 0\<rparr>"

definition b_started :: "(peer \<Rightarrow> nat) \<Rightarrow> b_link" where
  "b_started pid p = the (b_start p (pid p) b_fresh)"

lemma b_init_started: "b_init pid (b_started pid)"
proof -
  have "\<exists>e. b_start p (pid p) b_fresh = Some e" for p
    by (cases p) (simp_all add: b_start_def split: prod.splits)
  moreover have "length (recv_region b_fresh) = BUFFER_SIZE" "length (send_region b_fresh) = BUFFER_SIZE"
    by (simp_all add: b_fresh_def)
  ultimately show ?thesis unfolding b_init_def b_started_def by (metis option.sel)
qed


theorem basic_exchange_ends_witness:
  "\<exists>n t. n \<le> 12 \<and> (b_step (\<lambda>_. 7) b_wire ^^ n) (b_started (\<lambda>_. 7)) t \<and> gone (t Client) \<and>
    filter is_message_line (out (t Server)) = [''received message: '' @ greeting Client 7]"
proof -
  have pid: "\<forall>p. (\<lambda>_ :: peer. 7) p < (2 :: nat) ^ 31" by simp
  have "b_inv (\<lambda>_. 7) (b_started (\<lambda>_. 7))" using b_init_inv [OF b_init_started] by blast
  then obtain n t where t: "(b_step (\<lambda>_. 7) b_wire ^^ n) (b_started (\<lambda>_. 7)) t" "\<nexists>u. b_step (\<lambda>_. 7) b_wire t u"
    using basic.reaches_end [of "\<lambda>_. 7" "b_started (\<lambda>_. 7)"] unfolding a_pid_id [OF pid] by blast
  have "n \<le> 12 \<and> gone (t Client) \<and> filter is_message_line (out (t Server)) = [''received message: '' @ greeting (other Server) 7]"
    using basic_exchange_ends [OF pid b_wire_self b_init_started t(1)] t(2) by blast
  then show ?thesis using t(1) by auto
qed

end
