(* ===== verification/RdmaFile.thy ===== *)
theory RdmaFile
  imports Link
begin

text \<open>
  The RDMA file transfer (\<open>src/rdma/03_file-transfer\<close>): the client writes the name of a file and then
  its contents, chunk by chunk, into a buffer of the server with remote writes that carry the length
  as immediate data; the server answers each with a message. \<open>common.c\<close> is the shared event loop with
  its call-backs, \<open>client.c\<close> and \<open>server.c\<close> are the call-backs.

  \<^item> The kernel is a parameter: what \<open>read\<close> and \<open>write\<close> return and whether \<open>open\<close> succeeds.
  \<^item> Stores outside \<open>file_name\<close> are undefined behaviour; then a handler has the value \<open>None\<close>.
\<close>

subsection \<open>messages.h\<close>

definition BUFFER_SIZE :: nat where "BUFFER_SIZE = 10 * 1024 * 1024"

definition DEFAULT_PORT :: string where "DEFAULT_PORT = ''12345''"

datatype fregion = Buffer | Msg

datatype message_id = MSG_INVALID | MSG_MR | MSG_READY | MSG_DONE

record fmessage =
  msg_id :: message_id
  data_addr :: fregion
  data_rkey :: fregion

definition fmessage_size :: nat where "fmessage_size = 24"

subsection \<open>common.c\<close>

text \<open>\<open>build_connection\<close> makes the queue pair; \<open>build_params\<close> the parameters; the call-backs make
  calls.\<close>

definition f_build_connection :: "nat option \<Rightarrow> nat \<Rightarrow> nat option \<times> fregion call list" where
  "f_build_connection s_ctx verbs =
     (let (s_ctx, cs) = build_context s_ctx verbs in (s_ctx, cs @ [Create_qp build_qp_attr]))"

definition f_build_params :: conn_param where
  "f_build_params = \<lparr>initiator_depth = 1, responder_resources = 1, rnr_retry_count = 7\<rparr>"

text \<open>The call-backs of a program, \<open>None\<close> when \<open>NULL\<close> was registered with \<open>rc_init\<close>; a call-back maps the
  context of the connection.\<close>

record 'c callbacks =
  on_pre_conn_cb :: "('c \<Rightarrow> 'c \<times> fregion call list) option"
  on_connect_cb :: "('c \<Rightarrow> 'c \<times> fregion call list) option"
  on_disconnect_cb :: "('c \<Rightarrow> fregion call list) option"

definition run_cb :: "('c \<Rightarrow> 'c \<times> fregion call list) option \<Rightarrow> 'c \<Rightarrow> 'c \<times> fregion call list" where
  "run_cb cb c = (case cb of None \<Rightarrow> (c, []) | Some f \<Rightarrow> f c)"

text \<open>The body of the loop in \<open>event_loop\<close>: the static context, the context of the connection, the calls,
  and whether the loop is left.\<close>

fun rc_event :: "'c callbacks \<Rightarrow> bool \<Rightarrow> nat \<Rightarrow> cm_event \<Rightarrow> nat option \<times> 'c
    \<Rightarrow> (nat option \<times> 'c) \<times> fregion call list \<times> bool" where
  "rc_event cbs exit_on_disconnect verbs ADDR_RESOLVED (s_ctx, c) =
     (let (s_ctx, cs) = f_build_connection s_ctx verbs; (c, ds) = run_cb (on_pre_conn_cb cbs) c
      in ((s_ctx, c), cs @ ds @ [Resolve_route], False))"
| "rc_event cbs exit_on_disconnect verbs ROUTE_RESOLVED (s_ctx, c) = ((s_ctx, c), [Connect f_build_params], False)"
| "rc_event cbs exit_on_disconnect verbs CONNECT_REQUEST (s_ctx, c) =
     (let (s_ctx, cs) = f_build_connection s_ctx verbs; (c, ds) = run_cb (on_pre_conn_cb cbs) c
      in ((s_ctx, c), cs @ ds @ [Accept f_build_params], False))"
| "rc_event cbs exit_on_disconnect verbs ESTABLISHED (s_ctx, c) =
     (let (c, ds) = run_cb (on_connect_cb cbs) c in ((s_ctx, c), ds, False))"
| "rc_event cbs exit_on_disconnect verbs DISCONNECTED (s_ctx, c) =
     ((s_ctx, c), [Destroy_qp] @ (case on_disconnect_cb cbs of None \<Rightarrow> [] | Some f \<Rightarrow> f c) @ [Destroy_id], exit_on_disconnect)"
| "rc_event cbs exit_on_disconnect verbs _ (s_ctx, c) = ((s_ctx, c), [Exit ''unknown event''], False)"

text \<open>\<open>rc_client_loop\<close> and \<open>rc_server_loop\<close> on the events of one connection.\<close>

definition rc_client_loop :: "'c callbacks \<Rightarrow> nat \<Rightarrow> string \<Rightarrow> string \<Rightarrow> cm_event list \<Rightarrow> 'c \<Rightarrow> (fregion call list) option" where
  "rc_client_loop cbs verbs host port events c =
     do {
       (s, cs) \<leftarrow> event_loop (\<lambda>e s. Some (rc_event cbs True verbs e s)) events (None, c);
       Some ([Getaddrinfo host port, Create_event_channel, Create_id, Resolve_addr 500] @ cs @ [Destroy_event_channel]) }"

definition rc_server_loop :: "'c callbacks \<Rightarrow> nat \<Rightarrow> cm_event list \<Rightarrow> 'c \<Rightarrow> (fregion call list) option" where
  "rc_server_loop cbs verbs events c =
     do {
       (s, cs) \<leftarrow> event_loop (\<lambda>e s. Some (rc_event cbs False verbs e s)) events (None, c);
       Some ([Create_event_channel, Create_id, Bind_addr, Listen 10] @ cs @ [Destroy_id, Destroy_event_channel]) }"

text \<open>\<open>htonl\<close> and \<open>ntohl\<close> on a little-endian machine reverse the bytes.\<close>

definition bswap32 :: "u32 \<Rightarrow> u32" where
  "bswap32 x = push_bit 24 (take_bit 8 x) OR push_bit 16 (take_bit 8 (drop_bit 8 x)) OR
     push_bit 8 (take_bit 8 (drop_bit 16 x)) OR take_bit 8 (drop_bit 24 x)"

definition htonl :: "u32 \<Rightarrow> u32" where "htonl = bswap32"
definition ntohl :: "u32 \<Rightarrow> u32" where "ntohl = bswap32"

lemma bit_bswap32:
  assumes "r < 8"
  shows "bit (bswap32 x) r = bit x (24 + r)" "bit (bswap32 x) (8 + r) = bit x (16 + r)"
    "bit (bswap32 x) (16 + r) = bit x (8 + r)" "bit (bswap32 x) (24 + r) = bit x r"
  using assms by (auto simp: bswap32_def bit_simps)

lemma byte_index: "(n :: nat) < 32 \<Longrightarrow> \<exists>r<8. n = r \<or> n = 8 + r \<or> n = 16 + r \<or> n = 24 + r"
  by presburger

lemma ntohl_htonl [simp]: "ntohl (htonl x) = x"
  unfolding ntohl_def htonl_def
proof (rule bit_word_eqI)
  fix n assume "n < LENGTH(32)"
  then obtain r where "r < 8" "n = r \<or> n = 8 + r \<or> n = 16 + r \<or> n = 24 + r" using byte_index [of n] by auto
  then show "bit (bswap32 (bswap32 x)) n = bit x n" by (auto simp: bit_bswap32)
qed


subsection \<open>client.c\<close>

text \<open>The kernel: \<open>read\<close> at a position returns a count, or \<open>-1\<close>; \<open>open\<close> of a new file succeeds or not;
  \<open>write\<close> at a position with a size returns a count, or \<open>-1\<close>.\<close>

record kernel =
  read_ret :: "nat \<Rightarrow> int"
  open_new_ok :: "string \<Rightarrow> bool"
  write_ret :: "nat \<Rightarrow> nat \<Rightarrow> int"

text \<open>The client's context; the file is its contents and the position of the descriptor. A region holds as
  many characters as were ever stored in it.\<close>

record client_context =
  c_buffer :: string
  c_msg :: fmessage
  peer_addr :: fregion
  peer_rkey :: fregion
  fd_data :: string
  fd_pos :: nat
  c_file_name :: string

definition write_remote :: "client_context \<Rightarrow> u32 \<Rightarrow> fregion call list" where
  "write_remote ctx len =
     [Post_send \<lparr>wr_opcode = WR_RDMA_WRITE_WITH_IMM,
        wr_sge = (if len \<noteq> 0 then Some (Buffer, unat len) else None), wr_imm_data = htonl len,
        wr_remote_addr = Some (peer_addr ctx), wr_rkey = Some (peer_rkey ctx)\<rparr>]"

definition c_post_receive :: "fregion call list" where
  "c_post_receive = [Post_recv (Some (Msg, fmessage_size))]"

definition store :: "string \<Rightarrow> string \<Rightarrow> string" where
  "store buf xs = overwrite buf 0 xs"

text \<open>\<open>send_next_chunk\<close> reads at most \<open>BUFFER_SIZE\<close> characters into the buffer.\<close>

definition send_next_chunk :: "kernel \<Rightarrow> client_context \<Rightarrow> client_context \<times> fregion call list" where
  "send_next_chunk k ctx =
     (let len = read_ret k (fd_pos ctx)
      in if len = -1 then (ctx, [Exit ''read() failed''])
         else let chunk = take (nat len) (drop (fd_pos ctx) (fd_data ctx));
                  ctx = ctx\<lparr>c_buffer := store (c_buffer ctx) chunk, fd_pos := fd_pos ctx + length chunk\<rparr>
              in (ctx, write_remote ctx (of_int len)))"

definition send_file_name :: "client_context \<Rightarrow> client_context \<times> fregion call list" where
  "send_file_name ctx =
     (let ctx = ctx\<lparr>c_buffer := store (c_buffer ctx) (c_file_name ctx @ [NUL])\<rparr>
      in (ctx, write_remote ctx (of_nat (length (c_file_name ctx) + 1))))"

definition c_on_pre_conn :: "client_context \<Rightarrow> client_context \<times> fregion call list" where
  "c_on_pre_conn ctx =
     (ctx,
      [Alloc Buffer BUFFER_SIZE,
       Reg_mr Buffer BUFFER_SIZE \<lparr>mr_addr = Buffer, mr_rkey = Buffer, mr_remote_write = False, mr_remote_read = False\<rparr>,
       Alloc Msg fmessage_size,
       Reg_mr Msg fmessage_size \<lparr>mr_addr = Msg, mr_rkey = Msg, mr_remote_write = True, mr_remote_read = False\<rparr>]
      @ c_post_receive)"

definition c_on_completion :: "kernel \<Rightarrow> wc \<Rightarrow> client_context \<Rightarrow> client_context \<times> fregion call list" where
  "c_on_completion k wc ctx =
     (if is_recv (wc_opcode wc) then
        (case msg_id (c_msg ctx) of
          MSG_MR \<Rightarrow>
            let ctx = ctx\<lparr>peer_addr := data_addr (c_msg ctx), peer_rkey := data_rkey (c_msg ctx)\<rparr>;
                (ctx, cs) = send_file_name ctx
            in (ctx, [Print ''received MR, sending file name''] @ cs @ c_post_receive)
        | MSG_READY \<Rightarrow>
            let (ctx, cs) = send_next_chunk k ctx in (ctx, [Print ''received READY, sending chunk''] @ cs @ c_post_receive)
        | MSG_DONE \<Rightarrow> (ctx, [Print ''received DONE, disconnecting'', Disconnect])
        | MSG_INVALID \<Rightarrow> (ctx, c_post_receive))
      else (ctx, []))"

text \<open>\<open>main\<close> with the name of the file, its last component, and its contents if it can be opened.\<close>

definition f_main_client :: "string list \<Rightarrow> (string \<Rightarrow> string) \<Rightarrow> (string \<Rightarrow> string option) \<Rightarrow> nat \<Rightarrow> cm_event list \<Rightarrow> (fregion call list) option" where
  "f_main_client argv basename file verbs events =
     (if length argv \<noteq> 2 then Some [Exit ''usage: <server-address> <file-name>'']
      else case file (argv ! 1) of
        None \<Rightarrow> Some [Exit (''unable to open input file '' @ basename (argv ! 1))]
      | Some contents \<Rightarrow> do {
          cs \<leftarrow> rc_client_loop \<lparr>on_pre_conn_cb = Some c_on_pre_conn, on_connect_cb = None, on_disconnect_cb = None\<rparr>
                 verbs (argv ! 0) DEFAULT_PORT events
                 \<lparr>c_buffer = [], c_msg = \<lparr>msg_id = MSG_INVALID, data_addr = Msg, data_rkey = Msg\<rparr>, peer_addr = Msg, peer_rkey = Msg,
                  fd_data = contents, fd_pos = 0, c_file_name = basename (argv ! 1)\<rparr>;
          Some (cs @ [Close]) })"

subsection \<open>server.c\<close>

definition MAX_FILE_NAME :: nat where "MAX_FILE_NAME = 256"

record conn_context =
  s_buffer :: string
  s_msg :: fmessage
  s_file :: "string option" \<comment> \<open>what was written to the file, once it is open\<close>
  file_name :: string

definition f_send_message :: "fregion call list" where
  "f_send_message =
     [Post_send \<lparr>wr_opcode = WR_SEND, wr_sge = Some (Msg, fmessage_size), wr_imm_data = 0,
                 wr_remote_addr = None, wr_rkey = None\<rparr>]"

definition s_post_receive :: "fregion call list" where
  "s_post_receive = [Post_recv None]"

text \<open>\<open>mem\<close> is what the fresh context holds.\<close>

definition s_on_pre_conn :: "conn_context \<Rightarrow> conn_context \<times> fregion call list" where
  "s_on_pre_conn mem =
     (mem\<lparr>file_name := (file_name mem)[0 := NUL]\<rparr>,
      [Alloc_conn, Alloc Buffer BUFFER_SIZE,
       Reg_mr Buffer BUFFER_SIZE \<lparr>mr_addr = Buffer, mr_rkey = Buffer, mr_remote_write = True, mr_remote_read = False\<rparr>,
       Alloc Msg fmessage_size,
       Reg_mr Msg fmessage_size \<lparr>mr_addr = Msg, mr_rkey = Msg, mr_remote_write = True, mr_remote_read = False\<rparr>]
      @ s_post_receive)"

definition s_on_connection :: "conn_context \<Rightarrow> conn_context \<times> fregion call list" where
  "s_on_connection ctx = (ctx\<lparr>s_msg := \<lparr>msg_id = MSG_MR, data_addr = Buffer, data_rkey = Buffer\<rparr>\<rparr>, f_send_message)"

definition set_id :: "message_id \<Rightarrow> conn_context \<Rightarrow> conn_context" where
  "set_id i ctx = ctx\<lparr>s_msg := (s_msg ctx)\<lparr>msg_id := i\<rparr>\<rparr>"

text \<open>The branch of \<open>on_completion\<close> that takes the file name: the copy is bounded, the store of the end of
  the string is not.\<close>

definition take_file_name :: "kernel \<Rightarrow> nat \<Rightarrow> conn_context \<Rightarrow> (conn_context \<times> fregion call list) option" where
  "take_file_name k len ctx =
     do {
       let n = (if len > MAX_FILE_NAME then MAX_FILE_NAME else len);
       name \<leftarrow> c_store (overwrite (file_name ctx) 0 (take n (s_buffer ctx))) (len - 1) NUL;
       let ctx = ctx\<lparr>file_name := name\<rparr>;
       (if open_new_ok k (c_string name)
        then Some (set_id MSG_READY (ctx\<lparr>s_file := Some []\<rparr>),
                   [Print (''opening file '' @ c_string name)] @ s_post_receive @ f_send_message)
        else Some (ctx, [Print (''opening file '' @ c_string name), Exit ''open() failed''])) }"

text \<open>\<open>printf\<close> with \<open>%i\<close> of an unsigned 32-bit number reads it as signed.\<close>

definition percent_i :: "nat \<Rightarrow> string" where
  "percent_i n = (if n < 2 ^ 31 then decimal n else ''-'' @ decimal (2 ^ 32 - n))"

definition write_chunk :: "kernel \<Rightarrow> nat \<Rightarrow> conn_context \<Rightarrow> conn_context \<times> fregion call list" where
  "write_chunk k len ctx =
     (let done = (case s_file ctx of None \<Rightarrow> [] | Some x \<Rightarrow> x);
          ret = write_ret k (length done) len;
          line = Print (''received '' @ percent_i len @ '' bytes.'')
      in if ret \<noteq> int len then (ctx\<lparr>s_file := Some (done @ take (nat ret) (s_buffer ctx))\<rparr>, [line, Exit ''write() failed''])
         else (set_id MSG_READY (ctx\<lparr>s_file := Some (done @ take len (s_buffer ctx))\<rparr>), [line] @ s_post_receive @ f_send_message))"

definition s_on_completion :: "kernel \<Rightarrow> wc \<Rightarrow> conn_context \<Rightarrow> (conn_context \<times> fregion call list) option" where
  "s_on_completion k wc ctx =
     (if wc_opcode wc = WC_RECV_RDMA_WITH_IMM then
        let len = unat (ntohl (wc_imm wc))
        in if len = 0 then Some (set_id MSG_DONE ctx, f_send_message)
           else if file_name ctx ! 0 \<noteq> NUL then Some (write_chunk k len ctx)
           else take_file_name k len ctx
      else Some (ctx, []))"

definition s_on_disconnect :: "conn_context \<Rightarrow> fregion call list" where
  "s_on_disconnect ctx =
     [Close, Dereg_mr Buffer, Dereg_mr Msg, Free Buffer, Free Msg,
      Print (''finished transferring '' @ c_string (file_name ctx)), Free_conn]"

definition f_main_server :: "nat \<Rightarrow> cm_event list \<Rightarrow> conn_context \<Rightarrow> (fregion call list) option" where
  "f_main_server verbs events mem =
     do {
       cs \<leftarrow> rc_server_loop \<lparr>on_pre_conn_cb = Some s_on_pre_conn, on_connect_cb = Some s_on_connection, on_disconnect_cb = Some s_on_disconnect\<rparr>
              verbs events mem;
       Some (Print ''waiting for connections. interrupt (^C) to exit.'' # cs) }"

text \<open>\<open>poll_cq\<close>: a completion that failed ends the process, the others go to the call-back.\<close>

definition dispatch :: "(wc \<Rightarrow> 'c \<Rightarrow> ('c \<times> fregion call list) option) \<Rightarrow> wc \<Rightarrow> 'c \<Rightarrow> ('c \<times> fregion call list) option" where
  "dispatch cb wc c =
     (if wc_success wc then cb wc c else Some (c, [Exit ''poll_cq: status is not IBV_WC_SUCCESS'']))"

end
