(* ===== verification/RdmaFileSafe.thy ===== *)
theory RdmaFileSafe
  imports RdmaFile
begin

text \<open>
  Client and server of the RDMA file transfer together: the file arrives, whatever \<open>read\<close> returns at
  each call, and the transfer ends.
\<close>

subsection \<open>The two sides\<close>

datatype side = Cl client_context | Sv conn_context

type_synonym f_endpoint = "(side, fregion) event_endpoint"
type_synonym f_link = "peer \<Rightarrow> f_endpoint"

definition ep :: "side \<Rightarrow> fregion wr list \<Rightarrow> nat \<Rightarrow> wc list \<Rightarrow> string list \<Rightarrow> bool \<Rightarrow> bool \<Rightarrow> f_endpoint" where
  "ep c q r ws x g b = \<lparr>conn = c, sq = q, rq = r, cq = ws, unacked = [], out = x, gone = g, exited = False, established = b\<rparr>"

fun on_side :: "kernel \<Rightarrow> wc \<Rightarrow> side \<Rightarrow> (side \<times> fregion call list) option" where
  "on_side k wc (Cl c) = map_option (\<lambda>(c, cs). (Cl c, cs)) (dispatch (\<lambda>w c. Some (c_on_completion k w c)) wc c)"
| "on_side k wc (Sv v) = map_option (\<lambda>(v, cs). (Sv v, cs)) (dispatch (s_on_completion k) wc v)"

text \<open>The transport: a message or a write with immediate data needs a receive of the peer, and waits for
  one; the write needs the key of the buffer.\<close>

fun put_message :: "side \<Rightarrow> side \<Rightarrow> side" where
  "put_message (Sv v) (Cl c) = Cl (c\<lparr>c_msg := s_msg v\<rparr>)" | "put_message _ x = x"

fun put_data :: "nat \<Rightarrow> side \<Rightarrow> side \<Rightarrow> side" where
  "put_data n (Cl c) (Sv v) = Sv (v\<lparr>s_buffer := overwrite (s_buffer v) 0 (take n (c_buffer c))\<rparr>)" | "put_data n _ x = x"

definition f_execute :: "fregion wr \<Rightarrow> f_endpoint \<Rightarrow> f_endpoint \<Rightarrow> (bool \<times> f_endpoint \<times> f_endpoint) option" where
  "f_execute w a b =
     (if rq b = 0 then None
      else if wr_opcode w = WR_SEND then
        Some (True, a, b\<lparr>rq := rq b - 1, cq := cq b @ [\<lparr>wc_success = True, wc_opcode = WC_RECV, wc_imm = 0\<rparr>],
                         conn := put_message (conn a) (conn b)\<rparr>)
      else if wr_opcode w = WR_RDMA_WRITE_WITH_IMM \<and> wr_remote_addr w = Some Buffer \<and> wr_rkey w = Some Buffer then
        Some (True, a, b\<lparr>rq := rq b - 1,
                cq := cq b @ [\<lparr>wc_success = True, wc_opcode = WC_RECV_RDMA_WITH_IMM, wc_imm = wr_imm_data w\<rparr>],
                conn := put_data (case wr_sge w of None \<Rightarrow> 0 | Some (r, n) \<Rightarrow> n) (conn a) (conn b)\<rparr>)
      else Some (False, a, b))"

definition f_wire :: "f_link \<Rightarrow> f_link \<Rightarrow> bool" where
  "f_wire s t \<longleftrightarrow> (\<exists>q. deliver_by f_execute q s = Some t)"

text \<open>Only the server has a call-back for \<open>ESTABLISHED\<close>.\<close>

fun f_establish :: "peer \<Rightarrow> f_link \<Rightarrow> f_link option" where
  "f_establish Client s = None"
| "f_establish Server s =
     (case conn (s Server) of
       Sv v \<Rightarrow> if established (s Server) \<or> exited (s Server) then None
         else (let (v, cs) = s_on_connection v in Some (s(Server := do_calls cs ((s Server)\<lparr>conn := Sv v, established := True\<rparr>))))
     | Cl _ \<Rightarrow> None)"

definition f_poll :: "kernel \<Rightarrow> peer \<Rightarrow> f_link \<Rightarrow> f_link option" where
  "f_poll k p s =
     (if exited (s p) then None
      else case cq (s p) of [] \<Rightarrow> None
      | w # ws \<Rightarrow> do {
          (c, cs) \<leftarrow> on_side k w (conn (s p));
          Some (s(p := do_calls cs ((s p)\<lparr>conn := c, cq := ws\<rparr>))) })"

abbreviation f_step :: "kernel \<Rightarrow> (f_link \<Rightarrow> f_link \<Rightarrow> bool) \<Rightarrow> f_link \<Rightarrow> f_link \<Rightarrow> bool" where
  "f_step k \<equiv> lstep f_establish (f_poll k)"

text \<open>Both sides after their call-back before the connection.\<close>

definition f_init :: "string \<Rightarrow> string \<Rightarrow> f_link \<Rightarrow> bool" where
  "f_init name data s \<longleftrightarrow>
     (\<exists>c v c' v' cs vs x y. fd_data c = data \<and> fd_pos c = 0 \<and> c_file_name c = name \<and>
        length (file_name v) = MAX_FILE_NAME \<and> s_file v = None \<and>
        c_on_pre_conn c = (c', cs) \<and> s_on_pre_conn v = (v', vs) \<and>
        s = pair (do_calls cs (ep (Cl c') [] 0 [] x False False)) (do_calls vs (ep (Sv v') [] 0 [] y False False)))"

subsection \<open>States of the transfer\<close>

definition unnamed :: "conn_context \<Rightarrow> bool" where
  "unnamed v \<longleftrightarrow> s_file v = None \<and> length (file_name v) = MAX_FILE_NAME \<and> file_name v ! 0 = NUL"

definition named :: "string \<Rightarrow> string \<Rightarrow> conn_context \<Rightarrow> bool" where
  "named name w v \<longleftrightarrow> s_file v = Some w \<and> c_string (file_name v) = name \<and> file_name v ! 0 \<noteq> NUL"

definition reading :: "string \<Rightarrow> string \<Rightarrow> client_context \<Rightarrow> bool" where
  "reading name data c \<longleftrightarrow> fd_data c = data \<and> c_file_name c = name \<and> fd_pos c \<le> length data"

definition to_buffer :: "client_context \<Rightarrow> bool" where
  "to_buffer c \<longleftrightarrow> peer_addr c = Buffer \<and> peer_rkey c = Buffer"

text \<open>A message of the server says how far the transfer is.\<close>

fun msg_ok :: "string \<Rightarrow> string \<Rightarrow> client_context \<Rightarrow> conn_context \<Rightarrow> message_id \<Rightarrow> bool" where
  "msg_ok name data c v MSG_MR \<longleftrightarrow> unnamed v \<and> fd_pos c = 0 \<and> data_addr (s_msg v) = Buffer \<and> data_rkey (s_msg v) = Buffer"
| "msg_ok name data c v MSG_READY \<longleftrightarrow> named name (take (fd_pos c) data) v \<and> to_buffer c"
| "msg_ok name data c v MSG_DONE \<longleftrightarrow> named name data v"
| "msg_ok name data c v MSG_INVALID \<longleftrightarrow> False"

text \<open>The first \<open>n\<close> characters of a buffer are the name, or the next part of the file.\<close>

definition chunk_ok :: "string \<Rightarrow> string \<Rightarrow> nat \<Rightarrow> string \<Rightarrow> client_context \<Rightarrow> conn_context \<Rightarrow> bool" where
  "chunk_ok name data n buf c v \<longleftrightarrow> n < 2 ^ 32 \<and> to_buffer c \<and>
     (unnamed v \<and> fd_pos c = 0 \<and> n = length name + 1 \<and> take n buf = name @ [NUL] \<or>
      n \<le> fd_pos c \<and> named name (take (fd_pos c - n) data) v \<and> take n buf = take n (drop (fd_pos c - n) data) \<and>
      (n = 0 \<longrightarrow> fd_pos c = length data))"

abbreviation S_done :: wc where "S_done \<equiv> \<lparr>wc_success = True, wc_opcode = WC_SEND, wc_imm = 0\<rparr>"
abbreviation W_done :: wc where "W_done \<equiv> \<lparr>wc_success = True, wc_opcode = WC_RDMA_WRITE, wc_imm = 0\<rparr>"
abbreviation R_msg :: wc where "R_msg \<equiv> \<lparr>wc_success = True, wc_opcode = WC_RECV, wc_imm = 0\<rparr>"
abbreviation R_data :: "nat \<Rightarrow> wc" where
  "R_data n \<equiv> \<lparr>wc_success = True, wc_opcode = WC_RECV_RDMA_WITH_IMM, wc_imm = htonl (of_nat n)\<rparr>"

definition msg_wr :: "fregion wr" where
  "msg_wr = \<lparr>wr_opcode = WR_SEND, wr_sge = Some (Msg, fmessage_size), wr_imm_data = 0, wr_remote_addr = None, wr_rkey = None\<rparr>"

definition data_wr :: "nat \<Rightarrow> fregion wr" where
  "data_wr n = \<lparr>wr_opcode = WR_RDMA_WRITE_WITH_IMM, wr_sge = (if n \<noteq> 0 then Some (Buffer, n) else None),
     wr_imm_data = htonl (of_nat n), wr_remote_addr = Some Buffer, wr_rkey = Some Buffer\<rparr>"

inductive fstate :: "string \<Rightarrow> string \<Rightarrow> f_link \<Rightarrow> bool" for name data :: string where
  idle: "\<lbrakk>reading name data c; fd_pos c = 0; unnamed v\<rbrakk> \<Longrightarrow>
    fstate name data (pair (ep (Cl c) [] 1 [] x False False) (ep (Sv v) [] 1 [] y False False))"
| sending: "\<lbrakk>reading name data c; msg_ok name data c v (msg_id (s_msg v)); ws = [] \<or> ws = [W_done]\<rbrakk> \<Longrightarrow>
    fstate name data (pair (ep (Cl c) [] 1 ws x False False)
      (ep (Sv v) [msg_wr] (if msg_id (s_msg v) = MSG_DONE then 0 else 1) [] y False True))"
| arrived: "\<lbrakk>reading name data c; msg_ok name data c v (msg_id (s_msg v)); c_msg c = s_msg v; ws = [] \<or> ws = [W_done];
      us = [] \<or> us = [S_done]\<rbrakk> \<Longrightarrow>
    fstate name data (pair (ep (Cl c) [] 0 (ws @ [R_msg]) x False False)
      (ep (Sv v) [] (if msg_id (s_msg v) = MSG_DONE then 0 else 1) us y False True))"
| writing: "\<lbrakk>reading name data c; chunk_ok name data n (c_buffer c) c v; us = [] \<or> us = [S_done]\<rbrakk> \<Longrightarrow>
    fstate name data (pair (ep (Cl c) [data_wr n] 1 [] x False False) (ep (Sv v) [] 1 us y False True))"
| written: "\<lbrakk>reading name data c; chunk_ok name data n (s_buffer v) c v; ws = [] \<or> ws = [W_done]; us = [] \<or> us = [S_done]\<rbrakk> \<Longrightarrow>
    fstate name data (pair (ep (Cl c) [] 1 ws x False False) (ep (Sv v) [] 0 (us @ [R_data n]) y False True))"
| over: "\<lbrakk>named name data v; us = [] \<or> us = [S_done]\<rbrakk> \<Longrightarrow>
    fstate name data (pair (ep (Cl c) [] 0 [] x True False) (ep (Sv v) [] 0 us y False True))"

inductive_cases fstateE: "fstate name data s"

subsection \<open>Steps keep the state\<close>

definition kernel_ok :: "string \<Rightarrow> string \<Rightarrow> kernel \<Rightarrow> bool" where
  "kernel_ok name data k \<longleftrightarrow>
     (\<forall>pos \<le> length data. if pos = length data then read_ret k pos = 0
        else 1 \<le> read_ret k pos \<and> read_ret k pos \<le> int (min BUFFER_SIZE (length data - pos))) \<and>
     open_new_ok k name \<and> (\<forall>n len. write_ret k n len = int len)"

definition name_ok :: "string \<Rightarrow> bool" where
  "name_ok name \<longleftrightarrow> name \<noteq> [] \<and> NUL \<notin> set name \<and> length name < MAX_FILE_NAME"

lemma peer_ex: "(\<exists>q. P q) \<longleftrightarrow> P Client \<or> P Server"
  by (metis peer.exhaust)

lemma f_step_split: "f_step k f_wire s t \<longleftrightarrow>
   f_establish Server s = Some t \<or> f_poll k Client s = Some t \<or> f_poll k Server s = Some t \<or>
   deliver_by f_execute Client s = Some t \<or> deliver_by f_execute Server s = Some t"
  unfolding lstep_iff f_wire_def by (auto simp: peer_ex)

lemma ep_simps [simp]:
  "conn (ep c q r ws x g b) = c" "sq (ep c q r ws x g b) = q" "rq (ep c q r ws x g b) = r" "cq (ep c q r ws x g b) = ws"
  "gone (ep c q r ws x g b) = g" "exited (ep c q r ws x g b) = False" "established (ep c q r ws x g b) = b" "out (ep c q r ws x g b) = x"
  "unacked (ep c q r ws x g b) = []"
  "(ep c q r ws x g b)\<lparr>conn := c'\<rparr> = ep c' q r ws x g b" "(ep c q r ws x g b)\<lparr>sq := q'\<rparr> = ep c q' r ws x g b"
  "(ep c q r ws x g b)\<lparr>rq := r'\<rparr> = ep c q r' ws x g b" "(ep c q r ws x g b)\<lparr>cq := ws'\<rparr> = ep c q r ws' x g b"
  "(ep c q r ws x g b)\<lparr>out := x'\<rparr> = ep c q r ws x' g b" "(ep c q r ws x g b)\<lparr>gone := g'\<rparr> = ep c q r ws x g' b"
  "(ep c q r ws x g b)\<lparr>established := b'\<rparr> = ep c q r ws x g b'"
  by (simp_all add: ep_def)


lemma unat_u32: "n < 2 ^ 32 \<Longrightarrow> unat (of_nat n :: u32) = n"
  by (simp add: unat_of_nat take_bit_nat_eq_self)

lemma u32_nonzero: "n < 2 ^ 32 \<Longrightarrow> (of_nat n :: u32) = 0 \<longleftrightarrow> n = 0"
  using unat_u32 [of n] by (cases "n = 0") (auto dest: arg_cong [of _ _ unat])

lemma write_remote_data:
  assumes "n < 2 ^ 32" "to_buffer c"
  shows "write_remote c (of_nat n) = [Post_send (data_wr n)]"
  using assms unat_u32 [OF assms(1)] u32_nonzero [OF assms(1)]
  by (simp add: write_remote_def data_wr_def to_buffer_def)

text \<open>The client on the two messages that let it go on.\<close>

lemma client_on_mr:
  assumes "reading name data c" "name_ok name" "msg_id (c_msg c) = MSG_MR" "data_addr (c_msg c) = Buffer" "data_rkey (c_msg c) = Buffer"
    and "fd_pos c = 0" "unnamed v"
  shows "\<exists>c'. c_on_completion k R_msg c =
      (c', [Print ''received MR, sending file name'', Post_send (data_wr (length name + 1)), Post_recv (Some (Msg, fmessage_size))]) \<and>
    reading name data c' \<and> chunk_ok name data (length name + 1) (c_buffer c') c' v"
proof -
  let ?c = "c\<lparr>peer_addr := Buffer, peer_rkey := Buffer\<rparr>"
  let ?d = "?c\<lparr>c_buffer := store (c_buffer c) (name @ [NUL])\<rparr>"
  have n: "length name + 1 < 2 ^ 32" using assms(2) by (simp add: name_ok_def MAX_FILE_NAME_def)
  have cn: "c_file_name c = name" using assms(1) by (simp add: reading_def)
  have "send_file_name ?c = (?d, [Post_send (data_wr (length name + 1))])"
    using write_remote_data [OF n, of ?d] by (simp add: send_file_name_def cn to_buffer_def)
  then have "c_on_completion k R_msg c =
      (?d, [Print ''received MR, sending file name'', Post_send (data_wr (length name + 1)), Post_recv (Some (Msg, fmessage_size))])"
    using assms(3-5) by (simp add: c_on_completion_def c_post_receive_def Let_def)
  moreover have "reading name data ?d" using assms(1) by (simp add: reading_def)
  moreover have "chunk_ok name data (length name + 1) (c_buffer ?d) ?d v"
    using n assms(6,7) by (simp add: chunk_ok_def to_buffer_def store_def overwrite_def)
  ultimately show ?thesis by blast
qed

lemma client_on_ready:
  assumes "reading name data c" "kernel_ok name data k" "msg_id (c_msg c) = MSG_READY"
    and "named name (take (fd_pos c) data) v" "to_buffer c"
  shows "\<exists>c' n. c_on_completion k R_msg c =
      (c', [Print ''received READY, sending chunk'', Post_send (data_wr n), Post_recv (Some (Msg, fmessage_size))]) \<and>
    reading name data c' \<and> chunk_ok name data n (c_buffer c') c' v \<and> fd_pos c' = fd_pos c + n"
proof -
  define n where "n = nat (read_ret k (fd_pos c))"
  have le: "fd_pos c \<le> length data" and fd: "fd_data c = data" using assms(1) by (simp_all add: reading_def)
  have r: "read_ret k (fd_pos c) = int n" "n \<le> length data - fd_pos c" "n = 0 \<longleftrightarrow> fd_pos c = length data" "n \<le> BUFFER_SIZE"
    using assms(2) le unfolding kernel_ok_def n_def by (cases "fd_pos c = length data"; force)+
  have lt: "n < 2 ^ 32" using r(4) by (simp add: BUFFER_SIZE_def)
  let ?chunk = "take n (drop (fd_pos c) data)"
  have lc: "length ?chunk = n" using r(2) by simp
  let ?d = "c\<lparr>c_buffer := store (c_buffer c) ?chunk, fd_pos := fd_pos c + n\<rparr>"
  have "send_next_chunk k c = (?d, [Post_send (data_wr n)])"
    using write_remote_data [OF lt, of ?d] assms(5) r(1) lc by (simp add: send_next_chunk_def fd to_buffer_def Let_def)
  then have "c_on_completion k R_msg c =
      (?d, [Print ''received READY, sending chunk'', Post_send (data_wr n), Post_recv (Some (Msg, fmessage_size))])"
    using assms(3) by (simp add: c_on_completion_def c_post_receive_def)
  moreover have "reading name data ?d" using assms(1) r(2) le by (simp add: reading_def)
  moreover have "chunk_ok name data n (c_buffer ?d) ?d v"
    using lt assms(4,5) r(3) lc by (auto simp: chunk_ok_def to_buffer_def store_def overwrite_def)
  ultimately show ?thesis by (intro exI [of _ ?d] exI [of _ n]) simp
qed

text \<open>The server on a write of the client.\<close>

lemma server_on_name:
  assumes k: "kernel_ok name data k" and nm: "name_ok name" and v: "unnamed v" and n: "n = length name + 1"
    and buf: "take n (s_buffer v) = name @ [NUL]"
  shows "\<exists>v' x. s_on_completion k (R_data n) v = Some (v', [Print x, Post_recv None, Post_send msg_wr]) \<and>
    named name [] v' \<and> msg_id (s_msg v') = MSG_READY"
proof -
  have lt: "n < 2 ^ 32" "n \<noteq> 0" "n \<le> MAX_FILE_NAME" using nm n by (simp_all add: name_ok_def MAX_FILE_NAME_def)
  have fl: "length (file_name v) = MAX_FILE_NAME" "file_name v ! 0 = NUL" "s_file v = None" using v by (simp_all add: unnamed_def)
  let ?f = "overwrite (file_name v) 0 (name @ [NUL])"
  have f: "?f = name @ NUL # drop n (file_name v)" using n by (simp add: overwrite_def)
  have set: "c_store ?f (n - 1) NUL = Some ?f"
    using n lt(3) fl(1) by (simp add: c_store_def f list_update_append)
  have "\<forall>x\<in>set name. x \<noteq> NUL" using nm by (auto simp: name_ok_def)
  then have cs: "c_string ?f = name" by (simp add: f c_string_def takeWhile_append2)
  have h: "?f ! 0 \<noteq> NUL" unfolding f using nm by (cases name) (auto simp: name_ok_def)
  have "take_file_name k n v = Some (set_id MSG_READY (v\<lparr>file_name := ?f, s_file := Some []\<rparr>),
       [Print (''opening file '' @ name), Post_recv None, Post_send msg_wr])"
    using k lt(3) buf set cs
    by (simp add: take_file_name_def kernel_ok_def s_post_receive_def f_send_message_def msg_wr_def Let_def)
  then have "s_on_completion k (R_data n) v = Some (set_id MSG_READY (v\<lparr>file_name := ?f, s_file := Some []\<rparr>),
       [Print (''opening file '' @ name), Post_recv None, Post_send msg_wr])"
    using lt fl(2) by (simp add: s_on_completion_def unat_u32)
  then show ?thesis using cs h by (auto simp: named_def set_id_def)
qed

lemma server_on_chunk:
  assumes k: "kernel_ok name data k" and v: "named name w v" and n: "n < 2 ^ 32" "n \<noteq> 0"
  shows "\<exists>v' x. s_on_completion k (R_data n) v = Some (v', [Print x, Post_recv None, Post_send msg_wr]) \<and>
    named name (w @ take n (s_buffer v)) v' \<and> msg_id (s_msg v') = MSG_READY"
  using assms
  by (simp add: s_on_completion_def unat_u32 named_def write_chunk_def kernel_ok_def s_post_receive_def f_send_message_def msg_wr_def set_id_def Let_def)

lemma server_on_end:
  "s_on_completion k (R_data 0) v = Some (set_id MSG_DONE v, [Post_send msg_wr])"
  by (simp add: s_on_completion_def f_send_message_def msg_wr_def)

lemma bswap_0 [simp]: "htonl 0 = 0"
  by (simp add: htonl_def bswap32_def)


lemma pair_inject [simp]: "pair a b = pair c d \<longleftrightarrow> a = c \<and> b = d"
  by (metis pair.simps)

lemma pair_same [simp]: "(pair a b)(q := pair a b q) = pair a b"
  by (rule ext) simp

lemmas move_simps = deliver_by_def f_execute_def f_poll_def dispatch_def

text \<open>The moves of the transport and of the pollers on explicit states.\<close>

lemma deliver_message:
  "deliver_by f_execute Server (pair (ep (Cl c) q (Suc r) ws x g b) (ep (Sv v) [msg_wr] r' us y g' b')) =
     Some (pair (ep (Cl (c\<lparr>c_msg := s_msg v\<rparr>)) q r (ws @ [R_msg]) x g b) (ep (Sv v) [] r' (us @ [S_done]) y g' b'))"
  by (simp add: deliver_by_def f_execute_def msg_wr_def)

lemma deliver_data:
  "deliver_by f_execute Client (pair (ep (Cl c) [data_wr n] r ws x g b) (ep (Sv v) q (Suc r') us y g' b')) =
     Some (pair (ep (Cl c) [] r (ws @ [W_done]) x g b)
       (ep (Sv (v\<lparr>s_buffer := overwrite (s_buffer v) 0 (take n (c_buffer c))\<rparr>)) q r' (us @ [R_data n]) y g' b'))"
  by (cases "n = 0") (simp_all add: deliver_by_def f_execute_def data_wr_def)

lemma deliver_nothing:
  "deliver_by f_execute Client (pair (ep c [] r ws x g b) e) = None"
  "deliver_by f_execute Server (pair e (ep v [] r ws x g b)) = None"
  by (simp_all add: deliver_by_def)

lemma poll_nothing:
  "f_poll k Client (pair (ep c q r [] x g b) e) = None"
  "f_poll k Server (pair e (ep v q r [] x g b)) = None"
  by (simp_all add: f_poll_def)

lemma poll_sent:
  "f_poll k Client (pair (ep (Cl c) q r (W_done # ws) x g b) e) = Some (pair (ep (Cl c) q r ws x g b) e)"
  "f_poll k Server (pair e (ep (Sv v) q r (S_done # ws) x g b)) = Some (pair e (ep (Sv v) q r ws x g b))"
  by (simp_all add: f_poll_def dispatch_def c_on_completion_def s_on_completion_def)

lemma establish_established:
  "f_establish Server (pair e (ep (Sv v) q r ws x g True)) = None"
  by simp

lemma client_polls:
  assumes "c_on_completion k R_msg c = (c', cs)"
  shows "f_poll k Client (pair (ep (Cl c) q r (R_msg # ws) x g b) e) = Some (pair (do_calls cs (ep (Cl c') q r ws x g b)) e)"
  using assms by (simp add: f_poll_def dispatch_def)

lemma server_polls:
  assumes "s_on_completion k (R_data n) v = Some (v', cs)"
  shows "f_poll k Server (pair e (ep (Sv v) q r (R_data n # ws) x g b)) = Some (pair e (do_calls cs (ep (Sv v') q r ws x g b)))"
  using assms by (simp add: f_poll_def dispatch_def)

lemma client_polls_some: "\<exists>t. f_poll k Client (pair (ep (Cl c) q r (R_msg # ws) x g b) e) = Some t"
  by (cases "c_on_completion k R_msg c") (simp add: client_polls)

lemma client_calls:
  "do_calls [Print z, Post_send w, Post_recv o'] (ep c [] r [] x g b) = ep c [w] (Suc r) [] (x @ [z]) g b"
  if "r < 10"
  using that by (simp add: build_qp_attr_def)


text \<open>How much of the transfer is left: four moves for every character of the file that is not sent yet, and
  those of the name and of the end.\<close>

definition f_tok :: "string \<Rightarrow> f_link \<Rightarrow> nat" where
  "f_tok data s =
     (case (conn (s Client), conn (s Server)) of
       (Cl c, Sv v) \<Rightarrow>
         (let l = length data; left = l - fd_pos c
          in if gone (s Client) then 0
             else if \<not> established (s Server) then 4 * l + 11
             else if sq (s Server) \<noteq> [] then
               (case msg_id (s_msg v) of MSG_MR \<Rightarrow> 4 * l + 10 | MSG_READY \<Rightarrow> 4 * left + 6 | _ \<Rightarrow> 2)
             else if sq (s Client) \<noteq> [] then
               (if s_file v = None then 4 * l + 8 else if wr_sge (hd (sq (s Client))) = None then 4 else 4 * left + 8)
             else if recvs (cq (s Client)) > 0 then
               (case msg_id (s_msg v) of MSG_MR \<Rightarrow> 4 * l + 9 | MSG_READY \<Rightarrow> 4 * left + 5 | _ \<Rightarrow> 1)
             else (if s_file v = None then 4 * l + 7 else if wc_imm (last (cq (s Server))) = 0 then 3 else 4 * left + 7))
     | _ \<Rightarrow> 0)"

definition f_left :: "string \<Rightarrow> f_link \<Rightarrow> nat" where
  "f_left data s = 3 * f_tok data s + length (cq (s Client)) + length (cq (s Server))"

lemma htonl_0_iff [simp]: "htonl x = 0 \<longleftrightarrow> x = 0"
  by (metis bswap_0 ntohl_htonl)

lemma f_left_simps:
  "f_left data (pair (ep (Cl c) [] 1 [] x False False) (ep (Sv v) [] 1 [] y False False)) = 3 * (4 * length data + 11)"
  "f_left data (pair (ep (Cl c) [] 1 ws x False False) (ep (Sv v) [w] r us y False True)) =
     3 * (case msg_id (s_msg v) of MSG_MR \<Rightarrow> 4 * length data + 10 | MSG_READY \<Rightarrow> 4 * (length data - fd_pos c) + 6 | _ \<Rightarrow> 2) + length ws + length us"
  "f_left data (pair (ep (Cl c) [] 0 (ws @ [R_msg]) x False False) (ep (Sv v) [] r us y False True)) =
     3 * (case msg_id (s_msg v) of MSG_MR \<Rightarrow> 4 * length data + 9 | MSG_READY \<Rightarrow> 4 * (length data - fd_pos c) + 5 | _ \<Rightarrow> 1) + length ws + 1 + length us"
  "f_left data (pair (ep (Cl c) [data_wr n] 1 [] x False False) (ep (Sv v) [] 1 us y False True)) =
     3 * (if s_file v = None then 4 * length data + 8 else if n = 0 then 4 else 4 * (length data - fd_pos c) + 8) + length us"
  "f_left data (pair (ep (Cl c) [] 0 ws x True False) (ep (Sv v) [] r us y False True)) = length ws + length us"
  by (simp_all add: f_left_def f_tok_def data_wr_def Let_def split: message_id.splits)

lemma f_left_written:
  assumes "recvs ws = 0" "n < 2 ^ 32"
  shows "f_left data (pair (ep (Cl c) [] 1 ws x False False) (ep (Sv v) [] 0 (us @ [R_data n]) y False True)) =
     3 * (if s_file v = None then 4 * length data + 7 else if n = 0 then 3 else 4 * (length data - fd_pos c) + 7) + length ws + length us + 1"
  using assms by (simp add: f_left_def f_tok_def u32_nonzero Let_def)

lemma recvs_W [simp]: "recvs [W_done] = 0" "recvs [S_done] = 0"
  by (simp_all add: recvs_def)

lemma step_idle:
  assumes "reading name data c" "fd_pos c = 0" "unnamed v"
    and s: "s = pair (ep (Cl c) [] 1 [] x False False) (ep (Sv v) [] 1 [] y False False)"
    and st: "f_step k f_wire s t"
  shows "fstate name data t \<and> f_left data t < f_left data s"
proof -
  obtain v' where v': "s_on_connection v = (v', [Post_send msg_wr])" "msg_id (s_msg v') = MSG_MR" "data_addr (s_msg v') = Buffer"
      "data_rkey (s_msg v') = Buffer" "unnamed v'"
    using assms(3) by (simp add: s_on_connection_def f_send_message_def msg_wr_def unnamed_def)
  have t: "t = pair (ep (Cl c) [] 1 [] x False False) (ep (Sv v') [msg_wr] 1 [] y False True)"
    using st v' unfolding f_step_split s by (simp add: deliver_nothing poll_nothing build_qp_attr_def)
  have "fstate name data t"
    using sending [of name data c v' "[]" x y] assms(1,2) v' unfolding t by simp
  then show ?thesis unfolding t s f_left_simps using v' by simp
qed

lemma step_sending:
  assumes "reading name data c" "msg_ok name data c v (msg_id (s_msg v))" "ws = [] \<or> ws = [W_done]"
    and s: "s = pair (ep (Cl c) [] 1 ws x False False) (ep (Sv v) [msg_wr] (if msg_id (s_msg v) = MSG_DONE then 0 else 1) [] y False True)"
    and st: "f_step k f_wire s t"
  shows "fstate name data t \<and> f_left data t < f_left data s"
proof -
  let ?r = "if msg_id (s_msg v) = MSG_DONE then 0 else 1"
  let ?d = "pair (ep (Cl (c\<lparr>c_msg := s_msg v\<rparr>)) [] 0 (ws @ [R_msg]) x False False) (ep (Sv v) [] ?r [S_done] y False True)"
  have dl: "deliver_by f_execute Server s = Some ?d"
    unfolding s One_nat_def deliver_message by simp
  have "t = ?d \<or> ws = [W_done] \<and> t = pair (ep (Cl c) [] 1 [] x False False) (ep (Sv v) [msg_wr] ?r [] y False True)"
    using st assms(3) unfolding f_step_split dl unfolding s
    by (auto simp: deliver_nothing poll_nothing poll_sent)
  then show ?thesis
  proof
    assume t: "t = ?d"
    have "msg_ok name data (c\<lparr>c_msg := s_msg v\<rparr>) v (msg_id (s_msg v))" "reading name data (c\<lparr>c_msg := s_msg v\<rparr>)"
      using assms(1,2) by (cases "msg_id (s_msg v)"; simp add: reading_def to_buffer_def)+
    then have "fstate name data t" unfolding t by (intro arrived) (use assms(3) in auto)
    then show ?thesis unfolding t s f_left_simps using assms(2) by (cases "msg_id (s_msg v)") simp_all
  next
    assume t: "ws = [W_done] \<and> t = pair (ep (Cl c) [] 1 [] x False False) (ep (Sv v) [msg_wr] ?r [] y False True)"
    then have ws: "ws = [W_done]" and tt: "t = pair (ep (Cl c) [] 1 [] x False False) (ep (Sv v) [msg_wr] ?r [] y False True)"
      by blast+
    have "fstate name data t" unfolding tt by (rule sending [OF assms(1,2)]) simp
    then show ?thesis unfolding tt s f_left_simps by (simp add: ws)
  qed
qed

lemma step_arrived:
  assumes k: "kernel_ok name data k" "name_ok name"
    and a: "reading name data c" "msg_ok name data c v (msg_id (s_msg v))" "c_msg c = s_msg v" "ws = [] \<or> ws = [W_done]" "us = [] \<or> us = [S_done]"
    and s: "s = pair (ep (Cl c) [] 0 (ws @ [R_msg]) x False False)
      (ep (Sv v) [] (if msg_id (s_msg v) = MSG_DONE then 0 else 1) us y False True)"
    and st: "f_step k f_wire s t"
  shows "fstate name data t \<and> f_left data t < f_left data s"
proof -
  let ?r = "if msg_id (s_msg v) = MSG_DONE then 0 else 1"
  let ?e = "ep (Sv v) [] ?r us y False True"
  have "(ws = [W_done] \<and> t = pair (ep (Cl c) [] 0 [R_msg] x False False) ?e) \<or>
      (ws = [] \<and> f_poll k Client (pair (ep (Cl c) [] 0 [R_msg] x False False) ?e) = Some t) \<or>
      (us = [S_done] \<and> t = pair (ep (Cl c) [] 0 (ws @ [R_msg]) x False False) (ep (Sv v) [] ?r [] y False True))"
    using st a(4,5) unfolding f_step_split s
    by (auto simp: deliver_nothing poll_nothing poll_sent)
  then consider
      (W) "ws = [W_done]" "t = pair (ep (Cl c) [] 0 ([] @ [R_msg]) x False False) ?e"
    | (R) "ws = []" "f_poll k Client (pair (ep (Cl c) [] 0 [R_msg] x False False) ?e) = Some t"
    | (S) "us = [S_done]" "t = pair (ep (Cl c) [] 0 (ws @ [R_msg]) x False False) (ep (Sv v) [] ?r [] y False True)"
    by auto
  then show ?thesis
  proof cases
    case W
    have "fstate name data t" unfolding W(2) by (rule arrived [OF a(1-3) _ a(5)]) simp
    then show ?thesis unfolding W(2) s f_left_simps by (simp add: W(1))
  next
    case S
    have "fstate name data t" unfolding S(2) by (rule arrived [OF a(1-4)]) simp
    then show ?thesis unfolding S(2) s f_left_simps by (simp add: S(1))
  next
    case R
    show ?thesis
    proof (cases "msg_id (s_msg v)")
      case MSG_INVALID
      then show ?thesis using a(2) by simp
    next
      case MSG_MR
      have m: "unnamed v" "fd_pos c = 0" "data_addr (s_msg v) = Buffer" "data_rkey (s_msg v) = Buffer"
        using a(2) MSG_MR by simp_all
      obtain c' where c': "c_on_completion k R_msg c =
          (c', [Print ''received MR, sending file name'', Post_send (data_wr (length name + 1)), Post_recv (Some (Msg, fmessage_size))])"
        "reading name data c'" "chunk_ok name data (length name + 1) (c_buffer c') c' v"
        using client_on_mr [OF a(1) k(2), of v k] MSG_MR m a(3) by auto
      have t: "t = pair (ep (Cl c') [data_wr (length name + 1)] 1 [] (x @ [''received MR, sending file name'']) False False) (ep (Sv v) [] 1 us y False True)"
        using R(2) MSG_MR client_calls [of 0] unfolding client_polls [OF c'(1)] by simp
      have "fstate name data t" unfolding t by (rule writing [OF c'(2,3) a(5)])
      then show ?thesis unfolding t s f_left_simps using m(1) by (simp add: MSG_MR unnamed_def)
    next
      case MSG_READY
      have m: "named name (take (fd_pos c) data) v" "to_buffer c" using a(2) MSG_READY by simp_all
      obtain c' n where c': "c_on_completion k R_msg c =
          (c', [Print ''received READY, sending chunk'', Post_send (data_wr n), Post_recv (Some (Msg, fmessage_size))])"
        "reading name data c'" "chunk_ok name data n (c_buffer c') c' v" "fd_pos c' = fd_pos c + n"
        using client_on_ready [OF a(1) k(1) _ m] MSG_READY a(3) by auto
      have t: "t = pair (ep (Cl c') [data_wr n] 1 [] (x @ [''received READY, sending chunk'']) False False) (ep (Sv v) [] 1 us y False True)"
        using R(2) MSG_READY client_calls [of 0] unfolding client_polls [OF c'(1)] by simp
      have "fstate name data t" unfolding t by (rule writing [OF c'(2,3) a(5)])
      moreover have "fd_pos c' \<le> length data" using c'(2) by (simp add: reading_def)
      ultimately show ?thesis unfolding t s f_left_simps using m(1) c'(4) by (auto simp: MSG_READY named_def)
    next
      case MSG_DONE
      then have m: "named name data v" using a(2) by simp
      have "c_on_completion k R_msg c = (c, [Print ''received DONE, disconnecting'', Disconnect])"
        using MSG_DONE a(3) by (simp add: c_on_completion_def)
      then have t: "t = pair (ep (Cl c) [] 0 [] (x @ [''received DONE, disconnecting'']) True False) (ep (Sv v) [] 0 us y False True)"
        using R(2) MSG_DONE by (simp add: client_polls)
      have "fstate name data t" unfolding t by (rule over [OF m a(5)])
      then show ?thesis unfolding t s f_left_simps by (simp add: MSG_DONE)
    qed
  qed
qed

lemma step_writing:
  assumes a: "reading name data c" "chunk_ok name data n (c_buffer c) c v" "us = [] \<or> us = [S_done]"
    and s: "s = pair (ep (Cl c) [data_wr n] 1 [] x False False) (ep (Sv v) [] 1 us y False True)"
    and st: "f_step k f_wire s t"
  shows "fstate name data t \<and> f_left data t < f_left data s"
proof -
  let ?v = "v\<lparr>s_buffer := overwrite (s_buffer v) 0 (take n (c_buffer c))\<rparr>"
  let ?d = "pair (ep (Cl c) [] 1 [W_done] x False False) (ep (Sv ?v) [] 0 (us @ [R_data n]) y False True)"
  have dl: "deliver_by f_execute Client s = Some ?d"
    unfolding s using deliver_data [of c n 1 "[]" x False False v "[]" 0 us y False True] by simp
  have n: "n < 2 ^ 32" using a(2) by (simp add: chunk_ok_def)
  have "t = ?d \<or> us = [S_done] \<and> t = pair (ep (Cl c) [data_wr n] 1 [] x False False) (ep (Sv v) [] 1 [] y False True)"
    using st a(3) unfolding f_step_split dl unfolding s
    by (auto simp: deliver_nothing poll_nothing poll_sent)
  then show ?thesis
  proof
    assume t: "t = ?d"
    have "length (take n (c_buffer c)) = n"
    proof -
      have "take n (c_buffer c) = name @ [NUL] \<and> n = length name + 1 \<or>
          n \<le> fd_pos c \<and> take n (c_buffer c) = take n (drop (fd_pos c - n) data)" using a(2) unfolding chunk_ok_def by blast
      moreover have "fd_pos c \<le> length data" using a(1) by (simp add: reading_def)
      ultimately show ?thesis by (elim disjE conjE; simp only:; simp)
    qed
    then have "take n (s_buffer ?v) = take n (c_buffer c)" by (simp add: overwrite_def)
    moreover have "unnamed ?v = unnamed v" "\<And>w. named name w ?v = named name w v" by (simp_all add: unnamed_def named_def)
    ultimately have "chunk_ok name data n (s_buffer ?v) c ?v" using a(2) unfolding chunk_ok_def by presburger
    then have "fstate name data t" unfolding t by (intro written [OF a(1)]) (use a(3) in auto)
    moreover have "f_left data t < f_left data s"
      unfolding t s f_left_simps f_left_written [OF recvs_W(1) n] by auto
    ultimately show ?thesis by blast
  next
    assume "us = [S_done] \<and> t = pair (ep (Cl c) [data_wr n] 1 [] x False False) (ep (Sv v) [] 1 [] y False True)"
    then have us: "us = [S_done]" and t: "t = pair (ep (Cl c) [data_wr n] 1 [] x False False) (ep (Sv v) [] 1 [] y False True)"
      by blast+
    have "fstate name data t" unfolding t by (rule writing [OF a(1,2)]) simp
    then show ?thesis unfolding t s f_left_simps by (simp add: us)
  qed
qed


lemma step_written:
  assumes k: "kernel_ok name data k" "name_ok name"
    and a: "reading name data c" "chunk_ok name data n (s_buffer v) c v" "ws = [] \<or> ws = [W_done]" "us = [] \<or> us = [S_done]"
    and s: "s = pair (ep (Cl c) [] 1 ws x False False) (ep (Sv v) [] 0 (us @ [R_data n]) y False True)"
    and st: "f_step k f_wire s t"
  shows "fstate name data t \<and> f_left data t < f_left data s"
proof -
  let ?e = "ep (Cl c) [] 1 ws x False False"
  have n: "n < 2 ^ 32" using a(2) by (simp add: chunk_ok_def)
  have "(ws = [W_done] \<and> t = pair (ep (Cl c) [] 1 [] x False False) (ep (Sv v) [] 0 (us @ [R_data n]) y False True)) \<or>
      (us = [S_done] \<and> t = pair ?e (ep (Sv v) [] 0 [R_data n] y False True)) \<or>
      (us = [] \<and> f_poll k Server (pair ?e (ep (Sv v) [] 0 [R_data n] y False True)) = Some t)"
    using st a(3,4) unfolding f_step_split s
    by (auto simp: deliver_nothing poll_nothing poll_sent)
  then consider
      (W) "ws = [W_done]" "t = pair (ep (Cl c) [] 1 [] x False False) (ep (Sv v) [] 0 (us @ [R_data n]) y False True)"
    | (S) "us = [S_done]" "t = pair ?e (ep (Sv v) [] 0 ([] @ [R_data n]) y False True)"
    | (R) "us = []" "f_poll k Server (pair ?e (ep (Sv v) [] 0 [R_data n] y False True)) = Some t"
    by auto
  then show ?thesis
  proof cases
    case W
    have "fstate name data t" unfolding W(2) by (rule written [OF a(1,2) _ a(4)]) simp
    moreover have "f_left data t < f_left data s" unfolding W s f_left_written [OF count_simps(2) n] f_left_written [OF recvs_W(1) n] by simp
    ultimately show ?thesis by blast
  next
    case S
    have "fstate name data t" unfolding S(2) by (rule written [OF a(1-3)]) simp
    moreover have "recvs ws = 0" using a(3) by auto
    then have "f_left data t < f_left data s" unfolding S s f_left_written [OF \<open>recvs ws = 0\<close> n] by simp
    ultimately show ?thesis by blast
  next
    case R
    have r0: "recvs ws = 0" using a(3) by auto
    have calls: "do_calls [Print z, Post_recv None, Post_send msg_wr] (ep (Sv v') [] 0 [] y False True) = ep (Sv v') [msg_wr] 1 [] (y @ [z]) False True" for v' z
      by (simp add: build_qp_attr_def)
    have next_msg: "fstate name data (pair ?e (ep (Sv v') [msg_wr] 1 [] (y @ [z]) False True))"
      if "named name (take (fd_pos c) data) v'" "msg_id (s_msg v') = MSG_READY" for v' z
      using sending [of name data c v' ws x "y @ [z]"] that a(1-3) by (simp add: chunk_ok_def)
    consider (name) "unnamed v" "fd_pos c = 0" "n = length name + 1" "take n (s_buffer v) = name @ [NUL]"
      | (fin) "n = 0" "named name data v"
      | (chunk) "n \<noteq> 0" "n \<le> fd_pos c" "named name (take (fd_pos c - n) data) v" "take n (s_buffer v) = take n (drop (fd_pos c - n) data)"
      using a(2) unfolding chunk_ok_def by (cases "n = 0") auto
    then show ?thesis
    proof cases
      case name
      obtain v' z where v': "s_on_completion k (R_data n) v = Some (v', [Print z, Post_recv None, Post_send msg_wr])" "named name [] v'" "msg_id (s_msg v') = MSG_READY"
        using server_on_name [OF k name(1,3,4)] by blast
      have t: "t = pair ?e (ep (Sv v') [msg_wr] 1 [] (y @ [z]) False True)"
        using R(2) unfolding server_polls [OF v'(1)] calls by simp
      have "fstate name data t" unfolding t using v'(2,3) name(2) by (intro next_msg) simp_all
      moreover have "f_left data t < f_left data s"
        unfolding t s f_left_simps f_left_written [OF r0 n] using v'(3) name(1) by (simp add: unnamed_def)
      ultimately show ?thesis by blast
    next
      case fin
      have t: "t = pair ?e (ep (Sv (set_id MSG_DONE v)) [msg_wr] 0 [] y False True)"
        using R(2) unfolding fin(1) server_polls [OF server_on_end] by (simp add: build_qp_attr_def)
      have "fstate name data t"
        unfolding t using sending [of name data c "set_id MSG_DONE v" ws x y] fin(2) a(1,3) by (simp add: set_id_def named_def)
      moreover have "f_left data t < f_left data s"
        unfolding t s f_left_simps f_left_written [OF r0 n] using fin by (auto simp: set_id_def named_def)
      ultimately show ?thesis by blast
    next
      case chunk
      obtain v' z where v': "s_on_completion k (R_data n) v = Some (v', [Print z, Post_recv None, Post_send msg_wr])"
          "named name (take (fd_pos c - n) data @ take n (s_buffer v)) v'" "msg_id (s_msg v') = MSG_READY"
        using server_on_chunk [OF k(1) chunk(3) n chunk(1)] by blast
      have "take (fd_pos c - n) data @ take n (s_buffer v) = take (fd_pos c) data"
        unfolding chunk(4) using chunk(2) by (metis le_add_diff_inverse2 take_add)
      then have "named name (take (fd_pos c) data) v'" using v'(2) by simp
      moreover have t: "t = pair ?e (ep (Sv v') [msg_wr] 1 [] (y @ [z]) False True)"
        using R(2) unfolding server_polls [OF v'(1)] calls by simp
      ultimately have "fstate name data t" unfolding t using v'(3) by (intro next_msg)
      moreover have "f_left data t < f_left data s"
        unfolding t s f_left_simps f_left_written [OF r0 n] using v'(3) chunk(1,3) by (auto simp: named_def)
      ultimately show ?thesis by blast
    qed
  qed
qed

lemma step_over:
  assumes a: "named name data v" "us = [] \<or> us = [S_done]"
    and s: "s = pair (ep (Cl c) [] 0 [] x True False) (ep (Sv v) [] 0 us y False True)"
    and st: "f_step k f_wire s t"
  shows "fstate name data t \<and> f_left data t < f_left data s"
proof -
  have us: "us = [S_done]" and t: "t = pair (ep (Cl c) [] 0 [] x True False) (ep (Sv v) [] 0 [] y False True)"
    using st a(2) unfolding f_step_split s by (auto simp: deliver_nothing poll_nothing poll_sent)
  have "fstate name data t" unfolding t by (rule over [OF a(1)]) simp
  then show ?thesis unfolding t s f_left_simps by (simp add: us)
qed

lemma fstate_step:
  assumes k: "kernel_ok name data k" "name_ok name" and s: "fstate name data s" and st: "f_step k f_wire s t"
  shows "fstate name data t \<and> f_left data t < f_left data s"
  using s
proof (cases rule: fstate.cases)
  case (idle c v x y)
  then show ?thesis using step_idle st by blast
next
  case (sending c v ws x y)
  show ?thesis by (rule step_sending [OF sending(2-4,1) st])
next
  case (arrived c v ws us x y)
  show ?thesis by (rule step_arrived [OF k arrived(2-6,1) st])
next
  case (writing c n v us x y)
  show ?thesis by (rule step_writing [OF writing(2-4,1) st])
next
  case (written c n v ws us x y)
  show ?thesis by (rule step_written [OF k written(2-5,1) st])
next
  case (over v us c x y)
  show ?thesis by (rule step_over [OF over(2,3,1) st])
qed


lemma f_init_state:
  assumes "f_init name data s"
  shows "fstate name data s \<and> f_left data s = 12 * length data + 33"
proof -
  obtain c v c' v' cs vs x y where i: "fd_data c = data" "fd_pos c = 0" "c_file_name c = name"
    "length (file_name v) = MAX_FILE_NAME" "s_file v = None" "c_on_pre_conn c = (c', cs)" "s_on_pre_conn v = (v', vs)"
    and s: "s = pair (do_calls cs (ep (Cl c') [] 0 [] x False False)) (do_calls vs (ep (Sv v') [] 0 [] y False False))"
    using assms by (auto simp: f_init_def)
  have e: "do_calls cs (ep (Cl c') [] 0 [] x False False) = ep (Cl c') [] 1 [] x False False"
    "do_calls vs (ep (Sv v') [] 0 [] y False False) = ep (Sv v') [] 1 [] y False False"
    using i(6,7) by (auto simp: c_on_pre_conn_def s_on_pre_conn_def c_post_receive_def s_post_receive_def build_qp_attr_def)
  have "reading name data c'" "fd_pos c' = 0" "unnamed v'"
    using i by (auto simp: c_on_pre_conn_def s_on_pre_conn_def reading_def unnamed_def MAX_FILE_NAME_def)
  then have "fstate name data s" unfolding s e by (rule idle)
  then show ?thesis unfolding s e f_left_simps by simp
qed

definition f_finished :: "f_link \<Rightarrow> bool" where
  "f_finished s \<longleftrightarrow> gone (s Client) \<and> cq (s Server) = []"

lemma f_enabled:
  assumes k: "kernel_ok name data k" "name_ok name" and s: "fstate name data s" and nf: "\<not> f_finished s"
  shows "\<exists>t. f_step k f_wire s t"
  using s
proof (cases rule: fstate.cases)
  case (idle c v x y)
  have "\<exists>t. f_establish Server s = Some t" unfolding idle(1) by (simp split: prod.splits)
  then show ?thesis unfolding f_step_split by blast
next
  case (sending c v ws x y)
  then have "\<exists>t. deliver_by f_execute Server s = Some t" unfolding sending(1) One_nat_def deliver_message by simp
  then show ?thesis unfolding f_step_split by blast
next
  case (arrived c v ws us x y)
  have "\<exists>t. f_poll k Client s = Some t"
    using arrived(5) unfolding arrived(1) by (auto simp: poll_sent intro: client_polls_some)
  then show ?thesis unfolding f_step_split by blast
next
  case (writing c n v us x y)
  then have "\<exists>t. deliver_by f_execute Client s = Some t"
    unfolding writing(1) using deliver_data [of c n 1 "[]" x False False v "[]" 0 us y False True] by simp
  then show ?thesis unfolding f_step_split by blast
next
  case (written c n v ws us x y)
  have "\<exists>r. s_on_completion k (R_data n) v = Some r"
  proof -
    have n: "n < 2 ^ 32" using written(3) by (simp add: chunk_ok_def)
    consider (name) "unnamed v" "n = length name + 1" "take n (s_buffer v) = name @ [NUL]" | (fin) "n = 0"
      | (chunk) "n \<noteq> 0" "named name (take (fd_pos c - n) data) v"
      using written(3) unfolding chunk_ok_def by blast
    then show ?thesis
      by cases (use server_on_name [OF k] server_on_end server_on_chunk [OF k(1) _ n] in blast)+
  qed
  then obtain v' cs where "s_on_completion k (R_data n) v = Some (v', cs)" by auto
  then have "\<exists>t. f_poll k Server s = Some t"
    using written(5) unfolding written(1) by (auto simp: poll_sent server_polls)
  then show ?thesis unfolding f_step_split by blast
next
  case (over v us c x y)
  then have "us = [S_done]" using nf by (simp add: f_finished_def)
  then have "\<exists>t. f_poll k Server s = Some t" unfolding over(1) by (simp add: poll_sent)
  then show ?thesis unfolding f_step_split by blast
qed

interpretation transfer: ending_protocol "\<lambda>s. kernel_ok name data k \<and> name_ok name \<and> f_init name data s" "f_step k f_wire"
    "\<lambda>s. kernel_ok name data k \<and> name_ok name \<and> fstate name data s" "f_left data" f_finished for name data k
proof unfold_locales
  fix s t
  show "kernel_ok name data k \<and> name_ok name \<and> f_init name data s \<Longrightarrow> kernel_ok name data k \<and> name_ok name \<and> fstate name data s"
    using f_init_state by blast
  show "kernel_ok name data k \<and> name_ok name \<and> fstate name data s \<Longrightarrow> f_step k f_wire s t \<Longrightarrow>
      kernel_ok name data k \<and> name_ok name \<and> fstate name data t" using fstate_step by blast
  show "kernel_ok name data k \<and> name_ok name \<and> fstate name data s \<Longrightarrow> f_step k f_wire s t \<Longrightarrow> f_left data t < f_left data s"
    using fstate_step by blast
  show "kernel_ok name data k \<and> name_ok name \<and> fstate name data s \<Longrightarrow> \<not> f_finished s \<Longrightarrow> \<exists>t. f_step k f_wire s t"
    using f_enabled by blast
  show "kernel_ok name data k \<and> name_ok name \<and> fstate name data s \<Longrightarrow> f_finished s \<Longrightarrow> f_left data s = 0"
  proof -
    assume a: "kernel_ok name data k \<and> name_ok name \<and> fstate name data s" "f_finished s"
    then have "fstate name data s" by blast
    then show "f_left data s = 0"
    proof (cases rule: fstate.cases)
      case (over v us c x y)
      then show ?thesis using a(2) unfolding over(1) by (simp add: f_finished_def f_left_simps)
    qed (use a(2) in \<open>auto simp: f_finished_def\<close>)
  qed
qed

subsection \<open>Theorems\<close>

definition f_adapter :: "(f_link \<Rightarrow> f_link \<Rightarrow> bool) \<Rightarrow> bool" where
  "f_adapter wire \<longleftrightarrow> (\<forall>s t. wire s t \<longrightarrow> f_wire s t)"

definition f_fair :: "(f_link \<Rightarrow> f_link \<Rightarrow> bool) \<Rightarrow> bool" where
  "f_fair wire \<longleftrightarrow> (\<forall>s. (\<exists>t. f_wire s t) \<longrightarrow> (\<exists>t. wire s t))"

lemma f_wire_self: "f_adapter f_wire" "f_fair f_wire"
  by (simp_all add: f_adapter_def f_fair_def)

lemma f_reachable_state:
  assumes "kernel_ok name data k" "name_ok name" "f_adapter wire" "reachable (f_init name data) (f_step k wire) s"
  shows "fstate name data s"
proof -
  have "reachable (f_init name data) (f_step k f_wire) s"
    by (rule lstep_reachable_mono [OF assms(4)]) (use assms(3) in \<open>simp add: f_adapter_def\<close>)
  then show ?thesis
  proof (induction rule: reachable.induct)
    case (reach_init s)
    then show ?case using f_init_state by blast
  next
    case (reach_step s t)
    then show ?case using fstate_step [OF assms(1,2)] by blast
  qed
qed

definition file_ok :: "string \<Rightarrow> string \<Rightarrow> conn_context \<Rightarrow> bool" where
  "file_ok name data v \<longleftrightarrow> s_file v = None \<or> (\<exists>n. named name (take n data) v)"

lemma file_okI: "unnamed v \<Longrightarrow> file_ok name data v" "named name (take n data) v \<Longrightarrow> file_ok name data v"
  "named name data v \<Longrightarrow> file_ok name data v"
proof -
  show "named name data v \<Longrightarrow> file_ok name data v"
    unfolding file_ok_def by (rule disjI2, rule exI [of _ "length data"]) simp
qed (auto simp: file_ok_def unnamed_def)

lemma msg_file_ok: "msg_ok name data c v m \<Longrightarrow> file_ok name data v"
  by (cases m) (auto intro: file_okI)

lemma chunk_file_ok: "chunk_ok name data n buf c v \<Longrightarrow> file_ok name data v"
  unfolding chunk_ok_def using file_okI by blast

lemma fstate_file:
  assumes "fstate name data s"
  shows "\<exists>v. conn (s Server) = Sv v \<and> \<not> exited (s p) \<and> file_ok name data v \<and> (gone (s Client) \<longrightarrow> named name data v)"
  using assms
proof (cases rule: fstate.cases)
  case (idle c v x y)
  then show ?thesis using file_okI(1) [OF idle(4)] by (cases p) (simp_all add: idle(1))
next
  case (sending c v ws x y)
  then show ?thesis using msg_file_ok [OF sending(3)] by (cases p) (simp_all add: sending(1))
next
  case (arrived c v ws us x y)
  then show ?thesis using msg_file_ok [OF arrived(3)] by (cases p) (simp_all add: arrived(1))
next
  case (writing c n v us x y)
  then show ?thesis using chunk_file_ok [OF writing(3)] by (cases p) (simp_all add: writing(1))
next
  case (written c n v ws us x y)
  then show ?thesis using chunk_file_ok [OF written(3)] by (cases p) (simp_all add: written(1))
next
  case (over v us c x y)
  then show ?thesis using file_okI(3) [OF over(2)] by (cases p) (simp_all add: over(1))
qed



text \<open>C40: The server's first handler stores the end of the file name where the length sent by the peer says:
  with a length above \<open>MAX_FILE_NAME\<close> the store is outside the array, although the copy before it is
  bounded; up to that length, that is for every name a file system has, it is inside.\<close>

theorem file_name_overflow:
  assumes "wc_opcode wc = WC_RECV_RDMA_WITH_IMM" "length (file_name v) = MAX_FILE_NAME" "file_name v ! 0 = NUL"
    and "unat (ntohl (wc_imm wc)) \<noteq> 0" "unat (ntohl (wc_imm wc)) \<le> length (s_buffer v)"
  shows "s_on_completion k wc v = None \<longleftrightarrow> unat (ntohl (wc_imm wc)) > MAX_FILE_NAME"
proof -
  define n where "n = unat (ntohl (wc_imm wc))"
  have s: "s_on_completion k wc v = take_file_name k n v"
    using assms(1,3,4) by (simp add: s_on_completion_def n_def)
  let ?m = "if n > MAX_FILE_NAME then MAX_FILE_NAME else n"
  have "length (overwrite (file_name v) 0 (take ?m (s_buffer v))) = MAX_FILE_NAME"
    using assms(2,5) by (simp add: n_def)
  then have "c_store (overwrite (file_name v) 0 (take ?m (s_buffer v))) (n - 1) NUL = None \<longleftrightarrow> MAX_FILE_NAME \<le> n - 1"
    by (simp add: c_store_def)
  moreover have "MAX_FILE_NAME \<le> n - 1 \<longleftrightarrow> n > MAX_FILE_NAME" using assms(4) by (auto simp: n_def)
  ultimately show ?thesis
    unfolding s n_def [symmetric] by (simp add: take_file_name_def Let_def bind_eq_None_conv split: if_splits)
qed


subsection \<open>An instance\<close>

text \<open>A kernel that reads one character at a time, and the state both sides start in.\<close>

definition slow_kernel :: "string \<Rightarrow> kernel" where
  "slow_kernel data =
     \<lparr>read_ret = (\<lambda>pos. if pos < length data then 1 else 0), open_new_ok = (\<lambda>_. True), write_ret = (\<lambda>n len. int len)\<rparr>"

definition f_client0 :: "string \<Rightarrow> string \<Rightarrow> client_context" where
  "f_client0 name data = \<lparr>c_buffer = [], c_msg = \<lparr>msg_id = MSG_INVALID, data_addr = Msg, data_rkey = Msg\<rparr>, peer_addr = Msg, peer_rkey = Msg,
     fd_data = data, fd_pos = 0, c_file_name = name\<rparr>"

definition f_server0 :: conn_context where
  "f_server0 = \<lparr>s_buffer = [], s_msg = \<lparr>msg_id = MSG_INVALID, data_addr = Msg, data_rkey = Msg\<rparr>, s_file = None,
     file_name = replicate MAX_FILE_NAME (CHR ''x'')\<rparr>"

definition f_started :: "string \<Rightarrow> string \<Rightarrow> f_link" where
  "f_started name data =
     pair (do_calls (snd (c_on_pre_conn (f_client0 name data))) (ep (Cl (fst (c_on_pre_conn (f_client0 name data)))) [] 0 [] [] False False))
       (do_calls (snd (s_on_pre_conn f_server0)) (ep (Sv (fst (s_on_pre_conn f_server0))) [] 0 [] [] False False))"

lemma f_init_started: "f_init name data (f_started name data)"
  unfolding f_init_def f_started_def
  by (rule exI [of _ "f_client0 name data"], rule exI [of _ f_server0], rule exI [of _ "fst (c_on_pre_conn (f_client0 name data))"],
      rule exI [of _ "fst (s_on_pre_conn f_server0)"], rule exI [of _ "snd (c_on_pre_conn (f_client0 name data))"],
      rule exI [of _ "snd (s_on_pre_conn f_server0)"], rule exI [of _ "[]"], rule exI [of _ "[]"])
     (simp add: f_client0_def f_server0_def)

lemma slow_kernel_ok: "kernel_ok name data (slow_kernel data)"
  by (auto simp: kernel_ok_def slow_kernel_def BUFFER_SIZE_def)

lemma name_ok_ab: "name_ok ''ab''"
  by (simp add: name_ok_def NUL_def MAX_FILE_NAME_def)

lemma file_run:
  "\<exists>n t. (f_step (slow_kernel data) f_wire ^^ n) (f_started ''ab'' data) t \<and> (\<nexists>u. f_step (slow_kernel data) f_wire t u)"
  using transfer.reaches_end [of "''ab''" data "slow_kernel data" "f_started ''ab'' data"] slow_kernel_ok name_ok_ab
    f_init_state [OF f_init_started] by blast



theorem file_name_overflow_witness:
  "s_on_completion (slow_kernel []) (R_data 300)
     (f_server0\<lparr>s_buffer := replicate 300 (CHR ''y''), file_name := replicate MAX_FILE_NAME NUL\<rparr>) = None"
  using file_name_overflow [of "R_data 300" "f_server0\<lparr>s_buffer := replicate 300 (CHR ''y''), file_name := replicate MAX_FILE_NAME NUL\<rparr>" "slow_kernel []"]
  by (simp add: MAX_FILE_NAME_def unat_u32)

end
