(* ===== verification/DeviceQuery.thy ===== *)
theory DeviceQuery
  imports Prelude
begin

text \<open>
  The program that lists the RDMA devices and takes one through its paces (\<open>src/rdma/ibv.c\<close>).

  \<^item> The verbs library is an argument: the devices it lists with names and types, which calls succeed (\<open>ok\<close>), and the
    attributes of the device. A program is the list of its calls, and of what it prints, until it returns.
  \<^item> A device that is not in the list is the null pointer behind its end, which \<open>ibv_open_device\<close> may not get: \<open>None\<close>.
  \<^item> The event thread is shown by itself; when \<open>main\<close> returns it ends with the process.
\<close>

datatype ibv_call = Open_device nat | Start_event_thread | Query_device | Alloc_pd | Reg_mr nat | Create_comp_channel | Create_cq nat
  | Create_qp nat nat nat nat | Post_send nat | Destroy_qp | Destroy_cq | Destroy_comp_channel | Dereg_mr | Dealloc_pd
  | Close_device | Free_device_list

text \<open>What a call makes and what it takes away.\<close>

datatype ibv_object = Device_list | Context | Protection_domain | Memory_region | Channel | Completion_queue | Queue_pair

fun makes :: "ibv_call \<Rightarrow> ibv_object option" where
  "makes (Open_device n) = Some Context" | "makes Alloc_pd = Some Protection_domain" | "makes (Reg_mr n) = Some Memory_region"
| "makes Create_comp_channel = Some Channel" | "makes (Create_cq n) = Some Completion_queue" | "makes (Create_qp a b c d) = Some Queue_pair"
| "makes _ = None"

fun unmakes :: "ibv_call \<Rightarrow> ibv_object option" where
  "unmakes Close_device = Some Context" | "unmakes Dealloc_pd = Some Protection_domain" | "unmakes Dereg_mr = Some Memory_region"
| "unmakes Destroy_comp_channel = Some Channel" | "unmakes Destroy_cq = Some Completion_queue" | "unmakes Destroy_qp = Some Queue_pair"
| "unmakes Free_device_list = Some Device_list" | "unmakes _ = None"

text \<open>\<open>while (n--) if (strcmp(argv[1], name of devlst[n]) == 0) break;\<close>\<close>

fun find_device :: "string \<Rightarrow> string list \<Rightarrow> nat \<Rightarrow> int" where
  "find_device arg names 0 = - 1"
| "find_device arg names (Suc n) = (if arg = names ! n then int n else find_device arg names n)"

text \<open>The calls after a device was chosen: each with the text printed when it fails, if its result is tested, and with
  what is printed when it succeeds.\<close>

definition ibv_plan :: "string list \<Rightarrow> nat \<Rightarrow> nat \<times> nat \<Rightarrow> (ibv_call \<times> string option \<times> string list) list" where
  "ibv_plan names n attr =
     [(Open_device n, Some ''ibv_open_device'', [names ! n @ '' opened'']),
      (Start_event_thread, None, []),
      (Query_device, Some ''ibv_query_device'', [''max_srq = '' @ decimal (fst attr), ''phys_port_cnt = '' @ decimal (snd attr)]),
      (Alloc_pd, Some ''ibv_allocate_pd'', []),
      (Reg_mr 65536, Some ''ibv_reg_mr'', []),
      (Create_comp_channel, Some ''ibv_create_comp_channel'', []),
      (Create_cq 10, Some ''ibv_create_cq'', []),
      (Create_qp 1 1 1 1, Some ''ibv_create_qp'', []),
      (Post_send 65536, Some ''ERROR: ibv_post_send() failed'', []),
      (Destroy_qp, None, []), (Destroy_cq, None, []), (Destroy_comp_channel, None, []), (Dereg_mr, None, []),
      (Dealloc_pd, None, []), (Close_device, None, []), (Free_device_list, None, [])]"

text \<open>The calls made, the lines printed and the exit status.\<close>

fun run_plan :: "(ibv_call \<Rightarrow> bool) \<Rightarrow> (ibv_call \<times> string option \<times> string list) list \<Rightarrow> ibv_call list \<times> string list \<times> int" where
  "run_plan ok [] = ([], [], 0)"
| "run_plan ok ((c, msg, out) # rest) =
     (case (ok c, msg) of
        (False, Some m) \<Rightarrow> ([c], [m], 1)
      | _ \<Rightarrow> let (cs, lines, status) = run_plan ok rest in (c # cs, out @ lines, status))"

definition device_lines :: "(string \<times> string) list \<Rightarrow> string list" where
  "device_lines devices =
     map (\<lambda>i. ''#'' @ decimal (i + 1) @ '' '' @ fst (devices ! i) @ [CHR 0x09] @ '' node-type='' @ [CHR 0x27] @ snd (devices ! i) @ [CHR 0x27])
       [0..<length devices]"

definition main_ibv :: "(ibv_call \<Rightarrow> bool) \<Rightarrow> (string \<times> string) list option \<Rightarrow> nat \<times> nat \<Rightarrow> string list \<Rightarrow> (ibv_call list \<times> string list \<times> int) option" where
  "main_ibv ok devlst attr argv =
     (case devlst of None \<Rightarrow> Some ([], [''ibv_get_device_list''], 1)
      | Some devices \<Rightarrow>
          let names = map fst devices; lines = device_lines devices @ [''''];
              n = (if length argv \<ge> 2 then find_device (argv ! 1) names (length devices) else 0)
          in if n < 0 then Some ([], lines @ [''device not found!''], 1)
             else if length devices \<le> nat n then None
             else let (cs, rest, status) = run_plan ok (ibv_plan names (nat n) attr) in Some (cs, lines @ rest, status))"

text \<open>The event thread on the events the library reports until it fails.\<close>

definition event_thread :: "string list \<Rightarrow> string list" where
  "event_thread events = map (\<lambda>e. ''EVENT: '' @ e) events @ [''ERROR: event'']"

subsection \<open>Properties\<close>

lemma find_device_last:
  "case find_device arg names n of k \<Rightarrow>
     (k < 0 \<longleftrightarrow> (\<forall>i<n. names ! i \<noteq> arg)) \<and> (0 \<le> k \<longrightarrow> nat k < n \<and> names ! nat k = arg \<and> (\<forall>i. nat k < i \<and> i < n \<longrightarrow> names ! i \<noteq> arg))"
  by (induction n) (auto simp: less_Suc_eq)

text \<open>What a list of calls makes or takes away.\<close>

definition objects :: "(ibv_call \<Rightarrow> ibv_object option) \<Rightarrow> ibv_call list \<Rightarrow> ibv_object list" where
  "objects f cs = concat (map (\<lambda>c. case f c of None \<Rightarrow> [] | Some x \<Rightarrow> [x]) cs)"

lemma run_plan_cases:
  "case run_plan ok plan of (cs, lines, status) \<Rightarrow>
     status = 0 \<and> cs = map fst plan \<and> (\<forall>(c, msg, out) \<in> set plan. ok c \<or> msg = None) \<or>
     (\<exists>k<length plan. status = 1 \<and> cs = map fst (take (Suc k) plan) \<and> \<not> ok (fst (plan ! k)) \<and> fst (snd (plan ! k)) \<noteq> None \<and>
        (\<forall>i<k. ok (fst (plan ! i)) \<or> fst (snd (plan ! i)) = None))"
proof (induction plan)
  case (Cons p plan)
  obtain c msg out where p: "p = (c, msg, out)" by (cases p)
  obtain cs lines status where r: "run_plan ok plan = (cs, lines, status)" by (cases "run_plan ok plan")
  show ?case
  proof (cases "ok c \<or> msg = None")
    case True
    then have "run_plan ok (p # plan) = (c # cs, out @ lines, status)" using p r by (auto split: option.splits bool.splits)
    then show ?thesis using Cons True unfolding p r by (fastforce simp: less_Suc_eq_0_disj)
  next
    case False
    then have "run_plan ok (p # plan) = ([c], [the msg], 1)" using p by auto
    then show ?thesis using False p by (auto intro!: exI [of _ 0])
  qed
qed simp

lemma plan_tested: "k < length (ibv_plan names n attr) \<Longrightarrow> fst (snd (ibv_plan names n attr ! k)) \<noteq> None \<Longrightarrow> k < 9"
  by (rule ccontr) (simp add: ibv_plan_def nth_Cons' split: if_splits)

lemma plan_objects:
  "objects makes (map fst (ibv_plan names n attr)) = [Context, Protection_domain, Memory_region, Channel, Completion_queue, Queue_pair]"
  "objects unmakes (map fst (ibv_plan names n attr)) =
     [Queue_pair, Completion_queue, Channel, Memory_region, Protection_domain, Context, Device_list]"
  "k < 9 \<Longrightarrow> objects unmakes (map fst (take (Suc k) (ibv_plan names n attr))) = []"
proof -
  show "objects unmakes (map fst (take (Suc k) (ibv_plan names n attr))) = []" if "k < 9"
  proof -
    have "objects unmakes (map fst (take 9 (ibv_plan names n attr))) = []" by (simp add: objects_def ibv_plan_def)
    moreover have "set (map fst (take (Suc k) (ibv_plan names n attr))) \<subseteq> set (map fst (take 9 (ibv_plan names n attr)))"
      using that set_take_subset_set_take [of "Suc k" 9 "ibv_plan names n attr"] by auto
    ultimately show ?thesis by (fastforce simp: objects_def)
  qed
qed (simp_all add: objects_def ibv_plan_def)


text \<open>Remark: Without devices and without a name the program opens a device that does not exist, which is undefined; otherwise it
  is defined.\<close>

theorem device_query_undefined: "main_ibv ok devlst attr argv = None \<longleftrightarrow> devlst = Some [] \<and> length argv < 2"
  using find_device_last [where arg = "argv ! 1" and names = "map fst (the devlst)" and n = "length (the devlst)"]
  by (cases devlst) (auto simp: main_ibv_def Let_def case_prod_beta not_le)


end
