(* ===== verification/VioLink.thy ===== *)
theory VioLink
  imports Prelude
begin

text \<open>
  A connection between two programs that make one system call after the other, for the network benchmarks
  \<open>src/mysql/vio-bench\<close> and \<open>vio-bench2\<close>.

  \<^item> \<open>call\<close> says which system call a program is making, \<open>event\<close> what the call returns. Both are what the sources use of
    \<open>send\<close>, \<open>recv\<close> and \<open>poll\<close>.
  \<^item> The connection is two byte streams, each with room for \<open>cap\<close> bytes, that lose nothing.
  \<^item> The locale \<open>endpoint\<close> is what a side of a request-reply protocol promises; \<open>request_reply\<close> puts a client
    and a server together. Both pairs of programs interpret it.
\<close>

subsection \<open>System calls\<close>

text \<open>\<open>Receives\<close> has the size asked for and whether the call may block.\<close>

datatype call = Sends nat | Receives nat bool | Polls_in | Polls_out | Closed

datatype event = Bytes string | Accepted nat | Interrupted | Again | Failed | Ready

text \<open>One call of a program \<open>x\<close> with its output and input stream: the program after the call, and the streams.
  \<open>fill\<close> is the byte all its data consists of, \<open>gone\<close> says that the peer has closed its end.\<close>

inductive half_step :: "nat \<Rightarrow> char \<Rightarrow> ('x \<Rightarrow> call) \<Rightarrow> (event \<Rightarrow> 'x \<Rightarrow> 'x) \<Rightarrow> bool \<Rightarrow> 'x \<Rightarrow> string \<Rightarrow> string \<Rightarrow> 'x \<Rightarrow> string \<Rightarrow> string \<Rightarrow> bool"
  for cap fill call on gone x outp inp where
  sends: "call x = Sends n \<Longrightarrow> 0 < k \<Longrightarrow> k \<le> n \<Longrightarrow> length outp + k \<le> cap \<Longrightarrow>
    half_step cap fill call on gone x outp inp (on (Accepted k) x) (outp @ replicate k fill) inp"
| full: "call x = Sends n \<Longrightarrow> length outp = cap \<Longrightarrow> half_step cap fill call on gone x outp inp (on Again x) outp inp"
| receives: "call x = Receives n blocks \<Longrightarrow> inp = xs @ ys \<Longrightarrow> xs \<noteq> [] \<Longrightarrow> length xs \<le> n \<Longrightarrow>
    half_step cap fill call on gone x outp inp (on (Bytes xs) x) outp ys"
| nothing_yet: "call x = Receives n False \<Longrightarrow> inp = [] \<Longrightarrow> \<not> gone \<Longrightarrow> half_step cap fill call on gone x outp inp (on Again x) outp inp"
| end_of_stream: "call x = Receives n blocks \<Longrightarrow> inp = [] \<Longrightarrow> gone \<Longrightarrow> half_step cap fill call on gone x outp inp (on (Bytes []) x) outp inp"
| readable: "call x = Polls_in \<Longrightarrow> inp \<noteq> [] \<or> gone \<Longrightarrow> half_step cap fill call on gone x outp inp (on Ready x) outp inp"
| writable: "call x = Polls_out \<Longrightarrow> length outp < cap \<Longrightarrow> half_step cap fill call on gone x outp inp (on Ready x) outp inp"
| interrupted: "call x \<noteq> Closed \<Longrightarrow> half_step cap fill call on gone x outp inp (on Interrupted x) outp inp"

record ('c, 's) link =
  cl :: 'c
  sv :: 's
  c2s :: string
  s2c :: string

inductive link_step :: "nat \<Rightarrow> ('c \<Rightarrow> call) \<Rightarrow> (event \<Rightarrow> 'c \<Rightarrow> 'c) \<Rightarrow> ('s \<Rightarrow> call) \<Rightarrow> (event \<Rightarrow> 's \<Rightarrow> 's) \<Rightarrow> ('c, 's) link \<Rightarrow> ('c, 's) link \<Rightarrow> bool"
  for cap ccall con scall son where
  client_calls: "half_step cap CHR ''c'' ccall con (scall (sv l) = Closed) (cl l) (c2s l) (s2c l) c' out' in' \<Longrightarrow>
    link_step cap ccall con scall son l (l\<lparr>cl := c', c2s := out', s2c := in'\<rparr>)"
| server_calls: "half_step cap CHR ''s'' scall son (ccall (cl l) = Closed) (sv l) (s2c l) (c2s l) s' out' in' \<Longrightarrow>
    link_step cap ccall con scall son l (l\<lparr>sv := s', s2c := out', c2s := in'\<rparr>)"

text \<open>A call that the connection can complete with data.\<close>

definition can_go :: "nat \<Rightarrow> call \<Rightarrow> string \<Rightarrow> string \<Rightarrow> bool" where
  "can_go cap c outp inp \<longleftrightarrow>
     (case c of Sends n \<Rightarrow> length outp < cap | Receives n b \<Rightarrow> inp \<noteq> [] | Polls_in \<Rightarrow> inp \<noteq> [] | Polls_out \<Rightarrow> length outp < cap
      | Closed \<Rightarrow> False)"

subsection \<open>One side of the protocol\<close>

text \<open>What a side is doing: sending, with some bytes left, or receiving, with some bytes there.\<close>

datatype phase = Sending nat | Receiving string | Ended

text \<open>\<open>S\<close> and \<open>R\<close> are the sizes of the messages it sends and receives, \<open>want\<close> the byte it expects; \<open>rounds\<close> counts the
  messages it sent if \<open>per_send\<close> is 1 and those it received if \<open>per_send\<close> is 0.\<close>

locale endpoint =
  fixes call :: "'x \<Rightarrow> call" and on :: "event \<Rightarrow> 'x \<Rightarrow> 'x" and phase :: "'x \<Rightarrow> phase" and rounds :: "'x \<Rightarrow> nat"
    and S R :: nat and want :: char and per_send :: nat
  assumes sizes: "0 < S" "0 < R" "per_send \<le> 1"
    and sending: "phase x = Sending n \<Longrightarrow> 0 < n \<and> n \<le> S \<and> (call x = Sends n \<or> call x = Polls_out)"
    and receiving: "phase x = Receiving got \<Longrightarrow> length got < R \<and> (call x = Polls_in \<or> (\<exists>b. call x = Receives (R - length got) b))"
    and accepted: "phase x = Sending n \<Longrightarrow> call x = Sends n \<Longrightarrow> 0 < k \<Longrightarrow> k \<le> n \<Longrightarrow>
      (phase (on (Accepted k) x), rounds (on (Accepted k) x)) =
      (if k = n then (Receiving [], rounds x + per_send) else (Sending (n - k), rounds x))"
    and bytes: "phase x = Receiving got \<Longrightarrow> call x = Receives n b \<Longrightarrow> xs \<noteq> [] \<Longrightarrow> length xs \<le> n \<Longrightarrow> set (got @ xs) \<subseteq> {want} \<Longrightarrow>
      (phase (on (Bytes xs) x), rounds (on (Bytes xs) x)) =
      (if length xs = n then (Sending S, rounds x + (1 - per_send)) else (Receiving (got @ xs), rounds x))"
    and kept: "phase x \<noteq> Ended \<Longrightarrow> e = Interrupted \<or> e = Ready \<and> call x \<in> {Polls_in, Polls_out} \<Longrightarrow>
      phase (on e x) = phase x \<and> rounds (on e x) = rounds x"
    and no_data: "phase x = Receiving got \<Longrightarrow> call x = Receives n False \<Longrightarrow> phase (on Again x) = phase x \<and> rounds (on Again x) = rounds x"
begin

lemma open_call: "phase x \<noteq> Ended \<Longrightarrow> call x \<noteq> Closed"
  using sending [of x] receiving [of x] by (cases "phase x") auto

lemma not_sending: "call x = Receives n b \<Longrightarrow> phase x \<noteq> Sending k"
  using sending [of x k] by fastforce

end

subsection \<open>Client and server\<close>

locale request_reply =
  client: endpoint ccall con cphase crounds Q R "CHR ''s''" 0 +
  server: endpoint scall son sphase srounds R Q "CHR ''c''" 1
  for ccall :: "'c \<Rightarrow> call" and con cphase crounds and scall :: "'s \<Rightarrow> call" and son sphase srounds and Q R :: nat +
  fixes cap :: nat
  assumes room: "Q \<le> cap" "R \<le> cap"
begin

text \<open>How many bytes of the request or the reply are where.\<close>

definition in_step :: "('c, 's) link \<Rightarrow> bool" where
  "in_step l \<longleftrightarrow>
     set (c2s l) \<subseteq> {CHR ''c''} \<and> set (s2c l) \<subseteq> {CHR ''s''} \<and>
     (case (cphase (cl l), sphase (sv l)) of
        (Sending n, Receiving got) \<Rightarrow>
          n + length (c2s l) + length got = Q \<and> set got \<subseteq> {CHR ''c''} \<and> s2c l = [] \<and> srounds (sv l) = crounds (cl l)
      | (Receiving g, Receiving got) \<Rightarrow>
          set got \<subseteq> {CHR ''c''} \<and> set g \<subseteq> {CHR ''s''} \<and>
          (length (c2s l) + length got = Q \<and> g = [] \<and> s2c l = [] \<and> srounds (sv l) = crounds (cl l) \<or>
           length (s2c l) + length g = R \<and> got = [] \<and> c2s l = [] \<and> srounds (sv l) = crounds (cl l) + 1)
      | (Receiving g, Sending w) \<Rightarrow>
          w + length (s2c l) + length g = R \<and> set g \<subseteq> {CHR ''s''} \<and> c2s l = [] \<and> srounds (sv l) = crounds (cl l)
      | _ \<Rightarrow> False)"

lemma in_step_open: "in_step l \<Longrightarrow> cphase (cl l) \<noteq> Ended \<and> sphase (sv l) \<noteq> Ended"
  by (auto simp: in_step_def split: phase.splits)

lemma not_gone: "in_step l \<Longrightarrow> ccall (cl l) \<noteq> Closed \<and> scall (sv l) \<noteq> Closed"
  using in_step_open client.open_call server.open_call by blast

lemma client_step:
  assumes i: "in_step l"
    and h: "half_step cap CHR ''c'' ccall con (scall (sv l) = Closed) (cl l) (c2s l) (s2c l) c' out' in'"
  shows "in_step (l\<lparr>cl := c', c2s := out', s2c := in'\<rparr>)"
proof -
  have o: "cphase (cl l) \<noteq> Ended" "scall (sv l) \<noteq> Closed" using in_step_open [OF i] not_gone [OF i] by auto
  from h show ?thesis
  proof cases
    case (sends n k)
    then obtain got where p: "cphase (cl l) = Sending n" "sphase (sv l) = Receiving got"
      using client.sending [of "cl l"] client.receiving [of "cl l"] i o(1)
      by (cases "cphase (cl l)"; cases "sphase (sv l)") (auto simp: in_step_def)
    have c: "(cphase c', crounds c') = (if k = n then (Receiving [], crounds (cl l) + 0) else (Sending (n - k), crounds (cl l)))"
      unfolding sends(1) by (rule client.accepted [OF p(1) sends(4,5,6)])
    show ?thesis using i c p sends by (auto simp: in_step_def split: if_splits)
  next
    case (full n)
    then obtain got where p: "cphase (cl l) = Sending n" "sphase (sv l) = Receiving got"
      using client.sending [of "cl l"] client.receiving [of "cl l"] i o(1)
      by (cases "cphase (cl l)"; cases "sphase (sv l)") (auto simp: in_step_def)
    then have "n + length (c2s l) \<le> Q" using i by (simp add: in_step_def)
    then show ?thesis using client.sending [OF p(1)] full room(1) by linarith
  next
    case (receives n b xs)
    obtain g where p: "cphase (cl l) = Receiving g"
      using client.not_sending [OF receives(3)] o(1) by (cases "cphase (cl l)") auto
    then have n: "n = R - length g" "length g < R" using client.receiving [OF p] receives(3) by auto
    have s: "set g \<subseteq> {CHR ''s''}" "set (s2c l) \<subseteq> {CHR ''s''}" "0 < length (s2c l)"
      using i p receives(4,5) by (auto simp: in_step_def split: phase.splits)
    have c: "(cphase c', crounds c') =
        (if length xs = n then (Sending Q, crounds (cl l) + (1 - 0)) else (Receiving (g @ xs), crounds (cl l)))"
      unfolding receives(1) by (rule client.bytes [OF p receives(3,5,6)]) (use s receives(4) in auto)
    show ?thesis using i c p n s receives client.sizes server.sending [of "sv l"] by (auto simp: in_step_def split: if_splits phase.splits)
  next
    case (nothing_yet n)
    then obtain g where p: "cphase (cl l) = Receiving g"
      using client.sending [of "cl l"] o(1) by (cases "cphase (cl l)") auto
    show ?thesis using i nothing_yet client.no_data [OF p nothing_yet(4)] by (auto simp: in_step_def split: phase.splits)
  next
    case (readable)
    then show ?thesis using i client.kept [OF o(1), of Ready] by (auto simp: in_step_def split: phase.splits)
  next
    case (writable)
    then show ?thesis using i client.kept [OF o(1), of Ready] by (auto simp: in_step_def split: phase.splits)
  next
    case (interrupted)
    then show ?thesis using i client.kept [OF o(1), of Interrupted] by (auto simp: in_step_def split: phase.splits)
  qed (use o(2) in simp)
qed

lemma server_step:
  assumes i: "in_step l"
    and h: "half_step cap CHR ''s'' scall son (ccall (cl l) = Closed) (sv l) (s2c l) (c2s l) s' out' in'"
  shows "in_step (l\<lparr>sv := s', s2c := out', c2s := in'\<rparr>)"
proof -
  have o: "sphase (sv l) \<noteq> Ended" "ccall (cl l) \<noteq> Closed" using in_step_open [OF i] not_gone [OF i] by auto
  from h show ?thesis
  proof cases
    case (sends n k)
    then obtain g where p: "sphase (sv l) = Sending n" "cphase (cl l) = Receiving g"
      using server.sending [of "sv l"] server.receiving [of "sv l"] i o(1)
      by (cases "sphase (sv l)"; cases "cphase (cl l)") (auto simp: in_step_def)
    have c: "(sphase s', srounds s') = (if k = n then (Receiving [], srounds (sv l) + 1) else (Sending (n - k), srounds (sv l)))"
      unfolding sends(1) by (rule server.accepted [OF p(1) sends(4,5,6)])
    show ?thesis using i c p sends by (auto simp: in_step_def split: if_splits)
  next
    case (full n)
    then obtain g where p: "sphase (sv l) = Sending n" "cphase (cl l) = Receiving g"
      using server.sending [of "sv l"] server.receiving [of "sv l"] i o(1)
      by (cases "sphase (sv l)"; cases "cphase (cl l)") (auto simp: in_step_def)
    then have "n + length (s2c l) \<le> R" using i by (simp add: in_step_def)
    then show ?thesis using server.sending [OF p(1)] full room(2) by linarith
  next
    case (receives n b xs)
    obtain g where p: "sphase (sv l) = Receiving g"
      using server.not_sending [OF receives(3)] o(1) by (cases "sphase (sv l)") auto
    then have n: "n = Q - length g" "length g < Q" using server.receiving [OF p] receives(3) by auto
    have s: "set g \<subseteq> {CHR ''c''}" "set (c2s l) \<subseteq> {CHR ''c''}" "0 < length (c2s l)"
      using i p receives(4,5) by (auto simp: in_step_def split: phase.splits)
    have c: "(sphase s', srounds s') =
        (if length xs = n then (Sending R, srounds (sv l) + (1 - 1)) else (Receiving (g @ xs), srounds (sv l)))"
      unfolding receives(1) by (rule server.bytes [OF p receives(3,5,6)]) (use s receives(4) in auto)
    show ?thesis using i c p n s receives server.sizes client.sending [of "cl l"]
      by (auto simp: in_step_def split: if_splits phase.splits)
  next
    case (nothing_yet n)
    then obtain g where p: "sphase (sv l) = Receiving g"
      using server.sending [of "sv l"] o(1) by (cases "sphase (sv l)") auto
    show ?thesis using i nothing_yet server.no_data [OF p nothing_yet(4)] by (auto simp: in_step_def split: phase.splits)
  next
    case (readable)
    then show ?thesis using i server.kept [OF o(1), of Ready] by (auto simp: in_step_def split: phase.splits)
  next
    case (writable)
    then show ?thesis using i server.kept [OF o(1), of Ready] by (auto simp: in_step_def split: phase.splits)
  next
    case (interrupted)
    then show ?thesis using i server.kept [OF o(1), of Interrupted] by (auto simp: in_step_def split: phase.splits)
  qed (use o(2) in simp)
qed

lemma link_step_inv: "in_step l \<Longrightarrow> link_step cap ccall con scall son l l' \<Longrightarrow> in_step l'"
  by (erule link_step.cases) (auto intro: client_step server_step)

lemma somebody_can_go:
  assumes i: "in_step l"
  shows "can_go cap (ccall (cl l)) (c2s l) (s2c l) \<or> can_go cap (scall (sv l)) (s2c l) (c2s l)"
proof -
  consider n got where "cphase (cl l) = Sending n" "sphase (sv l) = Receiving got"
    | g got where "cphase (cl l) = Receiving g" "sphase (sv l) = Receiving got"
    | g w where "cphase (cl l) = Receiving g" "sphase (sv l) = Sending w"
    using i by (auto simp: in_step_def split: phase.splits)
  then show ?thesis
  proof cases
    case 1
    then have "length (c2s l) < cap" using i client.sending [OF 1(1)] room by (auto simp: in_step_def)
    then show ?thesis using client.sending [OF 1(1)] by (auto simp: can_go_def)
  next
    case 2
    then have "s2c l \<noteq> [] \<or> c2s l \<noteq> []"
      using i client.receiving [OF 2(1)] server.receiving [OF 2(2)] by (auto simp: in_step_def)
    then show ?thesis using client.receiving [OF 2(1)] server.receiving [OF 2(2)] by (auto simp: can_go_def)
  next
    case 3
    then have "length (s2c l) < cap" using i server.sending [OF 3(2)] room by (auto simp: in_step_def)
    then show ?thesis using server.sending [OF 3(2)] by (auto simp: can_go_def)
  qed
qed

text \<open>Nobody closes the connection, every byte received is the one expected, and the server is at most one
  reply ahead.\<close>

lemma in_step_rounds:
  assumes "in_step l"
  shows "ccall (cl l) \<noteq> Closed" "scall (sv l) \<noteq> Closed" "crounds (cl l) \<le> srounds (sv l)" "srounds (sv l) \<le> crounds (cl l) + 1"
  using not_gone [OF assms] assms by (auto simp: in_step_def split: phase.splits)

end

end
