(* ===== verification/Vio.thy ===== *)
theory Vio
  imports VioLink
begin

text \<open>
  The network benchmark \<open>src/mysql/vio-bench\<close>: a client that sends commands of 141 bytes and waits for answers of
  24 bytes, and the server.

  \<^item> A program is the state of its \<open>handler\<close>, stopped in a system call; \<open>server_on\<close> and \<open>client_on\<close> run it from the
    return of that call to the next call. \<open>buf\<close> is the part of the receive buffer that is filled.
  \<^item> The clock, the statistics printed and the messages that tell of new and dropped clients are left out; how
    often statistics were printed is counted.
\<close>

definition c2s_size :: nat where "c2s_size = 141"
definition s2c_size :: nat where "s2c_size = 24"

text \<open>What a round of a loop over a system call does: the function returns, goes on with what is left of the buffer,
  or waits in \<open>poll\<close>.\<close>

datatype round = Returns int | Goes_on nat | Polls

subsection \<open>The server\<close>

definition workload :: int where
  "workload = fold (\<lambda>i sum. sum + int i) [0..<12345] 0"

definition ns_diff :: "int \<times> int \<Rightarrow> int \<times> int \<Rightarrow> int" where
  "ns_diff t2 t1 = (case (t2, t1) of ((s2, n2), (s1, n1)) \<Rightarrow> (s2 - s1) * 1000000000 + (n2 - n1))"

text \<open>One round of the loop in \<open>vio_wait\<close>: \<open>None\<close> goes on.\<close>

definition vio_wait :: "event \<Rightarrow> int option" where
  "vio_wait e = (case e of Ready \<Rightarrow> Some 0 | Interrupted \<Rightarrow> None | _ \<Rightarrow> Some (-1))"

definition vio_read :: "event \<Rightarrow> nat \<Rightarrow> round" where
  "vio_read e left =
     (case e of
        Bytes xs \<Rightarrow> if length xs = left then Returns 0 else if xs = [] then Returns (-999) else Goes_on (left - length xs)
      | Interrupted \<Rightarrow> Goes_on left
      | Again \<Rightarrow> Polls
      | _ \<Rightarrow> Returns (-1))"

definition vio_write :: "event \<Rightarrow> nat \<Rightarrow> round" where
  "vio_write e left =
     (case e of
        Accepted k \<Rightarrow> if k = left then Returns 0 else Goes_on (left - k)
      | Interrupted \<Rightarrow> Goes_on left
      | Again \<Rightarrow> Polls
      | _ \<Rightarrow> Returns (-1))"

datatype server_pc = S_Recv | S_Recv_Wait | S_Send | S_Send_Wait | S_Closed

record server =
  s_at :: server_pc
  s_buf :: string
  s_left :: nat
  s_count :: nat
  s_reports :: nat
  s_err :: "string list"

definition data_of :: "event \<Rightarrow> string" where
  "data_of e = (case e of Bytes xs \<Rightarrow> xs | _ \<Rightarrow> [])"

definition s_fail :: "string \<Rightarrow> server \<Rightarrow> server" where
  "s_fail msg s = s\<lparr>s_err := s_err s @ [msg], s_at := S_Closed\<rparr>"

text \<open>\<open>handler\<close> from the return of \<open>vio_read\<close> to the first \<open>send\<close>, and from the return of \<open>vio_write\<close> to the first \<open>recv\<close>
  of the next round.\<close>

definition after_read :: "int \<Rightarrow> server \<Rightarrow> server" where
  "after_read ret s =
     (if ret = -999 then s_fail ''server: client closed'' s
      else if ret = -1 then s_fail ''server: read error'' s
      else let s = (if \<forall>x \<in> set (s_buf s). x = CHR ''c'' then s else s\<lparr>s_err := s_err s @ [''server: read mismatch'']\<rparr>)
           in s\<lparr>s_buf := [], s_left := s2c_size, s_at := S_Send\<rparr>)"

definition after_write :: "int \<Rightarrow> server \<Rightarrow> server" where
  "after_write ret s =
     (if ret \<noteq> 0 then s_fail ''server: write error'' s
      else let s = (if s_count s = 10000 then s\<lparr>s_count := 0, s_reports := s_reports s + 1\<rparr> else s)
           in s\<lparr>s_count := s_count s + 1, s_buf := [], s_left := c2s_size, s_at := S_Recv\<rparr>)"

definition server_init :: server where
  "server_init = \<lparr>s_at = S_Recv, s_buf = [], s_left = c2s_size, s_count = 1, s_reports = 0, s_err = []\<rparr>"

definition server_call :: "server \<Rightarrow> call" where
  "server_call s = (case s_at s of S_Recv \<Rightarrow> Receives (s_left s) False | S_Recv_Wait \<Rightarrow> Polls_in
     | S_Send \<Rightarrow> Sends (s_left s) | S_Send_Wait \<Rightarrow> Polls_out | S_Closed \<Rightarrow> Closed)"

definition server_on :: "event \<Rightarrow> server \<Rightarrow> server" where
  "server_on e s =
     (case s_at s of
        S_Recv \<Rightarrow>
          let s = s\<lparr>s_buf := s_buf s @ data_of e\<rparr>
          in (case vio_read e (s_left s) of Returns r \<Rightarrow> after_read r s | Goes_on n \<Rightarrow> s\<lparr>s_left := n\<rparr> | Polls \<Rightarrow> s\<lparr>s_at := S_Recv_Wait\<rparr>)
      | S_Recv_Wait \<Rightarrow> (case vio_wait e of None \<Rightarrow> s | Some r \<Rightarrow> if r \<noteq> 0 then after_read (-1) s else s\<lparr>s_at := S_Recv\<rparr>)
      | S_Send \<Rightarrow>
          (case vio_write e (s_left s) of Returns r \<Rightarrow> after_write r s | Goes_on n \<Rightarrow> s\<lparr>s_left := n\<rparr> | Polls \<Rightarrow> s\<lparr>s_at := S_Send_Wait\<rparr>)
      | S_Send_Wait \<Rightarrow> (case vio_wait e of None \<Rightarrow> s | Some r \<Rightarrow> if r \<noteq> 0 then after_write (-1) s else s\<lparr>s_at := S_Send\<rparr>)
      | S_Closed \<Rightarrow> s)"

subsection \<open>The client\<close>

definition client_read :: "event \<Rightarrow> nat \<Rightarrow> round" where
  "client_read e left =
     (case e of
        Bytes xs \<Rightarrow> if length xs = left then Returns 0 else if xs = [] then Returns (-1) else Goes_on (left - length xs)
      | Interrupted \<Rightarrow> Goes_on left
      | _ \<Rightarrow> Returns (-1))"

definition client_write :: "event \<Rightarrow> nat \<Rightarrow> round" where
  "client_write e left =
     (case e of
        Accepted k \<Rightarrow> if k = left then Returns 0 else Goes_on (left - k)
      | Interrupted \<Rightarrow> Goes_on left
      | _ \<Rightarrow> Returns (-1))"

datatype client_pc = C_Send | C_Recv | C_Closed

record client =
  c_at :: client_pc
  c_buf :: string
  c_left :: nat
  c_counts :: nat
  c_err :: "string list"
  error_flag :: bool

definition client_init :: client where
  "client_init = \<lparr>c_at = C_Send, c_buf = [], c_left = c2s_size, c_counts = 0, c_err = [], error_flag = False\<rparr>"

definition client_call :: "client \<Rightarrow> call" where
  "client_call c = (case c_at c of C_Send \<Rightarrow> Sends (c_left c) | C_Recv \<Rightarrow> Receives (c_left c) True | C_Closed \<Rightarrow> Closed)"

definition client_on :: "event \<Rightarrow> client \<Rightarrow> client" where
  "client_on e c =
     (case c_at c of
        C_Send \<Rightarrow>
          (case client_write e (c_left c) of
             Returns r \<Rightarrow> if r \<noteq> 0 then c\<lparr>c_err := c_err c @ [''client: write error''], c_at := C_Closed\<rparr>
                         else c\<lparr>c_buf := [], c_left := s2c_size, c_at := C_Recv\<rparr>
           | Goes_on n \<Rightarrow> c\<lparr>c_left := n\<rparr> | Polls \<Rightarrow> c)
      | C_Recv \<Rightarrow>
          (case client_read e (c_left c) of
             Returns r \<Rightarrow> if r \<noteq> 0 then c\<lparr>c_err := c_err c @ [''client: read error''], error_flag := True, c_at := C_Closed\<rparr>
                         else c\<lparr>c_counts := c_counts c + 1, c_buf := [], c_left := c2s_size, c_at := C_Send\<rparr>
           | Goes_on n \<Rightarrow> c\<lparr>c_buf := c_buf c @ data_of e, c_left := n\<rparr> | Polls \<Rightarrow> c)
      | C_Closed \<Rightarrow> c)"

subsection \<open>The two main functions\<close>

text \<open>The server: whether each call of the set-up succeeded, and the outcomes of \<open>accept\<close> and of \<open>setsockopt\<close> on the
  new connection. The result is the number of handlers started and whether the process was aborted.\<close>

fun accept_loop :: "(bool \<times> bool) list \<Rightarrow> nat \<Rightarrow> nat \<times> bool" where
  "accept_loop [] handlers = (handlers, False)"
| "accept_loop ((accepted, set_nodelay) # rest) handlers =
     (if accepted \<and> set_nodelay then accept_loop rest (handlers + 1) else (handlers, True))"

definition main_vio_server :: "bool \<Rightarrow> bool \<Rightarrow> bool \<Rightarrow> bool \<Rightarrow> (bool \<times> bool) list \<Rightarrow> nat \<times> bool" where
  "main_vio_server socket reuse bound listening conns =
     (if socket \<and> reuse \<and> bound \<and> listening then accept_loop conns 0 else (0, True))"

text \<open>The client: \<open>main\<close> looks once a second at the error flag and at the counters of all threads. What it prints is
  the second and the number of answers in it; it returns when the flag is set.\<close>

definition max_threads :: nat where "max_threads = 256"

fun get_count :: "nat list \<Rightarrow> nat \<Rightarrow> int" where
  "get_count counts 0 = 0"
| "get_count counts (Suc n) = get_count counts n + int (counts ! n)"

fun watch :: "nat \<Rightarrow> (bool \<times> nat list) list \<Rightarrow> nat \<Rightarrow> int \<Rightarrow> (nat \<times> int) list \<times> bool" where
  "watch n [] now prev_count = ([], False)"
| "watch n ((flag, counts) # rest) now prev_count =
     (if flag then ([], True)
      else let curr_count = get_count counts n; (printed, returned) = watch n rest (now + 1) curr_count
           in ((now + 1, curr_count - prev_count) # printed, returned))"

datatype client_main = Bad_usage | Bad_threads | Bad_address | Aborts | Watches "(nat \<times> int) list" bool

text \<open>\<open>address_ok\<close> is what \<open>inet_pton\<close> says, \<open>connected\<close> whether all connections could be made, \<open>start\<close> the counters when \<open>main\<close>
  begins to watch.\<close>

definition main_vio_client :: "string list \<Rightarrow> bool \<Rightarrow> bool \<Rightarrow> nat list \<Rightarrow> (bool \<times> nat list) list \<Rightarrow> client_main option" where
  "main_vio_client argv address_ok connected start seconds =
     (if length argv \<noteq> 3 then Some Bad_usage
      else do {
        n_threads \<leftarrow> atoi (argv ! 1);
        Some (if n_threads < 1 \<or> n_threads > int max_threads then Bad_threads
              else if \<not> address_ok then Bad_address
              else if \<not> connected then Aborts
              else let (printed, returned) = watch (nat n_threads) seconds 0 (get_count start (nat n_threads)) in Watches printed returned) })"

subsection \<open>The contract\<close>

text \<open>A server in the middle of its loop, with nothing gone wrong.\<close>

definition server_phase :: "server \<Rightarrow> phase" where
  "server_phase s =
     (if s_err s \<noteq> [] \<or> \<not> (0 < s_count s \<and> s_count s \<le> 10000) then Ended
      else if s_at s \<in> {S_Recv, S_Recv_Wait} \<and> length (s_buf s) < c2s_size \<and> s_left s = c2s_size - length (s_buf s) then Receiving (s_buf s)
      else if s_at s \<in> {S_Send, S_Send_Wait} \<and> 0 < s_left s \<and> s_left s \<le> s2c_size then Sending (s_left s)
      else Ended)"

definition replies :: "server \<Rightarrow> nat" where
  "replies s = 10000 * s_reports s + s_count s - 1"

definition client_phase :: "client \<Rightarrow> phase" where
  "client_phase c =
     (if c_err c \<noteq> [] \<or> error_flag c then Ended
      else if c_at c = C_Recv \<and> length (c_buf c) < s2c_size \<and> c_left c = s2c_size - length (c_buf c) then Receiving (c_buf c)
      else if c_at c = C_Send \<and> 0 < c_left c \<and> c_left c \<le> c2s_size then Sending (c_left c)
      else Ended)"

lemma client_sending: "client_phase c = Sending n \<longleftrightarrow>
    c_err c = [] \<and> \<not> error_flag c \<and> c_at c = C_Send \<and> c_left c = n \<and> 0 < n \<and> n \<le> c2s_size"
  by (auto simp: client_phase_def split: if_splits)

lemma client_receiving: "client_phase c = Receiving got \<longleftrightarrow>
    c_err c = [] \<and> \<not> error_flag c \<and> c_at c = C_Recv \<and> c_buf c = got \<and> length got < s2c_size \<and> c_left c = s2c_size - length got"
  by (auto simp: client_phase_def split: if_splits)

lemma sizes [simp]: "0 < c2s_size" "0 < s2c_size"
  by (simp_all add: c2s_size_def s2c_size_def)

lemma client_phases: "client_phase c \<noteq> Ended \<Longrightarrow> (\<exists>n. client_phase c = Sending n) \<or> (\<exists>got. client_phase c = Receiving got)"
  by (cases "client_phase c") auto

interpretation client: endpoint client_call client_on client_phase c_counts c2s_size s2c_size "CHR ''s''" 0
proof
  fix c n got k b xs e
  show "0 < n \<and> n \<le> c2s_size \<and> (client_call c = Sends n \<or> client_call c = Polls_out)" if "client_phase c = Sending n"
    using that by (simp add: client_sending client_call_def)
  show "length got < s2c_size \<and> (client_call c = Polls_in \<or> (\<exists>b. client_call c = Receives (s2c_size - length got) b))"
    if "client_phase c = Receiving got"
    using that by (simp add: client_receiving client_call_def exI [of _ True])
  show "(client_phase (client_on (Accepted k) c), c_counts (client_on (Accepted k) c)) =
      (if k = n then (Receiving [], c_counts c + 0) else (Sending (n - k), c_counts c))"
    if "client_phase c = Sending n" "0 < k" "k \<le> n"
  proof (cases "k = n")
    case True
    have "client_phase (client_on (Accepted k) c) = Receiving []"
      unfolding client_receiving using that True by (simp add: client_sending client_on_def client_write_def)
    then show ?thesis using that True by (simp add: client_sending client_on_def client_write_def)
  next
    case False
    have "client_phase (client_on (Accepted k) c) = Sending (n - k)"
      using that False unfolding client_sending by (auto simp: client_on_def client_write_def)
    then show ?thesis using that False by (simp add: client_sending client_on_def client_write_def)
  qed
  show "(client_phase (client_on (Bytes xs) c), c_counts (client_on (Bytes xs) c)) =
      (if length xs = n then (Sending c2s_size, c_counts c + (1 - 0)) else (Receiving (got @ xs), c_counts c))"
    if p: "client_phase c = Receiving got" and q: "client_call c = Receives n b" and x: "xs \<noteq> []" "length xs \<le> n"
  proof -
    have n: "n = s2c_size - length got" "c_left c = n" using p q by (simp_all add: client_receiving client_call_def)
    show ?thesis
    proof (cases "length xs = n")
      case True
      have "client_phase (client_on (Bytes xs) c) = Sending c2s_size"
        using p n True unfolding client_sending client_receiving by (simp add: client_on_def client_read_def)
      then show ?thesis using p n True by (simp add: client_receiving client_on_def client_read_def)
    next
      case False
      have "client_phase (client_on (Bytes xs) c) = Receiving (got @ xs)"
        using p n x False unfolding client_receiving by (auto simp: client_on_def client_read_def data_of_def)
      then show ?thesis using p n x False by (simp add: client_receiving client_on_def client_read_def)
    qed
  qed
  show "client_phase (client_on e c) = client_phase c \<and> c_counts (client_on e c) = c_counts c"
    if "client_phase c \<noteq> Ended" "e = Interrupted \<or> e = Ready \<and> client_call c \<in> {Polls_in, Polls_out}"
  proof -
    have "e = Interrupted" using that(2) by (auto simp: client_call_def split: client_pc.splits)
    then have "client_on e c = c" by (cases "c_at c") (simp_all add: client_on_def client_read_def client_write_def data_of_def)
    then show ?thesis by simp
  qed
  show "client_phase (client_on Again c) = client_phase c \<and> c_counts (client_on Again c) = c_counts c"
    if "client_phase c = Receiving got" "client_call c = Receives n False"
    using that by (simp add: client_receiving client_call_def)
qed simp_all

definition server_fine :: "server \<Rightarrow> bool" where
  "server_fine s \<longleftrightarrow> s_err s = [] \<and> 0 < s_count s \<and> s_count s \<le> 10000"

lemma server_sending: "server_phase s = Sending n \<longleftrightarrow>
    server_fine s \<and> (s_at s = S_Send \<or> s_at s = S_Send_Wait) \<and> s_left s = n \<and> 0 < n \<and> n \<le> s2c_size"
  by (auto simp: server_phase_def server_fine_def split: if_splits)

lemma server_receiving: "server_phase s = Receiving got \<longleftrightarrow>
    server_fine s \<and> (s_at s = S_Recv \<or> s_at s = S_Recv_Wait) \<and> s_buf s = got \<and> length got < c2s_size \<and> s_left s = c2s_size - length got"
  by (auto simp: server_phase_def server_fine_def split: if_splits)

lemma server_interrupted: "server_on Interrupted s = s"
  by (cases "s_at s") (simp_all add: server_on_def vio_read_def vio_write_def vio_wait_def data_of_def)

lemma server_ready:
  assumes "e = Ready \<and> server_call s \<in> {Polls_in, Polls_out}"
  shows "server_phase (server_on e s) = server_phase s \<and> replies (server_on e s) = replies s"
proof (cases "s_at s")
  case S_Recv_Wait
  then have "server_on e s = s\<lparr>s_at := S_Recv\<rparr>" using assms by (simp add: server_on_def vio_wait_def)
  then show ?thesis using S_Recv_Wait by (simp add: server_phase_def replies_def)
next
  case S_Send_Wait
  then have "server_on e s = s\<lparr>s_at := S_Send\<rparr>" using assms by (simp add: server_on_def vio_wait_def)
  then show ?thesis using S_Send_Wait by (simp add: server_phase_def replies_def)
qed (use assms in \<open>simp_all add: server_call_def\<close>)

lemma server_again: "server_call s = Receives n False \<Longrightarrow> server_phase (server_on Again s) = server_phase s \<and> replies (server_on Again s) = replies s"
  by (cases "s_at s") (simp_all add: server_call_def server_on_def vio_read_def data_of_def replies_def server_phase_def)

interpretation server: endpoint server_call server_on server_phase replies s2c_size c2s_size "CHR ''c''" 1
proof
  fix s n got k b xs e
  show "0 < n \<and> n \<le> s2c_size \<and> (server_call s = Sends n \<or> server_call s = Polls_out)" if "server_phase s = Sending n"
    using that by (auto simp: server_sending server_call_def)
  show "length got < c2s_size \<and> (server_call s = Polls_in \<or> (\<exists>b. server_call s = Receives (c2s_size - length got) b))"
    if "server_phase s = Receiving got"
    using that by (auto simp: server_receiving server_call_def)
  show "(server_phase (server_on (Accepted k) s), replies (server_on (Accepted k) s)) =
      (if k = n then (Receiving [], replies s + 1) else (Sending (n - k), replies s))"
    if p: "server_phase s = Sending n" and q: "server_call s = Sends n" and k: "0 < k" "k \<le> n"
  proof -
    have a: "s_at s = S_Send" "s_left s = n" "server_fine s"
      using p q by (auto simp: server_sending server_call_def)
    show ?thesis
    proof (cases "k = n")
      case True
      have o: "server_on (Accepted k) s = after_write 0 s" using a True by (simp add: server_on_def vio_write_def)
      have "server_phase (after_write 0 s) = Receiving []"
        using a unfolding server_receiving by (auto simp: after_write_def server_fine_def Let_def)
      moreover have "replies (after_write 0 s) = replies s + 1"
        using a(3) by (auto simp: after_write_def replies_def server_fine_def Let_def)
      ultimately show ?thesis using True o by simp
    next
      case False
      have o: "server_on (Accepted k) s = s\<lparr>s_left := n - k\<rparr>" using a False by (simp add: server_on_def vio_write_def)
      have "server_phase (s\<lparr>s_left := n - k\<rparr>) = Sending (n - k)"
        using p a k False unfolding server_sending by (auto simp: server_fine_def)
      then show ?thesis using False o by (simp add: replies_def)
    qed
  qed
  show "(server_phase (server_on (Bytes xs) s), replies (server_on (Bytes xs) s)) =
      (if length xs = n then (Sending s2c_size, replies s + (1 - 1)) else (Receiving (got @ xs), replies s))"
    if p: "server_phase s = Receiving got" and q: "server_call s = Receives n b" and x: "xs \<noteq> []" "length xs \<le> n"
      and w: "set (got @ xs) \<subseteq> {CHR ''c''}"
  proof -
    have a: "s_at s = S_Recv" "s_left s = n" "server_fine s" "s_buf s = got" "n = c2s_size - length got"
      using p q by (auto simp: server_receiving server_call_def)
    let ?s = "s\<lparr>s_buf := got @ xs\<rparr>"
    show ?thesis
    proof (cases "length xs = n")
      case True
      have o: "server_on (Bytes xs) s = after_read 0 ?s" using a True by (simp add: server_on_def vio_read_def data_of_def)
      have r: "after_read 0 ?s = ?s\<lparr>s_buf := [], s_left := s2c_size, s_at := S_Send\<rparr>"
        using w by (auto simp: after_read_def Let_def)
      have "server_phase (after_read 0 ?s) = Sending s2c_size"
        using a unfolding r server_sending by (simp add: server_fine_def)
      then show ?thesis using True o by (simp add: r replies_def)
    next
      case False
      have o: "server_on (Bytes xs) s = ?s\<lparr>s_left := n - length xs\<rparr>"
        using a x False by (simp add: server_on_def vio_read_def data_of_def)
      have "server_phase (?s\<lparr>s_left := n - length xs\<rparr>) = Receiving (got @ xs)"
        using p a x False unfolding server_receiving by (auto simp: server_fine_def)
      then show ?thesis using False o by (simp add: replies_def)
    qed
  qed
  show "server_phase (server_on e s) = server_phase s \<and> replies (server_on e s) = replies s"
    if "server_phase s \<noteq> Ended" "e = Interrupted \<or> e = Ready \<and> server_call s \<in> {Polls_in, Polls_out}"
    using that(2)
  proof
    assume "e = Interrupted"
    then show ?thesis using server_interrupted by simp
  next
    assume "e = Ready \<and> server_call s \<in> {Polls_in, Polls_out}"
    then show ?thesis using server_ready by blast
  qed
  show "server_phase (server_on Again s) = server_phase s \<and> replies (server_on Again s) = replies s"
    if "server_phase s = Receiving got" "server_call s = Receives n False"
    using server_again [OF that(2)] .
qed simp_all

subsection \<open>The exchange\<close>

text \<open>The two sides are interpreted together; the room of the connection is any that holds a whole message.\<close>

interpretation vio: request_reply client_call client_on client_phase c_counts server_call server_on server_phase replies
    c2s_size s2c_size "c2s_size + extra" for extra :: nat
  by unfold_locales (simp_all add: c2s_size_def s2c_size_def)

definition vio_init :: "(client, server) link \<Rightarrow> bool" where
  "vio_init l \<longleftrightarrow> l = \<lparr>cl = client_init, sv = server_init, c2s = [], s2c = []\<rparr>"

definition vio_step :: "nat \<Rightarrow> (client, server) link \<Rightarrow> (client, server) link \<Rightarrow> bool" where
  "vio_step cap = link_step cap client_call client_on server_call server_on"

lemma vio_init_in_step: "vio_init l \<Longrightarrow> vio.in_step l"
  by (simp add: vio_init_def vio.in_step_def client_init_def server_init_def client_phase_def server_phase_def replies_def)

interpretation vio_run: invariant_system vio_init "vio_step (c2s_size + extra)" vio.in_step for extra :: nat
  by unfold_locales (auto simp: vio_step_def intro: vio_init_in_step vio.link_step_inv)

text \<open>C18: On a connection with room for a message, however the bytes are cut and the calls interrupted, neither
  side ever prints an error or closes, the server never sees a byte that is not of a command, it has sent as many
  replies as the client has counted or one more, and some side can always go on.\<close>

theorem vio_exchange:
  assumes "reachable vio_init (vio_step cap) l" "c2s_size \<le> cap"
  shows "c_err (cl l) = [] \<and> s_err (sv l) = [] \<and> \<not> error_flag (cl l) \<and> c_at (cl l) \<noteq> C_Closed \<and> s_at (sv l) \<noteq> S_Closed \<and>
    c_counts (cl l) \<le> replies (sv l) \<and> replies (sv l) \<le> c_counts (cl l) + 1 \<and>
    (can_go cap (client_call (cl l)) (c2s l) (s2c l) \<or> can_go cap (server_call (sv l)) (s2c l) (c2s l))"
proof -
  obtain extra where cap: "cap = c2s_size + extra" using assms(2) le_Suc_ex by blast
  have i: "vio.in_step l" using vio_run.reachable_inv [of extra l] assms(1) cap by simp
  have "client_phase (cl l) \<noteq> Ended" "server_phase (sv l) \<noteq> Ended" using vio.in_step_open [OF i] by auto
  then have "c_err (cl l) = []" "\<not> error_flag (cl l)" "s_err (sv l) = []"
    by (auto simp: client_phase_def server_phase_def split: if_splits)
  then show ?thesis
    using vio.in_step_rounds [OF i] vio.somebody_can_go [of l extra] i cap
    by (auto simp: client_call_def server_call_def)
qed

subsection \<open>When the connection is too narrow\<close>

lemma get_count_zero: "n \<le> length counts \<Longrightarrow> \<forall>c \<in> set counts. c = 0 \<Longrightarrow> get_count counts n = 0"
  by (induction n) (simp_all add: Suc_le_eq)

lemma watch_zero:
  "\<forall>(flag, counts) \<in> set seconds. \<not> flag \<and> n \<le> length counts \<and> (\<forall>c \<in> set counts. c = 0) \<Longrightarrow>
   watch n seconds now 0 = (map (\<lambda>i. (now + i + 1, 0)) [0..<length seconds], False)"
proof (induction seconds arbitrary: now)
  case (Cons s seconds)
  obtain flag counts where s: "s = (flag, counts)" by (cases s)
  have "get_count counts n = 0" using Cons.prems get_count_zero unfolding s by simp
  moreover have "map (\<lambda>i. (now + i + 1, 0 :: int)) [0..<length (s # seconds)] =
      (now + 1, 0) # map (\<lambda>i. (now + 1 + i + 1, 0)) [0..<length seconds]"
    by (subst upt_conv_Cons) (simp_all add: map_Suc_upt [symmetric] del: upt_Suc map_Suc_upt)
  ultimately show ?case using Cons s by (simp del: upt_Suc)
qed simp

text \<open>Remark: The client does not wait for room: on a connection that holds less than a command its handler gives up
  with a write error. A write error does not set the error flag, so \<open>main\<close> then goes on reporting zero
  answers a second, for as long as it runs.\<close>

theorem vio_client_gives_up:
  assumes "0 < cap" "cap < c2s_size"
    and "\<forall>(flag, counts) \<in> set seconds. flag = error_flag (client_on Again (client_on (Accepted cap) client_init)) \<and> counts = [0]"
  shows "\<exists>l. reachable vio_init (vio_step cap) l \<and> c_at (cl l) = C_Closed \<and> c_err (cl l) = [''client: write error''] \<and> \<not> error_flag (cl l) \<and>
    main_vio_client [''vio-client'', ''1'', ip] True True [0] seconds = Some (Watches (map (\<lambda>i. (i + 1, 0)) [0..<length seconds]) False)"
proof -
  let ?c = "client_init\<lparr>c_left := c2s_size - cap\<rparr>"
  let ?d = "?c\<lparr>c_err := [''client: write error''], c_at := C_Closed\<rparr>"
  let ?l0 = "\<lparr>cl = client_init, sv = server_init, c2s = [], s2c = []\<rparr>"
  let ?l1 = "?l0\<lparr>cl := ?c, c2s := replicate cap CHR ''c'', s2c := []\<rparr>"
  let ?l2 = "?l1\<lparr>cl := ?d, c2s := replicate cap CHR ''c'', s2c := []\<rparr>"
  have o: "client_on (Accepted cap) client_init = ?c" "client_on Again ?c = ?d"
    using assms(2) by (simp_all add: client_on_def client_init_def client_write_def)
  have "half_step cap CHR ''c'' client_call client_on (server_call server_init = Closed) client_init [] []
      (client_on (Accepted cap) client_init) ([] @ replicate cap CHR ''c'') []"
    by (rule half_step.sends [of _ _ c2s_size]) (use assms(1,2) in \<open>simp_all add: client_call_def client_init_def\<close>)
  then have s1: "vio_step cap ?l0 ?l1"
    unfolding vio_step_def o(1) using link_step.client_calls [of cap client_call client_on server_call ?l0 ?c "replicate cap CHR ''c''" "[]"] by simp
  have "half_step cap CHR ''c'' client_call client_on (server_call server_init = Closed) ?c (replicate cap CHR ''c'') []
      (client_on Again ?c) (replicate cap CHR ''c'') []"
    by (rule half_step.full [of _ _ "c2s_size - cap"]) (simp_all add: client_call_def client_init_def)
  then have s2: "vio_step cap ?l1 ?l2"
    unfolding vio_step_def o(2) using link_step.client_calls [of cap client_call client_on server_call ?l1 ?d "replicate cap CHR ''c''" "[]"] by simp
  have "reachable vio_init (vio_step cap) ?l0" by (rule reach_init) (simp add: vio_init_def)
  then have "reachable vio_init (vio_step cap) ?l1" using s1 by (rule reach_step)
  then have r: "reachable vio_init (vio_step cap) ?l2" using s2 by (rule reach_step)
  have a: "atoi ''1'' = Some 1" by code_simp
  have "\<forall>(flag, counts) \<in> set seconds. \<not> flag \<and> 1 \<le> length counts \<and> (\<forall>c \<in> set counts. c = 0)"
    using assms(3) unfolding o by (auto simp: client_init_def)
  then have "main_vio_client [''vio-client'', ''1'', ip] True True [0] seconds = Some (Watches (map (\<lambda>i. (i + 1, 0)) [0..<length seconds]) False)"
    using watch_zero [of seconds 1 0] by (simp add: main_vio_client_def a max_threads_def)
  then show ?thesis using r by (intro exI [of _ ?l2]) (simp add: client_init_def)
qed

subsection \<open>Instances\<close>

theorem vio_exchange_witness:
  "\<exists>l. reachable vio_init (vio_step 200) l \<and> length (c2s l) = 141 \<and> c_at (cl l) = C_Recv \<and> s_err (sv l) = [] \<and>
    (can_go 200 (client_call (cl l)) (c2s l) (s2c l) \<or> can_go 200 (server_call (sv l)) (s2c l) (c2s l))"
proof -
  let ?l0 = "\<lparr>cl = client_init, sv = server_init, c2s = [], s2c = []\<rparr>"
  let ?c = "client_init\<lparr>c_left := s2c_size, c_at := C_Recv\<rparr>"
  let ?l1 = "?l0\<lparr>cl := ?c, c2s := replicate c2s_size CHR ''c'', s2c := []\<rparr>"
  have o: "client_on (Accepted c2s_size) client_init = ?c"
    by (simp add: client_on_def client_init_def client_write_def)
  have "half_step 200 CHR ''c'' client_call client_on (server_call server_init = Closed) client_init [] []
      (client_on (Accepted c2s_size) client_init) ([] @ replicate c2s_size CHR ''c'') []"
    by (rule half_step.sends [of _ _ c2s_size]) (simp_all add: client_call_def client_init_def c2s_size_def)
  then have s1: "vio_step 200 ?l0 ?l1"
    unfolding vio_step_def o using link_step.client_calls [of 200 client_call client_on server_call ?l0 ?c "replicate c2s_size CHR ''c''" "[]"] by simp
  have "reachable vio_init (vio_step 200) ?l0" by (rule reach_init) (simp add: vio_init_def)
  then have r: "reachable vio_init (vio_step 200) ?l1" using s1 by (rule reach_step)
  show ?thesis
    using vio_exchange [OF r] r by (intro exI [of _ ?l1]) (simp add: c2s_size_def client_init_def)
qed

theorem vio_client_gives_up_witness:
  "\<exists>l. reachable vio_init (vio_step 100) l \<and> c_at (cl l) = C_Closed \<and> \<not> error_flag (cl l) \<and>
    main_vio_client [''vio-client'', ''1'', ''10.0.0.1''] True True [0] [(False, [0]), (False, [0])] = Some (Watches [(1, 0), (2, 0)] False)"
proof -
  have "error_flag (client_on Again (client_on (Accepted 100) client_init)) = False" by code_simp
  then show ?thesis
    using vio_client_gives_up [of 100 "[(False, [0]), (False, [0])]" "''10.0.0.1''"] by (auto simp: c2s_size_def)
qed

end
