(* ===== verification/Vio2.thy ===== *)
theory Vio2
  imports Vio
begin

text \<open>
  The second network benchmark \<open>src/mysql/vio-bench2\<close>: messages of 100 bytes in both directions, one client at a time,
  a warm-up of 1000 rounds, and a client that never blocks.

  The functions \<open>vio_wait\<close>, \<open>vio_read\<close> and \<open>vio_write\<close> of the server have the text of those in \<open>Vio\<close> and are used from there.
  The error flag of the client, which nothing reads, is left out; \<open>d_rounds\<close> counts the answers, which the program
  itself does not.
\<close>

definition msg_size :: nat where "msg_size = 100"
definition kCount :: nat where "kCount = 50 * 1000"

subsection \<open>The server\<close>

record server2 =
  t_at :: server_pc
  t_buf :: string
  t_left :: nat
  t_warm :: nat
  t_i :: nat
  t_loops :: nat
  t_err :: "string list"

definition server2_init :: server2 where
  "server2_init = \<lparr>t_at = S_Recv, t_buf = [], t_left = msg_size, t_warm = 0, t_i = 0, t_loops = 0, t_err = []\<rparr>"

definition out :: "string \<Rightarrow> server2 \<Rightarrow> server2" where
  "out msg s = s\<lparr>t_err := t_err s @ [msg, ''server: drop client''], t_at := S_Closed\<rparr>"

text \<open>In the warm-up what the functions return is ignored.\<close>

definition after_read2 :: "int \<Rightarrow> server2 \<Rightarrow> server2" where
  "after_read2 ret s =
     (if t_warm s < 1000 then s\<lparr>t_buf := [], t_left := msg_size, t_at := S_Send\<rparr>
      else if ret = -999 then out ''server: client closed'' s
      else if ret = -1 then out ''server: read error'' s
      else s\<lparr>t_buf := [], t_left := msg_size, t_at := S_Send\<rparr>)"

definition after_write2 :: "int \<Rightarrow> server2 \<Rightarrow> server2" where
  "after_write2 ret s =
     (if t_warm s < 1000 then s\<lparr>t_warm := t_warm s + 1, t_buf := [], t_left := msg_size, t_at := S_Recv\<rparr>
      else if ret \<noteq> 0 then out ''server: write error'' s
      else let s = (if t_i s + 1 < kCount then s\<lparr>t_i := t_i s + 1\<rparr> else s\<lparr>t_i := 0, t_loops := t_loops s + 1\<rparr>)
           in s\<lparr>t_buf := [], t_left := msg_size, t_at := S_Recv\<rparr>)"

definition server2_call :: "server2 \<Rightarrow> call" where
  "server2_call s = (case t_at s of S_Recv \<Rightarrow> Receives (t_left s) False | S_Recv_Wait \<Rightarrow> Polls_in
     | S_Send \<Rightarrow> Sends (t_left s) | S_Send_Wait \<Rightarrow> Polls_out | S_Closed \<Rightarrow> Closed)"

definition server2_on :: "event \<Rightarrow> server2 \<Rightarrow> server2" where
  "server2_on e s =
     (case t_at s of
        S_Recv \<Rightarrow>
          let s = s\<lparr>t_buf := t_buf s @ data_of e\<rparr>
          in (case vio_read e (t_left s) of Returns r \<Rightarrow> after_read2 r s | Goes_on n \<Rightarrow> s\<lparr>t_left := n\<rparr> | Polls \<Rightarrow> s\<lparr>t_at := S_Recv_Wait\<rparr>)
      | S_Recv_Wait \<Rightarrow> (case vio_wait e of None \<Rightarrow> s | Some r \<Rightarrow> if r \<noteq> 0 then after_read2 (-1) s else s\<lparr>t_at := S_Recv\<rparr>)
      | S_Send \<Rightarrow>
          (case vio_write e (t_left s) of Returns r \<Rightarrow> after_write2 r s | Goes_on n \<Rightarrow> s\<lparr>t_left := n\<rparr> | Polls \<Rightarrow> s\<lparr>t_at := S_Send_Wait\<rparr>)
      | S_Send_Wait \<Rightarrow> (case vio_wait e of None \<Rightarrow> s | Some r \<Rightarrow> if r \<noteq> 0 then after_write2 (-1) s else s\<lparr>t_at := S_Send\<rparr>)
      | S_Closed \<Rightarrow> s)"

subsection \<open>The client\<close>

definition client2_read :: "event \<Rightarrow> nat \<Rightarrow> round" where
  "client2_read e left =
     (case e of
        Bytes xs \<Rightarrow> if length xs = left then Returns 0 else if xs = [] then Returns (-1) else Goes_on (left - length xs)
      | Interrupted \<Rightarrow> Goes_on left
      | Again \<Rightarrow> Goes_on left
      | _ \<Rightarrow> Returns (-1))"

definition client2_write :: "event \<Rightarrow> nat \<Rightarrow> round" where
  "client2_write e left =
     (case e of
        Accepted k \<Rightarrow> if k = left then Returns 0 else Goes_on (left - k)
      | Interrupted \<Rightarrow> Goes_on left
      | Again \<Rightarrow> Goes_on left
      | _ \<Rightarrow> Returns (-1))"

record client2 =
  d_at :: client_pc
  d_buf :: string
  d_left :: nat
  d_rounds :: nat
  d_err :: "string list"

definition client2_init :: client2 where
  "client2_init = \<lparr>d_at = C_Send, d_buf = [], d_left = msg_size, d_rounds = 0, d_err = []\<rparr>"

definition client2_call :: "client2 \<Rightarrow> call" where
  "client2_call c = (case d_at c of C_Send \<Rightarrow> Sends (d_left c) | C_Recv \<Rightarrow> Receives (d_left c) False | C_Closed \<Rightarrow> Closed)"

definition client2_on :: "event \<Rightarrow> client2 \<Rightarrow> client2" where
  "client2_on e c =
     (case d_at c of
        C_Send \<Rightarrow>
          (case client2_write e (d_left c) of
             Returns r \<Rightarrow> if r \<noteq> 0 then c\<lparr>d_err := d_err c @ [''client: write error''], d_at := C_Closed\<rparr>
                         else c\<lparr>d_buf := [], d_left := msg_size, d_at := C_Recv\<rparr>
           | Goes_on n \<Rightarrow> c\<lparr>d_left := n\<rparr> | Polls \<Rightarrow> c)
      | C_Recv \<Rightarrow>
          (case client2_read e (d_left c) of
             Returns r \<Rightarrow> if r \<noteq> 0 then c\<lparr>d_err := d_err c @ [''client: read error''], d_at := C_Closed\<rparr>
                         else c\<lparr>d_rounds := d_rounds c + 1, d_buf := [], d_left := msg_size, d_at := C_Send\<rparr>
           | Goes_on n \<Rightarrow> c\<lparr>d_buf := d_buf c @ data_of e, d_left := n\<rparr> | Polls \<Rightarrow> c)
      | C_Closed \<Rightarrow> c)"

subsection \<open>The two main functions\<close>

text \<open>The server runs a handler at a time. A connection is whether \<open>accept\<close> and \<open>setsockopt\<close> succeeded, and what the
  calls of its handler return; the results are what every finished handler printed, and how the run ended.\<close>

datatype main2_end = Accepting | Handling | Aborted

fun handler2 :: "event list \<Rightarrow> server2 \<Rightarrow> server2 option" where
  "handler2 [] s = (if t_at s = S_Closed then Some s else None)"
| "handler2 (e # es) s = (if t_at s = S_Closed then Some s else handler2 es (server2_on e s))"

fun accept_loop2 :: "(bool \<times> bool \<times> event list) list \<Rightarrow> string list list \<times> main2_end" where
  "accept_loop2 [] = ([], Accepting)"
| "accept_loop2 ((accepted, set_nodelay, es) # rest) =
     (if \<not> accepted then ([[''server: accept'']], Aborted)
      else if \<not> set_nodelay then ([], Aborted)
      else (case handler2 es server2_init of None \<Rightarrow> ([], Handling)
            | Some s \<Rightarrow> let (logs, end) = accept_loop2 rest in (t_err s # logs, end)))"

definition main_server2 :: "bool \<Rightarrow> bool \<Rightarrow> bool \<Rightarrow> bool \<Rightarrow> (bool \<times> bool \<times> event list) list \<Rightarrow> string list list \<times> main2_end" where
  "main_server2 socket reuse bound listening conns =
     (if \<not> socket \<or> \<not> reuse then ([], Aborted)
      else if \<not> bound then ([[''server: bind'']], Aborted)
      else if \<not> listening then ([], Aborted)
      else accept_loop2 conns)"

text \<open>The client: its exit status and what it printed, or an abort. \<open>address_ok\<close> is what \<open>inet_pton\<close> says.\<close>

datatype client2_end = Exits int "string list" | Client_aborts "string list"

fun client2_handler :: "event list \<Rightarrow> client2 \<Rightarrow> client2 option" where
  "client2_handler [] c = (if d_at c = C_Closed then Some c else None)"
| "client2_handler (e # es) c = (if d_at c = C_Closed then Some c else client2_handler es (client2_on e c))"

definition main_client2 :: "string list \<Rightarrow> bool \<Rightarrow> bool \<Rightarrow> bool \<Rightarrow> bool \<Rightarrow> event list \<Rightarrow> client2_end option" where
  "main_client2 argv address_ok socket connected set_nodelay es =
     (if length argv \<noteq> 2 then Some (Exits (-1) [''usage: '' @ argv ! 0 @ '' server-ip''])
      else if \<not> address_ok then Some (Exits (-1) [''clinet: malformed ip: '' @ argv ! 1])
      else if \<not> socket then Some (Client_aborts [])
      else if \<not> connected then Some (Client_aborts [''client: connect''])
      else if \<not> set_nodelay then Some (Client_aborts [])
      else map_option (\<lambda>c. Exits 0 (d_err c)) (client2_handler es client2_init))"

subsection \<open>The contract\<close>

definition client2_phase :: "client2 \<Rightarrow> phase" where
  "client2_phase c =
     (if d_err c \<noteq> [] then Ended
      else if d_at c = C_Recv \<and> length (d_buf c) < msg_size \<and> d_left c = msg_size - length (d_buf c) then Receiving (d_buf c)
      else if d_at c = C_Send \<and> 0 < d_left c \<and> d_left c \<le> msg_size then Sending (d_left c)
      else Ended)"

definition server2_fine :: "server2 \<Rightarrow> bool" where
  "server2_fine s \<longleftrightarrow> t_err s = [] \<and> t_warm s \<le> 1000 \<and> t_i s < kCount"

definition server2_phase :: "server2 \<Rightarrow> phase" where
  "server2_phase s =
     (if \<not> server2_fine s then Ended
      else if t_at s \<in> {S_Recv, S_Recv_Wait} \<and> length (t_buf s) < msg_size \<and> t_left s = msg_size - length (t_buf s) then Receiving (t_buf s)
      else if t_at s \<in> {S_Send, S_Send_Wait} \<and> 0 < t_left s \<and> t_left s \<le> msg_size then Sending (t_left s)
      else Ended)"

definition replies2 :: "server2 \<Rightarrow> nat" where
  "replies2 s = t_warm s + kCount * t_loops s + t_i s"

lemma msg_size_pos [simp]: "0 < msg_size" "0 < kCount"
  by (simp_all add: msg_size_def kCount_def)

lemma client2_sending: "client2_phase c = Sending n \<longleftrightarrow> d_err c = [] \<and> d_at c = C_Send \<and> d_left c = n \<and> 0 < n \<and> n \<le> msg_size"
  by (auto simp: client2_phase_def split: if_splits)

lemma client2_receiving: "client2_phase c = Receiving got \<longleftrightarrow>
    d_err c = [] \<and> d_at c = C_Recv \<and> d_buf c = got \<and> length got < msg_size \<and> d_left c = msg_size - length got"
  by (auto simp: client2_phase_def split: if_splits)

lemma client2_idle: "e = Interrupted \<or> e = Again \<and> d_at c = C_Recv \<Longrightarrow> client2_on e c = c"
  by (cases "d_at c") (auto simp: client2_on_def client2_read_def client2_write_def data_of_def)

interpretation client2: endpoint client2_call client2_on client2_phase d_rounds msg_size msg_size "CHR ''s''" 0
proof
  fix c n got k b xs e
  show "0 < n \<and> n \<le> msg_size \<and> (client2_call c = Sends n \<or> client2_call c = Polls_out)" if "client2_phase c = Sending n"
    using that by (simp add: client2_sending client2_call_def)
  show "length got < msg_size \<and> (client2_call c = Polls_in \<or> (\<exists>b. client2_call c = Receives (msg_size - length got) b))"
    if "client2_phase c = Receiving got"
    using that by (auto simp: client2_receiving client2_call_def)
  show "(client2_phase (client2_on (Accepted k) c), d_rounds (client2_on (Accepted k) c)) =
      (if k = n then (Receiving [], d_rounds c + 0) else (Sending (n - k), d_rounds c))"
    if "client2_phase c = Sending n" "0 < k" "k \<le> n"
  proof (cases "k = n")
    case True
    have "client2_phase (client2_on (Accepted k) c) = Receiving []"
      unfolding client2_receiving using that True by (simp add: client2_sending client2_on_def client2_write_def)
    then show ?thesis using that True by (simp add: client2_sending client2_on_def client2_write_def)
  next
    case False
    have "client2_phase (client2_on (Accepted k) c) = Sending (n - k)"
      using that False unfolding client2_sending by (auto simp: client2_on_def client2_write_def)
    then show ?thesis using that False by (simp add: client2_sending client2_on_def client2_write_def)
  qed
  show "(client2_phase (client2_on (Bytes xs) c), d_rounds (client2_on (Bytes xs) c)) =
      (if length xs = n then (Sending msg_size, d_rounds c + (1 - 0)) else (Receiving (got @ xs), d_rounds c))"
    if p: "client2_phase c = Receiving got" and q: "client2_call c = Receives n b" and x: "xs \<noteq> []" "length xs \<le> n"
  proof -
    have n: "n = msg_size - length got" "d_left c = n" using p q by (simp_all add: client2_receiving client2_call_def)
    show ?thesis
    proof (cases "length xs = n")
      case True
      have "client2_phase (client2_on (Bytes xs) c) = Sending msg_size"
        using p n True unfolding client2_sending client2_receiving by (simp add: client2_on_def client2_read_def)
      then show ?thesis using p n True by (simp add: client2_receiving client2_on_def client2_read_def)
    next
      case False
      have "client2_phase (client2_on (Bytes xs) c) = Receiving (got @ xs)"
        using p n x False unfolding client2_receiving by (auto simp: client2_on_def client2_read_def data_of_def)
      then show ?thesis using p n x False by (simp add: client2_receiving client2_on_def client2_read_def)
    qed
  qed
  show "client2_phase (client2_on e c) = client2_phase c \<and> d_rounds (client2_on e c) = d_rounds c"
    if "client2_phase c \<noteq> Ended" "e = Interrupted \<or> e = Ready \<and> client2_call c \<in> {Polls_in, Polls_out}"
  proof -
    have "e = Interrupted" using that(2) by (auto simp: client2_call_def split: client_pc.splits)
    then show ?thesis using client2_idle by simp
  qed
  show "client2_phase (client2_on Again c) = client2_phase c \<and> d_rounds (client2_on Again c) = d_rounds c"
    if "client2_phase c = Receiving got"
    using that client2_idle [of Again c] by (simp add: client2_receiving)
qed simp_all

lemma server2_sending: "server2_phase s = Sending n \<longleftrightarrow>
    server2_fine s \<and> (t_at s = S_Send \<or> t_at s = S_Send_Wait) \<and> t_left s = n \<and> 0 < n \<and> n \<le> msg_size"
  by (auto simp: server2_phase_def split: if_splits)

lemma server2_receiving: "server2_phase s = Receiving got \<longleftrightarrow>
    server2_fine s \<and> (t_at s = S_Recv \<or> t_at s = S_Recv_Wait) \<and> t_buf s = got \<and> length got < msg_size \<and> t_left s = msg_size - length got"
  by (auto simp: server2_phase_def split: if_splits)

lemma server2_interrupted: "server2_on Interrupted s = s"
  by (cases "t_at s") (simp_all add: server2_on_def vio_read_def vio_write_def vio_wait_def data_of_def)

lemma server2_ready:
  assumes "e = Ready \<and> server2_call s \<in> {Polls_in, Polls_out}"
  shows "server2_phase (server2_on e s) = server2_phase s \<and> replies2 (server2_on e s) = replies2 s"
proof (cases "t_at s")
  case S_Recv_Wait
  then have "server2_on e s = s\<lparr>t_at := S_Recv\<rparr>" using assms by (simp add: server2_on_def vio_wait_def)
  then show ?thesis using S_Recv_Wait by (simp add: server2_phase_def server2_fine_def replies2_def)
next
  case S_Send_Wait
  then have "server2_on e s = s\<lparr>t_at := S_Send\<rparr>" using assms by (simp add: server2_on_def vio_wait_def)
  then show ?thesis using S_Send_Wait by (simp add: server2_phase_def server2_fine_def replies2_def)
qed (use assms in \<open>simp_all add: server2_call_def\<close>)

lemma server2_again:
  "server2_call s = Receives n False \<Longrightarrow> server2_phase (server2_on Again s) = server2_phase s \<and> replies2 (server2_on Again s) = replies2 s"
  by (cases "t_at s") (simp_all add: server2_call_def server2_on_def vio_read_def data_of_def replies2_def server2_phase_def server2_fine_def)

lemma after_write2_ok:
  assumes "server2_fine s"
  shows "server2_phase (after_write2 0 s) = Receiving [] \<and> replies2 (after_write2 0 s) = replies2 s + 1"
proof (cases "t_warm s < 1000")
  case True
  then show ?thesis using assms unfolding server2_receiving by (simp add: after_write2_def server2_fine_def replies2_def)
next
  case False
  show ?thesis
  proof (cases "t_i s + 1 < kCount")
    case True
    then show ?thesis using assms False unfolding server2_receiving by (simp add: after_write2_def server2_fine_def replies2_def)
  next
    case last: False
    then have "t_i s + 1 = kCount" using assms by (simp add: server2_fine_def)
    then show ?thesis using assms False last unfolding server2_receiving by (simp add: after_write2_def server2_fine_def replies2_def)
  qed
qed

interpretation server2: endpoint server2_call server2_on server2_phase replies2 msg_size msg_size "CHR ''c''" 1
proof
  fix s n got k b xs e
  show "0 < n \<and> n \<le> msg_size \<and> (server2_call s = Sends n \<or> server2_call s = Polls_out)" if "server2_phase s = Sending n"
    using that by (auto simp: server2_sending server2_call_def)
  show "length got < msg_size \<and> (server2_call s = Polls_in \<or> (\<exists>b. server2_call s = Receives (msg_size - length got) b))"
    if "server2_phase s = Receiving got"
    using that by (auto simp: server2_receiving server2_call_def)
  show "(server2_phase (server2_on (Accepted k) s), replies2 (server2_on (Accepted k) s)) =
      (if k = n then (Receiving [], replies2 s + 1) else (Sending (n - k), replies2 s))"
    if p: "server2_phase s = Sending n" and q: "server2_call s = Sends n" and k: "0 < k" "k \<le> n"
  proof -
    have a: "t_at s = S_Send" "t_left s = n" "server2_fine s"
      using p q by (auto simp: server2_sending server2_call_def)
    show ?thesis
    proof (cases "k = n")
      case True
      have "server2_on (Accepted k) s = after_write2 0 s" using a True by (simp add: server2_on_def vio_write_def)
      then show ?thesis using True after_write2_ok [OF a(3)] by simp
    next
      case False
      have o: "server2_on (Accepted k) s = s\<lparr>t_left := n - k\<rparr>" using a False by (simp add: server2_on_def vio_write_def)
      have "server2_phase (s\<lparr>t_left := n - k\<rparr>) = Sending (n - k)"
        using p a k False unfolding server2_sending by (auto simp: server2_fine_def)
      then show ?thesis using False o by (simp add: replies2_def)
    qed
  qed
  show "(server2_phase (server2_on (Bytes xs) s), replies2 (server2_on (Bytes xs) s)) =
      (if length xs = n then (Sending msg_size, replies2 s + (1 - 1)) else (Receiving (got @ xs), replies2 s))"
    if p: "server2_phase s = Receiving got" and q: "server2_call s = Receives n b" and x: "xs \<noteq> []" "length xs \<le> n"
  proof -
    have a: "t_at s = S_Recv" "t_left s = n" "server2_fine s" "t_buf s = got" "n = msg_size - length got"
      using p q by (auto simp: server2_receiving server2_call_def)
    let ?s = "s\<lparr>t_buf := got @ xs\<rparr>"
    show ?thesis
    proof (cases "length xs = n")
      case True
      have o: "server2_on (Bytes xs) s = ?s\<lparr>t_buf := [], t_left := msg_size, t_at := S_Send\<rparr>"
        using a True by (simp add: server2_on_def vio_read_def data_of_def after_read2_def Let_def)
      have "server2_phase (?s\<lparr>t_buf := [], t_left := msg_size, t_at := S_Send\<rparr>) = Sending msg_size"
        using a unfolding server2_sending by (simp add: server2_fine_def)
      then show ?thesis using True o by (simp add: replies2_def)
    next
      case False
      have o: "server2_on (Bytes xs) s = ?s\<lparr>t_left := n - length xs\<rparr>"
        using a x False by (simp add: server2_on_def vio_read_def data_of_def)
      have "server2_phase (?s\<lparr>t_left := n - length xs\<rparr>) = Receiving (got @ xs)"
        using p a x False unfolding server2_receiving by (auto simp: server2_fine_def)
      then show ?thesis using False o by (simp add: replies2_def)
    qed
  qed
  show "server2_phase (server2_on e s) = server2_phase s \<and> replies2 (server2_on e s) = replies2 s"
    if "server2_phase s \<noteq> Ended" "e = Interrupted \<or> e = Ready \<and> server2_call s \<in> {Polls_in, Polls_out}"
    using that(2) server2_ready [of e s] server2_interrupted [of s] by auto
  show "server2_phase (server2_on Again s) = server2_phase s \<and> replies2 (server2_on Again s) = replies2 s"
    if "server2_phase s = Receiving got" "server2_call s = Receives n False"
    using server2_again [OF that(2)] .
qed simp_all

subsection \<open>The exchange\<close>

interpretation vio2: request_reply client2_call client2_on client2_phase d_rounds server2_call server2_on server2_phase replies2
    msg_size msg_size "msg_size + extra" for extra :: nat
  by unfold_locales simp_all

definition vio2_init :: "(client2, server2) link \<Rightarrow> bool" where
  "vio2_init l \<longleftrightarrow> l = \<lparr>cl = client2_init, sv = server2_init, c2s = [], s2c = []\<rparr>"

definition vio2_step :: "nat \<Rightarrow> (client2, server2) link \<Rightarrow> (client2, server2) link \<Rightarrow> bool" where
  "vio2_step cap = link_step cap client2_call client2_on server2_call server2_on"

lemma vio2_init_in_step: "vio2_init l \<Longrightarrow> vio2.in_step l"
  by (simp add: vio2_init_def vio2.in_step_def client2_init_def server2_init_def client2_phase_def server2_phase_def server2_fine_def replies2_def)

interpretation vio2_run: invariant_system vio2_init "vio2_step (msg_size + extra)" vio2.in_step for extra :: nat
  by unfold_locales (auto simp: vio2_step_def intro: vio2_init_in_step vio2.link_step_inv)

text \<open>Remark: The second benchmark keeps the same contract: on a connection with room for a message nobody reports an
  error or closes, in the warm-up and after it, and the server has sent as many replies as the client received
  or one more; some side can always go on.\<close>

theorem vio2_exchange:
  assumes "reachable vio2_init (vio2_step cap) l" "msg_size \<le> cap"
  shows "d_err (cl l) = [] \<and> t_err (sv l) = [] \<and> d_at (cl l) \<noteq> C_Closed \<and> t_at (sv l) \<noteq> S_Closed \<and>
    d_rounds (cl l) \<le> replies2 (sv l) \<and> replies2 (sv l) \<le> d_rounds (cl l) + 1 \<and>
    (can_go cap (client2_call (cl l)) (c2s l) (s2c l) \<or> can_go cap (server2_call (sv l)) (s2c l) (c2s l))"
proof -
  obtain extra where cap: "cap = msg_size + extra" using assms(2) le_Suc_ex by blast
  have i: "vio2.in_step l" using vio2_run.reachable_inv [of extra l] assms(1) cap by simp
  have "client2_phase (cl l) \<noteq> Ended" "server2_phase (sv l) \<noteq> Ended" using vio2.in_step_open [OF i] by auto
  then have "d_err (cl l) = []" "t_err (sv l) = []"
    by (auto simp: client2_phase_def server2_phase_def server2_fine_def split: if_splits)
  then show ?thesis
    using vio2.in_step_rounds [OF i] vio2.somebody_can_go [of l extra] i cap
    by (auto simp: client2_call_def server2_call_def)
qed

text \<open>Remark: During the warm-up the server does not notice that its client is gone: at the end of the stream it goes on
  to send a reply, round after round, until the warm-up is over.\<close>

theorem warm_up_ignores_close:
  assumes "t_at s = S_Recv" "0 < t_left s" "t_warm s < 1000" "t_err s = []"
  shows "t_at (server2_on (Bytes []) s) = S_Send \<and> t_err (server2_on (Bytes []) s) = [] \<and>
    t_at (server2_on Failed (server2_on (Bytes []) s)) = S_Recv \<and> t_warm (server2_on Failed (server2_on (Bytes []) s)) = t_warm s + 1"
  using assms by (simp add: server2_on_def vio_read_def vio_write_def after_read2_def after_write2_def data_of_def)

theorem vio2_exchange_witness:
  "\<exists>l. reachable vio2_init (vio2_step 100) l \<and> length (c2s l) = 100 \<and> d_at (cl l) = C_Recv \<and> t_err (sv l) = [] \<and>
    (can_go 100 (client2_call (cl l)) (c2s l) (s2c l) \<or> can_go 100 (server2_call (sv l)) (s2c l) (c2s l))"
proof -
  let ?l0 = "\<lparr>cl = client2_init, sv = server2_init, c2s = [], s2c = []\<rparr>"
  let ?c = "client2_init\<lparr>d_left := msg_size, d_at := C_Recv\<rparr>"
  let ?l1 = "?l0\<lparr>cl := ?c, c2s := replicate msg_size CHR ''c'', s2c := []\<rparr>"
  have o: "client2_on (Accepted msg_size) client2_init = ?c"
    by (simp add: client2_on_def client2_init_def client2_write_def)
  have "half_step 100 CHR ''c'' client2_call client2_on (server2_call server2_init = Closed) client2_init [] []
      (client2_on (Accepted msg_size) client2_init) ([] @ replicate msg_size CHR ''c'') []"
    by (rule half_step.sends [of _ _ msg_size]) (simp_all add: client2_call_def client2_init_def msg_size_def)
  then have s1: "vio2_step 100 ?l0 ?l1"
    unfolding vio2_step_def o using link_step.client_calls [of 100 client2_call client2_on server2_call ?l0 ?c "replicate msg_size CHR ''c''" "[]"] by simp
  have "reachable vio2_init (vio2_step 100) ?l0" by (rule reach_init) (simp add: vio2_init_def)
  then have r: "reachable vio2_init (vio2_step 100) ?l1" using s1 by (rule reach_step)
  show ?thesis
    using vio2_exchange [OF r] r by (intro exI [of _ ?l1]) (simp add: msg_size_def client2_init_def)
qed


subsection \<open>Properties of the main functions\<close>

definition dropped :: "string list \<Rightarrow> bool" where
  "dropped log \<longleftrightarrow> (\<exists>m \<in> {''server: client closed'', ''server: read error'', ''server: write error''}. log = [m, ''server: drop client''])"

lemma server2_said:
  assumes "if t_at s = S_Closed then dropped (t_err s)
      else t_err s = []"
  shows "if t_at (server2_on e s) = S_Closed
      then dropped (t_err (server2_on e s))
      else t_err (server2_on e s) = []"
  using assms
  by (cases "t_at s"; cases e)
     (auto simp: server2_on_def vio_read_def vio_write_def vio_wait_def after_read2_def after_write2_def out_def data_of_def dropped_def Let_def)

lemma handler2_said:
  assumes "if t_at s = S_Closed then dropped (t_err s)
      else t_err s = []" "handler2 es s = Some t"
  shows "dropped (t_err t)"
  using assms
proof (induction es arbitrary: s)
  case (Cons e es)
  show ?case
  proof (cases "t_at s = S_Closed")
    case False
    then have "handler2 es (server2_on e s) = Some t" using Cons.prems(2) by simp
    then show ?thesis using Cons.IH server2_said [OF Cons.prems(1)] by blast
  qed (use Cons.prems in auto)
qed (auto split: if_splits)

lemma client2_said:
  "(d_at c = C_Closed \<longleftrightarrow> d_err c \<noteq> []) \<and> set (d_err c) \<subseteq> {''client: write error'', ''client: read error''} \<Longrightarrow>
   (d_at (client2_on e c) = C_Closed \<longleftrightarrow> d_err (client2_on e c) \<noteq> []) \<and>
   set (d_err (client2_on e c)) \<subseteq> {''client: write error'', ''client: read error''}"
  by (cases "d_at c"; cases e) (auto simp: client2_on_def client2_read_def client2_write_def)

lemma client2_handler_said:
  "(d_at c = C_Closed \<longleftrightarrow> d_err c \<noteq> []) \<and> set (d_err c) \<subseteq> {''client: write error'', ''client: read error''} \<Longrightarrow>
   client2_handler es c = Some r \<Longrightarrow> d_err r \<noteq> []"
proof (induction es arbitrary: c)
  case (Cons e es)
  then show ?case using client2_said [of c e] by (auto split: if_splits)
qed (simp split: if_splits)

text \<open>Remark: The server's \<open>main\<close> never returns: it waits for a client, is inside a handler, or aborts, which it does exactly
  when the set-up or the first connection that fails does; clients cannot make it abort by what they send. Every finished handler
  has printed one reason and that it dropped the client. The client returns 0 only after an error.\<close>

theorem vio2_mains:
  assumes "main_server2 socket reuse bound listening conns = (logs, end)"
    and "main_client2 argv address_ok socket' connected set_nodelay es = Some (Exits 0 errors)"
  shows "(end = Aborted \<longleftrightarrow> \<not> (socket \<and> reuse \<and> bound \<and> listening) \<or>
        (\<exists>i<length conns. \<not> (fst (conns ! i) \<and> fst (snd (conns ! i))) \<and> (\<forall>j<i. fst (conns ! j) \<and> fst (snd (conns ! j)) \<and>
          handler2 (snd (snd (conns ! j))) server2_init \<noteq> None))) \<and>
    (end \<noteq> Aborted \<longrightarrow> (\<forall>log \<in> set logs. dropped log)) \<and>
    errors \<noteq> []"
proof (intro conjI)
  have loop: "(snd (accept_loop2 conns) = Aborted \<longleftrightarrow>
        (\<exists>i<length conns. \<not> (fst (conns ! i) \<and> fst (snd (conns ! i))) \<and> (\<forall>j<i. fst (conns ! j) \<and> fst (snd (conns ! j)) \<and>
          handler2 (snd (snd (conns ! j))) server2_init \<noteq> None))) \<and>
      (snd (accept_loop2 conns) \<noteq> Aborted \<longrightarrow> (\<forall>log \<in> set (fst (accept_loop2 conns)). dropped log))" for conns
  proof (induction conns)
    case (Cons c conns)
    obtain accepted nodelay es' where c: "c = (accepted, nodelay, es')" by (cases c)
    show ?case
    proof (cases "accepted \<and> nodelay")
      case True
      show ?thesis
      proof (cases "handler2 es' server2_init")
        case None
        then show ?thesis using True by (auto simp: c Ex_less_Suc2 All_less_Suc2)
      next
        case (Some s)
        then have "dropped (t_err s)" using handler2_said [OF _ Some] by (simp add: server2_init_def)
        then show ?thesis using Cons True Some by (auto simp: c case_prod_beta Ex_less_Suc2 All_less_Suc2)
      qed
    qed (auto simp: c)
  qed simp
  show "end = Aborted \<longleftrightarrow> \<not> (socket \<and> reuse \<and> bound \<and> listening) \<or>
      (\<exists>i<length conns. \<not> (fst (conns ! i) \<and> fst (snd (conns ! i))) \<and> (\<forall>j<i. fst (conns ! j) \<and> fst (snd (conns ! j)) \<and>
        handler2 (snd (snd (conns ! j))) server2_init \<noteq> None))"
    and "end \<noteq> Aborted \<longrightarrow> (\<forall>log \<in> set logs. dropped log)"
    using assms(1) loop [of conns] by (auto simp: main_server2_def split: if_splits)
  have "d_err c \<noteq> []" if "client2_handler es client2_init = Some c" for c
    using client2_handler_said [OF _ that] by (simp add: client2_init_def)
  then show "errors \<noteq> []" using assms(2) by (auto simp: main_client2_def split: if_splits)
qed

lemma failing_warm_up:
  "t_warm s + k \<le> 1000 \<Longrightarrow> t_at s = S_Recv \<Longrightarrow> t_left s = msg_size \<Longrightarrow> t_buf s = [] \<Longrightarrow>
   handler2 (replicate k Failed @ replicate k Failed @ es) s = handler2 es (s\<lparr>t_warm := t_warm s + k\<rparr>)"
proof (induction k arbitrary: s)
  case (Suc k)
  have r: "replicate (Suc k) Failed @ replicate (Suc k) Failed @ es = Failed # Failed # replicate k Failed @ replicate k Failed @ es"
    by (simp add: replicate_app_Cons_same)
  have "server2_on Failed (server2_on Failed s) = s\<lparr>t_warm := t_warm s + 1\<rparr>"
    using Suc.prems by (simp add: server2_on_def vio_read_def vio_write_def after_read2_def after_write2_def data_of_def Let_def)
  moreover have "t_at (server2_on Failed s) = S_Send"
    using Suc.prems by (simp add: server2_on_def vio_read_def after_read2_def data_of_def Let_def)
  ultimately show ?case using Suc.IH [of "s\<lparr>t_warm := t_warm s + 1\<rparr>"] Suc.prems unfolding r by simp
qed simp

theorem vio2_mains_witness:
  "main_server2 True True True True [(True, True, replicate 1000 Failed @ replicate 1000 Failed @ [Bytes []]), (False, True, [])] =
     ([[''server: client closed'', ''server: drop client''], [''server: accept'']], Aborted) \<and>
   main_client2 [''vio-client'', ''10.0.0.1''] True True True True [Failed] = Some (Exits 0 [''client: write error'']) \<and>
   [''client: write error''] \<noteq> []"
proof -
  have h: "handler2 (replicate 1000 Failed @ replicate 1000 Failed @ [Bytes []]) server2_init =
      Some (out ''server: client closed'' (server2_init\<lparr>t_warm := 1000\<rparr>))"
    by (subst failing_warm_up)
       (simp_all add: server2_init_def server2_on_def vio_read_def after_read2_def out_def data_of_def msg_size_def Let_def)
  have s: "main_server2 True True True True [(True, True, replicate 1000 Failed @ replicate 1000 Failed @ [Bytes []]), (False, True, [])] =
     ([[''server: client closed'', ''server: drop client''], [''server: accept'']], Aborted)"
    by (simp add: main_server2_def h out_def) (simp add: server2_init_def)
  have c: "main_client2 [''vio-client'', ''10.0.0.1''] True True True True [Failed] = Some (Exits 0 [''client: write error''])"
    by (simp add: main_client2_def client2_init_def client2_on_def client2_write_def)
  show ?thesis using vio2_mains [OF s c] s c by blast
qed

end
