(* ===== verification/PapiVio.thy ===== *)
theory PapiVio
  imports Vio
begin

text \<open>
  A stream of messages of 64 bytes whose receiver and sender count instructions (\<open>src/papi\<close>).

  \<^item> \<open>vio_wait\<close> and \<open>vio_read\<close> of the server have the text of those in \<open>Vio\<close> and are used from there; waiting with \<open>epoll\<close> does
    the same as waiting with \<open>poll\<close>. A program is stopped in a system call, as in \<open>Vio\<close>.
  \<^item> The server is shown with one connection; \<open>main\<close> then accepts the next one in the same way. The set-up of the
    sockets is that of \<open>vio-bench2\<close> and left out.
  \<^item> The counting library is an argument: whether its calls succeed, and the values it reports.
\<close>

subsection \<open>The counters (papi.h)\<close>

text \<open>Events by code or by name. An assertion that fails ends the process: \<open>None\<close>.\<close>

datatype papi_event = Code nat | Named string

record papi =
  m_events :: nat
  m_event_set :: "papi_event list"

definition add_event :: "(papi_event \<Rightarrow> bool) \<Rightarrow> papi_event \<Rightarrow> papi \<Rightarrow> papi option" where
  "add_event known e p = (if known e then Some (p\<lparr>m_event_set := m_event_set p @ [e]\<rparr>) else None)"

fun add_events :: "(papi_event \<Rightarrow> bool) \<Rightarrow> papi_event list \<Rightarrow> papi \<Rightarrow> papi option" where
  "add_events known [] p = Some p"
| "add_events known (e # es) p = do { p \<leftarrow> add_event known e p; add_events known es p }"

definition new_papi :: "(papi_event \<Rightarrow> bool) \<Rightarrow> papi_event \<Rightarrow> papi_event list \<Rightarrow> papi option" where
  "new_papi known e rest = add_events known (e # rest) \<lparr>m_events = 1 + length rest, m_event_set = []\<rparr>"

text \<open>\<open>stop\<close> with \<open>n\<close> places for results; \<open>count\<close> is what the library reports for an event.\<close>

definition papi_stop :: "(papi_event \<Rightarrow> int) \<Rightarrow> nat \<Rightarrow> papi \<Rightarrow> int list option" where
  "papi_stop count n p = (if m_events p = n then Some (map count (m_event_set p)) else None)"

subsection \<open>The server\<close>

definition papi_size :: nat where "papi_size = 64"
definition papi_loops :: nat where "papi_loops = 1000"

datatype papi_at = P_Recv | P_Wait | P_Error | P_Abort

text \<open>\<open>p_off\<close> is how far the pointer of \<open>vio_read\<close> has moved in \<open>buf_recv\<close>, \<open>p_i\<close> the number of the message; the number of the reports is
  counted instead of the instructions they tell about.\<close>

record papi_server =
  p_at :: papi_at
  buf_recv :: string
  p_off :: nat
  p_i :: nat
  p_reports :: nat

definition papi_server_init :: papi_server where
  "papi_server_init = \<lparr>p_at = P_Recv, buf_recv = replicate papi_size NUL, p_off = 0, p_i = 0, p_reports = 0\<rparr>"

text \<open>From the return of \<open>vio_read\<close> on: after the last message of a round the report is printed and the last message
  looked at, then the buffer is cleared for the next round. After an error the connection is closed.\<close>

definition after_papi_read :: "int \<Rightarrow> papi_server \<Rightarrow> papi_server" where
  "after_papi_read ret s =
     (if ret \<noteq> 0 then s\<lparr>p_at := P_Error\<rparr>
      else if p_i s + 1 < papi_loops then s\<lparr>p_i := p_i s + 1, p_off := 0, p_at := P_Recv\<rparr>
      else let s = s\<lparr>p_reports := p_reports s + 1\<rparr>
           in if \<forall>x \<in> set (buf_recv s). x = CHR ''c'' then s\<lparr>buf_recv := replicate papi_size NUL, p_i := 0, p_off := 0, p_at := P_Recv\<rparr>
              else s\<lparr>p_at := P_Abort\<rparr>)"

definition papi_server_on :: "event \<Rightarrow> papi_server \<Rightarrow> papi_server" where
  "papi_server_on e s =
     (case p_at s of
        P_Recv \<Rightarrow>
          let s = s\<lparr>buf_recv := overwrite (buf_recv s) (p_off s) (data_of e)\<rparr>
          in (case vio_read e (papi_size - p_off s) of Returns r \<Rightarrow> after_papi_read r s
              | Goes_on n \<Rightarrow> s\<lparr>p_off := papi_size - n\<rparr> | Polls \<Rightarrow> s\<lparr>p_at := P_Wait\<rparr>)
      | P_Wait \<Rightarrow> (case vio_wait e of None \<Rightarrow> s | Some r \<Rightarrow> if r \<noteq> 0 then after_papi_read (-1) s else s\<lparr>p_at := P_Recv\<rparr>)
      | _ \<Rightarrow> s)"

definition papi_server_call :: "papi_server \<Rightarrow> call" where
  "papi_server_call s = (case p_at s of P_Recv \<Rightarrow> Receives (papi_size - p_off s) False | P_Wait \<Rightarrow> Polls_in | _ \<Rightarrow> Closed)"

subsection \<open>The client\<close>

definition papi_write :: "event \<Rightarrow> nat \<Rightarrow> round" where
  "papi_write e left =
     (case e of Accepted k \<Rightarrow> if k = left then Returns 0 else Goes_on (left - k)
      | Interrupted \<Rightarrow> Goes_on left
      | _ \<Rightarrow> Returns (-1))"

record papi_client =
  q_left :: nat
  q_i :: nat
  q_reports :: nat
  q_aborted :: bool

definition papi_client_init :: papi_client where
  "papi_client_init = \<lparr>q_left = papi_size, q_i = 0, q_reports = 0, q_aborted = False\<rparr>"

definition papi_client_on :: "event \<Rightarrow> papi_client \<Rightarrow> papi_client" where
  "papi_client_on e c =
     (if q_aborted c then c
      else case papi_write e (q_left c) of
        Returns r \<Rightarrow>
          if r \<noteq> 0 then c\<lparr>q_aborted := True\<rparr>
          else if q_i c + 1 < papi_loops then c\<lparr>q_left := papi_size, q_i := q_i c + 1\<rparr>
          else c\<lparr>q_left := papi_size, q_i := 0, q_reports := q_reports c + 1\<rparr>
      | Goes_on n \<Rightarrow> c\<lparr>q_left := n\<rparr>
      | Polls \<Rightarrow> c)"

text \<open>The variant with \<open>io_uring\<close> asks only whether one request was submitted, not what became of it.\<close>

definition uring_write :: "nat \<Rightarrow> event \<Rightarrow> round" where
  "uring_write submitted e = (if submitted = 1 then Returns 0 else Returns (-1))"

subsection \<open>Both together\<close>

text \<open>The connection holds \<open>cap\<close> bytes; \<open>send\<close> blocks while it is full.\<close>

record papi_link =
  sender :: papi_client
  stream :: string
  receiver :: papi_server

inductive papi_step :: "nat \<Rightarrow> papi_link \<Rightarrow> papi_link \<Rightarrow> bool" for cap where
  client_sends: "\<not> q_aborted (sender l) \<Longrightarrow> 0 < k \<Longrightarrow> k \<le> q_left (sender l) \<Longrightarrow> length (stream l) + k \<le> cap \<Longrightarrow>
    papi_step cap l (l\<lparr>sender := papi_client_on (Accepted k) (sender l), stream := stream l @ replicate k CHR ''c''\<rparr>)"
| client_interrupted: "papi_step cap l (l\<lparr>sender := papi_client_on Interrupted (sender l)\<rparr>)"
| server_receives: "papi_server_call (receiver l) = Receives n False \<Longrightarrow> stream l = xs @ ys \<Longrightarrow> xs \<noteq> [] \<Longrightarrow> length xs \<le> n \<Longrightarrow>
    papi_step cap l (l\<lparr>receiver := papi_server_on (Bytes xs) (receiver l), stream := ys\<rparr>)"
| server_empty: "papi_server_call (receiver l) = Receives n False \<Longrightarrow> stream l = [] \<Longrightarrow>
    papi_step cap l (l\<lparr>receiver := papi_server_on Again (receiver l)\<rparr>)"
| server_ready: "papi_server_call (receiver l) = Polls_in \<Longrightarrow> stream l \<noteq> [] \<Longrightarrow> papi_step cap l (l\<lparr>receiver := papi_server_on Ready (receiver l)\<rparr>)"
| server_interrupted: "papi_step cap l (l\<lparr>receiver := papi_server_on Interrupted (receiver l)\<rparr>)"

definition papi_init :: "papi_link \<Rightarrow> bool" where
  "papi_init l \<longleftrightarrow> l = \<lparr>sender = papi_client_init, stream = [], receiver = papi_server_init\<rparr>"

subsection \<open>Invariant\<close>

definition bytes_in :: "papi_server \<Rightarrow> nat" where
  "bytes_in s = papi_size * (papi_loops * p_reports s + p_i s) + p_off s"

definition bytes_out :: "papi_client \<Rightarrow> nat" where
  "bytes_out c = papi_size * (papi_loops * q_reports c + q_i c) + (papi_size - q_left c)"

definition papi_client_ok :: "papi_client \<Rightarrow> bool" where
  "papi_client_ok c \<longleftrightarrow> \<not> q_aborted c \<and> 0 < q_left c \<and> q_left c \<le> papi_size \<and> q_i c < papi_loops"

definition papi_server_ok :: "papi_server \<Rightarrow> bool" where
  "papi_server_ok s \<longleftrightarrow> p_at s \<in> {P_Recv, P_Wait} \<and> length (buf_recv s) = papi_size \<and> p_off s < papi_size \<and> p_i s < papi_loops \<and>
     set (take (p_off s) (buf_recv s)) \<subseteq> {CHR ''c''}"

definition papi_inv :: "nat \<Rightarrow> papi_link \<Rightarrow> bool" where
  "papi_inv cap l \<longleftrightarrow> papi_client_ok (sender l) \<and> papi_server_ok (receiver l) \<and> set (stream l) \<subseteq> {CHR ''c''} \<and> length (stream l) \<le> cap \<and>
     bytes_out (sender l) = bytes_in (receiver l) + length (stream l)"

lemma papi_sizes [simp]: "0 < papi_size" "0 < papi_loops"
  by (simp_all add: papi_size_def papi_loops_def)

text \<open>The last message of a round.\<close>

lemma round_end: "b = i + 1 \<Longrightarrow> a * (b * Suc r) = a * (b * r + i) + (a :: nat)"
  by (simp add: algebra_simps)

lemma papi_client_accepts:
  assumes "papi_client_ok c" "0 < k" "k \<le> q_left c"
  shows "papi_client_ok (papi_client_on (Accepted k) c)" "bytes_out (papi_client_on (Accepted k) c) = bytes_out c + k"
proof -
  have "papi_client_ok (papi_client_on (Accepted k) c) \<and> bytes_out (papi_client_on (Accepted k) c) = bytes_out c + k"
  proof (cases "k = q_left c")
    case False
    then show ?thesis using assms by (auto simp: papi_client_on_def papi_write_def papi_client_ok_def bytes_out_def)
  next
    case k: True
    show ?thesis
    proof (cases "q_i c + 1 < papi_loops")
      case True
      then show ?thesis using assms k by (simp add: papi_client_on_def papi_write_def papi_client_ok_def bytes_out_def)
    next
      case False
      then have "papi_loops = q_i c + 1" using assms(1) by (simp add: papi_client_ok_def)
      then show ?thesis
        using assms k False round_end [of papi_loops "q_i c" papi_size "q_reports c"]
        by (simp add: papi_client_on_def papi_write_def papi_client_ok_def bytes_out_def)
    qed
  qed
  then show "papi_client_ok (papi_client_on (Accepted k) c)" "bytes_out (papi_client_on (Accepted k) c) = bytes_out c + k" by auto
qed

lemma overwrite_filled:
  assumes "length buf = n" "off + length xs \<le> n" "set (take off buf) \<subseteq> A" "set xs \<subseteq> A"
  shows "set (take (off + length xs) (overwrite buf off xs)) \<subseteq> A"
  using assms by (auto simp: take_overwrite)

lemma papi_server_gets:
  assumes ok: "papi_server_ok s" and call: "papi_server_call s = Receives n False" and x: "xs \<noteq> []" "length xs \<le> n" "set xs \<subseteq> {CHR ''c''}"
  shows "papi_server_ok (papi_server_on (Bytes xs) s)" "bytes_in (papi_server_on (Bytes xs) s) = bytes_in s + length xs"
proof -
  have at: "p_at s = P_Recv" and n: "n = papi_size - p_off s"
    using call by (auto simp: papi_server_call_def split: papi_at.splits)
  let ?s = "s\<lparr>buf_recv := overwrite (buf_recv s) (p_off s) xs\<rparr>"
  have o: "p_off s < papi_size" "length (buf_recv s) = papi_size" "p_i s < papi_loops" using ok by (simp_all add: papi_server_ok_def)
  have len: "p_off s + length xs \<le> papi_size" using o(1) x(2) n by linarith
  have f: "set (take (p_off s + length xs) (buf_recv ?s)) \<subseteq> {CHR ''c''}" "length (buf_recv ?s) = papi_size"
    using overwrite_filled [OF o(2) len _ x(3)] ok len by (simp_all add: papi_server_ok_def)
  have "papi_server_ok (papi_server_on (Bytes xs) s) \<and> bytes_in (papi_server_on (Bytes xs) s) = bytes_in s + length xs"
  proof (cases "length xs = n")
    case False
    then have "papi_server_on (Bytes xs) s = ?s\<lparr>p_off := p_off s + length xs\<rparr>"
      using at n x by (simp add: papi_server_on_def vio_read_def data_of_def Let_def)
    then show ?thesis using f x n o False at by (simp add: papi_server_ok_def bytes_in_def)
  next
    case True
    then have c: "\<forall>y \<in> set (buf_recv ?s). y = CHR ''c''" using f n o by auto
    have e: "papi_server_on (Bytes xs) s = after_papi_read 0 ?s"
      using at n True by (simp add: papi_server_on_def vio_read_def data_of_def Let_def)
    show ?thesis
    proof (cases "p_i s + 1 < papi_loops")
      case t: True
      then show ?thesis unfolding e using f n o True by (simp add: after_papi_read_def papi_server_ok_def bytes_in_def)
    next
      case False
      then have "papi_loops = p_i s + 1" using o(3) by simp
      moreover have "after_papi_read 0 ?s = ?s\<lparr>p_reports := p_reports s + 1, buf_recv := replicate papi_size NUL, p_i := 0, p_off := 0, p_at := P_Recv\<rparr>"
        using False c by (simp add: after_papi_read_def Let_def)
      ultimately show ?thesis
        unfolding e using n o True round_end [of papi_loops "p_i s" papi_size "p_reports s"] by (simp add: papi_server_ok_def bytes_in_def)
    qed
  qed
  then show "papi_server_ok (papi_server_on (Bytes xs) s)" "bytes_in (papi_server_on (Bytes xs) s) = bytes_in s + length xs" by auto
qed

lemma papi_server_waits:
  assumes "papi_server_ok s" "e = Interrupted \<or> e = Again \<and> p_at s = P_Recv \<or> e = Ready \<and> p_at s = P_Wait"
  shows "papi_server_ok (papi_server_on e s) \<and> bytes_in (papi_server_on e s) = bytes_in s"
  using assms by (cases "p_at s") (auto simp: papi_server_ok_def papi_server_on_def vio_read_def vio_wait_def data_of_def bytes_in_def Let_def)

lemma papi_client_interrupted: "papi_client_on Interrupted c = c"
  by (simp add: papi_client_on_def papi_write_def)

lemma papi_inv_step:
  assumes "papi_inv cap l" "papi_step cap l m"
  shows "papi_inv cap m"
  using assms(2)
proof cases
  case (client_sends k)
  then show ?thesis using assms(1) papi_client_accepts [of "sender l" k] by (auto simp: papi_inv_def)
next
  case client_interrupted
  then show ?thesis using assms(1) by (simp add: papi_client_interrupted papi_inv_def)
next
  case (server_receives n xs ys)
  then show ?thesis using assms(1) papi_server_gets [of "receiver l" n xs] by (auto simp: papi_inv_def)
next
  case (server_empty n)
  then show ?thesis
    using assms(1) papi_server_waits [of "receiver l" Again] by (auto simp: papi_inv_def papi_server_call_def split: papi_at.splits)
next
  case server_ready
  then show ?thesis
    using assms(1) papi_server_waits [of "receiver l" Ready] by (auto simp: papi_inv_def papi_server_call_def split: papi_at.splits)
next
  case server_interrupted
  then show ?thesis using assms(1) papi_server_waits [of "receiver l" Interrupted] by (simp add: papi_inv_def)
qed

lemma papi_init_inv: "papi_init l \<Longrightarrow> papi_inv cap l"
  by (simp add: papi_init_def papi_inv_def papi_client_ok_def papi_server_ok_def papi_client_init_def papi_server_init_def bytes_in_def bytes_out_def)

interpretation papi: invariant_system papi_init "papi_step cap" "papi_inv cap" for cap
  by unfold_locales (blast intro: papi_init_inv papi_inv_step)+

text \<open>A step that moves data, or lets the server see that data has come.\<close>

lemma papi_enabled:
  assumes "papi_inv cap l" "0 < cap"
  shows "\<exists>m. papi_step cap l m \<and> (bytes_out (sender m) \<noteq> bytes_out (sender l) \<or> receiver m \<noteq> receiver l)"
proof (cases "stream l")
  case Nil
  let ?m = "l\<lparr>sender := papi_client_on (Accepted 1) (sender l), stream := stream l @ replicate 1 CHR ''c''\<rparr>"
  have c: "papi_client_ok (sender l)" using assms(1) by (simp add: papi_inv_def)
  then have "papi_step cap l ?m" using Nil assms(2) by (intro papi_step.client_sends) (auto simp: papi_client_ok_def)
  moreover have "bytes_out (sender ?m) = bytes_out (sender l) + 1"
    using papi_client_accepts(2) [OF c, of 1] c by (simp add: papi_client_ok_def)
  ultimately show ?thesis by (intro exI [of _ ?m]) simp
next
  case (Cons x xs)
  have ok: "papi_server_ok (receiver l)" using assms(1) by (simp add: papi_inv_def)
  show ?thesis
  proof (cases "p_at (receiver l)")
    case P_Recv
    let ?m = "l\<lparr>receiver := papi_server_on (Bytes [x]) (receiver l), stream := xs\<rparr>"
    have call: "papi_server_call (receiver l) = Receives (papi_size - p_off (receiver l)) False" using P_Recv by (simp add: papi_server_call_def)
    have "papi_step cap l ?m" using call Cons ok by (intro papi_step.server_receives) (auto simp: papi_server_ok_def)
    moreover have "bytes_in (receiver ?m) = bytes_in (receiver l) + 1"
      using papi_server_gets(2) [OF ok call, of "[x]"] ok assms(1) Cons by (simp add: papi_server_ok_def papi_inv_def Suc_le_eq)
    then have "receiver ?m \<noteq> receiver l" by fastforce
    ultimately show ?thesis by blast
  next
    case P_Wait
    let ?m = "l\<lparr>receiver := papi_server_on Ready (receiver l)\<rparr>"
    have "papi_step cap l ?m" using P_Wait Cons by (intro papi_step.server_ready) (simp_all add: papi_server_call_def)
    moreover have "p_at (receiver ?m) = P_Recv" using P_Wait by (simp add: papi_server_on_def vio_wait_def)
    then have "receiver ?m \<noteq> receiver l" using P_Wait by auto
    ultimately show ?thesis by blast
  qed (use ok in \<open>simp_all add: papi_server_ok_def\<close>)
qed

subsection \<open>Properties\<close>

text \<open>C23: The stream is cut anywhere and interrupted at any time, yet nobody aborts or reports an error: every byte sent is
  counted by the server or still under way, so the server is never ahead and at most what the connection holds behind, and somebody can
  always move data. The reports stand for 1000 messages each.\<close>

theorem papi_stream_counts:
  assumes "reachable papi_init (papi_step cap) l" "0 < cap"
  shows "\<not> q_aborted (sender l) \<and> p_at (receiver l) \<in> {P_Recv, P_Wait} \<and>
    bytes_out (sender l) = bytes_in (receiver l) + length (stream l) \<and> length (stream l) \<le> cap \<and>
    p_reports (receiver l) = bytes_in (receiver l) div (papi_size * papi_loops) \<and>
    q_reports (sender l) = bytes_out (sender l) div (papi_size * papi_loops) \<and>
    (\<exists>m. papi_step cap l m \<and> (bytes_out (sender m) \<noteq> bytes_out (sender l) \<or> receiver m \<noteq> receiver l))"
proof -
  have i: "papi_inv cap l" using papi.reachable_inv [OF assms(1)] .
  have d: "(papi_size * (papi_loops * r + i) + off) div (papi_size * papi_loops) = r" if "off < papi_size" "i < papi_loops" for r i off
  proof -
    have "papi_size * i + off < papi_size * (i + 1)" using that(1) by simp
    also have "\<dots> \<le> papi_size * papi_loops" using that(2) by (intro mult_le_mono2) simp
    finally have "(papi_size * i + off) div (papi_size * papi_loops) = 0" by simp
    note low = this
    have e: "papi_size * (papi_loops * r + i) + off = papi_size * i + off + r * (papi_size * papi_loops)" by (simp add: algebra_simps)
    have "papi_size * papi_loops \<noteq> 0" by simp
    from div_mult_self1 [OF this] show ?thesis by (simp only: e low add_0_right)
  qed
  have "p_reports (receiver l) = bytes_in (receiver l) div (papi_size * papi_loops)"
    unfolding bytes_in_def by (rule d [symmetric]) (use i in \<open>simp_all add: papi_inv_def papi_server_ok_def\<close>)
  moreover have "q_reports (sender l) = bytes_out (sender l) div (papi_size * papi_loops)"
    unfolding bytes_out_def by (rule d [symmetric]) (use i in \<open>simp_all add: papi_inv_def papi_client_ok_def\<close>)
  ultimately show ?thesis
    using i papi_enabled [OF i assms(2)] by (auto simp: papi_inv_def papi_client_ok_def papi_server_ok_def)
qed

theorem papi_stream_counts_witness:
  "\<exists>l. reachable papi_init (papi_step 100) l \<and> bytes_out (sender l) = 5 \<and> bytes_out (sender l) = bytes_in (receiver l) + length (stream l)"
proof -
  let ?l0 = "\<lparr>sender = papi_client_init, stream = [], receiver = papi_server_init\<rparr>"
  let ?l1 = "?l0\<lparr>sender := papi_client_on (Accepted 5) (sender ?l0), stream := stream ?l0 @ replicate 5 CHR ''c''\<rparr>"
  have "papi_step 100 ?l0 ?l1" by (rule papi_step.client_sends) (simp_all add: papi_client_init_def papi_size_def)
  moreover have "reachable papi_init (papi_step 100) ?l0" by (rule reach_init) (simp add: papi_init_def)
  ultimately have r: "reachable papi_init (papi_step 100) ?l1" by (blast intro: reach_step)
  have "bytes_out (sender ?l1) = 5"
    by (simp add: papi_client_on_def papi_write_def papi_client_init_def bytes_out_def papi_size_def papi_loops_def)
  with r obtain l where "reachable papi_init (papi_step 100) l" "bytes_out (sender l) = 5" by blast
  then show ?thesis using papi_stream_counts [of 100 l] by (intro exI [of _ l]) simp
qed

text \<open>Remark: The objects of the class report the events in the order in which they were added, and any other number of places
  than events ends the process.\<close>

theorem papi_reports_all:
  assumes "\<forall>e \<in> set (first # rest). known e"
  shows "(do { p \<leftarrow> new_papi known first rest; papi_stop count n p }) =
    (if n = 1 + length rest then Some (map count (first # rest)) else None)"
proof -
  have "add_events known es p = Some (p\<lparr>m_event_set := m_event_set p @ es\<rparr>)" if "\<forall>e \<in> set es. known e" for es p
    using that by (induction es arbitrary: p) (simp_all add: add_event_def)
  then show ?thesis using assms by (auto simp: new_papi_def papi_stop_def simp del: add_events.simps)
qed

theorem papi_reports_all_witness:
  "(do { p \<leftarrow> new_papi (\<lambda>e. True) (Named ''INST_RETIRED'') [Named ''CPU_CYCLES'']; papi_stop (\<lambda>e. if e = Named ''CPU_CYCLES'' then 7 else 9) 2 p }) = Some [9, 7]"
  using papi_reports_all [of "Named ''INST_RETIRED''" "[Named ''CPU_CYCLES'']" "\<lambda>e. True"] by simp

end
