(* ===== verification/Tail.thy ===== *)
theory Tail
  imports Prelude
begin

text \<open>
  The \<open>tail\<close> command (\<open>src/tlpi/tail.c\<close>): one pass over the file keeps the start positions of the last
  lines in a ring, a second pass copies the file from the oldest of them.

  \<^item> What a call of \<open>read\<close> does is a list of answers: how many bytes the kernel is ready to give, an
    interruption, or another error. A file is its contents.
  \<^item> The value of a run tells apart: it ends with an exit status and its output, it reaches undefined
    behaviour, or it waits for one more answer.
\<close>

subsection \<open>Arguments\<close>

text \<open>\<open>argv\<close> with the name of the program at its head; \<open>Inl\<close> is the exit of the program.\<close>

definition get_lines_fn :: "string list \<Rightarrow> (string + int \<times> string) run" where
  "get_lines_fn argv =
     (let settle = (\<lambda>lines fn. Ends (Inr (if lines < 1 then 10 else lines, fn)))
      in if length argv = 2 then settle 10 (argv ! 1)
         else if length argv = 4 \<and> argv ! 1 = ''-n'' then
           (case atoi (argv ! 2) of None \<Rightarrow> Undefined | Some lines \<Rightarrow> settle lines (argv ! 3))
         else Ends (Inl (''invalid arguments'' @ [newline])))"

subsection \<open>The pass over the file\<close>

text \<open>The sum of two \<open>int\<close>s, undefined when it overflows.\<close>

definition add_int32 :: "int \<Rightarrow> int \<Rightarrow> int option" where
  "add_int32 x y = (if - (2 ^ 31) \<le> x + y \<and> x + y < 2 ^ 31 then Some (x + y) else None)"

text \<open>The ring and the last character seen.\<close>

record ring =
  newline_seeks :: "int list"
  newline_first :: nat
  newline_last :: nat
  last_char :: char

fun parse_newline :: "nat \<Rightarrow> int \<Rightarrow> string \<Rightarrow> int \<Rightarrow> ring \<Rightarrow> ring option" where
  "parse_newline lines offset [] i r = Some r"
| "parse_newline lines offset (c # buf) i r =
     do {
       r \<leftarrow> (if last_char r = newline then
               let last = (newline_last r + 1) mod lines;
                   first = (if last = newline_first r then (newline_first r + 1) mod lines else newline_first r)
               in do {
                    pos \<leftarrow> add_int32 offset i;
                    seeks \<leftarrow> c_store (newline_seeks r) last pos;
                    Some (r\<lparr>newline_seeks := seeks, newline_first := first, newline_last := last\<rparr>) }
             else Some r);
       parse_newline lines offset buf (i + 1) (r\<lparr>last_char := c\<rparr>) }"

datatype answer = Bytes nat | Interrupted | Failed

definition BUF_SIZE :: nat where "BUF_SIZE = 256"

text \<open>What \<open>read\<close> puts into the buffer at a position: at least one character unless the file ends there,
  at most the buffer.\<close>

definition given :: "nat \<Rightarrow> string \<Rightarrow> nat \<Rightarrow> string" where
  "given n data pos = take (max 1 (min n BUF_SIZE)) (drop pos data)"

text \<open>The loop that reads all input: the answers left, the ring, or the exit after a failed read.\<close>

fun scan :: "nat \<Rightarrow> string \<Rightarrow> answer list \<Rightarrow> nat \<Rightarrow> int \<Rightarrow> ring \<Rightarrow> (string + answer list \<times> ring) run" where
  "scan lines data [] pos offset r = Waits"
| "scan lines data (Failed # as) pos offset r = Ends (Inl ''read'')"
| "scan lines data (Interrupted # as) pos offset r = scan lines data as pos (to_int32 (offset - 1)) r"
| "scan lines data (Bytes n # as) pos offset r =
     (let buf = given n data pos
      in if buf = [] then Ends (Inr (as, r))
         else case parse_newline lines offset buf 0 r of
           None \<Rightarrow> Undefined
         | Some r \<Rightarrow> scan lines data as (pos + length buf) (to_int32 (offset + int (length buf))) r)"

subsection \<open>The pass that copies\<close>

text \<open>A call of \<open>write\<close> takes as much of its argument as \<open>write_ret\<close> says; nothing looks at its result.\<close>

fun copy_out :: "(string \<Rightarrow> nat) \<Rightarrow> string \<Rightarrow> answer list \<Rightarrow> nat \<Rightarrow> string run" where
  "copy_out write_ret data [] pos = Waits"
| "copy_out write_ret data (Bytes n # as) pos =
     (let buf = given n data pos
      in if buf = [] then Ends []
         else case copy_out write_ret data as (pos + length buf) of
           Ends out \<Rightarrow> Ends (take (write_ret buf) buf @ out) | Undefined \<Rightarrow> Undefined | Waits \<Rightarrow> Waits)"
| "copy_out write_ret data (_ # as) pos = Ends []"

text \<open>\<open>main\<close>: the exit status and the output. \<open>alloc\<close> is the array \<open>malloc\<close> returns, \<open>files\<close> what \<open>open\<close>
  finds.\<close>

definition main_tail :: "(int \<Rightarrow> int list option) \<Rightarrow> (string \<Rightarrow> string option) \<Rightarrow> (string \<Rightarrow> nat) \<Rightarrow> string list \<Rightarrow>
    answer list \<Rightarrow> (nat \<times> string) run" where
  "main_tail alloc files write_ret argv as =
     (case get_lines_fn argv of Undefined \<Rightarrow> Undefined | Waits \<Rightarrow> Waits
      | Ends (Inl message) \<Rightarrow> Ends (1, message)
      | Ends (Inr (lines, fn)) \<Rightarrow>
          (case files fn of None \<Rightarrow> Ends (1, [])
           | Some data \<Rightarrow>
             (case Option.bind (alloc lines) (\<lambda>seeks. c_store seeks 0 0) of None \<Rightarrow> Undefined
              | Some seeks \<Rightarrow>
                (case scan (nat lines) data as 0 0
                        \<lparr>newline_seeks = seeks, newline_first = 0, newline_last = 0, last_char = NUL\<rparr> of
                   Undefined \<Rightarrow> Undefined | Waits \<Rightarrow> Waits
                 | Ends (Inl message) \<Rightarrow> Ends (1, [])
                 | Ends (Inr (as, r)) \<Rightarrow>
                     (case c_load (newline_seeks r) (newline_first r) of None \<Rightarrow> Undefined
                      | Some start \<Rightarrow>
                        if start < 0 then Ends (1, [])
                        else (case copy_out write_ret data as (nat start) of
                                Ends out \<Rightarrow> Ends (0, out) | Undefined \<Rightarrow> Undefined | Waits \<Rightarrow> Waits))))))"

subsection \<open>The ring holds the last starts\<close>

text \<open>The positions a pass over \<open>buf\<close> notes down, when it starts at a position after a character.\<close>

fun marks :: "string \<Rightarrow> int \<Rightarrow> char \<Rightarrow> int list" where
  "marks [] pos l = []"
| "marks (c # cs) pos l = (if l = newline then pos # marks cs (pos + 1) c else marks cs (pos + 1) c)"

definition ring_of :: "nat \<Rightarrow> int list \<Rightarrow> ring \<Rightarrow> bool" where
  "ring_of n xs r \<longleftrightarrow> xs \<noteq> [] \<and> length (newline_seeks r) = n \<and>
     newline_last r = (length xs - 1) mod n \<and> newline_first r = (length xs - n) mod n \<and>
     (\<forall>j < length xs. length xs - n \<le> j \<longrightarrow> newline_seeks r ! (j mod n) = xs ! j)"

lemma mod_distinct: "j < k \<Longrightarrow> k - j < n \<Longrightarrow> j mod n \<noteq> k mod (n :: nat)"
  using dvd_imp_le [of n "k - j"] mod_eq_dvd_iff_nat [of j k n] by (metis diff_is_0_eq' less_imp_le_nat not_le zero_less_diff)

lemma ring_last_next: "0 < k \<Longrightarrow> ((k - 1) mod n + 1) mod n = k mod (n :: nat)"
  by (cases k) (simp_all add: mod_Suc_eq)

lemma ring_first_next:
  assumes "0 < n" "0 < k"
  shows "(if k mod n = (k - n) mod n then ((k - n) mod n + 1) mod n else (k - n) mod n) = (Suc k - n) mod n"
proof (cases "k < n")
  case True
  then show ?thesis using assms by auto
next
  case False
  then have "(k - n) mod n = k mod n" "Suc k - n = k - n + 1" by (simp_all add: mod_if Suc_diff_le)
  then show ?thesis by (metis mod_add_left_eq)
qed

lemma ring_push:
  assumes "ring_of n xs r" "0 < n"
  shows "ring_of n (xs @ [p])
    (r\<lparr>newline_seeks := (newline_seeks r)[(newline_last r + 1) mod n := p],
       newline_first := (if (newline_last r + 1) mod n = newline_first r then (newline_first r + 1) mod n else newline_first r),
       newline_last := (newline_last r + 1) mod n\<rparr>)"
proof -
  have l: "(newline_last r + 1) mod n = length xs mod n"
    using ring_last_next [of "length xs" n] assms(1) by (simp add: ring_of_def)
  have f: "(if length xs mod n = newline_first r then (newline_first r + 1) mod n else newline_first r) = (Suc (length xs) - n) mod n"
    using ring_first_next [OF assms(2), of "length xs"] assms(1) unfolding ring_of_def by (metis length_greater_0_conv)
  have k: "(newline_seeks r)[length xs mod n := p] ! (j mod n) = (xs @ [p]) ! j"
    if "j < Suc (length xs)" "Suc (length xs) - n \<le> j" for j
  proof (cases "j = length xs")
    case True
    then show ?thesis using assms by (simp add: ring_of_def)
  next
    case False
    then have "j mod n \<noteq> length xs mod n" using mod_distinct [of j "length xs" n] that assms(2) by linarith
    then show ?thesis using False that assms(1) by (simp add: ring_of_def nth_append)
  qed
  show ?thesis
    unfolding l ring_of_def using f k assms(1) by (simp add: ring_of_def)
qed

lemma ring_last_char [simp]: "ring_of n xs (r\<lparr>last_char := c\<rparr>) = ring_of n xs r"
  by (simp add: ring_of_def)

lemma parse_newline_marks:
  assumes "ring_of n xs r" "0 < n" "- (2 ^ 31) \<le> pos + i" "pos + i + int (length buf) < 2 ^ 31"
  shows "\<exists>r'. parse_newline n pos buf i r = Some r' \<and> ring_of n (xs @ marks buf (pos + i) (last_char r)) r' \<and>
    last_char r' = last (last_char r # buf)"
  using assms
proof (induction buf arbitrary: xs r i)
  case Nil
  then show ?case by simp
next
  case (Cons c buf)
  have ok: "(newline_last r + 1) mod n < length (newline_seeks r)" using Cons.prems(1,2) by (simp add: ring_of_def)
  show ?case
  proof (cases "last_char r = newline")
    case True
    let ?r = "r\<lparr>newline_seeks := (newline_seeks r)[(newline_last r + 1) mod n := pos + i],
       newline_first := (if (newline_last r + 1) mod n = newline_first r then (newline_first r + 1) mod n else newline_first r),
       newline_last := (newline_last r + 1) mod n\<rparr>"
    have "parse_newline n pos (c # buf) i r = parse_newline n pos buf (i + 1) (?r\<lparr>last_char := c\<rparr>)"
      using True ok Cons.prems(3,4) by (simp add: add_int32_def Let_def)
    moreover have "ring_of n (xs @ [pos + i]) (?r\<lparr>last_char := c\<rparr>)"
      unfolding ring_last_char by (rule ring_push [OF Cons.prems(1,2)])
    ultimately show ?thesis
      using Cons.IH [of "xs @ [pos + i]" "?r\<lparr>last_char := c\<rparr>" "i + 1"] Cons.prems(2-4) True by (simp add: add.assoc)
  next
    case False
    then show ?thesis using Cons.IH [of xs "r\<lparr>last_char := c\<rparr>" "i + 1"] Cons.prems by (simp add: add.assoc)
  qed
qed

lemma marks_append: "marks (xs @ ys) pos l = marks xs pos l @ marks ys (pos + int (length xs)) (last (l # xs))"
  by (induction xs arbitrary: pos l) (auto simp: add.assoc)

lemma marks_shift: "marks cs (pos + d) l = map (\<lambda>x. x + d) (marks cs pos l)"
proof (induction cs arbitrary: pos l)
  case (Cons c cs)
  then show ?case using Cons.IH [of "pos + 1" c] by (simp add: ac_simps)
qed simp

subsection \<open>Lines of a file\<close>

text \<open>The reference: a file is cut after each newline, and \<open>tail\<close> shows the last lines.\<close>

fun lines_of :: "string \<Rightarrow> string list" where
  "lines_of [] = []"
| "lines_of (c # cs) =
     (if c = newline then [c] # lines_of cs
      else case lines_of cs of [] \<Rightarrow> [[c]] | l # ls \<Rightarrow> (c # l) # ls)"

definition last_lines :: "nat \<Rightarrow> string \<Rightarrow> string" where
  "last_lines n data = concat (drop (length (lines_of data) - n) (lines_of data))"

fun line_starts :: "int \<Rightarrow> string list \<Rightarrow> int list" where
  "line_starts pos [] = []"
| "line_starts pos (l # ls) = pos # line_starts (pos + int (length l)) ls"

lemma concat_lines_of [simp]: "concat (lines_of cs) = cs"
  by (induction cs) (auto split: list.splits)

lemma lines_of_Nil_iff [simp]: "lines_of cs = [] \<longleftrightarrow> cs = []"
  by (cases cs) (auto split: list.splits)

lemma length_line_starts [simp]: "length (line_starts pos ls) = length ls"
  by (induction ls arbitrary: pos) auto

lemma line_starts_nth: "j < length ls \<Longrightarrow> line_starts pos ls ! j = pos + int (length (concat (take j ls)))"
  by (induction ls arbitrary: pos j) (auto simp: nth_Cons' take_Cons')

lemma marks_lines: "cs \<noteq> [] \<Longrightarrow> l \<noteq> newline \<Longrightarrow> pos # marks cs pos l = line_starts pos (lines_of cs)"
proof (induction cs arbitrary: pos l)
  case (Cons c cs)
  consider "cs = []" | d ds where "cs = d # ds" "c = newline" | d ds where "cs = d # ds" "c \<noteq> newline" by (cases cs) auto
  then show ?case
  proof cases
    case 1
    then show ?thesis using Cons.prems by simp
  next
    case 2
    then have "line_starts (pos + 1) (lines_of cs) = (pos + 1) # marks cs (pos + 1) NUL"
      using Cons.IH [of NUL "pos + 1"] by (simp add: NUL_def newline_def)
    then show ?thesis using 2 Cons.prems by (simp add: NUL_def newline_def)
  next
    case 3
    then obtain k ks where k: "lines_of cs = k # ks" by (metis lines_of_Nil_iff list.discI neq_Nil_conv)
    have "line_starts (pos + 1) (lines_of cs) = (pos + 1) # marks cs (pos + 1) c" using Cons.IH [of c "pos + 1"] 3 by simp
    then show ?thesis using 3 k Cons.prems by (simp add: ac_simps)
  qed
qed simp

lemma last_lines_drop: "last_lines n data = drop (length (concat (take (length (lines_of data) - n) (lines_of data)))) data"
proof -
  let ?j = "length (lines_of data) - n"
  have "data = concat (take ?j (lines_of data)) @ concat (drop ?j (lines_of data))"
    by (metis append_take_drop_id concat_append concat_lines_of)
  then show ?thesis unfolding last_lines_def by (metis append_eq_conv_conj)
qed

subsection \<open>The two passes\<close>

lemma given_step:
  assumes "pos < length data"
  shows "given n data pos \<noteq> []" "drop pos data = given n data pos @ drop (pos + length (given n data pos)) data"
    "pos + length (given n data pos) \<le> length data" "pos < pos + length (given n data pos)"
proof -
  let ?m = "max 1 (min n BUF_SIZE)"
  show ne: "given n data pos \<noteq> []" using assms by (simp add: given_def)
  show "drop pos data = given n data pos @ drop (pos + length (given n data pos)) data"
    using append_eq_conv_conj [of "given n data pos" "drop (length (given n data pos)) (drop pos data)" "drop pos data"]
    by (simp add: given_def add.commute min_def split: if_splits)
  show "pos + length (given n data pos) \<le> length data" "pos < pos + length (given n data pos)"
    using ne assms by (auto simp: given_def)
qed

lemma given_end: "length data \<le> pos \<Longrightarrow> given n data pos = []"
  by (simp add: given_def)

definition is_bytes :: "answer \<Rightarrow> bool" where
  "is_bytes a = (case a of Bytes n \<Rightarrow> True | _ \<Rightarrow> False)"

lemma scan_bytes:
  assumes "ring_of n xs r" "0 < n" "list_all is_bytes as" "pos \<le> length data" "length data - pos < length as"
    and "- (2 ^ 31) \<le> offset" "offset + int (length data - pos) < 2 ^ 31"
  shows "\<exists>as' r'. scan n data as pos offset r = Ends (Inr (as', r')) \<and> list_all is_bytes as' \<and>
    length as \<le> length as' + (length data - pos) + 1 \<and> ring_of n (xs @ marks (drop pos data) offset (last_char r)) r'"
  using assms
proof (induction as arbitrary: pos offset r xs)
  case (Cons a as)
  then obtain m where a: "a = Bytes m" by (cases a) (auto simp: is_bytes_def)
  show ?case
  proof (cases "pos < length data")
    case False
    then show ?thesis using Cons.prems by (auto simp: a given_end)
  next
    case True
    define buf where "buf = given m data pos"
    note g = given_step [OF True, of m, folded buf_def]
    have less: "length data - (pos + length buf) < length data - pos" using g(3,4) by linarith
    obtain r' where r': "parse_newline n offset buf 0 r = Some r'" "ring_of n (xs @ marks buf offset (last_char r)) r'"
      "last_char r' = last (last_char r # buf)"
      using parse_newline_marks [OF Cons.prems(1,2), of offset 0 buf] Cons.prems(6,7) g(3) by auto
    have o: "to_int32 (offset + int (length buf)) = offset + int (length buf)"
      using Cons.prems(6,7) g(3) by (intro to_int32_id) auto
    let ?S = "(xs @ marks buf offset (last_char r)) @ marks (drop (pos + length buf) data) (offset + int (length buf)) (last_char r')"
    have "\<exists>as' r''. scan n data as (pos + length buf) (offset + int (length buf)) r' = Ends (Inr (as', r'')) \<and> list_all is_bytes as' \<and>
       length as \<le> length as' + (length data - (pos + length buf)) + 1 \<and>
       ring_of n ?S r''"
      using Cons.prems g(3) less by (intro Cons.IH [OF r'(2)]) auto
    then obtain as' r'' where i: "scan n data as (pos + length buf) (offset + int (length buf)) r' = Ends (Inr (as', r''))"
      "list_all is_bytes as'" "length as \<le> length as' + (length data - (pos + length buf)) + 1" "ring_of n ?S r''" by blast
    have S: "xs @ marks (drop pos data) offset (last_char r) = ?S" unfolding g(2) marks_append r'(3) by simp
    have "scan n data (a # as) pos offset r = Ends (Inr (as', r''))"
      using i(1) r'(1) g(1) o by (simp add: a buf_def [symmetric])
    moreover have "length (a # as) \<le> length as' + (length data - pos) + 1" using i(3) less by simp
    ultimately show ?thesis unfolding S using i(2,4) by blast
  qed
qed simp

lemma copy_out_bytes:
  assumes "list_all is_bytes as" "length data - pos < length as" "\<forall>buf. length buf \<le> write_ret buf"
  shows "copy_out write_ret data as pos = Ends (drop pos data)"
  using assms(1,2)
proof (induction as arbitrary: pos)
  case (Cons a as)
  then obtain m where a: "a = Bytes m" by (cases a) (auto simp: is_bytes_def)
  show ?case
  proof (cases "pos < length data")
    case False
    then show ?thesis by (simp add: a given_end)
  next
    case True
    define buf where "buf = given m data pos"
    note g = given_step [OF True, of m, folded buf_def]
    have less: "length data - (pos + length buf) < length data - pos" using g(3,4) by linarith
    have "length data - (pos + length buf) < length as" using Cons.prems(2) less by simp
    then have "copy_out write_ret data as (pos + length buf) = Ends (drop (pos + length buf) data)"
      using Cons.prems(1) by (intro Cons.IH) simp_all
    then show ?thesis using g(1,2) assms(3) by (simp add: a buf_def [symmetric])
  qed
qed simp

subsection \<open>What the command prints\<close>

lemma ring_first_start:
  assumes "ring_of n xs r" "0 < n"
  shows "c_load (newline_seeks r) (newline_first r) = Some (xs ! (length xs - n))"
proof -
  have "0 < length xs" using assms(1) by (simp add: ring_of_def)
  then have "length xs - n < length xs" using assms(2) by simp
  then show ?thesis using assms by (simp add: ring_of_def)
qed

text \<open>The start of the last lines in terms of the marks, with any error in the positions.\<close>

lemma start_of_last:
  assumes "0 < n"
  shows "drop (nat ((0 # marks data 0 NUL) ! (length (0 # marks data 0 NUL) - n))) data = last_lines n data"
    "0 \<le> (0 # marks data 0 NUL) ! (length (0 # marks data 0 NUL) - n)"
    "(0 # marks data 0 NUL) ! (length (0 # marks data 0 NUL) - n) = int (length data - length (last_lines n data))"
proof -
  let ?j = "length (lines_of data) - n"
  define k where "k = length (concat (take ?j (lines_of data)))"
  have s: "(0 # marks data 0 NUL) ! (length (0 # marks data 0 NUL) - n) = int k"
  proof (cases "data = []")
    case True
    then show ?thesis using assms by (simp add: k_def)
  next
    case False
    then have m: "0 # marks data 0 NUL = line_starts 0 (lines_of data)" by (rule marks_lines) (simp add: NUL_def newline_def)
    have "0 < length (lines_of data)" using False by simp
    then have "?j < length (lines_of data)" using assms by simp
    then show ?thesis unfolding m by (simp add: line_starts_nth k_def)
  qed
  have d: "last_lines n data = drop k data" unfolding k_def by (rule last_lines_drop)
  have "k \<le> length data" unfolding k_def by (metis append_take_drop_id concat_append concat_lines_of length_append le_add1)
  then show "(0 # marks data 0 NUL) ! (length (0 # marks data 0 NUL) - n) = int (length data - length (last_lines n data))"
    unfolding s d by simp
  show "drop (nat ((0 # marks data 0 NUL) ! (length (0 # marks data 0 NUL) - n))) data = last_lines n data"
    "0 \<le> (0 # marks data 0 NUL) ! (length (0 # marks data 0 NUL) - n)"
    unfolding s d by simp_all
qed

lemma ring_start: "0 < n \<Longrightarrow> length seeks = n \<Longrightarrow>
    ring_of n [0] \<lparr>newline_seeks = seeks[0 := 0], newline_first = 0, newline_last = 0, last_char = c\<rparr>"
  by (simp add: ring_of_def)

lemma lines_positive: "get_lines_fn argv = Ends (Inr (lines, fn)) \<Longrightarrow> 0 < lines"
  by (auto simp: get_lines_fn_def split: if_splits option.splits)

text \<open>Interruptions before the first byte only lower the offset.\<close>

lemma scan_interrupted:
  "int k + m \<le> 2 ^ 31 \<Longrightarrow> 0 \<le> m \<Longrightarrow>
   scan n data (replicate k Interrupted @ as) pos (- m) r = scan n data as pos (- (int k + m)) r"
proof (induction k arbitrary: m)
  case (Suc k)
  have "to_int32 (- m - 1) = - (m + 1)" using Suc.prems by (subst to_int32_id) auto
  then show ?case using Suc.IH [of "m + 1"] Suc.prems by (simp add: ac_simps)
qed simp

lemma main_tail_run:
  assumes "get_lines_fn argv = Ends (Inr (lines, fn))" "files fn = Some data" "alloc lines = Some seeks" "length seeks = nat lines"
    and "length data < 2 ^ 31" "k \<le> 2 ^ 31" "list_all is_bytes as" "2 * length data + 2 \<le> length as"
    and w: "\<forall>buf. length buf \<le> write_ret buf"
    and start: "start = (0 # marks data (- int k) NUL) ! (length (0 # marks data (- int k) NUL) - nat lines)"
  shows "main_tail alloc files write_ret argv (replicate k Interrupted @ as) =
    Ends (if start < 0 then (1, []) else (0, drop (nat start) data))"
proof -
  let ?r = "\<lparr>newline_seeks = seeks[0 := 0], newline_first = 0, newline_last = 0, last_char = NUL\<rparr>"
  have n: "0 < nat lines" using lines_positive [OF assms(1)] by simp
  have "\<exists>as' r'. scan (nat lines) data as 0 (- int k) ?r = Ends (Inr (as', r')) \<and> list_all is_bytes as' \<and>
      length as \<le> length as' + (length data - 0) + 1 \<and> ring_of (nat lines) ([0] @ marks (drop 0 data) (- int k) (last_char ?r)) r'"
    using ring_start [OF n assms(4)] n assms(5-8) by (intro scan_bytes) auto
  then obtain as' r' where r': "scan (nat lines) data as 0 (- int k) ?r = Ends (Inr (as', r'))" "list_all is_bytes as'"
      "length data < length as'" "ring_of (nat lines) (0 # marks data (- int k) NUL) r'" using assms(8) by auto
  have "scan (nat lines) data (replicate k Interrupted @ as) 0 0 ?r = Ends (Inr (as', r'))"
    using scan_interrupted [of k 0] assms(6) r'(1) by simp
  moreover have "c_store seeks 0 0 = Some (seeks[0 := 0])" using n assms(4) by simp
  moreover have "copy_out write_ret data as' (nat start) = Ends (drop (nat start) data)"
    using r'(2,3) w by (intro copy_out_bytes) auto
  ultimately show ?thesis
    using assms(1-3) ring_first_start [OF r'(4) n] by (simp add: main_tail_def start)
qed

text \<open>C21: \<open>tail\<close> prints exactly the last lines of the file, for every way in which \<open>read\<close> cuts it into
  pieces, and returns 0.\<close>

theorem tail_correct:
  assumes "get_lines_fn argv = Ends (Inr (lines, fn))" "files fn = Some data" "alloc lines = Some seeks" "length seeks = nat lines"
    and "length data < 2 ^ 31" "list_all is_bytes as" "2 * length data + 2 \<le> length as" "\<forall>buf. length buf \<le> write_ret buf"
  shows "main_tail alloc files write_ret argv as = Ends (0, last_lines (nat lines) data)"
proof -
  have n: "0 < nat lines" using lines_positive [OF assms(1)] by simp
  show ?thesis
    using main_tail_run [where files = files and alloc = alloc and write_ret = write_ret and k = 0, OF assms(1-5) _ assms(6-8) refl] start_of_last(1,2) [OF n, of data] by simp
qed

text \<open>Remark: An interrupted \<open>read\<close> is not harmless: its result \<open>-1\<close> is added to the offset, so each interruption
  before the first byte moves the start of the output one character back, into the line before, and past the
  beginning of the file the command fails.\<close>

theorem tail_interrupted:
  assumes "get_lines_fn argv = Ends (Inr (lines, fn))" "files fn = Some data" "alloc lines = Some seeks" "length seeks = nat lines"
    and "length data < 2 ^ 31" "k \<le> 2 ^ 31" "list_all is_bytes as" "2 * length data + 2 \<le> length as" "\<forall>buf. length buf \<le> write_ret buf"
    and "nat lines < length (lines_of data)"
  shows "main_tail alloc files write_ret argv (replicate k Interrupted @ as) =
    (let start = length data - length (last_lines (nat lines) data)
     in Ends (if start < k then (1, []) else (0, drop (start - k) data)))"
proof -
  let ?S = "0 # marks data 0 NUL" and ?T = "0 # marks data (- int k) NUL"
  have n: "0 < nat lines" using lines_positive [OF assms(1)] by simp
  have "data \<noteq> []" using assms(10) by auto
  then have "?S = line_starts 0 (lines_of data)" by (rule marks_lines) (simp add: NUL_def newline_def)
  then have l: "length ?S = length (lines_of data)" by simp
  have t: "?T = 0 # map (\<lambda>x. x - int k) (marks data 0 NUL)" using marks_shift [of data 0 "- int k" NUL] by simp
  have "?T ! (length ?T - nat lines) = ?S ! (length ?S - nat lines) - int k"
    unfolding t using l n assms(10) by (auto simp: nth_Cons')
  then have s: "?T ! (length ?T - nat lines) = int (length data - length (last_lines (nat lines) data)) - int k"
    unfolding start_of_last(3) [OF n] .
  show ?thesis
    using main_tail_run [where files = files and alloc = alloc and write_ret = write_ret, OF assms(1-9) refl] unfolding s Let_def by (simp add: nat_diff_distrib' of_nat_diff flip: of_nat_diff)
qed

subsection \<open>Instances\<close>

text \<open>The last two lines of a file of three, read in pieces of one and of four characters.\<close>

definition three_lines :: string where
  "three_lines = ''ab'' @ [newline] @ ''c'' @ [newline] @ ''de'' @ [newline]"

lemma tail_arguments: "get_lines_fn [''tail'', ''-n'', ''2'', ''f''] = Ends (Inr (2, ''f''))"
  by code_simp

lemma three_lines_facts:
  "lines_of three_lines = [''ab'' @ [newline], ''c'' @ [newline], ''de'' @ [newline]]"
  "last_lines 2 three_lines = ''c'' @ [newline] @ ''de'' @ [newline]" "length three_lines = 8"
  by code_simp+

lemma all_replicate: "P x \<Longrightarrow> list_all P (replicate n x)"
  by (induction n) auto

theorem tail_correct_witness:
  "main_tail (\<lambda>n. Some (replicate (nat n) 7)) (\<lambda>_. Some three_lines) length [''tail'', ''-n'', ''2'', ''f''] (replicate 10 (Bytes 1) @ replicate 10 (Bytes 4)) =
     Ends (0, ''c'' @ [newline] @ ''de'' @ [newline])"
proof -
  have "list_all is_bytes (replicate 10 (Bytes 1) @ replicate 10 (Bytes 4))"
    unfolding list_all_append by (intro conjI all_replicate) (simp_all add: is_bytes_def)
  then show ?thesis
    using tail_correct [where files = "\<lambda>_. Some three_lines" and alloc = "\<lambda>n. Some (replicate (nat n) 7)" and write_ret = length, OF tail_arguments refl refl]
    by (simp add: three_lines_facts)
qed

theorem tail_interrupted_witness:
  "main_tail (\<lambda>n. Some (replicate (nat n) 7)) (\<lambda>_. Some three_lines) length [''tail'', ''-n'', ''2'', ''f''] (replicate 1 Interrupted @ replicate 20 (Bytes 3)) =
     Ends (0, [newline] @ ''c'' @ [newline] @ ''de'' @ [newline])"
proof -
  have "list_all is_bytes (replicate 20 (Bytes 3))" by (rule all_replicate) (simp add: is_bytes_def)
  moreover have "drop 2 three_lines = [newline] @ ''c'' @ [newline] @ ''de'' @ [newline]" by code_simp
  ultimately show ?thesis
    using tail_interrupted [where files = "\<lambda>_. Some three_lines" and alloc = "\<lambda>n. Some (replicate (nat n) 7)" and write_ret = length and k = 1,
        OF tail_arguments refl refl]
    by (simp add: three_lines_facts)
qed

end
