(* ===== verification/CmdServer.thy ===== *)
theory CmdServer
  imports Prelude
begin

text \<open>
  The command server and its client (\<open>src/tlpi/client-server.c\<close>).

  \<^item> What the calls \<open>read\<close>, \<open>write\<close> and \<open>poll\<close> return is a list of answers; a run that has used them up waits.
  \<^item> The file system is a parameter: where \<open>chdir\<close> leads from a directory, if anywhere, and what \<open>ls\<close> prints
    there. Directories are their absolute paths, as \<open>getcwd\<close> gives them.
\<close>

subsection \<open>writen\<close>

text \<open>Answers of \<open>write\<close>: it takes some characters, is interrupted, or fails (\<open>EAGAIN\<close> is such a failure).\<close>

datatype write_answer = Takes nat | Interrupted_write | Failed_write

text \<open>What went out, and the answers left; the value \<open>writen\<close> returns is the length of what went out.\<close>

fun writen :: "write_answer list \<Rightarrow> string \<Rightarrow> (string \<times> write_answer list) run" where
  "writen ws [] = Ends ([], ws)"
| "writen [] (c # buf) = Waits"
| "writen (Interrupted_write # ws) (c # buf) = writen ws (c # buf)"
| "writen (Failed_write # ws) (c # buf) = Ends ([], ws)"
| "writen (Takes 0 # ws) (c # buf) = Ends ([], ws)"
| "writen (Takes (Suc n) # ws) (c # buf) =
     (case writen ws (drop n buf) of
        Ends (out, ws) \<Rightarrow> Ends (c # take n buf @ out, ws) | Undefined \<Rightarrow> Undefined | Waits \<Rightarrow> Waits)"

subsection \<open>The server\<close>

text \<open>What a command sends, call by call, to the socket.\<close>

datatype sending = Writen string | Write string

fun send1 :: "write_answer list \<Rightarrow> sending \<Rightarrow> (string \<times> write_answer list) run" where
  "send1 ws (Writen s) = writen ws s"
| "send1 [] (Write s) = Waits"
| "send1 (Takes n # ws) (Write s) = Ends (take n s, ws)"
| "send1 (_ # ws) (Write s) = Ends ([], ws)"

text \<open>The results of the calls are not looked at.\<close>

fun send_all :: "write_answer list \<Rightarrow> sending list \<Rightarrow> (string \<times> write_answer list) run" where
  "send_all ws [] = Ends ([], ws)"
| "send_all ws (x # xs) =
     (case send1 ws x of Undefined \<Rightarrow> Undefined | Waits \<Rightarrow> Waits
      | Ends (out, ws) \<Rightarrow>
          (case send_all ws xs of Ends (outs, ws) \<Rightarrow> Ends (out @ outs, ws) | Undefined \<Rightarrow> Undefined | Waits \<Rightarrow> Waits))"

record filesystem =
  chdir_to :: "string \<Rightarrow> string \<Rightarrow> string option"
  ls_output :: "string \<Rightarrow> string"

definition server_pwd :: "string \<Rightarrow> sending list" where
  "server_pwd cwd = [Writen cwd, Writen [newline]]"

definition invalid_path :: string where "invalid_path = ''invalid path'' @ [newline]"

definition server_cd :: "filesystem \<Rightarrow> string \<Rightarrow> string \<Rightarrow> string \<times> sending list" where
  "server_cd fs path cwd =
     (case chdir_to fs cwd (dropWhile (\<lambda>c. c = CHR '' '') path) of
        Some cwd \<Rightarrow> (cwd, server_pwd cwd) | None \<Rightarrow> (cwd, [Writen invalid_path]))"

text \<open>\<open>fread\<close> fills a buffer of 128 characters until the output of \<open>ls\<close> ends.\<close>

function pieces :: "nat \<Rightarrow> string \<Rightarrow> string list" where
  "pieces n s = (if s = [] \<or> n = 0 then [] else take n s # pieces n (drop n s))"
  by auto
termination by (relation "measure (\<lambda>(n, s). length s)") auto

declare pieces.simps [simp del]

definition server_ls :: "filesystem \<Rightarrow> string \<Rightarrow> sending list" where
  "server_ls fs cwd = map Writen (pieces 128 (ls_output fs cwd))"

text \<open>The end of the line is cut off in place, from position \<open>ret\<close> down.\<close>

definition blank :: "char \<Rightarrow> bool" where
  "blank c \<longleftrightarrow> c = newline \<or> c = CHR 0x0D \<or> c = CHR 0x09 \<or> c = CHR '' ''"

fun truncate_line :: "string \<Rightarrow> nat \<Rightarrow> string" where
  "truncate_line buf 0 = buf"
| "truncate_line buf (Suc ret) = (if blank (buf ! ret) then truncate_line (buf[ret := NUL]) ret else buf)"

definition unknown_cmd :: string where "unknown_cmd = ''unknown cmd'' @ [newline]"

text \<open>One command: the directory it leaves, what it sends, and whether the server goes on.\<close>

definition run_command :: "filesystem \<Rightarrow> string \<Rightarrow> string \<Rightarrow> string \<Rightarrow> string \<times> sending list \<times> bool" where
  "run_command fs home_path buf cwd =
     (let cmd = c_string buf
      in if cmd = ''pwd'' then (cwd, server_pwd cwd, True)
         else if cmd = ''cd'' then (let (cwd, out) = server_cd fs home_path cwd in (cwd, out, True))
         else if take 3 cmd = ''cd '' then (let (cwd, out) = server_cd fs (c_string (drop 3 buf)) cwd in (cwd, out, True))
         else if cmd = ''ls'' then (cwd, server_ls fs cwd, True)
         else if cmd = ''quit'' then (cwd, [], False)
         else (cwd, [Write unknown_cmd], True))"

text \<open>Answers of \<open>read\<close>: characters (none at the end of the stream), an interruption, \<open>EAGAIN\<close>, another failure.\<close>

datatype read_answer = Got string | Interrupted_read | Again | Failed_read

text \<open>The loop: the buffer keeps what earlier commands left in it. Every read gets at most 127 characters, so
  that the terminating store is inside the buffer; \<open>take\<close> says so of the kernel.\<close>

fun server_loop :: "filesystem \<Rightarrow> string \<Rightarrow> read_answer list \<Rightarrow> write_answer list \<Rightarrow> string \<Rightarrow> string \<Rightarrow> string run" where
  "server_loop fs home_path [] ws buf cwd = Waits"
| "server_loop fs home_path (Interrupted_read # rs) ws buf cwd = server_loop fs home_path rs ws buf cwd"
| "server_loop fs home_path (Again # rs) ws buf cwd = Ends []"
| "server_loop fs home_path (Failed_read # rs) ws buf cwd = Ends []"
| "server_loop fs home_path (Got s # rs) ws buf cwd =
     (if s = [] then Ends []
      else case c_store (overwrite buf 0 (take 127 s)) (length (take 127 s)) NUL of
        None \<Rightarrow> Undefined
      | Some buf \<Rightarrow>
          (case run_command fs home_path (truncate_line buf (length (take 127 s))) cwd of
             (cwd, sends, goes_on) \<Rightarrow>
               (case send_all ws sends of Undefined \<Rightarrow> Undefined | Waits \<Rightarrow> Waits
                | Ends (out, ws) \<Rightarrow>
                    if goes_on then
                      (case server_loop fs home_path rs ws (truncate_line buf (length (take 127 s))) cwd of
                         Ends outs \<Rightarrow> Ends (out @ outs) | Undefined \<Rightarrow> Undefined | Waits \<Rightarrow> Waits)
                    else Ends out)))"

definition server :: "filesystem \<Rightarrow> read_answer list \<Rightarrow> write_answer list \<Rightarrow> string \<Rightarrow> string \<Rightarrow> string run" where
  "server fs rs ws mem cwd = server_loop fs cwd rs ws mem cwd"

subsection \<open>What the server promises\<close>

text \<open>The reference: a session is a list of command lines; the reply of each is sent in full.\<close>

datatype command = Pwd | Cd_home | Cd string | Ls | Quit | Unknown

definition trim :: "string \<Rightarrow> string" where
  "trim s = rev (dropWhile blank (rev s))"

definition parse :: "string \<Rightarrow> command" where
  "parse line =
     (let t = trim line
      in if t = ''pwd'' then Pwd else if t = ''cd'' then Cd_home
         else if take 3 t = ''cd '' then Cd (dropWhile (\<lambda>c. c = CHR '' '') (drop 3 t))
         else if t = ''ls'' then Ls else if t = ''quit'' then Quit else Unknown)"

definition change :: "filesystem \<Rightarrow> string \<Rightarrow> string \<Rightarrow> string \<times> string" where
  "change fs cwd path = (case chdir_to fs cwd path of Some d \<Rightarrow> (d, d @ [newline]) | None \<Rightarrow> (cwd, invalid_path))"

fun execute :: "filesystem \<Rightarrow> string \<Rightarrow> string \<Rightarrow> command \<Rightarrow> string \<times> string" where
  "execute fs home cwd Pwd = (cwd, cwd @ [newline])"
| "execute fs home cwd Cd_home = change fs cwd home"
| "execute fs home cwd (Cd path) = change fs cwd path"
| "execute fs home cwd Ls = (cwd, ls_output fs cwd)"
| "execute fs home cwd Quit = (cwd, [])"
| "execute fs home cwd Unknown = (cwd, unknown_cmd)"

fun session :: "filesystem \<Rightarrow> string \<Rightarrow> string \<Rightarrow> string list \<Rightarrow> string" where
  "session fs home cwd [] = []"
| "session fs home cwd (line # lines) =
     (if parse line = Quit then []
      else snd (execute fs home cwd (parse line)) @ session fs home (fst (execute fs home cwd (parse line))) lines)"

subsection \<open>Sending\<close>

fun sent_text :: "sending \<Rightarrow> string" where
  "sent_text (Writen s) = s" | "sent_text (Write s) = s"

text \<open>A socket that takes at least 12 characters at a time, the length of the one reply that is sent without
  \<open>writen\<close>.\<close>

definition takes_line :: "write_answer \<Rightarrow> bool" where
  "takes_line w = (case w of Takes n \<Rightarrow> 12 \<le> n | _ \<Rightarrow> False)"

lemma writen_all:
  assumes "list_all takes_line ws" "length s \<le> length ws"
  shows "\<exists>ws'. writen ws s = Ends (s, ws') \<and> list_all takes_line ws' \<and> length ws \<le> length ws' + length s"
  using assms
proof (induction ws s rule: writen.induct)
  case (6 n ws c buf)
  then have "\<exists>ws'. writen ws (drop n buf) = Ends (drop n buf, ws') \<and> list_all takes_line ws' \<and> length ws \<le> length ws' + length (drop n buf)"
    by (intro 6) simp_all
  then show ?case by force
qed (auto simp: takes_line_def)

lemma send_all_ok:
  assumes "list_all takes_line ws" "length (concat (map sent_text xs)) \<le> length ws" "\<forall>s. Write s \<in> set xs \<longrightarrow> s \<noteq> [] \<and> length s \<le> 12"
  shows "\<exists>ws'. send_all ws xs = Ends (concat (map sent_text xs), ws') \<and> list_all takes_line ws' \<and>
    length ws \<le> length ws' + length (concat (map sent_text xs))"
  using assms
proof (induction xs arbitrary: ws)
  case (Cons x xs)
  have "\<exists>ws'. send1 ws x = Ends (sent_text x, ws') \<and> list_all takes_line ws' \<and> length ws \<le> length ws' + length (sent_text x)"
  proof (cases x)
    case (Writen s)
    then show ?thesis using writen_all [OF Cons.prems(1), of s] Cons.prems(2) by simp
  next
    case (Write s)
    then have s: "s \<noteq> []" "length s \<le> 12" using Cons.prems(3) by auto
    then obtain w ws' where w: "ws = w # ws'" using Cons.prems(2) Write by (cases ws) auto
    then obtain n where "w = Takes n" "12 \<le> n" using Cons.prems(1) by (cases w) (auto simp: takes_line_def)
    then show ?thesis using s w Write Cons.prems(1) by (auto simp: Suc_le_eq)
  qed
  then obtain ws' where 1: "send1 ws x = Ends (sent_text x, ws')" "list_all takes_line ws'" "length ws \<le> length ws' + length (sent_text x)"
    by blast
  then obtain ws'' where "send_all ws' xs = Ends (concat (map sent_text xs), ws'')" "list_all takes_line ws''"
      "length ws' \<le> length ws'' + length (concat (map sent_text xs))"
    using Cons.IH [OF 1(2)] Cons.prems(2,3) by auto
  then show ?case using 1 by auto
qed simp

lemma concat_pieces: "0 < n \<Longrightarrow> concat (pieces n s) = s"
  by (induction n s rule: pieces.induct) (subst pieces.simps, auto)

subsection \<open>Commands\<close>

lemma trim_snoc: "trim (s @ [c]) = (if blank c then trim s else s @ [c])"
  by (simp add: trim_def)

lemma truncate_trims:
  "\<exists>rest'. truncate_line (s @ NUL # rest) (length s) = trim s @ NUL # rest' \<and> length (trim s @ NUL # rest') = length (s @ NUL # rest)"
proof (induction s arbitrary: rest rule: rev_induct)
  case Nil
  then show ?case by (simp add: trim_def)
next
  case (snoc c s)
  show ?case
  proof (cases "blank c")
    case True
    then show ?thesis using snoc.IH [of "NUL # rest"] by (simp add: trim_snoc nth_append list_update_append)
  next
    case False
    then show ?thesis by (simp add: trim_snoc nth_append)
  qed
qed

lemma trim_set: "set (trim s) \<subseteq> set s"
  unfolding trim_def using set_dropWhileD [of _ blank "rev s"] by auto

lemma run_command_executes:
  assumes "NUL \<notin> set line" "dropWhile (\<lambda>c. c = CHR '' '') home = home"
  shows "\<exists>xs. run_command fs home (trim line @ NUL # rest) cwd = (fst (execute fs home cwd (parse line)), xs, parse line \<noteq> Quit) \<and>
    concat (map sent_text xs) = snd (execute fs home cwd (parse line)) \<and> (\<forall>s. Write s \<in> set xs \<longrightarrow> s \<noteq> [] \<and> length s \<le> 12)"
proof -
  let ?t = "trim line"
  have n: "NUL \<notin> set ?t" using assms(1) trim_set by blast
  have c: "c_string (?t @ NUL # rest) = ?t" using n by simp
  have d: "c_string (drop 3 (?t @ NUL # rest)) = drop 3 ?t" if "take 3 ?t = ''cd ''"
  proof -
    have "length (take 3 ?t) = 3" using that by simp
    then have "drop 3 (?t @ NUL # rest) = drop 3 ?t @ NUL # rest" by simp
    moreover have "NUL \<notin> set (drop 3 ?t)" using n by (meson in_set_dropD)
    ultimately show ?thesis by simp
  qed
  have p: "concat (map sent_text (server_ls fs cwd)) = ls_output fs cwd" "Write s \<notin> set (server_ls fs cwd)" for s
    using concat_pieces [of 128 "ls_output fs cwd"] by (auto simp: server_ls_def comp_def)
  have q: "\<exists>xs. (let (cwd, out) = server_cd fs path cwd in (cwd, out, True)) = (fst (change fs cwd (dropWhile (\<lambda>c. c = CHR '' '') path)), xs, True) \<and>
      concat (map sent_text xs) = snd (change fs cwd (dropWhile (\<lambda>c. c = CHR '' '') path)) \<and> (\<forall>s. Write s \<in> set xs \<longrightarrow> s \<noteq> [] \<and> length s \<le> 12)" for path
    by (auto simp: server_cd_def change_def server_pwd_def split: option.splits)
  consider "?t = ''pwd''" | "?t = ''cd''" | "take 3 ?t = ''cd ''" "?t \<noteq> ''pwd''" "?t \<noteq> ''cd''" | "?t = ''ls''" | "?t = ''quit''"
    | "?t \<noteq> ''pwd''" "?t \<noteq> ''cd''" "take 3 ?t \<noteq> ''cd ''" "?t \<noteq> ''ls''" "?t \<noteq> ''quit''" by blast
  then show ?thesis
  proof cases
    case 2
    then show ?thesis using q [of home] assms(2) unfolding run_command_def c parse_def Let_def by simp
  next
    case 3
    then show ?thesis using q [of "drop 3 ?t"] unfolding run_command_def c parse_def Let_def by (simp add: d del: drop_append)
  qed (unfold run_command_def c parse_def Let_def, simp_all add: p server_pwd_def unknown_cmd_def)
qed

subsection \<open>The session\<close>

text \<open>The reads that bring these lines, one each, and then the end of the stream; interruptions in between.\<close>

fun brings :: "read_answer list \<Rightarrow> string list \<Rightarrow> bool" where
  "brings [] lines \<longleftrightarrow> False"
| "brings (Interrupted_read # rs) lines \<longleftrightarrow> brings rs lines"
| "brings (Got s # rs) [] \<longleftrightarrow> s = []"
| "brings (Got s # rs) (line # lines) \<longleftrightarrow> s = line \<and> brings rs lines"
| "brings (_ # rs) lines \<longleftrightarrow> False"

definition line_ok :: "string \<Rightarrow> bool" where
  "line_ok line \<longleftrightarrow> line \<noteq> [] \<and> length line \<le> 127 \<and> NUL \<notin> set line"

lemma server_loop_session:
  assumes "brings rs lines" "list_all line_ok lines" "dropWhile (\<lambda>c. c = CHR '' '') home = home" "length buf = 128"
    and "list_all takes_line ws" "length (session fs home cwd lines) \<le> length ws"
  shows "server_loop fs home rs ws buf cwd = Ends (session fs home cwd lines)"
  using assms
proof (induction fs home rs ws buf cwd arbitrary: lines rule: server_loop.induct)
  case (5 fs home s rs ws buf cwd)
  show ?case
  proof (cases lines)
    case Nil
    then show ?thesis using 5(2) by simp
  next
    case (Cons line rest)
    then have s: "s = line" "brings rs rest" using 5(2) by simp_all
    have l: "line \<noteq> []" "length line \<le> 127" "NUL \<notin> set line" "list_all line_ok rest"
      using 5(3) Cons by (simp_all, simp_all add: line_ok_def)
    define b where "b = drop (length line) buf"
    have b: "overwrite buf 0 line = line @ b" "b \<noteq> []" using 5(5) l(2) by (auto simp: overwrite_def b_def)
    obtain x b' where x: "b = x # b'" using b(2) by (cases b) auto
    have st: "c_store (overwrite buf 0 (take 127 s)) (length (take 127 s)) NUL = Some (line @ NUL # b')"
      using l(2) s(1) b(1) x by (simp add: c_store_def)
    obtain r where r: "truncate_line (line @ NUL # b') (length (take 127 s)) = trim line @ NUL # r"
        "length (trim line @ NUL # r) = length (line @ NUL # b')"
      using truncate_trims [of line b'] l(2) s(1) by auto
    have "length b = 128 - length line" "length b = Suc (length b')" using 5(5) by (simp add: b_def, simp add: x)
    then have len: "length (trim line @ NUL # r) = 128" unfolding r(2) using l(2) by simp
    let ?e = "execute fs home cwd (parse line)"
    obtain xs where xs: "run_command fs home (trim line @ NUL # r) cwd = (fst ?e, xs, parse line \<noteq> Quit)"
        "concat (map sent_text xs) = snd ?e" "\<forall>s. Write s \<in> set xs \<longrightarrow> s \<noteq> [] \<and> length s \<le> 12"
      using run_command_executes [OF l(3) 5(4)] by blast
    have out: "length (snd ?e) \<le> length ws" using 5(7) Cons by (cases "parse line = Quit") auto
    then obtain ws' where ws': "send_all ws xs = Ends (snd ?e, ws')" "list_all takes_line ws'" "length ws \<le> length ws' + length (snd ?e)"
      using send_all_ok [OF 5(6) _ xs(3)] xs(2) by auto
    show ?thesis
    proof (cases "parse line = Quit")
      case True
      then show ?thesis using l(1) s(1) st r(1) xs(1) ws'(1) Cons by simp
    next
      case False
      have "server_loop fs home rs ws' (trim line @ NUL # r) (fst ?e) = Ends (session fs home (fst ?e) rest)"
        using 5(1) [OF _ st, of "fst ?e" "(xs, True)" xs True "(snd ?e, ws')" "snd ?e" ws' rest] s l(1,4) r(1) xs(1) False ws' 5(4,7) len Cons
        by simp
      then show ?thesis using False l(1) s(1) st r(1) xs(1) ws'(1) Cons by simp
    qed
  qed
qed simp_all


text \<open>Remark: Replies are not safe from interruptions: \<open>writen\<close> starts the write again, but the reply to an unknown
  command is sent by a single \<open>write\<close>, and an interruption loses it.\<close>

theorem unknown_reply_lost:
  assumes "line_ok line" "parse line = Unknown" "length mem = 128" "dropWhile (\<lambda>c. c = CHR '' '') cwd = cwd"
  shows "server fs [Got line, Got []] (Interrupted_write # ws) mem cwd = Ends []"
proof -
  have l: "line \<noteq> []" "length line \<le> 127" "NUL \<notin> set line" using assms(1) by (simp_all add: line_ok_def)
  define b where "b = drop (length line) mem"
  have b: "overwrite mem 0 line = line @ b" "b \<noteq> []" using assms(3) l(2) by (auto simp: overwrite_def b_def)
  obtain x b' where x: "b = x # b'" using b(2) by (cases b) auto
  have st: "c_store (overwrite mem 0 line) (length line) NUL = Some (line @ NUL # b')"
    using b(1) x by (simp add: c_store_def)
  obtain r where r: "truncate_line (line @ NUL # b') (length line) = trim line @ NUL # r"
    using truncate_trims [of line b'] by blast
  have c: "c_string (trim line @ NUL # r) = trim line" using l(3) trim_set [of line] by (intro c_string_NUL) blast
  have u: "run_command fs cwd (trim line @ NUL # r) cwd = (cwd, [Write unknown_cmd], True)"
    using assms(2) unfolding run_command_def c parse_def Let_def by (auto split: if_splits)
  show ?thesis using l(1,2) st r u by (simp add: server_def unknown_cmd_def)
qed

subsection \<open>The client\<close>

text \<open>One of the two inner loops: everything there is to read on one side is written to the other; the value
  says also whether \<open>err\<close> was set.\<close>

fun relay :: "read_answer list \<Rightarrow> write_answer list \<Rightarrow> (string \<times> bool \<times> read_answer list \<times> write_answer list) run" where
  "relay [] ws = Waits"
| "relay (Interrupted_read # rs) ws = relay rs ws"
| "relay (Again # rs) ws = Ends ([], False, rs, ws)"
| "relay (Failed_read # rs) ws = Ends ([], True, rs, ws)"
| "relay (Got s # rs) ws =
     (if s = [] then Ends ([], True, rs, ws)
      else case writen ws (take 128 s) of Undefined \<Rightarrow> Undefined | Waits \<Rightarrow> Waits
      | Ends (out, ws) \<Rightarrow>
          if length out \<noteq> length (take 128 s) then Ends (out, True, rs, ws)
          else (case relay rs ws of Undefined \<Rightarrow> Undefined | Waits \<Rightarrow> Waits
                | Ends (outs, err, rs, ws) \<Rightarrow> Ends (out @ outs, err, rs, ws)))"

text \<open>\<open>poll\<close> is interrupted, fails, or reports for each descriptor whether there is input and whether it hung up
  or has an error.\<close>

datatype poll_answer = Poll_again | Poll_failed | Events bool bool bool bool

record client_io =
  stdin_reads :: "read_answer list"
  socket_reads :: "read_answer list"
  socket_writes :: "write_answer list"
  stdout_writes :: "write_answer list"

fun client :: "poll_answer list \<Rightarrow> client_io \<Rightarrow> (string \<times> string) run" where
  "client [] io = Waits"
| "client (Poll_again # ps) io = client ps io"
| "client (Poll_failed # ps) io = Ends ([], [])"
| "client (Events in0 bad0 in1 bad1 # ps) io =
     (case (if in0 then relay (stdin_reads io) (socket_writes io) else Ends ([], False, stdin_reads io, socket_writes io)) of
        Undefined \<Rightarrow> Undefined | Waits \<Rightarrow> Waits
      | Ends (sent, err0, r0, w0) \<Rightarrow>
          (case (if in1 then relay (socket_reads io) (stdout_writes io) else Ends ([], False, socket_reads io, stdout_writes io)) of
             Undefined \<Rightarrow> Undefined | Waits \<Rightarrow> Waits
           | Ends (shown, err1, r1, w1) \<Rightarrow>
               if bad0 \<or> bad1 \<or> err0 \<or> err1 then Ends (sent, shown)
               else (case client ps \<lparr>stdin_reads = r0, socket_reads = r1, socket_writes = w0, stdout_writes = w1\<rparr> of
                       Undefined \<Rightarrow> Undefined | Waits \<Rightarrow> Waits
                     | Ends (sents, showns) \<Rightarrow> Ends (sent @ sents, shown @ showns))))"

text \<open>What a list of reads brings.\<close>

fun brought :: "read_answer list \<Rightarrow> string" where
  "brought [] = []"
| "brought (Got s # rs) = take 128 s @ brought rs"
| "brought (_ # rs) = brought rs"

lemma writen_prefix: "writen ws s = Ends (out, ws') \<Longrightarrow> \<exists>t. s = out @ t"
proof (induction ws s arbitrary: out rule: writen.induct)
  case (6 n ws c buf)
  then obtain o' where o: "writen ws (drop n buf) = Ends (o', ws')" "out = c # take n buf @ o'" by (auto split: run.splits prod.splits)
  then obtain t where "drop n buf = o' @ t" using 6(1) by blast
  then have "buf = take n buf @ o' @ t" by (metis append_take_drop_id)
  then show ?case using o(2) by auto
qed auto

lemma relay_prefix:
  "relay rs ws = Ends (out, err, rs', ws') \<Longrightarrow> \<exists>u t. brought rs = u @ brought rs' \<and> u = out @ t \<and> (\<not> err \<longrightarrow> t = [])"
proof (induction rs ws arbitrary: out rule: relay.induct)
  case (5 s rs ws)
  show ?case
  proof (cases "s = []")
    case True
    then show ?thesis using 5(2) by auto
  next
    case False
    then obtain o1 w1 where w: "writen ws (take 128 s) = Ends (o1, w1)" using 5(2) by (auto split: run.splits)
    obtain t1 where t1: "take 128 s = o1 @ t1" using writen_prefix [OF w] by blast
    show ?thesis
    proof (cases "length o1 = length (take 128 s)")
      case len: True
      then have t1: "take 128 s = o1" using t1 by simp
      obtain o2 where o2: "relay rs w1 = Ends (o2, err, rs', ws')" "out = o1 @ o2"
        using 5(2) False w len by (auto split: run.splits)
      then obtain u t where "brought rs = u @ brought rs'" "u = o2 @ t" "\<not> err \<longrightarrow> t = []"
        using 5(1) [OF False w refl] len by blast
      then show ?thesis using t1 o2(2) by auto
    next
      case len: False
      then have "out = o1" "err" "rs' = rs" using 5(2) False w by auto
      then show ?thesis using t1 by auto
    qed
  qed
qed auto

text \<open>The reads of several rounds: in each some pieces, and then nothing for the moment.\<close>

fun feed :: "string list list \<Rightarrow> read_answer list" where
  "feed [] = []"
| "feed (cs # rounds) = map Got cs @ Again # feed rounds"

definition piece_ok :: "string \<Rightarrow> bool" where
  "piece_ok s \<longleftrightarrow> s \<noteq> [] \<and> length s \<le> 128"

lemma relay_round:
  assumes "list_all piece_ok cs" "list_all takes_line ws" "length (concat cs) \<le> length ws"
  shows "\<exists>ws'. relay (map Got cs @ Again # rs) ws = Ends (concat cs, False, rs, ws') \<and> list_all takes_line ws' \<and>
    length ws \<le> length ws' + length (concat cs)"
  using assms
proof (induction cs arbitrary: ws)
  case (Cons c cs)
  then have c: "c \<noteq> []" "take 128 c = c" by (simp_all add: piece_ok_def)
  obtain w1 where w1: "writen ws c = Ends (c, w1)" "list_all takes_line w1" "length ws \<le> length w1 + length c"
    using writen_all [OF Cons.prems(2), of c] Cons.prems(3) by auto
  then obtain w2 where "relay (map Got cs @ Again # rs) w1 = Ends (concat cs, False, rs, w2)" "list_all takes_line w2"
      "length w1 \<le> length w2 + length (concat cs)"
    using Cons.IH [of w1] Cons.prems by auto
  then show ?case using c w1 by auto
qed simp

lemma client_rounds:
  assumes "length ins = length outs" "ins \<noteq> []" "list_all (list_all piece_ok) ins" "list_all (list_all piece_ok) outs"
    and "list_all takes_line w0" "length (concat (concat ins)) \<le> length w0"
    and "list_all takes_line w1" "length (concat (concat outs)) \<le> length w1"
  shows "client (replicate (length ins - 1) (Events True False True False) @ [Events True True True False])
      \<lparr>stdin_reads = feed ins, socket_reads = feed outs, socket_writes = w0, stdout_writes = w1\<rparr> =
    Ends (concat (concat ins), concat (concat outs))"
  using assms
proof (induction ins outs arbitrary: w0 w1 rule: list_induct2)
  case (Cons i ins ou outs)
  obtain w0' where w0': "relay (map Got i @ Again # feed ins) w0 = Ends (concat i, False, feed ins, w0')" "list_all takes_line w0'"
      "length w0 \<le> length w0' + length (concat i)"
    using relay_round [of i w0 "feed ins"] Cons.prems by auto
  obtain w1' where w1': "relay (map Got ou @ Again # feed outs) w1 = Ends (concat ou, False, feed outs, w1')" "list_all takes_line w1'"
      "length w1 \<le> length w1' + length (concat ou)"
    using relay_round [of ou w1 "feed outs"] Cons.prems by auto
  show ?case
  proof (cases "ins = []")
    case True
    then show ?thesis using w0'(1) w1'(1) Cons.hyps by simp
  next
    case False
    then have "client (replicate (length ins - 1) (Events True False True False) @ [Events True True True False])
        \<lparr>stdin_reads = feed ins, socket_reads = feed outs, socket_writes = w0', stdout_writes = w1'\<rparr> =
      Ends (concat (concat ins), concat (concat outs))"
      using Cons.IH [of w0' w1'] Cons.prems w0'(2,3) w1'(2,3) by simp
    moreover have "replicate (length ins) e = e # replicate (length ins - 1) e" for e :: poll_answer using False by (cases ins) auto
    ultimately show ?thesis using w0'(1) w1'(1) by simp
  qed
qed simp

lemma client_prefixes:
  "client ps io = Ends (sent, shown) \<Longrightarrow>
   (\<exists>t. brought (stdin_reads io) = sent @ t) \<and> (\<exists>t. brought (socket_reads io) = shown @ t)"
proof (induction ps io arbitrary: sent shown rule: client.induct)
  case (4 in0 bad0 in1 bad1 ps io)
  obtain s1 e0 r0 w0 where 0: "(if in0 then relay (stdin_reads io) (socket_writes io) else Ends ([], False, stdin_reads io, socket_writes io)) = Ends (s1, e0, r0, w0)"
    using 4(2) by (auto split: run.splits)
  obtain h1 e1 r1 w1 where 1: "(if in1 then relay (socket_reads io) (stdout_writes io) else Ends ([], False, socket_reads io, stdout_writes io)) = Ends (h1, e1, r1, w1)"
    using 4(2) 0 by (auto split: run.splits)
  have p0: "\<exists>u t. brought (stdin_reads io) = u @ brought r0 \<and> u = s1 @ t \<and> (\<not> e0 \<longrightarrow> t = [])"
    using 0 relay_prefix [of "stdin_reads io" "socket_writes io" s1 e0 r0 w0] by (cases in0) auto
  have p1: "\<exists>u t. brought (socket_reads io) = u @ brought r1 \<and> u = h1 @ t \<and> (\<not> e1 \<longrightarrow> t = [])"
    using 1 relay_prefix [of "socket_reads io" "stdout_writes io" h1 e1 r1 w1] by (cases in1) auto
  show ?case
  proof (cases "bad0 \<or> bad1 \<or> e0 \<or> e1")
    case True
    then show ?thesis using 4(2) 0 1 p0 p1 by auto
  next
    case False
    let ?io = "\<lparr>stdin_reads = r0, socket_reads = r1, socket_writes = w0, stdout_writes = w1\<rparr>"
    obtain s2 h2 where c: "client ps ?io = Ends (s2, h2)" "sent = s1 @ s2" "shown = h1 @ h2"
      using 4(2) 0 1 False by (auto split: run.splits)
    then have "(\<exists>t. brought r0 = s2 @ t) \<and> (\<exists>t. brought r1 = h2 @ t)"
      using 4(1) [OF 0 refl refl refl 1 refl refl refl False c(1)] by simp
    then show ?thesis using p0 p1 c(2,3) False by auto
  qed
qed auto

text \<open>Remark: The client relays in both directions. Whatever the calls do, what it has sent is a prefix of what it
  read from the keyboard, and what it has shown is a prefix of what it read from the socket; and when input
  comes in rounds on both sides and no write fails, it ends having relayed all of it.\<close>

theorem client_relays:
  assumes "client ps io = Ends (sent, shown)"
    and "length ins = length outs" "ins \<noteq> []" "list_all (list_all piece_ok) ins" "list_all (list_all piece_ok) outs"
    and "list_all takes_line w0" "length (concat (concat ins)) \<le> length w0"
    and "list_all takes_line w1" "length (concat (concat outs)) \<le> length w1"
  shows "(\<exists>t. brought (stdin_reads io) = sent @ t) \<and> (\<exists>t. brought (socket_reads io) = shown @ t) \<and>
    client (replicate (length ins - 1) (Events True False True False) @ [Events True True True False])
      \<lparr>stdin_reads = feed ins, socket_reads = feed outs, socket_writes = w0, stdout_writes = w1\<rparr> =
    Ends (concat (concat ins), concat (concat outs))"
  using client_prefixes [OF assms(1)] client_rounds [OF assms(2-9)] by blast

subsection \<open>main\<close>

text \<open>The calls that set up the connection; each of the flags says whether the call succeeds.\<close>

datatype net_call = Socket | Setsockopt_reuse | Getaddrinfo bool | Connect | Bind | Listen nat | Accept | Close_listener
  | Run_client | Run_server | Close_socket

record network =
  socket_ok :: bool
  getaddrinfo_ok :: bool
  connect_ok :: bool
  bind_ok :: bool
  listen_ok :: bool
  accept_ok :: bool

text \<open>The calls made, and the exit status; \<open>None\<close> is a failed assertion.\<close>

definition main_client_server :: "nat \<Rightarrow> network \<Rightarrow> net_call list \<times> nat option" where
  "main_client_server argc net =
     (if \<not> socket_ok net then ([Socket], None)
      else if argc = 2 then
        if \<not> getaddrinfo_ok net then ([Socket, Getaddrinfo False], None)
        else if \<not> connect_ok net then ([Socket, Getaddrinfo False, Connect], Some 1)
        else ([Socket, Getaddrinfo False, Connect, Run_client, Close_socket], Some 0)
      else if \<not> getaddrinfo_ok net then ([Socket, Setsockopt_reuse, Getaddrinfo True], None)
      else if \<not> bind_ok net then ([Socket, Setsockopt_reuse, Getaddrinfo True, Bind], Some 1)
      else if \<not> listen_ok net then ([Socket, Setsockopt_reuse, Getaddrinfo True, Bind, Listen 5], None)
      else if \<not> accept_ok net then ([Socket, Setsockopt_reuse, Getaddrinfo True, Bind, Listen 5, Accept], None)
      else ([Socket, Setsockopt_reuse, Getaddrinfo True, Bind, Listen 5, Accept, Close_listener, Run_server, Close_socket], Some 0))"

subsection \<open>Instances\<close>

text \<open>A file system with two directories, and a session in it.\<close>

definition small_fs :: filesystem where
  "small_fs = \<lparr>chdir_to = (\<lambda>cwd path. if path = ''tmp'' then Some ''/tmp'' else if path = ''/'' then Some ''/'' else None),
     ls_output = (\<lambda>cwd. ''f'' @ [newline])\<rparr>"

definition small_session :: "string list" where
  "small_session = [''cd  tmp'' @ [newline], ''pwd'' @ [newline], ''cd x'', ''cd '' @ [newline], ''what'', ''ls'', ''quit'', ''pwd'']"

lemma small_session_value: "session small_fs ''/'' ''/'' small_session =
   ''/tmp'' @ [newline] @ ''/tmp'' @ [newline] @ invalid_path @ ''/'' @ [newline] @ unknown_cmd @ ''f'' @ [newline]"
  by code_simp

lemma small_session_ok: "list_all line_ok small_session" "length (session small_fs ''/'' ''/'' small_session) = 39"
  by code_simp+


theorem unknown_reply_lost_witness:
  "server small_fs [Got ''help'', Got []] [Interrupted_write] (replicate 128 CHR ''q'') ''/'' = Ends []"
proof -
  have "line_ok ''help''" "parse ''help'' = Unknown" by code_simp+
  then show ?thesis using unknown_reply_lost [of "''help''" "replicate 128 CHR ''q''" "''/''" small_fs "[]"] by simp
qed

theorem client_relays_witness:
  "client [Events True False True False, Events True True True False]
     \<lparr>stdin_reads = [Got ''pwd'', Again, Again], socket_reads = [Again, Got ''/'', Got ''tmp'', Again],
      socket_writes = replicate 3 (Takes 12), stdout_writes = replicate 4 (Takes 12)\<rparr> = Ends (''pwd'', ''/tmp'')"
proof -
  have w: "list_all takes_line (replicate k (Takes 12))" for k by (induction k) (simp_all add: takes_line_def)
  have e: "client [Poll_failed] \<lparr>stdin_reads = [], socket_reads = [], socket_writes = [], stdout_writes = []\<rparr> = Ends ([], [])" by simp
  show ?thesis
    using client_relays [OF e _ _ _ _ w _ w, of "[[''pwd''], []]" "[[], [''/'', ''tmp'']]" 3 4] by (simp add: piece_ok_def)
qed

end
