(* ===== verification/OpenFiles.thy ===== *)
theory OpenFiles
  imports Prelude
begin

text \<open>
  Open files that share a file (\<open>src/tlpi/fd.c\<close>, \<open>src/tlpi/append.c\<close>, \<open>src/tlpi/write-file.c\<close>): descriptors made by
  \<open>dup\<close> or inherited through \<open>fork\<close> have one offset, those of another \<open>open\<close> have their own, and with \<open>O_APPEND\<close> every write goes to the
  end.

  \<^item> There is one file. An open file is a number; \<open>file_offset\<close> and \<open>appends\<close> say what the kernel keeps for it. Several
    descriptors may name the same open file.
  \<^item> The calls succeed and write everything; what they do is their documented behaviour. Output goes to a terminal, line
    by line.
\<close>

record open_files =
  contents :: string
  file_offset :: "nat \<Rightarrow> nat"
  appends :: "nat \<Rightarrow> bool"

definition put_at :: "string \<Rightarrow> nat \<Rightarrow> string \<Rightarrow> string" where
  "put_at old off new = take off (old @ replicate (off - length old) NUL) @ new @ drop (off + length new) old"

definition truncated :: "bool \<Rightarrow> open_files" where
  "truncated at_end = \<lparr>contents = [], file_offset = (\<lambda>_. 0), appends = (\<lambda>f. f = 0 \<and> at_end)\<rparr>"

definition write_to :: "nat \<Rightarrow> string \<Rightarrow> open_files \<Rightarrow> open_files" where
  "write_to f new fs =
     (let off = (if appends fs f then length (contents fs) else file_offset fs f)
      in fs\<lparr>contents := put_at (contents fs) off new, file_offset := (file_offset fs)(f := off + length new)\<rparr>)"

definition lseek_set :: "nat \<Rightarrow> nat \<Rightarrow> open_files \<Rightarrow> open_files" where
  "lseek_set f off fs = fs\<lparr>file_offset := (file_offset fs)(f := off)\<rparr>"

definition read_from :: "nat \<Rightarrow> nat \<Rightarrow> open_files \<Rightarrow> string \<times> open_files" where
  "read_from f n fs =
     (let got = take n (drop (file_offset fs f) (contents fs))
      in (got, fs\<lparr>file_offset := (file_offset fs)(f := file_offset fs f + length got)\<rparr>))"

subsection \<open>fd.c\<close>

text \<open>The file may have anything in it; the parent waits for the child.\<close>

definition main_fd :: "open_files \<Rightarrow> string" where
  "main_fd fs =
     (let out = ''parent off = '' @ decimal (file_offset fs 0) @ [newline];
          out = out @ ''child set off to 100'' @ [newline];
          fs = lseek_set 0 100 fs
      in out @ ''parent off = '' @ decimal (file_offset fs 0) @ [newline])"

subsection \<open>append.c\<close>

definition main_append :: "string \<times> open_files" where
  "main_append =
     (let fs = write_to 0 ''hello '' (truncated True);
          fs = lseek_set 0 0 fs;
          out = ''offset = '' @ decimal (file_offset fs 0) @ [newline];
          fs = write_to 0 (''world'' @ [newline]) fs
      in (out @ ''check /tmp/__xxxxyyyy__ for results'' @ [newline], fs))"

subsection \<open>write-file.c\<close>

text \<open>\<open>print_file\<close> ends what it read with a zero byte; \<open>None\<close> when that is stored outside the buffer.\<close>

definition print_file :: "nat \<Rightarrow> open_files \<Rightarrow> (string \<times> open_files) option" where
  "print_file f fs =
     (let (got, fs) = read_from f 100 (lseek_set f 0 fs)
      in if length got < 100 then Some (c_string (got @ [NUL]) @ [newline], fs) else None)"

text \<open>\<open>fd1\<close> and \<open>fd2\<close> are open file 0, \<open>fd3\<close> is 1 and \<open>fdr\<close> is 2.\<close>

definition main_write_file :: "string option" where
  "main_write_file =
     (let fs = write_to 0 ''hello,'' (truncated False)
      in case print_file 2 fs of None \<Rightarrow> None | Some (out1, fs) \<Rightarrow>
         let fs = write_to 0 '' world'' fs
         in case print_file 2 fs of None \<Rightarrow> None | Some (out2, fs) \<Rightarrow>
            let fs = write_to 0 ''HELLO,'' (lseek_set 0 0 fs)
            in case print_file 2 fs of None \<Rightarrow> None | Some (out3, fs) \<Rightarrow>
               let fs = write_to 1 ''Gidday'' fs
               in case print_file 2 fs of None \<Rightarrow> None | Some (out4, fs) \<Rightarrow> Some (out1 @ out2 @ out3 @ out4))"

subsection \<open>Properties\<close>

lemma put_at_end [simp]: "put_at old (length old) new = old @ new"
  by (simp add: put_at_def)

lemma length_put_at: "length (put_at old off new) = max (length old) (off + length new)"
  by (simp add: put_at_def)

text \<open>What is written is read back, whatever was there, and an appended piece leaves what is there alone.\<close>

lemma put_at_get: "take (length new) (drop off (put_at old off new)) = new"
  by (simp add: put_at_def)

lemma write_to_append: "appends fs f \<Longrightarrow> contents (write_to f new fs) = contents fs @ new"
  by (simp add: write_to_def Let_def)

lemma write_to_end:
  "file_offset fs f = length (contents fs) \<Longrightarrow>
   contents (write_to f new fs) = contents fs @ new \<and> file_offset (write_to f new fs) f = length (contents fs @ new)"
  by (simp add: write_to_def Let_def)

lemma print_bytes:
  "print_file f fs = (if 100 \<le> length (contents fs) then None
     else Some (c_string (contents fs @ [NUL]) @ [newline], fs\<lparr>file_offset := (file_offset fs)(f := length (contents fs))\<rparr>))"
  by (simp add: print_file_def read_from_def lseek_set_def Let_def)

text \<open>Remark: What the programs show: the offset that the child sets is the parent's; with \<open>O_APPEND\<close> a write after
  \<open>lseek\<close> still goes to the end; and descriptors of one open file go on where the other stopped, while another \<open>open\<close>
  of the file starts at its beginning.\<close>

theorem open_files_outputs:
  "main_fd fs = ''parent off = '' @ decimal (file_offset fs 0) @ newline # ''child set off to 100'' @ newline # ''parent off = 100'' @ [newline] \<and>
   contents (snd main_append) = ''hello world'' @ [newline] \<and>
   main_write_file = Some (''hello,'' @ newline # ''hello, world'' @ newline # ''HELLO, world'' @ newline # ''Gidday world'' @ [newline])"
proof -
  have d: "decimal 100 = ''100''" by code_simp
  have "main_fd fs = ''parent off = '' @ decimal (file_offset fs 0) @ newline # ''child set off to 100'' @ newline # ''parent off = 100'' @ [newline]"
    by (simp add: main_fd_def lseek_set_def d)
  moreover have "contents (snd main_append) = ''hello world'' @ [newline]" by code_simp
  moreover have "main_write_file = Some (''hello,'' @ newline # ''hello, world'' @ newline # ''HELLO, world'' @ newline # ''Gidday world'' @ [newline])"
    by (simp add: main_write_file_def print_bytes truncated_def write_to_def lseek_set_def put_at_def Let_def c_string_def NUL_def)
  ultimately show ?thesis by blast
qed

end
