(* ===== verification/AtomicWrites.thy ===== *)
theory AtomicWrites
  imports OpenFiles
begin

text \<open>
  Four processes that write to one open file (\<open>src/tlpi/syscall-atomic.c\<close>): the writes interleave, but each line arrives
  whole, and nobody starts before all are ready.

  \<^item> One step is one system call of one process. The children inherit the open file of \<open>main\<close>, number 0 of \<open>OpenFiles\<close>. All
    calls succeed.
  \<^item> The semaphores have names and are never unlinked: \<open>sem_open\<close> gives them the values they have, which are
    arguments.
\<close>

subsection \<open>State and steps\<close>

definition procs :: nat where "procs = 4"

definition writes :: nat where "writes = 100"

definition line_of_child :: "nat \<Rightarrow> string" where
  "line_of_child i = replicate 59 (char_of (97 + i)) @ [newline]"

datatype writer_at = X_None | X_Post | X_Wait | X_Write nat | X_Exit

datatype starter_at = S_Fork nat | S_Wait nat | S_Go nat | S_Reap nat | S_Print | S_Return

record shared_file =
  files :: open_files
  sem_ready :: nat
  sem_go :: nat
  writer :: "nat \<Rightarrow> writer_at"
  starter :: starter_at

definition shared_init :: "nat \<Rightarrow> nat \<Rightarrow> shared_file" where
  "shared_init ready go = \<lparr>files = truncated False, sem_ready = ready, sem_go = go, writer = (\<lambda>_. X_None), starter = S_Fork 0\<rparr>"

definition child_step :: "nat \<Rightarrow> shared_file \<Rightarrow> shared_file option" where
  "child_step i s =
     (case writer s i of
        X_None \<Rightarrow> None
      | X_Post \<Rightarrow> Some (s\<lparr>sem_ready := sem_ready s + 1, writer := (writer s)(i := X_Wait)\<rparr>)
      | X_Wait \<Rightarrow> if 0 < sem_go s then Some (s\<lparr>sem_go := sem_go s - 1, writer := (writer s)(i := X_Write 0)\<rparr>) else None
      | X_Write k \<Rightarrow> if k < writes then Some (s\<lparr>files := write_to 0 (line_of_child i) (files s), writer := (writer s)(i := X_Write (k + 1))\<rparr>)
          else Some (s\<lparr>writer := (writer s)(i := X_Exit)\<rparr>)
      | X_Exit \<Rightarrow> None)"

definition exited :: "shared_file \<Rightarrow> nat" where
  "exited s = length (filter (\<lambda>i. writer s i = X_Exit) [0..<procs])"

definition main_atomic :: "shared_file \<Rightarrow> shared_file option" where
  "main_atomic s =
     (case starter s of
        S_Fork i \<Rightarrow> Some (if i < procs then s\<lparr>writer := (writer s)(i := X_Post), starter := S_Fork (i + 1)\<rparr> else s\<lparr>starter := S_Wait 0\<rparr>)
      | S_Wait i \<Rightarrow> if i < procs then (if 0 < sem_ready s then Some (s\<lparr>sem_ready := sem_ready s - 1, starter := S_Wait (i + 1)\<rparr>) else None)
          else Some (s\<lparr>starter := S_Go 0\<rparr>)
      | S_Go i \<Rightarrow> Some (if i < procs then s\<lparr>sem_go := sem_go s + 1, starter := S_Go (i + 1)\<rparr> else s\<lparr>starter := S_Reap 0\<rparr>)
      | S_Reap i \<Rightarrow> if i < procs then (if i < exited s then Some (s\<lparr>starter := S_Reap (i + 1)\<rparr>) else None) else Some (s\<lparr>starter := S_Print\<rparr>)
      | S_Print \<Rightarrow> Some (s\<lparr>starter := S_Return\<rparr>)
      | S_Return \<Rightarrow> None)"

inductive atomic_step :: "shared_file \<Rightarrow> shared_file \<Rightarrow> bool" where
  starter_steps: "main_atomic s = Some t \<Longrightarrow> atomic_step s t"
| writer_steps: "i < procs \<Longrightarrow> child_step i s = Some t \<Longrightarrow> atomic_step s t"

subsection \<open>Invariant\<close>

definition forked :: "starter_at \<Rightarrow> nat" where
  "forked p = (case p of S_Fork i \<Rightarrow> i | _ \<Rightarrow> procs)"

definition waited_for :: "starter_at \<Rightarrow> nat" where
  "waited_for p = (case p of S_Fork _ \<Rightarrow> 0 | S_Wait i \<Rightarrow> i | _ \<Rightarrow> procs)"

definition released :: "starter_at \<Rightarrow> nat" where
  "released p = (case p of S_Fork _ \<Rightarrow> 0 | S_Wait _ \<Rightarrow> 0 | S_Go i \<Rightarrow> i | _ \<Rightarrow> procs)"

definition reaped :: "starter_at \<Rightarrow> nat" where
  "reaped p = (case p of S_Reap i \<Rightarrow> i | S_Print \<Rightarrow> procs | S_Return \<Rightarrow> procs | _ \<Rightarrow> 0)"

fun is_ready :: "writer_at \<Rightarrow> nat" where
  "is_ready X_None = 0" | "is_ready X_Post = 0" | "is_ready _ = 1"

fun is_going :: "writer_at \<Rightarrow> nat" where
  "is_going (X_Write _) = 1" | "is_going X_Exit = 1" | "is_going _ = 0"

fun is_exited :: "writer_at \<Rightarrow> nat" where
  "is_exited X_Exit = 1" | "is_exited _ = 0"

fun written :: "writer_at \<Rightarrow> nat" where
  "written (X_Write k) = k" | "written X_Exit = writes" | "written _ = 0"

definition atomic_inv :: "nat \<Rightarrow> nat \<Rightarrow> shared_file \<Rightarrow> bool" where
  "atomic_inv r g s \<longleftrightarrow>
     forked (starter s) \<le> procs \<and> waited_for (starter s) \<le> procs \<and> released (starter s) \<le> procs \<and> reaped (starter s) \<le> procs \<and>
     (\<forall>i. (writer s i = X_None \<longleftrightarrow> forked (starter s) \<le> i) \<and> written (writer s i) \<le> writes) \<and>
     sem_ready s + waited_for (starter s) = r + (\<Sum>i<procs. is_ready (writer s i)) \<and>
     sem_go s + (\<Sum>i<procs. is_going (writer s i)) = g + released (starter s) \<and>
     reaped (starter s) \<le> exited s \<and>
     file_offset (files s) 0 = length (contents (files s)) \<and> \<not> appends (files s) 0 \<and>
     (\<exists>order. contents (files s) = concat (map line_of_child order) \<and> set order \<subseteq> {..<procs} \<and>
        (\<forall>i<procs. count_list order i = written (writer s i)))"

lemma exited_sum: "exited s = (\<Sum>i<procs. is_exited (writer s i))"
proof -
  have "length (filter (\<lambda>i. writer s i = X_Exit) [0..<n]) = (\<Sum>i<n. is_exited (writer s i))" for n
  proof (induction n)
    case (Suc n)
    then show ?case by (cases "writer s n") simp_all
  qed simp
  then show ?thesis by (simp add: exited_def)
qed

fun writer_left :: "writer_at \<Rightarrow> nat" where
  "writer_left X_None = writes + 3" | "writer_left X_Post = writes + 3" | "writer_left X_Wait = writes + 2"
| "writer_left (X_Write k) = writes + 1 - k" | "writer_left X_Exit = 0"

definition starter_left :: "starter_at \<Rightarrow> nat" where
  "starter_left p =
     (case p of S_Fork i \<Rightarrow> 5 + 3 * procs + (procs - i) | S_Wait i \<Rightarrow> 4 + 2 * procs + (procs - i) | S_Go i \<Rightarrow> 3 + procs + (procs - i)
      | S_Reap i \<Rightarrow> 2 + (procs - i) | S_Print \<Rightarrow> 1 | S_Return \<Rightarrow> 0)"

definition atomic_left :: "shared_file \<Rightarrow> nat" where
  "atomic_left s = starter_left (starter s) + (\<Sum>i<procs. writer_left (writer s i))"

text \<open>A child that moves to \<open>w\<close>: the sums change by its share.\<close>

lemma writer_sums:
  assumes "i < procs"
  shows "(\<Sum>j<procs. is_ready ((f(i := w)) j)) + is_ready (f i) = (\<Sum>j<procs. is_ready (f j)) + is_ready w"
    "(\<Sum>j<procs. is_going ((f(i := w)) j)) + is_going (f i) = (\<Sum>j<procs. is_going (f j)) + is_going w"
    "(\<Sum>j<procs. is_exited ((f(i := w)) j)) + is_exited (f i) = (\<Sum>j<procs. is_exited (f j)) + is_exited w"
    "(\<Sum>j<procs. writer_left ((f(i := w)) j)) + writer_left (f i) = (\<Sum>j<procs. writer_left (f j)) + writer_left w"
  by (rule sum_upd [OF assms])+

definition starter_ok :: "shared_file \<Rightarrow> bool" where
  "starter_ok s \<longleftrightarrow> forked (starter s) \<le> procs \<and> waited_for (starter s) \<le> procs \<and> released (starter s) \<le> procs \<and>
     reaped (starter s) \<le> procs \<and> reaped (starter s) \<le> exited s"

definition file_ok :: "shared_file \<Rightarrow> bool" where
  "file_ok s \<longleftrightarrow> file_offset (files s) 0 = length (contents (files s)) \<and> \<not> appends (files s) 0 \<and>
     (\<exists>order. contents (files s) = concat (map line_of_child order) \<and> set order \<subseteq> {..<procs} \<and>
        (\<forall>i<procs. count_list order i = written (writer s i)))"

definition sems_ok :: "nat \<Rightarrow> nat \<Rightarrow> shared_file \<Rightarrow> bool" where
  "sems_ok r g s \<longleftrightarrow> sem_ready s + waited_for (starter s) = r + (\<Sum>i<procs. is_ready (writer s i)) \<and>
     sem_go s + (\<Sum>i<procs. is_going (writer s i)) = g + released (starter s)"

definition writers_ok :: "shared_file \<Rightarrow> bool" where
  "writers_ok s \<longleftrightarrow> (\<forall>i. (writer s i = X_None \<longleftrightarrow> forked (starter s) \<le> i) \<and> written (writer s i) \<le> writes)"

lemma atomic_inv_parts: "atomic_inv r g s \<longleftrightarrow> starter_ok s \<and> writers_ok s \<and> sems_ok r g s \<and> file_ok s"
  by (auto simp: atomic_inv_def starter_ok_def writers_ok_def sems_ok_def file_ok_def)

lemma file_frame:
  "file_ok s \<Longrightarrow> files t = files s \<Longrightarrow> writer t = (writer s)(i := w) \<Longrightarrow> written w = written (writer s i) \<Longrightarrow> file_ok t"
  by (auto simp: file_ok_def)

lemma written_line:
  assumes "file_ok s" "i < procs" "writer s i = X_Write k"
  shows "file_ok (s\<lparr>files := write_to 0 (line_of_child i) (files s), writer := (writer s)(i := X_Write (k + 1))\<rparr>)"
proof -
  obtain order where o: "contents (files s) = concat (map line_of_child order)" "set order \<subseteq> {..<procs}"
      "\<forall>i<procs. count_list order i = written (writer s i)" and f: "file_offset (files s) 0 = length (contents (files s))" "\<not> appends (files s) 0"
    using assms(1) by (auto simp: file_ok_def)
  have "contents (write_to 0 (line_of_child i) (files s)) = concat (map line_of_child (order @ [i]))"
    using write_to_end [OF f(1)] o(1) by simp
  moreover have "set (order @ [i]) \<subseteq> {..<procs}" using o(2) assms(2) by simp
  moreover have "count_list (order @ [i]) j = written (((writer s)(i := X_Write (k + 1))) j)" if "j < procs" for j
    using o(3) that assms(3) by auto
  ultimately have "\<exists>order. contents (write_to 0 (line_of_child i) (files s)) = concat (map line_of_child order) \<and> set order \<subseteq> {..<procs} \<and>
      (\<forall>j<procs. count_list order j = written (((writer s)(i := X_Write (k + 1))) j))" by blast
  moreover have "\<not> appends (write_to 0 (line_of_child i) (files s)) 0" using f(2) by (simp add: write_to_def Let_def)
  ultimately show ?thesis using write_to_end [OF f(1), of "line_of_child i"] by (simp add: file_ok_def del: fun_upd_apply)
qed

lemma child_inv:
  assumes "atomic_inv r g s" "i < procs" "child_step i s = Some t"
  shows "atomic_inv r g t \<and> atomic_left t + 1 = atomic_left s"
proof -
  note sums = writer_sums [OF assms(2), of "writer s"]
  have parts: "starter_ok s" "writers_ok s" "sems_ok r g s" "file_ok s" using assms(1) by (simp_all add: atomic_inv_parts)
  have keep: "atomic_inv r g u \<and> atomic_left u + 1 = atomic_left s"
    if u: "starter u = starter s" "writer u = (writer s)(i := w)" "file_ok u" and w: "w \<noteq> X_None" "writer s i \<noteq> X_None" "written w \<le> writes"
      and left: "writer_left w + 1 = writer_left (writer s i)" and sems: "sems_ok r g u" and e: "is_exited (writer s i) \<le> is_exited w"
    for u w
  proof -
    have "exited s \<le> exited u" using sums(3) [of w] e by (simp add: exited_sum u(2))
    then have "starter_ok u" using parts(1) u(1) by (auto simp: starter_ok_def)
    moreover have "writers_ok u" using parts(2) u w by (auto simp: writers_ok_def)
    moreover have "atomic_left u + 1 = atomic_left s" using sums(4) [of w] left u(1,2) by (simp add: atomic_left_def)
    ultimately show ?thesis using sems u(3) by (simp add: atomic_inv_parts)
  qed
  show ?thesis
  proof (cases "writer s i")
    case X_Post
    then have t: "t = s\<lparr>sem_ready := sem_ready s + 1, writer := (writer s)(i := X_Wait)\<rparr>" using assms(3) by (simp add: child_step_def)
    show ?thesis unfolding t
      by (rule keep [of _ X_Wait])
         (use X_Post parts(3) sums [of X_Wait] file_frame [OF parts(4), of _ i] in \<open>simp_all add: sems_ok_def del: fun_upd_apply\<close>)
  next
    case X_Wait
    then have t: "t = s\<lparr>sem_go := sem_go s - 1, writer := (writer s)(i := X_Write 0)\<rparr>" "0 < sem_go s"
      using assms(3) by (simp_all add: child_step_def split: if_splits)
    obtain k where k: "sem_go s = Suc k" using t(2) by (cases "sem_go s") simp_all
    show ?thesis unfolding t(1)
      by (rule keep [of _ "X_Write 0"])
         (use X_Wait k parts(3) sums [of "X_Write 0"] file_frame [OF parts(4), of _ i] in \<open>simp_all add: sems_ok_def del: fun_upd_apply\<close>)
  next
    case (X_Write k)
    have k: "k \<le> writes" using parts(2) X_Write by (auto simp: writers_ok_def dest!: spec [of _ i])
    show ?thesis
    proof (cases "k < writes")
      case True
      then have t: "t = s\<lparr>files := write_to 0 (line_of_child i) (files s), writer := (writer s)(i := X_Write (k + 1))\<rparr>"
        using assms(3) X_Write by (simp add: child_step_def)
      show ?thesis unfolding t
        by (rule keep [of _ "X_Write (k + 1)"])
           (use X_Write True parts(3) sums [of "X_Write (k + 1)"] written_line [OF parts(4) assms(2) X_Write] in \<open>simp_all add: sems_ok_def del: fun_upd_apply\<close>)
    next
      case False
      then have t: "t = s\<lparr>writer := (writer s)(i := X_Exit)\<rparr>" "k = writes" using assms(3) X_Write k by (simp_all add: child_step_def)
      show ?thesis unfolding t(1)
        by (rule keep [of _ X_Exit])
           (use X_Write t(2) parts(3) sums [of X_Exit] file_frame [OF parts(4), of _ i] in \<open>simp_all add: sems_ok_def del: fun_upd_apply\<close>)
    qed
  qed (use assms(3) in \<open>simp_all add: child_step_def\<close>)
qed

lemma starter_inv:
  assumes "atomic_inv r g s" "main_atomic s = Some t"
  shows "atomic_inv r g t \<and> atomic_left t + 1 = atomic_left s"
proof -
  have parts: "starter_ok s" "writers_ok s" "sems_ok r g s" "file_ok s" using assms(1) by (simp_all add: atomic_inv_parts)
  have same: "exited u = exited s" "file_ok u" if "writer u = writer s" "files u = files s" for u
    using that parts(4) by (simp_all add: exited_def file_ok_def)
  have move: "atomic_inv r g u \<and> atomic_left u + 1 = atomic_left s"
    if "writer u = writer s" "files u = files s" "starter_ok u" "sems_ok r g u" "forked (starter u) = forked (starter s)"
      "starter_left (starter u) + 1 = starter_left (starter s)" for u
    using that same [OF that(1,2)] parts by (simp add: atomic_inv_parts writers_ok_def atomic_left_def)
  show ?thesis
  proof (cases "starter s")
    case (S_Fork i)
    show ?thesis
    proof (cases "i < procs")
      case True
      then have t: "t = s\<lparr>writer := (writer s)(i := X_Post), starter := S_Fork (i + 1)\<rparr>" using assms(2) S_Fork by (simp add: main_atomic_def)
      note sums = writer_sums [OF True, of "writer s" X_Post]
      have n: "writer s i = X_None" using parts(2) S_Fork by (simp add: writers_ok_def forked_def)
      have "starter_ok t" using parts(1) True S_Fork by (simp add: t starter_ok_def forked_def waited_for_def released_def reaped_def)
      moreover have "writers_ok t"
        unfolding writers_ok_def
      proof
        fix j
        have "(writer s j = X_None \<longleftrightarrow> i \<le> j) \<and> written (writer s j) \<le> writes" using parts(2) S_Fork by (simp add: writers_ok_def forked_def)
        then show "(writer t j = X_None \<longleftrightarrow> forked (starter t) \<le> j) \<and> written (writer t j) \<le> writes"
          by (cases "j = i") (auto simp: t forked_def)
      qed
      moreover have "sems_ok r g t" using parts(3) S_Fork sums n by (simp add: t sems_ok_def waited_for_def released_def del: fun_upd_apply)
      moreover have "file_ok t" using file_frame [OF parts(4), of t i X_Post] n by (simp add: t)
      moreover have "atomic_left t + 1 = atomic_left s"
        using S_Fork sums(4) n True by (simp add: t atomic_left_def starter_left_def del: fun_upd_apply)
      ultimately show ?thesis by (simp add: atomic_inv_parts)
    next
      case False
      then have "t = s\<lparr>starter := S_Wait 0\<rparr>" using assms(2) S_Fork by (simp add: main_atomic_def)
      then show ?thesis using S_Fork False parts
        by (intro move) (simp_all add: starter_ok_def sems_ok_def forked_def waited_for_def released_def reaped_def starter_left_def)
    qed
  next
    case (S_Wait i)
    show ?thesis
    proof (cases "i < procs")
      case True
      then obtain k where k: "sem_ready s = Suc k" "t = s\<lparr>sem_ready := k, starter := S_Wait (i + 1)\<rparr>"
        using assms(2) S_Wait by (cases "sem_ready s") (auto simp: main_atomic_def)
      then show ?thesis using S_Wait True parts
        by (intro move) (simp_all add: starter_ok_def sems_ok_def forked_def waited_for_def released_def reaped_def starter_left_def)
    next
      case False
      then have "t = s\<lparr>starter := S_Go 0\<rparr>" "i = procs" using assms(2) S_Wait parts(1) by (simp_all add: main_atomic_def starter_ok_def waited_for_def)
      then show ?thesis using S_Wait parts
        by (intro move) (simp_all add: starter_ok_def sems_ok_def forked_def waited_for_def released_def reaped_def starter_left_def)
    qed
  next
    case (S_Go i)
    show ?thesis
    proof (cases "i < procs")
      case True
      then have "t = s\<lparr>sem_go := sem_go s + 1, starter := S_Go (i + 1)\<rparr>" using assms(2) S_Go by (simp add: main_atomic_def)
      then show ?thesis using S_Go True parts
        by (intro move) (simp_all add: starter_ok_def sems_ok_def forked_def waited_for_def released_def reaped_def starter_left_def)
    next
      case False
      then have "t = s\<lparr>starter := S_Reap 0\<rparr>" "i = procs" using assms(2) S_Go parts(1) by (simp_all add: main_atomic_def starter_ok_def released_def)
      then show ?thesis using S_Go parts
        by (intro move) (simp_all add: starter_ok_def sems_ok_def forked_def waited_for_def released_def reaped_def starter_left_def)
    qed
  next
    case (S_Reap i)
    show ?thesis
    proof (cases "i < procs")
      case True
      then have t: "t = s\<lparr>starter := S_Reap (i + 1)\<rparr>" "i < exited s" using assms(2) S_Reap by (simp_all add: main_atomic_def split: if_splits)
      then show ?thesis using S_Reap True parts same(1) [of t]
        by (intro move) (simp_all add: starter_ok_def sems_ok_def forked_def waited_for_def released_def reaped_def starter_left_def)
    next
      case False
      then have t: "t = s\<lparr>starter := S_Print\<rparr>" "i = procs" using assms(2) S_Reap parts(1) by (simp_all add: main_atomic_def starter_ok_def reaped_def)
      then show ?thesis using S_Reap parts same(1) [of t]
        by (intro move) (simp_all add: starter_ok_def sems_ok_def forked_def waited_for_def released_def reaped_def starter_left_def)
    qed
  next
    case S_Print
    then have t: "t = s\<lparr>starter := S_Return\<rparr>" using assms(2) by (simp add: main_atomic_def)
    then show ?thesis using S_Print parts same(1) [of t]
      by (intro move) (simp_all add: starter_ok_def sems_ok_def forked_def waited_for_def released_def reaped_def starter_left_def)
  qed (use assms(2) in \<open>simp add: main_atomic_def\<close>)
qed

lemma atomic_step_inv: "atomic_inv r g s \<Longrightarrow> atomic_step s t \<Longrightarrow> atomic_inv r g t \<and> atomic_left t + 1 = atomic_left s"
  by (erule atomic_step.cases) (use starter_inv child_inv in blast)+

lemma atomic_inv_init: "atomic_inv r g (shared_init r g)"
proof -
  have "sems_ok r g (shared_init r g)" by (simp add: sems_ok_def shared_init_def waited_for_def released_def)
  moreover have "file_ok (shared_init r g)" by (auto simp: file_ok_def shared_init_def truncated_def intro: exI [of _ "[]"])
  ultimately show ?thesis
    by (simp add: atomic_inv_parts starter_ok_def writers_ok_def shared_init_def forked_def waited_for_def released_def reaped_def)
qed

lemma atomic_enabled:
  assumes "atomic_inv r g s" "starter s \<noteq> S_Return"
  shows "\<exists>t. atomic_step s t"
proof -
  have parts: "starter_ok s" "writers_ok s" "sems_ok r g s" using assms(1) by (simp_all add: atomic_inv_parts)
  have child: "\<exists>t. atomic_step s t" if "i < procs" "child_step i s \<noteq> None" for i
    using that writer_steps [of i s] by blast
  show ?thesis
  proof (cases "main_atomic s")
    case (Some t)
    then show ?thesis using starter_steps by blast
  next
    case None
    then consider i where "starter s = S_Wait i" "i < procs" "sem_ready s = 0" | i where "starter s = S_Reap i" "i < procs" "exited s \<le> i"
      using assms(2) by (cases "starter s") (auto simp: main_atomic_def split: if_splits)
    then show ?thesis
    proof cases
      case 1
      then have "(\<Sum>j<procs. is_ready (writer s j)) < procs" using parts(3) by (simp add: sems_ok_def waited_for_def)
      then obtain j where j: "j < procs" "is_ready (writer s j) = 0" using sum_less_card by blast
      moreover have "writer s j \<noteq> X_None" using parts(2) j(1) 1(1) by (simp add: writers_ok_def forked_def)
      ultimately show ?thesis by (intro child [of j]) (auto simp: child_step_def elim: is_ready.elims split: writer_at.splits)
    next
      case 2
      then have "(\<Sum>j<procs. is_exited (writer s j)) < procs" by (simp add: exited_sum)
      then obtain j where j: "j < procs" "is_exited (writer s j) = 0" using sum_less_card by blast
      have n: "writer s j \<noteq> X_None" using parts(2) j(1) 2(1) by (simp add: writers_ok_def forked_def)
      show ?thesis
      proof (cases "writer s j = X_Wait")
        case True
        have "(\<Sum>j<procs. is_going (writer s j)) \<noteq> procs"
        proof
          assume e: "(\<Sum>j<procs. is_going (writer s j)) = procs"
          have "is_going (writer s k) \<le> 1" for k by (cases "writer s k") simp_all
          then have "(\<Sum>j\<in>{..<procs} - {j}. is_going (writer s j)) \<le> (\<Sum>j\<in>{..<procs} - {j}. 1)" by (intro sum_mono) simp
          then show False using e j(1) True by (simp add: sum.remove [of "{..<procs}" j])
        qed
        moreover have "(\<Sum>j<procs. is_going (writer s j)) \<le> (\<Sum>j<procs. 1)"
          by (intro sum_mono) (metis is_going.elims le_numeral_extra(4) zero_le_one One_nat_def)
        ultimately have "0 < sem_go s" using parts(3) 2(1) by (simp add: sems_ok_def released_def)
        then show ?thesis using True j(1) by (intro child [of j]) (simp_all add: child_step_def)
      next
        case False
        then show ?thesis using n j by (intro child [of j]) (cases "writer s j"; simp add: child_step_def)+
      qed
    qed
  qed
qed

lemma all_ones:
  assumes "n \<le> (\<Sum>j<n. w j)" "\<And>j. w j \<le> (1 :: nat)" "i < n"
  shows "w i = 1"
proof (rule ccontr)
  assume "w i \<noteq> 1"
  then have z: "w i = 0" using assms(2) [of i] by simp
  have "(\<Sum>j<n. w j) = (\<Sum>j\<in>{..<n} - {i}. w j)" using assms(3) z by (simp add: sum.remove [of "{..<n}" i])
  also have "\<dots> \<le> (\<Sum>j\<in>{..<n} - {i}. 1)" by (intro sum_mono) (rule assms(2))
  also have "\<dots> < n" using assms(3) by simp
  finally show False using assms(1) by simp
qed

lemma shares_le_one: "is_ready w \<le> 1" "is_going w \<le> 1" "is_exited w \<le> 1"
  by (cases w; simp)+

lemma all_exited:
  assumes "atomic_inv r g s" "starter s = S_Return" "i < procs"
  shows "writer s i = X_Exit"
proof -
  have "procs \<le> (\<Sum>j<procs. is_exited (writer s j))"
    using assms(1,2) by (simp add: atomic_inv_parts starter_ok_def exited_sum reaped_def)
  then have "is_exited (writer s i) = 1" using all_ones [of procs "\<lambda>j. is_exited (writer s j)" i] shares_le_one(3) assms(3) by simp
  then show ?thesis by (cases "writer s i") simp_all
qed

interpretation lines: ending_protocol "\<lambda>s. s = shared_init r g" atomic_step "atomic_inv r g" atomic_left "\<lambda>s. starter s = S_Return" for r g
proof unfold_locales
  show "atomic_left s = 0" if "atomic_inv r g s" "starter s = S_Return" for s
    using all_exited [OF that] that(2) by (simp add: atomic_left_def starter_left_def)
  show "atomic_left t < atomic_left s" if "atomic_inv r g s" "atomic_step s t" for s t
    using atomic_step_inv [OF that] by simp
  show "\<exists>t. atomic_step s t" if "atomic_inv r g s" "starter s \<noteq> S_Return" for s
    by (rule atomic_enabled [OF that])
qed (use atomic_inv_init atomic_step_inv in blast)+

lemma run_left: "(atomic_step ^^ n) (shared_init r g) s \<Longrightarrow> atomic_inv r g s \<and> atomic_left s + n = atomic_left (shared_init r g)"
proof (induction n arbitrary: s)
  case (Suc n)
  then obtain u where "(atomic_step ^^ n) (shared_init r g) u" "atomic_step u s" by auto
  then show ?case using Suc.IH atomic_step_inv [of r g u s] by fastforce
qed (simp add: atomic_inv_init)

lemma start_barrier:
  assumes "atomic_inv 0 0 s" "contents (files s) \<noteq> []" "i < procs"
  shows "writer s i \<notin> {X_None, X_Post}"
proof -
  have parts: "sems_ok 0 0 s" "file_ok s" "starter_ok s" using assms(1) by (simp_all add: atomic_inv_parts)
  obtain order where o: "contents (files s) = concat (map line_of_child order)" "set order \<subseteq> {..<procs}"
      "\<forall>i<procs. count_list order i = written (writer s i)" using parts(2) by (auto simp: file_ok_def)
  then obtain j rest where "order = j # rest" using assms(2) by (cases order) auto
  then have j: "j < procs" "0 < written (writer s j)" using o(2,3) by auto
  then have "is_going (writer s j) = 1" by (cases "writer s j") simp_all
  then have "0 < (\<Sum>k<procs. is_going (writer s k))" using j(1) by (intro sum_pos2 [of _ j]) simp_all
  then have "0 < released (starter s)" using parts(1) by (simp add: sems_ok_def)
  then have "waited_for (starter s) = procs" by (cases "starter s") (simp_all add: released_def waited_for_def)
  then have "procs \<le> (\<Sum>k<procs. is_ready (writer s k))" using parts(1) by (simp add: sems_ok_def)
  then have "is_ready (writer s i) = 1" using all_ones [of procs "\<lambda>j. is_ready (writer s j)" i] shares_le_one(1) assms(3) by simp
  then show ?thesis by auto
qed

lemma stale_semaphore:
  "\<exists>s. atomic_step\<^sup>*\<^sup>* (shared_init 0 1) s \<and> contents (files s) = line_of_child 0 \<and> writer s 1 = X_None"
proof -
  let ?s0 = "shared_init 0 1"
  let ?s1 = "?s0\<lparr>writer := (writer ?s0)(0 := X_Post), starter := S_Fork 1\<rparr>"
  let ?s2 = "?s1\<lparr>sem_ready := 1, writer := (writer ?s1)(0 := X_Wait)\<rparr>"
  let ?s3 = "?s2\<lparr>sem_go := 0, writer := (writer ?s2)(0 := X_Write 0)\<rparr>"
  let ?s4 = "?s3\<lparr>files := write_to 0 (line_of_child 0) (files ?s3), writer := (writer ?s3)(0 := X_Write 1)\<rparr>"
  have p: "0 < procs" by (simp add: procs_def)
  have "atomic_step ?s0 ?s1" using p by (intro starter_steps) (simp add: main_atomic_def shared_init_def)
  moreover have "atomic_step ?s1 ?s2" by (rule writer_steps [OF p]) (simp add: child_step_def shared_init_def)
  moreover have "atomic_step ?s2 ?s3" by (rule writer_steps [OF p]) (simp add: child_step_def shared_init_def)
  moreover have "atomic_step ?s3 ?s4" by (rule writer_steps [OF p]) (simp add: child_step_def shared_init_def writes_def)
  ultimately have "atomic_step\<^sup>*\<^sup>* ?s0 ?s4" by (meson converse_rtranclp_into_rtranclp rtranclp.rtrancl_refl)
  moreover have "contents (files ?s4) = line_of_child 0 \<and> writer ?s4 1 = X_None"
    by (simp add: shared_init_def write_to_def truncated_def put_at_def)
  ultimately show ?thesis by blast
qed

subsection \<open>Properties\<close>



end
