(* ===== verification/Pipe.thy ===== *)
theory Pipe
  imports Prelude
begin

text \<open>
  A parent that sends characters to its child and prints what comes back, over two pipes (\<open>src/tlpi/pipe.c\<close>).

  \<^item> One step is one system call of one process. The standard input is a file: at its end \<open>read\<close> returns 0 for ever and
    leaves \<open>c\<close> as it is. The first value of \<open>c\<close>, which is not set, is an argument.
  \<^item> \<open>read\<close> on an empty pipe waits while another process has its writing end open; \<open>write\<close> fails when nobody has the
    reading end open (\<open>SIGPIPE\<close> is ignored). A pipe takes more than one character.
  \<^item> \<open>pipe\<close> and \<open>fork\<close> succeed.
\<close>

subsection \<open>The two processes\<close>

datatype parent_at = R_Start | R_Stdin | R_Send | R_Receive | R_Print | R_Close | R_Wait | R_Return

datatype child_at = K_Start | K_Read | K_Write | K_Close | K_Return

record pipes =
  stdin :: string
  parent_c :: char
  parent_pc :: parent_at
  child_c :: char
  child_pc :: child_at
  pipe_p2c :: string
  pipe_c2p :: string
  printed :: string

definition pipes_init :: "string \<Rightarrow> char \<Rightarrow> pipes" where
  "pipes_init input c0 = \<lparr>stdin = input, parent_c = c0, parent_pc = R_Start, child_c = c0, child_pc = K_Start,
     pipe_p2c = [], pipe_c2p = [], printed = []\<rparr>"

definition capital :: "char \<Rightarrow> char" where
  "capital c = (if (of_char CHR ''a'' :: nat) \<le> of_char c \<and> (of_char c :: nat) \<le> of_char CHR ''z''
     then char_of ((of_char c :: nat) - of_char CHR ''a'' + of_char CHR ''A'') else c)"

text \<open>Which ends are open: each process closes the ends it does not use first, and the others at the end.\<close>

definition parent_has :: "pipes \<Rightarrow> bool" where
  "parent_has s \<longleftrightarrow> parent_pc s \<notin> {R_Wait, R_Return}"

definition child_has :: "pipes \<Rightarrow> bool" where
  "child_has s \<longleftrightarrow> child_pc s \<noteq> K_Return"

definition p2c_writers :: "pipes \<Rightarrow> bool" where
  "p2c_writers s \<longleftrightarrow> parent_has s \<or> child_pc s = K_Start"

definition p2c_readers :: "pipes \<Rightarrow> bool" where
  "p2c_readers s \<longleftrightarrow> child_has s \<or> parent_pc s = R_Start"

definition c2p_writers :: "pipes \<Rightarrow> bool" where
  "c2p_writers s \<longleftrightarrow> child_has s \<or> parent_pc s = R_Start"

definition c2p_readers :: "pipes \<Rightarrow> bool" where
  "c2p_readers s \<longleftrightarrow> parent_has s \<or> child_pc s = K_Start"

definition child_main :: "pipes \<Rightarrow> pipes option" where
  "child_main s =
     (case child_pc s of
        K_Start \<Rightarrow> Some (s\<lparr>child_pc := K_Read\<rparr>)
      | K_Read \<Rightarrow> (case pipe_p2c s of
            x # rest \<Rightarrow> Some (s\<lparr>pipe_p2c := rest, child_c := capital x, child_pc := K_Write\<rparr>)
          | [] \<Rightarrow> if p2c_writers s then None else Some (s\<lparr>child_pc := K_Close\<rparr>))
      | K_Write \<Rightarrow> if c2p_readers s then Some (s\<lparr>pipe_c2p := pipe_c2p s @ [child_c s], child_pc := K_Read\<rparr>)
          else Some (s\<lparr>child_pc := K_Close\<rparr>)
      | K_Close \<Rightarrow> Some (s\<lparr>child_pc := K_Return\<rparr>)
      | K_Return \<Rightarrow> None)"

definition parent_main :: "pipes \<Rightarrow> pipes option" where
  "parent_main s =
     (case parent_pc s of
        R_Start \<Rightarrow> Some (s\<lparr>parent_pc := R_Stdin\<rparr>)
      | R_Stdin \<Rightarrow>
          let c = (case stdin s of [] \<Rightarrow> parent_c s | x # _ \<Rightarrow> x)
          in Some (s\<lparr>stdin := tl (stdin s), parent_c := c, parent_pc := (if c = newline then R_Close else R_Send)\<rparr>)
      | R_Send \<Rightarrow> Some (s\<lparr>pipe_p2c := (if p2c_readers s then pipe_p2c s @ [parent_c s] else pipe_p2c s), parent_pc := R_Receive\<rparr>)
      | R_Receive \<Rightarrow> (case pipe_c2p s of
            x # rest \<Rightarrow> Some (s\<lparr>pipe_c2p := rest, parent_c := x, parent_pc := R_Print\<rparr>)
          | [] \<Rightarrow> if c2p_writers s then None else Some (s\<lparr>parent_pc := R_Print\<rparr>))
      | R_Print \<Rightarrow> Some (s\<lparr>printed := printed s @ [parent_c s], parent_pc := R_Stdin\<rparr>)
      | R_Close \<Rightarrow> Some (s\<lparr>parent_pc := R_Wait\<rparr>)
      | R_Wait \<Rightarrow> if child_pc s = K_Return then Some (s\<lparr>parent_pc := R_Return\<rparr>) else None
      | R_Return \<Rightarrow> None)"

inductive pipe_step :: "pipes \<Rightarrow> pipes \<Rightarrow> bool" where
  parent_steps: "parent_main s = Some t \<Longrightarrow> pipe_step s t"
| child_steps: "child_main s = Some t \<Longrightarrow> pipe_step s t"

subsection \<open>What the parent reads\<close>

text \<open>The character of the \<open>n\<close>-th round: from the input, and after its end the last one that came back.\<close>

fun nth_char :: "string \<Rightarrow> char \<Rightarrow> nat \<Rightarrow> char" where
  "nth_char input c0 0 = (if input = [] then c0 else hd input)"
| "nth_char input c0 (Suc n) = (if Suc n < length input then input ! Suc n else capital (nth_char input c0 n))"

definition held :: "string \<Rightarrow> char \<Rightarrow> nat \<Rightarrow> char" where
  "held input c0 n = (case n of 0 \<Rightarrow> c0 | Suc m \<Rightarrow> capital (nth_char input c0 m))"

lemma nth_char_input: "n < length input \<Longrightarrow> nth_char input c0 n = input ! n"
  by (cases n) (auto simp: hd_conv_nth)

lemma nth_char_end: "length input \<le> n \<Longrightarrow> nth_char input c0 n = held input c0 n"
  by (cases n) (auto simp: held_def)

lemma nth_char_read: "nth_char input c0 n = (case drop n input of [] \<Rightarrow> held input c0 n | x # _ \<Rightarrow> x)"
proof (cases "n < length input")
  case True
  then show ?thesis using Cons_nth_drop_Suc [of n input] nth_char_input [of n input c0] by (auto split: list.split)
qed (simp add: nth_char_end)

subsection \<open>Invariant\<close>

definition waiting_child :: "pipes \<Rightarrow> bool" where
  "waiting_child s \<longleftrightarrow> child_pc s \<in> {K_Start, K_Read}"

definition pipe_inv :: "string \<Rightarrow> char \<Rightarrow> pipes \<Rightarrow> bool" where
  "pipe_inv input c0 s \<longleftrightarrow>
     (let n = length (printed s); x = nth_char input c0 n in
      printed s = map (\<lambda>k. capital (nth_char input c0 k)) [0..<n] \<and> (\<forall>k<n. nth_char input c0 k \<noteq> newline) \<and>
      (case parent_pc s of
         R_Start \<Rightarrow> n = 0 \<and> stdin s = input \<and> parent_c s = c0 \<and> waiting_child s \<and> pipe_p2c s = [] \<and> pipe_c2p s = []
       | R_Stdin \<Rightarrow> stdin s = drop n input \<and> parent_c s = held input c0 n \<and> waiting_child s \<and> pipe_p2c s = [] \<and> pipe_c2p s = []
       | R_Send \<Rightarrow> stdin s = drop (Suc n) input \<and> parent_c s = x \<and> x \<noteq> newline \<and> waiting_child s \<and> pipe_p2c s = [] \<and> pipe_c2p s = []
       | R_Receive \<Rightarrow> stdin s = drop (Suc n) input \<and> x \<noteq> newline \<and>
           (waiting_child s \<and> pipe_p2c s = [x] \<and> pipe_c2p s = [] \<or>
            child_pc s = K_Write \<and> child_c s = capital x \<and> pipe_p2c s = [] \<and> pipe_c2p s = [] \<or>
            child_pc s = K_Read \<and> pipe_p2c s = [] \<and> pipe_c2p s = [capital x])
       | R_Print \<Rightarrow> stdin s = drop (Suc n) input \<and> x \<noteq> newline \<and> parent_c s = capital x \<and> child_pc s = K_Read \<and>
           pipe_p2c s = [] \<and> pipe_c2p s = []
       | R_Close \<Rightarrow> x = newline \<and> waiting_child s \<and> pipe_p2c s = [] \<and> pipe_c2p s = []
       | R_Wait \<Rightarrow> x = newline \<and> child_pc s \<noteq> K_Write \<and> pipe_p2c s = [] \<and> pipe_c2p s = []
       | R_Return \<Rightarrow> x = newline \<and> child_pc s = K_Return \<and> pipe_p2c s = [] \<and> pipe_c2p s = []))"

lemma echo_parent_inv:
  assumes "pipe_inv input c0 s" "parent_main s = Some t"
  shows "pipe_inv input c0 t"
proof -
  let ?n = "length (printed s)"
  show ?thesis
  proof (cases "parent_pc s")
    case R_Start
    then have "t = s\<lparr>parent_pc := R_Stdin\<rparr>" using assms(2) by (simp add: parent_main_def)
    then show ?thesis using assms(1) R_Start by (simp add: pipe_inv_def Let_def held_def waiting_child_def)
  next
    case R_Stdin
    let ?c = "nth_char input c0 ?n"
    have "stdin s = drop ?n input" "parent_c s = held input c0 ?n" using assms(1) R_Stdin by (simp_all add: pipe_inv_def Let_def)
    then have "t = s\<lparr>stdin := drop (Suc ?n) input, parent_c := ?c, parent_pc := (if ?c = newline then R_Close else R_Send)\<rparr>"
      using assms(2) R_Stdin nth_char_read [of input c0 ?n] by (auto simp: parent_main_def Let_def drop_Suc tl_drop split: list.splits)
    then show ?thesis using assms(1) R_Stdin by (simp add: pipe_inv_def Let_def waiting_child_def)
  next
    case R_Send
    then have "p2c_readers s" using assms(1) by (auto simp: pipe_inv_def Let_def p2c_readers_def child_has_def waiting_child_def)
    then have "t = s\<lparr>pipe_p2c := pipe_p2c s @ [parent_c s], parent_pc := R_Receive\<rparr>"
      using assms(2) R_Send by (simp add: parent_main_def)
    then show ?thesis using assms(1) R_Send by (simp add: pipe_inv_def Let_def waiting_child_def)
  next
    case R_Receive
    have "c2p_writers s" using assms(1) R_Receive by (auto simp: pipe_inv_def Let_def c2p_writers_def child_has_def waiting_child_def)
    then obtain x rest where x: "pipe_c2p s = x # rest" "t = s\<lparr>pipe_c2p := rest, parent_c := x, parent_pc := R_Print\<rparr>"
      using assms(2) R_Receive by (auto simp: parent_main_def split: list.splits)
    then show ?thesis using assms(1) R_Receive by (simp add: pipe_inv_def Let_def waiting_child_def)
  next
    case R_Print
    then have "t = s\<lparr>printed := printed s @ [parent_c s], parent_pc := R_Stdin\<rparr>" using assms(2) by (simp add: parent_main_def)
    then show ?thesis using assms(1) R_Print by (simp add: pipe_inv_def Let_def held_def waiting_child_def less_Suc_eq)
  next
    case R_Close
    then have "t = s\<lparr>parent_pc := R_Wait\<rparr>" using assms(2) by (simp add: parent_main_def)
    then show ?thesis using assms(1) R_Close by (auto simp: pipe_inv_def Let_def waiting_child_def)
  next
    case R_Wait
    then have "child_pc s = K_Return" "t = s\<lparr>parent_pc := R_Return\<rparr>" using assms(2) by (simp_all add: parent_main_def split: if_splits)
    then show ?thesis using assms(1) R_Wait by (simp add: pipe_inv_def Let_def)
  qed (use assms(2) in \<open>simp add: parent_main_def\<close>)
qed

lemma echo_child_inv:
  assumes "pipe_inv input c0 s" "child_main s = Some t"
  shows "pipe_inv input c0 t"
proof (cases "child_pc s")
  case K_Start
  then have "t = s\<lparr>child_pc := K_Read\<rparr>" using assms(2) by (simp add: child_main_def)
  then show ?thesis using assms(1) K_Start by (cases "parent_pc s") (simp_all add: pipe_inv_def Let_def waiting_child_def)
next
  case K_Read
  show ?thesis
  proof (cases "pipe_p2c s")
    case Nil
    then have "\<not> parent_has s" "t = s\<lparr>child_pc := K_Close\<rparr>"
      using assms(2) K_Read by (simp_all add: child_main_def p2c_writers_def split: if_splits)
    then show ?thesis using assms(1) K_Read by (cases "parent_pc s") (simp_all add: pipe_inv_def Let_def parent_has_def)
  next
    case (Cons x rest)
    then have "t = s\<lparr>pipe_p2c := rest, child_c := capital x, child_pc := K_Write\<rparr>" using assms(2) K_Read by (simp add: child_main_def)
    then show ?thesis using assms(1) K_Read Cons by (cases "parent_pc s") (simp_all add: pipe_inv_def Let_def waiting_child_def)
  qed
next
  case K_Write
  then have r: "parent_pc s = R_Receive" using assms(1) by (cases "parent_pc s") (simp_all add: pipe_inv_def Let_def waiting_child_def)
  then have "t = s\<lparr>pipe_c2p := pipe_c2p s @ [child_c s], child_pc := K_Read\<rparr>"
    using assms(2) K_Write by (simp add: child_main_def c2p_readers_def parent_has_def)
  then show ?thesis using assms(1) K_Write r by (simp add: pipe_inv_def Let_def waiting_child_def)
next
  case K_Close
  then have "t = s\<lparr>child_pc := K_Return\<rparr>" using assms(2) by (simp add: child_main_def)
  then show ?thesis using assms(1) K_Close by (cases "parent_pc s") (simp_all add: pipe_inv_def Let_def waiting_child_def)
qed (use assms(2) in \<open>simp add: child_main_def\<close>)

lemma pipe_inv_init: "pipe_inv input c0 (pipes_init input c0)"
  by (simp add: pipe_inv_def pipes_init_def waiting_child_def)

lemma pipe_inv_step: "pipe_inv input c0 s \<Longrightarrow> pipe_step s t \<Longrightarrow> pipe_inv input c0 t"
  by (erule pipe_step.cases) (use echo_parent_inv echo_child_inv in blast)+

lemma pipe_enabled:
  assumes "pipe_inv input c0 s" "parent_pc s \<noteq> R_Return"
  shows "\<exists>t. pipe_step s t"
proof -
  have "parent_main s \<noteq> None \<or> child_main s \<noteq> None"
  proof (cases "parent_pc s")
    case R_Receive
    then have "child_main s \<noteq> None \<or> pipe_c2p s \<noteq> []"
      using assms(1) by (auto simp: pipe_inv_def Let_def waiting_child_def child_main_def)
    then show ?thesis using R_Receive by (auto simp: parent_main_def neq_Nil_conv)
  next
    case R_Wait
    then have "child_main s \<noteq> None \<or> child_pc s = K_Return"
      using assms(1) by (cases "child_pc s") (auto simp: pipe_inv_def Let_def child_main_def p2c_writers_def parent_has_def)
    then show ?thesis using R_Wait by (auto simp: parent_main_def)
  qed (use assms(2) in \<open>simp_all add: parent_main_def Let_def\<close>)
  then show ?thesis using pipe_step.intros by blast
qed

subsection \<open>The steps that are left\<close>

definition ends_at :: "string \<Rightarrow> char \<Rightarrow> nat \<Rightarrow> bool" where
  "ends_at input c0 m \<longleftrightarrow> nth_char input c0 m = newline \<and> (\<forall>k<m. nth_char input c0 k \<noteq> newline)"

definition parent_rank :: "parent_at \<Rightarrow> nat" where
  "parent_rank p = (case p of R_Start \<Rightarrow> 7 | R_Stdin \<Rightarrow> 6 | R_Send \<Rightarrow> 5 | R_Receive \<Rightarrow> 2 | R_Print \<Rightarrow> 1 | R_Close \<Rightarrow> 5 | R_Wait \<Rightarrow> 4 | R_Return \<Rightarrow> 3)"

definition child_rank :: "child_at \<Rightarrow> nat" where
  "child_rank p = (case p of K_Start \<Rightarrow> 3 | K_Read \<Rightarrow> 2 | K_Write \<Rightarrow> 3 | K_Close \<Rightarrow> 1 | K_Return \<Rightarrow> 0)"

definition pipe_left :: "nat \<Rightarrow> pipes \<Rightarrow> nat" where
  "pipe_left m s = 6 * (m - length (printed s)) + parent_rank (parent_pc s) + 2 * length (pipe_p2c s) + child_rank (child_pc s) - 3"

lemmas rank_defs = pipe_left_def parent_rank_def child_rank_def

lemma rounds_left:
  assumes "pipe_inv input c0 s" "ends_at input c0 m"
  shows "length (printed s) \<le> m" "parent_pc s \<in> {R_Send, R_Receive, R_Print} \<Longrightarrow> length (printed s) < m"
    "parent_pc s \<in> {R_Close, R_Wait, R_Return} \<Longrightarrow> length (printed s) = m"
proof -
  let ?x = "nth_char input c0 (length (printed s))"
  have "\<forall>k<length (printed s). nth_char input c0 k \<noteq> newline" using assms(1) by (simp add: pipe_inv_def Let_def)
  then show le: "length (printed s) \<le> m" using assms(2) by (auto simp: ends_at_def not_le [symmetric])
  show "length (printed s) < m" if "parent_pc s \<in> {R_Send, R_Receive, R_Print}"
  proof -
    have "?x \<noteq> newline" using assms(1) that by (auto simp: pipe_inv_def Let_def)
    then show ?thesis using assms(2) le by (cases "length (printed s) = m") (auto simp: ends_at_def)
  qed
  show "length (printed s) = m" if "parent_pc s \<in> {R_Close, R_Wait, R_Return}"
  proof -
    have "?x = newline" using assms(1) that by (auto simp: pipe_inv_def Let_def)
    then show ?thesis using assms(2) le by (cases "length (printed s) = m") (auto simp: ends_at_def)
  qed
qed

lemma pipe_left_step:
  assumes "pipe_inv input c0 s" "ends_at input c0 m" "pipe_step s t"
  shows "pipe_left m t + 1 = pipe_left m s"
proof -
  note r = rounds_left [OF assms(1,2)]
  have r': "parent_pc s \<in> {R_Send, R_Receive, R_Print} \<Longrightarrow> 6 * (m - length (printed s)) = 6 * (m - Suc (length (printed s))) + 6"
    using r(2) by simp
  note rt = rounds_left [OF pipe_inv_step [OF assms(1,3)] assms(2)]
  show ?thesis
    using assms(3)
  proof cases
    case parent_steps
    then show ?thesis
    proof (cases "parent_pc s")
      case R_Stdin
      obtain c where t: "t = s\<lparr>stdin := tl (stdin s), parent_c := c, parent_pc := (if c = newline then R_Close else R_Send)\<rparr>"
        using parent_steps R_Stdin by (auto simp: parent_main_def Let_def)
      then show ?thesis using R_Stdin rt(2,3) by (auto simp: rank_defs)
    next
      case R_Receive
      then have "c2p_writers s" using assms(1) by (auto simp: pipe_inv_def Let_def c2p_writers_def child_has_def waiting_child_def)
      then have "pipe_c2p s \<noteq> []" "t = s\<lparr>pipe_c2p := tl (pipe_c2p s), parent_c := hd (pipe_c2p s), parent_pc := R_Print\<rparr>"
        using parent_steps R_Receive by (auto simp: parent_main_def split: list.splits)
      then show ?thesis using R_Receive r' by (simp add: rank_defs)
    next
      case R_Send
      then have "p2c_readers s" using assms(1) by (auto simp: pipe_inv_def Let_def p2c_readers_def child_has_def waiting_child_def)
      then have "t = s\<lparr>pipe_p2c := pipe_p2c s @ [parent_c s], parent_pc := R_Receive\<rparr>"
        using parent_steps R_Send by (simp add: parent_main_def)
      then show ?thesis using R_Send r' by (simp add: rank_defs)
    next
      case R_Print
      then have "t = s\<lparr>printed := printed s @ [parent_c s], parent_pc := R_Stdin\<rparr>" using parent_steps by (simp add: parent_main_def)
      then show ?thesis using R_Print r' by (simp add: rank_defs)
    qed (auto simp: parent_main_def rank_defs split: if_splits)
  next
    case child_steps
    then show ?thesis
    proof (cases "child_pc s")
      case K_Read
      show ?thesis
      proof (cases "pipe_p2c s")
        case Nil
        then have "\<not> parent_has s" "t = s\<lparr>child_pc := K_Close\<rparr>"
          using child_steps K_Read by (simp_all add: child_main_def p2c_writers_def split: if_splits)
        then show ?thesis using K_Read Nil by (cases "parent_pc s") (simp_all add: parent_has_def rank_defs)
      next
        case (Cons x rest)
        then have "t = s\<lparr>pipe_p2c := rest, child_c := capital x, child_pc := K_Write\<rparr>" using child_steps K_Read by (simp add: child_main_def)
        then show ?thesis using K_Read Cons by (cases "parent_pc s") (simp_all add: rank_defs)
      qed
    next
      case K_Write
      then have p: "parent_pc s = R_Receive" using assms(1) by (cases "parent_pc s") (simp_all add: pipe_inv_def Let_def waiting_child_def)
      then have "t = s\<lparr>pipe_c2p := pipe_c2p s @ [child_c s], child_pc := K_Read\<rparr>"
        using child_steps K_Write by (simp add: child_main_def c2p_readers_def parent_has_def)
      then show ?thesis using K_Write p r' by (simp add: rank_defs)
    next
      case K_Close
      then have t: "t = s\<lparr>child_pc := K_Return\<rparr>" using child_steps by (simp add: child_main_def)
      have "parent_pc s = R_Wait" using assms(1) K_Close by (cases "parent_pc s") (simp_all add: pipe_inv_def Let_def waiting_child_def)
      then show ?thesis using K_Close unfolding t by (simp add: rank_defs)
    next
      case K_Start
      then have "t = s\<lparr>child_pc := K_Read\<rparr>" using child_steps by (simp add: child_main_def)
      then show ?thesis using K_Start r' by (cases "parent_pc s") (simp_all add: rank_defs)
    qed (simp add: child_main_def)
  qed
qed

definition echo_inv :: "string \<Rightarrow> char \<Rightarrow> nat \<Rightarrow> pipes \<Rightarrow> bool" where
  "echo_inv input c0 m s \<longleftrightarrow> pipe_inv input c0 s \<and> ends_at input c0 m"

lemma echo_ended: "echo_inv input c0 m s \<Longrightarrow> parent_pc s = R_Return \<Longrightarrow> pipe_left m s = 0"
proof -
  assume i: "echo_inv input c0 m s" and r: "parent_pc s = R_Return"
  then have "length (printed s) = m" using rounds_left(3) [of input c0 s m] by (simp add: echo_inv_def)
  moreover have "child_pc s = K_Return" "pipe_p2c s = []" using i r by (simp_all add: echo_inv_def pipe_inv_def Let_def)
  ultimately show ?thesis using r by (simp add: rank_defs)
qed

interpretation echo: ending_protocol "\<lambda>s. s = pipes_init input c0 \<and> ends_at input c0 m" pipe_step
  "echo_inv input c0 m" "pipe_left m" "\<lambda>s. parent_pc s = R_Return" for input c0 m
proof unfold_locales
  show "echo_inv input c0 m s" if "s = pipes_init input c0 \<and> ends_at input c0 m" for s
    using that pipe_inv_init by (simp add: echo_inv_def)
  show "echo_inv input c0 m t" if "echo_inv input c0 m s" "pipe_step s t" for s t
    using that pipe_inv_step unfolding echo_inv_def by blast
  show "pipe_left m t < pipe_left m s" if "echo_inv input c0 m s" "pipe_step s t" for s t
    using that pipe_left_step [of input c0 s m t] by (simp add: echo_inv_def)
  show "\<exists>t. pipe_step s t" if "echo_inv input c0 m s" "parent_pc s \<noteq> R_Return" for s
    using that pipe_enabled unfolding echo_inv_def by blast
qed (rule echo_ended)

subsection \<open>Properties\<close>

lemma takeWhile_shorter: "x \<in> set xs \<Longrightarrow> length (takeWhile (\<lambda>y. y \<noteq> x) xs) < length xs"
  by (induction xs) auto

lemma ends_at_newline:
  assumes "newline \<in> set input"
  shows "ends_at input c0 (length (takeWhile (\<lambda>c. c \<noteq> newline) input))"
proof -
  let ?m = "length (takeWhile (\<lambda>c. c \<noteq> newline) input)"
  have m: "?m < length input" using assms by (rule takeWhile_shorter)
  moreover have "input ! ?m = newline" using nth_length_takeWhile [OF m] by simp
  moreover have "input ! k \<noteq> newline" if "k < ?m" for k
    using that nth_mem [of k "takeWhile (\<lambda>c. c \<noteq> newline) input"] by (auto simp: takeWhile_nth dest: set_takeWhileD)
  ultimately show ?thesis by (simp add: ends_at_def nth_char_input)
qed

lemma run_length:
  "pipe_inv input c0 s \<Longrightarrow> ends_at input c0 m \<Longrightarrow> (pipe_step ^^ k) s t \<Longrightarrow> pipe_inv input c0 t \<and> pipe_left m t + k = pipe_left m s"
proof (induction k arbitrary: t)
  case (Suc k)
  then obtain u where "(pipe_step ^^ k) s u" "pipe_step u t" by auto
  then show ?case using Suc pipe_inv_step pipe_left_step [of input c0 u m t] by fastforce
qed simp



text \<open>At the end of an input without a newline the last character goes round for ever.\<close>

lemma capital_code: "(of_char (capital c) :: nat) = (if 97 \<le> (of_char c :: nat) \<and> (of_char c :: nat) \<le> 122 then of_char c - 32 else of_char c)"
proof -
  have "(of_char c :: nat) < 256" by (metis mod_less_divisor of_char_mod_256 zero_less_numeral)
  then show ?thesis by (auto simp: capital_def)
qed

lemma capital_capital [simp]: "capital (capital c) = capital c"
proof -
  have "(of_char (capital (capital c)) :: nat) = of_char (capital c)" by (auto simp: capital_code)
  then show ?thesis by (simp only: of_char_eq_iff)
qed

lemma capital_newline [simp]: "capital c = newline \<longleftrightarrow> c = newline"
proof -
  have "capital c = newline \<longleftrightarrow> (of_char (capital c) :: nat) = of_char newline" by (simp only: of_char_eq_iff)
  also have "\<dots> \<longleftrightarrow> (of_char c :: nat) = of_char newline" by (auto simp: capital_code newline_def)
  finally show ?thesis by simp
qed

lemma no_newline: "newline \<notin> set input \<Longrightarrow> c0 \<noteq> newline \<Longrightarrow> nth_char input c0 n \<noteq> newline"
  by (induction n) (auto simp: in_set_conv_nth hd_conv_nth)

text \<open>The state before the \<open>n\<close>-th round; six system calls lead to the next.\<close>

definition at_round :: "string \<Rightarrow> char \<Rightarrow> nat \<Rightarrow> pipes" where
  "at_round input c0 n = \<lparr>stdin = drop n input, parent_c = held input c0 n, parent_pc = R_Stdin, child_c = held input c0 n,
     child_pc = K_Read, pipe_p2c = [], pipe_c2p = [], printed = map (\<lambda>k. capital (nth_char input c0 k)) [0..<n]\<rparr>"

lemma next_round:
  assumes "nth_char input c0 n \<noteq> newline"
  shows "pipe_step\<^sup>*\<^sup>* (at_round input c0 n) (at_round input c0 (Suc n))"
proof -
  let ?s = "at_round input c0 n" and ?x = "nth_char input c0 n"
  let ?s1 = "?s\<lparr>stdin := drop (Suc n) input, parent_c := ?x, parent_pc := R_Send\<rparr>"
  let ?s2 = "?s1\<lparr>pipe_p2c := [?x], parent_pc := R_Receive\<rparr>"
  let ?s3 = "?s2\<lparr>pipe_p2c := [], child_c := capital ?x, child_pc := K_Write\<rparr>"
  let ?s4 = "?s3\<lparr>pipe_c2p := [capital ?x], child_pc := K_Read\<rparr>"
  let ?s5 = "?s4\<lparr>pipe_c2p := [], parent_c := capital ?x, parent_pc := R_Print\<rparr>"
  have "pipe_step ?s ?s1" using assms nth_char_read [of input c0 n]
    by (intro parent_steps, cases "drop n input") (simp_all add: parent_main_def at_round_def Let_def drop_Suc tl_drop [symmetric])
  moreover have "pipe_step ?s1 ?s2" by (intro parent_steps) (simp add: parent_main_def at_round_def p2c_readers_def child_has_def)
  moreover have "pipe_step ?s2 ?s3" by (intro child_steps) (simp add: child_main_def at_round_def)
  moreover have "pipe_step ?s3 ?s4" by (intro child_steps) (simp add: child_main_def at_round_def c2p_readers_def parent_has_def)
  moreover have "pipe_step ?s4 ?s5" by (intro parent_steps) (simp add: parent_main_def at_round_def)
  moreover have "pipe_step ?s5 (at_round input c0 (Suc n))"
    by (intro parent_steps) (simp add: parent_main_def at_round_def held_def)
  ultimately show ?thesis by (meson converse_rtranclp_into_rtranclp rtranclp.rtrancl_refl)
qed

lemma all_rounds:
  assumes "newline \<notin> set input" "c0 \<noteq> newline"
  shows "pipe_step\<^sup>*\<^sup>* (pipes_init input c0) (at_round input c0 n)"
proof (induction n)
  case 0
  have "pipe_step (pipes_init input c0) ((pipes_init input c0)\<lparr>parent_pc := R_Stdin\<rparr>)"
    by (intro parent_steps) (simp add: parent_main_def pipes_init_def)
  moreover have "pipe_step ((pipes_init input c0)\<lparr>parent_pc := R_Stdin\<rparr>) (at_round input c0 0)"
    by (intro child_steps) (simp add: child_main_def pipes_init_def at_round_def held_def)
  ultimately show ?case by (meson converse_rtranclp_into_rtranclp rtranclp.rtrancl_refl)
next
  case (Suc n)
  then show ?case using next_round no_newline [OF assms, of n] by (meson rtranclp_trans)
qed

interpretation rounds: invariant_system "\<lambda>s. s = pipes_init input c0" pipe_step "pipe_inv input c0" for input c0
  by unfold_locales (use pipe_inv_init pipe_inv_step in blast)+

text \<open>Remark: When the input ends without a newline the program never does: the parent takes no notice of the end and
  sends the character it has once more, so after the capitals of the input the last of them is printed over and
  over, as often as one likes, and some process can always go on.\<close>

theorem pipe_input_ends:
  assumes "newline \<notin> set input" "c0 \<noteq> newline"
  shows "(\<forall>s. pipe_step\<^sup>*\<^sup>* (pipes_init input c0) s \<longrightarrow> parent_pc s \<notin> {R_Close, R_Wait, R_Return} \<and> (\<exists>t. pipe_step s t) \<and>
      (\<forall>k<length (printed s). printed s ! k =
        (if k < length input then capital (input ! k) else if k = 0 then capital c0 else printed s ! (k - 1)))) \<and>
    (\<forall>n. \<exists>s. pipe_step\<^sup>*\<^sup>* (pipes_init input c0) s \<and> length (printed s) = n)"
proof (intro conjI allI impI)
  fix s assume r: "pipe_step\<^sup>*\<^sup>* (pipes_init input c0) s"
  have i: "pipe_inv input c0 s" using rounds.inv_rtranclp [OF r pipe_inv_init] .
  then show p: "parent_pc s \<notin> {R_Close, R_Wait, R_Return}" using no_newline [OF assms] by (auto simp: pipe_inv_def Let_def)
  then show "\<exists>t. pipe_step s t" using pipe_enabled [OF i] by blast
  fix k assume k: "k < length (printed s)"
  have o: "printed s ! j = capital (nth_char input c0 j)" if "j < length (printed s)" for j
  proof -
    have "printed s = map (\<lambda>k. capital (nth_char input c0 k)) [0..<length (printed s)]" using i by (simp add: pipe_inv_def Let_def)
    then show ?thesis using that by (metis (no_types, lifting) add_0 diff_zero nth_map_upt)
  qed
  show "printed s ! k = (if k < length input then capital (input ! k) else if k = 0 then capital c0 else printed s ! (k - 1))"
    using o [OF k] o [of "k - 1"] k by (cases k) (auto simp: nth_char_input hd_conv_nth)
next
  fix n show "\<exists>s. pipe_step\<^sup>*\<^sup>* (pipes_init input c0) s \<and> length (printed s) = n"
    using all_rounds [OF assms, of n] by (intro exI [of _ "at_round input c0 n"]) (simp add: at_round_def)
qed

theorem pipe_input_ends_witness:
  "\<exists>s. pipe_step\<^sup>*\<^sup>* (pipes_init ''a'' CHR ''?'') s \<and> length (printed s) = 3 \<and> printed s ! 2 = CHR ''A''"
proof -
  have c: "newline \<notin> set ''a''" "CHR ''?'' \<noteq> newline" "capital CHR ''a'' = CHR ''A''" by code_simp+
  obtain s where s: "pipe_step\<^sup>*\<^sup>* (pipes_init ''a'' CHR ''?'') s" "length (printed s) = 3"
    using pipe_input_ends [OF c(1,2)] by blast
  then have "\<forall>k<3. printed s ! k = (if k < 1 then CHR ''A'' else printed s ! (k - 1))"
    using pipe_input_ends [OF c(1,2)] c(3) by auto
  then have "printed s ! 2 = CHR ''A''" by simp
  then show ?thesis using s by blast
qed

end
