(* ===== verification/SockUn.thy ===== *)
theory SockUn
  imports Prelude
begin

text \<open>
  Datagrams over a Unix domain socket (\<open>src/tlpi/sock-un.c\<close>): the client sends sixteen messages of growing length and an empty one,
  the server reads at most eight bytes of each.

  \<^item> One step is one system call. A datagram is kept whole in the queue of the socket, which holds \<open>room\<close> of them; \<open>write\<close> waits
    while it is full, \<open>read\<close> while it is empty. What a read does not fetch of a datagram is lost.
  \<^item> Creating, binding and connecting the sockets, and the start of the client, succeed and come first.
\<close>

subsection \<open>Both programs\<close>

text \<open>The message of round \<open>i\<close>: \<open>i\<close> times the \<open>i\<close>-th letter.\<close>

definition datagram :: "nat \<Rightarrow> string" where
  "datagram i = replicate i (char_of ((of_char CHR ''a'' :: nat) + i - 1))"

datatype sock_client_at = Sock_Send nat | Sock_Empty | Sock_Exit

datatype sock_server_at = Sock_Read | Sock_Wait | Sock_Done

record sock =
  sock_client :: sock_client_at
  sock_server :: sock_server_at
  queue :: "string list"
  sock_out :: "string list"

definition sock_init :: sock where
  "sock_init = \<lparr>sock_client = Sock_Send 1, sock_server = Sock_Read, queue = [], sock_out = []\<rparr>"

definition sock_client_step :: "nat \<Rightarrow> sock \<Rightarrow> sock option" where
  "sock_client_step room s =
     (case sock_client s of
        Sock_Send i \<Rightarrow> if length (queue s) < room
          then Some (s\<lparr>queue := queue s @ [datagram i], sock_client := (if i < 16 then Sock_Send (i + 1) else Sock_Empty)\<rparr>) else None
      | Sock_Empty \<Rightarrow> if length (queue s) < room then Some (s\<lparr>queue := queue s @ [[]], sock_client := Sock_Exit\<rparr>) else None
      | Sock_Exit \<Rightarrow> None)"

text \<open>The loop of the server ends at an empty datagram; then it waits for the client.\<close>

definition sock_server_step :: "sock \<Rightarrow> sock option" where
  "sock_server_step s =
     (case sock_server s of
        Sock_Read \<Rightarrow> (case queue s of [] \<Rightarrow> None
          | d # rest \<Rightarrow> let got = take 8 d
              in Some (if got \<noteq> [] then s\<lparr>queue := rest, sock_out := sock_out s @ [got]\<rparr> else s\<lparr>queue := rest, sock_server := Sock_Wait\<rparr>))
      | Sock_Wait \<Rightarrow> if sock_client s = Sock_Exit then Some (s\<lparr>sock_server := Sock_Done\<rparr>) else None
      | Sock_Done \<Rightarrow> None)"

inductive sock_step :: "nat \<Rightarrow> sock \<Rightarrow> sock \<Rightarrow> bool" for room where
  client_steps: "sock_client_step room s = Some t \<Longrightarrow> sock_step room s t"
| server_steps: "sock_server_step s = Some t \<Longrightarrow> sock_step room s t"

subsection \<open>Invariant\<close>

text \<open>All messages, and how many of them the client has sent.\<close>

definition messages :: "string list" where
  "messages = map datagram [1..<17] @ [[]]"

fun sent_of :: "sock_client_at \<Rightarrow> nat" where
  "sent_of (Sock_Send i) = i - 1" | "sent_of Sock_Empty = 16" | "sent_of Sock_Exit = 17"

fun client_ok :: "sock_client_at \<Rightarrow> bool" where
  "client_ok (Sock_Send i) = (1 \<le> i \<and> i \<le> 16)" | "client_ok _ = True"

text \<open>\<open>n\<close> messages have been read.\<close>

definition read_so_far :: "nat \<Rightarrow> sock \<Rightarrow> bool" where
  "read_so_far n s \<longleftrightarrow> client_ok (sock_client s) \<and> n \<le> sent_of (sock_client s) \<and> queue s = drop n (take (sent_of (sock_client s)) messages) \<and>
     sock_out s = map (take 8) (take (min n 16) messages) \<and> (sock_server s = Sock_Read \<longleftrightarrow> n \<noteq> 17)"

definition sock_inv :: "sock \<Rightarrow> bool" where
  "sock_inv s \<longleftrightarrow> (\<exists>n. read_so_far n s)"

definition sock_left :: "sock \<Rightarrow> nat" where
  "sock_left s = 2 * (17 - sent_of (sock_client s)) + length (queue s) + (if sock_server s = Sock_Done then 0 else 1)"

lemma messages_length: "length messages = 17"
  by (simp add: messages_def)

lemma messages_nth: "k < 16 \<Longrightarrow> messages ! k = datagram (k + 1)" "messages ! 16 = []"
  by (simp_all add: messages_def nth_append)

lemma datagram_Nil: "datagram i = [] \<longleftrightarrow> i = 0"
  by (simp add: datagram_def)

lemma sent_le: "client_ok p \<Longrightarrow> sent_of p \<le> 17"
  by (cases p) auto

lemma client_sends:
  assumes "read_so_far n s" "sock_client_step room s = Some t"
  shows "read_so_far n t" "sock_left t + 1 = sock_left s"
proof -
  let ?c = "sent_of (sock_client s)"
  have c: "?c < 17" "length (queue s) < room" "queue t = queue s @ [messages ! ?c]" "sent_of (sock_client t) = Suc ?c" "client_ok (sock_client t)"
      "sock_out t = sock_out s" "sock_server t = sock_server s"
    using assms messages_nth by (auto simp: sock_client_step_def read_so_far_def split: sock_client_at.splits if_splits)
  have "take (Suc ?c) messages = take ?c messages @ [messages ! ?c]" using c(1) by (simp add: take_Suc_conv_app_nth messages_length)
  then show "read_so_far n t" using assms(1) c by (auto simp: read_so_far_def messages_length)
  show "sock_left t + 1 = sock_left s" using c by (simp add: sock_left_def)
qed

lemma server_reads:
  assumes "read_so_far n s" "sock_server_step s = Some t"
  shows "sock_inv t" "sock_left t + 1 = sock_left s"
proof -
  let ?c = "sent_of (sock_client s)"
  have "sock_inv t \<and> sock_left t + 1 = sock_left s"
  proof (cases "sock_server s")
    case Sock_Read
    then obtain d rest where q: "queue s = d # rest" using assms(2) by (auto simp: sock_server_step_def split: list.splits)
    have "drop n (take ?c messages) \<noteq> []" "?c \<le> 17" using assms(1) q sent_le [of "sock_client s"] by (auto simp: read_so_far_def)
    then have n: "n < ?c" "?c \<le> 17" "n < 17" by (auto simp: messages_length)
    have "drop n (take ?c messages) = messages ! n # drop (Suc n) (take ?c messages)"
      using n by (subst Cons_nth_drop_Suc [symmetric]) (simp_all add: messages_length)
    then have d: "d = messages ! n" "rest = drop (Suc n) (take ?c messages)" using q assms(1) by (auto simp: read_so_far_def)
    show ?thesis
    proof (cases "n = 16")
      case True
      then have "d = []" using d(1) messages_nth(2) by simp
      then have t: "t = s\<lparr>queue := rest, sock_server := Sock_Wait\<rparr>" using assms(2) Sock_Read q by (simp add: sock_server_step_def)
      have "read_so_far 17 t" using assms(1) d(2) n True unfolding t by (auto simp: read_so_far_def)
      then show ?thesis using q Sock_Read unfolding t by (auto simp: sock_inv_def sock_left_def)
    next
      case False
      then have dn: "d = datagram (n + 1)" using d(1) messages_nth(1) [of n] n(3) by simp
      then have t: "t = s\<lparr>queue := rest, sock_out := sock_out s @ [take 8 d]\<rparr>"
        using assms(2) Sock_Read q datagram_Nil [of "n + 1"] by (simp add: sock_server_step_def Let_def)
      have "take (min (Suc n) 16) messages = take (min n 16) messages @ [d]"
        using False n(3) d(1) by (simp add: min_def take_Suc_conv_app_nth messages_length)
      then have "read_so_far (Suc n) t" using assms(1) d(2) n False Sock_Read unfolding t by (auto simp: read_so_far_def)
      then show ?thesis using q Sock_Read unfolding t by (auto simp: sock_inv_def sock_left_def)
    qed
  next
    case Sock_Wait
    then have t: "t = s\<lparr>sock_server := Sock_Done\<rparr>" using assms(2) by (simp add: sock_server_step_def split: if_splits)
    have "read_so_far n t" using assms(1) Sock_Wait unfolding t by (simp add: read_so_far_def)
    then show ?thesis using Sock_Wait unfolding t by (auto simp: sock_inv_def sock_left_def)
  qed (use assms(2) in \<open>simp add: sock_server_step_def\<close>)
  then show "sock_inv t" "sock_left t + 1 = sock_left s" by auto
qed

lemma sock_step_inv: "sock_inv s \<Longrightarrow> sock_step room s t \<Longrightarrow> sock_inv t \<and> sock_left t + 1 = sock_left s"
  by (erule sock_step.cases) (use client_sends server_reads in \<open>unfold sock_inv_def, blast\<close>)+

lemma sock_init_inv: "sock_inv sock_init"
  unfolding sock_inv_def by (rule exI [of _ 0]) (simp add: read_so_far_def sock_init_def)

lemma all_read:
  assumes "sock_inv s" "sock_server s \<noteq> Sock_Read"
  shows "sock_client s = Sock_Exit \<and> queue s = [] \<and> sock_out s = map (take 8) (map datagram [1..<17])"
proof -
  have r: "read_so_far 17 s" using assms by (auto simp: sock_inv_def read_so_far_def)
  then have "sent_of (sock_client s) = 17" using sent_le [of "sock_client s"] by (simp add: read_so_far_def)
  then have "sock_client s = Sock_Exit" using r by (cases "sock_client s") (auto simp: read_so_far_def)
  then show ?thesis using r by (simp add: read_so_far_def messages_def)
qed

lemma sock_enabled:
  assumes "sock_inv s" "0 < room" "sock_server s \<noteq> Sock_Done"
  shows "\<exists>t. sock_step room s t"
proof -
  have "sock_client_step room s \<noteq> None \<or> sock_server_step s \<noteq> None"
  proof (cases "sock_server s = Sock_Read")
    case True
    show ?thesis
    proof (cases "queue s")
      case Nil
      obtain n where n: "read_so_far n s" using assms(1) by (auto simp: sock_inv_def)
      have "sock_client s \<noteq> Sock_Exit"
      proof
        assume "sock_client s = Sock_Exit"
        then have "drop n messages = []" "n \<noteq> 17" "n \<le> 17" using n True Nil by (auto simp: read_so_far_def messages_length)
        then show False by (simp add: messages_length)
      qed
      then show ?thesis using Nil assms(2) by (cases "sock_client s") (simp_all add: sock_client_step_def)
    qed (simp add: sock_server_step_def True Let_def)
  next
    case False
    then have "sock_server s = Sock_Wait" using assms(3) by (cases "sock_server s") auto
    then show ?thesis using all_read [OF assms(1)] by (simp add: sock_server_step_def)
  qed
  then show ?thesis using sock_step.intros by blast
qed

interpretation sock: ending_protocol "\<lambda>s. s = sock_init \<and> 0 < room" "sock_step room" "\<lambda>s. sock_inv s \<and> 0 < room" sock_left
  "\<lambda>s. sock_server s = Sock_Done" for room
proof unfold_locales
  show "sock_inv s \<and> 0 < room" if "s = sock_init \<and> 0 < room" for s using that sock_init_inv by blast
  show "sock_inv t \<and> 0 < room" if "sock_inv s \<and> 0 < room" "sock_step room s t" for s t using that sock_step_inv by blast
  show "sock_left t < sock_left s" if "sock_inv s \<and> 0 < room" "sock_step room s t" for s t
    using that sock_step_inv [of s room t] by auto
  show "\<exists>t. sock_step room s t" if "sock_inv s \<and> 0 < room" "sock_server s \<noteq> Sock_Done" for s using that sock_enabled by blast
  show "sock_left s = 0" if "sock_inv s \<and> 0 < room" "sock_server s = Sock_Done" for s
    using that all_read [of s] by (simp add: sock_left_def)
qed

subsection \<open>Properties\<close>

text \<open>Remark: Whatever the socket holds and whoever runs first, the server prints the first eight characters of every message, in order, loses the rest
  of the longer ones, and both programs end after exactly 35 system calls.\<close>

theorem datagrams_truncated:
  assumes "0 < room" "(sock_step room ^^ n) sock_init s"
  shows "n \<le> 35 \<and> ((\<exists>t. sock_step room s t) \<longleftrightarrow> n < 35) \<and>
    (\<exists>k. sock_out s = map (\<lambda>i. take 8 (datagram i)) [1..<k + 1] \<and> (n = 35 \<longrightarrow> k = 16 \<and> sock_client s = Sock_Exit \<and> sock_server s = Sock_Done))"
proof -
  have left: "sock_inv s \<and> sock_left s + n = 35"
    using assms(2)
  proof (induction n arbitrary: s)
    case 0
    then have "s = sock_init" by simp
    then show ?case using sock_init_inv by (simp add: sock_left_def) (simp add: sock_init_def)
  next
    case (Suc n)
    then obtain u where "(sock_step room ^^ n) sock_init u" "sock_step room u s" by auto
    then show ?case using Suc.IH sock_step_inv [of u room s] by fastforce
  qed
  then have i: "sock_inv s" by blast
  have e: "n = 35 \<longleftrightarrow> sock_server s = Sock_Done"
    using left all_read [OF i] by (auto simp: sock_left_def split: if_splits)
  obtain r where r: "read_so_far r s" using i by (auto simp: sock_inv_def)
  have "take m messages = map datagram [1..<m + 1]" if "m \<le> 16" for m
    using that by (simp add: messages_def take_map)
  then have o: "sock_out s = map (\<lambda>i. take 8 (datagram i)) [1..<min r 16 + 1]" using r by (simp add: read_so_far_def)
  have "(\<exists>t. sock_step room s t) \<longleftrightarrow> sock_server s \<noteq> Sock_Done"
    using sock.ends(2) [where step' = "sock_step room" and room = room and s = sock_init and n = n and t = s] assms by blast
  moreover have "r = 17" if "n = 35" using that e r by (simp add: read_so_far_def)
  ultimately show ?thesis
    using o left e all_read [OF i] by (intro conjI exI [of _ "min r 16"]) auto
qed

theorem datagrams_truncated_witness:
  "\<exists>s. (sock_step 1 ^^ 1) sock_init s \<and> queue s = [''a''] \<and> (\<exists>t. sock_step 1 s t)"
proof -
  let ?s = "sock_init\<lparr>queue := [datagram 1], sock_client := Sock_Send 2\<rparr>"
  have "sock_step 1 sock_init ?s" by (rule sock_step.client_steps) (simp add: sock_client_step_def sock_init_def)
  then have r: "(sock_step 1 ^^ 1) sock_init ?s" by auto
  have "datagram 1 = ''a''" by code_simp
  then show ?thesis using datagrams_truncated [OF _ r] r by (intro exI [of _ ?s]) simp
qed

end
