(* ===== verification/MappedFiles.thy ===== *)
theory MappedFiles
  imports OpenFiles
begin

text \<open>
  Files in memory: writing through a mapping against writing with system calls (\<open>src/mmap-write.c\<close>), and a shared memory object that
  a parent and a child check and fill (\<open>src/tlpi/shm.c\<close>).

  \<^item> A mapping is the contents of its file; a store outside it, or an \<open>int\<close> that overflows, is undefined, \<open>None\<close>. Creating, resizing and mapping
    files succeed; what \<open>write\<close> and the synchronising calls answer is an argument, but \<open>fdatasync\<close> after \<open>write\<close> succeeds.
  \<^item> The clock is left out. The writing half uses the open files of \<open>OpenFiles\<close>.
\<close>

subsection \<open>mmap-write.c\<close>

definition buf_bytes :: string where "buf_bytes = replicate 1024 CHR ''U''"

text \<open>The arguments; \<open>Inl\<close> is the text printed before the exit.\<close>

definition mmap_args :: "string list \<Rightarrow> (string + nat \<times> nat) option" where
  "mmap_args argv =
     (if length argv = 3 then do {
        each \<leftarrow> atoi (argv ! 1); count \<leftarrow> atoi (argv ! 2);
        Some (if each < 1024 \<or> count < 1 then Inl ''invalid argument'' else Inr (nat each, nat count)) }
      else Some (Inr (1024 * 1024, 512)))"

text \<open>\<open>_size * _count\<close> as an \<open>int\<close>: the length of both files.\<close>

definition file_size :: "nat \<Rightarrow> nat \<Rightarrow> nat option" where
  "file_size each count = (if each * count < 2 ^ 31 then Some (each * count) else None)"

text \<open>\<open>memcpy(addr2 + sz, buf, sizeof(buf))\<close> until the next piece would go past \<open>_size\<close>: the mapping and the final \<open>sz\<close>.\<close>

function copy_pieces :: "nat \<Rightarrow> nat \<Rightarrow> nat \<Rightarrow> string \<Rightarrow> (string \<times> nat) option" where
  "copy_pieces each addr2 sz mem =
     (if sz + 1024 \<le> each
      then if addr2 + sz + 1024 \<le> length mem then copy_pieces each addr2 (sz + 1024) (overwrite mem (addr2 + sz) buf_bytes) else None
      else Some (mem, sz))"
  by auto
termination by (relation "measure (\<lambda>(each, addr2, sz, mem). each - sz)") auto

declare copy_pieces.simps [simp del]

text \<open>The rounds of the first half; \<open>synced\<close> says whether \<open>msync\<close> and \<open>fdatasync\<close> succeed in each of them. The left side is the exit.\<close>

fun mmap_rounds :: "nat \<Rightarrow> bool list \<Rightarrow> nat \<Rightarrow> string \<Rightarrow> (string + string) option" where
  "mmap_rounds each [] addr2 mem = Some (Inr mem)"
| "mmap_rounds each (ok # synced) addr2 mem =
     do { (mem, sz) \<leftarrow> copy_pieces each addr2 0 mem;
          if ok then mmap_rounds each synced (addr2 + sz) mem else Some (Inl ''sync'') }"

text \<open>The second half: \<open>answers\<close> are what the calls of \<open>write\<close> return, at most what they were given. An answer that is not positive
  aborts, and \<open>Waits\<close> means that there are no more answers.\<close>

fun write_pieces :: "nat \<Rightarrow> int list \<Rightarrow> nat \<Rightarrow> open_files \<Rightarrow> (open_files \<times> int list) option run" where
  "write_pieces each answers sz fs =
     (if sz + 1024 \<le> each
      then (case answers of [] \<Rightarrow> Waits
            | a # rest \<Rightarrow> if a \<le> 0 then Ends None else write_pieces each rest (sz + nat a) (write_to 0 (take (nat a) buf_bytes) fs))
      else Ends (Some (fs, answers)))"

declare write_pieces.simps [simp del]

fun write_rounds :: "nat \<Rightarrow> nat \<Rightarrow> int list \<Rightarrow> open_files \<Rightarrow> open_files option run" where
  "write_rounds each 0 answers fs = Ends (Some fs)"
| "write_rounds each (Suc n) answers fs =
     (case write_pieces each answers 0 fs of
        Ends (Some (fs, rest)) \<Rightarrow> write_rounds each n rest fs
      | Ends None \<Rightarrow> Ends None | Waits \<Rightarrow> Waits | Undefined \<Rightarrow> Undefined)"

definition resized :: "nat \<Rightarrow> open_files" where
  "resized n = (truncated False)\<lparr>contents := replicate n NUL\<rparr>"

text \<open>Both files before they are removed.\<close>

definition main_mmap_write :: "string list \<Rightarrow> bool list \<Rightarrow> int list \<Rightarrow> (string + string \<times> string option run) option" where
  "main_mmap_write argv synced answers =
     do { args \<leftarrow> mmap_args argv;
          (case args of Inl msg \<Rightarrow> Some (Inl msg)
           | Inr (each, count) \<Rightarrow>
               do { n \<leftarrow> file_size each count;
                    mapped \<leftarrow> mmap_rounds each (take count synced) 0 (replicate n NUL);
                    (case mapped of Inl msg \<Rightarrow> Some (Inl msg)
                     | Inr mem \<Rightarrow> Some (Inr (mem,
                         case write_rounds each count answers (resized n) of
                           Ends r \<Rightarrow> Ends (map_option contents r) | Waits \<Rightarrow> Waits | Undefined \<Rightarrow> Undefined))) }) }"

subsection \<open>shm.c\<close>

definition shm_sz :: nat where "shm_sz = 65536"

text \<open>What the child prints and leaves, and what the parent prints; an assertion that fails is \<open>None\<close>. The object may have
  been there before, with anything in it.\<close>

definition shm_child :: "string \<Rightarrow> (string \<times> string) option" where
  "shm_child mem = (if \<forall>c \<in> set mem. c = CHR ''A'' then Some (''A ok'', replicate shm_sz CHR ''B'') else None)"

definition shm_main :: "string \<Rightarrow> string list option" where
  "shm_main old =
     do { mem \<leftarrow> Some (take shm_sz (old @ replicate (shm_sz - length old) NUL));
          mem \<leftarrow> Some (overwrite mem 0 (replicate shm_sz CHR ''A''));
          (out, mem) \<leftarrow> shm_child mem;
          if \<forall>c \<in> set mem. c = CHR ''B'' then Some [out, ''B ok''] else None }"

subsection \<open>Both halves fill a file with the same bytes\<close>

text \<open>What a round fills: the whole pieces of 1024 bytes.\<close>

definition piece_bytes :: "nat \<Rightarrow> nat" where
  "piece_bytes each = each div 1024 * 1024"

definition filled :: "nat \<Rightarrow> nat \<Rightarrow> string" where
  "filled k n = replicate k CHR ''U'' @ replicate (n - k) NUL"

lemma filled_overwrite:
  assumes "k + j \<le> n"
  shows "overwrite (filled k n) k (replicate j CHR ''U'') = filled (k + j) n"
  using assms by (simp add: overwrite_def filled_def replicate_add)

lemma length_filled [simp]: "k \<le> n \<Longrightarrow> length (filled k n) = n"
  by (simp add: filled_def)

lemma piece_bytes_le: "piece_bytes each \<le> each"
  by (simp add: piece_bytes_def)

lemma pieces_le: "1024 * i + 1024 \<le> 1024 * (m::nat) \<longleftrightarrow> Suc i \<le> m"
  by linarith

lemma one_more_piece: "1024 * i + 1024 \<le> each \<longleftrightarrow> 1024 * i + 1024 \<le> piece_bytes each"
proof -
  have "Suc i \<le> each div 1024 \<longleftrightarrow> Suc i * 1024 \<le> each" by (rule less_eq_div_iff_mult_less_eq) simp
  moreover have "Suc i * 1024 = 1024 * i + 1024" by simp
  ultimately show ?thesis unfolding piece_bytes_def mult.commute [of _ 1024] pieces_le by (simp only: mult.commute)
qed

lemma last_piece: "\<not> 1024 * i + 1024 \<le> each \<Longrightarrow> 1024 * i \<le> piece_bytes each \<Longrightarrow> piece_bytes each = 1024 * i"
  using one_more_piece [of i each] unfolding piece_bytes_def mult.commute [of _ 1024] pieces_le by simp

lemma copy_pieces_filled:
  assumes "addr2 + piece_bytes each \<le> n" "sz = 1024 * i" "sz \<le> piece_bytes each"
  shows "copy_pieces each addr2 sz (filled (addr2 + sz) n) = Some (filled (addr2 + piece_bytes each) n, piece_bytes each)"
  using assms
proof (induction "each - sz" arbitrary: sz i rule: less_induct)
  case less
  show ?case
  proof (cases "sz + 1024 \<le> each")
    case True
    then have le: "sz + 1024 \<le> piece_bytes each" using one_more_piece [of i each] less.prems(2) by simp
    have "overwrite (filled (addr2 + sz) n) (addr2 + sz) buf_bytes = filled (addr2 + (sz + 1024)) n"
      using filled_overwrite [of "addr2 + sz" 1024 n] le less.prems(1) by (simp add: buf_bytes_def add.assoc)
    moreover have "copy_pieces each addr2 (sz + 1024) (filled (addr2 + (sz + 1024)) n)
        = Some (filled (addr2 + piece_bytes each) n, piece_bytes each)"
      by (rule less.hyps [of "sz + 1024" "Suc i"]) (use True le less.prems in simp_all)
    moreover have "addr2 + sz + 1024 \<le> n" using le less.prems(1) by simp
    ultimately show ?thesis using True by (subst copy_pieces.simps) (simp add: add.assoc)
  next
    case False
    then have "piece_bytes each = sz" using less.prems(2,3) last_piece by simp
    then show ?thesis using False by (subst copy_pieces.simps) simp
  qed
qed

lemma mmap_rounds_filled:
  "addr2 + length synced * piece_bytes each \<le> n \<Longrightarrow>
   mmap_rounds each synced addr2 (filled addr2 n) =
     Some (if False \<in> set synced then Inl ''sync'' else Inr (filled (addr2 + length synced * piece_bytes each) n))"
proof (induction synced arbitrary: addr2)
  case (Cons ok synced)
  have "copy_pieces each addr2 0 (filled addr2 n) = Some (filled (addr2 + piece_bytes each) n, piece_bytes each)"
    using copy_pieces_filled [of addr2 each n 0 0] Cons.prems by simp
  then show ?case using Cons.IH [of "addr2 + piece_bytes each"] Cons.prems by (simp add: algebra_simps)
qed simp

definition filled_files :: "nat \<Rightarrow> nat \<Rightarrow> open_files" where
  "filled_files k n = \<lparr>contents = filled k n, file_offset = (\<lambda>_. 0)(0 := k), appends = (\<lambda>_. False)\<rparr>"

lemma write_filled:
  "k + j \<le> n \<Longrightarrow> j \<le> 1024 \<Longrightarrow> write_to 0 (take j buf_bytes) (filled_files k n) = filled_files (k + j) n"
  by (auto simp: write_to_def Let_def filled_files_def put_at_def filled_def buf_bytes_def replicate_add)

lemma whole_pieces:
  assumes "k + piece_bytes each \<le> n + sz" "sz = 1024 * i" "sz \<le> piece_bytes each"
    and "length answers = (piece_bytes each - sz) div 1024 + m" "set answers \<subseteq> {1024}"
  shows "write_pieces each answers sz (filled_files k n) =
         Ends (Some (filled_files (k + (piece_bytes each - sz)) n, replicate m 1024))"
  using assms
proof (induction answers arbitrary: sz i k)
  case Nil
  then have m: "m = 0" and "(piece_bytes each - sz) div 1024 = 0" by auto
  then have "piece_bytes each < sz + 1024" by (simp add: div_eq_0_iff)
  then have "\<not> 1024 * i + 1024 \<le> each" using one_more_piece [of i each] Nil.prems(2) by simp
  with last_piece [OF this] show ?case using m Nil.prems(2,3) by (subst write_pieces.simps) simp
next
  case (Cons a rest)
  then have a: "a = 1024" "set rest \<subseteq> {1024}" by auto
  show ?case
  proof (cases "sz + 1024 \<le> each")
    case True
    then have le: "sz + 1024 \<le> piece_bytes each" using one_more_piece [of i each] Cons.prems(2) by simp
    then have d: "(piece_bytes each - sz) div 1024 = Suc ((piece_bytes each - (sz + 1024)) div 1024)"
      by (simp add: le_div_geq)
    have "write_pieces each rest (sz + 1024) (filled_files (k + 1024) n) =
         Ends (Some (filled_files (k + 1024 + (piece_bytes each - (sz + 1024))) n, replicate m 1024))"
      by (rule Cons.IH [of _ _ "Suc i"]) (use Cons.prems le a d in simp_all)
    then show ?thesis using True le Cons.prems(1) a write_filled [of k 1024 n] by (subst write_pieces.simps) simp
  next
    case False
    then have sz: "piece_bytes each = sz" using Cons.prems(2,3) last_piece by simp
    then have "length (a # rest) = m" using Cons.prems(4) by simp
    then have "a # rest = replicate m 1024" by (rule replicate_eqI) (use a in auto)
    then show ?thesis using False sz by (subst write_pieces.simps) simp
  qed
qed

lemma write_rounds_filled:
  "k + count * piece_bytes each \<le> n \<Longrightarrow>
   write_rounds each count (replicate (count * (piece_bytes each div 1024)) 1024) (filled_files k n) =
     Ends (Some (filled_files (k + count * piece_bytes each) n))"
proof (induction count arbitrary: k)
  case (Suc count)
  have "write_pieces each (replicate (Suc count * (piece_bytes each div 1024)) 1024) 0 (filled_files k n) =
      Ends (Some (filled_files (k + piece_bytes each) n, replicate (count * (piece_bytes each div 1024)) 1024))"
    using whole_pieces [of k each n 0 0 "replicate (Suc count * (piece_bytes each div 1024)) 1024" "count * (piece_bytes each div 1024)"] Suc.prems
    by (simp add: set_replicate_conv_if)
  then show ?case using Suc.IH [of "k + piece_bytes each"] Suc.prems by (simp add: algebra_simps)
qed simp

text \<open>Short writes: nothing but the bytes of the buffer, never past the end.\<close>

lemma short_pieces:
  assumes "set answers \<subseteq> {1..1024}" "sz \<le> each" "k + each \<le> n + sz"
    and "write_pieces each answers sz (filled_files k n) = Ends r"
  shows "\<exists>j rest. r = Some (filled_files (k + j) n, rest) \<and> set rest \<subseteq> {1..1024} \<and> sz + j \<le> each \<and> each < sz + j + 1024"
  using assms
proof (induction answers arbitrary: sz k)
  case Nil
  then have "\<not> sz + 1024 \<le> each" "r = Some (filled_files k n, [])"
    by (subst (asm) write_pieces.simps; simp split: if_splits)+
  then show ?case using Nil.prems by (intro exI [of _ 0] exI [of _ "[]"]) simp
next
  case (Cons a rest)
  show ?case
  proof (cases "sz + 1024 \<le> each")
    case True
    have a: "0 < a" "nat a \<le> 1024" "set rest \<subseteq> {1..1024}" using Cons.prems(1) by auto
    then have w: "write_to 0 (take (nat a) buf_bytes) (filled_files k n) = filled_files (k + nat a) n"
      using Cons.prems(3) True by (intro write_filled) auto
    have "write_pieces each rest (sz + nat a) (filled_files (k + nat a) n) = Ends r"
      using Cons.prems(4) True a(1) by (subst (asm) write_pieces.simps) (simp add: w)
    from Cons.IH [OF a(3) _ _ this] obtain j rest' where j: "r = Some (filled_files (k + nat a + j) n, rest')"
      "set rest' \<subseteq> {1..1024}" "sz + nat a + j \<le> each" "each < sz + nat a + j + 1024"
      using Cons.prems(3) True a by auto
    then show ?thesis by (intro exI [of _ "nat a + j"] exI [of _ rest']) (simp add: add.assoc)
  next
    case False
    then have "r = Some (filled_files k n, a # rest)" using Cons.prems(4) by (subst (asm) write_pieces.simps) simp
    then show ?thesis using False Cons.prems by (intro exI [of _ 0] exI [of _ "a # rest"]) simp
  qed
qed

lemma short_rounds:
  assumes "set answers \<subseteq> {1..1024}" "k + count * each \<le> n" "write_rounds each count answers (filled_files k n) = Ends r"
  shows "\<exists>j. r = Some (filled_files (k + j) n) \<and> j \<le> count * each \<and> count * each \<le> j + count * 1023"
  using assms
proof (induction count arbitrary: k answers)
  case (Suc count)
  obtain p where p: "write_pieces each answers 0 (filled_files k n) = Ends p"
    using Suc.prems(3) by (cases "write_pieces each answers 0 (filled_files k n)") auto
  then obtain j rest where j: "p = Some (filled_files (k + j) n, rest)" "set rest \<subseteq> {1..1024}" "j \<le> each" "each < j + 1024"
    using short_pieces [OF Suc.prems(1) _ _ p] Suc.prems(2) by auto
  then have "write_rounds each count rest (filled_files (k + j) n) = Ends r" using Suc.prems(3) p by simp
  from Suc.IH [OF j(2) _ this] obtain i where "r = Some (filled_files (k + j + i) n)" "i \<le> count * each" "count * each \<le> i + count * 1023"
    using Suc.prems(2) j(3) by auto
  then show ?case using j by (intro exI [of _ "j + i"]) (simp add: add.assoc)
qed simp

lemma resized_filled: "resized n = filled_files 0 n"
  by (auto simp: resized_def truncated_def filled_files_def filled_def)

lemma piece_count [simp]: "piece_bytes each div 1024 = each div 1024"
  by (simp add: piece_bytes_def)

lemma file_fits: "each * count < 2 ^ 31 \<Longrightarrow> file_size each count = Some (each * count)"
  by (simp add: file_size_def)

lemma rounds_fit: "count * piece_bytes each \<le> each * count"
  using mult_le_mono2 [OF piece_bytes_le, of count each] by (simp add: mult.commute)

lemma main_mapped:
  assumes "mmap_args argv = Some (Inr (each, count))" "each * count < 2 ^ 31"
  shows "main_mmap_write argv (replicate count True) answers =
    Some (Inr (filled (count * piece_bytes each) (each * count),
      case write_rounds each count answers (filled_files 0 (each * count)) of
        Ends r \<Rightarrow> Ends (map_option contents r) | Waits \<Rightarrow> Waits | Undefined \<Rightarrow> Undefined))"
proof -
  have "replicate (each * count) NUL = filled 0 (each * count)" by (simp add: filled_def)
  moreover have "mmap_rounds each (replicate count True) 0 (filled 0 (each * count)) =
      Some (Inr (filled (count * piece_bytes each) (each * count)))"
    using mmap_rounds_filled [of 0 "replicate count True" each "each * count"] rounds_fit [of count each] by simp
  ultimately show ?thesis
    using assms by (simp add: main_mmap_write_def file_fits resized_filled)
qed

lemma shm_both: "shm_main old = Some [''A ok'', ''B ok'']"
proof -
  have "overwrite (take shm_sz (old @ replicate (shm_sz - length old) NUL)) 0 (replicate shm_sz CHR ''A'') = replicate shm_sz CHR ''A''"
    by (simp add: overwrite_def)
  then show ?thesis by (simp add: shm_main_def shm_child_def)
qed

text \<open>Remark: Writing through the mapping and writing with \<open>write\<close>, where every call writes all it is given, leave the same file:
  in both halves each round fills the whole pieces of 1024 bytes, and the rest of the file keeps its zeros. When writes are short
  the second file is a prefix of the buffer's bytes too, longer than all but 1023 bytes of each round, and never past the end.
  With both numbers of the command line so big that their product is not an \<open>int\<close>, the behaviour is undefined. And parent and
  child of the shared memory test find what the other stored, whatever the object held before.\<close>

theorem mapped_and_written:
  assumes args: "mmap_args argv = Some (Inr (each, count))"
  shows "(if each * count < 2 ^ 31 then
       main_mmap_write argv (replicate count True) (replicate (count * (each div 1024)) 1024) =
         Some (Inr (filled (count * (each div 1024 * 1024)) (each * count),
           Ends (Some (filled (count * (each div 1024 * 1024)) (each * count))))) \<and>
       (\<forall>answers mem r. set answers \<subseteq> {1..1024} \<longrightarrow>
          main_mmap_write argv (replicate count True) answers = Some (Inr (mem, Ends r)) \<longrightarrow>
          (\<exists>j. r = Some (filled j (each * count)) \<and> j \<le> each * count \<and> each * count \<le> j + count * 1023))
     else \<forall>synced answers. main_mmap_write argv synced answers = None) \<and>
     shm_main old = Some [''A ok'', ''B ok'']"
proof (cases "each * count < 2 ^ 31")
  case True
  have full: "write_rounds each count (replicate (count * (each div 1024)) 1024) (filled_files 0 (each * count)) =
      Ends (Some (filled_files (count * piece_bytes each) (each * count)))"
    using write_rounds_filled [of 0 count each "each * count"] rounds_fit [of count each] by simp
  have short: "\<exists>j. r = Some (filled j (each * count)) \<and> j \<le> each * count \<and> each * count \<le> j + count * 1023"
    if a: "set answers \<subseteq> {1..1024}"
      and m: "main_mmap_write argv (replicate count True) answers = Some (Inr (mem, Ends r))" for answers mem r
  proof -
    obtain q where q: "write_rounds each count answers (filled_files 0 (each * count)) = Ends q" "r = map_option contents q"
      using m by (auto simp: main_mapped [OF args True] split: run.splits)
    from short_rounds [OF a _ q(1)] obtain j where "q = Some (filled_files j (each * count))" "j \<le> each * count"
      "each * count \<le> j + count * 1023" by (auto simp: mult.commute)
    then show ?thesis using q(2) by (auto simp: filled_files_def)
  qed
  have "main_mmap_write argv (replicate count True) (replicate (count * (each div 1024)) 1024) =
      Some (Inr (filled (count * (each div 1024 * 1024)) (each * count), Ends (Some (filled (count * (each div 1024 * 1024)) (each * count)))))"
    unfolding main_mapped [OF args True] full by (simp add: filled_files_def piece_bytes_def)
  then show ?thesis using short True shm_both by simp
next
  case False
  then have "main_mmap_write argv synced answers = None" for synced answers
    using args by (simp add: main_mmap_write_def file_size_def)
  then show ?thesis using False by (simp add: shm_both)
qed

lemma mapped_and_written_witness:
  "mmap_args [''mmap-write'', ''1500'', ''2''] = Some (Inr (1500, 2)) \<and>
   main_mmap_write [''mmap-write'', ''1500'', ''2''] [True, True] [1024, 1024] =
     Some (Inr (filled 2048 3000, Ends (Some (filled 2048 3000))))"
proof -
  have "mmap_args [''mmap-write'', ''1500'', ''2''] = Some (Inr (1500, 2))" by code_simp
  moreover have "replicate 2 x = [x, x]" for x :: bool by (simp add: numeral_2_eq_2)
  moreover have "replicate 2 x = [x, x]" for x :: int by (simp add: numeral_2_eq_2)
  ultimately show ?thesis using mapped_and_written [of "[''mmap-write'', ''1500'', ''2'']" 1500 2] by simp
qed

end
