(* ===== verification/FdPassing.thy ===== *)
theory FdPassing
  imports Prelude
begin

text \<open>
  Descriptors that travel between processes: over a socket (\<open>src/unix-sock\<close>, \<open>src/tlpi/sock-un-fd.c\<close>) and through \<open>exec\<close>
  (\<open>src/tlpi/fd-exec.c\<close>).

  \<^item> A process has a table of descriptors; an entry is a socket or an open file. An open file is a path and an
    offset and belongs to the system, so tables of several processes can name the same one.
  \<^item> Which of the other calls succeed is an argument \<open>ok\<close>; a call that is tested and fails ends the program with its
    message. \<open>write\<close> to the terminal writes everything.
  \<^item> What the C library prints is held back until the end unless the output is a terminal, while \<open>write\<close> is not.
\<close>

subsection \<open>Descriptors and open files\<close>

datatype target = Socket | File nat

type_synonym process = "target option list"

record system =
  disk :: "string \<Rightarrow> string option"
  opened :: "(string \<times> nat) list"

text \<open>A new descriptor is the lowest one that is free.\<close>

fun new_fd :: "target \<Rightarrow> process \<Rightarrow> nat \<times> process" where
  "new_fd t [] = (0, [Some t])"
| "new_fd t (None # fds) = (0, Some t # fds)"
| "new_fd t (Some u # fds) = (let (n, fds) = new_fd t fds in (Suc n, Some u # fds))"

fun new_fds :: "target list \<Rightarrow> process \<Rightarrow> nat list \<times> process" where
  "new_fds [] fds = ([], fds)"
| "new_fds (t # ts) fds = (let (n, fds) = new_fd t fds; (ns, fds) = new_fds ts fds in (n # ns, fds))"

definition close_fd :: "nat \<Rightarrow> process \<Rightarrow> process" where
  "close_fd n fds = fds[n := None]"

definition open_fd :: "string \<Rightarrow> process \<Rightarrow> system \<Rightarrow> nat \<times> process \<times> system" where
  "open_fd path fds s =
     (let (n, fds) = new_fd (File (length (opened s))) fds in (n, fds, s\<lparr>opened := opened s @ [(path, 0)]\<rparr>))"

definition file_text :: "nat \<Rightarrow> system \<Rightarrow> string" where
  "file_text f s = (case disk s (fst (opened s ! f)) of None \<Rightarrow> [] | Some c \<Rightarrow> c)"

definition read_file :: "nat \<Rightarrow> nat \<Rightarrow> system \<Rightarrow> string \<times> system" where
  "read_file f n s =
     (if f < length (opened s) then
        (let (path, off) = opened s ! f; got = take n (drop off (file_text f s))
         in (got, s\<lparr>opened := (opened s)[f := (path, off + length got)]\<rparr>))
      else ([], s))"

definition lseek_file :: "nat \<Rightarrow> nat \<Rightarrow> system \<Rightarrow> system" where
  "lseek_file f off s = s\<lparr>opened := (opened s)[f := (fst (opened s ! f), off)]\<rparr>"

definition write_file :: "nat \<Rightarrow> string \<Rightarrow> system \<Rightarrow> system" where
  "write_file f new s =
     (let (path, off) = opened s ! f; old = file_text f s
      in s\<lparr>disk := (disk s)(path \<mapsto> take off (old @ replicate (off - length old) NUL) @ new @ drop (off + length new) old),
           opened := (opened s)[f := (path, off + length new)]\<rparr>)"

text \<open>What is left to read.\<close>

definition unread :: "nat \<Rightarrow> system \<Rightarrow> string" where
  "unread f s = (if f < length (opened s) then drop (snd (opened s ! f)) (file_text f s) else [])"

lemma read_file_unread: "fst (read_file f n s) = take n (unread f s)"
  by (simp add: read_file_def unread_def split: prod.split)

lemma unread_rest: "unread f (snd (read_file f n s)) = drop n (unread f s)"
proof (cases "f < length (opened s)")
  case True
  obtain path off where "opened s ! f = (path, off)" by (cases "opened s ! f")
  then show ?thesis
    using True by (simp add: read_file_def unread_def file_text_def Let_def min_def add.commute)
qed (simp add: read_file_def unread_def)

text \<open>\<open>while ((nbytes = read(fd, buffer, sizeof(buffer))) > 0) write(1, buffer, nbytes)\<close>: what is written.\<close>

function cat_file :: "nat \<Rightarrow> system \<Rightarrow> string \<times> system" where
  "cat_file f s =
     (let (got, t) = read_file f 256 s
      in if got = [] then ([], t) else (let (more, t) = cat_file f t in (got @ more, t)))"
  by auto
termination
proof (relation "measure (\<lambda>(f, s). length (unread f s))")
  fix f s x got t
  assume "x = read_file f 256 s" "(got, t) = x" "got \<noteq> []"
  then have "got = take 256 (unread f s)" "unread f t = drop 256 (unread f s)" "got \<noteq> []"
    using read_file_unread [of f 256 s] unread_rest [of f 256 s] by (auto dest: sym)
  then show "((f, t), f, s) \<in> measure (\<lambda>(f, s). length (unread f s))" by auto
qed simp

declare cat_file.simps [simp del]

subsection \<open>Output\<close>

datatype piece = Stdio string | Direct string

fun stdio_text :: "piece \<Rightarrow> string" where
  "stdio_text (Stdio t) = t" | "stdio_text (Direct t) = []"

fun direct_text :: "piece \<Rightarrow> string" where
  "direct_text (Stdio t) = []" | "direct_text (Direct t) = t"

definition appears :: "bool \<Rightarrow> piece list \<Rightarrow> string" where
  "appears terminal os =
     (if terminal then concat (map (\<lambda>x. stdio_text x @ direct_text x) os)
      else concat (map direct_text os) @ concat (map stdio_text os))"

subsection \<open>unix-sock/client.c\<close>

datatype pass_call = Call_socket | Call_unlink | Call_bind | Call_connect | Call_sendmsg
  | Call_listen | Call_accept | Call_getsockname | Call_getpeername | Call_recvmsg | Call_close

text \<open>The message of the first call that fails.\<close>

fun first_failure :: "(pass_call \<Rightarrow> bool) \<Rightarrow> (pass_call \<times> string) list \<Rightarrow> string option" where
  "first_failure ok [] = None"
| "first_failure ok ((c, msg) # cs) = (if ok c then first_failure ok cs else Some msg)"

text \<open>What reaches the server: no connection, one that is closed without a message, or open files.\<close>

datatype arrival = No_connection | Hung_up | Passed "target list"

record sender_end =
  sender_out :: string
  sender_err :: string
  sender_status :: int
  arrives :: arrival

definition opened_line :: "nat \<Rightarrow> string" where
  "opened_line fd = ''Opened fd '' @ decimal fd @ '' in parent'' @ [newline]"

definition send_fd :: "nat list \<Rightarrow> process \<Rightarrow> target list" where
  "send_fd fds table = map (\<lambda>fd. case table ! fd of Some t \<Rightarrow> t | None \<Rightarrow> Socket) fds"

definition main_fd_client :: "(pass_call \<Rightarrow> bool) \<Rightarrow> string list \<Rightarrow> process \<Rightarrow> system \<Rightarrow> sender_end \<times> system" where
  "main_fd_client ok argv fds s =
     (if length argv \<noteq> 3 then (\<lparr>sender_out = [], sender_err = ''Usage'', sender_status = 1, arrives = No_connection\<rparr>, s)
      else case first_failure ok [(Call_socket, ''Failed to create socket''), (Call_bind, ''Failed to bind to socket'')] of
        Some msg \<Rightarrow> (\<lparr>sender_out = [], sender_err = msg, sender_status = 1, arrives = No_connection\<rparr>, s)
      | None \<Rightarrow>
          let (sfd, fds) = new_fd Socket fds in
          if disk s (argv ! 1) = None
          then (\<lparr>sender_out = [], sender_err = ''Failed to open file 1 for reading'', sender_status = 1, arrives = No_connection\<rparr>, s)
          else
            let (fd0, fds, s) = open_fd (argv ! 1) fds s; out = opened_line fd0 in
            if disk s (argv ! 2) = None
            then (\<lparr>sender_out = out, sender_err = ''Failed to open file 2 for reading'', sender_status = 1, arrives = No_connection\<rparr>, s)
            else
              let (fd1, fds, s) = open_fd (argv ! 2) fds s; out = out @ opened_line fd1 in
              if \<not> ok Call_connect
              then (\<lparr>sender_out = out, sender_err = ''Failed to connect to socket'', sender_status = 1, arrives = No_connection\<rparr>, s)
              else if \<not> ok Call_sendmsg
              then (\<lparr>sender_out = out, sender_err = ''Failed to send message'', sender_status = 1, arrives = Hung_up\<rparr>, s)
              else (\<lparr>sender_out = out, sender_err = [], sender_status = 0, arrives = Passed (send_fd [fd0, fd1] fds)\<rparr>, s))"

subsection \<open>unix-sock/server.c\<close>

text \<open>The server waits in \<open>accept\<close> for ever, exits with a message and status, or is undefined: without a message there is no
  control header, and \<open>recv_fd\<close> copies from behind the null pointer that \<open>CMSG_FIRSTHDR\<close> answers.\<close>

datatype server_end = Accepts | Exits "piece list" string int

definition recv_fd :: "arrival \<Rightarrow> process \<Rightarrow> (nat list \<times> process) option" where
  "recv_fd a fds = (case a of Passed ts \<Rightarrow> Some (new_fds ts fds) | _ \<Rightarrow> None)"

fun print_passed :: "nat list \<Rightarrow> process \<Rightarrow> system \<Rightarrow> piece list \<times> system" where
  "print_passed [] fds s = ([], s)"
| "print_passed (fd # rest) fds s =
     (let (got, s) = (case fds ! fd of Some (File f) \<Rightarrow> cat_file f s | _ \<Rightarrow> ([], s));
          (out, s) = print_passed rest fds s
      in (Stdio (''Reading from passed fd '' @ decimal fd @ [newline]) # Direct got # out, s))"

definition name_lines :: "piece list" where
  "name_lines = [Stdio (''sock name: /tmp/fd-pass.socket'' @ [newline]), Stdio (''peer name: /tmp/fd-client.socket'' @ [newline])]"

definition main_fd_server :: "(pass_call \<Rightarrow> bool) \<Rightarrow> arrival \<Rightarrow> process \<Rightarrow> system \<Rightarrow> server_end option" where
  "main_fd_server ok a fds s =
     (case first_failure ok [(Call_socket, ''Failed to create socket''), (Call_unlink, ''Removing socket file failed''),
          (Call_bind, ''Failed to bind to socket''), (Call_listen, ''Failed to listen on socket''),
          (Call_accept, ''Failed to accept incoming connection'')] of
        Some msg \<Rightarrow> Some (Exits [] msg 1)
      | None \<Rightarrow>
          if a = No_connection then Some Accepts
          else
            let (sfd, fds) = new_fd Socket fds; (cfd, fds) = new_fd Socket fds in
            if \<not> ok Call_getsockname then Some (Exits [] ''Failed to get sock name'' 1)
            else if \<not> ok Call_getpeername then Some (Exits [hd name_lines] ''Failed to get sock name'' 1)
            else if \<not> ok Call_recvmsg then Some (Exits name_lines ''Failed to receive message'' 1)
            else do {
              (ns, fds) \<leftarrow> recv_fd a fds;
              let (out, s) = print_passed ns fds s;
              Some (if ok Call_close then Exits (name_lines @ out) [] 0
                    else Exits (name_lines @ out) ''Failed to close client socket'' 1) })"

subsection \<open>tlpi/fd-exec.c\<close>

text \<open>The parent with the table \<open>fds\<close>; the child that \<open>exec\<close> starts sees descriptor 4 of the same open file. \<open>None\<close> when the child finds no
  open file there.\<close>

definition exec_child :: "process \<Rightarrow> system \<Rightarrow> (string \<times> system) option" where
  "exec_child fds s =
     (case (if 4 < length fds then fds ! 4 else None) of
        Some (File f) \<Rightarrow>
          let off = snd (opened s ! f); s' = lseek_file f (off + 100) s
          in Some (''child execed fd offset = '' @ decimal off @ '', move to '' @ decimal (off + 100) @ [newline], s')
      | _ \<Rightarrow> None)"

definition dup2_fd :: "nat \<Rightarrow> nat \<Rightarrow> process \<Rightarrow> process" where
  "dup2_fd a b fds = (fds @ replicate (Suc b - length fds) None)[b := fds ! a]"

definition parent_line :: "nat \<Rightarrow> string" where
  "parent_line off = ''parent off = '' @ decimal off @ [newline]"

text \<open>The second \<open>bool\<close> says whether the output is a terminal. Otherwise the parent's lines appear when it ends, after
  the child's, and \<open>exec\<close> drops the copy that the child got.\<close>

definition main_fd_exec :: "process \<Rightarrow> system \<Rightarrow> bool \<Rightarrow> string option" where
  "main_fd_exec fds s terminal =
     (let (fd, fds, s) = open_fd ''/tmp/__xxxxyyyy__'' fds s;
          f = length (opened s) - 1;
          fds = (if fd \<noteq> 4 then close_fd fd (dup2_fd fd 4 fds) else fds);
          old = file_text f s;
          s = s\<lparr>disk := (disk s)(''/tmp/__xxxxyyyy__'' \<mapsto> take 4096 (old @ replicate (4096 - length old) NUL))\<rparr>;
          s = lseek_file f 80 s;
          before = parent_line 80
      in case exec_child fds s of None \<Rightarrow> None
         | Some (child, s) \<Rightarrow>
             let after = parent_line (snd (opened s ! f))
             in Some (if terminal then before @ child @ after else child @ before @ after))"

subsection \<open>tlpi/sock-un-fd.c\<close>

text \<open>The parent opens the file, empty, and sends it; the child writes to the descriptor it gets.\<close>

definition main_sock_un_fd :: "process \<Rightarrow> system \<Rightarrow> system option" where
  "main_sock_un_fd fds s =
     (let (a, fds) = new_fd Socket fds; (b, fds) = new_fd Socket fds;
          parent = close_fd b fds; child = close_fd a fds;
          s = s\<lparr>disk := (disk s)(''/tmp/__xxxxyyyy__'' \<mapsto> [])\<rparr>;
          (fd, parent, s) = open_fd ''/tmp/__xxxxyyyy__'' parent s
      in do {
        (ns, child) \<leftarrow> recv_fd (Passed (send_fd [fd] parent)) child;
        (case child ! hd ns of Some (File f) \<Rightarrow> Some (write_file f ''CHILD'' s) | _ \<Rightarrow> None) })"

subsection \<open>Properties\<close>

lemma new_fd_spec:
  "new_fd t fds = (n, fds') \<Longrightarrow> n < length fds' \<and> fds' ! n = Some t \<and> (n < length fds \<longrightarrow> fds ! n = None) \<and> length fds \<le> length fds' \<and>
     (\<forall>m<length fds. m \<noteq> n \<longrightarrow> fds' ! m = fds ! m) \<and> length fds' \<le> max (length fds) (Suc n)"
proof (induction t fds arbitrary: n fds' rule: new_fd.induct)
  case (2 t fds)
  then show ?case by (auto simp: nth_Cons')
next
  case (3 t u fds)
  obtain k gds where k: "new_fd t fds = (k, gds)" by (cases "new_fd t fds")
  then have n: "n = Suc k" "fds' = Some u # gds" using 3(2) by simp_all
  show ?case using 3(1) [OF k] unfolding n by (auto simp: nth_Cons')
qed simp

text \<open>Reading one open file leaves what is unread in the others.\<close>

lemma read_file_other:
  "g \<noteq> f \<Longrightarrow> unread g (snd (read_file f n s)) = unread g s" "length (opened (snd (read_file f n s))) = length (opened s)"
  by (auto simp: read_file_def unread_def file_text_def Let_def split: prod.splits)

lemma cat_file_all:
  "fst (cat_file f s) = unread f s \<and> (\<forall>g. g \<noteq> f \<longrightarrow> unread g (snd (cat_file f s)) = unread g s)"
proof (induction f s rule: cat_file.induct)
  case (1 f s)
  obtain got u where r: "read_file f 256 s = (got, u)" by (cases "read_file f 256 s")
  have g: "got = take 256 (unread f s)" "unread f u = drop 256 (unread f s)" "\<forall>g. g \<noteq> f \<longrightarrow> unread g u = unread g s"
    using read_file_unread [of f 256 s] unread_rest [of f 256 s] read_file_other(1) [of _ f 256 s] by (simp_all add: r)
  show ?case
  proof (cases "got = []")
    case True
    then have "cat_file f s = ([], u)" by (subst cat_file.simps) (simp add: r)
    then show ?thesis using True g by simp
  next
    case False
    then have "cat_file f s = (got @ fst (cat_file f u), snd (cat_file f u))"
      by (subst cat_file.simps) (simp add: r split: prod.split)
    then show ?thesis using 1(1) [OF r [symmetric] _ False] g by simp
  qed
qed

lemma open_fd_spec:
  assumes "open_fd path fds s = (n, fds', s')"
  shows "new_fd (File (length (opened s))) fds = (n, fds')" "s' = s\<lparr>opened := opened s @ [(path, 0)]\<rparr>"
  using assms by (simp_all add: open_fd_def Let_def split: prod.splits)

lemma unread_new: "unread (length (opened s)) (s\<lparr>opened := opened s @ (path, 0) # rest\<rparr>) = (case disk s path of None \<Rightarrow> [] | Some c \<Rightarrow> c)"
  by (simp add: unread_def file_text_def)

lemma new_fds_two:
  "new_fds [t, u] fds = (ns, fds') \<Longrightarrow> \<exists>m n. ns = [m, n] \<and> m \<noteq> n \<and> fds' ! m = Some t \<and> fds' ! n = Some u \<and>
     (m < length fds \<longrightarrow> fds ! m = None) \<and> (n < length fds \<longrightarrow> fds ! n = None)"
  by (auto split: prod.splits dest!: new_fd_spec) (metis (no_types, lifting) option.distinct(1) order_less_le_trans)+

lemma no_failure: "\<forall>c. ok c \<Longrightarrow> first_failure ok cs = None"
  by (induction cs) auto

text \<open>The client that succeeds passes two open files of its own.\<close>

lemma client_passes:
  assumes "\<forall>c. ok c" "length argv = 3" "disk s (argv ! 1) = Some c1" "disk s (argv ! 2) = Some c2"
  obtains out where "main_fd_client ok argv fds s =
    (\<lparr>sender_out = out, sender_err = [], sender_status = 0, arrives = Passed [File (length (opened s)), File (Suc (length (opened s)))]\<rparr>,
     s\<lparr>opened := opened s @ [(argv ! 1, 0), (argv ! 2, 0)]\<rparr>)"
proof -
  obtain n0 fds0 where f0: "new_fd Socket fds = (n0, fds0)" by (cases "new_fd Socket fds")
  obtain n1 fds1 s1 where f1: "open_fd (argv ! 1) fds0 s = (n1, fds1, s1)" by (cases "open_fd (argv ! 1) fds0 s") auto
  obtain n2 fds2 s2 where f2: "open_fd (argv ! 2) fds1 s1 = (n2, fds2, s2)" by (cases "open_fd (argv ! 2) fds1 s1") auto
  note o1 = open_fd_spec [OF f1] and o2 = open_fd_spec [OF f2]
  have "fds2 ! n1 = Some (File (length (opened s)))" "fds2 ! n2 = Some (File (Suc (length (opened s))))"
    using new_fd_spec [OF o1(1)] new_fd_spec [OF o2(1)] by (auto simp: o1(2))
  then show ?thesis
    using that assms no_failure [OF assms(1)] o1(2) o2(2)
    by (simp add: main_fd_client_def f0 f1 f2 [unfolded o1(2)] send_fd_def del: One_nat_def)
qed

lemma server_prints:
  assumes "fds ! m = Some (File f)" "fds ! n = Some (File g)" "f \<noteq> g"
  shows "fst (print_passed [m, n] fds s) =
    [Stdio (''Reading from passed fd '' @ decimal m @ [newline]), Direct (unread f s),
     Stdio (''Reading from passed fd '' @ decimal n @ [newline]), Direct (unread g s)]"
  using assms cat_file_all [of f s] cat_file_all [of g "snd (cat_file f s)"] by (auto split: prod.split)



text \<open>Remark: The child that \<open>exec\<close> starts moves the offset of its parent from 80 to 180, whatever the parent had open; what it prints comes
  first when the output is not a terminal. A descriptor that is sent gives the receiver the sender's file.\<close>

theorem fd_shared:
  "main_fd_exec fds s terminal = Some
     (let child = ''child execed fd offset = '' @ decimal 80 @ '', move to '' @ decimal 180 @ [newline]
      in if terminal then parent_line 80 @ child @ parent_line 180 else child @ parent_line 80 @ parent_line 180) \<and>
   (\<exists>t. main_sock_un_fd fds s = Some t \<and> disk t ''/tmp/__xxxxyyyy__'' = Some ''CHILD'')"
proof
  obtain n gds where n: "new_fd (File (length (opened s))) fds = (n, gds)" by (cases "new_fd (File (length (opened s))) fds")
  note g = new_fd_spec [OF n]
  have four: "4 < length hds \<and> hds ! 4 = Some (File (length (opened s)))"
    if "hds = (if n \<noteq> 4 then close_fd n (dup2_fd n 4 gds) else gds)" for hds
    using g by (auto simp: that close_fd_def dup2_fd_def nth_list_update)
  show "main_fd_exec fds s terminal = Some
     (let child = ''child execed fd offset = '' @ decimal 80 @ '', move to '' @ decimal 180 @ [newline]
      in if terminal then parent_line 80 @ child @ parent_line 180 else child @ parent_line 80 @ parent_line 180)"
    using four [OF refl] by (simp add: main_fd_exec_def open_fd_def n Let_def exec_child_def lseek_file_def)
next
  obtain a fds1 where f1: "new_fd Socket fds = (a, fds1)" by (cases "new_fd Socket fds")
  obtain b fds2 where f2: "new_fd Socket fds1 = (b, fds2)" by (cases "new_fd Socket fds1")
  obtain n gds where n: "new_fd (File (length (opened s))) (close_fd b fds2) = (n, gds)"
    by (cases "new_fd (File (length (opened s))) (close_fd b fds2)")
  obtain m hds where m: "new_fd (File (length (opened s))) (close_fd a fds2) = (m, hds)"
    by (cases "new_fd (File (length (opened s))) (close_fd a fds2)")
  have "gds ! n = Some (File (length (opened s)))" "hds ! m = Some (File (length (opened s)))"
    using new_fd_spec [OF n] new_fd_spec [OF m] by simp_all
  then show "\<exists>t. main_sock_un_fd fds s = Some t \<and> disk t ''/tmp/__xxxxyyyy__'' = Some ''CHILD''"
    by (simp add: main_sock_un_fd_def f1 f2 n m open_fd_def send_fd_def recv_fd_def Let_def write_file_def file_text_def)
qed

end
