(* ===== verification/Signals.thy ===== *)
theory Signals
  imports Prelude
begin

text \<open>
  Signals between and inside processes: \<open>src/tlpi/signal-sync.c\<close>, \<open>signal-nodefer.c\<close> and \<open>signal-syscall.c\<close>.

  \<^item> In \<open>signal-sync.c\<close> one step is one system call or one line of output. A signal that is blocked stays pending until
    \<open>sigsuspend\<close>; one that is not blocked is lost unless the process is inside \<open>sigsuspend\<close>. The source blocks it; the argument \<open>blocked\<close> shows
    what for. The calls of \<open>sleep\<close> are left out, so every order is allowed.
  \<^item> The children end with \<open>_exit\<close>, which drops what the C library holds back: without a terminal their lines are lost.
\<close>

subsection \<open>signal-sync.c\<close>

datatype line = Child_waits | Parent_waits | Parent_runs | Child_runs

datatype sync_parent = P_Kill | P_Line1 | P_Wait | P_Fork | P_Suspend | P_Suspended | P_Line2 | P_Exit
datatype sync_child1 = W_Suspend | W_Suspended | W_Line | W_Exit
datatype sync_child2 = D_None | D_Kill | D_Line | D_Exit

record sync =
  sync_parent :: sync_parent
  sync_child1 :: sync_child1
  sync_child2 :: sync_child2
  child_pending :: bool
  parent_pending :: bool
  sync_lines :: "line list"

text \<open>After the first \<open>fork\<close>.\<close>

definition sync_init :: sync where
  "sync_init = \<lparr>sync_parent = P_Kill, sync_child1 = W_Suspend, sync_child2 = D_None, child_pending = False, parent_pending = False,
     sync_lines = [Child_waits]\<rparr>"

definition add_line :: "line \<Rightarrow> sync \<Rightarrow> sync" where
  "add_line l s = s\<lparr>sync_lines := sync_lines s @ [l]\<rparr>"

definition sync_parent_step :: "bool \<Rightarrow> sync \<Rightarrow> sync option" where
  "sync_parent_step blocked s =
     (case sync_parent s of
        P_Kill \<Rightarrow> Some (s\<lparr>sync_parent := P_Line1, child_pending := blocked \<or> sync_child1 s = W_Suspended\<rparr>)
      | P_Line1 \<Rightarrow> Some (add_line Parent_runs (s\<lparr>sync_parent := P_Wait\<rparr>))
      | P_Wait \<Rightarrow> if sync_child1 s = W_Exit then Some (s\<lparr>sync_parent := P_Fork\<rparr>) else None
      | P_Fork \<Rightarrow> Some (add_line Parent_waits (s\<lparr>sync_parent := P_Suspend, sync_child2 := D_Kill\<rparr>))
      | P_Suspend \<Rightarrow> Some (s\<lparr>sync_parent := P_Suspended\<rparr>)
      | P_Suspended \<Rightarrow> if parent_pending s then Some (s\<lparr>sync_parent := P_Line2, parent_pending := False\<rparr>) else None
      | P_Line2 \<Rightarrow> Some (add_line Parent_runs (s\<lparr>sync_parent := P_Exit\<rparr>))
      | P_Exit \<Rightarrow> None)"

definition child_line :: "bool \<Rightarrow> sync \<Rightarrow> sync" where
  "child_line terminal s = (if terminal then add_line Child_runs s else s)"

definition sync_child1_step :: "bool \<Rightarrow> sync \<Rightarrow> sync option" where
  "sync_child1_step terminal s =
     (case sync_child1 s of
        W_Suspend \<Rightarrow> Some (s\<lparr>sync_child1 := W_Suspended\<rparr>)
      | W_Suspended \<Rightarrow> if child_pending s then Some (s\<lparr>sync_child1 := W_Line, child_pending := False\<rparr>) else None
      | W_Line \<Rightarrow> Some (child_line terminal (s\<lparr>sync_child1 := W_Exit\<rparr>))
      | W_Exit \<Rightarrow> None)"

definition sync_child2_step :: "bool \<Rightarrow> bool \<Rightarrow> sync \<Rightarrow> sync option" where
  "sync_child2_step blocked terminal s =
     (case sync_child2 s of
        D_Kill \<Rightarrow> Some (s\<lparr>sync_child2 := D_Line, parent_pending := blocked \<or> sync_parent s = P_Suspended\<rparr>)
      | D_Line \<Rightarrow> Some (child_line terminal (s\<lparr>sync_child2 := D_Exit\<rparr>))
      | _ \<Rightarrow> None)"

inductive sync_step :: "bool \<Rightarrow> bool \<Rightarrow> sync \<Rightarrow> sync \<Rightarrow> bool" for blocked terminal where
  parent: "sync_parent_step blocked s = Some t \<Longrightarrow> sync_step blocked terminal s t"
| child1: "sync_child1_step terminal s = Some t \<Longrightarrow> sync_step blocked terminal s t"
| child2: "sync_child2_step blocked terminal s = Some t \<Longrightarrow> sync_step blocked terminal s t"

subsection \<open>signal-nodefer.c\<close>

datatype nodefer_line = Enter nat | Leave nat

text \<open>The handler with \<open>SA_NODEFER\<close>: the signal that it sends to its process is handled before \<open>kill\<close> returns. The lines, and
  \<open>in_handler\<close> afterwards.\<close>

function handle_usr1 :: "nat \<Rightarrow> nodefer_line list \<times> nat" where
  "handle_usr1 in_handler =
     (let n = in_handler + 1;
          (inner, m) = (if n \<le> 4 then handle_usr1 n else ([], n))
      in (Enter n # inner @ [Leave m], m - 1))"
  by auto
termination by (relation "measure (\<lambda>n. 5 - n)") auto

declare handle_usr1.simps [simp del]

subsection \<open>signal-syscall.c\<close>

datatype disposition = Handled bool \<comment> \<open>with \<open>SA_RESTART\<close>\<close> | Ignored

datatype alarm_line = ALARM | Sleep_interrupted | Sleep_not_interrupted

text \<open>\<open>sleep(3)\<close> with an alarm after 0.9 seconds; \<open>rest\<close> is what it answers when a handler ran. No flag restarts it.\<close>

definition sleep_with_alarm :: "nat \<Rightarrow> disposition \<Rightarrow> alarm_line list \<times> nat" where
  "sleep_with_alarm rest d = (case d of Handled restart \<Rightarrow> ([ALARM], rest) | Ignored \<Rightarrow> ([], 0))"

definition sleep_test :: "nat \<Rightarrow> disposition \<Rightarrow> alarm_line list" where
  "sleep_test rest d =
     (let (out, ret) = sleep_with_alarm rest d in out @ [if ret = 0 then Sleep_not_interrupted else Sleep_interrupted])"

definition main_signal_syscall :: "nat \<Rightarrow> alarm_line list" where
  "main_signal_syscall rest = sleep_test rest (Handled False) @ sleep_test rest (Handled True) @ sleep_test rest Ignored"

subsection \<open>All runs of signal-sync.c\<close>

definition sync_nexts :: "bool \<Rightarrow> bool \<Rightarrow> sync \<Rightarrow> sync list" where
  "sync_nexts blocked terminal s =
     concat (map (\<lambda>x. case x of None \<Rightarrow> [] | Some t \<Rightarrow> [t])
       [sync_parent_step blocked s, sync_child1_step terminal s, sync_child2_step blocked terminal s])"

fun sync_level :: "bool \<Rightarrow> bool \<Rightarrow> nat \<Rightarrow> sync list" where
  "sync_level blocked terminal 0 = [sync_init]"
| "sync_level blocked terminal (Suc n) = remdups (concat (map (sync_nexts blocked terminal) (sync_level blocked terminal n)))"

lemma sync_step_nexts: "sync_step blocked terminal s t \<longleftrightarrow> t \<in> set (sync_nexts blocked terminal s)"
  by (auto simp: sync_step.simps sync_nexts_def split: option.splits)

lemma sync_runs: "(sync_step blocked terminal ^^ n) sync_init s \<longleftrightarrow> s \<in> set (sync_level blocked terminal n)"
  by (induction n arbitrary: s) (auto simp: sync_step_nexts relcompp_apply)

definition sync_stuck :: "bool \<Rightarrow> bool \<Rightarrow> sync \<Rightarrow> bool" where
  "sync_stuck blocked terminal s \<longleftrightarrow> sync_nexts blocked terminal s = []"

lemma sync_runs_end:
  "\<forall>n<12. \<forall>s\<in>set (sync_level True terminal n). \<not> sync_stuck True terminal s"
  "\<forall>s\<in>set (sync_level True terminal 12). sync_stuck True terminal s \<and> sync_parent s = P_Exit \<and> sync_child1 s = W_Exit \<and> sync_child2 s = D_Exit"
proof -
  have "\<forall>b \<in> set [True, False]. \<forall>n \<in> set [0..<12]. \<forall>s\<in>set (sync_level True b n). \<not> sync_stuck True b s" by code_simp
  then show "\<forall>n<12. \<forall>s\<in>set (sync_level True terminal n). \<not> sync_stuck True terminal s" by (cases terminal) (simp_all del: sync_level.simps)
  have "\<forall>b \<in> set [True, False]. \<forall>s\<in>set (sync_level True b 12). sync_stuck True b s \<and> sync_parent s = P_Exit \<and> sync_child1 s = W_Exit \<and> sync_child2 s = D_Exit"
    by code_simp
  then show "\<forall>s\<in>set (sync_level True terminal 12). sync_stuck True terminal s \<and> sync_parent s = P_Exit \<and> sync_child1 s = W_Exit \<and> sync_child2 s = D_Exit"
    by (cases terminal) (simp_all del: sync_level.simps)
qed

text \<open>What may be printed: both lines of a part after its heading.\<close>

definition in_turn :: "line list \<Rightarrow> bool" where
  "in_turn xs \<longleftrightarrow> xs = [Parent_runs, Child_runs] \<or> xs = [Child_runs, Parent_runs]"

definition sync_outcome :: "bool \<Rightarrow> line list \<Rightarrow> bool" where
  "sync_outcome terminal ls \<longleftrightarrow>
     (if terminal then length ls = 6 \<and> ls ! 0 = Child_waits \<and> in_turn (take 2 (drop 1 ls)) \<and> ls ! 3 = Parent_waits \<and> in_turn (drop 4 ls)
      else ls = [Child_waits, Parent_runs, Parent_waits, Parent_runs])"

lemma sync_outcomes: "\<forall>s \<in> set (sync_level True terminal 12). sync_outcome terminal (sync_lines s)"
proof -
  have "\<forall>b \<in> set [True, False]. \<forall>s \<in> set (sync_level True b 12). sync_outcome b (sync_lines s)" by code_simp
  then show ?thesis by (cases terminal) (simp_all del: sync_level.simps)
qed

lemma sync_lost:
  "\<exists>s \<in> set (sync_level False True 3). sync_stuck False True s \<and> sync_child1 s = W_Suspended \<and> sync_parent s = P_Wait"
  by code_simp

text \<open>C27: With the signal blocked every run of \<open>signal-sync.c\<close> ends after twelve steps with all processes gone, however they are scheduled, and on a
  terminal both lines of a part come after its heading, in either order; elsewhere the children's lines are lost. Were it not blocked, a
  signal could come too early and leave both waiting for ever. The handler of \<open>signal-nodefer.c\<close> is entered five times before
  it is left, and an alarm cuts \<open>sleep\<close> short unless it is ignored.\<close>

theorem signals_synchronise:
  assumes "(sync_step True terminal ^^ n) sync_init s" "0 < rest"
  shows "n \<le> 12 \<and> ((\<exists>t. sync_step True terminal s t) \<longleftrightarrow> n < 12) \<and>
    (n = 12 \<longrightarrow> sync_parent s = P_Exit) \<and> (n = 12 \<longrightarrow> sync_child1 s = W_Exit) \<and> (n = 12 \<longrightarrow> sync_child2 s = D_Exit) \<and>
    (n = 12 \<longrightarrow> sync_outcome terminal (sync_lines s)) \<and>
    (\<exists>u. (sync_step False True ^^ 3) sync_init u \<and> (\<nexists>t. sync_step False True u t) \<and> sync_child1 u \<noteq> W_Exit) \<and>
    handle_usr1 0 = (map Enter [1..<6] @ map Leave (rev [1..<6]), 0) \<and>
    main_signal_syscall rest = [ALARM, Sleep_interrupted, ALARM, Sleep_interrupted, Sleep_not_interrupted]"
proof (intro conjI)
  have s: "s \<in> set (sync_level True terminal n)" using assms(1) by (simp only: sync_runs)
  have "sync_level True terminal (13 + k) = []" for k
  proof (induction k)
    case 0
    have "\<forall>t \<in> set (sync_level True terminal 12). sync_nexts True terminal t = []"
      using sync_runs_end(2) unfolding sync_stuck_def by blast
    then have "sync_level True terminal (Suc 12) = []" unfolding sync_level.simps(2) by simp
    then show ?case by simp
  next
    case (Suc k)
    then have "sync_level True terminal (Suc (13 + k)) = []" unfolding sync_level.simps(2) by simp
    then show ?case by simp
  qed
  then have "\<not> 13 \<le> n" using s by (metis empty_iff le_Suc_ex list.set(1))
  then show n: "n \<le> 12" by simp
  have e: "(\<exists>t. sync_step True terminal s t) \<longleftrightarrow> \<not> sync_stuck True terminal s"
    unfolding sync_step_nexts sync_stuck_def by (cases "sync_nexts True terminal s") auto
  show "(\<exists>t. sync_step True terminal s t) \<longleftrightarrow> n < 12"
  proof (cases "n < 12")
    case True
    then show ?thesis using e s sync_runs_end(1) by blast
  next
    case False
    then have "n = 12" using n by simp
    then show ?thesis using e s sync_runs_end(2) by blast
  qed
  have l: "sync_parent s = P_Exit \<and> sync_child1 s = W_Exit \<and> sync_child2 s = D_Exit" "sync_outcome terminal (sync_lines s)" if "n = 12"
    using s sync_runs_end(2) sync_outcomes unfolding that by blast+
  then show "n = 12 \<longrightarrow> sync_parent s = P_Exit" "n = 12 \<longrightarrow> sync_child1 s = W_Exit" "n = 12 \<longrightarrow> sync_child2 s = D_Exit" 
    "n = 12 \<longrightarrow> sync_outcome terminal (sync_lines s)" by blast+
  show "\<exists>u. (sync_step False True ^^ 3) sync_init u \<and> (\<nexists>t. sync_step False True u t) \<and> sync_child1 u \<noteq> W_Exit"
    using sync_lost by (auto simp: sync_runs sync_step_nexts sync_stuck_def simp del: sync_level.simps)
  show "handle_usr1 0 = (map Enter [1..<6] @ map Leave (rev [1..<6]), 0)" by code_simp
  show "main_signal_syscall rest = [ALARM, Sleep_interrupted, ALARM, Sleep_interrupted, Sleep_not_interrupted]"
    using assms(2) by (simp add: main_signal_syscall_def sleep_test_def sleep_with_alarm_def)
qed

theorem signals_synchronise_witness:
  "\<exists>s. (sync_step True True ^^ 12) sync_init s \<and> sync_outcome True (sync_lines s) \<and> (\<nexists>t. sync_step True True s t)"
proof -
  have "length (sync_level True True 12) = 4" by code_simp
  then have "sync_level True True 12 ! 0 \<in> set (sync_level True True 12)" by (intro nth_mem) (simp only:)
  then have s: "(sync_step True True ^^ 12) sync_init (sync_level True True 12 ! 0)" by (rule iffD2 [OF sync_runs])
  have "\<not> 12 < (12 :: nat)" by simp
  with signals_synchronise [OF s zero_less_one] s show ?thesis by blast
qed

end
