(* ===== verification/Buckets.thy ===== *)
theory Buckets
  imports Prelude "HOL-Library.Multiset"
begin

text \<open>
  Sorting indices into buckets, for the two counting sorts (\<open>src/cpp/sort.cc\<close>, \<open>src/cpp/sort-range.cc\<close>): what
  the counters stand for, and why writing each index at the counter of its bucket gives the stable sort.

  The programs differ in their keys, their counters and their loops; the locale \<open>buckets\<close> asks only that the
  keys of the \<open>n\<close> indices are below \<open>R\<close>.
\<close>

definition bucket :: "(nat \<Rightarrow> nat) \<Rightarrow> nat \<Rightarrow> nat \<Rightarrow> nat list" where
  "bucket key n b = filter (\<lambda>i. key i = b) [0..<n]"

definition below :: "(nat \<Rightarrow> nat) \<Rightarrow> nat \<Rightarrow> nat \<Rightarrow> nat" where
  "below key n b = length (filter (\<lambda>i. key i < b) [0..<n])"

text \<open>After \<open>i\<close> indices: those of each bucket stand where the bucket begins, in their order.\<close>

definition placed :: "(nat \<Rightarrow> nat) \<Rightarrow> nat \<Rightarrow> nat \<Rightarrow> nat \<Rightarrow> nat list \<Rightarrow> bool" where
  "placed key n R i idx \<longleftrightarrow> (\<forall>b < R. \<forall>j < length (bucket key i b). idx ! (below key n b + j) = bucket key i b ! j)"

lemma filter_less_Suc: "length (filter (\<lambda>i. f i < Suc b) xs) = length (filter (\<lambda>i. f i < b) xs) + length (filter (\<lambda>i. f i = b) xs)"
  by (induction xs) auto

lemma below_Suc: "below key n (Suc b) = below key n b + length (bucket key n b)"
  by (simp add: below_def bucket_def filter_less_Suc)

lemma below_0 [simp]: "below key n 0 = 0"
  by (simp add: below_def)

lemma below_mono: "a \<le> b \<Longrightarrow> below key n a \<le> below key n b"
  using lift_Suc_mono_le [of "below key n" a b] by (simp add: below_Suc)

lemma bucket_0 [simp]: "bucket key 0 b = []"
  by (simp add: bucket_def)

lemma bucket_Suc: "bucket key (Suc i) b = bucket key i b @ (if key i = b then [i] else [])"
  by (simp add: bucket_def)

lemma length_bucket_le: "i \<le> n \<Longrightarrow> length (bucket key i b) \<le> length (bucket key n b)"
  by (rule lift_Suc_mono_le [of "\<lambda>i. length (bucket key i b)"]) (auto simp: bucket_Suc)

lemma placed_0 [simp]: "placed key n R 0 idx"
  by (simp add: placed_def)

text \<open>The counter of a bucket while the indices are placed, and where the next index of it goes.\<close>

definition next_slot :: "(nat \<Rightarrow> nat) \<Rightarrow> nat \<Rightarrow> nat \<Rightarrow> nat \<Rightarrow> nat" where
  "next_slot key n i b = below key n b + length (bucket key i b)"

lemma next_slot_0 [simp]: "next_slot key n 0 b = below key n b"
  by (simp add: next_slot_def)

lemma next_slot_Suc: "next_slot key n (Suc i) b = next_slot key n i b + (if key i = b then 1 else 0)"
  by (simp add: next_slot_def bucket_Suc)

lemma slot_free: "i < n \<Longrightarrow> next_slot key n i (key i) < below key n (Suc (key i))"
  using length_bucket_le [of "Suc i" n key "key i"] by (simp add: below_Suc next_slot_def bucket_Suc)

lemma slots_differ:
  assumes "i < n" "j < length (bucket key i b)" "b \<noteq> key i"
  shows "below key n b + j \<noteq> next_slot key n i (key i)"
proof (cases "b < key i")
  case True
  have "below key n b + j < below key n (Suc b)"
    using assms(1,2) length_bucket_le [of i n key b] by (simp add: below_Suc)
  also have "\<dots> \<le> below key n (key i)" using True by (intro below_mono) simp
  finally show ?thesis by (simp add: next_slot_def)
next
  case False
  then show ?thesis
    using slot_free [OF assms(1), of key] below_mono [of "Suc (key i)" b key n] assms(3) by linarith
qed

locale buckets =
  fixes key :: "nat \<Rightarrow> nat" and n :: nat and R :: nat
  assumes key_less: "i < n \<Longrightarrow> key i < R"
begin

lemma below_all: "below key n R = n"
  using key_less by (simp add: below_def)

lemma slot_in: "i < n \<Longrightarrow> next_slot key n i (key i) < n"
  using slot_free [of i n key] below_mono [of "Suc (key i)" R key n] key_less [of i] below_all by linarith

lemma placed_step:
  assumes "placed key n R i idx" "i < n" "length idx = n"
  shows "placed key n R (Suc i) (idx[next_slot key n i (key i) := i])"
  unfolding placed_def
proof (intro allI impI)
  fix b j assume b: "b < R" and j: "j < length (bucket key (Suc i) b)"
  let ?p = "next_slot key n i (key i)"
  have p: "?p < length idx" using slot_in [OF assms(2)] assms(3) by simp
  show "idx[?p := i] ! (below key n b + j) = bucket key (Suc i) b ! j"
  proof (cases "key i = b")
    case True
    then show ?thesis
      using p j b assms(1) unfolding placed_def
      by (auto simp: nth_append nth_list_update less_Suc_eq bucket_Suc next_slot_def)
  next
    case False
    then have "j < length (bucket key i b)" using j by (simp add: bucket_Suc)
    then show ?thesis using slots_differ [OF assms(2), of j key b] False b assms(1)
      unfolding placed_def by (simp add: nth_list_update bucket_Suc)
  qed
qed

lemma placed_buckets:
  assumes "placed key n R n r" "length r = n" "m \<le> R"
  shows "take (below key n m) r = concat (map (bucket key n) [0..<m])"
  using assms(3)
proof (induction m)
  case (Suc m)
  have "below key n (Suc m) \<le> length r" using below_mono [OF Suc.prems, of key n] by (simp add: below_all assms(2))
  then have l: "below key n m + length (bucket key n m) \<le> length r" by (simp add: below_Suc)
  have "take (length (bucket key n m)) (drop (below key n m) r) = bucket key n m"
  proof (rule nth_equalityI)
    show "length (take (length (bucket key n m)) (drop (below key n m) r)) = length (bucket key n m)" using l by simp
    show "take (length (bucket key n m)) (drop (below key n m) r) ! j = bucket key n m ! j"
      if "j < length (take (length (bucket key n m)) (drop (below key n m) r))" for j
      using that l assms(1) Suc.prems by (simp add: placed_def)
  qed
  then show ?case using Suc by (simp add: below_Suc take_add)
qed simp

lemma placed_all: "placed key n R n r \<Longrightarrow> length r = n \<Longrightarrow> r = concat (map (bucket key n) [0..<R])"
  using placed_buckets [of r R] by (simp add: below_all)

end

subsection \<open>The buckets in a row are the stable sort\<close>

lemma buckets_mset: "mset (concat (map (bucket key n) [0..<m])) = mset (filter (\<lambda>i. key i < m) [0..<n])"
proof (induction m)
  case (Suc m)
  have "mset (filter (\<lambda>i. key i < Suc m) xs) = mset (filter (\<lambda>i. key i < m) xs) + mset (filter (\<lambda>i. key i = m) xs)" for xs
    by (induction xs) auto
  then have "mset (filter (\<lambda>i. key i < Suc m) [0..<n]) = mset (filter (\<lambda>i. key i < m) [0..<n]) + mset (bucket key n m)"
    unfolding bucket_def by blast
  then show ?case using Suc by (simp del: mset_filter)
qed simp

lemma in_buckets: "i \<in> set (concat (map (bucket key n) [0..<m])) \<Longrightarrow> key i < m"
  by (auto simp: bucket_def)

lemma buckets_sorted: "sorted (map key (concat (map (bucket key n) [0..<m])))"
proof (induction m)
  case (Suc m)
  have "map key (bucket key n m) = replicate (length (bucket key n m)) m"
    by (rule replicate_length_same [symmetric, THEN trans]) (auto simp: bucket_def)
  then have "sorted (map key (bucket key n m))" by simp
  moreover have "key i \<le> key k" if "i \<in> set (concat (map (bucket key n) [0..<m]))" "k \<in> set (bucket key n m)" for i k
    using in_buckets [OF that(1)] that(2) by (simp add: bucket_def)
  ultimately show ?case using Suc by (auto simp: sorted_append)
qed simp

lemma buckets_stable:
  "filter (\<lambda>x. key k = key x) (concat (map (bucket key n) [0..<m])) = (if key k < m then bucket key n (key k) else [])"
proof (induction m)
  case (Suc m)
  have "filter (\<lambda>x. key k = key x) (bucket key n m) = (if key k = m then bucket key n m else [])"
    by (auto simp: bucket_def filter_filter intro!: filter_cong filter_False)
  then show ?case using Suc by (auto simp: less_Suc_eq)
qed simp

context buckets begin

lemma stable_sort: "concat (map (bucket key n) [0..<R]) = sort_key key [0..<n]"
proof (rule properties_for_sort_key [symmetric])
  show "mset (concat (map (bucket key n) [0..<R])) = mset [0..<n]"
    unfolding buckets_mset using key_less by (intro arg_cong [of _ _ mset] filter_True) simp
  show "filter (\<lambda>x. key k = key x) (concat (map (bucket key n) [0..<R])) = filter (\<lambda>x. key k = key x) [0..<n]"
    if "k \<in> set (concat (map (bucket key n) [0..<R]))" for k
  proof -
    have "bucket key n (key k) = filter (\<lambda>x. key k = key x) [0..<n]"
      unfolding bucket_def by (rule filter_cong) auto
    then show ?thesis unfolding buckets_stable using in_buckets [OF that] by simp
  qed
qed (rule buckets_sorted)

end

text \<open>Sorting by the keys is sorting by anything the keys keep in order.\<close>

lemma sort_key_mono:
  fixes f :: "nat \<Rightarrow> 'a::linorder" and key :: "nat \<Rightarrow> nat"
  assumes "\<And>i j. i < n \<Longrightarrow> j < n \<Longrightarrow> key i \<le> key j \<longleftrightarrow> f i \<le> f j"
  shows "sort_key f [0..<n] = sort_key key [0..<n]"
proof (rule properties_for_sort_key)
  show "mset (sort_key key [0..<n]) = mset [0..<n]" by simp
  show "sorted (map f (sort_key key [0..<n]))"
    unfolding sorted_map
    by (rule sorted_wrt_mono_rel [OF _ sorted_sort_key [of key "[0..<n]", unfolded sorted_map]]) (simp add: assms)
  show "filter (\<lambda>x. f k = f x) (sort_key key [0..<n]) = filter (\<lambda>x. f k = f x) [0..<n]" if "k \<in> set (sort_key key [0..<n])" for k
  proof -
    have e: "f k = f x \<longleftrightarrow> key k = key x" if "x < n" for x
      using assms [of k x] assms [of x k] that \<open>k \<in> _\<close> unfolding order.eq_iff by simp
    have "filter (\<lambda>x. f k = f x) (sort_key key [0..<n]) = filter (\<lambda>x. key k = key x) (sort_key key [0..<n])"
      by (rule filter_cong) (simp_all add: e)
    also have "\<dots> = filter (\<lambda>x. key k = key x) [0..<n]"
      using sort_key_stable [of key "key k" "[0..<n]"] by (simp only: eq_commute [of "key k"])
    also have "\<dots> = filter (\<lambda>x. f k = f x) [0..<n]"
      by (rule filter_cong) (simp_all add: e)
    finally show ?thesis .
  qed
qed

end
