(* ===== verification/CountSort.thy ===== *)
theory CountSort
  imports Buckets
begin

text \<open>
  Counting sort of indices (\<open>src/cpp/sort.cc\<close>): \<open>count_sort\<close> orders the indices of an array of bytes as the
  stable sort of the standard library does.

  \<^item> \<open>std::stable_sort\<close> is the stable sort of the library, \<open>sort_key\<close>.
  \<^item> The counters are 64-bit words, the index of the last loop is a 32-bit word, as in the source; the loop
    is \<open>None\<close> when it does not end or leaves an array.
\<close>

definition stl_sort :: "u8 list \<Rightarrow> nat list \<Rightarrow> nat list" where
  "stl_sort v idx = sort_key (\<lambda>i. v ! i) idx"

definition iota :: "nat \<Rightarrow> nat list" where "iota n = [0..<n]"

subsection \<open>The counting sort\<close>

fun count_bytes :: "u8 list \<Rightarrow> u64 list \<Rightarrow> u64 list" where
  "count_bytes [] cnt = cnt"
| "count_bytes (b # v) cnt = count_bytes v (cnt[unat b := cnt ! unat b + 1])"

fun prefix_sums :: "nat list \<Rightarrow> u64 \<Rightarrow> u64 \<Rightarrow> u64 list \<Rightarrow> u64 list" where
  "prefix_sums [] save prev cnt = cnt"
| "prefix_sums (i # is) save prev cnt =
     (let prev = prev + save; save = cnt ! i in prefix_sums is save prev (cnt[i := prev]))"

partial_function (option) place :: "u8 list \<Rightarrow> u32 \<Rightarrow> u64 list \<Rightarrow> nat list \<Rightarrow> nat list option" where
  [code]: "place v i cnt idx =
     (if unat i < length idx then do {
        b \<leftarrow> c_load v (unat i);
        k \<leftarrow> c_load cnt (unat b);
        idx \<leftarrow> c_store idx (unat k) (unat i);
        place v (i + 1) (cnt[unat b := k + 1]) idx }
      else Some idx)"

definition count_sort :: "u8 list \<Rightarrow> nat list \<Rightarrow> nat list option" where
  "count_sort v idx =
     (let cnt = count_bytes v (replicate 256 0);
          cnt = prefix_sums [1..<256] (cnt ! 0) 0 (cnt[0 := 0])
      in place v 0 cnt idx)"

subsection \<open>main\<close>

text \<open>The arguments: whether to sort the data first, and how many elements.\<close>

definition sort_args :: "string list \<Rightarrow> (bool \<times> int) option" where
  "sort_args argv =
     (if length argv \<ge> 2 then
        let pre_sort = (argv ! 1 \<noteq> [] \<and> hd (argv ! 1) = CHR ''s'');
            k = (if pre_sort then 1 else 0)
        in if k + 2 = length argv then
             do { m \<leftarrow> atol (argv ! (k + 1)); Some (pre_sort, if m > 0 then m else 10000000) }
           else Some (pre_sort, 10000000)
      else Some (False, 10000000))"

text \<open>\<open>main\<close> without the clock: both sorts on fresh indices, twice as in the source; the value says whether
  the results are equal, so that no error is printed. \<open>rand\<close> is the sequence of random numbers.\<close>

definition main_sort :: "(nat \<Rightarrow> int) \<Rightarrow> string list \<Rightarrow> bool option" where
  "main_sort rand argv =
     do {
       (pre_sort, n) \<leftarrow> sort_args argv;
       let v = map (\<lambda>i. of_int (rand i)) [0..<nat n];
       let v = (if pre_sort then sort v else v);
       let idx_stl_sort = stl_sort v (iota (nat n));
       warm_up \<leftarrow> count_sort v (iota (nat n));
       idx_count_sort \<leftarrow> count_sort v (iota (nat n));
       Some (idx_stl_sort = idx_count_sort) }"

subsection \<open>The counters\<close>

lemma length_count_bytes [simp]: "length (count_bytes v cnt) = length cnt"
  by (induction v arbitrary: cnt) auto

lemma length_prefix_sums [simp]: "length (prefix_sums is save prev cnt) = length cnt"
  by (induction "is" arbitrary: cnt save prev) (auto simp: Let_def)

lemma u8_less [simp]: "unat (b :: u8) < 256"
  using unsigned_less [of b] by simp

text \<open>The byte of an index is its key.\<close>

definition byte_key :: "u8 list \<Rightarrow> nat \<Rightarrow> nat" where
  "byte_key v i = unat (v ! i)"

interpretation bytes: buckets "byte_key v" "length v" 256 for v
  by unfold_locales (simp add: byte_key_def)

lemma count_bytes_nth:
  "length cnt = 256 \<Longrightarrow> b < 256 \<Longrightarrow> count_bytes v cnt ! b = cnt ! b + of_nat (length (filter (\<lambda>x. unat x = b) v))"
  by (induction v arbitrary: cnt) auto

lemma length_bucket_bytes: "length (bucket (byte_key v) (length v) b) = length (filter (\<lambda>x. unat x = b) v)"
proof -
  have "v = map ((!) v) [0..<length v]" by (simp add: map_nth)
  then have "length (filter (\<lambda>x. unat x = b) v) = length (filter (\<lambda>x. unat x = b) (map ((!) v) [0..<length v]))" by simp
  then show ?thesis by (simp add: bucket_def byte_key_def filter_map comp_def)
qed

lemma prefix_sums_nth:
  fixes key :: "nat \<Rightarrow> nat"
  assumes "k + length is = 256" "is = [k..<256]" "length cnt = 256" "save = of_nat (length (bucket key n (k - 1)))" "0 < k"
    and "prev = of_nat (below key n (k - 1))" "\<And>b. b < k \<Longrightarrow> cnt ! b = of_nat (below key n b)"
    and "\<And>b. k \<le> b \<Longrightarrow> b < 256 \<Longrightarrow> cnt ! b = of_nat (length (bucket key n b))" "b < 256"
  shows "prefix_sums is save prev cnt ! b = of_nat (below key n b)"
  using assms
proof (induction "is" arbitrary: k save prev cnt)
  case Nil
  then show ?case by simp
next
  case (Cons i "is")
  then have i: "i = k" "is = [Suc k..<256]" "k < 256" using upt_eq_Cons_conv [of k 256 i "is"] by auto
  have p: "prev + save = of_nat (below key n k)"
    using Cons.prems(4-6) below_Suc [of key n "k - 1"] by simp
  show ?case
    unfolding prefix_sums.simps Let_def
    by (rule Cons.IH [of "Suc k"]) (use Cons.prems i p in \<open>auto simp: nth_list_update less_Suc_eq\<close>)
qed

lemma counters:
  assumes "b < 256"
  shows "(let cnt = count_bytes v (replicate 256 0) in prefix_sums [1..<256] (cnt ! 0) 0 (cnt[0 := 0])) ! b =
    of_nat (below (byte_key v) (length v) b)"
proof -
  have c: "count_bytes v (replicate 256 0) ! b = of_nat (length (bucket (byte_key v) (length v) b))" if "b < 256" for b
    using count_bytes_nth [of "replicate 256 0" b v] that by (simp add: length_bucket_bytes)
  show ?thesis
    unfolding Let_def by (rule prefix_sums_nth [where k = 1]) (use c assms in \<open>auto simp: nth_list_update\<close>)
qed

subsection \<open>Placing the indices\<close>

lemma unat_of_nat32: "n < 2 ^ 32 \<Longrightarrow> unat (of_nat n :: u32) = n"
  by (simp add: unat_of_nat take_bit_nat_eq_self)

lemma unat_of_nat64: "n < 2 ^ 64 \<Longrightarrow> unat (of_nat n :: u64) = n"
  by (simp add: unat_of_nat take_bit_nat_eq_self)

lemma place_ok:
  assumes "i \<le> length v" "length v < 2 ^ 32" "length idx = length v" "length cnt = 256"
    and "\<And>b. b < 256 \<Longrightarrow> cnt ! b = of_nat (next_slot (byte_key v) (length v) i b)" "placed (byte_key v) (length v) 256 i idx"
  shows "\<exists>r. place v (of_nat i) cnt idx = Some r \<and> length r = length v \<and> placed (byte_key v) (length v) 256 (length v) r"
  using assms
proof (induction "length v - i" arbitrary: i cnt idx)
  case 0
  then show ?case by (auto simp: place.simps [of v] unat_of_nat32)
next
  case (Suc d)
  let ?b = "unat (v ! i)"
  define p where "p = next_slot (byte_key v) (length v) i ?b"
  have k: "byte_key v i = ?b" by (simp add: byte_key_def)
  have i: "i < length v" using Suc.hyps(2) by linarith
  have p: "p < length v" using bytes.slot_in [OF i] by (simp add: p_def k)
  have c: "cnt ! ?b = of_nat p" using Suc.prems(5) [OF u8_less] by (simp add: p_def)
  have "place v (of_nat i) cnt idx = place v (of_nat (Suc i)) (cnt[?b := of_nat p + 1]) (idx[p := i])"
    using i p c Suc.prems(2-4) by (subst place.simps) (simp add: unat_of_nat32 unat_of_nat64 add.commute)
  moreover have "\<exists>r. place v (of_nat (Suc i)) (cnt[?b := of_nat p + 1]) (idx[p := i]) = Some r \<and> length r = length v \<and>
      placed (byte_key v) (length v) 256 (length v) r"
  proof (rule Suc.hyps(1))
    show "placed (byte_key v) (length v) 256 (Suc i) (idx[p := i])"
      using bytes.placed_step [OF Suc.prems(6) i Suc.prems(3)] by (simp add: p_def k)
    show "(cnt[?b := of_nat p + 1]) ! b = of_nat (next_slot (byte_key v) (length v) (Suc i) b)" if "b < 256" for b
      using that Suc.prems(4,5) by (auto simp: nth_list_update p_def k next_slot_Suc)
  qed (use i Suc.prems Suc.hyps(2) in auto)
  ultimately show ?case by simp
qed

subsection \<open>The result is the stable sort\<close>

lemma stl_sort_buckets: "stl_sort v (iota (length v)) = concat (map (bucket (byte_key v) (length v)) [0..<256])"
  unfolding stl_sort_def iota_def bytes.stable_sort
  by (rule sort_key_mono) (simp add: byte_key_def word_le_nat_alt)

lemma count_sort_stl:
  assumes "length v < 2 ^ 32" "length idx = length v"
  shows "count_sort v idx = Some (stl_sort v (iota (length v)))"
proof -
  define cnt where "cnt = (let cnt = count_bytes v (replicate 256 0) in prefix_sums [1..<256] (cnt ! 0) 0 (cnt[0 := 0]))"
  have "length cnt = 256" by (simp add: cnt_def Let_def)
  moreover have "cnt ! b = of_nat (next_slot (byte_key v) (length v) 0 b)" if "b < 256" for b
    using counters [OF that] by (simp add: cnt_def)
  ultimately obtain r where r: "place v (of_nat 0) cnt idx = Some r" "length r = length v"
    "placed (byte_key v) (length v) 256 (length v) r"
    using place_ok [of 0 v idx cnt] assms by auto
  have "r = stl_sort v (iota (length v))" using bytes.placed_all [OF r(3,2)] by (simp add: stl_sort_buckets)
  then show ?thesis using r(1) by (simp add: count_sort_def Let_def cnt_def)
qed

text \<open>C26: The counting sort ends without leaving an array and gives exactly the stable sort of the
  indices by their bytes, whatever the array of indices held before; so \<open>main\<close> never reports a difference,
  with and without sorting the data first.\<close>

theorem count_sort_stable:
  assumes "length v < 2 ^ 32" "length idx = length v" "sort_args argv = Some (pre_sort, n)" "nat n < 2 ^ 32"
  shows "count_sort v idx = Some (stl_sort v (iota (length v))) \<and> main_sort rand argv = Some True"
proof -
  have "count_sort w (iota (nat n)) = Some (stl_sort w (iota (nat n)))" if "length w = nat n" for w
    using count_sort_stl [of w "iota (nat n)"] that assms(4) by (simp add: iota_def)
  then show ?thesis using assms by (simp add: count_sort_stl main_sort_def Let_def)
qed

theorem count_sort_stable_witness:
  "count_sort [3, 1, 3, 0] [9, 9, 9, 9] = Some [3, 1, 0, 2] \<and> main_sort (\<lambda>i. int i * 77) [''sort'', ''s'', ''300''] = Some True"
proof -
  have s: "stl_sort [3, 1, 3, 0] (iota (Suc (Suc (Suc (Suc 0))))) = [3, 1, 0, 2]" by code_simp
  have a: "sort_args [''sort'', ''s'', ''300''] = Some (True, 300)" by code_simp
  show ?thesis using s count_sort_stable [of "[3, 1, 3, 0]" "[9, 9, 9, 9]", OF _ _ a, of "\<lambda>i. int i * 77"] by simp
qed

end
