(* ===== verification/ModeRange.thy ===== *)
theory ModeRange
  imports Prelude
begin

text \<open>
  The mode of an array of numbers in a range (\<open>src/cpp/mode-range.cc\<close>): a hash map of counters against an
  array of counters indexed by value.

  \<^item> \<open>mode_type\<close> is \<open>long\<close>: numbers are \<open>int\<close>s, and a result outside \<open>long\<close> is undefined, \<open>None\<close>.
  \<^item> The order in which a hash map is walked is not specified: it is an argument, any list of the keys.
\<close>

definition LONG_MAX :: int where "LONG_MAX = 2 ^ 63 - 1"
definition LONG_MIN :: int where "LONG_MIN = - (2 ^ 63)"

definition to_long :: "int \<Rightarrow> int option" where
  "to_long x = (if LONG_MIN \<le> x \<and> x \<le> LONG_MAX then Some x else None)"

subsection \<open>The two searches\<close>

text \<open>The body of the loop over the counters.\<close>

fun better :: "int \<times> int \<Rightarrow> int \<times> int \<Rightarrow> int \<times> int" where
  "better (this_value, this_count) (mode, count) =
     (if this_count > count \<or> (this_count = count \<and> this_value < mode) then (this_value, this_count) else (mode, count))"

fun count_values :: "int list \<Rightarrow> (int \<Rightarrow> int) \<Rightarrow> int \<Rightarrow> int" where
  "count_values [] m = m"
| "count_values (v # array) m = count_values array (m(v := m v + 1))"

text \<open>\<open>keys\<close> is the order of the hash map.\<close>

definition stl_mode :: "int list \<Rightarrow> int list \<Rightarrow> int \<times> int" where
  "stl_mode keys array =
     (let value_counts = count_values array (\<lambda>_. 0)
      in fold (\<lambda>v. better (v, value_counts v)) keys (LONG_MIN, 0))"

fun count_from :: "int \<Rightarrow> int list \<Rightarrow> int list \<Rightarrow> int list option" where
  "count_from m [] counts = Some counts"
| "count_from m (v # array) counts =
     do {
       k \<leftarrow> to_long (v - m);
       c \<leftarrow> c_load counts (nat k);
       counts \<leftarrow> c_store counts (nat k) (c + 1);
       count_from m array counts }"

definition count_mode :: "int list \<Rightarrow> (int \<times> int) option" where
  "count_mode array =
     (let lo = fold (\<lambda>v m. min m v) array LONG_MAX;
          hi = fold (\<lambda>v m. max m v) array LONG_MIN
      in do {
           d \<leftarrow> to_long (hi - lo);
           n \<leftarrow> to_long (d + 1);
           counts \<leftarrow> count_from lo array (replicate (nat n) 0);
           Some (fold (\<lambda>i. better (lo + int i, counts ! i)) [0..<nat n] (LONG_MIN, 0)) })"

subsection \<open>main\<close>

text \<open>The arguments: range and count; \<open>Inl\<close> is the usage text and exit status 1.\<close>

definition mode_args :: "string list \<Rightarrow> (string + int \<times> int) option" where
  "mode_args argv =
     do {
       rng \<leftarrow> (if length argv \<ge> 2 then atol (argv ! 1) else Some 1000);
       n \<leftarrow> (if length argv = 3 then atol (argv ! 2) else Some 10000000);
       Some (if rng \<le> 0 \<or> n \<le> 0 then Inl ((argv ! 0) @ '' [range=200] [count=10000000]'') else Inr (rng, n)) }"

text \<open>The loop that puts the two ends of the range somewhere: it takes two random numbers in each round and
  ends when they name different places.\<close>

definition slot :: "int list \<Rightarrow> int \<Rightarrow> nat" where
  "slot array r = nat (r mod int (length array))"

fun plant :: "int \<Rightarrow> int \<Rightarrow> int list \<Rightarrow> int list \<Rightarrow> int list run" where
  "plant lo hi (r1 # r2 # rand) array =
     (if slot array r1 = slot array r2
      then plant lo hi rand (array[slot array r1 := lo, slot array r2 := hi])
      else Ends (array[slot array r1 := lo, slot array r2 := hi]))"
| "plant lo hi _ array = Waits"

text \<open>The benchmark loops collect the results of all rounds with a bitwise or.\<close>

primrec collect :: "nat \<Rightarrow> int \<times> int \<Rightarrow> int \<times> int \<Rightarrow> int \<times> int" where
  "collect 0 ret acc = acc"
| "collect (Suc k) ret acc = collect k ret (or (fst acc) (fst ret), or (snd acc) (snd ret))"

text \<open>\<open>main\<close> from the data on, without the clock: whether the results agree. \<open>loops_cnt\<close> depends on the
  time the warm-up took; it is at least 1.\<close>

definition compare_modes :: "(int list \<Rightarrow> int list) \<Rightarrow> nat \<Rightarrow> int list \<Rightarrow> bool option" where
  "compare_modes keys loops_cnt array =
     (let loops_stl = max 1 (10000000 div length array);
          stl = stl_mode (keys array) array;
          stl_mode_ret = collect loops_stl stl stl
      in do {
           ret \<leftarrow> count_mode array;
           let count_mode_ret = collect loops_cnt ret ret;
           Some (stl_mode_ret = count_mode_ret) })"

text \<open>All of \<open>main\<close>: the random numbers fill the array first.\<close>

definition main_mode :: "(int list \<Rightarrow> int list) \<Rightarrow> nat \<Rightarrow> int list \<Rightarrow> string list \<Rightarrow> (string + bool) run" where
  "main_mode keys loops_cnt rand argv =
     (case mode_args argv of None \<Rightarrow> Undefined
      | Some (Inl usage) \<Rightarrow> Ends (Inl usage)
      | Some (Inr (rng, n)) \<Rightarrow>
          if rng + 1 > LONG_MAX then Undefined
          else if length rand < nat n then Waits
          else let lo = - (rng div 2); hi = rng + lo;
                   array = map (\<lambda>r. r mod (rng + 1) + lo) (take (nat n) rand)
               in case plant lo hi (drop (nat n) rand) array of Undefined \<Rightarrow> Undefined | Waits \<Rightarrow> Waits
                  | Ends array \<Rightarrow>
                      (case compare_modes keys loops_cnt array of None \<Rightarrow> Undefined | Some b \<Rightarrow> Ends (Inr b)))"

subsection \<open>The best counter\<close>

definition count :: "int list \<Rightarrow> int \<Rightarrow> int" where
  "count array v = int (count_list array v)"

text \<open>The reference: the value that occurs most often, the smallest one if there are several.\<close>

definition is_mode :: "int list \<Rightarrow> int \<times> int \<Rightarrow> bool" where
  "is_mode array mc \<longleftrightarrow> (case mc of (m, c) \<Rightarrow> m \<in> set array \<and> c = count array m \<and>
     (\<forall>v. count array v < c \<or> (count array v = c \<and> m \<le> v)))"

lemma is_mode_unique: "is_mode array a \<Longrightarrow> is_mode array b \<Longrightarrow> a = b"
  unfolding is_mode_def by (cases a, cases b, simp) (metis dual_order.strict_trans less_irrefl order_antisym)

lemma count_nonneg [simp]: "0 \<le> count array v"
  by (simp add: count_def)

lemma count_pos_iff: "0 < count array v \<longleftrightarrow> v \<in> set array"
  by (simp add: count_def count_list_0_iff zero_less_iff_neq_zero)

lemma count_values_count: "count_values array m v = m v + count array v"
  by (induction array arbitrary: m) (auto simp: count_def)

text \<open>What the walk over the counters holds: nothing yet, or the best value so far.\<close>

definition best_of :: "int list \<Rightarrow> int list \<Rightarrow> int \<times> int \<Rightarrow> bool" where
  "best_of array vs mc \<longleftrightarrow> (case mc of (m, c) \<Rightarrow>
     (m, c) = (LONG_MIN, 0) \<or> m \<in> set vs \<and> 0 < c \<and> c = count array m) \<and>
     (\<forall>v \<in> set vs. count array v < snd mc \<or> (count array v = snd mc \<and> fst mc \<le> v))"

lemma best_of_step:
  assumes "best_of array vs mc" "LONG_MIN \<le> v"
  shows "best_of array (vs @ [v]) (better (v, count array v) mc)"
  using assms count_nonneg [of array v] unfolding best_of_def by (cases mc) (fastforce split: if_splits)

lemma best_of_fold:
  assumes "\<forall>v \<in> set vs. LONG_MIN \<le> v" "best_of array us mc"
  shows "best_of array (us @ vs) (fold (\<lambda>v. better (v, count array v)) vs mc)"
  using assms
proof (induction vs arbitrary: us mc)
  case (Cons v vs)
  then show ?case using Cons.IH [of "us @ [v]" "better (v, count array v) mc"] best_of_step [OF Cons.prems(2), of v] by simp
qed simp

lemma best_is_mode:
  assumes "best_of array vs mc" "set array \<subseteq> set vs" "array \<noteq> []"
  shows "is_mode array mc"
proof -
  obtain m c where mc: "mc = (m, c)" by (cases mc)
  obtain a where a: "a \<in> set array" using assms(3) by (cases array) auto
  then have "0 < count array a" "a \<in> set vs" using assms(2) count_pos_iff by auto
  then have "c \<noteq> 0" using assms(1) unfolding best_of_def mc by fastforce
  then have c: "0 < c" "c = count array m" using assms(1) unfolding best_of_def mc by auto
  have "count array v < c \<or> count array v = c \<and> m \<le> v" for v
  proof (cases "v \<in> set vs")
    case True
    then show ?thesis using assms(1) unfolding best_of_def mc by auto
  next
    case False
    then have "v \<notin> set array" using assms(2) by blast
    then have "count array v = 0" using count_pos_iff [of array v] count_nonneg [of array v] by linarith
    then show ?thesis using c(1) by simp
  qed
  then show ?thesis using c count_pos_iff [of array m] by (auto simp: is_mode_def mc)
qed

lemma fold_is_mode:
  assumes "set array \<subseteq> set vs" "\<forall>v \<in> set vs. LONG_MIN \<le> v" "array \<noteq> []"
  shows "is_mode array (fold (\<lambda>v. better (v, count array v)) vs (LONG_MIN, 0))"
  using best_is_mode [OF best_of_fold [OF assms(2), of array "[]" "(LONG_MIN, 0)"]] assms(1,3) by (simp add: best_of_def)

lemma stl_mode_is_mode:
  assumes "set keys = set array" "\<forall>v \<in> set array. LONG_MIN \<le> v" "array \<noteq> []"
  shows "is_mode array (stl_mode keys array)"
  using fold_is_mode [of array keys] assms by (simp add: stl_mode_def count_values_count)

subsection \<open>The array of counters\<close>

lemma fold_min: "fold (\<lambda>v m. min m v) xs a \<le> (a :: int)" "x \<in> set xs \<Longrightarrow> fold (\<lambda>v m. min m v) xs a \<le> x"
  "fold (\<lambda>v m. min m v) xs a \<in> insert a (set xs)"
proof (induction xs arbitrary: a)
  case (Cons y xs)
  { case 1 show ?case using Cons.IH(1) [of "min a y"] by simp }
  { case 2 then show ?case using Cons.IH(1) [of "min a y"] Cons.IH(2) [of "min a y"] by auto }
  { case 3 show ?case using Cons.IH(3) [of "min a y"] by (auto simp: min_def split: if_splits) }
qed auto

lemma fold_max: "a \<le> fold (\<lambda>v m. max m v) xs (a :: int)" "x \<in> set xs \<Longrightarrow> x \<le> fold (\<lambda>v m. max m v) xs a"
  "fold (\<lambda>v m. max m v) xs a \<in> insert a (set xs)"
proof (induction xs arbitrary: a)
  case (Cons y xs)
  { case 1 show ?case using Cons.IH(1) [of "max a y"] by simp }
  { case 2 then show ?case using Cons.IH(1) [of "max a y"] Cons.IH(2) [of "max a y"] by auto }
  { case 3 show ?case using Cons.IH(3) [of "max a y"] by (auto simp: max_def split: if_splits) }
qed auto

lemma count_from_ok:
  assumes "\<forall>v \<in> set array. m \<le> v \<and> v - m < int (length counts)" "int (length counts) \<le> LONG_MAX"
  shows "\<exists>cs. count_from m array counts = Some cs \<and> length cs = length counts \<and>
    (\<forall>i < length counts. cs ! i = counts ! i + count array (m + int i))"
  using assms
proof (induction array arbitrary: counts)
  case Nil
  then show ?case by (simp add: count_def)
next
  case (Cons v array)
  have v: "m \<le> v" "nat (v - m) < length counts" using Cons.prems(1) by auto
  have "to_long (v - m) = Some (v - m)" using Cons.prems by (simp add: to_long_def LONG_MIN_def)
  then have "count_from m (v # array) counts = count_from m array (counts[nat (v - m) := counts ! nat (v - m) + 1])"
    using v by simp
  moreover obtain cs where "count_from m array (counts[nat (v - m) := counts ! nat (v - m) + 1]) = Some cs" "length cs = length counts"
    "\<forall>i < length counts. cs ! i = counts[nat (v - m) := counts ! nat (v - m) + 1] ! i + count array (m + int i)"
    using Cons.IH [of "counts[nat (v - m) := counts ! nat (v - m) + 1]"] Cons.prems by auto
  ultimately show ?case using v by (auto simp: nth_list_update count_def)
qed

text \<open>All numbers are \<open>long\<close>, and the distance of any two of them is too, with room for one more.\<close>

definition narrow :: "int list \<Rightarrow> bool" where
  "narrow array \<longleftrightarrow> (\<forall>v \<in> set array. LONG_MIN \<le> v \<and> v \<le> LONG_MAX \<and> (\<forall>w \<in> set array. v - w < LONG_MAX))"

lemma count_mode_is_mode:
  assumes "narrow array" "array \<noteq> []"
  shows "\<exists>mc. count_mode array = Some mc \<and> is_mode array mc"
proof -
  define lo where "lo = fold (\<lambda>v m. min m v) array LONG_MAX"
  define hi where "hi = fold (\<lambda>v m. max m v) array LONG_MIN"
  obtain a where a: "a \<in> set array" using assms(2) by (cases array) auto
  have lo: "lo \<le> v" and hi: "v \<le> hi" if "v \<in> set array" for v
    unfolding lo_def hi_def using that fold_min(2) fold_max(2) by blast+
  have "lo \<in> set array"
    using fold_min(3) [of array LONG_MAX] lo [OF a] assms(1) a unfolding narrow_def lo_def by fastforce
  moreover have "hi \<in> set array"
    using fold_max(3) [of array LONG_MIN] hi [OF a] assms(1) a unfolding narrow_def hi_def by fastforce
  ultimately have d: "hi - lo < LONG_MAX" "LONG_MIN \<le> lo" "0 \<le> hi - lo"
    using assms(1) lo hi unfolding narrow_def by (blast, blast, fastforce)
  then have t: "to_long (hi - lo) = Some (hi - lo)" "to_long (hi - lo + 1) = Some (hi - lo + 1)"
    by (simp_all add: to_long_def LONG_MIN_def)
  define n where "n = nat (hi - lo + 1)"
  have "\<exists>cs. count_from lo array (replicate n 0) = Some cs \<and> length cs = length (replicate n (0 :: int)) \<and>
     (\<forall>i < length (replicate n (0 :: int)). cs ! i = replicate n 0 ! i + count array (lo + int i))"
    using lo hi d by (intro count_from_ok) (fastforce simp: n_def)+
  then obtain cs where cs: "count_from lo array (replicate n 0) = Some cs" "\<forall>i < n. cs ! i = count array (lo + int i)" by auto
  have "count_mode array = Some (fold (\<lambda>i. better (lo + int i, cs ! i)) [0..<n] (LONG_MIN, 0))"
    unfolding count_mode_def Let_def lo_def [symmetric] hi_def [symmetric] using t cs(1) by (simp add: n_def)
  also have "fold (\<lambda>i. better (lo + int i, cs ! i)) [0..<n] (LONG_MIN, 0) =
      fold (\<lambda>v. better (v, count array v)) (map (\<lambda>i. lo + int i) [0..<n]) (LONG_MIN, 0)"
    unfolding fold_map by (rule fold_cong) (use cs(2) in auto)
  finally have r: "count_mode array = Some (fold (\<lambda>v. better (v, count array v)) (map (\<lambda>i. lo + int i) [0..<n]) (LONG_MIN, 0))" .
  have "v \<in> set (map (\<lambda>i. lo + int i) [0..<n])" if "v \<in> set array" for v
    using lo [OF that] hi [OF that] by (auto simp: n_def intro!: image_eqI [of _ _ "nat (v - lo)"])
  then show ?thesis
    unfolding r using fold_is_mode [of array "map (\<lambda>i. lo + int i) [0..<n]"] d(2) assms(2) by auto
qed

lemma modes_equal:
  assumes "narrow array" "array \<noteq> []" "set keys = set array"
  shows "count_mode array = Some (stl_mode keys array) \<and> is_mode array (stl_mode keys array)"
  using count_mode_is_mode [OF assms(1,2)] stl_mode_is_mode [OF assms(3) _ assms(2)] is_mode_unique assms(1)
  unfolding narrow_def by blast

subsection \<open>main\<close>

lemma collect_same [simp]: "collect k ret ret = ret"
  by (induction k) simp_all

lemma slot_less: "array \<noteq> [] \<Longrightarrow> slot array r < length array"
  by (simp add: slot_def nat_less_iff)

fun has_pair :: "nat \<Rightarrow> int list \<Rightarrow> bool" where
  "has_pair n (r1 # r2 # rand) \<longleftrightarrow> r1 mod int n \<noteq> r2 mod int n \<or> has_pair n rand"
| "has_pair n _ \<longleftrightarrow> False"

lemma slot_eq_iff: "array \<noteq> [] \<Longrightarrow> slot array r1 = slot array r2 \<longleftrightarrow> r1 mod int (length array) = r2 mod int (length array)"
  by (simp add: slot_def nat_eq_iff)

lemma plant_ends:
  assumes "array \<noteq> []" "set array \<subseteq> {lo..hi}" "lo \<le> hi"
  shows "(\<not> has_pair (length array) rand \<and> plant lo hi rand array = Waits) \<or>
    (has_pair (length array) rand \<and> (\<exists>a. plant lo hi rand array = Ends a \<and> length a = length array \<and> set a \<subseteq> {lo..hi}))"
  using assms
proof (induction lo hi rand array rule: plant.induct)
  case (1 lo hi r1 r2 rand array)
  let ?a = "array[slot array r1 := lo, slot array r2 := hi]"
  have a: "set ?a \<subseteq> {lo..hi}" using 1(3,4) by (auto dest!: set_update_subset_insert [THEN subsetD])
  show ?case using 1 a by (auto simp: slot_eq_iff)
qed simp_all

text \<open>Remark: Both searches find the mode, the most frequent value and the smallest of several, whatever the order
  in which the hash map is walked; the array of counters is never left and no subtraction overflows, as long
  as the spread of the data is a \<open>long\<close>.\<close>

theorem modes_agree:
  assumes "narrow array" "array \<noteq> []" "set keys = set array"
  shows "count_mode array = Some (stl_mode keys array) \<and> is_mode array (stl_mode keys array)"
  using modes_equal [OF assms] .

lemma modes_compared:
  assumes "narrow array" "array \<noteq> []" "\<forall>a. set (keys a) = set a"
  shows "compare_modes keys loops_cnt array = Some True"
  using modes_equal [OF assms(1,2), of "keys array"] assms(3) by (simp add: compare_modes_def Let_def)

text \<open>Remark: \<open>main\<close> has no undefined behaviour and never reports a difference; it ends exactly when the random
  numbers name two different places for the ends of the range. With one element they never do: with a count
  of 1 the loop that plants the ends runs forever.\<close>

theorem mode_main_ends:
  assumes "mode_args argv = Some (Inr (rng, n))" "rng < LONG_MAX" "nat n \<le> length rand" "\<forall>a. set (keys a) = set a"
  shows "main_mode keys loops_cnt rand argv = (if has_pair (nat n) (drop (nat n) rand) then Ends (Inr True) else Waits) \<and>
    (n = 1 \<longrightarrow> main_mode keys loops_cnt rand argv = Waits)"
proof -
  have p: "0 < rng" "0 < n" using assms(1) by (auto simp: mode_args_def split: if_splits bind_splits)
  define lo where "lo = - (rng div 2)"
  define array where "array = map (\<lambda>r. r mod (rng + 1) + lo) (take (nat n) rand)"
  have l: "length array = nat n" using assms(3) by (simp add: array_def)
  then have ne: "array \<noteq> []" using p(2) by auto
  have s: "set array \<subseteq> {lo..rng + lo}"
  proof
    fix v assume "v \<in> set array"
    then obtain r where "v = r mod (rng + 1) + lo" by (auto simp: array_def)
    then show "v \<in> {lo..rng + lo}" using pos_mod_bound [of "rng + 1" r] pos_mod_sign [of "rng + 1" r] p(1) by auto
  qed
  have nar: "narrow a" if "set a \<subseteq> {lo..rng + lo}" for a
    unfolding narrow_def
  proof (intro ballI conjI)
    have r: "lo \<le> v \<and> v \<le> rng + lo" if "v \<in> set a" for v using that \<open>set a \<subseteq> {lo..rng + lo}\<close> by auto
    fix v w assume v: "v \<in> set a" and w: "w \<in> set a"
    show "v - w < LONG_MAX" using r [OF v] r [OF w] assms(2) by linarith
    show "LONG_MIN \<le> v" "v \<le> LONG_MAX" using r [OF v] assms(2) p(1) unfolding lo_def LONG_MIN_def LONG_MAX_def by linarith+
  qed
  have q: "plant lo (rng + lo) (drop (nat n) rand) array = Waits \<and> \<not> has_pair (nat n) (drop (nat n) rand) \<or>
     (has_pair (nat n) (drop (nat n) rand) \<and>
       (\<exists>a. plant lo (rng + lo) (drop (nat n) rand) array = Ends a \<and> length a = length array \<and> set a \<subseteq> {lo..rng + lo}))"
    using plant_ends [OF ne s, of "drop (nat n) rand"] p(1) l by auto
  have m: "main_mode keys loops_cnt rand argv = (case plant lo (rng + lo) (drop (nat n) rand) array of Undefined \<Rightarrow> Undefined | Waits \<Rightarrow> Waits
      | Ends array \<Rightarrow> (case compare_modes keys loops_cnt array of None \<Rightarrow> Undefined | Some b \<Rightarrow> Ends (Inr b)))"
    using assms(1-3) by (simp add: main_mode_def Let_def lo_def array_def)
  have e: "main_mode keys loops_cnt rand argv = (if has_pair (nat n) (drop (nat n) rand) then Ends (Inr True) else Waits)"
    using q unfolding m
  proof (elim disjE conjE exE, goal_cases)
    case (2 a)
    then have "compare_modes keys loops_cnt a = Some True" using modes_compared [OF nar _ assms(4)] ne by force
    then show ?case using 2 by simp
  qed simp
  have "\<not> has_pair 1 xs" for xs by (induction "1 :: nat" xs rule: has_pair.induct) simp_all
  then show ?thesis using e by auto
qed

subsection \<open>Instances\<close>

theorem modes_agree_witness: "count_mode [5, 3, 5, 3, -1] = Some (stl_mode [5, -1, 3] [5, 3, 5, 3, -1]) \<and> stl_mode [5, -1, 3] [5, 3, 5, 3, -1] = (3, 2)"
proof -
  have "stl_mode [5, -1, 3] [5, 3, 5, 3, -1] = (3, 2)" by (simp add: stl_mode_def LONG_MIN_def)
  moreover have "narrow [5, 3, 5, 3, -1]" by (simp add: narrow_def LONG_MIN_def LONG_MAX_def)
  ultimately show ?thesis using modes_agree [of "[5, 3, 5, 3, -1]" "[5, -1, 3]"] by auto
qed

lemma mode_arguments:
  "mode_args [''mode-range'', ''7'', ''3''] = Some (Inr (7, 3))" "mode_args [''mode-range'', ''7'', ''1''] = Some (Inr (7, 1))"
  by code_simp+

theorem mode_main_ends_witness:
  "main_mode remdups 4 [17, 2, 9, 6, 3, 1, 2] [''mode-range'', ''7'', ''3''] = Ends (Inr True) \<and>
   main_mode remdups 4 [17, 2, 9, 6, 3, 1, 2] [''mode-range'', ''7'', ''1''] = Waits"
  using mode_main_ends [OF mode_arguments(1), of "[17, 2, 9, 6, 3, 1, 2]" remdups 4]
    mode_main_ends [OF mode_arguments(2), of "[17, 2, 9, 6, 3, 1, 2]" remdups 4]
  by (simp add: LONG_MAX_def eval_nat_numeral)

end
