(* ===== verification/SortRange.thy ===== *)
theory SortRange
  imports Buckets ModeRange
begin

text \<open>
  Counting sort of indices by numbers in a range (\<open>src/cpp/sort-range.cc\<close>), against the stable sort.

  \<^item> \<open>sort_type\<close> is \<open>long\<close>, as \<open>mode_type\<close> in \<open>ModeRange\<close>; the counters are 64-bit words.
  \<^item> The arguments and the loop that plants the two ends of the range are the text of \<open>mode-range.cc\<close>:
    \<open>mode_args\<close> and \<open>plant\<close> of \<open>ModeRange\<close>.
\<close>

definition stl_sort_range :: "int list \<Rightarrow> nat list \<Rightarrow> nat list" where
  "stl_sort_range array idx = sort_key (\<lambda>i. array ! i) idx"

subsection \<open>The counting sort\<close>

text \<open>A \<open>long\<close> as an index of a vector.\<close>

definition index_of :: "int \<Rightarrow> nat option" where
  "index_of x = (if 0 \<le> x \<and> x \<le> LONG_MAX then Some (nat x) else None)"

text \<open>\<open>++cnt[v-min+1]\<close> for all numbers.\<close>

fun count_above :: "int \<Rightarrow> int list \<Rightarrow> u64 list \<Rightarrow> u64 list option" where
  "count_above lo [] cnt = Some cnt"
| "count_above lo (v # array) cnt =
     do {
       d \<leftarrow> to_long (v - lo);
       k \<leftarrow> index_of (d + 1);
       c \<leftarrow> c_load cnt k;
       cnt \<leftarrow> c_store cnt k (c + 1);
       count_above lo array cnt }"

text \<open>\<open>cnt[i] += cnt[i-1]\<close> for the indices of a list.\<close>

fun add_up_from :: "nat list \<Rightarrow> u64 list \<Rightarrow> u64 list" where
  "add_up_from [] cnt = cnt"
| "add_up_from (i # is) cnt = add_up_from is (cnt[i := cnt ! i + cnt ! (i - 1)])"

text \<open>\<open>idx[cnt[array[i]-min]++] = i\<close> for the indices of a list.\<close>

fun place_range :: "int list \<Rightarrow> int \<Rightarrow> nat list \<Rightarrow> u64 list \<Rightarrow> nat list \<Rightarrow> nat list option" where
  "place_range array lo [] cnt idx = Some idx"
| "place_range array lo (i # is) cnt idx =
     do {
       v \<leftarrow> c_load array i;
       k \<leftarrow> index_of (v - lo);
       p \<leftarrow> c_load cnt k;
       idx \<leftarrow> c_store idx (unat p) i;
       place_range array lo is (cnt[k := p + 1]) idx }"

definition count_sort_range :: "int list \<Rightarrow> nat list \<Rightarrow> nat list option" where
  "count_sort_range array idx =
     (let lo = fold (\<lambda>v m. min m v) array LONG_MAX;
          hi = fold (\<lambda>v m. max m v) array LONG_MIN
      in do {
           d \<leftarrow> to_long (hi - lo);
           value_range \<leftarrow> index_of (d + 1);
           cnt \<leftarrow> count_above lo array (replicate (1 + value_range) 0);
           place_range array lo [0..<length idx] (add_up_from [1..<value_range + 1] cnt) idx })"

subsection \<open>main\<close>

text \<open>The counting sort runs once to warm up and then \<open>loops_cnt\<close> times on the same vector; how often depends on
  the time the warm-up took.\<close>

primrec sort_rounds :: "nat \<Rightarrow> int list \<Rightarrow> nat list \<Rightarrow> nat list option" where
  "sort_rounds 0 array idx = Some idx"
| "sort_rounds (Suc k) array idx = do { idx \<leftarrow> count_sort_range array idx; sort_rounds k array idx }"

text \<open>\<open>main\<close> without the clock: whether the two results agree, so that no error is printed.\<close>

definition compare_sorts :: "nat \<Rightarrow> int list \<Rightarrow> bool option" where
  "compare_sorts loops_cnt array =
     (let idx_stl_sort = stl_sort_range array [0..<length array]
      in do {
           idx \<leftarrow> count_sort_range array (replicate (length array) 0);
           idx_count_sort \<leftarrow> sort_rounds loops_cnt array idx;
           Some (idx_stl_sort = idx_count_sort) })"

definition main_sort_range :: "nat \<Rightarrow> int list \<Rightarrow> string list \<Rightarrow> (string + bool) run" where
  "main_sort_range loops_cnt rand argv =
     (case mode_args argv of None \<Rightarrow> Undefined
      | Some (Inl usage) \<Rightarrow> Ends (Inl usage)
      | Some (Inr (rng, n)) \<Rightarrow>
          if rng + 1 > LONG_MAX then Undefined
          else if length rand < nat n then Waits
          else let lo = - (rng div 2); hi = rng + lo;
                   array = map (\<lambda>r. r mod (rng + 1) + lo) (take (nat n) rand)
               in case plant lo hi (drop (nat n) rand) array of Undefined \<Rightarrow> Undefined | Waits \<Rightarrow> Waits
                  | Ends array \<Rightarrow>
                      (case compare_sorts loops_cnt array of None \<Rightarrow> Undefined | Some b \<Rightarrow> Ends (Inr b)))"

subsection \<open>The counters\<close>

definition lo_of :: "int list \<Rightarrow> int" where "lo_of array = fold (\<lambda>v m. min m v) array LONG_MAX"
definition hi_of :: "int list \<Rightarrow> int" where "hi_of array = fold (\<lambda>v m. max m v) array LONG_MIN"

text \<open>The key of an index: its number, counted from the smallest.\<close>

definition range_key :: "int list \<Rightarrow> nat \<Rightarrow> nat" where
  "range_key array i = nat (array ! i - lo_of array)"

definition span :: "int list \<Rightarrow> nat" where
  "span array = nat (hi_of array - lo_of array + 1)"

lemma lo_hi: "i < length array \<Longrightarrow> lo_of array \<le> array ! i \<and> array ! i \<le> hi_of array"
  unfolding lo_of_def hi_of_def using fold_min(2) fold_max(2) nth_mem by blast

lemma range_key_less: "i < length array \<Longrightarrow> range_key array i < span array"
  using lo_hi [of i array] by (simp add: range_key_def span_def)

interpretation numbers: buckets "range_key array" "length array" "span array" for array
  using range_key_less by unfold_locales

lemma count_above_ok:
  assumes "\<forall>v \<in> set array. lo \<le> v \<and> v - lo + 1 < int (length cnt)" "int (length cnt) \<le> LONG_MAX"
  shows "\<exists>cs. count_above lo array cnt = Some cs \<and> length cs = length cnt \<and>
    (\<forall>k < length cnt. cs ! k = cnt ! k + of_nat (length (filter (\<lambda>v. nat (v - lo + 1) = k) array)))"
  using assms
proof (induction array arbitrary: cnt)
  case (Cons v array)
  let ?k = "nat (v - lo + 1)"
  have v: "lo \<le> v" "?k < length cnt" using Cons.prems(1) by auto
  have "to_long (v - lo) = Some (v - lo)" "index_of (v - lo + 1) = Some ?k"
    using Cons.prems by (auto simp: to_long_def index_of_def LONG_MIN_def)
  then have "count_above lo (v # array) cnt = count_above lo array (cnt[?k := cnt ! ?k + 1])"
    using v by simp
  moreover obtain cs where "count_above lo array (cnt[?k := cnt ! ?k + 1]) = Some cs" "length cs = length cnt"
    "\<forall>k < length cnt. cs ! k = cnt[?k := cnt ! ?k + 1] ! k + of_nat (length (filter (\<lambda>v. nat (v - lo + 1) = k) array))"
    using Cons.IH [of "cnt[?k := cnt ! ?k + 1]"] Cons.prems by auto
  ultimately show ?case using v by (auto simp: nth_list_update)
qed simp

lemma length_add_up_from [simp]: "length (add_up_from is cnt) = length cnt"
  by (induction "is" arbitrary: cnt) simp_all

lemma add_up_from_nth:
  fixes key :: "nat \<Rightarrow> nat"
  assumes "0 < k" "length cnt = R + 1" "k \<le> R + 1"
    and "\<And>b. b < k \<Longrightarrow> cnt ! b = of_nat (below key n b)"
    and "\<And>b. k \<le> b \<Longrightarrow> b \<le> R \<Longrightarrow> cnt ! b = of_nat (length (bucket key n (b - 1)))" "b \<le> R"
  shows "add_up_from [k..<R + 1] cnt ! b = of_nat (below key n b)"
  using assms
proof (induction "R + 1 - k" arbitrary: k cnt)
  case (Suc d)
  then have k: "k < R + 1" by linarith
  have s: "cnt ! k + cnt ! (k - 1) = of_nat (below key n k)"
    using Suc.prems(1,4,5) k below_Suc [of key n "k - 1"] by simp
  have "add_up_from [Suc k..<R + 1] (cnt[k := cnt ! k + cnt ! (k - 1)]) ! b = of_nat (below key n b)"
    by (rule Suc.hyps(1)) (use Suc.hyps(2) Suc.prems k s in \<open>auto simp: nth_list_update less_Suc_eq\<close>)
  then show ?case using k upt_conv_Cons [OF k] by (simp only: add_up_from.simps)
qed simp

lemma length_bucket_values:
  assumes "\<forall>v \<in> set array. lo_of array \<le> v"
  shows "length (bucket (range_key array) (length array) b) = length (filter (\<lambda>v. nat (v - lo_of array + 1) = Suc b) array)"
proof -
  have "array = map ((!) array) [0..<length array]" by (simp add: map_nth)
  then have "length (filter (\<lambda>v. nat (v - lo_of array + 1) = Suc b) array) =
      length (filter (\<lambda>i. nat (array ! i - lo_of array + 1) = Suc b) [0..<length array])"
    by (metis (no_types, lifting) filter_cong filter_map length_map o_apply)
  also have "\<dots> = length (bucket (range_key array) (length array) b)"
    unfolding bucket_def range_key_def
    by (intro arg_cong [of _ _ length] filter_cong) (use assms in \<open>auto simp: nat_add_distrib\<close>)
  finally show ?thesis by simp
qed

subsection \<open>Placing the indices\<close>

lemma unat64: "n < 2 ^ 64 \<Longrightarrow> unat (of_nat n :: u64) = n"
  by (simp add: unat_of_nat take_bit_nat_eq_self)

lemma place_range_ok:
  assumes "i \<le> length array" "length array < 2 ^ 64" "length idx = length array" "span array \<le> length cnt" "hi_of array - lo_of array < LONG_MAX"
    and "\<And>b. b < span array \<Longrightarrow> cnt ! b = of_nat (next_slot (range_key array) (length array) i b)"
    and "placed (range_key array) (length array) (span array) i idx"
  shows "\<exists>r. place_range array (lo_of array) [i..<length array] cnt idx = Some r \<and> length r = length array \<and>
    placed (range_key array) (length array) (span array) (length array) r"
  using assms
proof (induction "length array - i" arbitrary: i cnt idx)
  case 0
  then show ?case by simp
next
  case (Suc d)
  let ?k = "range_key array i"
  define p where "p = next_slot (range_key array) (length array) i ?k"
  have i: "i < length array" using Suc.hyps(2) by linarith
  have k: "?k < span array" by (rule range_key_less [OF i])
  have p: "p < length array" using numbers.slot_in [OF i] by (simp add: p_def)
  have c: "cnt ! ?k = of_nat p" using Suc.prems(6) [OF k] by (simp add: p_def)
  have "index_of (array ! i - lo_of array) = Some ?k"
    using lo_hi [OF i] Suc.prems(5) by (auto simp: index_of_def range_key_def)
  then have "place_range array (lo_of array) [i..<length array] cnt idx =
      place_range array (lo_of array) [Suc i..<length array] (cnt[?k := of_nat p + 1]) (idx[p := i])"
    using i p c k Suc.prems(2-4) by (subst upt_conv_Cons) (simp_all add: unat64)
  moreover have "\<exists>r. place_range array (lo_of array) [Suc i..<length array] (cnt[?k := of_nat p + 1]) (idx[p := i]) = Some r \<and>
      length r = length array \<and> placed (range_key array) (length array) (span array) (length array) r"
  proof (rule Suc.hyps(1))
    show "placed (range_key array) (length array) (span array) (Suc i) (idx[p := i])"
      using numbers.placed_step [OF Suc.prems(7) i Suc.prems(3)] by (simp add: p_def)
    show "(cnt[?k := of_nat p + 1]) ! b = of_nat (next_slot (range_key array) (length array) (Suc i) b)" if "b < span array" for b
      using that Suc.prems(4,6) by (auto simp: nth_list_update p_def next_slot_Suc)
  qed (use i Suc.prems Suc.hyps(2) in auto)
  ultimately show ?case by simp
qed

subsection \<open>The result is the stable sort\<close>

lemma narrow_span:
  assumes "narrow array" "array \<noteq> []"
  shows "0 \<le> hi_of array - lo_of array" "hi_of array - lo_of array < LONG_MAX" "lo_of array \<in> set array" "hi_of array \<in> set array" "\<forall>v \<in> set array. lo_of array \<le> v \<and> v \<le> hi_of array"
proof -
  obtain a where a: "a \<in> set array" using assms(2) by (cases array) auto
  show b: "\<forall>v \<in> set array. lo_of array \<le> v \<and> v \<le> hi_of array"
    unfolding lo_of_def hi_of_def using fold_min(2) fold_max(2) by blast
  show l: "lo_of array \<in> set array"
    using fold_min(3) [of array LONG_MAX] b a assms(1) unfolding narrow_def lo_of_def by fastforce
  show h: "hi_of array \<in> set array"
    using fold_max(3) [of array LONG_MIN] b a assms(1) unfolding narrow_def hi_of_def by fastforce
  show "hi_of array - lo_of array < LONG_MAX" "0 \<le> hi_of array - lo_of array"
    using assms(1) b l h unfolding narrow_def by (blast, fastforce)
qed

lemma stl_sort_range_buckets:
  "stl_sort_range array [0..<length array] = concat (map (bucket (range_key array) (length array)) [0..<span array])"
  unfolding stl_sort_range_def numbers.stable_sort
  by (rule sort_key_mono) (use lo_hi in \<open>simp add: range_key_def nat_le_eq_zle\<close>)

lemma count_sort_range_stl:
  assumes "narrow array" "array \<noteq> []" "hi_of array - lo_of array + 1 < LONG_MAX" "length array < 2 ^ 64" "length idx = length array"
  shows "count_sort_range array idx = Some (stl_sort_range array [0..<length array])"
proof -
  note n = narrow_span [OF assms(1,2)]
  have s: "int (span array) = hi_of array - lo_of array + 1" using n(1) by (simp add: span_def)
  have "to_long (hi_of array - lo_of array) = Some (hi_of array - lo_of array)"
    "index_of (hi_of array - lo_of array + 1) = Some (span array)"
    using n(1,2) by (simp_all add: to_long_def index_of_def LONG_MIN_def span_def)
  moreover define zs :: "u64 list" where "zs = replicate (1 + span array) 0"
  have zs: "length zs = 1 + span array" "\<And>k. k < 1 + span array \<Longrightarrow> zs ! k = 0"
    by (simp_all add: zs_def del: replicate_Suc)
  have "\<exists>cs. count_above (lo_of array) array zs = Some cs \<and> length cs = length zs \<and>
      (\<forall>k < length zs. cs ! k = zs ! k + of_nat (length (filter (\<lambda>v. nat (v - lo_of array + 1) = k) array)))"
    using n(5) s assms(3) zs(1) by (intro count_above_ok) auto
  then obtain cs where cs: "count_above (lo_of array) array zs = Some cs" "length cs = 1 + span array"
    "\<forall>k < 1 + span array. cs ! k = of_nat (length (filter (\<lambda>v. nat (v - lo_of array + 1) = k) array))"
    using zs by auto
  ultimately have e: "count_sort_range array idx = place_range array (lo_of array) [0..<length array] (add_up_from [1..<span array + 1] cs) idx"
    using assms(5) unfolding count_sort_range_def Let_def lo_of_def [symmetric] hi_of_def [symmetric] by (simp add: zs_def)
  have "nat (v - lo_of array + 1) \<noteq> 0" if "v \<in> set array" for v using n(5) that by auto
  then have "filter (\<lambda>v. nat (v - lo_of array + 1) = 0) array = []" by (simp add: filter_empty_conv)
  then have c0: "cs ! 0 = of_nat (below (range_key array) (length array) 0)" using cs(3) by simp
  have "cs ! b = of_nat (length (bucket (range_key array) (length array) (b - 1)))" if "1 \<le> b" "b \<le> span array" for b
    using cs(3) that length_bucket_values [of array "b - 1"] n(5) by simp
  then have "add_up_from [1..<span array + 1] cs ! b = of_nat (below (range_key array) (length array) b)" if "b \<le> span array" for b
    using add_up_from_nth [of 1 cs "span array" "range_key array" "length array" b] c0 cs(2) that by simp
  then obtain r where r: "place_range array (lo_of array) [0..<length array] (add_up_from [1..<span array + 1] cs) idx = Some r"
    "length r = length array" "placed (range_key array) (length array) (span array) (length array) r"
    using place_range_ok [of 0 array idx "add_up_from [1..<span array + 1] cs"] assms(4,5) cs(2) n(2) by (auto simp del: upt_Suc)
  then show ?thesis using numbers.placed_all [OF r(3,2)] by (simp add: e stl_sort_range_buckets)
qed

lemma sort_rounds_stl:
  assumes "narrow array" "array \<noteq> []" "hi_of array - lo_of array + 1 < LONG_MAX" "length array < 2 ^ 64"
  shows "sort_rounds k array (stl_sort_range array [0..<length array]) = Some (stl_sort_range array [0..<length array])"
  by (induction k) (use count_sort_range_stl [OF assms] in \<open>simp_all add: stl_sort_range_def\<close>)

lemma sorts_compared:
  assumes "narrow array" "array \<noteq> []" "hi_of array - lo_of array + 1 < LONG_MAX" "length array < 2 ^ 64"
  shows "compare_sorts loops_cnt array = Some True"
  using count_sort_range_stl [OF assms] sort_rounds_stl [OF assms] by (simp add: compare_sorts_def Let_def)

text \<open>C29: For data of any spread that leaves room for two counters more, the counting sort neither leaves an
  array nor overflows and gives exactly the stable sort of the indices by their numbers, whatever the vector
  of indices held; \<open>main\<close> never reports a difference and ends exactly when its random numbers name two
  different places (never for one element).\<close>

theorem sort_range_stable:
  assumes "narrow array" "array \<noteq> []" "hi_of array - lo_of array + 1 < LONG_MAX" "length array < 2 ^ 64" "length idx = length array"
    and "mode_args argv = Some (Inr (rng, n))" "rng + 1 < LONG_MAX" "nat n \<le> length rand"
  shows "count_sort_range array idx = Some (stl_sort_range array [0..<length array]) \<and>
    main_sort_range loops_cnt rand argv = (if has_pair (nat n) (drop (nat n) rand) then Ends (Inr True) else Waits)"
proof -
  have p: "0 < rng" "0 < n" "n \<le> LONG_MAX"
    using assms(6) by (auto simp: mode_args_def atol_def LONG_MAX_def Let_def split: if_splits bind_splits)
  define lo where "lo = - (rng div 2)"
  define data where "data = map (\<lambda>r. r mod (rng + 1) + lo) (take (nat n) rand)"
  have l: "length data = nat n" using assms(8) by (simp add: data_def)
  then have ne: "data \<noteq> []" using p(2) by auto
  have s: "set data \<subseteq> {lo..rng + lo}"
  proof
    fix v assume "v \<in> set data"
    then obtain r where "v = r mod (rng + 1) + lo" by (auto simp: data_def)
    then show "v \<in> {lo..rng + lo}" using pos_mod_bound [of "rng + 1" r] pos_mod_sign [of "rng + 1" r] p(1) by auto
  qed
  have ok: "compare_sorts loops_cnt a = Some True" if a: "set a \<subseteq> {lo..rng + lo}" "length a = length data" for a
  proof (rule sorts_compared)
    have r: "lo \<le> v \<and> v \<le> rng + lo" if "v \<in> set a" for v using that a(1) by auto
    show na: "narrow a"
      unfolding narrow_def
    proof (intro ballI conjI)
      fix v w assume v: "v \<in> set a" and w: "w \<in> set a"
      show "v - w < LONG_MAX" using r [OF v] r [OF w] assms(7) by linarith
      show "LONG_MIN \<le> v" "v \<le> LONG_MAX" using r [OF v] assms(7) p(1) unfolding lo_def LONG_MIN_def LONG_MAX_def by linarith+
    qed
    show a0: "a \<noteq> []" using a(2) ne by auto
    show "hi_of a - lo_of a + 1 < LONG_MAX"
      using r [OF narrow_span(3) [OF na a0]] r [OF narrow_span(4) [OF na a0]] assms(7) by linarith
    show "length a < 2 ^ 64" using a(2) l p(3) by (simp add: LONG_MAX_def)
  qed
  show ?thesis
    using count_sort_range_stl [OF assms(1-5)] plant_ends [OF ne s, of "drop (nat n) rand"] p(1) l ok ne assms(6-8)
    by (auto simp: main_sort_range_def Let_def lo_def data_def)
qed

theorem sort_range_stable_witness:
  "count_sort_range [3, -1, 3, 0] [9, 9, 9, 9] = Some [1, 3, 0, 2] \<and>
   main_sort_range 4 [17, 2, 9, 6, 3, 1, 2] [''sort-range'', ''7'', ''3''] = Ends (Inr True)"
proof -
  have s: "stl_sort_range [3, -1, 3, 0] [0..<length [3, -1, 3, 0 :: int]] = [1, 3, 0, 2]" by code_simp
  have args: "mode_args [''sort-range'', ''7'', ''3''] = Some (Inr (7, 3))" by code_simp
  have n: "narrow [3, -1, 3, 0]" by (simp add: narrow_def LONG_MIN_def LONG_MAX_def)
  have h: "hi_of [3, -1, 3, 0] - lo_of [3, -1, 3, 0] + 1 < LONG_MAX" by (simp add: hi_of_def lo_of_def LONG_MIN_def LONG_MAX_def)
  have p: "has_pair (nat 3) (drop (nat 3) [17, 2, 9, 6, 3, 1, 2])" by code_simp
  have "length [3, -1, 3, 0 :: int] < 2 ^ 64" "length [9, 9, 9, 9 :: nat] = length [3, -1, 3, 0 :: int]"
    "(7 :: int) + 1 < LONG_MAX" "nat 3 \<le> length [17, 2, 9, 6, 3, 1, 2 :: int]" "[3, -1, 3, 0 :: int] \<noteq> []"
    by (simp_all add: LONG_MAX_def)
  then show ?thesis
    using sort_range_stable [OF n _ h _ _ args, of "[9, 9, 9, 9]" "[17, 2, 9, 6, 3, 1, 2]" 4] s p by presburger
qed

end
