(* ===== verification/MinMax.thy ===== *)
theory MinMax
  imports Prelude
begin

text \<open>
  Minimum and maximum in one pass (\<open>src/cpp/minmax.cc\<close>): two calls of the standard library for each number
  against one chain of branches. An \<open>int\<close> is a signed 32-bit number.
\<close>

definition INT_MAX :: int where "INT_MAX = 2 ^ 31 - 1"
definition INT_MIN :: int where "INT_MIN = - (2 ^ 31)"

definition stl_minmax :: "int \<Rightarrow> int \<times> int \<Rightarrow> int \<times> int" where
  "stl_minmax v mm = (min v (fst mm), max v (snd mm))"

fun opt_minmax :: "int \<Rightarrow> int \<times> int \<Rightarrow> int \<times> int" where
  "opt_minmax v (lo, hi) = (if v < lo then (v, hi) else if v > hi then (lo, v) else (lo, hi))"

text \<open>The measured loops of \<open>main\<close>. The first starts from the ends of the type, the second from the first
  number, whose load is undefined in an empty array.\<close>

definition stl_pass :: "int list \<Rightarrow> int \<times> int" where
  "stl_pass vals = fold stl_minmax vals (INT_MAX, INT_MIN)"

definition opt_pass :: "int list \<Rightarrow> (int \<times> int) option" where
  "opt_pass vals = do { v \<leftarrow> c_load vals 0; Some (fold opt_minmax vals (v, v)) }"

text \<open>The arguments: whether to sort first, and how many numbers.\<close>

definition minmax_args :: "string list \<Rightarrow> (bool \<times> int) option" where
  "minmax_args argv =
     (if length argv \<ge> 2 then
        let pre_sort = (argv ! 1 \<noteq> [] \<and> hd (argv ! 1) = CHR ''s'');
            k = (if pre_sort then 1 else 0)
        in if k + 2 = length argv then
             do { m \<leftarrow> atol (argv ! (k + 1)); Some (pre_sort, if m > 0 then m else 10000000) }
           else Some (pre_sort, 10000000)
      else Some (False, 10000000))"

text \<open>\<open>main\<close> without the clock: whether the results agree.\<close>

definition main_minmax :: "(nat \<Rightarrow> int) \<Rightarrow> string list \<Rightarrow> bool option" where
  "main_minmax rand argv =
     do {
       (pre_sort, n) \<leftarrow> minmax_args argv;
       let vals = map rand [0..<nat n];
       let vals = (if pre_sort then sort vals else vals);
       opt \<leftarrow> opt_pass vals;
       Some (stl_pass vals = opt) }"

subsection \<open>Both passes\<close>

lemma fold_stl_minmax: "fold stl_minmax vs (a, b) = (foldl min a vs, foldl max b vs)"
  by (induction vs arbitrary: a b) (simp_all add: stl_minmax_def min.commute max.commute)

lemma fold_opt_minmax: "a \<le> b \<Longrightarrow> fold opt_minmax vs (a, b) = (foldl min a vs, foldl max b vs)"
  by (induction vs arbitrary: a b) (auto simp: min_def max_def)

lemma foldl_min_first: "\<forall>v \<in> set (w # vs). v \<le> m \<Longrightarrow> foldl min m (w # vs) = foldl min w (w # vs)" for m :: int
  by (simp add: min_absorb2)

lemma foldl_max_first: "\<forall>v \<in> set (w # vs). m \<le> v \<Longrightarrow> foldl max m (w # vs) = foldl max w (w # vs)" for m :: int
  by (simp add: max_absorb2)

lemma insert_min: "finite A \<Longrightarrow> Min (insert (min a x) A) = Min (insert a (insert x A))"
  "finite A \<Longrightarrow> Max (insert (max a x) A) = Max (insert a (insert x A))" for a :: int
  by (cases "A = {}"; simp add: min.assoc max.assoc)+

lemma foldl_min_Min: "foldl min a vs = Min (insert a (set vs))" for a :: int
  by (induction vs arbitrary: a) (simp_all add: insert_min)

lemma foldl_max_Max: "foldl max a vs = Max (insert a (set vs))" for a :: int
  by (induction vs arbitrary: a) (simp_all add: insert_min)

lemma passes:
  assumes "vals \<noteq> []" "\<forall>v \<in> set vals. INT_MIN \<le> v \<and> v \<le> INT_MAX"
  shows "opt_pass vals = Some (stl_pass vals) \<and> stl_pass vals = (Min (set vals), Max (set vals))"
proof -
  obtain w vs where v: "vals = w # vs" using assms(1) by (cases vals) auto
  have s: "stl_pass vals = (foldl min w vals, foldl max w vals)"
    using assms(2) foldl_min_first [of w vs INT_MAX] foldl_max_first [of w vs INT_MIN] unfolding stl_pass_def fold_stl_minmax v by simp
  have "opt_pass vals = Some (fold opt_minmax vals (w, w))" by (simp add: opt_pass_def v)
  then show ?thesis
    using s fold_opt_minmax [of w w vals] by (simp add: foldl_min_Min foldl_max_Max v)
qed

text \<open>Remark: Both passes give the smallest and the largest number, although the branches of \<open>opt_minmax\<close> test for
  the maximum only when the number is no new minimum; \<open>main\<close> never reports a difference.\<close>

theorem minmax_agree:
  assumes "vals \<noteq> []" "\<forall>v \<in> set vals. INT_MIN \<le> v \<and> v \<le> INT_MAX"
    and "minmax_args argv = Some (pre_sort, n)" "\<forall>i. 0 \<le> rand i \<and> rand i \<le> INT_MAX"
  shows "stl_pass vals = (Min (set vals), Max (set vals)) \<and> opt_pass vals = Some (stl_pass vals) \<and>
    main_minmax rand argv = Some True"
proof -
  have "0 < n" using assms(3) by (auto simp: minmax_args_def Let_def split: if_splits bind_splits)
  let ?v = "map rand [0..<nat n]"
  let ?w = "if pre_sort then sort ?v else ?v"
  have r: "INT_MIN \<le> rand i \<and> rand i \<le> INT_MAX" for i using assms(4) [rule_format, of i] by (simp add: INT_MIN_def)
  have "length ?w = nat n" by simp
  then have "?w \<noteq> []" using \<open>0 < n\<close> by (metis less_irrefl list.size(3) zero_less_nat_eq)
  moreover have "\<forall>v \<in> set ?w. INT_MIN \<le> v \<and> v \<le> INT_MAX" using r by auto
  ultimately have "opt_pass ?w = Some (stl_pass ?w)" using passes by blast
  then show ?thesis using passes [OF assms(1,2)] assms(3) by (simp add: main_minmax_def Let_def)
qed

theorem minmax_agree_witness:
  "stl_pass [5, -2, 9] = (-2, 9) \<and> opt_pass [5, -2, 9] = Some (-2, 9) \<and> main_minmax (\<lambda>i. int i mod 10) [''minmax'', ''s'', ''33''] = Some True"
proof -
  have a: "minmax_args [''minmax'', ''s'', ''33''] = Some (True, 33)" by code_simp
  have "int i mod 10 \<le> INT_MAX" for i
    using pos_mod_bound [of 10 "int i"] by (simp add: INT_MAX_def)
  then show ?thesis using minmax_agree [OF _ _ a, of "[5, -2, 9]" "\<lambda>i. int i mod 10"] by (simp add: INT_MIN_def INT_MAX_def)
qed

end
