(* ===== verification/Mydd.thy ===== *)
theory Mydd
  imports Prelude
begin

text \<open>
  The disk benchmark (\<open>src/mysql/io-bench/mydd.cc\<close>): 4 GB in blocks of 8 KB, written by many threads, by one
  thread with many requests in flight, or to many files.

  \<^item> The system calls are lists of answers: whether each \<open>io_submit\<close>, \<open>io_getevents\<close>, \<open>pwrite\<close> or \<open>write\<close> did
    all its work. A failing call ends the process with status 1, whatever other threads are doing.
  \<^item> What is kept is the byte offset of every block written, in the order of the calls of each thread. All numbers stay far below
    \<open>LONG_MAX\<close>: offsets are \<open>nat\<close>.
\<close>

definition block_size :: nat where "block_size = 8 * 1024"
definition block_count :: nat where "block_count = 512 * 1024"

subsection \<open>Threads\<close>

text \<open>The loop over \<open>pwrite\<close>: \<open>k\<close> rounds are left. The offsets written and whether no call failed.\<close>

fun pwrite_loop :: "nat \<Rightarrow> nat \<Rightarrow> bool list \<Rightarrow> (nat list \<times> bool) run" where
  "pwrite_loop 0 off answers = Ends ([], True)"
| "pwrite_loop (Suc k) off [] = Waits"
| "pwrite_loop (Suc k) off (ok # answers) =
     (if ok then (case pwrite_loop k (off + block_size) answers of
                    Ends (offs, b) \<Rightarrow> Ends (off # offs, b) | Undefined \<Rightarrow> Undefined | Waits \<Rightarrow> Waits)
      else Ends ([], False))"

definition dio_thread :: "nat \<Rightarrow> nat \<Rightarrow> bool list \<Rightarrow> (nat list \<times> bool) run" where
  "dio_thread n_threads idx answers =
     pwrite_loop (block_count div n_threads) ((block_count * block_size) div n_threads * idx) answers"

text \<open>All threads, each with its answers; \<open>None\<close> in place of the writes when a thread ended the process.\<close>

fun join_all :: "(nat list \<times> bool) run list \<Rightarrow> nat list list option run" where
  "join_all [] = Ends (Some [])"
| "join_all (r # rs) =
     (case r of Waits \<Rightarrow> Waits | Undefined \<Rightarrow> Undefined
      | Ends (offs, ok) \<Rightarrow>
          if \<not> ok then Ends None
          else (case join_all rs of Ends (Some offss) \<Rightarrow> Ends (Some (offs # offss)) | r \<Rightarrow> r))"

definition evaluate_dio :: "nat \<Rightarrow> (nat \<Rightarrow> bool list) \<Rightarrow> nat list list option run" where
  "evaluate_dio n_threads answers = join_all (map (\<lambda>i. dio_thread n_threads i (answers i)) [0..<n_threads])"

text \<open>One file for each thread, written from the beginning; its name, and whether it could be opened.\<close>

definition file_name :: "nat \<Rightarrow> string" where
  "file_name idx = ''./__test__.bin'' @ decimal idx"

definition files_thread :: "nat \<Rightarrow> bool \<Rightarrow> bool list \<Rightarrow> (nat list \<times> bool) run" where
  "files_thread n_files opened answers =
     (if opened then pwrite_loop (block_count div n_files) 0 answers else Ends ([], False))"

definition evaluate_files :: "nat \<Rightarrow> (string \<Rightarrow> bool) \<Rightarrow> (nat \<Rightarrow> bool list) \<Rightarrow> nat list list option run" where
  "evaluate_files n_files opens answers =
     join_all (map (\<lambda>i. files_thread n_files (opens (file_name i)) (answers i)) [0..<n_files])"

subsection \<open>Requests in flight\<close>

definition aio_offset :: "nat \<Rightarrow> nat \<Rightarrow> nat" where
  "aio_offset depth sent_blocks =
     (let sub_block_index = sent_blocks mod depth; sub_block_offset = sent_blocks div depth
      in (sub_block_index * block_count div depth + sub_block_offset) * block_size)"

text \<open>The loop of \<open>evaluate_aio\<close>: one answer in each round. The result is the offsets submitted, the most
  requests that were in flight, and whether no call failed.\<close>

fun aio_loop :: "nat \<Rightarrow> nat \<Rightarrow> nat \<Rightarrow> bool list \<Rightarrow> (nat list \<times> nat \<times> bool) run" where
  "aio_loop depth pending_io sent_blocks answers =
     (if sent_blocks < block_count then
        (case answers of [] \<Rightarrow> Waits
         | ok # answers \<Rightarrow>
             if \<not> ok then Ends ([], pending_io, False)
             else if pending_io < depth \<and> sent_blocks + pending_io < block_count then
               (case aio_loop depth (pending_io + 1) sent_blocks answers of
                  Ends (offs, m, b) \<Rightarrow> Ends (aio_offset depth sent_blocks # offs, max (pending_io + 1) m, b)
                | Undefined \<Rightarrow> Undefined | Waits \<Rightarrow> Waits)
             else aio_loop depth (pending_io - 1) (sent_blocks + 1) answers)
      else Ends ([], pending_io, True))"

declare aio_loop.simps [simp del]

text \<open>\<open>set_up\<close> says whether \<open>io_setup\<close> succeeded.\<close>

definition evaluate_aio :: "nat \<Rightarrow> bool \<Rightarrow> bool list \<Rightarrow> (nat list \<times> nat \<times> bool) run" where
  "evaluate_aio depth set_up answers = (if set_up then aio_loop depth 0 0 answers else Ends ([], 0, False))"

subsection \<open>main\<close>

datatype plan = Usage | Dio nat | Aio nat | Files nat

definition lower :: "char \<Rightarrow> char" where
  "lower c = (if 65 \<le> (of_char c :: nat) \<and> (of_char c :: nat) \<le> 90 then char_of ((of_char c :: nat) + 32) else c)"

definition strcasecmp_eq :: "string \<Rightarrow> string \<Rightarrow> bool" where
  "strcasecmp_eq a b \<longleftrightarrow> map lower a = map lower b"

definition mydd_args :: "string list \<Rightarrow> plan option" where
  "mydd_args argv =
     (if 2 \<le> length argv then do {
        d \<leftarrow> atoi (argv ! 1);
        let depth = (if d \<le> 0 then 1 else nat d);
        Some (if length argv = 3 \<and> strcasecmp_eq (argv ! 2) ''aio'' then Aio depth
              else if length argv = 3 \<and> strcasecmp_eq (argv ! 2) ''files'' then Files depth
              else Dio depth) }
      else Some Usage)"

text \<open>The exit status of the program; \<open>opens\<close> says which files can be opened, \<open>answers\<close> what the calls of each
  thread return.\<close>

definition status_of :: "nat list list option run \<Rightarrow> int run" where
  "status_of r = (case r of Ends (Some _) \<Rightarrow> Ends 0 | Ends None \<Rightarrow> Ends 1 | Undefined \<Rightarrow> Undefined | Waits \<Rightarrow> Waits)"

definition main_mydd :: "string list \<Rightarrow> (string \<Rightarrow> bool) \<Rightarrow> bool \<Rightarrow> (nat \<Rightarrow> bool list) \<Rightarrow> int run" where
  "main_mydd argv opens set_up answers =
     (case mydd_args argv of None \<Rightarrow> Undefined
      | Some Usage \<Rightarrow> Ends 1
      | Some (Files n) \<Rightarrow> status_of (evaluate_files n opens answers)
      | Some (Dio n) \<Rightarrow> if opens ''./__test__.bin'' then status_of (evaluate_dio n answers) else Ends 1
      | Some (Aio d) \<Rightarrow>
          if opens ''./__test__.bin'' then
            (case evaluate_aio d set_up (answers 0) of Ends (_, _, ok) \<Rightarrow> Ends (if ok then 0 else 1)
             | Undefined \<Rightarrow> Undefined | Waits \<Rightarrow> Waits)
          else Ends 1)"

subsection \<open>The queue of requests\<close>

text \<open>The offsets of the requests from the number \<open>i\<close> on: the first \<open>depth\<close> of them are all the first block.\<close>

definition request :: "nat \<Rightarrow> nat \<Rightarrow> nat" where
  "request depth i = aio_offset depth (i + 1 - depth)"

lemma aio_loop_ok:
  assumes "0 < depth" "pending_io \<le> depth" "sent_blocks + pending_io \<le> block_count"
    and "pending_io = depth \<or> sent_blocks + pending_io = block_count \<or> sent_blocks = 0 \<or> pending_io + 1 = depth"
    and "length answers \<ge> 2 * (block_count - sent_blocks) - pending_io" "False \<notin> set answers"
  shows "\<exists>m. aio_loop depth pending_io sent_blocks answers =
     Ends (map (request depth) [sent_blocks + pending_io..<block_count], m, True) \<and> m \<le> min depth block_count \<and>
     (sent_blocks = 0 \<longrightarrow> pending_io < min depth block_count \<longrightarrow> min depth block_count \<le> m)"
  using assms
proof (induction answers arbitrary: pending_io sent_blocks)
  case Nil
  then have "sent_blocks = block_count" by simp
  then show ?case using Nil by (simp add: aio_loop.simps block_count_def)
next
  case (Cons ok answers)
  have ok: "ok" "False \<notin> set answers" using Cons.prems(6) by simp_all
  consider "block_count \<le> sent_blocks" | "sent_blocks < block_count" "pending_io < depth" "sent_blocks + pending_io < block_count"
    | "sent_blocks < block_count" "\<not> (pending_io < depth \<and> sent_blocks + pending_io < block_count)" by linarith
  then show ?case
  proof cases
    case 1
    then show ?thesis using Cons.prems by (simp add: aio_loop.simps block_count_def)
  next
    case 2
    have r: "request depth (sent_blocks + pending_io) = aio_offset depth sent_blocks"
    proof (cases "sent_blocks = 0")
      case True
      then show ?thesis using 2 by (simp add: request_def)
    next
      case False
      then have "sent_blocks + pending_io + 1 - depth = sent_blocks" using 2 Cons.prems(4) by auto
      then show ?thesis by (simp only: request_def)
    qed
    obtain m where m: "aio_loop depth (pending_io + 1) sent_blocks answers =
        Ends (map (request depth) [sent_blocks + (pending_io + 1)..<block_count], m, True)" "m \<le> min depth block_count"
      "sent_blocks = 0 \<longrightarrow> pending_io + 1 < min depth block_count \<longrightarrow> min depth block_count \<le> m"
      using Cons.IH [of "pending_io + 1" sent_blocks] 2 Cons.prems ok by fastforce
    have "aio_loop depth pending_io sent_blocks (ok # answers) =
        Ends (map (request depth) [sent_blocks + pending_io..<block_count], max (pending_io + 1) m, True)"
      using 2 ok r m(1) upt_conv_Cons [of "sent_blocks + pending_io" block_count] by (simp add: aio_loop.simps [of depth pending_io])
    then show ?thesis using m(2,3) 2 by (intro exI [of _ "max (pending_io + 1) m"]) auto
  next
    case 3
    then have p: "0 < pending_io" using Cons.prems(1,3) by linarith
    obtain m where "aio_loop depth (pending_io - 1) (sent_blocks + 1) answers =
        Ends (map (request depth) [sent_blocks + pending_io..<block_count], m, True)" "m \<le> min depth block_count"
      using Cons.IH [of "pending_io - 1" "sent_blocks + 1"] 3 p Cons.prems ok by fastforce
    then show ?thesis using 3 ok by (auto simp: aio_loop.simps [of depth pending_io])
  qed
qed

text \<open>Remark: With \<open>depth\<close> requests and no failing call \<open>evaluate_aio\<close> ends after all its submissions and waits,
  has \<open>depth\<close> requests in flight at times and never more, and makes as many requests as there are blocks:
  the first \<open>depth\<close> of them all write the first block, and the last \<open>depth - 1\<close> blocks in the order of the
  benchmark are never written.\<close>

theorem aio_requests:
  assumes "0 < depth" "depth \<le> block_count" "length answers = 2 * block_count" "False \<notin> set answers"
  shows "evaluate_aio depth True answers =
    Ends (replicate depth (aio_offset depth 0) @ map (aio_offset depth) [1..<block_count + 1 - depth], depth, True)"
proof -
  have "map (request depth) [0..<block_count] = map (request depth) ([0..<depth] @ [depth..<block_count])"
    using assms(2) upt_add_eq_append [of 0 depth "block_count - depth"] by simp
  also have "\<dots> = replicate depth (aio_offset depth 0) @ map (aio_offset depth) [1..<block_count + 1 - depth]"
    unfolding map_append
  proof (rule arg_cong2 [of _ _ _ _ "(@)"])
    show "map (request depth) [0..<depth] = replicate depth (aio_offset depth 0)"
      by (rule replicate_length_same [symmetric, THEN trans]) (auto simp: request_def)
    show "map (request depth) [depth..<block_count] = map (aio_offset depth) [1..<block_count + 1 - depth]"
      by (rule nth_equalityI) (use assms(1,2) in \<open>auto simp: request_def Suc_diff_le simp del: upt_Suc\<close>)
  qed
  finally show ?thesis
    using aio_loop_ok [OF assms(1), of 0 0 answers] assms by (fastforce simp: evaluate_aio_def min_def)
qed

subsection \<open>The regions of the threads\<close>

lemma pwrite_loop_ok:
  "length answers \<ge> k \<Longrightarrow> False \<notin> set (take k answers) \<Longrightarrow>
   pwrite_loop k off answers = Ends (map (\<lambda>i. off + i * block_size) [0..<k], True)"
proof (induction k off answers rule: pwrite_loop.induct)
  case (3 k off ok answers)
  have "map (\<lambda>i. off + i * block_size) [0..<Suc k] = off # map (\<lambda>i. off + block_size + i * block_size) [0..<k]"
    by (subst upt_conv_Cons) (simp_all add: map_Suc_upt [symmetric] del: upt_Suc map_Suc_upt)
  then show ?case using 3 by (simp del: upt_Suc)
qed simp_all

definition region :: "nat \<Rightarrow> nat \<Rightarrow> nat" where
  "region n_threads idx = (block_count * block_size) div n_threads * idx"

lemma region_size: "0 < n \<Longrightarrow> region n idx + block_count div n * block_size \<le> region n (idx + 1)"
proof -
  assume n: "0 < n"
  have "block_count div n * block_size * n \<le> block_count * block_size"
    using mult_le_mono1 [OF div_times_less_eq_dividend [of block_count n], of block_size] by (simp add: ac_simps)
  then have "block_count div n * block_size \<le> (block_count * block_size) div n"
    using n by (simp add: less_eq_div_iff_mult_less_eq)
  then show ?thesis by (simp add: region_def)
qed

lemma region_mono: "i \<le> j \<Longrightarrow> region n i \<le> region n j"
  by (simp add: region_def)

lemma join_all_ok: "(\<And>i. i \<in> set xs \<Longrightarrow> g i = Ends (f i, True)) \<Longrightarrow> join_all (map g xs) = Ends (Some (map f xs))"
  by (induction xs) simp_all

lemma dio_writes:
  assumes "\<forall>i < n. block_count div n \<le> length (answers i) \<and> False \<notin> set (answers i)"
  shows "evaluate_dio n answers = Ends (Some (map (\<lambda>idx. map (\<lambda>i. region n idx + i * block_size) [0..<block_count div n]) [0..<n]))"
proof -
  have "dio_thread n i (answers i) = Ends (map (\<lambda>k. region n i + k * block_size) [0..<block_count div n], True)"
    if "i \<in> set [0..<n]" for i
  proof -
    have "block_count div n \<le> length (answers i)" "False \<notin> set (take (block_count div n) (answers i))"
      using assms that by (auto dest: in_set_takeD)
    then show ?thesis by (simp add: dio_thread_def region_def pwrite_loop_ok)
  qed
  then show ?thesis unfolding evaluate_dio_def by (rule join_all_ok)
qed

text \<open>Remark: When no \<open>pwrite\<close> fails, every thread writes its blocks one after the other, and the blocks of two
  threads never overlap nor leave the 4 GB; but with three threads the second one begins at an odd offset,
  which direct IO refuses.\<close>

theorem dio_regions:
  assumes "0 < n" "\<forall>i < n. block_count div n \<le> length (answers i) \<and> False \<notin> set (answers i)"
  shows "\<exists>offs. evaluate_dio n answers = Ends (Some offs) \<and> length offs = n \<and>
    (\<forall>t < n. \<forall>u < t. \<forall>a \<in> set (offs ! u). \<forall>b \<in> set (offs ! t). a + block_size \<le> b) \<and>
    (\<forall>t < n. \<forall>a \<in> set (offs ! t). a + block_size \<le> block_count * block_size) \<and>
    (n = 3 \<longrightarrow> odd (hd (offs ! 1)))"
proof -
  define offs where "offs = map (\<lambda>idx. map (\<lambda>i. region n idx + i * block_size) [0..<block_count div n]) [0..<n]"
  have o: "region n t \<le> a \<and> a + block_size \<le> region n (t + 1)" if t: "t < n" "a \<in> set (offs ! t)" for t a
  proof -
    obtain i where i: "i < block_count div n" "a = region n t + i * block_size" using t by (auto simp: offs_def)
    have "Suc i * block_size \<le> block_count div n * block_size" using i(1) by (intro mult_le_mono1) simp
    then show ?thesis using region_size [OF assms(1), of t] i(2) by simp
  qed
  have top: "region n n \<le> block_count * block_size" by (simp add: region_def)
  have "a + block_size \<le> b" if "t < n" "u < t" "a \<in> set (offs ! u)" "b \<in> set (offs ! t)" for t u a b
    using o [of u a] o [of t b] that region_mono [of "u + 1" t n] by linarith
  moreover have "a + block_size \<le> block_count * block_size" if "t < n" "a \<in> set (offs ! t)" for t a
    using o [OF that] that(1) region_mono [of "t + 1" n n] top by linarith
  moreover have "odd (hd (offs ! 1))" if "n = 3"
  proof -
    have "0 < block_count div 3" by (simp add: block_count_def)
    then have "hd (offs ! 1) = region 3 1" by (simp add: offs_def that hd_map upt_conv_Cons)
    then show ?thesis by (simp add: region_def block_count_def block_size_def)
  qed
  moreover have "evaluate_dio n answers = Ends (Some offs)" "length offs = n"
    using dio_writes [OF assms(2)] by (simp_all add: offs_def)
  ultimately show ?thesis by blast
qed

theorem dio_regions_witness:
  "\<exists>offs. evaluate_dio 3 (\<lambda>_. replicate 174762 True) = Ends (Some offs) \<and> length offs = 3 \<and> odd (hd (offs ! 1))"
  using dio_regions [of 3 "\<lambda>_. replicate 174762 True"] by (auto simp: block_count_def)

theorem aio_requests_witness:
  "evaluate_aio 32 True (replicate 1048576 True) =
     Ends (replicate 32 0 @ map (aio_offset 32) [1..<524257], 32, True) \<and> aio_offset 32 33 = 134225920"
proof -
  have "aio_offset 32 0 = 0" "aio_offset 32 33 = 134225920" by (simp_all add: aio_offset_def block_size_def block_count_def)
  then show ?thesis using aio_requests [of 32 "replicate 1048576 True"] by (simp add: block_count_def)
qed

end
