(* ===== verification/SortNth.thy ===== *)
theory SortNth
  imports SortRange
begin

text \<open>
  Sorting indices with four algorithms of the standard library (\<open>src/cpp/sort-nth.cc\<close>).

  \<^item> \<open>std::sort\<close>, \<open>std::partial_sort\<close> and \<open>std::nth_element\<close> leave open in which order they put what they need not sort. They are
    arguments, functions of the keys, the position and the indices; \<open>sorts\<close>, \<open>partial_sorts\<close> and \<open>selects\<close> say what the
    language standard promises. \<open>std::stable_sort\<close> has one possible result, the stable sort of the library.
  \<^item> The clock is left out, the numbers of \<open>rand\<close> are an argument.
\<close>

subsection \<open>What the standard promises\<close>

type_synonym algorithm = "(nat \<Rightarrow> int) \<Rightarrow> nat \<Rightarrow> nat list \<Rightarrow> nat list"

definition sorts :: "algorithm \<Rightarrow> bool" where
  "sorts f \<longleftrightarrow> (\<forall>key n idx. mset (f key n idx) = mset idx \<and> sorted (map key (f key n idx)))"

definition partial_sorts :: "algorithm \<Rightarrow> bool" where
  "partial_sorts f \<longleftrightarrow> (\<forall>key n idx. n \<le> length idx \<longrightarrow>
     mset (f key n idx) = mset idx \<and> sorted (map key (take n (f key n idx))) \<and>
     (\<forall>x \<in> set (take n (f key n idx)). \<forall>y \<in> set (drop n (f key n idx)). key x \<le> key y))"

definition selects :: "algorithm \<Rightarrow> bool" where
  "selects f \<longleftrightarrow> (\<forall>key n idx. n < length idx \<longrightarrow>
     mset (f key n idx) = mset idx \<and>
     (\<forall>x \<in> set (take n (f key n idx)). key x \<le> key (f key n idx ! n)) \<and>
     (\<forall>y \<in> set (drop n (f key n idx)). key (f key n idx ! n) \<le> key y))"

subsection \<open>The four functions and main\<close>

text \<open>The comparison reads \<open>array[i]\<close>, which is undefined outside the array.\<close>

definition in_array :: "int list \<Rightarrow> nat list \<Rightarrow> bool" where
  "in_array array idx \<longleftrightarrow> (\<forall>i \<in> set idx. i < length array)"

definition sort_idx :: "algorithm \<Rightarrow> int list \<Rightarrow> nat list \<Rightarrow> nat list option" where
  "sort_idx std_sort array idx = (if in_array array idx then Some (std_sort ((!) array) 0 idx) else None)"

definition stable_sort :: "int list \<Rightarrow> nat list \<Rightarrow> nat list option" where
  "stable_sort array idx = (if in_array array idx then Some (stl_sort_range array idx) else None)"

text \<open>A position behind the end is no iterator of the vector.\<close>

definition partial_sort :: "algorithm \<Rightarrow> int list \<Rightarrow> int \<Rightarrow> nat list \<Rightarrow> nat list option" where
  "partial_sort std_partial_sort array n idx =
     (if in_array array idx \<and> 0 \<le> n \<and> n \<le> int (length idx) then Some (std_partial_sort ((!) array) (nat n) idx) else None)"

definition nth_idx :: "algorithm \<Rightarrow> int list \<Rightarrow> int \<Rightarrow> nat list \<Rightarrow> nat list option" where
  "nth_idx nth_element array n idx =
     (if in_array array idx \<and> 0 \<le> n \<and> n \<le> int (length idx) then Some (nth_element ((!) array) (nat n) idx) else None)"

text \<open>\<open>std::iota\<close> counts in an \<open>int\<close>, also once past the last element.\<close>

definition iota :: "nat \<Rightarrow> nat list option" where
  "iota n = (if int n < 2 ^ 31 then Some [0..<n] else None)"

text \<open>A warm-up and \<open>loops\<close> rounds, each on fresh indices.\<close>

primrec bench_rounds :: "nat \<Rightarrow> nat \<Rightarrow> (nat list \<Rightarrow> nat list option) \<Rightarrow> nat list option" where
  "bench_rounds 0 n f = do { idx \<leftarrow> iota n; f idx }"
| "bench_rounds (Suc k) n f = do { _ \<leftarrow> bench_rounds k n f; idx \<leftarrow> iota n; f idx }"

definition nth_args :: "string list \<Rightarrow> (string + int) option" where
  "nth_args argv =
     (if length argv = 2 then do { n \<leftarrow> atol (argv ! 1); Some (if n \<le> 0 then Inl ''count must be positive integer'' else Inr n) }
      else Some (Inr 10000000))"

text \<open>The position and the number of rounds, and the contents of the four vectors when \<open>main\<close> returns.\<close>

definition nth_position :: "int \<Rightarrow> int" where
  "nth_position n = to_int32 (n div 3)"

definition nth_loops :: "int \<Rightarrow> int" where
  "nth_loops n = (let loops = to_int32 (10000000 div n) in if loops = 0 then 1 else loops)"

record nth_results =
  idx_sort :: "nat list"
  idx_stable_sort :: "nat list"
  idx_partial_sort :: "nat list"
  idx_nth :: "nat list"

definition main_sort_nth :: "algorithm \<Rightarrow> algorithm \<Rightarrow> algorithm \<Rightarrow> (nat \<Rightarrow> int) \<Rightarrow> string list \<Rightarrow> (string + nth_results) option" where
  "main_sort_nth std_sort std_partial_sort nth_element rand argv =
     do { args \<leftarrow> nth_args argv;
          (case args of Inl msg \<Rightarrow> Some (Inl msg)
           | Inr n \<Rightarrow>
               let p = nth_position n; loops = nat (nth_loops n); array = map rand [0..<nat n] in
               do { s \<leftarrow> bench_rounds loops (nat n) (sort_idx std_sort array);
                    st \<leftarrow> bench_rounds loops (nat n) (stable_sort array);
                    ps \<leftarrow> bench_rounds loops (nat n) (partial_sort std_partial_sort array p);
                    nt \<leftarrow> bench_rounds loops (nat n) (nth_idx nth_element array p);
                    Some (Inr \<lparr>idx_sort = s, idx_stable_sort = st, idx_partial_sort = ps, idx_nth = nt\<rparr>) }) }"

subsection \<open>Sorted parts\<close>

lemma sorts_values:
  assumes "mset r = mset idx" "sorted (map key r)"
  shows "map key r = sort (map key idx)"
  using properties_for_sort [of "map key r" "map key idx"] assms by (metis mset_map)

text \<open>What is sorted up to \<open>n\<close>, with nothing smaller behind, is the beginning of the sorted list.\<close>

lemma sorted_prefix:
  assumes "mset r = mset idx" "sorted (map key (take n r))" "\<forall>x \<in> set (take n r). \<forall>y \<in> set (drop n r). key x \<le> key y"
  shows "map key (take n r) = take n (sort (map key idx))"
proof -
  let ?ys = "map key (take n r) @ sort (map key (drop n r))"
  have "mset (map key idx) = mset (map key (take n r @ drop n r))" by (simp only: append_take_drop_id mset_map assms(1))
  moreover have "mset ?ys = mset (map key (take n r @ drop n r))" by (simp del: append_take_drop_id)
  ultimately have "mset ?ys = mset (map key idx)" by simp
  moreover have "sorted ?ys" using assms(2,3) by (auto simp: sorted_append)
  ultimately have "?ys = sort (map key idx)" by (metis properties_for_sort)
  moreover have "take n ?ys = map key (take n r)" by (cases "n \<le> length r") auto
  ultimately show ?thesis by metis
qed

lemma selected_value:
  assumes "mset r = mset idx" "n < length r" "\<forall>x \<in> set (take n r). key x \<le> key (r ! n)" "\<forall>y \<in> set (drop n r). key (r ! n) \<le> key y"
  shows "key (r ! n) = sort (map key idx) ! n"
proof -
  let ?ys = "sort (map key (take n r)) @ sort (map key (drop n r))"
  have "mset (map key idx) = mset (map key (take n r @ drop n r))" by (simp only: append_take_drop_id mset_map assms(1))
  moreover have "mset ?ys = mset (map key (take n r @ drop n r))" by (simp del: append_take_drop_id)
  ultimately have m: "mset ?ys = mset (map key idx)" by simp
  have "sorted ?ys" using assms(3,4) by (force simp: sorted_append)
  then have s: "?ys = sort (map key idx)" using m by (metis properties_for_sort)
  have d: "drop n r = r ! n # drop (Suc n) r" using assms(2) by (simp add: Cons_nth_drop_Suc)
  have "sort (map key (drop n r)) = key (r ! n) # sort (map key (drop (Suc n) r))"
    using assms(4) unfolding d by (auto simp: insort_is_Cons)
  then have "?ys ! n = key (r ! n)" using assms(2) by (simp add: nth_append)
  then show ?thesis using s by simp
qed

lemma bench_rounds_run: "int n < 2 ^ 31 \<Longrightarrow> f [0..<n] = Some r \<Longrightarrow> bench_rounds k n f = Some r"
  by (induction k) (simp_all add: iota_def)

lemma position_small:
  assumes "0 < n" "n < 2 ^ 31"
  shows "nth_position n = n div 3" "0 \<le> n div 3" "n div 3 < n"
proof -
  have "0 \<le> n div 3" "n div 3 < 2 ^ 31" using assms by auto
  then show "nth_position n = n div 3" by (simp add: nth_position_def to_int32_id)
qed (use assms in auto)

lemma iota_fails: "\<not> int n < 2 ^ 31 \<Longrightarrow> bench_rounds k n f = None"
  by (induction k) (simp_all add: iota_def)

lemma sort_values_iota: "sort (map ((!) array) [0..<length array]) = sort array"
  by (simp add: map_nth)

text \<open>Remark: Given what the standard promises of its algorithms, and a count that fits an \<open>int\<close>, no access is out of bounds and the four results agree where
  they must: both sorted vectors give the numbers in order, the partly sorted one their first third, the last one the
  number at that position, and each holds every index once; without equal numbers both sorts give the same. With a greater count the
  indices overflow.\<close>

theorem sort_nth_agree:
  assumes "sorts std_sort" "partial_sorts std_partial_sort" "selects nth_element"
    and "nth_args argv = Some (Inr n)" "0 < n" "array = map rand [0..<nat n]"
  shows "case main_sort_nth std_sort std_partial_sort nth_element rand argv of
      None \<Rightarrow> 2 ^ 31 \<le> n
    | Some (Inl msg) \<Rightarrow> False
    | Some (Inr r) \<Rightarrow> n < 2 ^ 31 \<and>
        map ((!) array) (idx_sort r) = sort array \<and> map ((!) array) (idx_stable_sort r) = sort array \<and>
        map ((!) array) (take (nat (n div 3)) (idx_partial_sort r)) = take (nat (n div 3)) (sort array) \<and>
        array ! (idx_nth r ! nat (n div 3)) = sort array ! nat (n div 3) \<and>
        (\<forall>idx \<in> {idx_sort r, idx_stable_sort r, idx_partial_sort r, idx_nth r}. mset idx = mset [0..<nat n]) \<and>
        (distinct array \<longrightarrow> idx_sort r = idx_stable_sort r)"
proof (cases "n < 2 ^ 31")
  case False
  then show ?thesis using assms(4,5) iota_fails [of "nat n"] by (simp add: main_sort_nth_def Let_def)
next
  case True
  note p = position_small [OF assms(5) True]
  let ?i = "[0..<nat n]" and ?p = "nat (n div 3)"
  define s st ps nt where "s = std_sort ((!) array) 0 ?i" and "st = stl_sort_range array ?i"
    and "ps = std_partial_sort ((!) array) ?p ?i" and "nt = nth_element ((!) array) ?p ?i"
  have l: "length array = nat n" "in_array array ?i" by (simp_all add: assms(6) in_array_def)
  have i: "int (nat n) < 2 ^ 31" using True assms(5) by simp
  have pl: "?p < length ?i" using p assms(5) by simp
  have f: "sort_idx std_sort array ?i = Some s" "stable_sort array ?i = Some st"
    "partial_sort std_partial_sort array (n div 3) ?i = Some ps" "nth_idx nth_element array (n div 3) ?i = Some nt"
    using p(2,3) l assms(5) by (simp_all add: sort_idx_def stable_sort_def partial_sort_def nth_idx_def s_def st_def ps_def nt_def)
  have m: "main_sort_nth std_sort std_partial_sort nth_element rand argv =
      Some (Inr \<lparr>idx_sort = s, idx_stable_sort = st, idx_partial_sort = ps, idx_nth = nt\<rparr>)"
    unfolding main_sort_nth_def assms(4) Let_def assms(6) [symmetric] Option.bind.simps sum.case p(1)
    by (simp only: bench_rounds_run [OF i, of "sort_idx std_sort array", OF f(1)] bench_rounds_run [OF i, of "stable_sort array", OF f(2)]
        bench_rounds_run [OF i, of "partial_sort std_partial_sort array (n div 3)", OF f(3)]
        bench_rounds_run [OF i, of "nth_idx nth_element array (n div 3)", OF f(4)] Option.bind.simps)
  have v: "sort (map ((!) array) ?i) = sort array" using sort_values_iota [of array] l(1) by simp
  have s: "mset s = mset ?i" "map ((!) array) s = sort array"
    using assms(1) sorts_values [of s ?i "(!) array"] v by (simp_all add: sorts_def s_def)
  have st: "mset st = mset ?i" "map ((!) array) st = sort array"
    using sorts_values [of st ?i "(!) array"] v by (simp_all add: st_def stl_sort_range_def)
  have ps: "mset ps = mset ?i" "map ((!) array) (take ?p ps) = take ?p (sort array)"
    using assms(2) pl sorted_prefix [of ps ?i "(!) array" ?p] v unfolding partial_sorts_def ps_def by (metis less_imp_le)+
  have nt0: "mset nt = mset ?i" "\<forall>x \<in> set (take ?p nt). array ! x \<le> array ! (nt ! ?p)" "\<forall>y \<in> set (drop ?p nt). array ! (nt ! ?p) \<le> array ! y"
    using assms(3) pl unfolding selects_def nt_def by blast+
  have "length nt = length ?i" using nt0(1) by (metis size_mset)
  then have nt: "array ! (nt ! ?p) = sort array ! ?p" using selected_value [OF nt0(1) _ nt0(2,3)] pl v by simp
  have "s = st" if "distinct array"
  proof -
    have "inj_on ((!) array) (set ?i)" using that l(1) by (auto simp: inj_on_def nth_eq_iff_index_eq)
    moreover have "set s = set ?i" "set st = set ?i" using s(1) st(1) by (metis set_mset_mset)+
    ultimately show ?thesis using s(2) st(2) by (metis map_inj_on sup.idem)
  qed
  then show ?thesis using m True s st ps nt nt0(1) by simp
qed

definition by_sorting :: algorithm where "by_sorting key n idx = sort_key key idx"

lemma by_sorting_ok: "sorts by_sorting" "partial_sorts by_sorting" "selects by_sorting"
proof -
  show "sorts by_sorting" by (simp add: sorts_def by_sorting_def)
  have le: "\<forall>x \<in> set (take n (sort_key key idx)). \<forall>y \<in> set (drop n (sort_key key idx)). key x \<le> key y" for key :: "nat \<Rightarrow> int" and n idx
    using sorted_sort_key [of key idx] sorted_append [of "map key (take n (sort_key key idx))" "map key (drop n (sort_key key idx))"]
    by (simp only: map_append [symmetric] append_take_drop_id) auto
  then show "partial_sorts by_sorting"
    unfolding partial_sorts_def by_sorting_def by (simp add: take_map [symmetric] sorted_wrt_take)
  show "selects by_sorting"
    unfolding selects_def by_sorting_def
  proof (intro allI impI conjI ballI)
    fix key :: "nat \<Rightarrow> int" and n and idx :: "nat list" and x
    assume n: "n < length idx"
    then have d: "drop n (sort_key key idx) = sort_key key idx ! n # drop (Suc n) (sort_key key idx)" by (simp add: Cons_nth_drop_Suc)
    show "key x \<le> key (sort_key key idx ! n)" if "x \<in> set (take n (sort_key key idx))" using le that d by fastforce
    show "key (sort_key key idx ! n) \<le> key x" if "x \<in> set (drop n (sort_key key idx))"
    proof -
      have "sorted (map key (drop n (sort_key key idx)))" by (simp add: drop_map [symmetric] sorted_wrt_drop)
      then show ?thesis using that unfolding d by auto
    qed
  qed simp
qed

theorem sort_nth_agree_witness:
  "case main_sort_nth by_sorting by_sorting by_sorting (\<lambda>i. [7, 2, 9, 4] ! i) [''sort-nth'', ''4''] of
     Some (Inr r) \<Rightarrow> map ((!) [7, 2, 9, 4 :: int]) (idx_sort r) = [2, 4, 7, 9] \<and> [7, 2, 9, 4 :: int] ! (idx_nth r ! 1) = 4 | _ \<Rightarrow> False"
proof -
  have a: "nth_args [''sort-nth'', ''4''] = Some (Inr 4)" by code_simp
  have m: "[7, 2, 9, 4] = map (\<lambda>i. [7, 2, 9, 4 :: int] ! i) [0..<nat 4]" by code_simp
  have s: "sort [7, 2, 9, 4 :: int] = [2, 4, 7, 9]" by code_simp
  show ?thesis
    using sort_nth_agree [OF by_sorting_ok a _ m] unfolding s by (auto split: option.splits sum.splits)
qed

end
