(* ===== verification/Penalty.thy ===== *)
theory Penalty
  imports SortRange
begin

text \<open>
  What a search for minimum and maximum costs on top of sorting and of finding the mode
  (\<open>src/cpp/minmax-penalty.cc\<close>).

  \<^item> \<open>stl_sort\<close> and \<open>stl_mode\<close> have the text of those in \<open>sort-range.cc\<close> and \<open>mode-range.cc\<close> and are used from there. A value is
    a \<open>long\<close>; an overflow is undefined, \<open>None\<close>.
  \<^item> The state is the lines printed, without those about time, and the indices. The mode is thrown away, as in the source.
  \<^item> The numbers of \<open>rand\<close> and the order in which the hash map is walked are arguments.
\<close>

type_synonym penalty_state = "string list \<times> nat list"

text \<open>\<open>stl_minmax\<close>: the line is there to keep the compiler from removing the loop.\<close>

definition say_minmax :: "int list \<Rightarrow> penalty_state \<Rightarrow> penalty_state option" where
  "say_minmax array s =
     (let lo = fold (\<lambda>v m. min m v) array LONG_MAX; hi = fold (\<lambda>v m. max m v) array LONG_MIN
      in do { t \<leftarrow> to_long (lo + hi); Some (if t = 0 then (fst s @ [''lucky''], snd s) else s) })"

definition sort_again :: "int list \<Rightarrow> penalty_state \<Rightarrow> penalty_state option" where
  "sort_again array s = Some (fst s, stl_sort_range array [0..<length (snd s)])"

definition mode_again :: "int list \<Rightarrow> int list \<Rightarrow> penalty_state \<Rightarrow> penalty_state option" where
  "mode_again keys array s = (let mode = stl_mode keys array in Some s)"

definition minmax_sort :: "int list \<Rightarrow> penalty_state \<Rightarrow> penalty_state option" where
  "minmax_sort array s = do { s \<leftarrow> say_minmax array s; sort_again array s }"

definition minmax_mode :: "int list \<Rightarrow> int list \<Rightarrow> penalty_state \<Rightarrow> penalty_state option" where
  "minmax_mode keys array s = do { s \<leftarrow> say_minmax array s; mode_again keys array s }"

primrec repeat_round :: "nat \<Rightarrow> (penalty_state \<Rightarrow> penalty_state option) \<Rightarrow> penalty_state \<Rightarrow> penalty_state option" where
  "repeat_round 0 f s = Some s"
| "repeat_round (Suc k) f s = do { s \<leftarrow> f s; repeat_round k f s }"

definition penalty_args :: "string list \<Rightarrow> (string + int) option" where
  "penalty_args argv =
     (if length argv = 2 then do { n \<leftarrow> atol (argv ! 1); Some (if n \<le> 0 then Inl (argv ! 0 @ '' [count=10000000]'') else Inr n) }
      else Some (Inr 10000000))"

definition loop_cnt_of :: "int \<Rightarrow> nat" where
  "loop_cnt_of n = (let loop_cnt = to_int32 (10000000 div n) in nat (if loop_cnt = 0 then 1 else loop_cnt))"

text \<open>Each loop has a warm-up in front of it; that of the second sorts indices that are sorted already. The exit status, and the state at the end.\<close>

definition main_penalty :: "(nat \<Rightarrow> int) \<Rightarrow> int list \<Rightarrow> string list \<Rightarrow> (int \<times> penalty_state) option" where
  "main_penalty rand keys argv =
     do { args \<leftarrow> penalty_args argv;
          (case args of Inl usage \<Rightarrow> Some (1, [usage], [])
           | Inr n \<Rightarrow>
               let array = map rand [0..<nat n]; loops = loop_cnt_of n in
               do { s \<leftarrow> sort_again array ([], replicate (nat n) 0);
                    s \<leftarrow> repeat_round loops (sort_again array) s;
                    s \<leftarrow> say_minmax array s;
                    s \<leftarrow> Some (fst s, stl_sort_range array (snd s));
                    s \<leftarrow> repeat_round loops (minmax_sort array) s;
                    s \<leftarrow> mode_again keys array s;
                    s \<leftarrow> repeat_round loops (mode_again keys array) s;
                    s \<leftarrow> say_minmax array s;
                    s \<leftarrow> mode_again keys array s;
                    s \<leftarrow> repeat_round loops (minmax_mode keys array) s;
                    Some (0, s) }) }"

subsection \<open>What is printed\<close>

text \<open>What \<open>rand\<close> returns: never negative, and at most \<open>RAND_MAX\<close>, which is an \<open>int\<close>.\<close>

definition random_numbers :: "int list \<Rightarrow> bool" where
  "random_numbers array \<longleftrightarrow> (\<forall>v \<in> set array. 0 \<le> v \<and> v < 2 ^ 31)"

definition luck :: "int list \<Rightarrow> string list" where
  "luck array = (if \<forall>v \<in> set array. v = 0 then [''lucky''] else [])"

lemma say_minmax_luck:
  assumes "random_numbers array" "array \<noteq> []"
  shows "say_minmax array s = Some (fst s @ luck array, snd s)"
proof -
  let ?lo = "fold (\<lambda>v m. min m v) array LONG_MAX" and ?hi = "fold (\<lambda>v m. max m v) array LONG_MIN"
  have n: "narrow array" unfolding narrow_def
  proof (intro ballI conjI)
    fix v w assume v: "v \<in> set array" and w: "w \<in> set array"
    have "0 \<le> v" "v < 2 ^ 31" "0 \<le> w" using assms(1) v w by (auto simp: random_numbers_def)
    then show "LONG_MIN \<le> v" "v \<le> LONG_MAX" "v - w < LONG_MAX" by (simp_all add: LONG_MIN_def LONG_MAX_def)
  qed
  note b = narrow_span [OF n assms(2), unfolded lo_of_def hi_of_def]
  have r: "0 \<le> ?lo" "?lo < 2 ^ 31" "0 \<le> ?hi" "?hi < 2 ^ 31" using assms(1) b(3,4) unfolding random_numbers_def by blast+
  then have "to_long (?lo + ?hi) = Some (?lo + ?hi)" by (simp add: to_long_def LONG_MIN_def LONG_MAX_def)
  moreover have "?lo + ?hi = 0 \<longleftrightarrow> (\<forall>v \<in> set array. v = 0)"
  proof
    assume "?lo + ?hi = 0"
    then have "?lo = 0" "?hi = 0" using r by linarith+
    then show "\<forall>v \<in> set array. v = 0" using b(5) by force
  next
    assume "\<forall>v \<in> set array. v = 0"
    then have "?lo = 0" "?hi = 0" using b(3,4) by blast+
    then show "?lo + ?hi = 0" by simp
  qed
  ultimately show ?thesis by (simp add: say_minmax_def Let_def luck_def prod_eq_iff)
qed

lemma repeat_sort: "length (snd s) = n \<Longrightarrow>
  repeat_round k (sort_again array) (fst s, stl_sort_range array [0..<n]) = Some (fst s, stl_sort_range array [0..<n])"
  by (induction k) (simp_all add: sort_again_def stl_sort_range_def)

lemma repeat_minmax_sort:
  assumes "random_numbers array" "array \<noteq> []"
  shows "repeat_round k (minmax_sort array) (out, stl_sort_range array [0..<n]) =
    Some (out @ concat (replicate k (luck array)), stl_sort_range array [0..<n])"
  by (induction k arbitrary: out) (simp_all add: minmax_sort_def say_minmax_luck [OF assms] sort_again_def stl_sort_range_def)

lemma repeat_mode: "repeat_round k (mode_again keys array) s = Some s"
  by (induction k) (simp_all add: mode_again_def)

lemma repeat_minmax_mode:
  assumes "random_numbers array" "array \<noteq> []"
  shows "repeat_round k (minmax_mode keys array) (out, idx) = Some (out @ concat (replicate k (luck array)), idx)"
  by (induction k arbitrary: out) (simp_all add: minmax_mode_def say_minmax_luck [OF assms] mode_again_def)

lemma concat_replicate_twice: "concat (replicate (2 * (k + 1)) xs) = xs @ concat (replicate k xs) @ xs @ concat (replicate k xs)"
proof -
  have "2 * (k + 1) = Suc k + Suc k" by simp
  then show ?thesis by (simp only: replicate_add concat_append replicate_Suc concat.simps append_assoc)
qed

lemma stl_sort_twice: "stl_sort_range array (stl_sort_range array idx) = stl_sort_range array idx"
  by (simp add: stl_sort_range_def sort_key_id_if_sorted)

text \<open>C0: On every argument that asks for some number of elements the program is defined and returns 0; the line that keeps
  the compiler honest is printed in every search when all random numbers are 0, and never otherwise; the
  indices end up in the order of the stable sort.\<close>

theorem penalty_output:
  assumes "penalty_args argv = Some (Inr n)" "array = map rand [0..<nat n]" "random_numbers array" "0 < n"
  shows "main_penalty rand keys argv =
    Some (0, concat (replicate (2 * (loop_cnt_of n + 1)) (luck array)), stl_sort_range array [0..<nat n])"
proof -
  have ne: "array \<noteq> []" using assms(2,4) by auto
  note r = say_minmax_luck [OF assms(3) ne] repeat_minmax_sort [OF assms(3) ne] repeat_minmax_mode [OF assms(3) ne]
  have "concat (replicate (2 * (loop_cnt_of n + 1)) (luck array)) = luck array @ concat (replicate (loop_cnt_of n) (luck array)) @
      luck array @ concat (replicate (loop_cnt_of n) (luck array))"
    by (rule concat_replicate_twice)
  then show ?thesis
    using assms(1) r repeat_sort [of "([], replicate (nat n) 0)" "nat n" "loop_cnt_of n" array]
    by (simp add: main_penalty_def assms(2) [symmetric] sort_again_def Let_def repeat_mode mode_again_def stl_sort_twice)
qed

end
