(* ===== verification/SumLoops.thy ===== *)
theory SumLoops
  imports Prelude
begin

text \<open>
  Two programs that add up numbers in different orders to see the caches: \<open>src/8way.c\<close> and
  \<open>src/mysql/io-bench/memory.cc\<close>.

  \<^item> In \<open>8way.c\<close> a number is a signed \<open>int\<close>, whose overflow is undefined, \<open>None\<close>. The loops are functions of the
    array and of its dimensions; \<open>main\<close> uses them at those of the source. The loop nest that the preprocessor removes
    is \<open>sum_columns\<close>, of which the nest that is compiled uses three parts.
  \<^item> In \<open>memory.cc\<close> the sum is an unsigned 32-bit number. The random generator is an argument.
\<close>

subsection \<open>8way.c\<close>

definition to_int :: "int \<Rightarrow> int option" where
  "to_int x = (if - (2 ^ 31) \<le> x \<and> x < 2 ^ 31 then Some x else None)"

text \<open>\<open>r += d[i][j]\<close> where \<open>d[i]\<close> is \<open>dd + i * SZ\<close>.\<close>

definition add_at :: "int list \<Rightarrow> nat \<Rightarrow> nat \<times> nat \<Rightarrow> int \<Rightarrow> int option" where
  "add_at dd sz ij r = (case ij of (i, j) \<Rightarrow> do { x \<leftarrow> c_load dd (i * sz + j); to_int (r + x) })"

fun add_all :: "int list \<Rightarrow> nat \<Rightarrow> (nat \<times> nat) list \<Rightarrow> int \<Rightarrow> int option" where
  "add_all dd sz [] r = Some r"
| "add_all dd sz (ij # rest) r = do { r \<leftarrow> add_at dd sz ij r; add_all dd sz rest r }"

text \<open>The order in which a loop over \<open>j\<close> around a loop over \<open>i\<close> from \<open>a\<close> to \<open>b\<close> visits the array.\<close>

definition visits :: "nat \<Rightarrow> nat \<Rightarrow> nat \<Rightarrow> (nat \<times> nat) list" where
  "visits sz a b = concat (map (\<lambda>j. map (\<lambda>i. (i, j)) [a..<b]) [0..<sz])"

definition sum_columns :: "int list \<Rightarrow> nat \<Rightarrow> int option" where
  "sum_columns dd sz = add_all dd sz (visits sz 0 20) 0"

definition sum_blocks :: "int list \<Rightarrow> nat \<Rightarrow> int option" where
  "sum_blocks dd sz =
     do { r \<leftarrow> add_all dd sz (visits sz 0 8) 0;
          r \<leftarrow> add_all dd sz (visits sz 8 16) r;
          add_all dd sz (visits sz 16 20) r }"

definition SZ :: nat where "SZ = 32 * 1024 * 1024"

text \<open>\<open>memset\<close> makes all numbers 0.\<close>

definition main_8way :: "int option" where
  "main_8way = sum_blocks (replicate (SZ * 20) 0) SZ"

subsection \<open>memory.cc\<close>

definition N :: nat where "N = 256 * 1024"
definition L :: nat where "L = 256 * 1024"

definition get5 :: "nat list \<Rightarrow> u8 list \<Rightarrow> nat \<Rightarrow> u32 option" where
  "get5 index data i = do { k \<leftarrow> c_load index i; x \<leftarrow> c_load data k; Some (ucast x) }"

definition get4 :: "nat list \<Rightarrow> u8 list \<Rightarrow> nat \<Rightarrow> u32 option" where "get4 index data i = get5 index data i"
definition get3 :: "nat list \<Rightarrow> u8 list \<Rightarrow> nat \<Rightarrow> u32 option" where "get3 index data i = get4 index data i"
definition get2 :: "nat list \<Rightarrow> u8 list \<Rightarrow> nat \<Rightarrow> u32 option" where "get2 index data i = get3 index data i"
definition get1 :: "nat list \<Rightarrow> u8 list \<Rightarrow> nat \<Rightarrow> u32 option" where "get1 index data i = get2 index data i"

fun sum_get :: "(nat \<Rightarrow> u32 option) \<Rightarrow> nat list \<Rightarrow> u32 \<Rightarrow> u32 option" where
  "sum_get g [] s = Some s"
| "sum_get g (i # is) s = do { x \<leftarrow> g i; sum_get g is (s + x) }"

primrec sum_rounds :: "nat \<Rightarrow> (nat \<Rightarrow> u32 option) \<Rightarrow> nat list \<Rightarrow> u32 \<Rightarrow> u32 option" where
  "sum_rounds 0 g is s = Some s"
| "sum_rounds (Suc n) g is s = do { s \<leftarrow> sum_get g is s; sum_rounds n g is s }"

text \<open>\<open>data[i] = i\<close> keeps the low byte; \<open>dist k\<close> is the \<open>k\<close>-th number of the distribution. The result is the exit status, an
  \<open>int\<close> with the bits of the sum.\<close>

definition memory_data :: "u8 list" where "memory_data = map of_nat [0..<N]"

definition main_memory :: "(nat \<Rightarrow> nat) \<Rightarrow> int option" where
  "main_memory dist =
     (let index = map dist [0..<L] in
      do { s \<leftarrow> sum_rounds 2000 (get2 index memory_data) [0..<L] 0;
           s \<leftarrow> sum_rounds 2000 (get1 index memory_data) [0..<L] s;
           Some (sint s) })"

subsection \<open>The order does not matter\<close>

lemma add_all_sum:
  assumes "\<forall>(i, j) \<in> set ijs. i * sz + j < length dd" "\<bar>r\<bar> + (\<Sum>(i, j)\<leftarrow>ijs. \<bar>dd ! (i * sz + j)\<bar>) < 2 ^ 31"
  shows "add_all dd sz ijs r = Some (r + (\<Sum>(i, j)\<leftarrow>ijs. dd ! (i * sz + j)))"
  using assms
proof (induction ijs arbitrary: r)
  case (Cons ij ijs)
  obtain i j where ij: "ij = (i, j)" by (cases ij)
  let ?x = "dd ! (i * sz + j)"
  have p: "0 \<le> (\<Sum>(i, j)\<leftarrow>ijs. \<bar>dd ! (i * sz + j)\<bar>)" by (rule sum_list_nonneg) auto
  then have "to_int (r + ?x) = Some (r + ?x)" using Cons.prems(2) unfolding ij to_int_def by simp linarith
  moreover have "\<bar>r + ?x\<bar> + (\<Sum>(i, j)\<leftarrow>ijs. \<bar>dd ! (i * sz + j)\<bar>) < 2 ^ 31" using Cons.prems(2) abs_triangle_ineq [of r ?x] by (simp add: ij)
  ultimately show ?case using Cons.IH [of "r + ?x"] Cons.prems(1) by (simp add: ij add_at_def)
qed simp

text \<open>The sum over a part of the nest, and over the whole array.\<close>

lemma visits_sum: "(\<Sum>(i, j)\<leftarrow>visits sz a b. f i j) = (\<Sum>i\<in>{a..<b}. \<Sum>j\<in>{..<sz}. (f i j :: int))"
proof -
  have "(\<Sum>(i, j)\<leftarrow>concat (map (\<lambda>j. map (\<lambda>i. (i, j)) is) js). f i j) = (\<Sum>j\<leftarrow>js. \<Sum>i\<leftarrow>is. f i j)" for "is" js
    by (induction js) (simp_all add: comp_def)
  then have "(\<Sum>(i, j)\<leftarrow>visits sz a b. f i j) = (\<Sum>j\<leftarrow>[0..<sz]. \<Sum>i\<leftarrow>[a..<b]. f i j)" by (simp add: visits_def)
  also have "\<dots> = (\<Sum>j\<in>{..<sz}. \<Sum>i\<in>{a..<b}. f i j)" by (simp add: sum_list_distinct_conv_sum_set lessThan_atLeast0)
  finally show ?thesis by (simp only: sum.swap [of _ "{..<sz}"])
qed

lemma array_sum:
  fixes f :: "nat \<Rightarrow> int"
  shows "(\<Sum>i\<in>{0..<20}. \<Sum>j\<in>{..<sz}. f (i * sz + j)) = (\<Sum>k\<in>{..<20 * sz}. f k)"
proof -
  have "(\<Sum>j\<in>{..<sz}. f (i * sz + j)) = sum f {i * sz..<i * sz + sz}" for i
    using sum.shift_bounds_nat_ivl [of f 0 "i * sz" sz] by (simp add: lessThan_atLeast0 add.commute)
  then show ?thesis using sum.nat_group [of f sz 20] by (simp add: lessThan_atLeast0)
qed

lemma array_place: "i < 20 \<Longrightarrow> j < sz \<Longrightarrow> i * sz + j < 20 * (sz :: nat)"
proof -
  assume "i < 20" "j < sz"
  then have "(i + 1) * sz \<le> 20 * sz" by (intro mult_le_mono1) simp
  moreover have "(i + 1) * sz = i * sz + sz" by simp
  ultimately show ?thesis using \<open>j < sz\<close> by linarith
qed

lemma visits_set: "set (visits sz a b) = {a..<b} \<times> {..<sz}"
  by (auto simp: visits_def)

text \<open>The three parts visit what the whole nest visits.\<close>

lemma blocks_sum:
  fixes f :: "nat \<Rightarrow> nat \<Rightarrow> int"
  shows "(\<Sum>(i, j)\<leftarrow>visits sz 0 8. f i j) + (\<Sum>(i, j)\<leftarrow>visits sz 8 16. f i j) + (\<Sum>(i, j)\<leftarrow>visits sz 16 20. f i j) =
    (\<Sum>(i, j)\<leftarrow>visits sz 0 20. f i j)"
  unfolding visits_sum
  using sum.atLeastLessThan_concat [of 0 8 16 "\<lambda>i. \<Sum>j\<in>{..<sz}. f i j"] sum.atLeastLessThan_concat [of 0 16 20 "\<lambda>i. \<Sum>j\<in>{..<sz}. f i j"] by simp

lemma whole_sum:
  fixes g :: "int \<Rightarrow> int"
  assumes "length dd = 20 * sz"
  shows "(\<Sum>(i, j)\<leftarrow>visits sz 0 20. g (dd ! (i * sz + j))) = (\<Sum>x\<leftarrow>dd. g x)"
proof -
  have "(\<Sum>(i, j)\<leftarrow>visits sz 0 20. g (dd ! (i * sz + j))) = (\<Sum>k\<in>{..<20 * sz}. g (dd ! k))"
    by (simp add: visits_sum array_sum [of "\<lambda>k. g (dd ! k)"])
  then show ?thesis using assms by (simp add: sum_list_sum_nth lessThan_atLeast0)
qed

lemma nest_sum:
  assumes "length dd = 20 * sz" "(\<Sum>x\<leftarrow>dd. \<bar>x\<bar>) < 2 ^ 31"
  shows "sum_blocks dd sz = Some (sum_list dd)" "sum_columns dd sz = Some (sum_list dd)"
proof -
  define S where "S a b = (\<Sum>(i, j)\<leftarrow>visits sz a b. dd ! (i * sz + j))" for a b
  define A where "A a b = (\<Sum>(i, j)\<leftarrow>visits sz a b. \<bar>dd ! (i * sz + j)\<bar>)" for a b
  have whole: "S 0 20 = sum_list dd" "A 0 20 < 2 ^ 31"
    using whole_sum [OF assms(1), of "\<lambda>x. x"] whole_sum [OF assms(1), of abs] assms(2) by (simp_all add: S_def A_def)
  have parts: "S 0 8 + S 8 16 + S 16 20 = S 0 20" "A 0 8 + A 8 16 + A 16 20 = A 0 20"
    unfolding S_def A_def by (rule blocks_sum)+
  have le: "\<bar>S a b\<bar> \<le> A a b" for a b
    unfolding S_def A_def case_prod_beta using sum_list_abs [of "map (\<lambda>p. dd ! (fst p * sz + snd p)) (visits sz a b)"] by (simp add: comp_def)
  have run: "add_all dd sz (visits sz a b) r = Some (r + S a b)" if "b \<le> 20" "\<bar>r\<bar> + A a b < 2 ^ 31" for a b r
    unfolding S_def by (rule add_all_sum) (use that array_place assms(1) in \<open>auto simp: A_def visits_set\<close>)
  have "0 \<le> A 8 16" "0 \<le> A 16 20" "\<bar>S 0 8\<bar> \<le> A 0 8" "\<bar>S 0 8 + S 8 16\<bar> \<le> A 0 8 + A 8 16"
    using le [of 8 16] le [of 16 20] le [of 0 8] by linarith+
  then show "sum_blocks dd sz = Some (sum_list dd)"
    using whole parts run [of 8 0 0] run [of 16 "S 0 8" 8] run [of 20 "S 0 8 + S 8 16" 16] by (simp add: sum_blocks_def)
  show "sum_columns dd sz = Some (sum_list dd)" using run [of 20 0 0] whole by (simp add: sum_columns_def)
qed

lemma get2_get1: "get1 = get5" "get2 = get5"
  by (simp_all add: fun_eq_iff get1_def get2_def get3_def get4_def)

lemma get5_value:
  assumes "i < L" "dist i < N"
  shows "get5 (map dist [0..<L]) memory_data i = Some (of_nat (dist i mod 256))"
proof -
  have "(ucast (of_nat k :: u8) :: u32) = of_nat (k mod 256)" for k :: nat
    by (simp add: word_unat_eq_iff unsigned_ucast_eq unsigned_of_nat take_bit_eq_mod)
  then show ?thesis using assms by (simp add: get5_def memory_data_def)
qed

lemma sum_get_sum: "\<forall>i \<in> set is. g i = Some (of_nat (f i)) \<Longrightarrow> sum_get g is s = Some (s + of_nat (sum_list (map f is)))"
  by (induction "is" arbitrary: s) (simp_all add: add.assoc)

lemma sum_rounds_sum:
  "\<forall>i \<in> set is. g i = Some (of_nat (f i)) \<Longrightarrow> sum_rounds n g is s = Some (s + of_nat (n * sum_list (map f is)))"
proof (induction n arbitrary: s)
  case (Suc n)
  then show ?case using sum_get_sum [OF Suc.prems, of s] by (simp add: algebra_simps)
qed simp

text \<open>C0: Adding up the columns in blocks of eight rows gives the same sum as the loop it replaces, that of all numbers,
  whatever they are, as long as no sum can overflow; so the program of the source returns 0. The two measured loops
  of \<open>memory.cc\<close> add up the same bytes, modulo \<open>2 ^ 32\<close>.\<close>

theorem sums_agree:
  assumes "length dd = 20 * sz" "(\<Sum>x\<leftarrow>dd. \<bar>x\<bar>) < 2 ^ 31" "\<forall>i<L. dist i < N"
  shows "sum_blocks dd sz = Some (sum_list dd) \<and> sum_columns dd sz = Some (sum_list dd) \<and> main_8way = Some 0 \<and>
    main_memory dist = Some (sint (of_nat (4000 * (\<Sum>i<L. dist i mod 256)) :: u32))"
proof -
  have "\<forall>i \<in> set [0..<L]. get5 (map dist [0..<L]) memory_data i = Some (of_nat (dist i mod 256))"
    using get5_value assms(3) by simp
  note r = sum_rounds_sum [OF this]
  have "main_memory dist = Some (sint (of_nat (2000 * (\<Sum>i\<leftarrow>[0..<L]. dist i mod 256) + 2000 * (\<Sum>i\<leftarrow>[0..<L]. dist i mod 256)) :: u32))"
    unfolding main_memory_def get2_get1 Let_def r by (simp only: r Option.bind.simps add_0_left of_nat_add)
  then have "main_memory dist = Some (sint (of_nat (4000 * (\<Sum>i<L. dist i mod 256)) :: u32))"
    by (simp add: sum_list_distinct_conv_sum_set lessThan_atLeast0)
  moreover have "main_8way = Some 0"
    using nest_sum(1) [of "replicate (SZ * 20) 0" SZ] by (simp add: main_8way_def sum_list_replicate)
  ultimately show ?thesis using nest_sum [OF assms(1,2)] by blast
qed

end
