(* ===== verification/Workload.thy ===== *)
theory Workload
  imports Prelude
begin

text \<open>
  The program with 800 functions (\<open>src/mysql/big-workload\<close>), which is to miss the instruction cache.

  \<^item> The macros make the functions and the calls: \<open>fabc\<close> is the function with the digits \<open>a\<close>, \<open>b\<close>, \<open>c\<close>, here a triple.
  \<^item> The state has the volatile variables. \<open>called\<close> counts the calls of a function, which the program does not.
\<close>

type_synonym func = "nat \<times> nat \<times> nat"

record workload =
  u_var :: u64
  marks :: "func \<Rightarrow> int"
  called :: "func \<Rightarrow> nat"

definition v_var :: u64 where "v_var = 0x1122334455667788"

definition workload_init :: workload where
  "workload_init = \<lparr>u_var = 0, marks = (\<lambda>_. 0), called = (\<lambda>_. 0)\<rparr>"

subsection \<open>funcs.c\<close>

text \<open>The functions that \<open>F3(0)\<close> to \<open>F3(7)\<close> define.\<close>

definition defined_funcs :: "func list" where
  "defined_funcs = concat (map (\<lambda>a. concat (map (\<lambda>b. map (\<lambda>c. (a, b, c)) [0..<10]) [0..<10])) [0..<8])"

text \<open>\<open>const unsigned u = 1ULL << ((v >> k) & 63)\<close>: a 64-bit shift whose result is cut to 32 bits.\<close>

definition shifted_one :: "u64 \<Rightarrow> nat \<Rightarrow> u32" where
  "shifted_one v k = ucast (push_bit (unat (drop_bit k v AND 63)) (1 :: u64))"

definition u_value :: "u64 \<Rightarrow> u64" where
  "u_value v =
     ucast (shifted_one v 56 OR shifted_one v 48 OR shifted_one v 40 OR shifted_one v 32 OR
            shifted_one v 24 OR shifted_one v 16 OR shifted_one v 8 OR shifted_one v 0)"

definition f_abc :: "func \<Rightarrow> workload \<Rightarrow> workload" where
  "f_abc f s = s\<lparr>marks := (marks s)(f := 1), u_var := u_value v_var, called := (called s)(f := called s f + 1)\<rparr>"

subsection \<open>main.c\<close>

text \<open>The orders of the digits in the macros and in \<open>main\<close>.\<close>

definition order_c :: "nat list" where "order_c = [2, 8, 5, 7, 3, 1, 0, 9, 4, 6]"
definition order_b :: "nat list" where "order_b = [6, 2, 9, 3, 4, 0, 5, 7, 8, 1]"
definition order_a :: "nat list" where "order_a = [4, 1, 6, 3, 0, 7, 2, 5]"

definition CALL_F2 :: "nat \<Rightarrow> nat \<Rightarrow> func list" where
  "CALL_F2 a b = map (\<lambda>c. (a, b, c)) order_c"

definition CALL_F3 :: "nat \<Rightarrow> func list" where
  "CALL_F3 a = concat (map (CALL_F2 a) order_b)"

definition run_calls :: "func list \<Rightarrow> workload \<Rightarrow> workload" where
  "run_calls fs s = foldl (\<lambda>s f. f_abc f s) s fs"

definition all_calls :: "func list" where
  "all_calls = concat (map CALL_F3 order_a)"

text \<open>\<open>main\<close> with and without \<open>SMALL_WORKLOAD\<close>.\<close>

definition main_workload :: "bool \<Rightarrow> workload \<Rightarrow> workload" where
  "main_workload small s =
     (if small then (run_calls (CALL_F2 0 0) ^^ 100000) s
      else (run_calls all_calls ^^ 1000) s)"

subsection \<open>How often a function is called\<close>

lemma run_calls_effect:
  "run_calls fs s = s\<lparr>marks := (\<lambda>f. if f \<in> set fs then 1 else marks s f),
     u_var := (if fs = [] then u_var s else u_value v_var), called := (\<lambda>f. called s f + count_list fs f)\<rparr>"
proof (induction fs arbitrary: s)
  case (Cons g fs)
  show ?case using Cons [of "f_abc g s"] by (simp add: run_calls_def f_abc_def fun_eq_iff)
qed (simp add: run_calls_def)

lemma rounds_effect:
  assumes "fs \<noteq> []"
  shows "(run_calls fs ^^ Suc n) s = s\<lparr>marks := (\<lambda>f. if f \<in> set fs then 1 else marks s f),
     u_var := u_value v_var, called := (\<lambda>f. called s f + Suc n * count_list fs f)\<rparr>"
  using assms by (induction n) (simp_all add: run_calls_effect fun_eq_iff algebra_simps)

lemma count_calls: "count_list (map (\<lambda>c. (x, c)) cs) (y, z) = (if y = x then count_list cs z else 0)"
  by (induction cs) auto

lemma count_rows: "count_list (concat (map (\<lambda>b. map (\<lambda>c. (b, c)) (g b)) bs)) (y, z) = count_list bs y * count_list (g y) z"
  by (induction bs) (auto simp: count_list_append count_calls)

lemma calls_rows: "CALL_F2 a b = map (Pair a) (map (Pair b) order_c)"
  "CALL_F3 a = map (Pair a) (concat (map (\<lambda>b. map (\<lambda>c. (b, c)) order_c) order_b))"
proof -
  have r: "CALL_F2 a = (\<lambda>b. map (Pair a) (map (Pair b) order_c))" for a by (simp add: CALL_F2_def fun_eq_iff)
  show "CALL_F2 a b = map (Pair a) (map (Pair b) order_c)" by (simp only: r)
  show "CALL_F3 a = map (Pair a) (concat (map (\<lambda>b. map (\<lambda>c. (b, c)) order_c) order_b))"
    by (simp only: CALL_F3_def r map_concat map_map comp_def)
qed

lemma count_all_calls:
  "count_list all_calls (a, b, c) =
   count_list order_a a * (count_list order_b b * count_list order_c c)"
proof -
  have "CALL_F3 = (\<lambda>a. map (\<lambda>r. (a, r)) (concat (map (\<lambda>b. map (\<lambda>c. (b, c)) order_c) order_b)))"
    by (rule ext) (rule calls_rows(2))
  then have "all_calls = concat (map (\<lambda>a. map (\<lambda>r. (a, r)) (concat (map (\<lambda>b. map (\<lambda>c. (b, c)) order_c) order_b))) order_a)"
    by (simp add: all_calls_def)
  then have "count_list all_calls (a, b, c) = count_list order_a a * count_list (concat (map (\<lambda>b. map (\<lambda>c. (b, c)) order_c) order_b)) (b, c)"
    using count_rows [of "\<lambda>_. concat (map (\<lambda>b. map (\<lambda>c. (b, c)) order_c) order_b)" order_a a "(b, c)"] by argo
  then show ?thesis using count_rows [of "\<lambda>_. order_c" order_b b c] by argo
qed

lemma count_small_calls: "count_list (CALL_F2 0 0) (a, b, c) = (if a = 0 \<and> b = 0 then count_list order_c c else 0)"
  by (simp add: calls_rows(1) count_calls del: map_map list.map)

lemma count_digits:
  "count_list order_c c = (if c < 10 then 1 else 0)"
  "count_list order_b c = (if c < 10 then 1 else 0)"
  "count_list order_a c = (if c < 8 then 1 else 0)"
  by (auto simp: order_a_def order_b_def order_c_def)

lemma in_defined: "(a, b, c) \<in> set defined_funcs \<longleftrightarrow> a < 8 \<and> b < 10 \<and> c < 10"
  by (auto simp: defined_funcs_def image_iff)

lemma u_value_v: "u_value v_var = 0x220110"
  by code_simp

text \<open>Remark: The big workload calls every function that is defined, and only those, 1000 times; the small one calls ten of them, 100000 times
  each. Both mark what they call and leave the same number: of the eight bits that a function sets in 64 the narrow variables keep
  the four below \<open>2 ^ 32\<close>.\<close>

theorem workload_calls:
  "called (main_workload small s) f = called s f +
     (if small then if f \<in> set (CALL_F2 0 0) then 100000 else 0 else if f \<in> set defined_funcs then 1000 else 0) \<and>
   length (CALL_F2 0 0) = 10 \<and> set (CALL_F2 0 0) \<subseteq> set defined_funcs \<and> length defined_funcs = 800 \<and> distinct defined_funcs \<and>
   marks (main_workload small s) f = (if called (main_workload small s) f = called s f then marks s f else 1) \<and>
   u_var (main_workload small s) = 2 ^ 17 + 2 ^ 4 + 2 ^ 21 + 2 ^ 8"
proof -
  obtain a b c where f: "f = (a, b, c)" by (cases f)
  have in_all: "(a, b, c) \<in> set all_calls \<longleftrightarrow> (a, b, c) \<in> set defined_funcs"
    using count_list_0_iff [of all_calls "(a, b, c)"] by (auto simp: count_all_calls count_digits in_defined split: if_splits)
  have in_small: "(a, b, c) \<in> set (CALL_F2 0 0) \<longleftrightarrow> a = 0 \<and> b = 0 \<and> c < 10"
    using count_list_0_iff [of "CALL_F2 0 0" "(a, b, c)"] by (auto simp: count_small_calls count_digits split: if_splits)
  have ne: "all_calls \<noteq> []" "CALL_F2 0 0 \<noteq> []" by (simp_all add: all_calls_def CALL_F3_def CALL_F2_def order_a_def order_b_def order_c_def)
  note big = rounds_effect [OF ne(1), of 999 s] and few = rounds_effect [OF ne(2), of 99999 s]
  have n: "Suc 999 = 1000" "Suc 99999 = 100000" by simp_all
  have cnt: "count_list all_calls f = (if f \<in> set defined_funcs then 1 else 0)"
    "count_list (CALL_F2 0 0) f = (if f \<in> set (CALL_F2 0 0) then 1 else 0)"
    using in_small by (simp_all add: f count_all_calls count_small_calls count_digits in_defined)
  have runs: "called (main_workload small s) f = called s f +
     (if small then if f \<in> set (CALL_F2 0 0) then 100000 else 0 else if f \<in> set defined_funcs then 1000 else 0)"
    "marks (main_workload small s) f = (if f \<in> (if small then set (CALL_F2 0 0) else set defined_funcs) then 1 else marks s f)"
    "u_var (main_workload small s) = u_value v_var"
    using big few in_all by (simp_all add: main_workload_def n cnt f [symmetric])
  have sub: "set (CALL_F2 0 0) \<subseteq> set defined_funcs" by (auto simp: CALL_F2_def order_c_def in_defined)
  have len: "length (CALL_F2 0 0) = 10" "length defined_funcs = 800"
    by (simp_all add: CALL_F2_def order_c_def defined_funcs_def length_concat comp_def sum_list_triv)
  have "set defined_funcs = {..<8} \<times> {..<10} \<times> {..<10}" by (auto simp: in_defined)
  then have "card (set defined_funcs) = length defined_funcs" by (simp add: len)
  then have "distinct defined_funcs" by (rule card_distinct)
  then show ?thesis using runs sub len by (auto simp: u_value_v)
qed

end
