(* ===== verification/BitCounts.thy ===== *)
theory BitCounts
  imports Prelude
begin

text \<open>
  Counting and finding bits, and integer conversions: \<open>src/quick-bench/bitmapand-popcnt.cc\<close>, \<open>src/bench-lsb.cc\<close> and \<open>src/c-conv.c\<close>.

  \<^item> The benchmark library runs a loop as often as it likes and keeps the results from being removed; only one run is shown.
    Random numbers are arguments.
  \<^item> Whether \<open>char\<close> is signed depends on the machine and is an argument. Undefined behaviour is \<open>None\<close>.
\<close>

subsection \<open>bitmapand-popcnt.cc\<close>

definition bitmap_size :: nat where "bitmap_size = 4096"

definition popcnt_table :: "nat list" where
  "popcnt_table =
    [0, 1, 1, 2, 1, 2, 2, 3, 1, 2, 2, 3, 2, 3, 3, 4, 1, 2, 2, 3, 2, 3, 3, 4, 2, 3, 3, 4, 3, 4, 4, 5,
     1, 2, 2, 3, 2, 3, 3, 4, 2, 3, 3, 4, 3, 4, 4, 5, 2, 3, 3, 4, 3, 4, 4, 5, 3, 4, 4, 5, 4, 5, 5, 6,
     1, 2, 2, 3, 2, 3, 3, 4, 2, 3, 3, 4, 3, 4, 4, 5, 2, 3, 3, 4, 3, 4, 4, 5, 3, 4, 4, 5, 4, 5, 5, 6,
     2, 3, 3, 4, 3, 4, 4, 5, 3, 4, 4, 5, 4, 5, 5, 6, 3, 4, 4, 5, 4, 5, 5, 6, 4, 5, 5, 6, 5, 6, 6, 7,
     1, 2, 2, 3, 2, 3, 3, 4, 2, 3, 3, 4, 3, 4, 4, 5, 2, 3, 3, 4, 3, 4, 4, 5, 3, 4, 4, 5, 4, 5, 5, 6,
     2, 3, 3, 4, 3, 4, 4, 5, 3, 4, 4, 5, 4, 5, 5, 6, 3, 4, 4, 5, 4, 5, 5, 6, 4, 5, 5, 6, 5, 6, 6, 7,
     2, 3, 3, 4, 3, 4, 4, 5, 3, 4, 4, 5, 4, 5, 5, 6, 3, 4, 4, 5, 4, 5, 5, 6, 4, 5, 5, 6, 5, 6, 6, 7,
     3, 4, 4, 5, 4, 5, 5, 6, 4, 5, 5, 6, 5, 6, 6, 7, 4, 5, 5, 6, 5, 6, 6, 7, 5, 6, 6, 7, 6, 7, 7, 8]"

text \<open>\<open>a[i] = rand(); b[i] = rand();\<close> keeps the low byte of every number.\<close>

definition init_bitmaps :: "(nat \<Rightarrow> int) \<Rightarrow> u8 list \<times> u8 list" where
  "init_bitmaps rand =
     (map (\<lambda>i. of_int (rand (2 * i))) [0..<bitmap_size], map (\<lambda>i. of_int (rand (2 * i + 1))) [0..<bitmap_size])"

text \<open>The loops from index \<open>i\<close> on; \<open>c\<close> is the array.\<close>

fun no_popcount :: "u8 list \<Rightarrow> u8 list \<Rightarrow> nat list \<Rightarrow> u8 list \<Rightarrow> u8 list option" where
  "no_popcount a b [] c = Some c"
| "no_popcount a b (i # is) c =
     do { x \<leftarrow> c_load a i; y \<leftarrow> c_load b i; c \<leftarrow> c_store c i (x AND y); no_popcount a b is c }"

fun with_popcount :: "u8 list \<Rightarrow> u8 list \<Rightarrow> nat list \<Rightarrow> u8 list \<Rightarrow> u32 \<Rightarrow> (u8 list \<times> u32) option" where
  "with_popcount a b [] c v = Some (c, v)"
| "with_popcount a b (i # is) c v =
     do { x \<leftarrow> c_load a i; y \<leftarrow> c_load b i; c \<leftarrow> c_store c i (x AND y);
          z \<leftarrow> c_load c i; k \<leftarrow> c_load popcnt_table (unat z); with_popcount a b is c (v + of_nat k) }"

definition NoPopcount :: "(nat \<Rightarrow> int) \<Rightarrow> u8 list \<Rightarrow> u8 list option" where
  "NoPopcount rand c = (let (a, b) = init_bitmaps rand in no_popcount a b [0..<bitmap_size] c)"

definition WithPopcount :: "(nat \<Rightarrow> int) \<Rightarrow> u8 list \<Rightarrow> (u8 list \<times> u32) option" where
  "WithPopcount rand c = (let (a, b) = init_bitmaps rand in with_popcount a b [0..<bitmap_size] c 0)"

subsection \<open>bench-lsb.cc\<close>

text \<open>The built-in functions: the place of the lowest bit, counted from 1, or 0; and the number of zeros below it,
  undefined at 0.\<close>

definition zeros_below :: "u64 \<Rightarrow> nat" where
  "zeros_below x = length (takeWhile (\<lambda>i. \<not> bit x i) [0..<64])"

definition builtin_ffsll :: "u64 \<Rightarrow> int" where
  "builtin_ffsll x = (if x = 0 then 0 else int (zeros_below x) + 1)"

definition builtin_ctzll :: "u64 \<Rightarrow> int option" where
  "builtin_ctzll x = (if x = 0 then None else Some (int (zeros_below x)))"

definition test_ffsll :: "u64 \<Rightarrow> u64" where
  "test_ffsll x = of_int (builtin_ffsll x - 1)"

definition test_optim :: "u64 \<Rightarrow> u64 option" where
  "test_optim x = map_option of_int (builtin_ctzll x)"

fun BM_ffsll :: "u64 list \<Rightarrow> u64 \<Rightarrow> u64" where
  "BM_ffsll [] s = s" | "BM_ffsll (d # ds) s = BM_ffsll ds (s + test_ffsll d)"

fun BM_optim :: "u64 list \<Rightarrow> u64 \<Rightarrow> u64 option" where
  "BM_optim [] s = Some s" | "BM_optim (d # ds) s = do { x \<leftarrow> test_optim d; BM_optim ds (s + x) }"

text \<open>\<open>dist(mt)\<close> is never 0.\<close>

definition lsb_data :: "(nat \<Rightarrow> u64) \<Rightarrow> u64 list" where "lsb_data dist = map dist [0..<1000]"

subsection \<open>c-conv.c\<close>

definition to_char :: "bool \<Rightarrow> int \<Rightarrow> int" where
  "to_char sg x = (if sg then (x + 128) mod 256 - 128 else x mod 256)"

definition to_uint :: "int \<Rightarrow> int" where "to_uint x = x mod 2 ^ 32"

text \<open>An arithmetic operation on \<open>int\<close>s.\<close>

definition int_op :: "int \<Rightarrow> int option" where
  "int_op x = (if - (2 ^ 31) \<le> x \<and> x < 2 ^ 31 then Some x else None)"

text \<open>The numbers that the tests print; \<open>1 << 31\<close> is the least \<open>int\<close>, as the compilers define it.\<close>

definition conv_test1 :: "bool \<Rightarrow> int option" where
  "conv_test1 sg = (let c1 = to_char sg 127; c2 = to_char sg (-128) in int_op (c1 - c2))"

definition conv_test2 :: "int option" where
  "conv_test2 = (let c1 = to_char False 127; c2 = to_char False (-128) in int_op (c1 - c2))"

definition conv_test3 :: "int option" where
  "conv_test3 = (let c1 = - (2 ^ 31); c2 = - c1 - 1 in int_op (c2 - c1))"

definition conv_test4 :: "bool \<Rightarrow> int option" where
  "conv_test4 sg = (let c1 = to_char sg 127; c2 = to_char sg 128 in map_option to_uint (int_op (c1 - c2)))"

definition conv_test5 :: "bool \<Rightarrow> int option" where
  "conv_test5 sg =
     (let c1 = to_char sg 127; c2 = to_char sg 128; c3 = to_char sg 1
      in do { d \<leftarrow> int_op (c1 - c2); i1 \<leftarrow> int_op (d + c3); Some (to_uint i1) })"

definition main_c_conv :: "bool \<Rightarrow> int option list" where
  "main_c_conv sg = [conv_test1 sg, conv_test2, conv_test3, conv_test4 sg, conv_test5 sg]"

text \<open>What the tests announce.\<close>

definition announced :: "int list" where "announced = [255, -1, -1, 255, 256]"

subsection \<open>Properties\<close>

text \<open>The table has the number of bits of every byte.\<close>

definition bits_of :: "u8 \<Rightarrow> nat set" where "bits_of x = {j. j < 8 \<and> bit x j}"

lemma table_length: "length popcnt_table = 256"
  by (simp add: popcnt_table_def)

lemma bits_of_filter: "card (bits_of x) = length (filter (bit x) [0..<8])"
proof -
  have "bits_of x = set (filter (bit x) [0..<8])" by (auto simp: bits_of_def)
  then show ?thesis by (simp only: distinct_card distinct_filter distinct_upt)
qed

lemma table_counts: "c_load popcnt_table (unat x) = Some (card (bits_of x))" for x :: u8
proof -
  have "\<forall>n \<in> set [0..<256]. popcnt_table ! n = length (filter (bit (word_of_nat n :: u8)) [0..<8])" by code_simp
  moreover have "unat x < 256" using unsigned_less [of x, where ?'a = nat] by simp
  ultimately have "popcnt_table ! unat x = card (bits_of x)" by (auto simp: bits_of_filter)
  then show ?thesis using \<open>unat x < 256\<close> by (simp add: table_length)
qed

definition anded :: "u8 list \<Rightarrow> u8 list \<Rightarrow> u8 list" where
  "anded a b = map2 (AND) a b"

lemma with_popcount_run:
  assumes "length a = n" "length b = n" "length c = n" "k + j = n" "take k c = take k (anded a b)"
  shows "with_popcount a b [k..<n] c v = Some (anded a b, v + of_nat (\<Sum>i\<leftarrow>[k..<n]. card (bits_of (a ! i AND b ! i)))) \<and>
    no_popcount a b [k..<n] c = Some (anded a b)"
  using assms
proof (induction j arbitrary: k c v)
  case 0
  then have "c = anded a b" by (simp add: anded_def)
  then show ?case using 0 by simp
next
  case (Suc j)
  let ?c = "c[k := a ! k AND b ! k]"
  have k: "k < n" "[k..<n] = k # [Suc k..<n]" using Suc.prems(4) by (simp_all add: upt_conv_Cons)
  have "take (Suc k) ?c = take (Suc k) (anded a b)"
    using Suc.prems k by (simp add: take_Suc_conv_app_nth anded_def)
  from Suc.IH [OF Suc.prems(1,2) _ _ this] show ?case
    unfolding k(2) using Suc.prems k(1) table_counts [of "a ! k AND b ! k"] by (simp add: add.assoc)
qed

lemma sum_bits:
  "(\<Sum>i\<leftarrow>[0..<n]. card (bits_of (f i))) = card {(i, j). i < n \<and> j \<in> bits_of (f i)}"
proof -
  have "{(i, j). i < n \<and> j \<in> bits_of (f i)} = (SIGMA i:{..<n}. bits_of (f i))" by auto
  moreover have "finite (bits_of x)" for x by (simp add: bits_of_def)
  ultimately show ?thesis by (simp add: card_SigmaI interv_sum_list_conv_sum_set_nat lessThan_atLeast0)
qed

lemma zeros_below_least:
  assumes "x \<noteq> (0 :: u64)"
  shows "zeros_below x < 64 \<and> bit x (zeros_below x) \<and> (\<forall>i<zeros_below x. \<not> bit x i)"
proof -
  let ?n = "length (takeWhile (\<lambda>i. \<not> bit x i) [0..<64])"
  obtain i where i: "bit x i" using assms by (auto simp: bit_eq_iff)
  then have "i < 64" using bit_imp_le_length [of x i] by simp
  have n: "?n < 64"
  proof (rule ccontr)
    assume "\<not> ?n < 64"
    then have "takeWhile (\<lambda>i. \<not> bit x i) [0..<64] = [0..<64]"
      by (metis diff_zero length_takeWhile_le length_upt linorder_not_less nle_le takeWhile_eq_take take_all)
    then show False using i \<open>i < 64\<close> by (auto simp: takeWhile_eq_all_conv)
  qed
  then have "bit x ?n" using nth_length_takeWhile [of "\<lambda>i. \<not> bit x i" "[0..<64]"] by simp
  moreover have "\<not> bit x i" if "i < ?n" for i
  proof -
    have "takeWhile (\<lambda>i. \<not> bit x i) [0..<64] ! i = i" using that n by (simp add: takeWhile_nth)
    then show ?thesis using that set_takeWhileD [of i "\<lambda>i. \<not> bit x i" "[0..<64]"] nth_mem by metis
  qed
  ultimately show ?thesis using n by (simp add: zeros_below_def)
qed

lemma tests_agree: "x \<noteq> 0 \<Longrightarrow> test_optim x = Some (test_ffsll x)"
  by (simp add: test_optim_def test_ffsll_def builtin_ffsll_def builtin_ctzll_def)

lemma lsb_loops: "0 \<notin> set ds \<Longrightarrow> BM_optim ds s = Some (BM_ffsll ds s)"
  by (induction ds arbitrary: s) (simp_all add: tests_agree)

text \<open>Remark: Both bitmap loops make the same array and the second one also counts the bits that both bitmaps have, whatever the array held; the
  counter cannot overflow. Both searches for the lowest bit find it in every number but 0, so both loops agree on the data
  they get; at 0 one is undefined and the other answers the greatest number. Of the conversions, the third is undefined
  everywhere; where \<open>char\<close> is signed the others print what they announce, where it is not only the second does.\<close>

theorem bit_counts_agree:
  assumes "length c = bitmap_size" "init_bitmaps rand = (a, b)" "\<forall>i. dist i \<noteq> 0"
  shows "(\<exists>v. NoPopcount rand c = Some (anded a b) \<and> WithPopcount rand c = Some (anded a b, v) \<and>
      unat v = card {(i, j). i < bitmap_size \<and> j < 8 \<and> bit (a ! i) j \<and> bit (b ! i) j}) \<and>
    BM_optim (lsb_data dist) 0 = Some (BM_ffsll (lsb_data dist) 0) \<and>
    (x \<noteq> 0 \<longrightarrow> (\<exists>k<64. test_ffsll x = of_nat k \<and> bit x k \<and> (\<forall>i<k. \<not> bit x i))) \<and>
    test_ffsll 0 = 2 ^ 64 - 1 \<and> test_optim 0 = None \<and>
    (\<forall>i<5. main_c_conv True ! i = (if i = 2 then None else Some (announced ! i))) \<and>
    (\<forall>i<5. main_c_conv False ! i = Some (announced ! i) \<longleftrightarrow> i = 1)"
proof (intro conjI)
  let ?n = "card {(i, j). i < bitmap_size \<and> j < 8 \<and> bit (a ! i) j \<and> bit (b ! i) j}"
  have len: "length a = bitmap_size" "length b = bitmap_size" using assms(2) by (auto simp: init_bitmaps_def)
  have s: "(\<Sum>i\<leftarrow>[0..<bitmap_size]. card (bits_of (a ! i AND b ! i))) = ?n"
    unfolding sum_bits by (rule arg_cong [of _ _ card]) (auto simp: bits_of_def bit_simps)
  have "?n \<le> card ({..<bitmap_size} \<times> {..<8 :: nat})" by (rule card_mono) auto
  then have "?n < 2 ^ 32" by (simp add: bitmap_size_def)
  then have "unat (of_nat ?n :: u32) = ?n" by (simp add: unat_of_nat take_bit_nat_eq_self)
  then show "\<exists>v. NoPopcount rand c = Some (anded a b) \<and> WithPopcount rand c = Some (anded a b, v) \<and> unat v = ?n"
    using with_popcount_run [OF len assms(1), of 0 bitmap_size 0] assms(2) unfolding s
    by (intro exI [of _ "of_nat ?n"]) (simp add: NoPopcount_def WithPopcount_def)
  show "BM_optim (lsb_data dist) 0 = Some (BM_ffsll (lsb_data dist) 0)" using assms(3) by (intro lsb_loops) (auto simp: lsb_data_def)
  show "x \<noteq> 0 \<longrightarrow> (\<exists>k<64. test_ffsll x = of_nat k \<and> bit x k \<and> (\<forall>i<k. \<not> bit x i))"
    using zeros_below_least [of x] by (auto simp: test_ffsll_def builtin_ffsll_def)
  show "test_ffsll 0 = 2 ^ 64 - 1" "test_optim 0 = None" by (simp_all add: test_ffsll_def test_optim_def builtin_ffsll_def builtin_ctzll_def)
  show "\<forall>i<5. main_c_conv True ! i = (if i = 2 then None else Some (announced ! i))" by code_simp
  show "\<forall>i<5. main_c_conv False ! i = Some (announced ! i) \<longleftrightarrow> i = 1" by code_simp
qed

lemma bit_counts_agree_witness:
  "\<exists>v. WithPopcount (\<lambda>k. 5) (replicate bitmap_size 0) = Some (anded (replicate bitmap_size 5) (replicate bitmap_size 5), v) \<and>
     BM_optim (lsb_data (\<lambda>_. 8)) 0 = Some (BM_ffsll (lsb_data (\<lambda>_. 8)) 0)"
proof -
  have "init_bitmaps (\<lambda>k. 5) = (replicate bitmap_size 5, replicate bitmap_size 5)" by (simp add: init_bitmaps_def map_replicate_const)
  from bit_counts_agree [OF _ this, of "replicate bitmap_size 0" "\<lambda>_. 8" 1] show ?thesis by auto
qed

end
