(* ===== verification/Pext.thy ===== *)
theory Pext
  imports Prelude
begin

text \<open>
  Parallel bit extraction (\<open>src/cpp/pext.cc\<close>): the simulation with a table of 6 by 6 bits against the
  instruction \<open>pext\<close>, whose documented result is \<open>pext_u64\<close>.
\<close>

definition kLookupBits :: nat where "kLookupBits = 6"

definition kLookupMask :: u64 where "kLookupMask = push_bit kLookupBits 1 - 1"

subsection \<open>The instruction\<close>

text \<open>The bits of the data at the positions of the mask, from the low end.\<close>

definition chosen :: "u64 \<Rightarrow> u64 \<Rightarrow> nat \<Rightarrow> bool list" where
  "chosen msk data n = map (bit data) (filter (bit msk) [0..<n])"

definition pext_u64 :: "u64 \<Rightarrow> u64 \<Rightarrow> u64" where
  "pext_u64 data msk = horner_sum of_bool 2 (chosen msk data 64)"

definition pext :: "u64 list \<Rightarrow> u64 list \<Rightarrow> u64 list" where
  "pext msk data = map2 (\<lambda>d m. pext_u64 d m) data msk"

subsection \<open>The simulation\<close>

text \<open>The innermost loop that fills the table: the value and its length.\<close>

definition table_loop :: "nat \<Rightarrow> nat \<Rightarrow> nat \<times> nat" where
  "table_loop msk data =
     fold (\<lambda>i (bit_value, bit_len).
        if msk AND push_bit i 1 \<noteq> 0 then (bit_value OR push_bit bit_len (drop_bit i data AND 1), bit_len + 1)
        else (bit_value, bit_len)) [0..<kLookupBits] (0, 0)"

definition pext_table :: "u8 list list" where
  "pext_table = map (\<lambda>msk. map (\<lambda>data. of_nat (fst (table_loop msk data))) [0..<2 ^ kLookupBits]) [0..<2 ^ kLookupBits]"

definition popcount :: "u64 \<Rightarrow> nat" where
  "popcount x = length (filter (bit x) [0..<32])"

fun simu_loop :: "nat \<Rightarrow> u64 \<Rightarrow> u64 \<Rightarrow> u64 \<Rightarrow> nat \<Rightarrow> u64" where
  "simu_loop 0 msk data out out_len = out"
| "simu_loop (Suc k) msk data out out_len =
     (let mask_value = msk AND kLookupMask;
          mask_len = popcount mask_value;
          val = ucast (pext_table ! unat mask_value ! unat (data AND kLookupMask));
          out = out OR push_bit out_len val;
          msk = drop_bit kLookupBits msk
      in if msk = 0 then out else simu_loop k msk (drop_bit kLookupBits data) out (out_len + mask_len))"

definition pext_u64_simu :: "u64 \<Rightarrow> u64 \<Rightarrow> u64" where
  "pext_u64_simu msk data = simu_loop ((64 + kLookupBits - 1) div kLookupBits) msk data 0 0"

definition simu :: "u64 list \<Rightarrow> u64 list \<Rightarrow> u64 list" where
  "simu msk data = map2 (\<lambda>m d. pext_u64_simu m d) msk data"

text \<open>\<open>main\<close> on its data: the check before the measurements, then both results; \<open>None\<close> is \<open>ERROR!!!\<close>.\<close>

definition main_pext :: "u64 list \<Rightarrow> u64 list \<Rightarrow> (u64 list \<times> u64 list) option" where
  "main_pext data msk =
     (if list_all2 (\<lambda>(m, d) o'. pext_u64_simu m d = o') (zip msk data) (pext msk data)
      then Some (pext msk data, simu msk data) else None)"

subsection \<open>Words that spell lists of bits\<close>

definition spells :: "'a::semiring_bits \<Rightarrow> bool list \<Rightarrow> bool" where
  "spells w bs \<longleftrightarrow> (\<forall>k. bit w k \<longleftrightarrow> k < length bs \<and> bs ! k)"

lemma spells_unique: "spells v bs \<Longrightarrow> spells w bs \<Longrightarrow> v = w"
  by (rule bit_eqI) (simp add: spells_def)

lemma spells_append:
  assumes "spells (a :: u64) xs" "spells b ys" "length xs + length ys \<le> 64"
  shows "spells (a OR push_bit (length xs) b) (xs @ ys)"
  unfolding spells_def
proof (intro allI)
  fix k
  have "bit a k \<longleftrightarrow> k < length xs \<and> xs ! k" "bit b (k - length xs) \<longleftrightarrow> k - length xs < length ys \<and> ys ! (k - length xs)"
    using assms(1,2) by (simp_all add: spells_def)
  then show "bit (a OR push_bit (length xs) b) k \<longleftrightarrow> k < length (xs @ ys) \<and> (xs @ ys) ! k"
    using assms(3) by (cases "k < length xs") (auto simp: bit_or_iff bit_push_bit_iff nth_append)
qed

lemma spells_ucast:
  assumes "spells (w :: u8) bs"
  shows "spells (ucast w :: u64) bs"
  unfolding spells_def
proof (intro allI)
  fix k
  have "bit w k \<longrightarrow> k < 64" using bit_imp_le_length [of w k] by auto
  then show "bit (ucast w :: u64) k \<longleftrightarrow> k < length bs \<and> bs ! k" using assms by (auto simp: bit_unsigned_iff spells_def)
qed

lemma chosen_le: "length (chosen m d n) \<le> 64"
proof -
  have "filter (bit m) [0..<n] = filter (bit m) [0..<min n 64]"
  proof (cases "n \<le> 64")
    case False
    then have "[0..<n] = [0..<64] @ [64..<n]" using upt_add_eq_append [of 0 64 "n - 64"] by simp
    moreover have "filter (bit m) [64..<n] = []" by (auto simp: filter_empty_conv dest: bit_imp_le_length)
    ultimately show ?thesis using False by (simp add: min_def)
  qed (simp add: min_def)
  then show ?thesis unfolding chosen_def using length_filter_le [of "bit m" "[0..<min n 64]"] by simp
qed

lemma chosen_more: "chosen m d (n + k) = chosen m d n @ chosen (drop_bit n m) (drop_bit n d) k"
proof -
  have "[0..<n + k] = [0..<n] @ map (\<lambda>i. i + n) [0..<k]" using upt_add_eq_append [of 0 n k] by (simp add: map_add_upt add.commute)
  then show ?thesis by (simp add: chosen_def filter_map comp_def bit_simps add.commute)
qed

lemma chosen_rest:
  assumes "drop_bit n m = 0" "n \<le> k"
  shows "chosen m d k = chosen m d n"
proof -
  have "chosen m d (n + (k - n)) = chosen m d n" unfolding chosen_more assms(1) by (simp add: chosen_def)
  then show ?thesis using assms(2) by simp
qed

lemma chosen_all: "64 \<le> n \<Longrightarrow> chosen m d n = chosen m d 64"
  by (rule chosen_rest) (auto intro!: bit_eqI simp: bit_simps dest: bit_imp_le_length)

lemma spells_pext: "spells (pext_u64 d m) (chosen m d 64)"
  using chosen_le [of m d 64] by (auto simp: spells_def pext_u64_def bit_simps)

subsection \<open>The table\<close>

lemma table_loop_step:
  "fold (\<lambda>i (bit_value, bit_len).
      if m AND push_bit i 1 \<noteq> 0 then (bit_value OR push_bit bit_len (drop_bit i d AND 1), bit_len + 1)
      else (bit_value, bit_len)) [0..<n] (0, 0) =
   (horner_sum of_bool 2 (map (bit d) (filter (bit m) [0..<n])), length (filter (bit m) [0..<n]))" for m d :: nat
proof (induction n)
  case (Suc n)
  have "horner_sum of_bool 2 xs OR push_bit (length xs) (of_bool b) = (horner_sum of_bool 2 (xs @ [b]) :: nat)" for xs b
    by (rule bit_eqI) (auto simp: bit_simps nth_append)
  from this [of "map (bit d) (filter (bit m) [0..<n])" "bit d n"]
  have o: "horner_sum of_bool 2 (map (bit d) (filter (bit m) [0..<n])) OR push_bit (length (filter (bit m) [0..<n])) (of_bool (bit d n)) =
      (horner_sum of_bool 2 (map (bit d) (filter (bit m) [0..<n]) @ [bit d n]) :: nat)" by simp
  have b: "drop_bit n d AND 1 = of_bool (bit d n)" by (simp add: and_one_eq bit_iff_odd_drop_bit mod_2_eq_odd)
  have c: "(m AND push_bit n 1 \<noteq> 0) = bit m n" by (simp add: push_bit_of_1 and_exp_eq_0_iff_not_bit)
  show ?case unfolding upt_Suc_append [OF le0] fold_append comp_apply Suc fold_simps case_prod_conv c b by (simp add: o)
qed simp

lemma table_entry:
  assumes "m < 64" "d < 64"
  shows "spells (pext_table ! m ! d) (map (bit d) (filter (bit m) [0..<kLookupBits]))"
proof -
  have "length (filter (bit m) [0..<6 :: nat]) \<le> 6" using length_filter_le [of "bit m" "[0..<6]"] by simp
  moreover have "pext_table ! m ! d = of_nat (fst (table_loop m d))" using assms by (simp add: pext_table_def kLookupBits_def)
  ultimately show ?thesis
    unfolding table_loop_def table_loop_step by (auto simp: kLookupBits_def spells_def bit_of_nat_iff bit_horner_sum_bit_iff possible_bit_def)
qed

lemma kLookupMask_eq: "kLookupMask = mask kLookupBits"
  by (simp add: kLookupMask_def mask_eq_decr_exp push_bit_eq_mult)

lemma masked_less: "unat (x AND kLookupMask) < 64"
proof -
  have "x AND kLookupMask < 2 ^ 6"
    unfolding kLookupMask_eq kLookupBits_def by (rule and_mask_less') simp
  then show ?thesis by (simp add: word_less_nat_alt)
qed

lemma bit_masked: "bit (unat (x AND kLookupMask)) i \<longleftrightarrow> i < kLookupBits \<and> bit x i"
  by (auto simp: kLookupMask_eq bit_simps kLookupBits_def)

lemma low_chosen: "map (bit (unat (d AND kLookupMask))) (filter (bit (unat (m AND kLookupMask))) [0..<kLookupBits]) = chosen m d kLookupBits"
  unfolding chosen_def bit_masked by (auto intro!: map_cong filter_cong)

lemma popcount_masked: "popcount (m AND kLookupMask) = length (chosen m d kLookupBits)"
proof -
  have "[0..<32] = [0..<kLookupBits] @ [kLookupBits..<32]" by (simp add: kLookupBits_def upt_rec)
  moreover have "filter (bit (m AND kLookupMask)) [kLookupBits..<32] = []" by (auto simp: filter_empty_conv kLookupMask_eq bit_simps)
  moreover have "filter (bit (m AND kLookupMask)) [0..<kLookupBits] = filter (bit m) [0..<kLookupBits]"
    by (rule filter_cong) (auto simp: kLookupMask_eq bit_simps kLookupBits_def)
  ultimately show ?thesis by (simp add: popcount_def chosen_def)
qed

subsection \<open>The simulation is the instruction\<close>

lemma simu_loop_spells:
  assumes "spells out (chosen m d n)" "64 \<le> n + kLookupBits * k"
  shows "spells (simu_loop k (drop_bit n m) (drop_bit n d) out (length (chosen m d n))) (chosen m d 64)"
  using assms
proof (induction k arbitrary: n out)
  case 0
  then show ?case using chosen_all [of n m d] by simp
next
  case (Suc k)
  let ?m = "drop_bit n m" and ?d = "drop_bit n d"
  let ?v = "ucast (pext_table ! unat (?m AND kLookupMask) ! unat (?d AND kLookupMask)) :: u64"
  let ?out = "out OR push_bit (length (chosen m d n)) ?v"
  have "spells (pext_table ! unat (?m AND kLookupMask) ! unat (?d AND kLookupMask)) (chosen ?m ?d kLookupBits)"
    using table_entry [OF masked_less masked_less, of ?m ?d] by (simp add: low_chosen)
  then have v: "spells ?v (chosen ?m ?d kLookupBits)" by (rule spells_ucast)
  have c: "chosen m d (n + kLookupBits) = chosen m d n @ chosen ?m ?d kLookupBits" by (rule chosen_more)
  have o: "spells ?out (chosen m d (n + kLookupBits))"
    unfolding c by (rule spells_append [OF Suc.prems(1) v]) (use chosen_le [of m d "n + kLookupBits"] c in simp)
  have dr: "drop_bit kLookupBits ?m = drop_bit (n + kLookupBits) m" "drop_bit kLookupBits ?d = drop_bit (n + kLookupBits) d"
    by (simp_all add: add.commute)
  show ?case
  proof (cases "drop_bit (n + kLookupBits) m = 0")
    case True
    have "chosen m d (n + kLookupBits) = chosen m d 64"
    proof (cases "n + kLookupBits \<le> 64")
      case le: True
      show ?thesis by (rule chosen_rest [OF True le, symmetric])
    next
      case False
      then show ?thesis by (intro chosen_all) simp
    qed
    then show ?thesis using o True by (simp add: Let_def add.commute [of kLookupBits n])
  next
    case False
    have "length (chosen m d n) + popcount (?m AND kLookupMask) = length (chosen m d (n + kLookupBits))"
      unfolding c popcount_masked [of ?m ?d] by simp
    then show ?thesis
      using Suc.IH [OF o] Suc.prems(2) False by (simp add: Let_def add.assoc add.commute [of kLookupBits n])
  qed
qed

lemma simu_is_pext: "pext_u64_simu m d = pext_u64 d m"
proof -
  have "spells (simu_loop 11 (drop_bit 0 m) (drop_bit 0 d) 0 (length (chosen m d 0))) (chosen m d 64)"
    by (rule simu_loop_spells) (simp_all add: spells_def chosen_def kLookupBits_def)
  then show ?thesis
    using spells_unique [OF _ spells_pext] by (simp add: pext_u64_simu_def kLookupBits_def chosen_def)
qed

text \<open>C38: The simulation computes exactly the bit extraction of the instruction, for every mask and data,
  although it may stop as soon as no bit of the mask is left; so the check of \<open>main\<close> passes and both
  measured loops fill the same array.\<close>

theorem pext_simulated:
  "pext_u64_simu m d = pext_u64 d m \<and> main_pext ds ms = Some (simu ms ds, simu ms ds)"
proof -
  have "simu ms ds = pext ms ds"
    unfolding simu_def pext_def simu_is_pext by (subst zip_commute) (simp add: comp_def case_prod_unfold)
  moreover have "list_all2 (\<lambda>(m, d) o'. pext_u64_simu m d = o') (zip ms ds) (pext ms ds)"
    by (simp add: list_all2_conv_all_nth pext_def simu_is_pext)
  ultimately show ?thesis by (simp add: simu_is_pext main_pext_def)
qed

end
