(* ===== verification/Hashes.thy ===== *)
theory Hashes
  imports Prelude
begin

text \<open>
  Two experiments with hash functions: the string hash of Ceph with a 32-bit and with a 64-bit accumulator
  (\<open>src/ceph-hash.c\<close>), and one step against two steps of a Rabin fingerprint (\<open>src/rabin.c\<close>).
\<close>

subsection \<open>ceph-hash.c\<close>

text \<open>The loops over the string; a load after its end is \<open>None\<close>.\<close>

fun hash_loop_new :: "u8 list \<Rightarrow> nat \<Rightarrow> u32 \<Rightarrow> u32 option" where
  "hash_loop_new str 0 h = Some h"
| "hash_loop_new [] (Suc n) h = None"
| "hash_loop_new (c # str) (Suc n) h = hash_loop_new str n ((h + push_bit 4 (ucast c) + drop_bit 4 (ucast c)) * 11)"

definition ceph_str_hash_linux_new :: "u8 list \<Rightarrow> u32 \<Rightarrow> u32 option" where
  "ceph_str_hash_linux_new str n = hash_loop_new str (unat n) 0"

fun hash_loop_old :: "u8 list \<Rightarrow> nat \<Rightarrow> u64 \<Rightarrow> u64 option" where
  "hash_loop_old str 0 h = Some h"
| "hash_loop_old [] (Suc n) h = None"
| "hash_loop_old (c # str) (Suc n) h = hash_loop_old str n ((h + push_bit 4 (ucast c) + drop_bit 4 (ucast c)) * 11)"

definition ceph_str_hash_linux_old :: "u8 list \<Rightarrow> u32 \<Rightarrow> u32 option" where
  "ceph_str_hash_linux_old str n = map_option ucast (hash_loop_old str (unat n) 0)"

definition block_size :: "nat list" where "block_size = [64, 4096, 65536, 1024 * 1024]"

text \<open>The loops of \<open>main\<close> that add up the hashes, the warm-up first.\<close>

fun add_up :: "nat \<Rightarrow> (u32 option) \<Rightarrow> u32 \<Rightarrow> u32 option" where
  "add_up 0 h s = Some s"
| "add_up (Suc k) h s = do { x \<leftarrow> h; add_up k h (s + x) }"

definition block_hashes :: "u8 list \<Rightarrow> nat \<Rightarrow> (u32 \<times> u32) option" where
  "block_hashes str bytes =
     (let loop_count = 2 ^ 29 div bytes
      in do {
           s \<leftarrow> add_up loop_count (ceph_str_hash_linux_new str (of_nat bytes)) 0;
           new \<leftarrow> add_up loop_count (ceph_str_hash_linux_new str (of_nat bytes)) s;
           s \<leftarrow> add_up loop_count (ceph_str_hash_linux_old str (of_nat bytes)) 0;
           old \<leftarrow> add_up loop_count (ceph_str_hash_linux_old str (of_nat bytes)) s;
           Some (new, old) })"

text \<open>\<open>main\<close>: the hashes it prints for each size, of a buffer filled with random numbers.\<close>

definition main_ceph_hash :: "(nat \<Rightarrow> int) \<Rightarrow> (u32 \<times> u32) option list" where
  "main_ceph_hash rand =
     (let str = map (\<lambda>i. of_int (rand i)) [0..<last block_size] in map (block_hashes str) block_size)"

text \<open>The reference, in unbounded numbers.\<close>

fun hash_value :: "u8 list \<Rightarrow> nat \<Rightarrow> nat" where
  "hash_value [] h = h"
| "hash_value (c # str) h = hash_value str ((h + 16 * unat c + unat c div 16) * 11)"

lemma push_byte: "push_bit 4 (ucast c) = (of_nat (16 * unat c) :: 'a::len word)" for c :: u8
  by (simp add: push_bit_eq_mult)

lemma drop_byte: "drop_bit 4 (ucast c) = (of_nat (unat c div 16) :: 'a::len word)" if "8 \<le> LENGTH('a)" for c :: u8
proof -
  have "unat c div 16 = drop_bit 4 (unat c)" by (simp add: drop_bit_eq_div)
  moreover have "drop_bit 4 (ucast c) = (of_nat (drop_bit 4 (unat c)) :: 'a word)"
    by (rule bit_eqI) (use that in \<open>auto simp: bit_simps possible_bit_def dest: bit_imp_le_length\<close>)
  ultimately show ?thesis by simp
qed

lemma hash_step:
  "8 \<le> LENGTH('a) \<Longrightarrow> (of_nat h + push_bit 4 (ucast c) + drop_bit 4 (ucast c)) * 11 =
     (of_nat ((h + 16 * unat c + unat c div 16) * 11) :: 'a::len word)" for c :: u8
  unfolding push_byte by (simp add: drop_byte)

lemma eight: "8 \<le> LENGTH(32)" "8 \<le> LENGTH(64)"
  by simp_all

lemma hash_loops:
  "hash_loop_new str n (of_nat h) = (if n \<le> length str then Some (of_nat (hash_value (take n str) h)) else None)"
  "hash_loop_old str n (of_nat h) = (if n \<le> length str then Some (of_nat (hash_value (take n str) h)) else None)"
proof (induction str arbitrary: n h)
  case (Cons c str)
  { case 1 show ?case
      by (cases n) (simp, simp only: hash_loop_new.simps take_Suc_Cons hash_value.simps hash_step [OF eight(1)] Cons.IH, simp) }
  { case 2 show ?case
      by (cases n) (simp, simp only: hash_loop_old.simps take_Suc_Cons hash_value.simps hash_step [OF eight(2)] Cons.IH, simp) }
qed (case_tac [!] n, simp_all)

lemma ucast_of_nat_64: "ucast (of_nat k :: u64) = (of_nat k :: u32)"
  by (rule bit_word_eqI) (simp add: bit_simps)

lemma hash_values:
  "ceph_str_hash_linux_new str n = (if unat n \<le> length str then Some (of_nat (hash_value (take (unat n) str) 0)) else None)"
  "ceph_str_hash_linux_old str n = (if unat n \<le> length str then Some (of_nat (hash_value (take (unat n) str) 0)) else None)"
  using hash_loops [of str "unat n" 0] by (simp_all add: ceph_str_hash_linux_new_def ceph_str_hash_linux_old_def ucast_of_nat_64)

lemma add_up_Some: "add_up k (Some x) s = Some (s + of_nat k * x)"
  by (induction k arbitrary: s) (simp_all add: algebra_simps)

text \<open>Remark: The two accumulators give the same hash of every string, the value of the polynomial in unbounded
  numbers cut to 32 bits, and both leave a string that is too short; so for every block size \<open>main\<close> prints the
  same sum twice.\<close>

theorem ceph_hashes_agree:
  "ceph_str_hash_linux_new str n = ceph_str_hash_linux_old str n \<and>
   ceph_str_hash_linux_new str n = (if unat n \<le> length str then Some (of_nat (hash_value (take (unat n) str) 0)) else None) \<and>
   list_all (\<lambda>r. case r of None \<Rightarrow> False | Some (new, old) \<Rightarrow> new = old) (main_ceph_hash rand)"
proof -
  have "case block_hashes str b of None \<Rightarrow> False | Some (new, old) \<Rightarrow> new = old" if "b \<le> length str" "b < 2 ^ 32" for str b
    using that by (simp add: block_hashes_def Let_def hash_values add_up_Some unat_of_nat take_bit_nat_eq_self)
  then show ?thesis by (simp add: hash_values main_ceph_hash_def block_size_def Let_def)
qed

subsection \<open>rabin.c\<close>

text \<open>Two bytes added to a fingerprint, in two steps and in one; a remainder by zero is \<open>None\<close>.\<close>

definition umod :: "u64 \<Rightarrow> u64 \<Rightarrow> u64 option" where
  "umod x y = (if y = 0 then None else Some (x mod y))"

definition two_steps :: "u32 \<Rightarrow> u64 \<Rightarrow> u64 \<Rightarrow> u8 \<Rightarrow> u8 \<Rightarrow> u64 option" where
  "two_steps A B y0 x0 x1 =
     do { y1 \<leftarrow> umod (y0 * ucast A + ucast x0) B; umod (y1 * ucast A + ucast x1) B }"

definition one_step :: "u32 \<Rightarrow> u64 \<Rightarrow> u64 \<Rightarrow> u8 \<Rightarrow> u8 \<Rightarrow> u64 option" where
  "one_step A B y0 x0 x1 =
     do { A1 \<leftarrow> umod (ucast A) B; A2 \<leftarrow> umod (ucast A * ucast A) B; umod (A2 * y0 + A1 * ucast x0 + ucast x1) B }"

definition main_rabin :: "u32 \<Rightarrow> u64 \<Rightarrow> u64 \<Rightarrow> u8 \<Rightarrow> u8 \<Rightarrow> (u64 \<times> u64 \<times> string) option" where
  "main_rabin A B y0 x0 x1 =
     do { y2 \<leftarrow> two_steps A B y0 x0 x1; y2p \<leftarrow> one_step A B y0 x0 x1; Some (y2, y2p, if y2 = y2p then ''ok'' else ''wrong'') }"

lemma fits: "x < 2 ^ 64 \<Longrightarrow> unat (of_nat x :: u64) = x"
  by (simp add: unat_of_nat take_bit_nat_eq_self)

lemma of_nat_umod: "x < 2 ^ 64 \<Longrightarrow> 0 < b \<Longrightarrow> b < 2 ^ 64 \<Longrightarrow> umod (of_nat x) (of_nat b) = Some (of_nat (x mod b))"
proof -
  assume x: "x < 2 ^ 64" and b: "0 < b" "b < 2 ^ 64"
  have "x mod b < 2 ^ 64" using x by (meson le_less_trans mod_less_eq_dividend)
  then have "(of_nat x :: u64) mod of_nat b = of_nat (x mod b)"
    by (simp add: word_eq_iff_unsigned [where ?'a = nat] unat_mod_distrib fits [OF x] fits [OF b(2)] fits)
  moreover have "(of_nat b :: u64) \<noteq> 0" using fits [OF b(2)] b(1) by force
  ultimately show ?thesis by (simp add: umod_def)
qed

lemma as_of_nat: "ucast a = (of_nat (unat a) :: 'b::len word)" for a :: "'a::len word"
  by simp

text \<open>Remark: As long as none of the products and sums overflows, one step gives the same fingerprint as two, the
  remainder of the polynomial.\<close>

theorem rabin_one_step:
  assumes "0 < B" "unat y0 * unat A + 255 < 2 ^ 64" "(unat B - 1) * unat A + 255 < 2 ^ 64" "(unat B - 1) * (unat y0 + 255) + 255 < 2 ^ 64"
  shows "one_step A B y0 x0 x1 = two_steps A B y0 x0 x1 \<and>
    two_steps A B y0 x0 x1 = Some (of_nat ((unat y0 * unat A ^ 2 + unat x0 * unat A + unat x1) mod unat B))"
proof -
  define a b y c d where "a = unat A" and "b = unat B" and "y = unat y0" and "c = unat x0" and "d = unat x1"
  have e: "B = of_nat b" "y0 = of_nat y" "ucast A = (of_nat a :: u64)" "ucast x0 = (of_nat c :: u64)" "ucast x1 = (of_nat d :: u64)"
    by (simp_all add: a_def b_def y_def c_def d_def)
  have b: "0 < b" "b < 2 ^ 64" using assms(1) unsigned_less [of B] by (simp_all add: b_def unat_gt_0 word_neq_0_conv)
  have byte: "unat x \<le> 255" for x :: u8 using unsigned_less [of x, where ?'a = nat] by simp
  have cd: "c \<le> 255" "d \<le> 255" unfolding c_def d_def by (rule byte)+
  have a: "a < 2 ^ 32" using unsigned_less [of A] by (simp add: a_def)
  have aa: "a * a < 2 ^ 64" using mult_strict_mono [OF a a] by simp
  have m: "k mod b \<le> b - 1" for k using mod_less_divisor [OF b(1), of k] by linarith
  have 1: "y * a + c < 2 ^ 64" using assms(2) cd by (simp add: y_def a_def)
  have 2: "(y * a + c) mod b * a + d < 2 ^ 64"
    using mult_le_mono1 [OF m [of "y * a + c"], of a] assms(3) cd(2) unfolding a_def [symmetric] b_def [symmetric] by linarith
  have "a * a mod b * y + a mod b * c \<le> (b - 1) * y + (b - 1) * 255"
    using m cd(1) by (intro add_mono mult_le_mono) auto
  also have "\<dots> = (b - 1) * (y + 255)" by (rule distrib_left [symmetric])
  finally have 3: "a * a mod b * y + a mod b * c + d < 2 ^ 64"
    using assms(4) cd(2) unfolding b_def [symmetric] y_def [symmetric] by linarith
  have t: "two_steps A B y0 x0 x1 = Some (of_nat (((y * a + c) mod b * a + d) mod b))"
    using of_nat_umod [OF 1 b] of_nat_umod [OF 2 b] unfolding two_steps_def e by simp
  have "a < 2 ^ 64" using a by simp
  then have o: "one_step A B y0 x0 x1 = Some (of_nat ((a * a mod b * y + a mod b * c + d) mod b))"
    using of_nat_umod [OF _ b, of a] of_nat_umod [OF aa b] of_nat_umod [OF 3 b] unfolding one_step_def e by simp
  have s: "((y * a + c) mod b * a + d) mod b = (y * a ^ 2 + c * a + d) mod b"
  proof -
    have "((y * a + c) mod b * a + d) mod b = ((y * a + c) * a + d) mod b" by (metis mod_add_left_eq mod_mult_left_eq)
    then show ?thesis by (simp add: power2_eq_square algebra_simps)
  qed
  have "(a * a mod b * y + a mod b * c + d) mod b = (a * a * y + a * c + d) mod b"
    by (intro mod_add_cong mod_mult_cong refl) simp_all
  also have "a * a * y + a * c + d = y * a ^ 2 + c * a + d" by (simp add: power2_eq_square)
  finally show ?thesis using t o s by (simp add: a_def b_def c_def d_def y_def)
qed

text \<open>The small numbers of the source are in this range; with the big ones, which it compiles, the results
  differ.\<close>

theorem rabin_one_step_witness:
  "one_step 0x567858 0x5566778 0x98765ef 0x29 0x17 = two_steps 0x567858 0x5566778 0x98765ef 0x29 0x17 \<and>
   main_rabin 0x56785678 0x5566778811223344 0x9876543210abcdef 0x99 0xE7 = Some (3316661889274448887, 760360965432463967, ''wrong'')"
proof -
  have "main_rabin 0x56785678 0x5566778811223344 0x9876543210abcdef 0x99 0xE7 = Some (3316661889274448887, 760360965432463967, ''wrong'')"
    by code_simp
  then show ?thesis using rabin_one_step [where A = "0x567858" and B = "0x5566778" and ?y0.0 = "0x98765ef" and ?x0.0 = "0x29" and ?x1.0 = "0x17"] by simp
qed

end
