(* ===== verification/SmartPtr.thy ===== *)
theory SmartPtr
  imports Prelude
begin

text \<open>
  Two smart pointers: \<open>src/cpp/shared-ptr.cc\<close> and \<open>src/cpp/uniq-ptr.cc\<close>.

  \<^item> Objects and reference counts live on heaps of their own, at addresses that are never used again. The value of an object that
    \<open>new\<close> made is not set. A null pointer is \<open>None\<close>.
  \<^item> A variable of the class is a number, in scope while \<open>handles\<close> has it. A program is a list of statements; \<open>shared_exec\<close> and \<open>uniq_exec\<close>
    are what the member functions make of them. \<open>new\<close> only appears where its result goes to a constructor.
  \<^item> Undefined behaviour, \<open>None\<close>, is to follow a null pointer, to read or delete what was deleted, or to read what was never set.
\<close>

subsection \<open>shared-ptr.cc\<close>

type_synonym handle = "nat option \<times> nat option" \<comment> \<open>\<open>ptr_\<close> and \<open>refcnt_\<close>\<close>

record shared_state =
  objs :: "nat \<Rightarrow> int option option"
  next_obj :: nat
  counts :: "nat \<Rightarrow> int option"
  next_count :: nat
  handles :: "nat \<Rightarrow> handle option"
  deleted :: "nat list"
  printed :: "int list"

definition shared_start :: shared_state where
  "shared_start = \<lparr>objs = Map.empty, next_obj = 0, counts = Map.empty, next_count = 0, handles = Map.empty, deleted = [], printed = []\<rparr>"

definition inc_ref :: "handle \<Rightarrow> shared_state \<Rightarrow> shared_state option" where
  "inc_ref h s = do { r \<leftarrow> snd h; n \<leftarrow> counts s r; Some (s\<lparr>counts := (counts s)(r \<mapsto> n + 1)\<rparr>) }"

definition delete_object :: "nat option \<Rightarrow> shared_state \<Rightarrow> shared_state option" where
  "delete_object p s = (case p of None \<Rightarrow> Some s
     | Some a \<Rightarrow> if objs s a = None then None else Some (s\<lparr>objs := (objs s)(a := None), deleted := deleted s @ [a]\<rparr>))"

text \<open>The handle after \<open>delete_ptr\<close>: only the last owner clears it.\<close>

definition delete_ptr :: "handle \<Rightarrow> shared_state \<Rightarrow> (handle \<times> shared_state) option" where
  "delete_ptr h s =
     (case snd h of None \<Rightarrow> Some (h, s)
      | Some r \<Rightarrow>
          do { n \<leftarrow> counts s r;
               let s = s\<lparr>counts := (counts s)(r \<mapsto> n - 1)\<rparr>;
               if n - 1 = 0 then do { s \<leftarrow> delete_object (fst h) s; Some ((None, None), s\<lparr>counts := (counts s)(r := None)\<rparr>) }
               else Some (h, s) })"

definition set_handle :: "nat \<Rightarrow> handle option \<Rightarrow> shared_state \<Rightarrow> shared_state" where
  "set_handle x h s = s\<lparr>handles := (handles s)(x := h)\<rparr>"

datatype shared_stmt = S_New nat | S_Empty nat | S_Copy nat nat | S_Assign nat nat | S_Free nat | S_Destroy nat | S_Set nat int | S_Print nat

fun shared_exec :: "shared_stmt \<Rightarrow> shared_state \<Rightarrow> shared_state option" where
  "shared_exec (S_New x) s =
     Some (set_handle x (Some (Some (next_obj s), Some (next_count s)))
       (s\<lparr>objs := (objs s)(next_obj s \<mapsto> None), next_obj := next_obj s + 1,
          counts := (counts s)(next_count s \<mapsto> 1), next_count := next_count s + 1\<rparr>))"
| "shared_exec (S_Empty x) s = Some (set_handle x (Some (None, None)) s)"
| "shared_exec (S_Copy x y) s = do { h \<leftarrow> handles s y; s \<leftarrow> inc_ref h s; Some (set_handle x (Some h) s) }"
| "shared_exec (S_Assign x y) s =
     (if x = y then Some s
      else do { g \<leftarrow> handles s x; (_, s) \<leftarrow> delete_ptr g s; h \<leftarrow> handles s y; s \<leftarrow> inc_ref h s; Some (set_handle x (Some h) s) })"
| "shared_exec (S_Free x) s = do { h \<leftarrow> handles s x; (h, s) \<leftarrow> delete_ptr h s; Some (set_handle x (Some h) s) }"
| "shared_exec (S_Destroy x) s = do { h \<leftarrow> handles s x; (_, s) \<leftarrow> delete_ptr h s; Some (set_handle x None s) }"
| "shared_exec (S_Set x v) s =
     do { h \<leftarrow> handles s x; p \<leftarrow> fst h; _ \<leftarrow> objs s p; Some (s\<lparr>objs := (objs s)(p \<mapsto> Some v)\<rparr>) }"
| "shared_exec (S_Print x) s =
     do { h \<leftarrow> handles s x; p \<leftarrow> fst h; u \<leftarrow> objs s p; v \<leftarrow> u; Some (s\<lparr>printed := printed s @ [v]\<rparr>) }"

fun shared_run :: "shared_stmt list \<Rightarrow> shared_state \<Rightarrow> shared_state option" where
  "shared_run [] s = Some s"
| "shared_run (st # sts) s = do { s \<leftarrow> shared_exec st s; shared_run sts s }"

text \<open>\<open>main\<close>, with the destructors at its end.\<close>

definition main_shared :: "shared_stmt list" where
  "main_shared = [S_New 1, S_Copy 2 1, S_Copy 3 2, S_Empty 4, S_Assign 4 3, S_Set 1 12345678, S_Print 4,
     S_Destroy 4, S_Destroy 3, S_Destroy 2, S_Destroy 1]"

subsection \<open>The count is the number of owners\<close>

definition owners :: "shared_state \<Rightarrow> nat \<Rightarrow> nat set" where
  "owners s r = {x. \<exists>p. handles s x = Some (p, Some r)}"

definition shared_inv :: "shared_state \<Rightarrow> bool" where
  "shared_inv s \<longleftrightarrow>
     finite (dom (handles s)) \<and>
     (\<forall>x p r. handles s x = Some (p, r) \<longrightarrow> (p = None \<longleftrightarrow> r = None)) \<and>
     (\<forall>x p r. handles s x = Some (Some p, Some r) \<longrightarrow> p \<in> dom (objs s) \<and> r \<in> dom (counts s)) \<and>
     (\<forall>x y p q r t. handles s x = Some (Some p, Some r) \<longrightarrow> handles s y = Some (Some q, Some t) \<longrightarrow> (p = q \<longleftrightarrow> r = t)) \<and>
     (\<forall>r n. counts s r = Some n \<longrightarrow> n = int (card (owners s r)) \<and> owners s r \<noteq> {} \<and> r < next_count s) \<and>
     (\<forall>p \<in> dom (objs s). \<exists>x r. handles s x = Some (Some p, Some r)) \<and>
     distinct (deleted s) \<and> set (deleted s) \<inter> dom (objs s) = {} \<and> set (deleted s) \<union> dom (objs s) = {..<next_obj s}"

text \<open>What a statement of a correct program may assume: variables are in scope, and only a pointer that is not empty is copied or
  assigned. \<open>free\<close> is not used.\<close>

definition points :: "shared_state \<Rightarrow> nat \<Rightarrow> bool" where
  "points s x \<longleftrightarrow> (\<exists>p r. handles s x = Some (Some p, Some r))"

fun shared_allowed :: "shared_state \<Rightarrow> shared_stmt \<Rightarrow> bool" where
  "shared_allowed s (S_New x) = (handles s x = None)"
| "shared_allowed s (S_Empty x) = (handles s x = None)"
| "shared_allowed s (S_Copy x y) = (handles s x = None \<and> points s y)"
| "shared_allowed s (S_Assign x y) = (handles s x \<noteq> None \<and> points s y)"
| "shared_allowed s (S_Free x) = False"
| "shared_allowed s (S_Destroy x) = (handles s x \<noteq> None)"
| "shared_allowed s (S_Set x v) = points s x"
| "shared_allowed s (S_Print x) = (\<exists>p r v. handles s x = Some (Some p, r) \<and> objs s p = Some (Some v))"

fun shared_ok :: "shared_stmt list \<Rightarrow> shared_state \<Rightarrow> bool" where
  "shared_ok [] s = True"
| "shared_ok (st # sts) s = (shared_allowed s st \<and> (case shared_exec st s of None \<Rightarrow> True | Some t \<Rightarrow> shared_ok sts t))"

lemma shared_start_inv: "shared_inv shared_start"
  by (simp add: shared_inv_def shared_start_def)

lemma owners_finite: "shared_inv s \<Longrightarrow> finite (owners s r)"
  by (rule finite_subset [of _ "dom (handles s)"]) (auto simp: owners_def shared_inv_def)

definition owners_of :: "(nat \<Rightarrow> handle option) \<Rightarrow> nat \<Rightarrow> nat set" where
  "owners_of f r = {x. \<exists>p. f x = Some (p, Some r)}"

lemma owners_upd:
  "owners (s\<lparr>handles := f\<rparr>) t = owners_of f t" "owners_of (handles s) t = owners s t"
  "owners_of (f(x \<mapsto> (p, Some r))) t = (if t = r then insert x (owners_of f t) else owners_of f t - {x})"
  "owners_of (f(x \<mapsto> (p, None))) t = owners_of f t - {x}"
  "owners_of (f(x := None)) t = owners_of f t - {x}"
  "owners (s\<lparr>objs := g\<rparr>) t = owners s t" "owners (s\<lparr>printed := o'\<rparr>) t = owners s t"
  by (auto simp: owners_def owners_of_def)

lemma shared_invD:
  assumes "shared_inv s"
  shows "handles s x = Some (p, r) \<Longrightarrow> p = None \<longleftrightarrow> r = None"
    "handles s x = Some (Some a, Some b) \<Longrightarrow> a \<in> dom (objs s) \<and> b \<in> dom (counts s)"
    "handles s x = Some (Some a, Some b) \<Longrightarrow> handles s y = Some (Some c, Some d) \<Longrightarrow> a = c \<longleftrightarrow> b = d"
    "counts s b = Some n \<Longrightarrow> n = int (card (owners s b)) \<and> owners s b \<noteq> {} \<and> b < next_count s"
    "a \<in> dom (objs s) \<Longrightarrow> \<exists>x r. handles s x = Some (Some a, Some r)"
    "distinct (deleted s)" "set (deleted s) \<inter> dom (objs s) = {}" "set (deleted s) \<union> dom (objs s) = {..<next_obj s}" "finite (dom (handles s))"
  using assms unfolding shared_inv_def by blast+

text \<open>The first and the last owner of an object, another one, and a variable that owns nothing.\<close>

lemma first_owner:
  assumes "shared_inv s" "handles s x = None"
  shows "shared_inv (s\<lparr>objs := (objs s)(next_obj s \<mapsto> u), next_obj := next_obj s + 1,
    counts := (counts s)(next_count s \<mapsto> 1), next_count := next_count s + 1, handles := (handles s)(x \<mapsto> (Some (next_obj s), Some (next_count s)))\<rparr>)" (is "shared_inv ?t")
proof -
  note d = shared_invD [OF assms(1)]
  have a: "objs s (next_obj s) = None" using d(8) by (metis Un_iff domIff lessThan_iff less_irrefl)
  have c: "counts s (next_count s) = None" using d(4) [of "next_count s"] by fastforce
  have o: "owners s (next_count s) = {}"
  proof (rule ccontr)
    assume "owners s (next_count s) \<noteq> {}"
    then obtain y q where y: "handles s y = Some (q, Some (next_count s))" by (auto simp: owners_def)
    then obtain b where "handles s y = Some (Some b, Some (next_count s))" using d(1) [OF y] by auto
    then show False using d(2) c by blast
  qed
  have n: "x \<notin> owners s t" for t using assms(2) by (simp add: owners_def)
  show ?thesis
    unfolding shared_inv_def
  proof (intro conjI allI impI)
    show "finite (dom (handles ?t))" using d(9) by simp
    show "(p = None) = (r = None)" if "handles ?t y = Some (p, r)" for y p r using that d(1) by (auto split: if_splits)
    show "p \<in> dom (objs ?t)" "r \<in> dom (counts ?t)" if "handles ?t y = Some (Some p, Some r)" for y p r
      using that d(2) by (auto split: if_splits)
    show "p = q \<longleftrightarrow> r = t" if "handles ?t y = Some (Some p, Some r)" "handles ?t z = Some (Some q, Some t)" for y z p q r t
    proof -
      have f: "r \<noteq> next_count s \<and> p \<noteq> next_obj s" if "handles s y = Some (Some p, Some r)" for y p r
        using d(2) [OF that] a c by (auto simp: domIff)
      then show ?thesis using that d(3) [of y p r z q t] by (auto split: if_splits dest: f)
    qed
    show "n = int (card (owners ?t r))" "owners ?t r \<noteq> {}" "r < next_count ?t" if "counts ?t r = Some n" for r n
      using that d(4) [of r n] o n by (auto simp: owners_upd split: if_splits)
    show "\<forall>p \<in> dom (objs ?t). \<exists>x r. handles ?t x = Some (Some p, Some r)"
    proof
      fix p assume "p \<in> dom (objs ?t)"
      then consider "p = next_obj s" | "p \<in> dom (objs s)" by (auto split: if_splits)
      then show "\<exists>x r. handles ?t x = Some (Some p, Some r)"
      proof cases
        case 1
        then show ?thesis by (intro exI [of _ x] exI [of _ "next_count s"]) simp
      next
        case 2
        then obtain y r where "handles s y = Some (Some p, Some r)" using d(5) by blast
        then show ?thesis using assms(2) by (intro exI [of _ y] exI [of _ r]) auto
      qed
    qed
    show "distinct (deleted ?t)" using d(6) by simp
    show "set (deleted ?t) \<inter> dom (objs ?t) = {}" using d(7,8) by auto
    show "set (deleted ?t) \<union> dom (objs ?t) = {..<next_obj ?t}" using d(8) by (auto simp: less_Suc_eq)
  qed
qed

lemma another_owner:
  assumes "shared_inv s" "handles s x = None" "handles s y = Some (Some p, Some r)" "counts s r = Some n"
  shows "shared_inv (s\<lparr>counts := (counts s)(r \<mapsto> n + 1), handles := (handles s)(x \<mapsto> (Some p, Some r))\<rparr>)" (is "shared_inv ?t")
proof -
  note d = shared_invD [OF assms(1)]
  have n: "x \<notin> owners s t" for t using assms(2) by (simp add: owners_def)
  show ?thesis
    unfolding shared_inv_def
  proof (intro conjI allI impI)
    show "finite (dom (handles ?t))" using d(9) by simp
    show "(q = None) = (t = None)" if "handles ?t z = Some (q, t)" for z q t using that d(1) by (auto split: if_splits)
    show "q \<in> dom (objs ?t)" "t \<in> dom (counts ?t)" if "handles ?t z = Some (Some q, Some t)" for z q t
      using that d(2) [of z q t] d(2) [OF assms(3)] by (auto split: if_splits)
    show "q = q' \<longleftrightarrow> t = t'" if "handles ?t z = Some (Some q, Some t)" "handles ?t z' = Some (Some q', Some t')" for z z' q q' t t'
      using that d(3) [OF assms(3), of z q t] d(3) [OF assms(3), of z' q' t'] d(3) [of z q t z' q' t'] by (auto split: if_splits)
    show "m = int (card (owners ?t t))" "owners ?t t \<noteq> {}" "t < next_count ?t" if "counts ?t t = Some m" for t m
      using that d(4) [of t] assms(4) n owners_finite [OF assms(1)] by (auto simp: owners_upd split: if_splits)
    show "\<forall>q \<in> dom (objs ?t). \<exists>x r. handles ?t x = Some (Some q, Some r)"
    proof
      fix q assume "q \<in> dom (objs ?t)"
      then have "q \<in> dom (objs s)" by simp
      then obtain z t where "handles s z = Some (Some q, Some t)" using d(5) by blast
      then show "\<exists>x r. handles ?t x = Some (Some q, Some r)" using assms(2) by (intro exI [of _ z] exI [of _ t]) auto
    qed
  qed (use d in simp_all)
qed

lemma no_owner:
  assumes "shared_inv s" "handles s x = None"
  shows "shared_inv (s\<lparr>handles := (handles s)(x \<mapsto> (None, None))\<rparr>)" (is "shared_inv ?t")
proof -
  note d = shared_invD [OF assms(1)]
  have n: "owners ?t t = owners s t" for t using assms(2) by (simp add: owners_upd) (simp add: owners_def)
  show ?thesis
    unfolding shared_inv_def n
  proof (intro conjI allI impI)
    show "finite (dom (handles ?t))" using d(9) by simp
    show "\<forall>q \<in> dom (objs ?t). \<exists>x r. handles ?t x = Some (Some q, Some r)"
    proof
      fix q assume "q \<in> dom (objs ?t)"
      then have "q \<in> dom (objs s)" by simp
      then obtain z t where "handles s z = Some (Some q, Some t)" using d(5) by blast
      then show "\<exists>x r. handles ?t x = Some (Some q, Some r)" using assms(2) by (intro exI [of _ z] exI [of _ t]) auto
    qed
  qed (use d in \<open>auto split: if_splits\<close>)
qed

lemma one_owner:
  assumes "shared_inv s" "handles s x = Some (Some p, Some r)" "counts s r = Some 1"
  shows "shared_inv (s\<lparr>objs := (objs s)(p := None), deleted := deleted s @ [p], counts := (counts s)(r := None), handles := (handles s)(x := None)\<rparr>)"
    (is "shared_inv ?t")
proof -
  note d = shared_invD [OF assms(1)]
  have "card (owners s r) = 1" "x \<in> owners s r" using d(4) [OF assms(3)] assms(2) by (auto simp: owners_def)
  then have o: "owners s r = {x}" by (metis card_1_singletonE singletonD)
  have only: "a \<noteq> p \<and> b \<noteq> r" if "handles s y = Some (Some a, Some b)" "y \<noteq> x" for y a b
  proof -
    have "y \<notin> owners s r" using o that(2) by simp
    then have "b \<noteq> r" using that(1) by (auto simp: owners_def)
    then show ?thesis using d(3) [OF that(1) assms(2)] by blast
  qed
  have xo: "x \<notin> owners s t" if "t \<noteq> r" for t using that assms(2) by (simp add: owners_def)
  show ?thesis
    unfolding shared_inv_def
  proof (intro conjI allI impI)
    show "finite (dom (handles ?t))" using d(9) by simp
    show "(q = None) = (t = None)" if "handles ?t z = Some (q, t)" for z q t using that d(1) by (auto split: if_splits)
    show "q \<in> dom (objs ?t)" "t \<in> dom (counts ?t)" if "handles ?t z = Some (Some q, Some t)" for z q t
      using that d(2) [of z q t] only [of z q t] by (auto split: if_splits)
    show "q = q' \<longleftrightarrow> t = t'" if "handles ?t z = Some (Some q, Some t)" "handles ?t z' = Some (Some q', Some t')" for z z' q q' t t'
      using that d(3) [of z q t z' q' t'] by (auto split: if_splits)
    show "m = int (card (owners ?t t))" "owners ?t t \<noteq> {}" "t < next_count ?t" if "counts ?t t = Some m" for t m
      using that d(4) [of t m] xo [of t] by (auto simp: owners_upd split: if_splits)
    show "\<forall>q \<in> dom (objs ?t). \<exists>x r. handles ?t x = Some (Some q, Some r)"
    proof
      fix q assume "q \<in> dom (objs ?t)"
      then have "q \<in> dom (objs s)" "q \<noteq> p" by (auto split: if_splits)
      then obtain z t where "handles s z = Some (Some q, Some t)" "q \<noteq> p" using d(5) by blast
      then show "\<exists>x r. handles ?t x = Some (Some q, Some r)" using assms(2) by (intro exI [of _ z] exI [of _ t]) auto
    qed
    have p: "p \<in> dom (objs s)" using d(2) [OF assms(2)] by blast
    then show "distinct (deleted ?t)" using d(6,7) by auto
    show "set (deleted ?t) \<inter> dom (objs ?t) = {}" using d(7) by auto
    show "set (deleted ?t) \<union> dom (objs ?t) = {..<next_obj ?t}" using d(8) p by auto
  qed
qed

lemma one_less_owner:
  assumes "shared_inv s" "handles s x = Some (Some p, Some r)" "counts s r = Some n" "n \<noteq> 1"
  shows "shared_inv (s\<lparr>counts := (counts s)(r \<mapsto> n - 1), handles := (handles s)(x := None)\<rparr>)" (is "shared_inv ?t")
proof -
  note d = shared_invD [OF assms(1)]
  have x: "x \<in> owners s r" using assms(2) by (simp add: owners_def)
  have c: "n = int (card (owners s r))" using d(4) [OF assms(3)] by blast
  have f: "finite (owners s r)" using owners_finite [OF assms(1)] .
  have "card (owners s r - {x}) = card (owners s r) - 1" "card (owners s r) \<noteq> 0" using x f by auto
  then have c': "n - 1 = int (card (owners s r - {x}))" using c by linarith
  then have ne: "owners s r - {x} \<noteq> {}" using assms(4) by force
  have xo: "x \<notin> owners s t" if "t \<noteq> r" for t using that assms(2) by (simp add: owners_def)
  show ?thesis
    unfolding shared_inv_def
  proof (intro conjI allI impI)
    show "finite (dom (handles ?t))" using d(9) by simp
    show "(q = None) = (t = None)" if "handles ?t z = Some (q, t)" for z q t using that d(1) by (auto split: if_splits)
    show "q \<in> dom (objs ?t)" "t \<in> dom (counts ?t)" if "handles ?t z = Some (Some q, Some t)" for z q t
      using that d(2) [of z q t] by (auto split: if_splits)
    show "q = q' \<longleftrightarrow> t = t'" if "handles ?t z = Some (Some q, Some t)" "handles ?t z' = Some (Some q', Some t')" for z z' q q' t t'
      using that d(3) [of z q t z' q' t'] by (auto split: if_splits)
    show "m = int (card (owners ?t t))" "owners ?t t \<noteq> {}" "t < next_count ?t" if "counts ?t t = Some m" for t m
      using that d(4) [of t] assms(3) xo [of t] c' ne by (auto simp: owners_upd split: if_splits)
    show "\<forall>q \<in> dom (objs ?t). \<exists>x r. handles ?t x = Some (Some q, Some r)"
    proof
      fix q assume "q \<in> dom (objs ?t)"
      then have "q \<in> dom (objs s)" by simp
      then obtain z t where z: "handles s z = Some (Some q, Some t)" using d(5) by blast
      show "\<exists>x r. handles ?t x = Some (Some q, Some r)"
      proof (cases "z = x")
        case True
        then have "q = p" "t = r" using z assms(2) by auto
        obtain y where "y \<in> owners s r" "y \<noteq> x" using ne by blast
        then obtain a where y: "handles s y = Some (a, Some r)" by (auto simp: owners_def)
        then obtain b where "a = Some b" using d(1) [OF y] by auto
        then have "handles s y = Some (Some p, Some r)" using y d(3) [of y b r x p r] assms(2) by simp
        then show ?thesis using \<open>q = p\<close> \<open>y \<noteq> x\<close> by (intro exI [of _ y] exI [of _ r]) simp
      next
        case False
        then show ?thesis using z by (intro exI [of _ z] exI [of _ t]) simp
      qed
    qed
  qed (use d in simp_all)
qed

lemma no_owner_gone:
  assumes "shared_inv s" "handles s x = Some (None, None)"
  shows "shared_inv (s\<lparr>handles := (handles s)(x := None)\<rparr>)" (is "shared_inv ?t")
proof -
  note d = shared_invD [OF assms(1)]
  have n: "owners ?t t = owners s t" for t using assms(2) by (auto simp: owners_def)
  show ?thesis
    unfolding shared_inv_def n
  proof (intro conjI allI impI)
    show "finite (dom (handles ?t))" using d(9) by simp
    show "\<forall>q \<in> dom (objs ?t). \<exists>x r. handles ?t x = Some (Some q, Some r)"
    proof
      fix q assume "q \<in> dom (objs ?t)"
      then have "q \<in> dom (objs s)" by simp
      then obtain z t where "handles s z = Some (Some q, Some t)" using d(5) by blast
      then show "\<exists>x r. handles ?t x = Some (Some q, Some r)" using assms(2) by (intro exI [of _ z] exI [of _ t]) auto
    qed
  qed (use d in \<open>auto split: if_splits\<close>)
qed

text \<open>The end of a variable, and a copy.\<close>

lemma destroy_inv:
  assumes "shared_inv s" "handles s x = Some h"
  shows "\<exists>g t. delete_ptr h s = Some (g, t) \<and> handles t = handles s \<and> shared_inv (set_handle x None t) \<and>
    (\<forall>y. y \<noteq> x \<longrightarrow> points s y \<longrightarrow> points (set_handle x None t) y)"
proof (cases "snd h")
  case None
  then have "h = (None, None)" using shared_invD(1) [OF assms(1), of x "fst h" "snd h"] assms(2) by (simp add: prod_eq_iff)
  then show ?thesis using no_owner_gone [OF assms(1)] assms(2) by (simp add: delete_ptr_def set_handle_def points_def)
next
  case (Some r)
  then obtain p where h: "h = (Some p, Some r)" using shared_invD(1) [OF assms(1), of x "fst h" "snd h"] assms(2) by (cases h) auto
  then obtain u n where o: "objs s p = Some u" "counts s r = Some n" using shared_invD(2) [OF assms(1)] assms(2) by blast
  show ?thesis
  proof (cases "n = 1")
    case True
    then show ?thesis
      using one_owner [OF assms(1) assms(2) [unfolded h]] o
      by (simp add: h delete_ptr_def delete_object_def set_handle_def points_def)
  next
    case False
    then show ?thesis
      using one_less_owner [OF assms(1) assms(2) [unfolded h] o(2)] o
      by (simp add: h delete_ptr_def set_handle_def points_def)
  qed
qed

lemma copy_inv:
  assumes "shared_inv s" "handles s x = None" "points s y"
  shows "\<exists>h t. handles s y = Some h \<and> inc_ref h s = Some t \<and> shared_inv (set_handle x (Some h) t)"
proof -
  obtain p r where y: "handles s y = Some (Some p, Some r)" using assms(3) by (auto simp: points_def)
  then obtain n where n: "counts s r = Some n" using shared_invD(2) [OF assms(1)] by blast
  show ?thesis using another_owner [OF assms(1,2) y n] y n by (simp add: inc_ref_def set_handle_def)
qed

lemma shared_step:
  assumes "shared_inv s" "shared_allowed s st"
  shows "\<exists>t. shared_exec st s = Some t \<and> shared_inv t"
proof (cases st)
  case (S_New x)
  then show ?thesis using first_owner [OF assms(1)] assms(2) by (simp add: set_handle_def)
next
  case (S_Empty x)
  then show ?thesis using no_owner [OF assms(1)] assms(2) by (simp add: set_handle_def)
next
  case (S_Copy x y)
  then show ?thesis using copy_inv [OF assms(1), of x y] assms(2) by auto
next
  case (S_Assign x y)
  show ?thesis
  proof (cases "x = y")
    case False
    obtain g where g: "handles s x = Some g" "points s y" using assms(2) S_Assign by auto
    obtain g' t where t: "delete_ptr g s = Some (g', t)" "handles t = handles s" "shared_inv (set_handle x None t)" "points (set_handle x None t) y"
      using destroy_inv [OF assms(1) g(1)] g(2) False by metis
    obtain h u where u: "handles (set_handle x None t) y = Some h" "inc_ref h (set_handle x None t) = Some u" "shared_inv (set_handle x (Some h) u)"
      using copy_inv [OF t(3) _ t(4), of x] by (auto simp: set_handle_def)
    obtain v where v: "inc_ref h t = Some v" "u = set_handle x None v"
      using u(2) by (auto simp: inc_ref_def set_handle_def split: bind_splits)
    have "handles t y = Some h" using u(1) False by (simp add: set_handle_def)
    then have "shared_exec st s = Some (set_handle x (Some h) v)" using S_Assign False g(1) t(1) v(1) by simp
    moreover have "set_handle x (Some h) u = set_handle x (Some h) v" by (simp add: v(2) set_handle_def)
    ultimately show ?thesis using u(3) by simp
  qed (use S_Assign assms(1) in simp)
next
  case (S_Destroy x)
  then obtain h where "handles s x = Some h" using assms(2) by auto
  then show ?thesis using S_Destroy destroy_inv [OF assms(1)] by fastforce
next
  case (S_Set x v)
  then obtain p r where x: "handles s x = Some (Some p, Some r)" using assms(2) by (auto simp: points_def)
  then obtain u where u: "objs s p = Some u" using shared_invD(2) [OF assms(1)] by blast
  have "dom ((objs s)(p \<mapsto> Some v)) = dom (objs s)" using u by auto
  then have "shared_inv (s\<lparr>objs := (objs s)(p \<mapsto> Some v)\<rparr>)" using assms(1) by (simp add: shared_inv_def owners_upd)
  then show ?thesis using S_Set x u by simp
next
  case (S_Print x)
  then obtain p r v where "handles s x = Some (Some p, r)" "objs s p = Some (Some v)" using assms(2) by auto
  then show ?thesis using S_Print assms(1) by (simp add: shared_inv_def owners_upd)
qed (use assms(2) in simp)

lemma shared_run_inv: "shared_inv s \<Longrightarrow> shared_ok prog s \<Longrightarrow> \<exists>t. shared_run prog s = Some t \<and> shared_inv t"
proof (induction prog arbitrary: s)
  case (Cons st prog)
  then have "shared_allowed s st" by simp
  then obtain t where "shared_exec st s = Some t" "shared_inv t" using shared_step [OF Cons.prems(1)] by blast
  then show ?case using Cons by simp
qed simp

subsection \<open>Properties of shared pointers\<close>

text \<open>C17: A program that keeps its variables in scope, copies and assigns only pointers that own something and does not use
  \<open>free\<close> has no undefined behaviour. Every count is the number of owners, an object is deleted once, when its last owner goes and not
  before, and nothing is left when no variable is left.\<close>

theorem shared_ptr_safe:
  assumes "shared_ok prog shared_start"
  shows "\<exists>t. shared_run prog shared_start = Some t \<and>
    (\<forall>r n. counts t r = Some n \<longrightarrow> n = int (card (owners t r))) \<and>
    distinct (deleted t) \<and> set (deleted t) \<inter> dom (objs t) = {} \<and> set (deleted t) \<union> dom (objs t) = {..<next_obj t} \<and>
    (\<forall>p \<in> dom (objs t). \<exists>x r. handles t x = Some (Some p, Some r)) \<and>
    (\<forall>x p r. handles t x = Some (Some p, r) \<longrightarrow> p \<in> dom (objs t)) \<and>
    ((\<forall>x. handles t x = None) \<longrightarrow> objs t = Map.empty \<and> counts t = Map.empty)"
proof -
  obtain t where t: "shared_run prog shared_start = Some t" "shared_inv t"
    using shared_run_inv [OF shared_start_inv assms] by blast
  note d = shared_invD [OF t(2)]
  have "p \<in> dom (objs t)" if "handles t x = Some (Some p, r)" for x p r
    using d(1) [OF that] d(2) [of x p "the r"] that by (cases r) auto
  moreover have "objs t = Map.empty \<and> counts t = Map.empty" if "\<forall>x. handles t x = None"
  proof
    show "objs t = Map.empty" using that d(5) by fastforce
    have "owners t r = {}" for r using that by (simp add: owners_def)
    then show "counts t = Map.empty" using d(4) by fastforce
  qed
  ultimately show ?thesis using t(1) d(4-8) by blast
qed

theorem shared_ptr_safe_witness:
  "map_option (\<lambda>t. (printed t, deleted t, handles t 1)) (shared_run main_shared shared_start) = Some ([12345678], [0], None) \<and>
   (\<exists>t. shared_run main_shared shared_start = Some t \<and> distinct (deleted t))"
proof -
  have "shared_ok main_shared shared_start"
    by (simp add: main_shared_def shared_start_def set_handle_def points_def inc_ref_def delete_ptr_def delete_object_def)
  moreover have "map_option (\<lambda>t. (printed t, deleted t, handles t 1)) (shared_run main_shared shared_start) = Some ([12345678], [0], None)"
    by code_simp
  ultimately show ?thesis using shared_ptr_safe [of main_shared] by blast
qed



subsection \<open>uniq-ptr.cc\<close>

text \<open>A variable in scope has a pointer or none. Two variables never share one.\<close>

record uniq_state =
  u_live :: "nat set"
  u_next :: nat
  u_ptr :: "nat \<Rightarrow> nat option option"
  u_deleted :: "nat list"
  u_printed :: "nat option list"

definition uniq_start :: uniq_state where
  "uniq_start = \<lparr>u_live = {}, u_next = 0, u_ptr = Map.empty, u_deleted = [], u_printed = []\<rparr>"

definition uniq_delete :: "nat option \<Rightarrow> uniq_state \<Rightarrow> uniq_state option" where
  "uniq_delete p s = (case p of None \<Rightarrow> Some s
     | Some a \<Rightarrow> if a \<in> u_live s then Some (s\<lparr>u_live := u_live s - {a}, u_deleted := u_deleted s @ [a]\<rparr>) else None)"

datatype uniq_stmt = U_New nat | U_Empty nat | U_Move nat nat | U_Assign nat nat | U_Destroy nat | U_Get nat

fun uniq_exec :: "uniq_stmt \<Rightarrow> uniq_state \<Rightarrow> uniq_state option" where
  "uniq_exec (U_New x) s =
     Some (s\<lparr>u_live := insert (u_next s) (u_live s), u_next := u_next s + 1, u_ptr := (u_ptr s)(x \<mapsto> Some (u_next s))\<rparr>)"
| "uniq_exec (U_Empty x) s = Some (s\<lparr>u_ptr := (u_ptr s)(x \<mapsto> None)\<rparr>)"
| "uniq_exec (U_Move x y) s = do { p \<leftarrow> u_ptr s y; Some (s\<lparr>u_ptr := (u_ptr s)(x \<mapsto> p, y \<mapsto> None)\<rparr>) }"
| "uniq_exec (U_Assign x y) s =
     (if x = y then Some s
      else do { p \<leftarrow> u_ptr s x; s \<leftarrow> uniq_delete p s; q \<leftarrow> u_ptr s y; Some (s\<lparr>u_ptr := (u_ptr s)(x \<mapsto> q, y \<mapsto> None)\<rparr>) })"
| "uniq_exec (U_Destroy x) s = do { p \<leftarrow> u_ptr s x; s \<leftarrow> uniq_delete p s; Some (s\<lparr>u_ptr := (u_ptr s)(x := None)\<rparr>) }"
| "uniq_exec (U_Get x) s = do { p \<leftarrow> u_ptr s x; Some (s\<lparr>u_printed := u_printed s @ [p]\<rparr>) }"

fun uniq_run :: "uniq_stmt list \<Rightarrow> uniq_state \<Rightarrow> uniq_state option" where
  "uniq_run [] s = Some s"
| "uniq_run (st # sts) s = do { s \<leftarrow> uniq_exec st s; uniq_run sts s }"

definition main_uniq :: "uniq_stmt list" where
  "main_uniq = [U_New 1, U_Get 1, U_Move 2 1, U_Get 1, U_Get 2, U_New 3, U_Get 3, U_Assign 3 2, U_Get 2, U_Get 3,
     U_Destroy 3, U_Destroy 2, U_Destroy 1]"

fun uniq_allowed :: "uniq_state \<Rightarrow> uniq_stmt \<Rightarrow> bool" where
  "uniq_allowed s (U_New x) = (u_ptr s x = None)"
| "uniq_allowed s (U_Empty x) = (u_ptr s x = None)"
| "uniq_allowed s (U_Move x y) = (u_ptr s x = None \<and> u_ptr s y \<noteq> None)"
| "uniq_allowed s (U_Assign x y) = (u_ptr s x \<noteq> None \<and> u_ptr s y \<noteq> None)"
| "uniq_allowed s (U_Destroy x) = (u_ptr s x \<noteq> None)"
| "uniq_allowed s (U_Get x) = (u_ptr s x \<noteq> None)"

fun uniq_ok :: "uniq_stmt list \<Rightarrow> uniq_state \<Rightarrow> bool" where
  "uniq_ok [] s = True"
| "uniq_ok (st # sts) s = (uniq_allowed s st \<and> (case uniq_exec st s of None \<Rightarrow> True | Some t \<Rightarrow> uniq_ok sts t))"

text \<open>No two variables have the same pointer; the pointers that some variable has.\<close>

definition sole :: "(nat \<Rightarrow> nat option option) \<Rightarrow> bool" where
  "sole f \<longleftrightarrow> (\<forall>x y p. f x = Some (Some p) \<longrightarrow> f y = Some (Some p) \<longrightarrow> x = y)"

definition owned :: "(nat \<Rightarrow> nat option option) \<Rightarrow> nat set" where
  "owned f = {p. \<exists>x. f x = Some (Some p)}"

definition uniq_inv :: "uniq_state \<Rightarrow> bool" where
  "uniq_inv s \<longleftrightarrow> sole (u_ptr s) \<and> u_live s = owned (u_ptr s) \<and>
     distinct (u_deleted s) \<and> set (u_deleted s) \<inter> owned (u_ptr s) = {} \<and> set (u_deleted s) \<union> owned (u_ptr s) = {..<u_next s}"

lemma ownedI: "f x = Some (Some p) \<Longrightarrow> p \<in> owned f"
  by (auto simp: owned_def)

lemma soleD: "sole f \<Longrightarrow> f x = Some (Some p) \<Longrightarrow> f y = Some (Some p) \<Longrightarrow> x = y"
  unfolding sole_def by blast

lemma sole_gone: "sole f \<Longrightarrow> h \<in> {None, Some None} \<Longrightarrow> sole (f(x := h))"
  unfolding sole_def by (metis fun_upd_apply insertE option.distinct(1) option.inject singletonD)

lemma owned_gone: "h \<in> {None, Some None} \<Longrightarrow> owned (f(x := h)) = {p. \<exists>y. y \<noteq> x \<and> f y = Some (Some p)}"
  by (auto simp: owned_def)

lemma owned_empty:
  assumes "f x \<in> {None, Some None}" "h \<in> {None, Some None}"
  shows "owned (f(x := h)) = owned f"
proof -
  have "y \<noteq> x" if "f y = Some (Some p)" for y p using that assms(1) by auto
  then have "{p. \<exists>y. y \<noteq> x \<and> f y = Some (Some p)} = {p. \<exists>y. f y = Some (Some p)}" by blast
  then show ?thesis unfolding owned_gone [OF assms(2)] by (simp only: owned_def)
qed

lemma owned_rest:
  assumes "f x = Some (Some a)" "h \<in> {None, Some None}"
  shows "insert a (owned (f(x := h))) = owned f"
proof -
  have "p \<in> insert a {p. \<exists>y. y \<noteq> x \<and> f y = Some (Some p)} \<longleftrightarrow> p \<in> {p. \<exists>y. f y = Some (Some p)}" for p
  proof (cases "p = a")
    case False
    then have "y \<noteq> x" if "f y = Some (Some p)" for y using that assms(1) by auto
    then show ?thesis using False by blast
  qed (use assms(1) in blast)
  then have "insert a {p. \<exists>y. y \<noteq> x \<and> f y = Some (Some p)} = {p. \<exists>y. f y = Some (Some p)}" by blast
  then show ?thesis unfolding owned_gone [OF assms(2)] by (simp only: owned_def)
qed

lemma owned_last:
  assumes "sole f" "f x = Some (Some a)" "h \<in> {None, Some None}"
  shows "a \<notin> owned (f(x := h))" "owned (f(x := h)) = owned f - {a}"
proof -
  show "a \<notin> owned (f(x := h))" unfolding owned_gone [OF assms(3)] using soleD [OF assms(1,2)] by blast
  then show "owned (f(x := h)) = owned f - {a}" using owned_rest [of f x a h] assms(2,3) by blast
qed

lemma owned_first: "f x = None \<Longrightarrow> owned (f(x \<mapsto> Some a)) = insert a (owned f)"
proof
  assume x: "f x = None"
  show "insert a (owned f) \<subseteq> owned (f(x \<mapsto> Some a))"
  proof
    fix p assume "p \<in> insert a (owned f)"
    then consider "p = a" | y where "f y = Some (Some p)" by (auto simp: owned_def)
    then show "p \<in> owned (f(x \<mapsto> Some a))"
    proof cases
      case 2
      then have "(f(x \<mapsto> Some a)) y = Some (Some p)" using x by auto
      then show ?thesis by (rule ownedI)
    qed (auto intro: ownedI [of _ x])
  qed
qed (auto simp: owned_def split: if_splits)

lemma sole_first: "sole f \<Longrightarrow> a \<notin> owned f \<Longrightarrow> sole (f(x \<mapsto> Some a))"
  unfolding sole_def owned_def by (metis (mono_tags, lifting) fun_upd_apply mem_Collect_eq option.inject)

text \<open>A deletion leaves the other variables as they are; a move leaves the pointers as they are.\<close>

lemma uniq_delete_inv:
  assumes "uniq_inv s" "u_ptr s x = Some p"
  shows "\<exists>t. uniq_delete p s = Some t \<and> u_ptr t = u_ptr s \<and> uniq_inv (t\<lparr>u_ptr := (u_ptr s)(x := None)\<rparr>)"
proof -
  have g: "sole ((u_ptr s)(x := None))" using assms(1) by (simp add: uniq_inv_def sole_gone)
  show ?thesis
  proof (cases p)
    case None
    then have "owned ((u_ptr s)(x := None)) = owned (u_ptr s)" using assms(2) by (simp add: owned_empty)
    then show ?thesis using assms(1) g None by (simp add: uniq_inv_def uniq_delete_def)
  next
    case (Some a)
    have "owned ((u_ptr s)(x := None)) = owned (u_ptr s) - {a}" using assms Some by (simp add: owned_last(2) uniq_inv_def)
    moreover have "a \<in> owned (u_ptr s)" using assms(2) Some by (simp add: ownedI)
    ultimately show ?thesis using assms(1) g Some by (simp add: uniq_inv_def uniq_delete_def) blast
  qed
qed

lemma uniq_move_inv:
  assumes "uniq_inv s" "u_ptr s x = None" "u_ptr s y = Some q"
  shows "uniq_inv (s\<lparr>u_ptr := (u_ptr s)(x \<mapsto> q, y \<mapsto> None)\<rparr>)"
proof -
  let ?f = "(u_ptr s)(y \<mapsto> None)"
  have u: "sole (u_ptr s)" "x \<noteq> y" using assms by (auto simp: uniq_inv_def)
  then have f: "sole ?f" "?f x = None" "(u_ptr s)(x \<mapsto> q, y \<mapsto> None) = ?f(x \<mapsto> q)" using assms(2) by (auto simp: sole_gone)
  have "sole (?f(x \<mapsto> q)) \<and> owned (?f(x \<mapsto> q)) = owned (u_ptr s)"
  proof (cases q)
    case None
    then show ?thesis using f assms(3) sole_gone [OF f(1)] by (simp add: owned_empty)
  next
    case (Some a)
    have "a \<notin> owned ?f" "insert a (owned ?f) = owned (u_ptr s)"
      using owned_last(1) [OF u(1), of y a "Some None"] owned_rest [of "u_ptr s" y a "Some None"] assms(3) Some by simp_all
    then show ?thesis using Some sole_first [OF f(1)] owned_first [of ?f x, OF f(2)] by simp
  qed
  then show ?thesis using assms(1) unfolding f(3) by (simp add: uniq_inv_def)
qed

lemma uniq_step:
  assumes "uniq_inv s" "uniq_allowed s st"
  shows "\<exists>t. uniq_exec st s = Some t \<and> uniq_inv t"
proof (cases st)
  case (U_New x)
  let ?a = "u_next s"
  have x: "u_ptr s x = None" using assms(2) U_New by simp
  have u: "set (u_deleted s) \<union> owned (u_ptr s) = {..<?a}" using assms(1) by (simp add: uniq_inv_def)
  then have a: "?a \<notin> owned (u_ptr s)" "?a \<notin> set (u_deleted s)" by blast+
  have "set (u_deleted s) \<union> insert ?a (owned (u_ptr s)) = {..<Suc ?a}" unfolding lessThan_Suc using u by blast
  then show ?thesis using U_New assms(1) a x by (simp add: uniq_inv_def owned_first sole_first)
next
  case (U_Empty x)
  then show ?thesis using assms by (simp add: uniq_inv_def owned_empty sole_gone)
next
  case (U_Move x y)
  then show ?thesis using assms uniq_move_inv [OF assms(1), of x y] by auto
next
  case (U_Assign x y)
  show ?thesis
  proof (cases "x = y")
    case False
    obtain p q where p: "u_ptr s x = Some p" "u_ptr s y = Some q" using assms(2) U_Assign by auto
    obtain t where t: "uniq_delete p s = Some t" "u_ptr t = u_ptr s" "uniq_inv (t\<lparr>u_ptr := (u_ptr s)(x := None)\<rparr>)"
      using uniq_delete_inv [OF assms(1) p(1)] by blast
    have "uniq_inv (t\<lparr>u_ptr := (u_ptr s)(x \<mapsto> q, y \<mapsto> None)\<rparr>)"
      using uniq_move_inv [OF t(3), of x y q] False p(2) by simp
    then show ?thesis using U_Assign False p t by simp
  qed (use U_Assign assms(1) in simp)
next
  case (U_Destroy x)
  then obtain p where p: "u_ptr s x = Some p" using assms(2) by auto
  then show ?thesis using U_Destroy uniq_delete_inv [OF assms(1) p] by auto
next
  case (U_Get x)
  then show ?thesis using assms by (auto simp: uniq_inv_def)
qed

lemma uniq_run_inv: "uniq_inv s \<Longrightarrow> uniq_ok prog s \<Longrightarrow> \<exists>t. uniq_run prog s = Some t \<and> uniq_inv t"
proof (induction prog arbitrary: s)
  case (Cons st prog)
  then have "uniq_allowed s st" by simp
  then obtain t where "uniq_exec st s = Some t" "uniq_inv t" using uniq_step [OF Cons.prems(1)] by blast
  then show ?case using Cons by simp
qed simp

subsection \<open>Properties of unique pointers\<close>

text \<open>C30: Whatever a program does with unique pointers in scope, empty ones and assignments to itself included, there is no undefined
  behaviour, every object that lives has exactly one owner, none is deleted twice, and none is left when no variable is.\<close>

theorem uniq_ptr_safe:
  assumes "uniq_ok prog uniq_start"
  shows "\<exists>t. uniq_run prog uniq_start = Some t \<and> (\<forall>p. p \<in> u_live t \<longleftrightarrow> (\<exists>!x. u_ptr t x = Some (Some p))) \<and>
    distinct (u_deleted t) \<and> set (u_deleted t) \<inter> u_live t = {} \<and> set (u_deleted t) \<union> u_live t = {..<u_next t} \<and>
    ((\<forall>x. u_ptr t x = None) \<longrightarrow> u_live t = {})"
proof -
  have "uniq_inv uniq_start" by (simp add: uniq_inv_def uniq_start_def sole_def owned_def)
  then obtain t where t: "uniq_run prog uniq_start = Some t" "uniq_inv t" using uniq_run_inv assms by blast
  have "p \<in> u_live t \<longleftrightarrow> (\<exists>!x. u_ptr t x = Some (Some p))" for p
    using t(2) soleD [of "u_ptr t"] unfolding uniq_inv_def owned_def by blast
  moreover have "u_live t = {}" if "\<forall>x. u_ptr t x = None" using t(2) that by (simp add: uniq_inv_def owned_def)
  moreover have "distinct (u_deleted t) \<and> set (u_deleted t) \<inter> u_live t = {} \<and> set (u_deleted t) \<union> u_live t = {..<u_next t}"
    using t(2) by (simp add: uniq_inv_def)
  ultimately show ?thesis using t(1) by (intro exI [of _ t]) blast
qed

theorem uniq_ptr_safe_witness:
  "map_option (\<lambda>t. (u_printed t, u_deleted t)) (uniq_run main_uniq uniq_start) =
     Some ([Some 0, None, Some 0, Some 1, None, Some 0], [1, 0]) \<and>
   (\<exists>t. uniq_run main_uniq uniq_start = Some t \<and> distinct (u_deleted t))"
proof -
  have "uniq_ok main_uniq uniq_start" by code_simp
  moreover have "map_option (\<lambda>t. (u_printed t, u_deleted t)) (uniq_run main_uniq uniq_start) =
      Some ([Some 0, None, Some 0, Some 1, None, Some 0], [1, 0])"
    by code_simp
  ultimately show ?thesis using uniq_ptr_safe [of main_uniq] by blast
qed

end
