(* ===== verification/Pagemap.thy ===== *)
theory Pagemap
  imports Prelude
begin

text \<open>
  Virtual to physical addresses through \<open>/proc/PID/pagemap\<close> (\<open>src/va2pa/va2pa.c\<close>, and the decoder of
  \<open>src/va2pa/vmmalloc_fork.c\<close>).

  \<^item> The pagemap file is its bytes; each call of \<open>pread\<close> gets an answer, a negative number for an error, else
    the bytes the kernel is ready to give.
  \<^item> The page size, what \<open>open\<close> finds and the numbers \<open>strtoull\<close> reads are arguments.
\<close>

record PagemapEntry =
  pfn :: u64
  soft_dirty :: bool
  file_page :: bool
  swapped :: bool
  present :: bool

subsection \<open>Reading an entry\<close>

text \<open>\<open>pread\<close> of at most \<open>want\<close> bytes at a position: the bytes, \<open>None\<close> for \<open>-1\<close>.\<close>

definition pread :: "int \<Rightarrow> u8 list \<Rightarrow> nat \<Rightarrow> nat \<Rightarrow> u8 list option" where
  "pread answer pagemap want pos =
     (if answer < 0 then None else Some (take (min want (nat (max 1 answer))) (drop pos pagemap)))"

text \<open>The loop that fills \<open>data\<close>: every round stores at the beginning of \<open>data\<close>. The value \<open>Inl\<close> is the return
  with 1.\<close>

fun read_entry :: "int list \<Rightarrow> u8 list \<Rightarrow> nat \<Rightarrow> nat \<Rightarrow> u8 list \<Rightarrow> (unit + u8 list) run" where
  "read_entry as pagemap vpn nread data =
     (if nread < 8 then
        (case as of [] \<Rightarrow> Waits
         | a # as \<Rightarrow>
           (case pread a pagemap (8 - nread) (vpn * 8 + nread) of
              None \<Rightarrow> Ends (Inl ())
            | Some got \<Rightarrow>
                if got = [] then Ends (Inl ())
                else read_entry as pagemap vpn (nread + length got) (overwrite data 0 got)))
      else Ends (Inr data))"

declare read_entry.simps [simp del]

definition entry_of :: "u64 \<Rightarrow> PagemapEntry" where
  "entry_of data =
     \<lparr>pfn = data AND (push_bit 54 1 - 1), soft_dirty = drop_bit 54 data AND 1 \<noteq> 0, file_page = drop_bit 61 data AND 1 \<noteq> 0,
      swapped = drop_bit 62 data AND 1 \<noteq> 0, present = drop_bit 63 data AND 1 \<noteq> 0\<rparr>"

text \<open>\<open>mem\<close> is what the uninitialised \<open>data\<close> holds.\<close>

definition pagemap_get_entry :: "nat \<Rightarrow> u8 list \<Rightarrow> int list \<Rightarrow> u8 list \<Rightarrow> u64 \<Rightarrow> (unit + PagemapEntry) run" where
  "pagemap_get_entry page_size mem as pagemap vaddr =
     (case read_entry as pagemap (unat vaddr div page_size) 0 mem of
        Ends (Inr data) \<Rightarrow> Ends (Inr (entry_of (le_word data))) | Ends (Inl _) \<Rightarrow> Ends (Inl ())
      | Undefined \<Rightarrow> Undefined | Waits \<Rightarrow> Waits)"

text \<open>The product of the frame number and the page size is a \<open>long\<close>: undefined if it overflows. The number of
  descriptors left open is part of the result.\<close>

definition virt_to_phys_user :: "nat \<Rightarrow> u8 list \<Rightarrow> int list \<Rightarrow> u8 list option \<Rightarrow> u64 \<Rightarrow> ((unit + u64) \<times> nat) run" where
  "virt_to_phys_user page_size mem as pagemap_file vaddr =
     (case pagemap_file of None \<Rightarrow> Ends (Inl (), 0)
      | Some pagemap \<Rightarrow>
          (case pagemap_get_entry page_size mem as pagemap vaddr of
             Undefined \<Rightarrow> Undefined | Waits \<Rightarrow> Waits
           | Ends (Inl _) \<Rightarrow> Ends (Inl (), 1)
           | Ends (Inr entry) \<Rightarrow>
               if unat (pfn entry) * page_size < 2 ^ 63
               then Ends (Inr (of_nat (unat (pfn entry) * page_size) + of_nat (unat vaddr mod page_size)), 0)
               else Undefined))"

text \<open>\<open>main\<close>: the exit status and the address printed.\<close>

definition main_va2pa :: "nat \<Rightarrow> u8 list \<Rightarrow> int list \<Rightarrow> (u64 \<Rightarrow> u8 list option) \<Rightarrow> (string \<Rightarrow> u64) \<Rightarrow> string list \<Rightarrow> (nat \<times> u64 option) run" where
  "main_va2pa page_size mem as pagemap_of strtoull argv =
     (if length argv < 3 then Ends (1, None)
      else case virt_to_phys_user page_size mem as (pagemap_of (strtoull (argv ! 1))) (strtoull (argv ! 2)) of
        Ends (Inr paddr, _) \<Rightarrow> Ends (0, Some paddr) | Ends (Inl _, _) \<Rightarrow> Ends (1, None)
      | Undefined \<Rightarrow> Undefined | Waits \<Rightarrow> Waits)"

subsection \<open>The other decoder\<close>

record fork_pagemap =
  fork_pfn :: u64
  fork_soft_dirty :: bool
  exclusive :: bool
  fork_file_page :: bool
  fork_swapped :: bool
  fork_present :: bool

definition fork_entry_of :: "u64 \<Rightarrow> fork_pagemap" where
  "fork_entry_of data =
     \<lparr>fork_pfn = data AND (push_bit 55 1 - 1), fork_soft_dirty = drop_bit 55 data AND 1 \<noteq> 0, exclusive = drop_bit 56 data AND 1 \<noteq> 0,
      fork_file_page = drop_bit 61 data AND 1 \<noteq> 0, fork_swapped = drop_bit 62 data AND 1 \<noteq> 0, fork_present = drop_bit 63 data AND 1 \<noteq> 0\<rparr>"

definition fork_get_entry :: "nat \<Rightarrow> u8 list \<Rightarrow> int list \<Rightarrow> u8 list \<Rightarrow> u64 \<Rightarrow> (unit + fork_pagemap) run" where
  "fork_get_entry page_size mem as pagemap vaddr =
     (case read_entry as pagemap (unat vaddr div page_size) 0 mem of
        Ends (Inr data) \<Rightarrow> Ends (Inr (fork_entry_of (le_word data))) | Ends (Inl _) \<Rightarrow> Ends (Inl ())
      | Undefined \<Rightarrow> Undefined | Waits \<Rightarrow> Waits)"

text \<open>\<open>virt_to_phys\<close>: \<open>None\<close> is the result -1; and the flags \<open>print_phys_page\<close> adds to the line, in its order.\<close>

definition virt_to_phys :: "nat \<Rightarrow> u8 list \<Rightarrow> int list \<Rightarrow> u8 list option \<Rightarrow> u64 \<Rightarrow> fork_pagemap option run" where
  "virt_to_phys page_size mem as pagemap_file vaddr =
     (case pagemap_file of None \<Rightarrow> Ends None
      | Some pagemap \<Rightarrow>
          (case fork_get_entry page_size mem as pagemap vaddr of
             Ends (Inr page) \<Rightarrow> Ends (Some page) | Ends (Inl _) \<Rightarrow> Ends None | Undefined \<Rightarrow> Undefined | Waits \<Rightarrow> Waits))"

definition phys_page_line :: "nat \<Rightarrow> fork_pagemap option \<Rightarrow> string + u64 \<times> string list" where
  "phys_page_line page_size page =
     (case page of None \<Rightarrow> Inl ''cannot find pa for''
      | Some page \<Rightarrow> Inr (fork_pfn page * of_nat page_size,
          (if fork_present page then ['', present''] else []) @ (if fork_swapped page then ['', swapped''] else []) @
          (if fork_file_page page then ['', file''] else []) @ (if exclusive page then ['', exclusive''] else []) @
          (if fork_soft_dirty page then ['', dirty''] else [])))"

subsection \<open>The documented format\<close>

text \<open>The word the kernel writes: 55 bits of the frame number, then the flags.\<close>

definition pagemap_word :: "u64 \<Rightarrow> bool \<Rightarrow> bool \<Rightarrow> bool \<Rightarrow> bool \<Rightarrow> bool \<Rightarrow> u64" where
  "pagemap_word p soft excl is_file swap pres =
     take_bit 55 p OR push_bit 55 (of_bool soft) OR push_bit 56 (of_bool excl) OR push_bit 61 (of_bool is_file) OR
     push_bit 62 (of_bool swap) OR push_bit 63 (of_bool pres)"

lemma bit_pagemap_word:
  "bit (pagemap_word p soft excl is_file swap pres) n \<longleftrightarrow>
     n < 55 \<and> bit p n \<or> n = 55 \<and> soft \<or> n = 56 \<and> excl \<or> n = 61 \<and> is_file \<or> n = 62 \<and> swap \<or> n = 63 \<and> pres"
proof -
  have f: "bit (push_bit k (of_bool b) :: u64) n \<longleftrightarrow> n = k \<and> b" if "k < 64" for k b
    using that by (auto simp: bit_push_bit_iff bit_of_bool_iff)
  show ?thesis by (simp add: pagemap_word_def bit_or_iff bit_take_bit_iff f)
qed

lemma flag_bit: "drop_bit k w AND 1 \<noteq> 0 \<longleftrightarrow> bit w k" for w :: u64
  by (simp add: and_one_eq bit_iff_odd_drop_bit odd_iff_mod_2_eq_one)

lemma low_bits: "w AND (push_bit k 1 - 1) = take_bit k w" for w :: u64
  by (simp add: take_bit_eq_mask mask_eq_decr_exp push_bit_eq_mult)

lemmas entry_of_bits = entry_of_def [unfolded low_bits flag_bit] fork_entry_of_def [unfolded low_bits flag_bit]

text \<open>An entry of the file, and a kernel that gives it whole.\<close>

definition entry_at :: "u8 list \<Rightarrow> nat \<Rightarrow> u64 \<Rightarrow> bool" where
  "entry_at pagemap vpn w \<longleftrightarrow> vpn * 8 + 8 \<le> length pagemap \<and> le_word (take 8 (drop (vpn * 8) pagemap)) = w"

lemma read_entry_done: "8 \<le> nread \<Longrightarrow> read_entry as pagemap vpn nread data = Ends (Inr data)"
  by (simp add: read_entry.simps)

lemma read_entry_got:
  "nread < 8 \<Longrightarrow> pread a pagemap (8 - nread) (vpn * 8 + nread) = Some got \<Longrightarrow> got \<noteq> [] \<Longrightarrow>
   read_entry (a # as) pagemap vpn nread data = read_entry as pagemap vpn (nread + length got) (overwrite data 0 got)"
  by (subst read_entry.simps) simp

lemma read_whole:
  assumes "vpn * 8 + 8 \<le> length pagemap" "8 \<le> a" "length mem = 8"
  shows "read_entry (a # as) pagemap vpn 0 mem = Ends (Inr (take 8 (drop (vpn * 8) pagemap)))"
proof -
  define e where "e = take 8 (drop (vpn * 8) pagemap)"
  have e: "length e = 8" "e \<noteq> []" using assms(1) by (auto simp: e_def)
  have "pread a pagemap (8 - 0) (vpn * 8 + 0) = Some e" using assms(2) by (auto simp: pread_def min_def e_def)
  from read_entry_got [OF _ this e(2), of as mem]
  have "read_entry (a # as) pagemap vpn 0 mem = read_entry as pagemap vpn 8 (overwrite mem 0 e)" using e(1) by simp
  also have "overwrite mem 0 e = e" using e(1) assms(3) by (simp add: overwrite_def)
  finally show ?thesis by (simp add: read_entry_done e_def)
qed

text \<open>Remark: For an entry in the documented format that is read whole, \<open>vmmalloc_fork.c\<close> recovers every field.
  \<open>va2pa.c\<close> does so only for the three high flags: it cuts the frame number to 54 bits and reports the lost
  bit of the frame number as the flag \<open>soft_dirty\<close>, whose true bit it never looks at.\<close>

theorem pagemap_decoders:
  assumes "entry_at pagemap (unat vaddr div page_size) (pagemap_word p soft excl is_file swap pres)" "8 \<le> a" "length mem = 8"
  shows "fork_get_entry page_size mem (a # as) pagemap vaddr = Ends (Inr
      \<lparr>fork_pfn = take_bit 55 p, fork_soft_dirty = soft, exclusive = excl, fork_file_page = is_file, fork_swapped = swap, fork_present = pres\<rparr>) \<and>
    pagemap_get_entry page_size mem (a # as) pagemap vaddr = Ends (Inr
      \<lparr>pfn = take_bit 54 p, soft_dirty = bit p 54, file_page = is_file, swapped = swap, present = pres\<rparr>)"
proof -
  let ?w = "pagemap_word p soft excl is_file swap pres"
  have t: "take_bit 55 ?w = take_bit 55 p" "take_bit 54 ?w = take_bit 54 p"
    by (rule bit_word_eqI; auto simp: bit_take_bit_iff bit_pagemap_word)+
  have r: "read_entry (a # as) pagemap (unat vaddr div page_size) 0 mem = Ends (Inr (take 8 (drop (unat vaddr div page_size * 8) pagemap)))"
    "le_word (take 8 (drop (unat vaddr div page_size * 8) pagemap)) = ?w"
    using read_whole assms by (auto simp: entry_at_def)
  show ?thesis
    unfolding fork_get_entry_def pagemap_get_entry_def r(1)
    by (simp add: r(2) entry_of_bits t bit_pagemap_word)
qed

text \<open>Remark: The address \<open>va2pa.c\<close> prints is the documented frame number times the page size plus the offset in
  the page, for frame numbers that fit the decoder; the flag that says whether the page is present is not
  looked at, so a page that is not present gets an address too.\<close>

theorem va2pa_prints:
  assumes "3 \<le> length argv" "pagemap_of (strtoull (argv ! 1)) = Some pagemap" "strtoull (argv ! 2) = vaddr" "0 < page_size"
    and "entry_at pagemap (unat vaddr div page_size) (pagemap_word p soft excl is_file swap pres)" "8 \<le> a" "length mem = 8"
    and "p < 2 ^ 54" "unat p * page_size < 2 ^ 63"
  shows "main_va2pa page_size mem (a # as) pagemap_of strtoull argv = Ends (0, Some (of_nat (unat p * page_size + unat vaddr mod page_size)))"
proof -
  have "take_bit 54 p = p"
  proof (rule bit_word_eqI)
    show "bit (take_bit 54 p) n \<longleftrightarrow> bit p n" for n
      using bit_above [OF assms(8), of n] by (cases "54 \<le> n") (auto simp: bit_take_bit_iff)
  qed
  then show ?thesis
    using pagemap_decoders [OF assms(5-7)] assms(1-3,9) by (simp add: main_va2pa_def virt_to_phys_user_def)
qed

text \<open>Remark: When the kernel gives only the first bytes of an entry, the next call stores behind them in the file
  but again at the beginning of \<open>data\<close>: the entry is decoded from its own last bytes followed by what was in
  their place, not from the entry.\<close>

theorem short_read_mixed:
  assumes "0 < k" "k < 8" "int (8 - k) \<le> a" "vpn * 8 + 8 \<le> length pagemap" "length mem = 8"
  shows "read_entry (int k # a # as) pagemap vpn 0 mem =
    (let entry = take 8 (drop (vpn * 8) pagemap)
     in Ends (Inr (drop k entry @ drop (8 - k) (take k entry @ drop k mem))))"
proof -
  define e where "e = take 8 (drop (vpn * 8) pagemap)"
  have e: "length e = 8" using assms(4) by (simp add: e_def)
  have 1: "pread (int k) pagemap (8 - 0) (vpn * 8 + 0) = Some (take k e)"
    using assms(1,2) by (simp add: pread_def e_def min_def max_def)
  have "take (8 - k) (drop (vpn * 8 + k) pagemap) = drop k e" by (simp add: e_def drop_take add.commute)
  moreover have "min (8 - k) (nat (max 1 a)) = 8 - k" using assms(3) by linarith
  ultimately have 2: "pread a pagemap (8 - k) (vpn * 8 + k) = Some (drop k e)" using assms(2,3) by (simp add: pread_def)
  have "read_entry (int k # a # as) pagemap vpn 0 mem = read_entry (a # as) pagemap vpn k (overwrite mem 0 (take k e))"
    using read_entry_got [OF _ 1, of "a # as" mem] assms(1,2) e by (cases "take k e = []") auto
  also have "\<dots> = read_entry as pagemap vpn 8 (overwrite (overwrite mem 0 (take k e)) 0 (drop k e))"
    using read_entry_got [OF assms(2) 2, of as] assms(2) e by (cases "drop k e = []") auto
  also have "overwrite (overwrite mem 0 (take k e)) 0 (drop k e) = drop k e @ drop (8 - k) (take k e @ drop k mem)"
    using assms(2) e by (simp add: overwrite_def)
  finally show ?thesis unfolding Let_def e_def [symmetric] by (simp only: read_entry_done order_refl)
qed

subsection \<open>Instances\<close>

text \<open>A file with one entry, of the second page of the address space.\<close>

definition one_entry :: "u8 list" where
  "one_entry = replicate 8 0 @ [0x34, 0x12, 0, 0, 0, 0, 0x80, 0x80]"

lemma one_entry_at: "entry_at one_entry 1 (pagemap_word 0x1234 True False False False True)"
  by code_simp

theorem pagemap_decoders_witness:
  "fork_get_entry 4096 (replicate 8 7) [8] one_entry 4100 = Ends (Inr
      \<lparr>fork_pfn = 0x1234, fork_soft_dirty = True, exclusive = False, fork_file_page = False, fork_swapped = False, fork_present = True\<rparr>) \<and>
   pagemap_get_entry 4096 (replicate 8 7) [8] one_entry 4100 = Ends (Inr
      \<lparr>pfn = 0x1234, soft_dirty = False, file_page = False, swapped = False, present = True\<rparr>)"
  using pagemap_decoders [of one_entry 4100 4096 "0x1234" True False False False True 8 "replicate 8 7" "[]"] one_entry_at
  by (simp add: take_bit_word_eq_self)

theorem va2pa_prints_witness:
  "main_va2pa 4096 (replicate 8 7) [8] (\<lambda>_. Some one_entry) (\<lambda>_. 4100) [''va2pa'', ''1'', ''4100''] = Ends (0, Some 0x1234004)"
  using va2pa_prints [of "[''va2pa'', ''1'', ''4100'']" "\<lambda>_. Some one_entry" "\<lambda>_. 4100" one_entry 4100 4096 "0x1234" True False False False True
      8 "replicate 8 7" "[]"] one_entry_at by simp

theorem short_read_mixed_witness:
  "read_entry [4, 4] one_entry 1 0 (replicate 8 7) = Ends (Inr [0, 0, 0x80, 0x80, 7, 7, 7, 7])"
  using short_read_mixed [of 4 4 1 one_entry "replicate 8 7" "[]"] by (simp add: one_entry_def eval_nat_numeral)

end
