(* ===== verification/Spec2Isabelle.thy ===== *)
theory Spec2Isabelle
  imports Prelude Utf8Codec Utf8Length EncodeInline AsciiCheck ReadLe Atomics QLayout QSpinlock QDrivers McsLock C2cLat MtPrint MtCond Order Order2 MemoryOrder FalseSharing CasBench Verbs Link RdmaRw RdmaRwLink RdmaRwSafe RdmaRwRuns RdmaBasic RdmaBasicSafe RdmaFile RdmaFileSafe DeviceQuery VioLink Vio Vio2 PapiVio Tail CmdServer OpenFiles AtomicWrites Pipe SockUn MappedFiles FdPassing Signals Buckets CountSort ModeRange SortRange MinMax Mydd SortNth Penalty SumLoops Workload BitCounts Pext Hashes SmartPtr Pagemap
begin

text \<open>
  A verification development for a collection of C and C++ programs: small systems programs, benchmarks and
  experiments. Each program is modelled by itself; where programs share code or a pattern, the theories share it.

  \<^bold>\<open>How the theories read.\<close> A C function is a HOL function with the name it has in the source (a suffix where
  HOL has the name already). An array is a list; a load or store outside it, a signed overflow or another undefined
  behaviour is the value \<open>None\<close>. An exit on an error is a constructor or the left side of a sum. Machine
  integers keep their width (\<open>u8\<close> to \<open>u64\<close> of \<open>Prelude\<close>) where wrap-around can matter; elsewhere a note in the theory says
  why unbounded numbers are enough. Programs with threads, processes or a peer are step relations: one step is one
  access to shared memory, one system call, or one handler, and a theorem speaks of every interleaving. What an
  operating system, a library or an adapter answers is an argument: a list of answers, a function, or a relation.

  \<^bold>\<open>Base.\<close> \<open>Prelude\<close> has the integer types, arrays with bounds (\<open>c_load\<close>, \<open>c_store\<close>), C strings and numbers, reachability, and the
  interfaces of state machines: \<open>invariant_system\<close> (an invariant that all steps keep), its extensions \<open>lock_system\<close>
  (at most one holder), \<open>progress_lock\<close> (somebody can always go on), \<open>paced_system\<close> (a potential that only waiting restores) and \<open>ending_protocol\<close> (a measure that every step
  lowers, and an end that every run reaches). Every machine below is an interpretation of one of them, and its
  properties are the facts of the locale at the model's own definitions.

  \<^bold>\<open>UTF-8\<close> (\<open>src/ceph-utf8\<close>, \<open>src/utf8-len.c\<close>). \<open>Utf8Codec\<close>: the table-driven and the unrolled encoder, the decoder,
  the self check; \<open>utf8_bytes\<close> is the specification. The encoders are equal on every input, decoding inverts encoding,
  and what the decoder accepts is described exactly. \<open>EncodeInline\<close>: the third encoder and its benchmark, which overruns
  its array exactly when the encodings are longer than it. \<open>Utf8Length\<close>: the two counters of characters, correct
  against well-formed characters and equal to each other.

  \<^bold>\<open>Bytes\<close> (\<open>src/ascii.c\<close>, \<open>src/ascii.S\<close>, \<open>src/read-le.cc\<close>). \<open>AsciiCheck\<close>: the three validators and the self test;
  the locale \<open>ascii_validator\<close> is their contract, interpreted by each of them. \<open>ReadLe\<close>: the two readers.

  \<^bold>\<open>Locks\<close> (\<open>src/qspinlock\<close>). \<open>Atomics\<close>: the operations of \<open>include/atomic\<close>, as loops of exclusive loads and
  stores against a schedule of other cores and as single instructions; both linearise to one update.
  \<open>QLayout\<close>: the lock word and its parts. \<open>QSpinlock\<close>: lock and unlock, one step per access; mutual exclusion, first
  in first out, accuracy of the word, no abort, no deadlock. \<open>McsLock\<close>: the same for \<open>mcs_spinlock.h\<close>, for any number of
  threads. Both locks interpret \<open>progress_lock\<close>. Memory is sequentially consistent there.
  \<open>QDrivers\<close> puts the test and the benchmark around the lock: workers, printed counts, and the dump at the end.
  \<open>C2cLat\<close> (\<open>src/c2c-lat\<close>): two threads that pass a shared variable to and fro; it interprets \<open>paced_system\<close>.

  \<^bold>\<open>Threads\<close> (\<open>src/mt-print.c\<close>, \<open>src/mt-cond.c\<close>, \<open>src/order.c\<close>, \<open>src/order2.cc\<close>, \<open>src/memory-order\<close>,
  \<open>src/cpp/false-sharing.cc\<close>, \<open>src/mysql/bench\<close>, \<open>src/cas-lat.c\<close>). \<open>MtPrint\<close>, \<open>MtCond\<close> and \<open>Order\<close>: what is
  printed under every schedule, that no wake-up is lost, and which load order lets a consumer see an old value; the first
  two interpret \<open>ending_protocol\<close>.
  \<open>Order2\<close>: two threads that store and then load the other's variable; they never both read 0 when loads keep
  their place behind the exchange, and they do in a run where a load goes first. \<open>MemoryOrder\<close>: four programs that look for
  accesses out of order, and all outcomes of their rounds. \<open>FalseSharing\<close>: two counters that two writers keep in step. \<open>CasBench\<close>: a lock
  with full and with half barriers, and what the barriers let move.

  \<^bold>\<open>RDMA\<close> (\<open>src/rdma\<close>). \<open>Verbs\<close>: the calls a handler makes, recorded and then performed by a parameter that says
  which succeed. \<open>Link\<close>: two endpoints with their queues of requests and completions, and the moves of a transport; a
  transport is any relation the documentation of a reliable connection allows. Over them: \<open>RdmaRw\<close>, \<open>RdmaRwLink\<close>,
  \<open>RdmaRwSafe\<close>, \<open>RdmaRwRuns\<close> (read and write example: handlers, both sides, invariant, theorems and particular runs),
  \<open>RdmaBasic\<close>, \<open>RdmaBasicSafe\<close> (one message each way) and \<open>RdmaFile\<close>, \<open>RdmaFileSafe\<close> (file transfer). They show what is
  printed or written, that nobody dies, and that every run ends within a stated number of steps
  (\<open>ending_protocol\<close>); two runs show where completions that come late break the first program. \<open>DeviceQuery\<close> is the plan of calls of
  \<open>ibv.c\<close>, what it opens and what it gives back.

  \<^bold>\<open>Network benchmarks\<close> (\<open>src/mysql\<close>, \<open>src/papi\<close>). \<open>VioLink\<close>: two programs over two bounded byte streams, with the interfaces
  \<open>endpoint\<close> (what a side does in each phase of a request) and \<open>request_reply\<close> (client and server together). \<open>Vio\<close> and
  \<open>Vio2\<close> model the two pairs of programs and interpret both. \<open>PapiVio\<close> is a stream in one direction, with counters around it. \<open>Mydd\<close>: which blocks the disk benchmark writes, by threads, with requests in
  flight, and by files.

  \<^bold>\<open>System programming\<close> (\<open>src/tlpi\<close>, \<open>src/va2pa\<close>). \<open>Tail\<close>: the last lines of a file, with the ring of line starts.
  \<open>CmdServer\<close>: the command server, refined to an abstract session. \<open>Pagemap\<close>: physical addresses.
  \<open>OpenFiles\<close>: descriptors that share an offset, the append mode, and what three small programs leave in
  their files. \<open>AtomicWrites\<close>: processes that write whole lines to one file. \<open>Pipe\<close>: a parent and a child that echo characters
  over two pipes, and how many system calls it takes. \<open>SockUn\<close>: messages that a receiver cuts to eight bytes. \<open>MappedFiles\<close>: a
  file that is filled through a mapping and by \<open>write\<close>, and a memory object that two processes share. \<open>FdPassing\<close> (also
  \<open>src/unix-sock\<close>): descriptors that are sent to another process or survive \<open>exec\<close>. \<open>Signals\<close>: processes that wait for signals, by all their runs.
  \<open>AtomicWrites\<close>,
  \<open>Pipe\<close> and \<open>SockUn\<close> interpret \<open>ending_protocol\<close>.

  \<^bold>\<open>Array algorithms\<close> (\<open>src/cpp\<close>, \<open>src/ceph-hash.c\<close>, \<open>src/rabin.c\<close>). \<open>Buckets\<close> has the locale \<open>buckets\<close>: counters that
  become positions give the stable sort. \<open>CountSort\<close> and \<open>SortRange\<close> interpret it for the two counting sorts and show them equal to the
  stable sort of the library; \<open>ModeRange\<close>, \<open>MinMax\<close>, \<open>Pext\<close> and \<open>Hashes\<close> show the fast form of a computation
  equal to the plain one.
  \<open>SortNth\<close> and \<open>Penalty\<close> use them: four ways to sort indices, and what a search for extremes costs. \<open>SumLoops\<close>: sums that do not depend on
  the order of the loops. \<open>Workload\<close>: which of 800 functions a program calls. \<open>BitCounts\<close>: bits that are counted
  and found in two ways, and conversions of integers. \<open>SmartPtr\<close>: a counting and a unique pointer, on a heap of objects; which programs they keep
  from undefined behaviour, and two uses that they do not.

  \<^bold>\<open>Loops and their ends.\<close> Loops over arrays recurse on what is left of the array. Loops whose end depends on the
  environment consume its list of answers; a run that has used them up is a value of its own (\<open>Waits\<close>), so that
  no theorem holds only because a run stopped early. A loop that may not end is a \<open>partial_function\<close>, whose value
  \<open>None\<close> means that it does not, and a theorem says when it does. No function has fuel.

  \<^bold>\<open>Not modelled.\<close> The clock and what is printed about time; the kernel's side of system calls; weak memory, except
  where \<open>Order\<close>, \<open>Order2\<close>, \<open>MemoryOrder\<close> and \<open>CasBench\<close> need it. Programs that time single instructions, print what a library or the kernel answers, or
  demonstrate a feature of a compiler or a processor have no logic to verify: the remaining micro benchmarks, the remaining
  exercises of \<open>src/tlpi\<close>, demonstrations under \<open>src/cpp\<close>, load generators under \<open>src/mysql\<close>, and
  \<open>src/dumpk\<close>. Programs in other languages are outside the development.
\<close>

end
